(* ===== verification/SOS_Base.thy ===== *)
theory SOS_Base
  imports Main "HOL-Library.Word" "HOL-Library.Monad_Syntax"
begin

text \<open>
  Shared vocabulary of the development: the machine types of \<^verbatim>\<open>os/types.h\<close>, the return
  codes of \<^verbatim>\<open>os/errno.h\<close>, the alignment macros of \<^verbatim>\<open>os/macros.h\<close> and the page
  geometry of \<^verbatim>\<open>os/physmem.h\<close>, with the facts on words that the components share.

  A kernel routine that can stop the machine (\<^verbatim>\<open>SOS_ASSERT_FATAL\<close>,
  \<^verbatim>\<open>SOS_FATAL_ERROR\<close>) or run through an invalid pointer returns an \<open>option\<close>:
  \<open>None\<close> is the machine stopped, \<open>Some\<close> the value and the state it leaves.
\<close>

unbundle bit_operations_syntax

named_theorems errno_defs \<open>values of the return codes\<close>
named_theorems page_defs \<open>page geometry constants\<close>

section \<open>Types\<close>

type_synonym u8 = "8 word"
type_synonym u16 = "16 word"
type_synonym u32 = "32 word"
type_synonym sos_paddr_t = u32
type_synonym sos_vaddr_t = u32
type_synonym sos_size_t = u32
type_synonym sos_count_t = u32
type_synonym sos_ret_t = int

section \<open>Return codes and fatal errors\<close>

definition SOS_OK :: sos_ret_t where [errno_defs]: "SOS_OK = 0"
definition SOS_EINVAL :: sos_ret_t where [errno_defs]: "SOS_EINVAL = 1"
definition SOS_ENOSUP :: sos_ret_t where [errno_defs]: "SOS_ENOSUP = 2"
definition SOS_ENOMEM :: sos_ret_t where [errno_defs]: "SOS_ENOMEM = 3"
definition SOS_EBUSY :: sos_ret_t where [errno_defs]: "SOS_EBUSY = 4"
definition SOS_EINTR :: sos_ret_t where [errno_defs]: "SOS_EINTR = 5"
definition SOS_EPERM :: sos_ret_t where [errno_defs]: "SOS_EPERM = 6"
definition SOS_EFATAL :: sos_ret_t where [errno_defs]: "SOS_EFATAL = 255"
definition FALSE_ret :: sos_ret_t where [errno_defs]: "FALSE_ret = 0"
definition TRUE_ret :: sos_ret_t where [errno_defs]: "TRUE_ret = 1"

definition sos_assert_fatal :: "bool \<Rightarrow> unit option" where
  "sos_assert_fatal e = (if e then Some () else None)"

lemma sos_assert_fatal_simps [simp]:
  "sos_assert_fatal True = Some ()"
  "sos_assert_fatal False = None"
  "(sos_assert_fatal e = Some u) = e"
  "(sos_assert_fatal e = None) = (\<not> e)"
  by (simp_all add: sos_assert_fatal_def)

lemma bind_assert_Some [simp]:
  "(sos_assert_fatal e \<bind> f = Some r) = (e \<and> f () = Some r)"
  by (simp add: sos_assert_fatal_def)

section \<open>Repetition in the option monad\<close>

fun fold_opt :: "('x \<Rightarrow> 's \<Rightarrow> 's option) \<Rightarrow> 'x list \<Rightarrow> 's \<Rightarrow> 's option" where
  "fold_opt f [] s = Some s"
| "fold_opt f (x # xs) s = f x s \<bind> fold_opt f xs"

fun iter_opt :: "('s \<Rightarrow> ('a \<times> 's) option) \<Rightarrow> nat \<Rightarrow> 's \<Rightarrow> ('a list \<times> 's) option" where
  "iter_opt f 0 s = Some ([], s)"
| "iter_opt f (Suc n) s = do {
     (a, s) \<leftarrow> f s;
     (as, s) \<leftarrow> iter_opt f n s;
     Some (a # as, s) }"

lemma fold_opt_append: "fold_opt f (xs @ ys) s = fold_opt f xs s \<bind> fold_opt f ys"
proof (induction xs arbitrary: s)
  case (Cons x xs)
  then show ?case by (cases "f x s") simp_all
qed simp

section \<open>Alignment macros\<close>

definition SOS_ALIGN_INF :: "u32 \<Rightarrow> u32 \<Rightarrow> u32" where
  "SOS_ALIGN_INF val boundary = val AND NOT (boundary - 1)"

definition SOS_ALIGN_SUP :: "u32 \<Rightarrow> u32 \<Rightarrow> u32" where
  "SOS_ALIGN_SUP val boundary = ((val - 1) AND NOT (boundary - 1)) + boundary"

definition SOS_IS_ALIGNED :: "u32 \<Rightarrow> u32 \<Rightarrow> bool" where
  "SOS_IS_ALIGNED val boundary \<longleftrightarrow> val AND (boundary - 1) = 0"

definition SOS_IS_POWER_OF_2 :: "u32 \<Rightarrow> bool" where
  "SOS_IS_POWER_OF_2 val \<longleftrightarrow> (val - 1) AND val = 0"

lemma and_not_mask_sub: "x AND NOT (mask n) = x - take_bit n (x::'a::len word)"
proof -
  have "x AND NOT (mask n) = push_bit n (drop_bit n x)"
    by (rule bit_word_eqI) (auto simp: bit_simps)
  with bits_ident [of n x] show ?thesis
    by (simp add: algebra_simps)
qed

lemma power2_minus_one_mask: "(2 ^ n - 1 :: u32) = mask n"
  by (simp add: mask_eq_exp_minus_1)

lemma unat_take_bit: "unat (take_bit n (x::'a::len word)) = unat x mod 2 ^ n"
  by (subst unsigned_take_bit_eq) (rule take_bit_eq_mod)

lemma unat_of_nat_small: "n < 2 ^ 32 \<Longrightarrow> unat (word_of_nat n :: u32) = n"
  by (simp add: unsigned_of_nat take_bit_nat_eq_self)

lemma unat_add_small: "unat a + unat b < 2 ^ 32 \<Longrightarrow> unat (a + b :: u32) = unat a + unat b"
  by (simp add: unat_word_ariths)

lemma word_eq_of_nat: "unat (p :: 'a::len word) = n \<Longrightarrow> p = word_of_nat n"
  by auto

lemma unat_power2: "k < 32 \<Longrightarrow> unat (2 ^ k :: u32) = 2 ^ k"
  using unat_of_nat_small [of "2 ^ k"] power_strict_increasing [of k 32 "2::nat"] by simp

lemma unat_align_inf:
  "unat (SOS_ALIGN_INF x (2 ^ k)) = unat x div 2 ^ k * 2 ^ k"
proof -
  have le: "take_bit k x \<le> x"
    by (simp add: word_le_nat_alt unat_take_bit)
  have "unat (SOS_ALIGN_INF x (2 ^ k)) = unat x - unat x mod 2 ^ k"
    using unat_sub [OF le]
    by (simp add: SOS_ALIGN_INF_def power2_minus_one_mask and_not_mask_sub unat_take_bit)
  then show ?thesis
    by (simp add: minus_mod_eq_div_mult)
qed

lemma is_aligned_iff:
  "SOS_IS_ALIGNED x (2 ^ k) \<longleftrightarrow> unat x mod 2 ^ k = 0"
proof -
  have "SOS_IS_ALIGNED x (2 ^ k) \<longleftrightarrow> take_bit k x = 0"
    by (simp add: SOS_IS_ALIGNED_def power2_minus_one_mask take_bit_eq_mask)
  also have "\<dots> \<longleftrightarrow> unat (take_bit k x) = 0"
    by (simp only: unat_eq_0)
  finally show ?thesis
    by (simp add: unat_take_bit)
qed

lemma align_sup_zero: "SOS_ALIGN_SUP 0 (2 ^ k) = 0"
proof -
  have "(0 - 1 :: u32) AND NOT (2 ^ k - 1) = NOT (mask k)"
    by (simp only: power2_minus_one_mask diff_0 and.left_neutral)
  then show ?thesis
    by (simp add: SOS_ALIGN_SUP_def not_eq_complement mask_eq_exp_minus_1)
qed

lemma align_sup_pos:
  assumes "x \<noteq> 0"
  shows "SOS_ALIGN_SUP x (2 ^ k) = SOS_ALIGN_INF (x - 1) (2 ^ k) + 2 ^ k"
  by (simp add: SOS_ALIGN_SUP_def SOS_ALIGN_INF_def)

lemma unat_align_sup:
  assumes k: "k < 32" and fits: "unat x + 2 ^ k \<le> 2 ^ 32"
  shows "unat (SOS_ALIGN_SUP x (2 ^ k)) = (unat x + 2 ^ k - 1) div 2 ^ k * 2 ^ k"
proof (cases "x = 0")
  case True
  then show ?thesis by (simp add: align_sup_zero)
next
  case False
  have ge: "1 \<le> unat x" using False by (simp add: Suc_leI unat_gt_0)
  have u1: "unat (x - 1) = unat x - 1"
    using False by (simp add: unat_minus_one)
  have uk: "unat (2 ^ k :: u32) = 2 ^ k"
    using k by (rule unat_power2)
  have dk: "(unat x - 1 + 2 ^ k) div 2 ^ k = (unat x - 1) div 2 ^ k + 1"
    by (rule div_add_self2) simp
  have bound: "(unat x - 1) div 2 ^ k * 2 ^ k + 2 ^ k < 2 ^ 32"
  proof -
    have "(unat x - 1) div 2 ^ k * 2 ^ k \<le> unat x - 1" by simp
    with fits ge show ?thesis by linarith
  qed
  have "unat (SOS_ALIGN_SUP x (2 ^ k)) = (unat x - 1) div 2 ^ k * 2 ^ k + 2 ^ k"
    using bound by (simp add: align_sup_pos [OF False] unat_word_ariths unat_align_inf u1 uk)
  also have "\<dots> = (unat x - 1 + 2 ^ k) div 2 ^ k * 2 ^ k"
    by (simp only: dk add_mult_distrib mult_1)
  also have "unat x - 1 + 2 ^ k = unat x + 2 ^ k - 1"
    using ge by simp
  finally show ?thesis .
qed

section \<open>First occurrences\<close>

text \<open>The elements of a list in the order they first appear in it.\<close>

primrec firsts :: "'a list \<Rightarrow> 'a list" where
  "firsts [] = []"
| "firsts (x # xs) = x # removeAll x (firsts xs)"

lemma firsts_filter: "firsts (filter P xs) = filter P (firsts xs)"
proof (induction xs)
  case (Cons x xs)
  have "removeAll x (filter P ys) = filter P ys" if "\<not> P x" for ys
    using that by (induction ys) auto
  moreover have "removeAll x (filter P ys) = filter P (removeAll x ys)" for ys
    by (induction ys) auto
  ultimately show ?case using Cons by simp
qed simp

lemma set_firsts [simp]: "set (firsts xs) = set xs"
  by (induction xs) auto

lemma distinct_firsts [simp]: "distinct (firsts xs)"
  by (induction xs) (simp_all add: distinct_removeAll)

lemma firsts_distinct: "distinct xs \<Longrightarrow> firsts xs = xs"
  by (induction xs) simp_all

section \<open>Page geometry\<close>

definition SOS_PAGE_SIZE :: u32 where [page_defs]: "SOS_PAGE_SIZE = 4096"
definition SOS_PAGE_SHIFT :: nat where [page_defs]: "SOS_PAGE_SHIFT = 12"
definition SOS_PAGE_MASK :: u32 where [page_defs]: "SOS_PAGE_MASK = 4095"
definition BIOS_N_VIDEO_START :: sos_paddr_t where [page_defs]: "BIOS_N_VIDEO_START = 0xa0000"
definition BIOS_N_VIDEO_END :: sos_paddr_t where [page_defs]: "BIOS_N_VIDEO_END = 0x100000"

definition SOS_PAGE_ALIGN_INF :: "u32 \<Rightarrow> u32" where
  "SOS_PAGE_ALIGN_INF val = SOS_ALIGN_INF val SOS_PAGE_SIZE"

definition SOS_PAGE_ALIGN_SUP :: "u32 \<Rightarrow> u32" where
  "SOS_PAGE_ALIGN_SUP val = SOS_ALIGN_SUP val SOS_PAGE_SIZE"

definition SOS_IS_PAGE_ALIGNED :: "u32 \<Rightarrow> bool" where
  "SOS_IS_PAGE_ALIGNED addr = SOS_IS_ALIGNED addr SOS_PAGE_SIZE"

lemma page_size_power: "SOS_PAGE_SIZE = 2 ^ 12"
  by (simp add: SOS_PAGE_SIZE_def)

lemma unat_page_align_inf: "unat (SOS_PAGE_ALIGN_INF x) = unat x div 4096 * 4096"
  using unat_align_inf [of x 12] by (simp add: SOS_PAGE_ALIGN_INF_def page_size_power)

lemma unat_page_align_sup:
  "unat x + 4096 \<le> 2 ^ 32 \<Longrightarrow> unat (SOS_PAGE_ALIGN_SUP x) = (unat x + 4095) div 4096 * 4096"
  using unat_align_sup [of 12 x] by (simp add: SOS_PAGE_ALIGN_SUP_def page_size_power)

lemma page_align_inf_le: "SOS_PAGE_ALIGN_INF x \<le> x"
  by (simp add: word_le_nat_alt unat_page_align_inf)

lemma is_page_aligned_iff: "SOS_IS_PAGE_ALIGNED x \<longleftrightarrow> unat x mod 4096 = 0"
  using is_aligned_iff [of x 12] by (simp add: SOS_IS_PAGE_ALIGNED_def page_size_power)

lemma page_mask_eq: "SOS_PAGE_MASK = mask 12"
  by (simp add: SOS_PAGE_MASK_def mask_eq_exp_minus_1)

lemma and_page_mask: "unat (x AND SOS_PAGE_MASK) = unat x mod 4096"
  using unat_take_bit [of 12 x] by (simp add: page_mask_eq take_bit_eq_mask)

lemma and_page_mask_zero: "x AND SOS_PAGE_MASK = 0 \<longleftrightarrow> unat x mod 4096 = 0"
  using and_page_mask [of x] by (metis unat_eq_0)

lemma unat_drop_bit: "unat (drop_bit n (x::'a::len word)) = unat x div 2 ^ n"
  by (subst unat_drop_bit_eq) (rule drop_bit_eq_div)

end
