(* ===== verification/Circular_List.thy ===== *)
theory Circular_List
  imports SOS_Base
begin

text \<open>
  The circular doubly linked lists of \<^verbatim>\<open>os/list.h\<close>, at the level of the C macros: a list
  is a head pointer, its nodes carry the two link fields, \<open>None\<close> is the \<^verbatim>\<open>NULL\<close> pointer,
  and following a \<^verbatim>\<open>NULL\<close> link makes the macro return \<open>None\<close> (no state).

  \<open>clist\<close> relates such a structure to the list of its nodes. Every macro is shown to
  refine the plain list operation that the other theories use for the kernel's
  intrusive lists, and to leave the links of all other nodes unchanged.
\<close>

section \<open>The macros of list.h\<close>

record 'a dlist =
  dl_head :: "'a option"
  dl_prev :: "'a \<Rightarrow> 'a option"
  dl_next :: "'a \<Rightarrow> 'a option"

definition set_next :: "'a \<Rightarrow> 'a option \<Rightarrow> 'a dlist \<Rightarrow> 'a dlist" where
  "set_next x v l = l\<lparr>dl_next := (dl_next l)(x := v)\<rparr>"

definition set_prev :: "'a \<Rightarrow> 'a option \<Rightarrow> 'a dlist \<Rightarrow> 'a dlist" where
  "set_prev x v l = l\<lparr>dl_prev := (dl_prev l)(x := v)\<rparr>"

definition list_init_named :: "'a dlist \<Rightarrow> 'a dlist" where
  "list_init_named l = l\<lparr>dl_head := None\<rparr>"

definition list_singleton_named :: "'a \<Rightarrow> 'a dlist \<Rightarrow> 'a dlist" where
  "list_singleton_named item l =
     (set_next item (Some item) (set_prev item (Some item) l))\<lparr>dl_head := Some item\<rparr>"

definition list_is_empty_named :: "'a dlist \<Rightarrow> bool" where
  "list_is_empty_named l = (dl_head l = None)"

definition list_get_head_named :: "'a dlist \<Rightarrow> 'a option" where
  "list_get_head_named l = dl_head l"

definition list_get_tail_named :: "'a dlist \<Rightarrow> 'a option" where
  "list_get_tail_named l = (case dl_head l of Some h \<Rightarrow> dl_prev l h | None \<Rightarrow> None)"

definition list_insert_atleft_named :: "'a \<Rightarrow> 'a \<Rightarrow> 'a dlist \<Rightarrow> 'a dlist option" where
  "list_insert_atleft_named before_this item l = do {
     p \<leftarrow> dl_prev l before_this;
     let l = set_next p (Some item) l;
     let l = set_prev item (dl_prev l before_this) l;
     let l = set_prev before_this (Some item) l;
     Some (set_next item (Some before_this) l) }"

definition list_insert_before_named :: "'a \<Rightarrow> 'a \<Rightarrow> 'a dlist \<Rightarrow> 'a dlist option" where
  "list_insert_before_named before_this item l = do {
     l \<leftarrow> list_insert_atleft_named before_this item l;
     Some (if dl_head l = Some before_this then l\<lparr>dl_head := Some item\<rparr> else l) }"

definition list_insert_after_named :: "'a \<Rightarrow> 'a \<Rightarrow> 'a dlist \<Rightarrow> 'a dlist option" where
  "list_insert_after_named after_this item l = do {
     n \<leftarrow> dl_next l after_this;
     let l = set_prev n (Some item) l;
     let l = set_next item (dl_next l after_this) l;
     let l = set_next after_this (Some item) l;
     Some (set_prev item (Some after_this) l) }"

definition list_add_head_named :: "'a \<Rightarrow> 'a dlist \<Rightarrow> 'a dlist option" where
  "list_add_head_named item l = do {
     l \<leftarrow> (case dl_head l of
              Some h \<Rightarrow> list_insert_before_named h item l
            | None \<Rightarrow> Some (list_singleton_named item l));
     Some (l\<lparr>dl_head := Some item\<rparr>) }"

definition list_add_tail_named :: "'a \<Rightarrow> 'a dlist \<Rightarrow> 'a dlist option" where
  "list_add_tail_named item l =
     (case dl_head l of
        Some h \<Rightarrow> list_insert_atleft_named h item l
      | None \<Rightarrow> Some (list_singleton_named item l))"

definition list_delete_named :: "'a \<Rightarrow> 'a dlist \<Rightarrow> 'a dlist option" where
  "list_delete_named item l =
     (if dl_next l item = Some item \<and> dl_prev l item = Some item
      then Some (set_next item None (set_prev item None (l\<lparr>dl_head := None\<rparr>)))
      else do {
        p \<leftarrow> dl_prev l item;
        let l = set_next p (dl_next l item) l;
        n \<leftarrow> dl_next l item;
        let l = set_prev n (dl_prev l item) l;
        let l = (if dl_head l = Some item then l\<lparr>dl_head := dl_next l item\<rparr> else l);
        Some (set_prev item None (set_next item None l)) })"

definition list_pop_head_named :: "'a dlist \<Rightarrow> ('a \<times> 'a dlist) option" where
  "list_pop_head_named l = do {
     ret_elt \<leftarrow> dl_head l;
     l \<leftarrow> list_delete_named ret_elt l;
     Some (ret_elt, l) }"

text \<open>
  The traversal macros are loops: \<open>None\<close> is a traversal that never meets the head
  again. The result is the nodes visited, in order.
\<close>

partial_function (option) foreach_forward_from ::
    "'a dlist \<Rightarrow> 'a option \<Rightarrow> nat \<Rightarrow> 'a list \<Rightarrow> 'a list option" where
  "foreach_forward_from l iterator nb_elements visited =
     (case iterator of
        None \<Rightarrow> Some visited
      | Some x \<Rightarrow>
          if nb_elements = 0 \<or> iterator \<noteq> dl_head l
          then foreach_forward_from l (dl_next l x) (Suc nb_elements) (visited @ [x])
          else Some visited)"

definition list_foreach_forward_named :: "'a dlist \<Rightarrow> 'a list option" where
  "list_foreach_forward_named l = foreach_forward_from l (dl_head l) 0 []"

partial_function (option) foreach_backward_from ::
    "'a dlist \<Rightarrow> 'a option \<Rightarrow> nat \<Rightarrow> 'a list \<Rightarrow> 'a list option" where
  "foreach_backward_from l iterator nb_elements visited =
     (case iterator of
        None \<Rightarrow> Some visited
      | Some x \<Rightarrow>
          if nb_elements = 0 \<or> iterator \<noteq> list_get_tail_named l
          then foreach_backward_from l (dl_prev l x) (Suc nb_elements) (visited @ [x])
          else Some visited)"

definition list_foreach_backward_named :: "'a dlist \<Rightarrow> 'a list option" where
  "list_foreach_backward_named l = foreach_backward_from l (list_get_tail_named l) 0 []"

definition list_foreach_early_break :: "'a dlist \<Rightarrow> 'a option \<Rightarrow> nat \<Rightarrow> bool" where
  "list_foreach_early_break l iterator nb_elements \<longleftrightarrow>
     dl_head l \<noteq> None \<and>
     (dl_head l \<noteq> iterator \<or> (dl_head l = iterator \<and> nb_elements = 0))"

partial_function (option) list_collapse_named :: "'a dlist \<Rightarrow> 'a list \<Rightarrow> ('a list \<times> 'a dlist) option" where
  "list_collapse_named l removed =
     (case dl_head l of
        None \<Rightarrow> Some (removed, l)
      | Some x \<Rightarrow> do {
          l' \<leftarrow> list_delete_named x l;
          list_collapse_named l' (removed @ [x]) })"


section \<open>Well-formed rings of nodes\<close>

definition link :: "'a dlist \<Rightarrow> 'a \<Rightarrow> 'a \<Rightarrow> bool" where
  "link l x y \<longleftrightarrow> dl_next l x = Some y \<and> dl_prev l y = Some x"

fun path :: "'a dlist \<Rightarrow> 'a list \<Rightarrow> bool" where
  "path l [] = True"
| "path l [x] = True"
| "path l (x # y # zs) = (link l x y \<and> path l (y # zs))"

definition ring :: "'a dlist \<Rightarrow> 'a list \<Rightarrow> bool" where
  "ring l xs \<longleftrightarrow> distinct xs \<and> path l (case xs of [] \<Rightarrow> [] | x # _ \<Rightarrow> xs @ [x])"

definition clist :: "'a dlist \<Rightarrow> 'a list \<Rightarrow> bool" where
  "clist l xs \<longleftrightarrow>
     dl_head l = (case xs of [] \<Rightarrow> None | x # _ \<Rightarrow> Some x) \<and> ring l xs"

definition same_links :: "'a set \<Rightarrow> 'a dlist \<Rightarrow> 'a dlist \<Rightarrow> bool" where
  "same_links A l l' \<longleftrightarrow>
     (\<forall>z. z \<notin> A \<longrightarrow> dl_next l' z = dl_next l z \<and> dl_prev l' z = dl_prev l z)"

lemma link_upd [simp]:
  "link (set_next a v l) x y \<longleftrightarrow>
     (if x = a then v = Some y \<and> dl_prev l y = Some x else link l x y)"
  "link (set_prev b v l) x y \<longleftrightarrow>
     (if y = b then v = Some x \<and> dl_next l x = Some y else link l x y)"
  "link (l\<lparr>dl_head := h\<rparr>) x y = link l x y"
  by (auto simp: link_def set_next_def set_prev_def)

lemma dlist_sel [simp]:
  "dl_next (set_next a v l) = (dl_next l)(a := v)"
  "dl_prev (set_next a v l) = dl_prev l"
  "dl_head (set_next a v l) = dl_head l"
  "dl_next (set_prev a v l) = dl_next l"
  "dl_prev (set_prev a v l) = (dl_prev l)(a := v)"
  "dl_head (set_prev a v l) = dl_head l"
  by (simp_all add: set_next_def set_prev_def)

lemma path_append:
  "path l (xs @ y # ys) \<longleftrightarrow>
     path l xs \<and> (xs \<noteq> [] \<longrightarrow> link l (last xs) y) \<and> path l (y # ys)"
  by (induction l xs rule: path.induct) auto

lemma path_cong:
  assumes "\<forall>x \<in> set (butlast xs). dl_next l' x = dl_next l x"
    and "\<forall>x \<in> set (tl xs). dl_prev l' x = dl_prev l x"
  shows "path l' xs = path l xs"
  using assms
proof (induction l xs rule: path.induct)
  case (3 l x y zs)
  have "path l' (y # zs) = path l (y # zs)"
    using "3.prems" by (intro "3.IH") (auto dest: list.set_sel(2) [rotated])
  moreover have "link l' x y = link l x y"
    using "3.prems" by (auto simp: link_def)
  ultimately show ?case by simp
qed auto

lemma last_notin_butlast: "distinct xs \<Longrightarrow> xs \<noteq> [] \<Longrightarrow> last xs \<notin> set (butlast xs)"
  by (cases xs rule: rev_cases) auto

lemma ring_Cons: "ring l (x # xs) \<longleftrightarrow> distinct (x # xs) \<and> path l (x # xs @ [x])"
  by (simp add: ring_def)

lemma ring_rotate1: "ring l (x # xs) = ring l (xs @ [x])"
proof (cases xs)
  case (Cons y ys)
  have "path l (x # y # ys @ [x]) = path l (y # ys @ [x, y])"
    using path_append [of l "y # ys" x "[y]"] path_append [of l "y # ys" x "[]"] by auto
  with Cons show ?thesis by (auto simp: ring_def)
qed simp

lemma ring_rotate: "ring l (xs @ ys) = ring l (ys @ xs)"
proof (induction xs arbitrary: ys)
  case (Cons x xs)
  have "ring l ((x # xs) @ ys) = ring l ((xs @ ys) @ [x])"
    using ring_rotate1 [of l x "xs @ ys"] by simp
  also have "\<dots> = ring l ((ys @ [x]) @ xs)"
    using Cons.IH [of "ys @ [x]"] by simp
  finally show ?case by simp
qed simp

lemma ring_atleft:
  assumes r: "ring l (b # cs)" and i: "i \<notin> set (b # cs)"
  shows "\<exists>l'. list_insert_atleft_named b i l = Some l' \<and> ring l' (b # cs @ [i]) \<and>
           dl_head l' = dl_head l \<and> same_links (set (b # cs) \<union> {i}) l l'"
proof -
  define z where "z = last (b # cs)"
  have p: "path l (b # cs)" and zb: "link l z b" and d: "distinct (b # cs)"
    using r path_append [of l "b # cs" b "[]"] by (auto simp: ring_Cons z_def)
  define l' where "l' = set_next i (Some b) (set_prev b (Some i)
    (set_prev i (Some z) (set_next z (Some i) l)))"
  have zin: "z \<in> set (b # cs)" by (simp add: z_def)
  have zbut: "z \<notin> set (butlast (b # cs))"
    using last_notin_butlast [OF d] by (simp add: z_def)
  have run: "list_insert_atleft_named b i l = Some l'"
    using zb i zin by (auto simp: list_insert_atleft_named_def l'_def link_def Let_def)
  have "path l' (b # cs) = path l (b # cs)"
    by (rule path_cong) (use i zbut d in \<open>auto simp: l'_def dest: in_set_butlastD\<close>)
  moreover have "link l' z i" and "link l' i b"
    using i zin by (auto simp: l'_def link_def)
  ultimately have "path l' (b # cs @ [i, b])"
    using p path_append [of l' "b # cs" i "[b]"] by (auto simp: z_def)
  then have "ring l' (b # cs @ [i])"
    using d i by (auto simp: ring_def)
  then show ?thesis
    using run zin by (auto simp: same_links_def l'_def)
qed

lemma ring_after:
  assumes r: "ring l (a # cs)" and i: "i \<notin> set (a # cs)"
  shows "\<exists>l'. list_insert_after_named a i l = Some l' \<and> ring l' (a # i # cs) \<and>
           dl_head l' = dl_head l \<and> same_links (set (a # cs) \<union> {i}) l l'"
proof -
  obtain n ns where ns: "cs @ [a] = n # ns" by (cases "cs @ [a]") auto
  have p: "path l (n # ns)" and an: "link l a n" and d: "distinct (a # cs)"
    using r ns by (auto simp: ring_Cons)
  have nin: "n \<in> set (a # cs)" and nns: "n \<notin> set ns"
    using ns d by (cases cs; auto)+
  define l' where "l' = set_prev i (Some a) (set_next a (Some i)
    (set_next i (Some n) (set_prev n (Some i) l)))"
  have run: "list_insert_after_named a i l = Some l'"
    using an i by (auto simp: list_insert_after_named_def l'_def link_def Let_def)
  have bl: "set (butlast (n # ns)) = set cs" by (metis butlast_snoc ns)
  have st: "set ns \<subseteq> insert a (set cs)" using arg_cong [OF ns, of set] by auto
  have "path l' (n # ns) = path l (n # ns)"
    by (rule path_cong) (use i bl st d nns in \<open>auto simp: l'_def\<close>)
  moreover have "link l' a i" and "link l' i n"
    using i nin by (auto simp: l'_def link_def)
  ultimately have "path l' (a # i # cs @ [a])"
    using p ns by simp
  then have "ring l' (a # i # cs)"
    using d i by (auto simp: ring_def)
  then show ?thesis
    using run nin by (auto simp: same_links_def l'_def)
qed

lemma ring_delete:
  assumes r: "ring l (i # c # cs)"
  shows "\<exists>l'. list_delete_named i l = Some l' \<and> ring l' (c # cs) \<and>
           dl_head l' = (if dl_head l = Some i then Some c else dl_head l) \<and>
           same_links (set (i # c # cs)) l l' \<and> dl_next l' i = None \<and> dl_prev l' i = None"
proof -
  define z where "z = last (c # cs)"
  have p: "path l (c # cs)" and ic: "link l i c" and zi: "link l z i"
    and d: "distinct (i # c # cs)"
    using r path_append [of l "c # cs" i "[]"] by (auto simp: ring_Cons z_def)
  have zin: "z \<in> set (c # cs)" by (simp add: z_def)
  have zbut: "z \<notin> set (butlast (c # cs))"
    using last_notin_butlast [of "c # cs"] d by (simp add: z_def)
  define l1 where "l1 = set_prev c (Some z) (set_next z (Some c) l)"
  define l' where "l' = set_prev i None (set_next i None
    (if dl_head l = Some i then l1\<lparr>dl_head := Some c\<rparr> else l1))"
  have run: "list_delete_named i l = Some l'"
    using ic zi d zin by (auto simp: list_delete_named_def l'_def l1_def link_def Let_def)
  have "path l' (c # cs) = path l (c # cs)"
    by (rule path_cong) (use zbut d in \<open>auto simp: l'_def l1_def dest: in_set_butlastD\<close>)
  moreover have "link l' z c"
    using zin d by (auto simp: l'_def l1_def link_def)
  ultimately have "ring l' (c # cs)"
    using p d path_append [of l' "c # cs" c "[]"] by (auto simp: ring_Cons z_def)
  then show ?thesis
    using run zin d by (auto simp: same_links_def l'_def l1_def)
qed

lemma ring_singleton: "ring (list_singleton_named x l) [x]"
  by (simp add: ring_def list_singleton_named_def link_def)

lemma ring_head: "ring (l\<lparr>dl_head := h\<rparr>) xs = ring l xs"
proof -
  have "path (l\<lparr>dl_head := h\<rparr>) ys = path l ys" for ys
    by (induction l ys rule: path.induct) auto
  then show ?thesis by (simp add: ring_def)
qed

section \<open>The macros refine the list operations\<close>

text \<open>
  The plain operations: what the rest of the development uses for an intrusive list.
\<close>

definition add_tail :: "'a \<Rightarrow> 'a list \<Rightarrow> 'a list" where
  "add_tail x xs = xs @ [x]"

definition add_head :: "'a \<Rightarrow> 'a list \<Rightarrow> 'a list" where
  "add_head x xs = x # xs"

fun insert_before :: "'a \<Rightarrow> 'a \<Rightarrow> 'a list \<Rightarrow> 'a list" where
  "insert_before b x [] = []"
| "insert_before b x (y # ys) = (if y = b then x # y # ys else y # insert_before b x ys)"

fun insert_after :: "'a \<Rightarrow> 'a \<Rightarrow> 'a list \<Rightarrow> 'a list" where
  "insert_after a x [] = []"
| "insert_after a x (y # ys) = (if y = a then y # x # ys else y # insert_after a x ys)"

fun pop_head :: "'a list \<Rightarrow> ('a \<times> 'a list) option" where
  "pop_head [] = None"
| "pop_head (x # xs) = Some (x, xs)"

text \<open>
  Deleting a node that is not in the list is outside what the macro supports: the plain
  operation is then undefined.
\<close>

definition list_delete :: "'a \<Rightarrow> 'a list \<Rightarrow> 'a list option" where
  "list_delete x xs = (if x \<in> set xs then Some (remove1 x xs) else None)"

lemma list_delete_Some [simp]:
  "list_delete x xs = Some ys \<longleftrightarrow> x \<in> set xs \<and> ys = remove1 x xs"
  by (auto simp: list_delete_def)

lemma list_delete_in [simp]: "x \<in> set xs \<Longrightarrow> list_delete x xs = Some (remove1 x xs)"
  by (simp add: list_delete_def)

lemma length_remove1_word:
  "x \<in> set xs \<Longrightarrow> (word_of_nat (length (remove1 x xs)) :: 'a::len word) = word_of_nat (length xs) - 1"
  by (cases "length xs") (auto simp: length_remove1)

lemma insert_before_append: "b \<notin> set xs \<Longrightarrow> insert_before b x (xs @ b # ys) = xs @ x # b # ys"
  by (induction xs) auto

lemma insert_after_append: "a \<notin> set xs \<Longrightarrow> insert_after a x (xs @ a # ys) = xs @ a # x # ys"
  by (induction xs) auto

lemma clist_ring: "clist l xs \<Longrightarrow> ring l xs" and clist_distinct: "clist l xs \<Longrightarrow> distinct xs"
  by (auto simp: clist_def ring_def)

lemma clist_init: "clist (list_init_named l) []"
  by (simp add: clist_def ring_def list_init_named_def)

lemma clist_is_empty: "clist l xs \<Longrightarrow> list_is_empty_named l \<longleftrightarrow> xs = []"
  by (auto simp: clist_def list_is_empty_named_def split: list.splits)

lemma clist_head: "clist l xs \<Longrightarrow> list_get_head_named l = (if xs = [] then None else Some (hd xs))"
  by (auto simp: clist_def list_get_head_named_def split: list.splits)

lemma clist_tail: "clist l xs \<Longrightarrow> list_get_tail_named l = (if xs = [] then None else Some (last xs))"
proof (cases xs)
  case (Cons x ys)
  assume "clist l xs"
  with Cons have "path l (x # ys @ [x])" and "dl_head l = Some x"
    by (auto simp: clist_def ring_def)
  then show ?thesis
    using Cons path_append [of l "x # ys" x "[]"] by (auto simp: link_def list_get_tail_named_def)
qed (simp add: clist_def list_get_tail_named_def)

lemma clist_add_tail:
  assumes "clist l xs" and "x \<notin> set xs"
  shows "\<exists>l'. list_add_tail_named x l = Some l' \<and> clist l' (add_tail x xs) \<and>
           same_links (set xs \<union> {x}) l l'"
proof (cases xs)
  case Nil
  have "list_add_tail_named x l = Some (list_singleton_named x l)"
    and "dl_head (list_singleton_named x l) = Some x"
    and "same_links {x} l (list_singleton_named x l)"
    using Nil assms(1) by (auto simp: clist_def list_add_tail_named_def list_singleton_named_def same_links_def)
  then show ?thesis
    using Nil ring_singleton [of x l] by (auto simp: clist_def add_tail_def)
next
  case (Cons h ys)
  with assms have "ring l (h # ys)" and "dl_head l = Some h" and "x \<notin> set (h # ys)"
    by (auto simp: clist_def)
  with ring_atleft [of l h ys x] Cons show ?thesis
    by (auto simp: list_add_tail_named_def clist_def add_tail_def)
qed

lemma clist_insert_before:
  assumes "clist l xs" and "x \<notin> set xs" and "b \<in> set xs"
  shows "\<exists>l'. list_insert_before_named b x l = Some l' \<and> clist l' (insert_before b x xs) \<and>
           same_links (set xs \<union> {x}) l l'"
proof -
  obtain ys zs where xs: "xs = ys @ b # zs" and b: "b \<notin> set ys"
    using split_list_first [OF assms(3)] by blast
  have d: "distinct xs" using clist_distinct assms(1) .
  have "ring l (b # zs @ ys)"
    using clist_ring [OF assms(1)] ring_rotate [of l ys "b # zs"] xs by simp
  then obtain l' where l': "list_insert_atleft_named b x l = Some l'"
      "ring l' (b # (zs @ ys) @ [x])" "dl_head l' = dl_head l" "same_links (set xs \<union> {x}) l l'"
    using ring_atleft [of l b "zs @ ys" x] assms(2) xs by (auto simp: Un_commute Un_left_commute)
  have r: "ring l' (ys @ x # b # zs)"
    using l'(2) ring_rotate [of l' "b # zs" "ys @ [x]"] by simp
  have hd: "dl_head l = Some b \<longleftrightarrow> ys = []"
    using assms(1) xs b by (cases ys) (auto simp: clist_def)
  show ?thesis
    using l' r hd assms(1) xs b
    by (cases ys) (auto simp: list_insert_before_named_def clist_def insert_before_append ring_head
        same_links_def)
qed

lemma clist_insert_after:
  assumes "clist l xs" and "x \<notin> set xs" and "a \<in> set xs"
  shows "\<exists>l'. list_insert_after_named a x l = Some l' \<and> clist l' (insert_after a x xs) \<and>
           same_links (set xs \<union> {x}) l l'"
proof -
  obtain ys zs where xs: "xs = ys @ a # zs" and a: "a \<notin> set ys"
    using split_list_first [OF assms(3)] by blast
  have "ring l (a # zs @ ys)"
    using clist_ring [OF assms(1)] ring_rotate [of l ys "a # zs"] xs by simp
  then obtain l' where l': "list_insert_after_named a x l = Some l'"
      "ring l' (a # x # zs @ ys)" "dl_head l' = dl_head l" "same_links (set xs \<union> {x}) l l'"
    using ring_after [of l a "zs @ ys" x] assms(2) xs by (auto simp: Un_commute Un_left_commute)
  have r: "ring l' (ys @ a # x # zs)"
    using l'(2) ring_rotate [of l' "a # x # zs" ys] by simp
  show ?thesis
    using l' r assms(1) xs a
    by (cases ys) (auto simp: clist_def insert_after_append)
qed

lemma clist_add_head:
  assumes "clist l xs" and "x \<notin> set xs"
  shows "\<exists>l'. list_add_head_named x l = Some l' \<and> clist l' (add_head x xs) \<and>
           same_links (set xs \<union> {x}) l l'"
proof (cases xs)
  case Nil
  have "list_add_head_named x l = Some (list_singleton_named x l)"
    and "dl_head (list_singleton_named x l) = Some x"
    and "same_links {x} l (list_singleton_named x l)"
    using Nil assms(1) by (auto simp: clist_def list_add_head_named_def list_singleton_named_def same_links_def)
  then show ?thesis
    using Nil ring_singleton [of x l] by (auto simp: clist_def add_head_def)
next
  case (Cons h ys)
  with assms have h: "dl_head l = Some h" by (simp add: clist_def)
  obtain l' where l': "list_insert_before_named h x l = Some l'"
      "clist l' (x # xs)" "same_links (set xs \<union> {x}) l l'"
    using clist_insert_before [OF assms, of h] Cons by auto
  then have "l'\<lparr>dl_head := Some x\<rparr> = l'" by (simp add: clist_def)
  with l' h show ?thesis by (auto simp: list_add_head_named_def add_head_def)
qed

lemma clist_delete:
  assumes "clist l xs" and "x \<in> set xs"
  shows "\<exists>l'. list_delete_named x l = Some l' \<and> clist l' (remove1 x xs) \<and>
           same_links (set xs) l l' \<and> dl_next l' x = None \<and> dl_prev l' x = None"
proof -
  obtain ys zs where xs: "xs = ys @ x # zs" and x: "x \<notin> set ys"
    using split_list_first [OF assms(2)] by blast
  have rm: "remove1 x xs = ys @ zs" using xs x by (simp add: remove1_append)
  have r0: "ring l (x # zs @ ys)"
    using clist_ring [OF assms(1)] ring_rotate [of l ys "x # zs"] xs by simp
  have hd: "dl_head l = Some (hd xs)" using assms xs by (cases ys) (auto simp: clist_def)
  show ?thesis
  proof (cases "zs @ ys")
    case Nil
    then show ?thesis
      using r0 rm xs
      by (auto simp: list_delete_named_def ring_Cons link_def clist_def ring_def same_links_def)
  next
    case (Cons c cs)
    have eq: "set (x # c # cs) = set xs"
      using arg_cong [OF Cons, of set] xs by auto
    obtain l' where l': "list_delete_named x l = Some l'" "ring l' (zs @ ys)"
        "dl_head l' = (if dl_head l = Some x then Some c else dl_head l)"
        "same_links (set xs) l l'" "dl_next l' x = None" "dl_prev l' x = None"
      using ring_delete [of l x c cs] r0 Cons eq by auto
    have "ring l' (ys @ zs)" using l'(2) ring_rotate by metis
    moreover have "dl_head l' = (case ys @ zs of [] \<Rightarrow> None | y # _ \<Rightarrow> Some y)"
      using l'(3) hd xs x Cons by (cases ys) auto
    ultimately show ?thesis
      using l' rm by (auto simp: clist_def)
  qed
qed

lemma clist_pop_head:
  assumes "clist l (x # xs)"
  shows "\<exists>l'. list_pop_head_named l = Some (x, l') \<and> clist l' xs \<and>
           same_links (set (x # xs)) l l' \<and> dl_next l' x = None \<and> dl_prev l' x = None"
  using clist_delete [OF assms, of x] assms
  by (auto simp: list_pop_head_named_def clist_def)


section \<open>Traversals\<close>

lemma clist_next:
  assumes "clist l (ys @ z # zs)"
  shows "dl_next l z = Some (hd (zs @ [hd (ys @ [z])]))"
proof -
  have "path l (ys @ z # zs @ [hd (ys @ [z])])"
    using clist_ring [OF assms] by (cases ys) (auto simp: ring_def)
  then have "path l (z # zs @ [hd (ys @ [z])])"
    by (auto simp: path_append)
  then show ?thesis by (cases zs) (auto simp: link_def)
qed

lemma clist_prev:
  assumes "clist l (ys @ z # zs)"
  shows "dl_prev l z = Some (last (last (z # zs) # ys))"
proof (cases ys)
  case Nil
  then show ?thesis
    using clist_tail [OF assms] assms by (auto simp: list_get_tail_named_def clist_def)
next
  case (Cons y ys')
  then have "path l (ys @ z # zs @ [y])"
    using clist_ring [OF assms] by (auto simp: ring_def)
  with Cons show ?thesis by (simp only: path_append) (auto simp: link_def)
qed

lemma foreach_forward_rest:
  assumes "clist l (ys @ zs)" and "ys \<noteq> []"
  shows "foreach_forward_from l (Some (hd (zs @ [hd ys]))) (length ys) ys = Some (ys @ zs)"
  using assms
proof (induction zs arbitrary: ys)
  case Nil
  then show ?case
    by (subst foreach_forward_from.simps) (cases ys, auto simp: clist_def)
next
  case (Cons z zs)
  have "Some z \<noteq> dl_head l"
    using Cons.prems clist_distinct [OF Cons.prems(1)] by (cases ys) (auto simp: clist_def)
  moreover have "dl_next l z = Some (hd (zs @ [hd ys]))"
    using clist_next [OF Cons.prems(1)] Cons.prems(2) by simp
  moreover have "foreach_forward_from l (Some (hd (zs @ [hd ys]))) (length (ys @ [z])) (ys @ [z])
      = Some (ys @ z # zs)"
    using Cons.IH [of "ys @ [z]"] Cons.prems by simp
  ultimately show ?case
    by (subst foreach_forward_from.simps) simp
qed

lemma foreach_forward_visits: "clist l xs \<Longrightarrow> list_foreach_forward_named l = Some xs"
proof (cases xs)
  case Nil
  moreover assume "clist l xs"
  ultimately show ?thesis
    by (auto simp: list_foreach_forward_named_def clist_def foreach_forward_from.simps)
next
  case (Cons x ys)
  assume c: "clist l xs"
  with Cons have h: "dl_head l = Some x" by (simp add: clist_def)
  have "dl_next l x = Some (hd (ys @ [x]))" using clist_next [of l "[]" x ys] c Cons by simp
  moreover have "foreach_forward_from l (Some (hd (ys @ [x]))) (Suc 0) [x] = Some xs"
    using foreach_forward_rest [of l "[x]" ys] c Cons by simp
  ultimately show ?thesis
    unfolding list_foreach_forward_named_def
    by (subst foreach_forward_from.simps) (simp add: h)
qed

lemma foreach_backward_rest:
  assumes "clist l (ys @ zs)" and "zs \<noteq> []"
  shows "foreach_backward_from l (Some (last (last zs # ys))) (length zs) (rev zs) = Some (rev (ys @ zs))"
  using assms
proof (induction ys arbitrary: zs rule: rev_induct)
  case Nil
  then show ?case
    using clist_tail [OF Nil(1)] by (subst foreach_backward_from.simps) simp
next
  case (snoc y ys)
  have "Some y \<noteq> list_get_tail_named l"
    using snoc.prems clist_distinct [OF snoc.prems(1)] clist_tail [OF snoc.prems(1)] by auto
  moreover have "dl_prev l y = Some (last (last zs # ys))"
    using clist_prev [of l ys y zs] snoc.prems by simp
  moreover have "foreach_backward_from l (Some (last (last zs # ys))) (length (y # zs)) (rev (y # zs))
      = Some (rev (ys @ y # zs))"
    using snoc.IH [of "y # zs"] snoc.prems by simp
  ultimately show ?case
    by (subst foreach_backward_from.simps) simp
qed

lemma foreach_backward_visits: "clist l xs \<Longrightarrow> list_foreach_backward_named l = Some (rev xs)"
proof (cases xs rule: rev_cases)
  case Nil
  moreover assume "clist l xs"
  ultimately show ?thesis
    using clist_tail [of l xs] by (auto simp: list_foreach_backward_named_def foreach_backward_from.simps)
next
  case (snoc ys y)
  assume c: "clist l xs"
  then have t: "list_get_tail_named l = Some y" using clist_tail [OF c] snoc by simp
  have "dl_prev l y = Some (last (y # ys))" using clist_prev [of l ys y "[]"] c snoc by simp
  moreover have "foreach_backward_from l (Some (last (y # ys))) (Suc 0) [y] = Some (rev xs)"
    using foreach_backward_rest [of l ys "[y]"] c snoc by simp
  ultimately show ?thesis
    unfolding list_foreach_backward_named_def
    by (subst foreach_backward_from.simps) (simp add: t)
qed

lemma list_collapse_all:
  "clist l xs \<Longrightarrow> \<exists>l'. list_collapse_named l acc = Some (acc @ xs, l') \<and> clist l' []"
proof (induction xs arbitrary: l acc)
  case Nil
  then show ?case by (subst list_collapse_named.simps) (simp add: clist_def)
next
  case (Cons x xs)
  then obtain l1 where l1: "list_delete_named x l = Some l1" "clist l1 xs"
    using clist_delete [of l "x # xs" x] by auto
  with Cons.IH [OF l1(2), of "acc @ [x]"] Cons.prems show ?case
    by (subst list_collapse_named.simps) (simp add: clist_def)
qed

section \<open>The contract of an intrusive list\<close>

locale intrusive_list =
  fixes rep :: "'h \<Rightarrow> 'a list \<Rightarrow> bool"
    and tail_ins head_ins del :: "'a \<Rightarrow> 'h \<Rightarrow> 'h option"
    and pop :: "'h \<Rightarrow> ('a \<times> 'h) option"
  assumes rep_distinct: "rep h xs \<Longrightarrow> distinct xs"
    and tail_ins: "rep h xs \<Longrightarrow> x \<notin> set xs \<Longrightarrow> \<exists>h'. tail_ins x h = Some h' \<and> rep h' (xs @ [x])"
    and head_ins: "rep h xs \<Longrightarrow> x \<notin> set xs \<Longrightarrow> \<exists>h'. head_ins x h = Some h' \<and> rep h' (x # xs)"
    and del: "rep h xs \<Longrightarrow> x \<in> set xs \<Longrightarrow> \<exists>h'. del x h = Some h' \<and> rep h' (remove1 x xs)"
    and pop: "rep h (x # xs) \<Longrightarrow> \<exists>h'. pop h = Some (x, h') \<and> rep h' xs"
begin

lemma tail_ins_many:
  "rep h xs \<Longrightarrow> distinct (xs @ ys) \<Longrightarrow> \<exists>h'. fold_opt tail_ins ys h = Some h' \<and> rep h' (xs @ ys)"
proof (induction ys arbitrary: h xs)
  case (Cons y ys)
  then obtain h1 where "tail_ins y h = Some h1" and r1: "rep h1 (xs @ [y])"
    using tail_ins [of h xs y] by auto
  with Cons.IH [OF r1] Cons.prems show ?case by auto
qed simp

lemma pop_many:
  "rep h (xs @ ys) \<Longrightarrow> \<exists>h'. iter_opt pop (length xs) h = Some (xs, h') \<and> rep h' ys"
proof (induction xs arbitrary: h)
  case (Cons x xs)
  then obtain h1 where "pop h = Some (x, h1)" and r1: "rep h1 (xs @ ys)"
    using pop [of h x "xs @ ys"] by auto
  with Cons.IH [OF r1] show ?case by auto
qed simp

lemma fifo:
  assumes "rep h xs" and "distinct (xs @ ys)"
  shows "\<exists>h1 h2. fold_opt tail_ins ys h = Some h1 \<and>
           iter_opt pop (length (xs @ ys)) h1 = Some (xs @ ys, h2) \<and> rep h2 []"
proof -
  obtain h1 where h1: "fold_opt tail_ins ys h = Some h1" "rep h1 (xs @ ys)"
    using tail_ins_many [OF assms] by blast
  then show ?thesis using pop_many [of h1 "xs @ ys" "[]"] by auto
qed

lemma insert_delete:
  assumes "rep h xs" and "x \<notin> set xs"
  shows "\<exists>h1 h2. tail_ins x h = Some h1 \<and> del x h1 = Some h2 \<and> rep h2 xs"
proof -
  obtain h1 where h1: "tail_ins x h = Some h1" "rep h1 (xs @ [x])"
    using tail_ins [OF assms] by blast
  moreover have "remove1 x (xs @ [x]) = xs"
    using assms(2) by (simp add: remove1_append)
  ultimately show ?thesis using del [OF h1(2), of x] by auto
qed

end

interpretation dl: intrusive_list clist list_add_tail_named list_add_head_named
  list_delete_named list_pop_head_named
proof unfold_locales
  show "distinct xs" if "clist h xs" for h :: "'a dlist" and xs
    using that by (rule clist_distinct)
  show "\<exists>h'. list_add_tail_named x h = Some h' \<and> clist h' (xs @ [x])"
    if "clist h xs" "x \<notin> set xs" for h :: "'a dlist" and xs x
    using clist_add_tail [OF that] by (auto simp: add_tail_def)
  show "\<exists>h'. list_add_head_named x h = Some h' \<and> clist h' (x # xs)"
    if "clist h xs" "x \<notin> set xs" for h :: "'a dlist" and xs x
    using clist_add_head [OF that] by (auto simp: add_head_def)
  show "\<exists>h'. list_delete_named x h = Some h' \<and> clist h' (remove1 x xs)"
    if "clist h xs" "x \<in> set xs" for h :: "'a dlist" and xs x
    using clist_delete [OF that] by auto
  show "\<exists>h'. list_pop_head_named h = Some (x, h') \<and> clist h' xs"
    if "clist h (x # xs)" for h :: "'a dlist" and x xs
    using clist_pop_head [OF that] by auto
qed

section \<open>Properties\<close>

definition list_example :: "nat dlist" where
  "list_example = \<lparr>dl_head = Some 4, dl_prev = [4 \<mapsto> 3, 2 \<mapsto> 4, 3 \<mapsto> 2], dl_next = [4 \<mapsto> 2, 2 \<mapsto> 3, 3 \<mapsto> 4]\<rparr>"

lemma list_example_clist: "clist list_example [4, 2, 3]"
  by (simp add: list_example_def clist_def ring_Cons link_def)

text \<open>
  The four insertion macros refine insertion in the list of nodes: the new node ends up at the
  tail, at the head, before or after the given node, the structure is again a well-formed ring, no
  node outside the ring is written.
\<close>

theorem list_insert_macros:
  assumes "clist l xs" and "x \<notin> set xs"
  shows "(\<exists>l'. list_add_tail_named x l = Some l' \<and> clist l' (xs @ [x]) \<and> same_links (insert x (set xs)) l l') \<and>
         (\<exists>l'. list_add_head_named x l = Some l' \<and> clist l' (x # xs) \<and> same_links (insert x (set xs)) l l') \<and>
         (\<forall>ys b zs. xs = ys @ b # zs \<longrightarrow>
            (\<exists>l'. list_insert_before_named b x l = Some l' \<and> clist l' (ys @ x # b # zs) \<and>
                  same_links (insert x (set xs)) l l') \<and>
            (\<exists>l'. list_insert_after_named b x l = Some l' \<and> clist l' (ys @ b # x # zs) \<and>
                  same_links (insert x (set xs)) l l'))"
  (is "?tail \<and> ?head \<and> ?mid")
proof (intro conjI)
  show ?tail using clist_add_tail [OF assms] by (simp add: add_tail_def)
  show ?head using clist_add_head [OF assms] by (simp add: add_head_def)
  show ?mid
  proof (intro allI impI)
    fix ys b zs
    assume e: "xs = ys @ b # zs"
    then have "b \<notin> set ys" and "b \<in> set xs" using clist_distinct [OF assms(1)] by auto
    with e clist_insert_before [OF assms, of b] clist_insert_after [OF assms, of b]
    show "(\<exists>l'. list_insert_before_named b x l = Some l' \<and> clist l' (ys @ x # b # zs) \<and>
              same_links (insert x (set xs)) l l') \<and>
          (\<exists>l'. list_insert_after_named b x l = Some l' \<and> clist l' (ys @ b # x # zs) \<and>
              same_links (insert x (set xs)) l l')"
      by (simp add: insert_before_append insert_after_append)
  qed
qed

theorem list_insert_macros_witness:
  "\<exists>l'. list_insert_before_named 4 9 list_example = Some l' \<and> clist l' [9, 4, 2, 3]"
  using list_insert_macros [OF list_example_clist, of 9]
  by (simp, elim conjE) (erule allE [of _ "[]"], auto)

text \<open>
  Deleting a node of the ring and popping its head refine removal from the list of nodes; the
  removed node is left with null links and no node outside the ring is written.
\<close>

theorem list_delete_macros:
  assumes "clist l (ys @ x # zs)"
  shows "(\<exists>l'. list_delete_named x l = Some l' \<and> clist l' (ys @ zs) \<and>
            same_links (set (ys @ x # zs)) l l' \<and> dl_next l' x = None \<and> dl_prev l' x = None) \<and>
         (ys = [] \<longrightarrow> list_pop_head_named l = map_option (Pair x) (list_delete_named x l))"
proof -
  have "x \<notin> set ys" using clist_distinct [OF assms] by auto
  then have "remove1 x (ys @ x # zs) = ys @ zs" by (simp add: remove1_append)
  moreover have "list_pop_head_named l = map_option (Pair x) (list_delete_named x l)" if "ys = []"
    using assms that clist_delete [OF assms, of x] by (auto simp: list_pop_head_named_def clist_def)
  ultimately show ?thesis using clist_delete [OF assms, of x] by auto
qed

theorem list_delete_macros_witness:
  "\<exists>l'. list_delete_named 2 list_example = Some l' \<and> clist l' [4, 3] \<and> dl_next l' 2 = None"
  using list_delete_macros [of list_example "[4]" 2 "[3]"] list_example_clist by auto

text \<open>
  C40: On a well-formed ring the traversal macros terminate: forward visits every node once from
  head to tail, backward the reverse, and the collapsing traversal removes every node in order and
  leaves the empty list.
\<close>

theorem list_traversals:
  assumes "clist l xs"
  shows "list_foreach_forward_named l = Some xs \<and> list_foreach_backward_named l = Some (rev xs) \<and>
         (\<exists>l'. list_collapse_named l [] = Some (xs, l') \<and> list_is_empty_named l')"
  using foreach_forward_visits [OF assms] foreach_backward_visits [OF assms]
    list_collapse_all [OF assms, of "[]"]
  by (auto simp: list_is_empty_named_def clist_def)

theorem list_traversals_witness:
  "list_foreach_backward_named list_example = Some [3, 2, 4]"
  using list_traversals [OF list_example_clist] by simp

text \<open>
  Adding at the tail and popping at the head make a first-in first-out queue: nodes come out in
  the order they were added, after those that were already there, and the list ends empty.
\<close>

theorem list_fifo:
  assumes "clist l xs" and "distinct (xs @ ys)"
  shows "\<exists>l1 l2. fold_opt list_add_tail_named ys l = Some l1 \<and>
           iter_opt list_pop_head_named (length (xs @ ys)) l1 = Some (xs @ ys, l2) \<and>
           list_is_empty_named l2"
  using dl.fifo [OF assms] clist_is_empty by blast

theorem list_fifo_witness:
  "\<exists>l1 l2. fold_opt list_add_tail_named [7, 5] list_example = Some l1 \<and>
     iter_opt list_pop_head_named 5 l1 = Some ([4, 2, 3, 7, 5], l2) \<and> list_is_empty_named l2"
  using list_fifo [OF list_example_clist, of "[7, 5]"] by (simp add: eval_nat_numeral del: iter_opt.simps fold_opt.simps)

end
