(* ===== verification/Physmem.thy ===== *)
theory Physmem
  imports Circular_List
begin

text \<open>
  Physical pages (\<^verbatim>\<open>os/physmem.c\<close>): the array of page descriptors, the lists of free
  and used pages, reference counts. A pointer to a descriptor is its index in the array;
  the two intrusive lists are lists of indices. The addresses of \<^verbatim>\<open>__b_kernel\<close> and
  \<^verbatim>\<open>__e_kernel\<close>, which the linker provides, are parameters of the setup.
\<close>

section \<open>State\<close>

record physical_page_descr =
  paddr :: sos_paddr_t
  ref_cnt :: sos_count_t
  kernel_range :: "sos_vaddr_t option"

record physmem =
  physical_page_descr_array :: "physical_page_descr list"
  free_ppage :: "nat list"
  used_ppage :: "nat list"
  physmem_base :: sos_paddr_t
  physmem_top :: sos_paddr_t
  physmem_total_pages :: sos_count_t
  physmem_used_pages :: sos_count_t

definition sizeof_physical_page_descr :: u32 where
  "sizeof_physical_page_descr = 20"

definition PAGE_DESCR_ARRAY_ADDR :: "sos_paddr_t \<Rightarrow> sos_paddr_t" where
  "PAGE_DESCR_ARRAY_ADDR e_kernel = SOS_PAGE_ALIGN_SUP e_kernel"

abbreviation descr :: "physmem \<Rightarrow> nat \<Rightarrow> physical_page_descr" where
  "descr s i \<equiv> physical_page_descr_array s ! i"

definition upd_descr ::
    "nat \<Rightarrow> (physical_page_descr \<Rightarrow> physical_page_descr) \<Rightarrow> physmem \<Rightarrow> physmem" where
  "upd_descr i f s = s\<lparr>physical_page_descr_array :=
     (physical_page_descr_array s)[i := f (descr s i)]\<rparr>"

section \<open>Initialisation\<close>

datatype ppage_mark =
  PPAGE_MARK_RESERVED | PPAGE_MARK_FREE | PPAGE_MARK_KERNEL | PPAGE_MARK_HWMAP

definition ppage_todo ::
    "sos_paddr_t \<Rightarrow> sos_paddr_t \<Rightarrow> sos_paddr_t \<Rightarrow> sos_paddr_t \<Rightarrow> sos_paddr_t \<Rightarrow> ppage_mark" where
  "ppage_todo base b_kernel core_base core_top ppage_addr =
     (if ppage_addr < base then PPAGE_MARK_RESERVED
      else if ppage_addr \<ge> base \<and> ppage_addr < BIOS_N_VIDEO_START then PPAGE_MARK_FREE
      else if ppage_addr \<ge> BIOS_N_VIDEO_START \<and> ppage_addr < BIOS_N_VIDEO_END then PPAGE_MARK_HWMAP
      else if ppage_addr \<ge> BIOS_N_VIDEO_END \<and> ppage_addr < b_kernel then PPAGE_MARK_FREE
      else if ppage_addr \<ge> core_base \<and> ppage_addr < core_top then PPAGE_MARK_KERNEL
      else PPAGE_MARK_FREE)"

definition ppage_setup ::
    "sos_paddr_t \<Rightarrow> sos_paddr_t \<Rightarrow> sos_paddr_t \<Rightarrow> sos_paddr_t \<Rightarrow> physmem \<Rightarrow> physmem" where
  "ppage_setup b_kernel core_base core_top ppage_addr s =
     (let i = length (physical_page_descr_array s);
          todo = ppage_todo (physmem_base s) b_kernel core_base core_top ppage_addr;
          s = s\<lparr>physical_page_descr_array := physical_page_descr_array s
                  @ [\<lparr>paddr = ppage_addr, ref_cnt = 0, kernel_range = None\<rparr>]\<rparr>;
          s = s\<lparr>physmem_total_pages := physmem_total_pages s + 1\<rparr>
      in case todo of
           PPAGE_MARK_FREE \<Rightarrow>
             (upd_descr i (ref_cnt_update (\<lambda>_. 0)) s)\<lparr>free_ppage := add_head i (free_ppage s)\<rparr>
         | PPAGE_MARK_KERNEL \<Rightarrow>
             (upd_descr i (ref_cnt_update (\<lambda>_. 1)) s)
               \<lparr>used_ppage := add_head i (used_ppage s),
                physmem_used_pages := physmem_used_pages s + 1\<rparr>
         | PPAGE_MARK_HWMAP \<Rightarrow>
             (upd_descr i (ref_cnt_update (\<lambda>_. 1)) s)
               \<lparr>used_ppage := add_head i (used_ppage s),
                physmem_used_pages := physmem_used_pages s + 1\<rparr>
         | PPAGE_MARK_RESERVED \<Rightarrow> s)"

partial_function (option) ppage_scan ::
    "sos_paddr_t \<Rightarrow> sos_paddr_t \<Rightarrow> sos_paddr_t \<Rightarrow> sos_paddr_t \<Rightarrow> physmem \<Rightarrow> physmem option" where
  "ppage_scan b_kernel core_base core_top ppage_addr s =
     (if ppage_addr < physmem_top s
      then ppage_scan b_kernel core_base core_top (ppage_addr + SOS_PAGE_SIZE)
             (ppage_setup b_kernel core_base core_top ppage_addr s)
      else Some s)"

definition kernel_core_base_of :: "sos_paddr_t \<Rightarrow> sos_paddr_t" where
  "kernel_core_base_of b_kernel = SOS_PAGE_ALIGN_INF b_kernel"

definition kernel_core_top_of :: "sos_paddr_t \<Rightarrow> sos_size_t \<Rightarrow> sos_paddr_t" where
  "kernel_core_top_of e_kernel ram_size = PAGE_DESCR_ARRAY_ADDR e_kernel
     + SOS_PAGE_ALIGN_SUP (drop_bit SOS_PAGE_SHIFT ram_size * sizeof_physical_page_descr)"

definition sos_physmem_subsystem_setup ::
    "sos_paddr_t \<Rightarrow> sos_paddr_t \<Rightarrow> sos_size_t \<Rightarrow> physmem
     \<Rightarrow> (sos_ret_t \<times> sos_paddr_t \<times> sos_paddr_t \<times> physmem) option" where
  "sos_physmem_subsystem_setup b_kernel e_kernel ram_size s =
     (let ram_size = SOS_PAGE_ALIGN_INF ram_size;
          s = s\<lparr>free_ppage := [], used_ppage := [],
                physmem_total_pages := 0, physmem_used_pages := 0\<rparr>;
          kernel_core_base = kernel_core_base_of b_kernel;
          kernel_core_top = kernel_core_top_of e_kernel ram_size
      in if kernel_core_top > ram_size
         then Some (- SOS_ENOMEM, kernel_core_base, kernel_core_top, s)
         else do {
           s \<leftarrow> ppage_scan b_kernel kernel_core_base kernel_core_top 0
                  (s\<lparr>physmem_base := SOS_PAGE_SIZE, physmem_top := ram_size,
                     physical_page_descr_array := []\<rparr>);
           Some (SOS_OK, kernel_core_base, kernel_core_top, s) })"

section \<open>Operations\<close>

definition sos_physmem_ref_physpage_new :: "bool \<Rightarrow> physmem \<Rightarrow> (sos_paddr_t \<times> physmem) option" where
  "sos_physmem_ref_physpage_new can_block s =
     (if free_ppage s = [] then Some (0, s)
      else do {
        (ppage_descr, free) \<leftarrow> pop_head (free_ppage s);
        let s = s\<lparr>free_ppage := free\<rparr>;
        sos_assert_fatal (ref_cnt (descr s ppage_descr) = 0);
        let s = upd_descr ppage_descr (\<lambda>d. d\<lparr>ref_cnt := ref_cnt d + 1\<rparr>) s;
        let s = upd_descr ppage_descr (\<lambda>d. d\<lparr>kernel_range := None\<rparr>) s;
        let s = s\<lparr>used_ppage := add_tail ppage_descr (used_ppage s)\<rparr>;
        let s = s\<lparr>physmem_used_pages := physmem_used_pages s + 1\<rparr>;
        Some (paddr (descr s ppage_descr), s) })"

definition get_page_descr_at_paddr :: "sos_paddr_t \<Rightarrow> physmem \<Rightarrow> nat option" where
  "get_page_descr_at_paddr ppage_paddr s =
     (if ppage_paddr AND SOS_PAGE_MASK \<noteq> 0 then None
      else if ppage_paddr < physmem_base s \<or> ppage_paddr \<ge> physmem_top s then None
      else Some (unat (drop_bit SOS_PAGE_SHIFT ppage_paddr)))"

definition sos_physmem_ref_physpage_at :: "sos_paddr_t \<Rightarrow> physmem \<Rightarrow> (sos_ret_t \<times> physmem) option" where
  "sos_physmem_ref_physpage_at ppage_paddr s =
     (case get_page_descr_at_paddr ppage_paddr s of
        None \<Rightarrow> Some (- SOS_EINVAL, s)
      | Some ppage_descr \<Rightarrow>
          let s = upd_descr ppage_descr (\<lambda>d. d\<lparr>ref_cnt := ref_cnt d + 1\<rparr>) s
          in if ref_cnt (descr s ppage_descr) = 1
             then do {
               free \<leftarrow> list_delete ppage_descr (free_ppage s);
               let s = s\<lparr>free_ppage := free\<rparr>;
               let s = upd_descr ppage_descr (\<lambda>d. d\<lparr>kernel_range := None\<rparr>) s;
               let s = s\<lparr>used_ppage := add_tail ppage_descr (used_ppage s)\<rparr>;
               Some (FALSE_ret, s\<lparr>physmem_used_pages := physmem_used_pages s + 1\<rparr>) }
             else Some (TRUE_ret, s))"

definition sos_physmem_unref_physpage :: "sos_paddr_t \<Rightarrow> physmem \<Rightarrow> (sos_ret_t \<times> physmem) option" where
  "sos_physmem_unref_physpage ppage_paddr s =
     (case get_page_descr_at_paddr ppage_paddr s of
        None \<Rightarrow> Some (- SOS_EINVAL, s)
      | Some ppage_descr \<Rightarrow>
          if ref_cnt (descr s ppage_descr) \<le> 0 then Some (- SOS_EINVAL, s)
          else let s = upd_descr ppage_descr (\<lambda>d. d\<lparr>ref_cnt := ref_cnt d - 1\<rparr>) s
               in if ref_cnt (descr s ppage_descr) \<le> 0
                  then do {
                    let s = upd_descr ppage_descr (\<lambda>d. d\<lparr>kernel_range := None\<rparr>) s;
                    used \<leftarrow> list_delete ppage_descr (used_ppage s);
                    let s = s\<lparr>used_ppage := used, physmem_used_pages := physmem_used_pages s - 1\<rparr>;
                    Some (TRUE_ret, s\<lparr>free_ppage := add_head ppage_descr (free_ppage s)\<rparr>) }
                  else Some (FALSE_ret, s))"

definition sos_physmem_get_kmem_range :: "sos_paddr_t \<Rightarrow> physmem \<Rightarrow> sos_vaddr_t option" where
  "sos_physmem_get_kmem_range ppage_paddr s =
     (case get_page_descr_at_paddr ppage_paddr s of
        None \<Rightarrow> None
      | Some ppage_descr \<Rightarrow> kernel_range (descr s ppage_descr))"

definition sos_physmem_set_kmem_range ::
    "sos_paddr_t \<Rightarrow> sos_vaddr_t option \<Rightarrow> physmem \<Rightarrow> sos_ret_t \<times> physmem" where
  "sos_physmem_set_kmem_range ppage_paddr kmrange s =
     (case get_page_descr_at_paddr ppage_paddr s of
        None \<Rightarrow> (- SOS_EINVAL, s)
      | Some ppage_descr \<Rightarrow>
          (SOS_OK, upd_descr ppage_descr (\<lambda>d. d\<lparr>kernel_range := kmrange\<rparr>) s))"

text \<open>The two results are out parameters, each skipped by the code when its pointer is null.\<close>

definition sos_physmem_get_state :: "physmem \<Rightarrow> sos_ret_t \<times> sos_count_t \<times> sos_count_t" where
  "sos_physmem_get_state s = (SOS_OK, physmem_total_pages s, physmem_used_pages s)"

section \<open>Well-formed states\<close>

definition n_pages :: "physmem \<Rightarrow> nat" where
  "n_pages s = length (physical_page_descr_array s)"

definition pm_geometry :: "physmem \<Rightarrow> bool" where
  "pm_geometry s \<longleftrightarrow>
     physmem_base s = SOS_PAGE_SIZE \<and>
     unat (physmem_top s) = n_pages s * 4096 \<and>
     map paddr (physical_page_descr_array s) = map (\<lambda>i. word_of_nat (i * 4096)) [0..<n_pages s] \<and>
     physmem_total_pages s = word_of_nat (n_pages s)"

definition pm_lists :: "physmem \<Rightarrow> bool" where
  "pm_lists s \<longleftrightarrow>
     distinct (free_ppage s) \<and> distinct (used_ppage s) \<and>
     set (free_ppage s) = set (filter (\<lambda>i. ref_cnt (descr s i) = 0) [1..<n_pages s]) \<and>
     set (used_ppage s) = set (filter (\<lambda>i. ref_cnt (descr s i) \<noteq> 0) [1..<n_pages s]) \<and>
     physmem_used_pages s = word_of_nat (length (used_ppage s))"

definition pm_wf :: "physmem \<Rightarrow> bool" where
  "pm_wf s \<longleftrightarrow> pm_geometry s \<and> pm_lists s"

definition page_valid :: "physmem \<Rightarrow> sos_paddr_t \<Rightarrow> bool" where
  "page_valid s p \<longleftrightarrow> get_page_descr_at_paddr p s \<noteq> None"

definition page_refs :: "physmem \<Rightarrow> sos_paddr_t \<Rightarrow> nat" where
  "page_refs s p =
     (case get_page_descr_at_paddr p s of None \<Rightarrow> 0 | Some i \<Rightarrow> unat (ref_cnt (descr s i)))"

lemma upd_descr_sel [simp]:
  "n_pages (upd_descr i f s) = n_pages s"
  "free_ppage (upd_descr i f s) = free_ppage s"
  "used_ppage (upd_descr i f s) = used_ppage s"
  "physmem_base (upd_descr i f s) = physmem_base s"
  "physmem_top (upd_descr i f s) = physmem_top s"
  "physmem_total_pages (upd_descr i f s) = physmem_total_pages s"
  "physmem_used_pages (upd_descr i f s) = physmem_used_pages s"
  "length (physical_page_descr_array (upd_descr i f s)) = length (physical_page_descr_array s)"
  by (simp_all add: upd_descr_def n_pages_def)

lemma descr_upd_descr:
  "i < n_pages s \<Longrightarrow> descr (upd_descr i f s) j = (if j = i then f (descr s i) else descr s j)"
  by (auto simp: upd_descr_def n_pages_def nth_list_update)

lemma upd_descr_more [simp]:
  "upd_descr i f (s\<lparr>free_ppage := x\<rparr>) = (upd_descr i f s)\<lparr>free_ppage := x\<rparr>"
  "upd_descr i f (s\<lparr>used_ppage := x\<rparr>) = (upd_descr i f s)\<lparr>used_ppage := x\<rparr>"
  "upd_descr i f (s\<lparr>physmem_used_pages := c\<rparr>) = (upd_descr i f s)\<lparr>physmem_used_pages := c\<rparr>"
  "upd_descr i f (upd_descr i g s) = upd_descr i (\<lambda>d. f (g d)) s" if "i < n_pages s"
  using that by (simp_all add: upd_descr_def n_pages_def)

lemma n_pages_more [simp]:
  "n_pages (s\<lparr>free_ppage := x\<rparr>) = n_pages s"
  "n_pages (s\<lparr>used_ppage := x\<rparr>) = n_pages s"
  "n_pages (s\<lparr>physmem_used_pages := c\<rparr>) = n_pages s"
  by (simp_all add: n_pages_def)

lemma descr_list_upd [simp]:
  "physical_page_descr_array (s\<lparr>free_ppage := x\<rparr>) = physical_page_descr_array s"
  "physical_page_descr_array (s\<lparr>used_ppage := x\<rparr>) = physical_page_descr_array s"
  "physical_page_descr_array (s\<lparr>physmem_used_pages := c\<rparr>) = physical_page_descr_array s"
  by simp_all

lemma pm_wf_top: "pm_wf s \<Longrightarrow> unat (physmem_top s) = n_pages s * 4096"
  and pm_wf_base: "pm_wf s \<Longrightarrow> physmem_base s = SOS_PAGE_SIZE"
  by (simp_all add: pm_wf_def pm_geometry_def)

lemma pm_wf_bound: "pm_wf s \<Longrightarrow> n_pages s * 4096 < 2 ^ 32"
  using unsigned_less [of "physmem_top s", where 'a = nat] pm_wf_top [of s] by simp

lemma pm_wf_paddr:
  assumes "pm_wf s" and "i < n_pages s"
  shows "unat (paddr (descr s i)) = i * 4096"
proof -
  have "map paddr (physical_page_descr_array s) ! i = word_of_nat (i * 4096)"
    using assms by (simp add: pm_wf_def pm_geometry_def)
  with assms(2) have "paddr (descr s i) = word_of_nat (i * 4096)"
    by (simp add: n_pages_def)
  with pm_wf_bound [OF assms(1)] assms(2) show ?thesis
    using unat_of_nat_small [of "i * 4096"] by simp
qed

lemma pm_geometry_upd_descr:
  assumes "pm_geometry s" and "\<And>d. paddr (f d) = paddr d"
  shows "pm_geometry (upd_descr i f s)"
proof -
  have "map paddr (physical_page_descr_array (upd_descr i f s)) = map paddr (physical_page_descr_array s)"
    by (cases "i < length (physical_page_descr_array s)")
      (auto simp: upd_descr_def nth_list_update assms(2) intro!: nth_equalityI)
  then show ?thesis using assms(1) by (simp add: pm_geometry_def)
qed

lemma pm_geometry_lists [simp]:
  "pm_geometry (s\<lparr>free_ppage := x\<rparr>) = pm_geometry s"
  "pm_geometry (s\<lparr>used_ppage := x\<rparr>) = pm_geometry s"
  "pm_geometry (s\<lparr>physmem_used_pages := c\<rparr>) = pm_geometry s"
  by (simp_all add: pm_geometry_def)

lemma get_descr_iff:
  assumes "pm_wf s"
  shows "get_page_descr_at_paddr p s = Some i \<longleftrightarrow> 1 \<le> i \<and> i < n_pages s \<and> unat p = i * 4096"
proof -
  have b: "physmem_base s = SOS_PAGE_SIZE" and t: "unat (physmem_top s) = n_pages s * 4096"
    using assms by (simp_all add: pm_wf_top pm_wf_base)
  have "unat (drop_bit SOS_PAGE_SHIFT p) = unat p div 4096"
    by (simp add: SOS_PAGE_SHIFT_def unat_drop_bit)
  then show ?thesis
    by (auto simp: get_page_descr_at_paddr_def and_page_mask_zero word_less_nat_alt word_le_nat_alt
        b t SOS_PAGE_SIZE_def not_less not_le)
qed

lemma page_valid_iff:
  "pm_wf s \<Longrightarrow> page_valid s p \<longleftrightarrow> (\<exists>i. 1 \<le> i \<and> i < n_pages s \<and> unat p = i * 4096)"
  using get_descr_iff by (auto simp: page_valid_def)

lemma get_descr_cong:
  "physmem_base s' = physmem_base s \<Longrightarrow> physmem_top s' = physmem_top s \<Longrightarrow>
   get_page_descr_at_paddr p s' = get_page_descr_at_paddr p s"
  by (simp add: get_page_descr_at_paddr_def)

lemma get_descr_inj:
  "get_page_descr_at_paddr p s = Some i \<Longrightarrow> get_page_descr_at_paddr q s = Some i \<Longrightarrow> pm_wf s \<Longrightarrow> p = q"
  by (simp add: get_descr_iff word_unat_eq_iff)

lemma page_refs_fun_upd:
  assumes wf: "pm_wf s" and p: "get_page_descr_at_paddr p s = Some i"
    and g: "physmem_base s' = physmem_base s" "physmem_top s' = physmem_top s"
    and d: "\<And>j. j \<noteq> i \<Longrightarrow> descr s' j = descr s j"
  shows "page_refs s' = (page_refs s)(p := unat (ref_cnt (descr s' i)))"
proof
  fix q
  have e: "get_page_descr_at_paddr q s' = get_page_descr_at_paddr q s"
    using get_descr_cong [OF g] .
  show "page_refs s' q = ((page_refs s)(p := unat (ref_cnt (descr s' i)))) q"
  proof (cases "q = p")
    case True
    then show ?thesis using e p by (simp add: page_refs_def)
  next
    case False
    have "j \<noteq> i" if "get_page_descr_at_paddr q s = Some j" for j
      using get_descr_inj [OF _ p wf, of q] that False by auto
    with False e d show ?thesis
      by (auto simp: page_refs_def split: option.split)
  qed
qed

lemma page_valid_cong:
  "physmem_base s' = physmem_base s \<Longrightarrow> physmem_top s' = physmem_top s \<Longrightarrow>
   page_valid s' = page_valid s"
  by (rule ext) (simp add: page_valid_def get_descr_cong [of s' s])

text \<open>
  Every operation moves at most one descriptor between the lists: the state after it,
  in one normal form.
\<close>

definition pm_set :: "nat \<Rightarrow> u32 \<Rightarrow> sos_vaddr_t option \<Rightarrow> nat list \<Rightarrow> nat list \<Rightarrow> physmem \<Rightarrow> physmem" where
  "pm_set i c r fs us s =
     (upd_descr i (\<lambda>d. d\<lparr>ref_cnt := c, kernel_range := r\<rparr>) s)
       \<lparr>free_ppage := fs, used_ppage := us, physmem_used_pages := word_of_nat (length us)\<rparr>"

lemma pm_set_sel [simp]:
  "n_pages (pm_set i c r fs us s) = n_pages s"
  "free_ppage (pm_set i c r fs us s) = fs"
  "used_ppage (pm_set i c r fs us s) = us"
  "physmem_used_pages (pm_set i c r fs us s) = word_of_nat (length us)"
  "physmem_base (pm_set i c r fs us s) = physmem_base s"
  "physmem_top (pm_set i c r fs us s) = physmem_top s"
  by (simp_all add: pm_set_def)

lemma descr_pm_set:
  "i < n_pages s \<Longrightarrow>
   descr (pm_set i c r fs us s) j = (if j = i then (descr s i)\<lparr>ref_cnt := c, kernel_range := r\<rparr> else descr s j)"
  by (simp add: pm_set_def descr_upd_descr)

lemma pm_set_step:
  assumes wf: "pm_wf s" and p: "get_page_descr_at_paddr p s = Some i"
    and fs: "distinct fs" "set fs = (if c = 0 then insert i (set (free_ppage s)) else set (free_ppage s) - {i})"
    and us: "distinct us" "set us = (if c = 0 then set (used_ppage s) - {i} else insert i (set (used_ppage s)))"
  shows "pm_wf (pm_set i c r fs us s) \<and> page_valid (pm_set i c r fs us s) = page_valid s \<and>
         page_refs (pm_set i c r fs us s) = (page_refs s)(p := unat c)"
proof (intro conjI)
  let ?s' = "pm_set i c r fs us s"
  have i: "1 \<le> i" "i < n_pages s" using wf p by (auto simp: get_descr_iff)
  have "pm_geometry ?s'"
    using wf by (simp add: pm_set_def pm_wf_def pm_geometry_upd_descr)
  moreover have "pm_lists ?s'"
  proof -
    have F: "set (free_ppage s) = {j. 1 \<le> j \<and> j < n_pages s \<and> ref_cnt (descr s j) = 0}"
      and U: "set (used_ppage s) = {j. 1 \<le> j \<and> j < n_pages s \<and> ref_cnt (descr s j) \<noteq> 0}"
      using wf by (auto simp: pm_wf_def pm_lists_def)
    have "set fs = {j. 1 \<le> j \<and> j < n_pages s \<and> ref_cnt (descr ?s' j) = 0}"
      using fs(2) i by (cases "c = 0") (auto simp: F descr_pm_set)
    moreover have "set us = {j. 1 \<le> j \<and> j < n_pages s \<and> ref_cnt (descr ?s' j) \<noteq> 0}"
      using us(2) i by (cases "c = 0") (auto simp: U descr_pm_set)
    ultimately show ?thesis using fs(1) us(1) by (auto simp: pm_lists_def)
  qed
  ultimately show "pm_wf ?s'" by (simp add: pm_wf_def)
  show "page_valid ?s' = page_valid s"
    by (rule page_valid_cong) (simp_all add: pm_set_def)
  show "page_refs ?s' = (page_refs s)(p := unat c)"
    using page_refs_fun_upd [OF wf p, of ?s'] i by (simp add: descr_pm_set)
qed

lemma descr_listed:
  assumes "pm_wf s" and "get_page_descr_at_paddr p s = Some i"
  shows "i < n_pages s" and "i \<in> set (free_ppage s) \<longleftrightarrow> ref_cnt (descr s i) = 0"
    and "i \<in> set (used_ppage s) \<longleftrightarrow> ref_cnt (descr s i) \<noteq> 0"
    and "distinct (free_ppage s)" and "distinct (used_ppage s)"
    and "physmem_used_pages s = word_of_nat (length (used_ppage s))"
  using assms by (auto simp: get_descr_iff pm_wf_def pm_lists_def)

section \<open>Allocation\<close>

lemma new_run:
  assumes wf: "pm_wf s" and f: "free_ppage s = i # fs"
  shows "get_page_descr_at_paddr (paddr (descr s i)) s = Some i"
    and "sos_physmem_ref_physpage_new b s =
           Some (paddr (descr s i), pm_set i 1 None fs (used_ppage s @ [i]) s)"
proof -
  have i: "1 \<le> i" "i < n_pages s" "ref_cnt (descr s i) = 0"
    using wf f by (auto simp: pm_wf_def pm_lists_def)
  then show g: "get_page_descr_at_paddr (paddr (descr s i)) s = Some i"
    using wf by (simp add: get_descr_iff pm_wf_paddr)
  show "sos_physmem_ref_physpage_new b s =
      Some (paddr (descr s i), pm_set i 1 None fs (used_ppage s @ [i]) s)"
    using f i descr_listed(6) [OF wf g]
    by (simp add: sos_physmem_ref_physpage_new_def Let_def add_tail_def pm_set_def upd_descr_def
        n_pages_def)
qed

lemma new_empty: "free_ppage s = [] \<Longrightarrow> sos_physmem_ref_physpage_new b s = Some (0, s)"
  by (simp add: sos_physmem_ref_physpage_new_def)

lemma no_free_page:
  assumes "pm_wf s"
  shows "free_ppage s = [] \<longleftrightarrow> (\<forall>p. page_valid s p \<longrightarrow> page_refs s p \<noteq> 0)"
proof
  assume e: "free_ppage s = []"
  show "\<forall>p. page_valid s p \<longrightarrow> page_refs s p \<noteq> 0"
    using descr_listed(2) [OF assms] e by (auto simp: page_valid_def page_refs_def unat_gt_0)
next
  assume h: "\<forall>p. page_valid s p \<longrightarrow> page_refs s p \<noteq> 0"
  show "free_ppage s = []"
  proof (rule ccontr)
    assume "free_ppage s \<noteq> []"
    then obtain i fs where f: "free_ppage s = i # fs" by (cases "free_ppage s") auto
    note g = new_run(1) [OF assms f]
    have "ref_cnt (descr s i) = 0" using descr_listed(2) [OF assms g] f by simp
    with g h show False by (auto simp: page_valid_def page_refs_def)
  qed
qed

lemma new_nonempty:
  assumes wf: "pm_wf s" and f: "free_ppage s = i # fs"
  shows "\<exists>p s'. sos_physmem_ref_physpage_new b s = Some (p, s') \<and> pm_wf s' \<and> p \<noteq> 0 \<and>
           page_valid s p \<and> page_refs s p = 0 \<and> page_valid s' = page_valid s \<and>
           page_refs s' = (page_refs s)(p := 1)"
proof -
  let ?p = "paddr (descr s i)"
  note g = new_run(1) [OF wf f]
  have d: "distinct (i # fs)" "i \<notin> set (used_ppage s)" "ref_cnt (descr s i) = 0"
    using descr_listed [OF wf g] f by auto
  have "?p \<noteq> 0" using g wf by (auto simp: get_descr_iff)
  moreover have "page_valid s ?p" and "page_refs s ?p = 0"
    using g d by (auto simp: page_valid_def page_refs_def)
  ultimately show ?thesis
    using new_run(2) [OF wf f, of b] d f descr_listed(5) [OF wf g]
      pm_set_step [OF wf g, of fs 1 "used_ppage s @ [i]" None]
    by auto
qed

section \<open>Reference counting\<close>

lemma ref_at_invalid:
  "\<not> page_valid s p \<Longrightarrow> sos_physmem_ref_physpage_at p s = Some (- SOS_EINVAL, s)"
  by (simp add: page_valid_def sos_physmem_ref_physpage_at_def)

lemma unref_invalid:
  "\<not> page_valid s p \<Longrightarrow> sos_physmem_unref_physpage p s = Some (- SOS_EINVAL, s)"
  by (simp add: page_valid_def sos_physmem_unref_physpage_def)

lemma upd_descr_pm_set:
  assumes "physmem_used_pages s = word_of_nat (length (used_ppage s))"
  shows "pm_set i c (kernel_range (descr s i)) (free_ppage s) (used_ppage s) s =
         upd_descr i (\<lambda>d. d\<lparr>ref_cnt := c\<rparr>) s"
  using assms by (cases s) (simp add: pm_set_def upd_descr_def)

lemma ref_at_step:
  assumes wf: "pm_wf s" and v: "page_valid s p" and c: "page_refs s p < 2 ^ 32 - 1"
  shows "\<exists>s'. sos_physmem_ref_physpage_at p s =
              Some (if page_refs s p = 0 then FALSE_ret else TRUE_ret, s') \<and>
           pm_wf s' \<and> page_valid s' = page_valid s \<and>
           page_refs s' = (page_refs s)(p := page_refs s p + 1)"
proof -
  obtain i where g: "get_page_descr_at_paddr p s = Some i"
    using v by (auto simp: page_valid_def)
  note L = descr_listed [OF wf g]
  let ?c = "ref_cnt (descr s i)"
  have rc: "page_refs s p = unat ?c" using g by (simp add: page_refs_def)
  have c1: "unat (?c + 1) = unat ?c + 1"
    using c rc by (simp add: unat_word_ariths)
  show ?thesis
  proof (cases "?c = 0")
    case True
    have "sos_physmem_ref_physpage_at p s =
        Some (FALSE_ret, pm_set i 1 None (remove1 i (free_ppage s)) (used_ppage s @ [i]) s)"
      using g True L by (simp add: sos_physmem_ref_physpage_at_def Let_def descr_upd_descr add_tail_def
          pm_set_def) (simp add: upd_descr_def n_pages_def)
    then show ?thesis
      using pm_set_step [OF wf g, of "remove1 i (free_ppage s)" 1 "used_ppage s @ [i]" None] L True rc
      by auto
  next
    case False
    have ne: "?c + 1 \<noteq> 1" and nz: "?c + 1 \<noteq> 0"
      using False c1 by auto
    have "sos_physmem_ref_physpage_at p s =
        Some (TRUE_ret, pm_set i (?c + 1) (kernel_range (descr s i)) (free_ppage s) (used_ppage s) s)"
      using g ne L upd_descr_pm_set [OF L(6), of i "?c + 1"]
      by (simp add: sos_physmem_ref_physpage_at_def Let_def descr_upd_descr) (simp add: upd_descr_def)
    then show ?thesis
      using pm_set_step [OF wf g, of "free_ppage s" "?c + 1" "used_ppage s" "kernel_range (descr s i)"]
        L False nz rc c1 by (auto simp: insert_absorb unat_eq_0)
  qed
qed

lemma unref_step:
  assumes wf: "pm_wf s" and v: "page_valid s p"
  shows "page_refs s p = 0 \<Longrightarrow> sos_physmem_unref_physpage p s = Some (- SOS_EINVAL, s)"
    and "page_refs s p \<noteq> 0 \<Longrightarrow>
           \<exists>s'. sos_physmem_unref_physpage p s =
                  Some (if page_refs s p = 1 then TRUE_ret else FALSE_ret, s') \<and>
                pm_wf s' \<and> page_valid s' = page_valid s \<and>
                page_refs s' = (page_refs s)(p := page_refs s p - 1)"
proof -
  obtain i where g: "get_page_descr_at_paddr p s = Some i"
    using v by (auto simp: page_valid_def)
  note L = descr_listed [OF wf g]
  let ?c = "ref_cnt (descr s i)"
  have rc: "page_refs s p = unat ?c" using g by (simp add: page_refs_def)
  show "sos_physmem_unref_physpage p s = Some (- SOS_EINVAL, s)" if "page_refs s p = 0"
    using that rc g by (simp add: sos_physmem_unref_physpage_def unat_eq_0)
  show "\<exists>s'. sos_physmem_unref_physpage p s =
                  Some (if page_refs s p = 1 then TRUE_ret else FALSE_ret, s') \<and>
                pm_wf s' \<and> page_valid s' = page_valid s \<and>
                page_refs s' = (page_refs s)(p := page_refs s p - 1)"
    if nz: "page_refs s p \<noteq> 0"
  proof -
    have nz': "?c \<noteq> 0" using nz rc by auto
    have c1: "unat (?c - 1) = unat ?c - 1" using nz' by (rule unat_minus_one)
    show ?thesis
    proof (cases "?c = 1")
      case True
      have lr: "word_of_nat (length (remove1 i (used_ppage s))) = (word_of_nat (length (used_ppage s)) - 1 :: u32)"
        using L True by (intro length_remove1_word) simp
      have "sos_physmem_unref_physpage p s =
          Some (TRUE_ret, pm_set i 0 None (i # free_ppage s) (remove1 i (used_ppage s)) s)"
        using g True L lr
        by (simp add: sos_physmem_unref_physpage_def Let_def descr_upd_descr add_head_def pm_set_def)
          (simp add: upd_descr_def n_pages_def)
      then show ?thesis
        using pm_set_step [OF wf g, of "i # free_ppage s" 0 "remove1 i (used_ppage s)" None] L True rc
        by auto
    next
      case False
      have n2: "?c - 1 \<noteq> 0" using False by simp
      have u2: "unat ?c \<noteq> 1" using False by (metis unat_1 word_unat_eq_iff)
      have "sos_physmem_unref_physpage p s =
          Some (FALSE_ret, pm_set i (?c - 1) (kernel_range (descr s i)) (free_ppage s) (used_ppage s) s)"
        using g nz' n2 L upd_descr_pm_set [OF L(6), of i "?c - 1"]
        by (simp add: sos_physmem_unref_physpage_def Let_def descr_upd_descr) (simp add: upd_descr_def)
      then show ?thesis
        using pm_set_step [OF wf g, of "free_ppage s" "?c - 1" "used_ppage s" "kernel_range (descr s i)"]
          L nz' n2 rc c1 u2 by (auto simp: insert_absorb)
    qed
  qed
qed

section \<open>Kernel ranges of pages\<close>

lemma set_kmem_range_step:
  assumes wf: "pm_wf s" and v: "page_valid s p"
  shows "\<exists>s'. sos_physmem_set_kmem_range p r s = (SOS_OK, s') \<and> pm_wf s' \<and>
           page_valid s' = page_valid s \<and> page_refs s' = page_refs s \<and>
           sos_physmem_get_kmem_range p s' = r \<and>
           (\<forall>q. q \<noteq> p \<longrightarrow> sos_physmem_get_kmem_range q s' = sos_physmem_get_kmem_range q s)"
proof -
  obtain i where g: "get_page_descr_at_paddr p s = Some i"
    using v by (auto simp: page_valid_def)
  note L = descr_listed [OF wf g]
  let ?s' = "pm_set i (ref_cnt (descr s i)) r (free_ppage s) (used_ppage s) s"
  have run: "sos_physmem_set_kmem_range p r s = (SOS_OK, ?s')"
    using g L by (cases s) (simp add: sos_physmem_set_kmem_range_def pm_set_def upd_descr_def)
  have step: "pm_wf ?s' \<and> page_valid ?s' = page_valid s \<and>
      page_refs ?s' = (page_refs s)(p := unat (ref_cnt (descr s i)))"
    by (rule pm_set_step [OF wf g]) (use L in \<open>auto simp: insert_absorb\<close>)
  have same: "get_page_descr_at_paddr q ?s' = get_page_descr_at_paddr q s" for q
    by (rule get_descr_cong) simp_all
  have "sos_physmem_get_kmem_range q ?s' = sos_physmem_get_kmem_range q s" if "q \<noteq> p" for q
    using that get_descr_inj [OF _ g wf, of q] L(1)
    by (auto simp: sos_physmem_get_kmem_range_def same descr_pm_set split: option.split)
  moreover have "sos_physmem_get_kmem_range p ?s' = r"
    using g L(1) by (simp add: sos_physmem_get_kmem_range_def same descr_pm_set)
  moreover have "page_refs ?s' = page_refs s"
    using step g by (auto simp: page_refs_def)
  ultimately show ?thesis using run step by blast
qed

lemma pm_listsI:
  assumes "distinct (free_ppage s)" and "distinct (used_ppage s)"
    and "set (free_ppage s) = {i. 1 \<le> i \<and> i < n_pages s \<and> ref_cnt (descr s i) = 0}"
    and "set (used_ppage s) = {i. 1 \<le> i \<and> i < n_pages s \<and> ref_cnt (descr s i) \<noteq> 0}"
    and "physmem_used_pages s = word_of_nat (length (used_ppage s))"
  shows "pm_lists s"
  using assms by (auto simp: pm_lists_def)

section \<open>The scan of the physical pages\<close>

definition scan_refs :: "sos_paddr_t \<Rightarrow> sos_paddr_t \<Rightarrow> sos_paddr_t \<Rightarrow> nat \<Rightarrow> u32" where
  "scan_refs bk cb ct i =
     (if ppage_todo SOS_PAGE_SIZE bk cb ct (word_of_nat (i * 4096)) \<in> {PPAGE_MARK_KERNEL, PPAGE_MARK_HWMAP}
      then 1 else 0)"

definition scan_inv :: "sos_paddr_t \<Rightarrow> sos_paddr_t \<Rightarrow> sos_paddr_t \<Rightarrow> sos_paddr_t \<Rightarrow> nat \<Rightarrow> physmem \<Rightarrow> bool" where
  "scan_inv bk cb ct tp k s \<longleftrightarrow>
     physmem_base s = SOS_PAGE_SIZE \<and> physmem_top s = tp \<and>
     physmem_total_pages s = word_of_nat k \<and>
     physical_page_descr_array s =
       map (\<lambda>i. \<lparr>paddr = word_of_nat (i * 4096), ref_cnt = scan_refs bk cb ct i, kernel_range = None\<rparr>) [0..<k] \<and>
     pm_lists s"

lemma upd_descr_last:
  assumes "physical_page_descr_array s = ds @ [d]" and "i = length ds"
  shows "upd_descr i f s = s\<lparr>physical_page_descr_array := ds @ [f d]\<rparr>"
  using assms by (simp add: upd_descr_def)

lemma last_entry:
  "length xs = k \<Longrightarrow> (xs @ [x]) ! k = x" "length xs = k \<Longrightarrow> (xs @ [x])[k := y] = xs @ [y]"
  by auto

lemma scan_refs_zero: "scan_refs bk cb ct 0 = 0"
  by (simp add: scan_refs_def ppage_todo_def SOS_PAGE_SIZE_def)

lemma ppage_todo_reserved:
  "k * 4096 < 2 ^ 32 \<Longrightarrow>
   ppage_todo SOS_PAGE_SIZE bk cb ct (word_of_nat (k * 4096)) = PPAGE_MARK_RESERVED \<longleftrightarrow> k = 0"
  using unat_of_nat_small [of "k * 4096"]
  by (auto simp: ppage_todo_def SOS_PAGE_SIZE_def word_less_nat_alt)

lemma scan_step:
  assumes inv: "scan_inv bk cb ct tp k s" and k: "k * 4096 < 2 ^ 32"
  shows "scan_inv bk cb ct tp (Suc k) (ppage_setup bk cb ct (word_of_nat (k * 4096)) s)"
proof -
  define a :: u32 where "a = word_of_nat (k * 4096)"
  let ?ds = "physical_page_descr_array s"
  let ?m = "ppage_todo SOS_PAGE_SIZE bk cb ct a"
  have sr: "scan_refs bk cb ct k = (if ?m \<in> {PPAGE_MARK_KERNEL, PPAGE_MARK_HWMAP} then 1 else 0)"
    by (simp add: scan_refs_def a_def)
  have len: "length ?ds = k" and base: "physmem_base s = SOS_PAGE_SIZE"
    using inv by (auto simp: scan_inv_def)
  have arr: "physical_page_descr_array (ppage_setup bk cb ct a s) =
      ?ds @ [\<lparr>paddr = a, ref_cnt = scan_refs bk cb ct k, kernel_range = None\<rparr>]"
    using base
    by (cases ?m) (simp_all add: ppage_setup_def Let_def upd_descr_def sr last_entry [OF len])
  have rest: "physmem_base (ppage_setup bk cb ct a s) = physmem_base s"
      "physmem_top (ppage_setup bk cb ct a s) = physmem_top s"
      "physmem_total_pages (ppage_setup bk cb ct a s) = physmem_total_pages s + 1"
    using base by (cases ?m; simp add: ppage_setup_def Let_def)+
  have lists: "free_ppage (ppage_setup bk cb ct a s) =
        (if ?m = PPAGE_MARK_FREE then k # free_ppage s else free_ppage s)"
      "used_ppage (ppage_setup bk cb ct a s) =
        (if ?m \<in> {PPAGE_MARK_KERNEL, PPAGE_MARK_HWMAP} then k # used_ppage s else used_ppage s)"
      "physmem_used_pages (ppage_setup bk cb ct a s) =
        (if ?m \<in> {PPAGE_MARK_KERNEL, PPAGE_MARK_HWMAP} then physmem_used_pages s + 1 else physmem_used_pages s)"
    using base len by (cases ?m; simp add: ppage_setup_def Let_def add_head_def)+
  have d: "descr (ppage_setup bk cb ct a s) i =
      (if i = k then \<lparr>paddr = a, ref_cnt = scan_refs bk cb ct k, kernel_range = None\<rparr> else descr s i)"
    if "i \<le> k" for i
    unfolding arr using that len by (simp add: nth_append)
  have n: "n_pages (ppage_setup bk cb ct a s) = Suc k" and ns: "n_pages s = k"
    unfolding n_pages_def arr by (simp_all add: len)
  have res: "?m = PPAGE_MARK_RESERVED \<longleftrightarrow> k = 0"
    unfolding a_def by (rule ppage_todo_reserved [OF k])
  have F: "set (free_ppage s) = {i. 1 \<le> i \<and> i < k \<and> ref_cnt (descr s i) = 0}"
    and U: "set (used_ppage s) = {i. 1 \<le> i \<and> i < k \<and> ref_cnt (descr s i) \<noteq> 0}"
    and D: "distinct (free_ppage s)" "distinct (used_ppage s)"
    and C: "physmem_used_pages s = word_of_nat (length (used_ppage s))"
    using inv ns by (auto simp: scan_inv_def pm_lists_def)
  have "set (free_ppage (ppage_setup bk cb ct a s)) =
      {i. 1 \<le> i \<and> i < Suc k \<and> ref_cnt (descr (ppage_setup bk cb ct a s) i) = 0}"
    using res by (cases ?m) (auto simp: lists F d sr less_Suc_eq)
  moreover have "set (used_ppage (ppage_setup bk cb ct a s)) =
      {i. 1 \<le> i \<and> i < Suc k \<and> ref_cnt (descr (ppage_setup bk cb ct a s) i) \<noteq> 0}"
    using res by (cases ?m) (auto simp: lists U d sr less_Suc_eq)
  moreover have "distinct (free_ppage (ppage_setup bk cb ct a s))"
    unfolding lists using D by (simp add: F)
  moreover have "distinct (used_ppage (ppage_setup bk cb ct a s))"
    unfolding lists using D by (simp add: U)
  moreover have "physmem_used_pages (ppage_setup bk cb ct a s) =
      word_of_nat (length (used_ppage (ppage_setup bk cb ct a s)))"
    unfolding lists using C by simp
  ultimately have "pm_lists (ppage_setup bk cb ct a s)"
    by (intro pm_listsI) (simp_all only: n)
  then show ?thesis
    unfolding a_def [symmetric] using inv by (simp add: scan_inv_def rest arr) (simp add: a_def)
qed

lemma scan_all:
  assumes "scan_inv bk cb ct tp k s" and "k \<le> n" and "unat tp = n * 4096"
  shows "\<exists>s'. ppage_scan bk cb ct (word_of_nat (k * 4096)) s = Some s' \<and> scan_inv bk cb ct tp n s'"
  using assms
proof (induction "n - k" arbitrary: k s)
  case 0
  then have "k = n" by simp
  have "(word_of_nat (n * 4096) :: u32) = tp"
    using word_eq_of_nat [OF 0(4)] by simp
  moreover have "physmem_top s = tp" using 0 by (simp add: scan_inv_def)
  ultimately show ?case
    using 0 \<open>k = n\<close> by (subst ppage_scan.simps) simp
next
  case (Suc m)
  have lt: "k * 4096 < n * 4096" and b: "n * 4096 < 2 ^ 32"
    using Suc unsigned_less [of tp, where 'a = nat] by auto
  have t: "physmem_top s = tp" using Suc by (simp add: scan_inv_def)
  have cond: "(word_of_nat (k * 4096) :: u32) < tp"
    using lt b Suc.prems(3) unat_of_nat_small [of "k * 4096"] by (simp add: word_less_nat_alt)
  have nxt: "(word_of_nat (k * 4096) :: u32) + SOS_PAGE_SIZE = word_of_nat (Suc k * 4096)"
    by (simp add: SOS_PAGE_SIZE_def)
  have "scan_inv bk cb ct tp (Suc k) (ppage_setup bk cb ct (word_of_nat (k * 4096)) s)"
    by (rule scan_step) (use Suc.prems(1) lt b in auto)
  then obtain s' where "ppage_scan bk cb ct (word_of_nat (Suc k * 4096))
        (ppage_setup bk cb ct (word_of_nat (k * 4096)) s) = Some s'" "scan_inv bk cb ct tp n s'"
    using Suc by (metis Suc_diff_Suc Suc_inject Suc_leI lt mult_less_cancel2)
  then show ?case
    by (subst ppage_scan.simps) (simp only: t cond nxt if_True, blast)
qed

lemma scan_inv_wf:
  assumes "scan_inv bk cb ct tp n s" and "unat tp = n * 4096"
  shows "pm_wf s" and "n_pages s = n"
    and "page_valid s p \<Longrightarrow> page_refs s p =
           (if ppage_todo SOS_PAGE_SIZE bk cb ct p \<in> {PPAGE_MARK_KERNEL, PPAGE_MARK_HWMAP} then 1 else 0)"
proof -
  show n: "n_pages s = n" using assms by (simp add: scan_inv_def n_pages_def)
  show wf: "pm_wf s"
    using assms n by (simp add: pm_wf_def pm_geometry_def scan_inv_def comp_def)
  assume "page_valid s p"
  then obtain i where g: "get_page_descr_at_paddr p s = Some i" by (auto simp: page_valid_def)
  then have i: "i < n" and "unat p = i * 4096" using wf n by (auto simp: get_descr_iff)
  then have "p = word_of_nat (i * 4096)" using word_eq_of_nat by metis
  with g i assms(1) show "page_refs s p =
      (if ppage_todo SOS_PAGE_SIZE bk cb ct p \<in> {PPAGE_MARK_KERNEL, PPAGE_MARK_HWMAP} then 1 else 0)"
    by (simp add: page_refs_def scan_inv_def scan_refs_def)
qed

lemma setup_result:
  "\<exists>r s'. sos_physmem_subsystem_setup b e ram s = Some (r, kernel_core_base_of b, kernel_core_top_of e (SOS_PAGE_ALIGN_INF ram), s') \<and>
     r = (if kernel_core_top_of e (SOS_PAGE_ALIGN_INF ram) > SOS_PAGE_ALIGN_INF ram then - SOS_ENOMEM else SOS_OK) \<and>
     (r = SOS_OK \<longrightarrow> pm_wf s' \<and> n_pages s' = unat ram div 4096 \<and>
        (\<forall>p. page_valid s' p \<longrightarrow> page_refs s' p =
           (if ppage_todo SOS_PAGE_SIZE b (kernel_core_base_of b) (kernel_core_top_of e (SOS_PAGE_ALIGN_INF ram)) p
                 \<in> {PPAGE_MARK_KERNEL, PPAGE_MARK_HWMAP} then 1 else 0)))"
proof (cases "kernel_core_top_of e (SOS_PAGE_ALIGN_INF ram) > SOS_PAGE_ALIGN_INF ram")
  case True
  then show ?thesis
    by (simp add: sos_physmem_subsystem_setup_def Let_def errno_defs)
next
  case False
  let ?tp = "SOS_PAGE_ALIGN_INF ram"
  define s0 where "s0 = s\<lparr>free_ppage := [], used_ppage := [], physmem_total_pages := 0,
    physmem_used_pages := 0, physmem_base := SOS_PAGE_SIZE, physmem_top := ?tp,
    physical_page_descr_array := []\<rparr>"
  have i0: "scan_inv b (kernel_core_base_of b) (kernel_core_top_of e (SOS_PAGE_ALIGN_INF ram)) ?tp 0 s0"
    by (simp add: scan_inv_def s0_def pm_lists_def n_pages_def)
  have t: "unat ?tp = unat ram div 4096 * 4096" by (rule unat_page_align_inf)
  obtain s' where s': "ppage_scan b (kernel_core_base_of b) (kernel_core_top_of e (SOS_PAGE_ALIGN_INF ram)) 0 s0 = Some s'"
      "scan_inv b (kernel_core_base_of b) (kernel_core_top_of e (SOS_PAGE_ALIGN_INF ram)) ?tp (unat ram div 4096) s'"
    using scan_all [OF i0 _ t] by auto
  have "sos_physmem_subsystem_setup b e ram s = Some (SOS_OK, kernel_core_base_of b, kernel_core_top_of e (SOS_PAGE_ALIGN_INF ram), s')"
    using False s'(1) by (simp add: sos_physmem_subsystem_setup_def Let_def s0_def)
  with False scan_inv_wf [OF s'(2) t] show ?thesis by simp
qed

section \<open>The contract of a reference-counted page allocator\<close>

locale page_counter =
  fixes wf :: "'s \<Rightarrow> bool"
    and valid :: "'s \<Rightarrow> 'p \<Rightarrow> bool"
    and refs :: "'s \<Rightarrow> 'p \<Rightarrow> nat"
    and alloc :: "'s \<Rightarrow> ('p \<times> 's) option"
    and ref_at unref :: "'p \<Rightarrow> 's \<Rightarrow> (sos_ret_t \<times> 's) option"
    and nopage :: 'p
    and limit :: nat
  assumes alloc_full: "wf s \<Longrightarrow> \<forall>p. valid s p \<longrightarrow> refs s p \<noteq> 0 \<Longrightarrow> alloc s = Some (nopage, s)"
    and alloc_page: "wf s \<Longrightarrow> \<exists>p. valid s p \<and> refs s p = 0 \<Longrightarrow>
      \<exists>p s'. alloc s = Some (p, s') \<and> wf s' \<and> p \<noteq> nopage \<and> valid s p \<and> refs s p = 0 \<and>
             valid s' = valid s \<and> refs s' = (refs s)(p := 1)"
    and ref_page: "wf s \<Longrightarrow> valid s p \<Longrightarrow> refs s p < limit \<Longrightarrow>
      \<exists>s'. ref_at p s = Some (if refs s p = 0 then FALSE_ret else TRUE_ret, s') \<and> wf s' \<and>
           valid s' = valid s \<and> refs s' = (refs s)(p := refs s p + 1)"
    and unref_page: "wf s \<Longrightarrow> valid s p \<Longrightarrow> refs s p \<noteq> 0 \<Longrightarrow>
      \<exists>s'. unref p s = Some (if refs s p = 1 then TRUE_ret else FALSE_ret, s') \<and> wf s' \<and>
           valid s' = valid s \<and> refs s' = (refs s)(p := refs s p - 1)"
begin

lemma alloc_cases:
  assumes "wf s"
  obtains (full) "alloc s = Some (nopage, s)" "\<forall>p. valid s p \<longrightarrow> refs s p \<noteq> 0"
  | (page) p s' where "alloc s = Some (p, s')" "wf s'" "p \<noteq> nopage" "valid s p" "refs s p = 0"
      "valid s' = valid s" "refs s' = (refs s)(p := 1)"
proof (cases "\<exists>p. valid s p \<and> refs s p = 0")
  case True
  from alloc_page [OF assms this] show ?thesis using page by (elim exE conjE)
next
  case False
  with alloc_full [OF assms] show ?thesis using full by simp
qed

lemma alloc_total: "wf s \<Longrightarrow> \<exists>p s'. alloc s = Some (p, s') \<and> wf s'"
  by (rule alloc_cases [of s]) auto

lemma alloc_fresh:
  assumes "wf s" and "alloc s = Some (p, s')" and "refs s q \<noteq> 0"
  shows "p \<noteq> q \<or> p = nopage"
  using assms(1) by (rule alloc_cases) (use assms in auto)

lemma alloc_twice_distinct:
  assumes "wf s" and "alloc s = Some (p, s1)" and "alloc s1 = Some (q, s2)" and "p \<noteq> nopage"
  shows "q \<noteq> p \<and> refs s2 p = 1"
  using assms(1)
proof (rule alloc_cases)
  assume "alloc s = Some (nopage, s)"
  with assms show ?thesis by simp
next
  fix p' s'
  assume a: "alloc s = Some (p', s')" "wf s'" "refs s' = (refs s)(p' := 1)"
  with assms have e: "p' = p" "s' = s1" by auto
  from a(2) show ?thesis
    by (rule alloc_cases) (use a e assms in auto)
qed

lemma alloc_unref:
  assumes "wf s" and "alloc s = Some (p, s1)" and "p \<noteq> nopage"
  shows "\<exists>s2. unref p s1 = Some (TRUE_ret, s2) \<and> wf s2 \<and> valid s2 = valid s \<and> refs s2 = refs s"
  using assms(1)
proof (rule alloc_cases)
  assume "alloc s = Some (nopage, s)"
  with assms show ?thesis by simp
next
  fix p' s'
  assume a: "alloc s = Some (p', s')" "wf s'" "valid s p'" "refs s p' = 0" "valid s' = valid s"
    "refs s' = (refs s)(p' := 1)"
  with assms have e: "p' = p" "s' = s1" by auto
  with unref_page [of s1 p] a show ?thesis by fastforce
qed

lemma ref_unref:
  assumes "wf s" and "valid s p" and "refs s p < limit"
  shows "\<exists>r s1 r' s2. ref_at p s = Some (r, s1) \<and> unref p s1 = Some (r', s2) \<and> wf s2 \<and>
           valid s2 = valid s \<and> refs s2 = refs s \<and> (r' = TRUE_ret \<longleftrightarrow> refs s p = 0)"
proof -
  obtain r s1 where s1: "ref_at p s = Some (r, s1)" "wf s1" "valid s1 = valid s"
      "refs s1 = (refs s)(p := refs s p + 1)"
    using ref_page [OF assms] by blast
  with unref_page [of s1 p] assms(2) show ?thesis by (fastforce simp: errno_defs)
qed

lemma unref_all:
  "wf s \<Longrightarrow> valid s p \<Longrightarrow> refs s p = Suc n \<Longrightarrow>
   \<exists>s'. iter_opt (unref p) (Suc n) s = Some (replicate n FALSE_ret @ [TRUE_ret], s') \<and> wf s' \<and>
        refs s' = (refs s)(p := 0)"
proof (induction n arbitrary: s)
  case 0
  with unref_page [of s p] show ?case by auto
next
  case (Suc n)
  then obtain s1 where s1: "unref p s = Some (FALSE_ret, s1)" "wf s1" "valid s1 p"
      "refs s1 = (refs s)(p := Suc n)"
    using unref_page [of s p] by auto
  have r: "refs s1 p = Suc n" using s1(4) by simp
  from Suc.IH [OF s1(2,3) r] obtain s' where
      "iter_opt (unref p) (Suc n) s1 = Some (replicate n FALSE_ret @ [TRUE_ret], s')" "wf s'"
      "refs s' = (refs s1)(p := 0)" by blast
  with s1 have "iter_opt (unref p) (Suc (Suc n)) s = Some (replicate (Suc n) FALSE_ret @ [TRUE_ret], s')"
      "refs s' = (refs s)(p := 0)"
    by (simp_all only: iter_opt.simps(2) [of _ "Suc n"]) (auto simp del: iter_opt.simps simp: fun_eq_iff)
  with \<open>wf s'\<close> show ?case by blast
qed

end

interpretation pm: page_counter pm_wf page_valid page_refs "sos_physmem_ref_physpage_new b"
  sos_physmem_ref_physpage_at sos_physmem_unref_physpage 0 "2 ^ 32 - 1" for b
proof unfold_locales
  fix s
  assume wf: "pm_wf s"
  show "sos_physmem_ref_physpage_new b s = Some (0, s)"
    if "\<forall>p. page_valid s p \<longrightarrow> page_refs s p \<noteq> 0"
    using that no_free_page [OF wf] new_empty by blast
  show "\<exists>p s'. sos_physmem_ref_physpage_new b s = Some (p, s') \<and> pm_wf s' \<and> p \<noteq> 0 \<and>
      page_valid s p \<and> page_refs s p = 0 \<and> page_valid s' = page_valid s \<and>
      page_refs s' = (page_refs s)(p := 1)"
    if "\<exists>p. page_valid s p \<and> page_refs s p = 0"
  proof -
    have "free_ppage s \<noteq> []" using that no_free_page [OF wf] by blast
    then obtain i fs where "free_ppage s = i # fs" by (cases "free_ppage s") auto
    from new_nonempty [OF wf this] show ?thesis by blast
  qed
next
  fix s p
  assume wf: "pm_wf s" and v: "page_valid s p"
  show "\<exists>s'. sos_physmem_ref_physpage_at p s =
        Some (if page_refs s p = 0 then FALSE_ret else TRUE_ret, s') \<and> pm_wf s' \<and>
        page_valid s' = page_valid s \<and> page_refs s' = (page_refs s)(p := page_refs s p + 1)"
    if "page_refs s p < 2 ^ 32 - 1"
    using ref_at_step [OF wf v that] .
  show "\<exists>s'. sos_physmem_unref_physpage p s =
        Some (if page_refs s p = 1 then TRUE_ret else FALSE_ret, s') \<and> pm_wf s' \<and>
        page_valid s' = page_valid s \<and> page_refs s' = (page_refs s)(p := page_refs s p - 1)"
    if "page_refs s p \<noteq> 0"
    using unref_step(2) [OF wf v that] .
qed

section \<open>Reachable states\<close>

text \<open>
  The steps of the rest of the kernel. A page of \<open>K\<close> keeps the reference the setup gave it;
  counts stay below the width of the counter.
\<close>

inductive pm_step :: "sos_paddr_t set \<Rightarrow> physmem \<Rightarrow> physmem \<Rightarrow> bool" for K where
  new: "sos_physmem_ref_physpage_new b s = Some (p, s') \<Longrightarrow> pm_step K s s'"
| ref: "page_refs s p < 2 ^ 32 - 1 \<Longrightarrow> sos_physmem_ref_physpage_at p s = Some (r, s') \<Longrightarrow> pm_step K s s'"
| unref: "p \<in> K \<longrightarrow> page_refs s p \<noteq> 1 \<Longrightarrow> sos_physmem_unref_physpage p s = Some (r, s') \<Longrightarrow> pm_step K s s'"
| set_range: "sos_physmem_set_kmem_range p kr s = (r, s') \<Longrightarrow> pm_step K s s'"

inductive pm_reach :: "sos_paddr_t set \<Rightarrow> physmem \<Rightarrow> physmem \<Rightarrow> bool" for K s where
  start: "pm_reach K s s"
| step: "pm_reach K s t \<Longrightarrow> pm_step K t u \<Longrightarrow> pm_reach K s u"

definition kept :: "sos_paddr_t set \<Rightarrow> physmem \<Rightarrow> bool" where
  "kept K s \<longleftrightarrow> (\<forall>p \<in> K. page_valid s p \<longrightarrow> page_refs s p \<noteq> 0)"

lemma pm_step_inv:
  "pm_step K s s' \<Longrightarrow> pm_wf s \<Longrightarrow> pm_wf s' \<and> page_valid s' = page_valid s \<and> (kept K s \<longrightarrow> kept K s')"
proof (induction rule: pm_step.induct)
  case (new b s p s')
  from \<open>pm_wf s\<close> show ?case
    by (rule pm.alloc_cases [of _ b]) (use new in \<open>auto simp: kept_def\<close>)
next
  case (ref s p r s')
  show ?case
  proof (cases "page_valid s p")
    case True
    with ref pm.ref_page [of s p] show ?thesis by (auto simp: kept_def)
  next
    case False
    with ref show ?thesis by (auto simp: ref_at_invalid)
  qed
next
  case (unref p s r s')
  show ?case
  proof (cases "page_valid s p \<and> page_refs s p \<noteq> 0")
    case True
    with unref pm.unref_page [of s p] show ?thesis by (auto simp: kept_def)
  next
    case False
    with unref unref_step(1) [of s p] unref_invalid [of s p] show ?thesis by auto
  qed
next
  case (set_range p kr s r s')
  show ?case
  proof (cases "page_valid s p")
    case True
    with set_range set_kmem_range_step [of s p kr] show ?thesis by (auto simp: kept_def)
  next
    case False
    with set_range show ?thesis
      by (auto simp: sos_physmem_set_kmem_range_def page_valid_def)
  qed
qed

lemma pm_reach_inv:
  "pm_reach K s t \<Longrightarrow> pm_wf s \<Longrightarrow> pm_wf t \<and> page_valid t = page_valid s \<and> (kept K s \<longrightarrow> kept K t)"
  by (induction rule: pm_reach.induct) (auto dest: pm_step_inv)

section \<open>Accounting\<close>

lemma referenced_pages_card:
  assumes wf: "pm_wf s"
  shows "card {p. page_valid s p \<and> page_refs s p \<noteq> 0} = length (used_ppage s)"
proof -
  define f where "f i = (word_of_nat (i * 4096) :: u32)" for i
  have U: "set (used_ppage s) = {i. 1 \<le> i \<and> i < n_pages s \<and> ref_cnt (descr s i) \<noteq> 0}"
    and D: "distinct (used_ppage s)"
    using wf by (auto simp: pm_wf_def pm_lists_def)
  have u: "unat (f i) = i * 4096" if "i < n_pages s" for i
    using that pm_wf_bound [OF wf] unat_of_nat_small [of "i * 4096"] by (simp add: f_def)
  have "{p. page_valid s p \<and> page_refs s p \<noteq> 0} = f ` set (used_ppage s)"
  proof (intro set_eqI iffI)
    fix p
    assume "p \<in> {p. page_valid s p \<and> page_refs s p \<noteq> 0}"
    then obtain i where g: "get_page_descr_at_paddr p s = Some i" and r: "ref_cnt (descr s i) \<noteq> 0"
      by (auto simp: page_valid_def page_refs_def unat_gt_0)
    then have i: "1 \<le> i" "i < n_pages s" "unat p = i * 4096"
      using get_descr_iff [OF wf] by auto
    then have "p = f i" unfolding f_def by (intro word_eq_of_nat)
    with i r show "p \<in> f ` set (used_ppage s)" by (auto simp: U)
  next
    fix p
    assume "p \<in> f ` set (used_ppage s)"
    then obtain i where i: "p = f i" "1 \<le> i" "i < n_pages s" "ref_cnt (descr s i) \<noteq> 0"
      by (auto simp: U)
    then have "get_page_descr_at_paddr p s = Some i"
      using get_descr_iff [OF wf] u by auto
    with i show "p \<in> {p. page_valid s p \<and> page_refs s p \<noteq> 0}"
      by (auto simp: page_valid_def page_refs_def unat_gt_0)
  qed
  moreover have "inj_on f (set (used_ppage s))"
    by (rule inj_onI) (use u in \<open>auto simp: U dest!: arg_cong [where f = unat]\<close>)
  ultimately show ?thesis using D by (simp add: card_image distinct_card)
qed

lemma length_used: "pm_wf s \<Longrightarrow> length (used_ppage s) < 2 ^ 32"
proof -
  assume wf: "pm_wf s"
  have D: "distinct (used_ppage s)"
    and U: "set (used_ppage s) = set (filter (\<lambda>i. ref_cnt (descr s i) \<noteq> 0) [1..<n_pages s])"
    using wf by (simp_all only: pm_wf_def pm_lists_def)
  have S: "set (used_ppage s) \<subseteq> {0..<n_pages s}"
    unfolding U by auto
  have "length (used_ppage s) = card (set (used_ppage s))"
    using D by (rule distinct_card [symmetric])
  also have "\<dots> \<le> card {0..<n_pages s}"
    using S by (intro card_mono) auto
  finally have "length (used_ppage s) \<le> n_pages s" by simp
  with pm_wf_bound [OF wf] show ?thesis by linarith
qed

section \<open>Properties\<close>

text \<open>A memory of three pages: page 0 reserved, page 1 used, page 2 free.\<close>

definition pm_example :: physmem where
  "pm_example = \<lparr>physical_page_descr_array =
       [\<lparr>paddr = 0, ref_cnt = 0, kernel_range = None\<rparr>,
        \<lparr>paddr = 0x1000, ref_cnt = 2, kernel_range = Some 0x4000\<rparr>,
        \<lparr>paddr = 0x2000, ref_cnt = 0, kernel_range = None\<rparr>],
     free_ppage = [2], used_ppage = [1], physmem_base = 0x1000, physmem_top = 0x3000,
     physmem_total_pages = 3, physmem_used_pages = 1\<rparr>"

lemma pm_example_wf: "pm_wf pm_example"
  by (simp add: pm_wf_def pm_geometry_def pm_lists_def n_pages_def pm_example_def SOS_PAGE_SIZE_def
      upt_rec)

lemma pm_example_page1:
  "page_valid pm_example 0x1000" "page_refs pm_example 0x1000 = 2"
  "page_valid pm_example 0x2000" "page_refs pm_example 0x2000 = 0"
  by (simp_all add: page_valid_def page_refs_def get_page_descr_at_paddr_def pm_example_def page_defs
      drop_bit_eq_div)

lemma setup_classifies:
  assumes align: "SOS_IS_PAGE_ALIGNED b_kernel" and above: "BIOS_N_VIDEO_END \<le> b_kernel"
  shows "\<exists>r s'. let ram = SOS_PAGE_ALIGN_INF ram_size; top = kernel_core_top_of e_kernel ram in
     sos_physmem_subsystem_setup b_kernel e_kernel ram_size s = Some (r, b_kernel, top, s') \<and>
     r = (if ram < top then - SOS_ENOMEM else SOS_OK) \<and>
     (r = SOS_OK \<longrightarrow> pm_wf s' \<and> n_pages s' = unat ram_size div 4096 \<and>
        (\<forall>p. page_valid s' p \<longrightarrow>
           page_refs s' p = (if BIOS_N_VIDEO_START \<le> p \<and> p < BIOS_N_VIDEO_END
                               \<or> b_kernel \<le> p \<and> p < top then 1 else 0)))"
proof -
  have base: "kernel_core_base_of b_kernel = b_kernel"
    unfolding kernel_core_base_of_def using align
    by (intro word_unat_eq_iff [THEN iffD2]) (simp add: unat_page_align_inf is_page_aligned_iff mod_eq_0_iff_dvd)
  have mark: "ppage_todo SOS_PAGE_SIZE b_kernel b_kernel t p \<in> {PPAGE_MARK_KERNEL, PPAGE_MARK_HWMAP} \<longleftrightarrow>
      BIOS_N_VIDEO_START \<le> p \<and> p < BIOS_N_VIDEO_END \<or> b_kernel \<le> p \<and> p < t"
    if "SOS_PAGE_SIZE \<le> p" for t p
    using that above by (auto simp: ppage_todo_def page_defs word_less_nat_alt word_le_nat_alt)
  have low: "SOS_PAGE_SIZE \<le> p" if "pm_wf s'" "page_valid s' p" for s' :: physmem and p
    using that by (auto simp: page_valid_iff word_le_nat_alt SOS_PAGE_SIZE_def)
  let ?t = "kernel_core_top_of e_kernel (SOS_PAGE_ALIGN_INF ram_size)"
  obtain r s' where R:
      "sos_physmem_subsystem_setup b_kernel e_kernel ram_size s = Some (r, b_kernel, ?t, s')"
      "r = (if ?t > SOS_PAGE_ALIGN_INF ram_size then - SOS_ENOMEM else SOS_OK)"
      "r = SOS_OK \<longrightarrow> pm_wf s' \<and> n_pages s' = unat ram_size div 4096 \<and>
        (\<forall>p. page_valid s' p \<longrightarrow> page_refs s' p =
           (if ppage_todo SOS_PAGE_SIZE b_kernel b_kernel ?t p \<in> {PPAGE_MARK_KERNEL, PPAGE_MARK_HWMAP}
            then 1 else 0))"
    using setup_result [of b_kernel e_kernel ram_size s] unfolding base by blast
  then have "r = SOS_OK \<longrightarrow> pm_wf s' \<and> n_pages s' = unat ram_size div 4096 \<and>
        (\<forall>p. page_valid s' p \<longrightarrow> page_refs s' p =
           (if BIOS_N_VIDEO_START \<le> p \<and> p < BIOS_N_VIDEO_END \<or> b_kernel \<le> p \<and> p < ?t then 1 else 0))"
    using mark low by metis
  with R(1,2) show ?thesis unfolding Let_def by blast
qed

text \<open>
  After a successful setup, with the kernel image aligned as the linker script aligns it and
  loaded above the BIOS hole, the allocator is well formed, it manages one descriptor per page of
  RAM, and a page is referenced exactly when it belongs to the BIOS and video hole or to the
  kernel image with its descriptor array; setup fails with ENOMEM exactly when that image does
  not fit in RAM.
\<close>

theorem setup_classifies_pages:
  assumes align: "SOS_IS_PAGE_ALIGNED b_kernel" and above: "BIOS_N_VIDEO_END \<le> b_kernel"
  shows "\<exists>r s'. let ram = SOS_PAGE_ALIGN_INF ram_size; top = kernel_core_top_of e_kernel ram in
     sos_physmem_subsystem_setup b_kernel e_kernel ram_size s = Some (r, b_kernel, top, s') \<and>
     r = (if ram < top then - SOS_ENOMEM else SOS_OK) \<and>
     (r = SOS_OK \<longrightarrow> pm_wf s' \<and> n_pages s' = unat ram_size div 4096 \<and>
        (\<forall>p. page_valid s' p \<longrightarrow>
           page_refs s' p = (if BIOS_N_VIDEO_START \<le> p \<and> p < BIOS_N_VIDEO_END
                               \<or> b_kernel \<le> p \<and> p < top then 1 else 0)))"
  by (rule setup_classifies [OF assms])

theorem setup_classifies_pages_witness:
  "\<exists>s'. sos_physmem_subsystem_setup 0x200000 0x240000 0x1000000 pm_example
          = Some (SOS_OK, 0x200000, 0x254000, s') \<and>
        pm_wf s' \<and> n_pages s' = 4096"
proof -
  have "kernel_core_top_of 0x240000 0x1000000 = 0x254000" "SOS_PAGE_ALIGN_INF 0x1000000 = 0x1000000"
    by code_simp+
  moreover have "SOS_IS_PAGE_ALIGNED 0x200000" "BIOS_N_VIDEO_END \<le> 0x200000" by code_simp+
  ultimately show ?thesis
    using setup_classifies_pages [of "0x200000" "0x1000000" "0x240000" pm_example] by (simp add: Let_def) blast
qed

text \<open>
  C13: The allocator always returns, its assertion never fires: it gives 0 and changes nothing when
  every managed page is referenced, and otherwise a page that nobody referenced, whose count
  becomes one while every other page keeps its count.
\<close>

theorem ref_physpage_new_fresh:
  assumes "pm_wf s"
  shows "\<exists>p s'. sos_physmem_ref_physpage_new can_block s = Some (p, s') \<and> pm_wf s' \<and>
     (p = 0 \<longleftrightarrow> (\<forall>q. page_valid s q \<longrightarrow> page_refs s q \<noteq> 0)) \<and>
     (p = 0 \<longrightarrow> s' = s) \<and>
     (p \<noteq> 0 \<longrightarrow> page_valid s p \<and> page_refs s p = 0 \<and> page_valid s' = page_valid s \<and>
        page_refs s' = (page_refs s)(p := 1))"
proof (rule pm.alloc_cases [OF assms, of can_block])
  assume "sos_physmem_ref_physpage_new can_block s = Some (0, s)"
    and "\<forall>p. page_valid s p \<longrightarrow> page_refs s p \<noteq> 0"
  with assms show ?thesis by simp
next
  fix p s'
  assume "sos_physmem_ref_physpage_new can_block s = Some (p, s')" "pm_wf s'" "p \<noteq> 0"
    "page_valid s p" "page_refs s p = 0" "page_valid s' = page_valid s"
    "page_refs s' = (page_refs s)(p := 1)"
  then show ?thesis by blast
qed

theorem ref_physpage_new_fresh_witness:
  "\<exists>p s'. sos_physmem_ref_physpage_new True pm_example = Some (p, s') \<and> pm_wf s' \<and> p \<noteq> 0 \<and>
     page_refs pm_example p = 0 \<and> page_refs s' 0x1000 = 2"
  using ref_physpage_new_fresh [OF pm_example_wf, of True] pm_example_page1 by fastforce

text \<open>
  C11: From a state the allocator reaches, the pages of a set that were referenced at the start and
  whose last reference nobody releases (the kernel image, the BIOS hole) are never handed out by
  the allocator, and every page it hands out is a valid one.
\<close>

theorem protected_pages_never_allocated:
  assumes "pm_wf s0" and "kept K s0" and "pm_reach K s0 s"
    and "sos_physmem_ref_physpage_new can_block s = Some (p, s')" and "p \<noteq> 0"
  shows "p \<notin> K \<and> page_valid s0 p \<and> page_refs s p = 0 \<and> pm_wf s'"
proof -
  have inv: "pm_wf s" "page_valid s = page_valid s0" "kept K s"
    using pm_reach_inv [OF assms(3,1)] assms(2) by auto
  from inv(1) show ?thesis
    by (rule pm.alloc_cases [of _ can_block]) (use inv assms in \<open>auto simp: kept_def\<close>)
qed

theorem protected_pages_never_allocated_witness:
  "\<exists>p s'. sos_physmem_ref_physpage_new True pm_example = Some (p, s') \<and> p \<notin> {0x1000} \<and> pm_wf s'"
proof -
  obtain p s' where n: "sos_physmem_ref_physpage_new True pm_example = Some (p, s')" "p \<noteq> 0"
    by (rule pm.alloc_cases [OF pm_example_wf, of True]) (use pm_example_page1 in auto)
  have "kept {0x1000} pm_example" using pm_example_page1 by (simp add: kept_def)
  from protected_pages_never_allocated [OF pm_example_wf this pm_reach.start n] n show ?thesis
    by blast
qed

text \<open>
  C12: A page referenced n times takes n releases: the first n - 1 answer FALSE, the last one TRUE,
  the page is then free, and one more release is refused with EINVAL.
\<close>

theorem unref_physpage_lifecycle:
  assumes "pm_wf s" and "page_valid s p" and "page_refs s p = Suc n"
  shows "\<exists>s'. iter_opt (sos_physmem_unref_physpage p) (Suc n) s
                 = Some (replicate n FALSE_ret @ [TRUE_ret], s') \<and>
              pm_wf s' \<and> page_refs s' = (page_refs s)(p := 0) \<and>
              sos_physmem_unref_physpage p s' = Some (- SOS_EINVAL, s')"
proof -
  obtain s' where s': "iter_opt (sos_physmem_unref_physpage p) (Suc n) s
      = Some (replicate n FALSE_ret @ [TRUE_ret], s')" "pm_wf s'" "page_refs s' = (page_refs s)(p := 0)"
    using pm.unref_all [OF assms] by blast
  have "sos_physmem_unref_physpage p s' = Some (- SOS_EINVAL, s')"
  proof (cases "page_valid s' p")
    case True
    with unref_step(1) [OF s'(2)] s'(3) show ?thesis by simp
  next
    case False
    then show ?thesis by (rule unref_invalid)
  qed
  with s' show ?thesis by blast
qed

theorem unref_physpage_lifecycle_witness:
  "\<exists>s'. iter_opt (sos_physmem_unref_physpage 0x1000) 2 pm_example
          = Some ([FALSE_ret, TRUE_ret], s') \<and> page_refs s' 0x1000 = 0"
  using unref_physpage_lifecycle [OF pm_example_wf pm_example_page1(1), of 1] pm_example_page1(2)
  by (auto simp: numeral_2_eq_2 simp del: iter_opt.simps)

text \<open>
  The counters that sos_physmem_get_state reports are exact in every well-formed state: the
  number of descriptors, and the number of pages that hold a reference.
\<close>

theorem get_state_counts:
  assumes "pm_wf s"
  shows "\<exists>total used. sos_physmem_get_state s = (SOS_OK, total, used) \<and>
           unat total = n_pages s \<and>
           unat used = card {p. page_valid s p \<and> page_refs s p \<noteq> 0}"
proof -
  have "physmem_total_pages s = word_of_nat (n_pages s)"
      "physmem_used_pages s = word_of_nat (length (used_ppage s))"
    using assms by (simp_all only: pm_wf_def pm_geometry_def pm_lists_def)
  moreover have "n_pages s < 2 ^ 32" using pm_wf_bound [OF assms] by linarith
  ultimately show ?thesis
    using length_used [OF assms] referenced_pages_card [OF assms]
    by (simp add: sos_physmem_get_state_def unat_of_nat_small)
qed

theorem get_state_counts_witness:
  "sos_physmem_get_state pm_example = (SOS_OK, 3, 1) \<and>
   card {p. page_valid pm_example p \<and> page_refs pm_example p \<noteq> 0} = 1"
  using get_state_counts [OF pm_example_wf]
  by (simp add: sos_physmem_get_state_def pm_example_def)

end
