(* ===== verification/Ktime.thy ===== *)
theory Ktime
  imports Circular_List
begin

text \<open>
  Kernel time (\<^verbatim>\<open>os/time.c\<close>): dates with a second and a nanosecond field of 32 bits, the
  list of timeout actions sorted by due date, and the timer tick that fires them. An action is
  in the list exactly when its \<^verbatim>\<open>tmo_next\<close> link is set: \<^verbatim>\<open>sos_time_init_action\<close>
  and the removal macro leave it null. The routines of the actions run on the whole kernel state,
  so the state is an extensible record and the call of a routine is a parameter of the tick.
\<close>

section \<open>Dates\<close>

record sos_time =
  sec :: u32
  nanosec :: u32

definition NS_IN_SEC :: u32 where
  "NS_IN_SEC = 1000000000"

definition sos_time_inc :: "sos_time \<Rightarrow> sos_time \<Rightarrow> sos_time" where
  "sos_time_inc dest to_add =
     (let sigma_ns = nanosec dest + nanosec to_add;
          dest = dest\<lparr>sec := sec dest + sec to_add\<rparr>;
          dest = dest\<lparr>sec := sec dest + sigma_ns div NS_IN_SEC\<rparr>
      in dest\<lparr>nanosec := sigma_ns mod NS_IN_SEC\<rparr>)"

text \<open>\<^verbatim>\<open>diff_ns\<close> is a signed word; divisions by the unsigned constant are unsigned.\<close>

definition sos_time_dec :: "sos_time \<Rightarrow> sos_time \<Rightarrow> sos_time option" where
  "sos_time_dec dest to_dec = do {
     let diff_ns = nanosec dest - nanosec to_dec;
     sos_assert_fatal (sec dest \<ge> sec to_dec);
     sos_assert_fatal (sec dest = sec to_dec \<longrightarrow> nanosec dest \<ge> nanosec to_dec);
     let dest = dest\<lparr>sec := sec dest - sec to_dec\<rparr>;
     let dest = (if sint diff_ns > 0 then dest\<lparr>sec := sec dest + diff_ns div NS_IN_SEC\<rparr>
                 else dest\<lparr>sec := sec dest - (- diff_ns) div NS_IN_SEC\<rparr>);
     let dest = dest\<lparr>nanosec := (NS_IN_SEC + diff_ns) mod NS_IN_SEC\<rparr>;
     Some (if sint diff_ns < 0 then dest\<lparr>sec := sec dest - 1\<rparr> else dest) }"

definition sos_time_cmp :: "sos_time \<Rightarrow> sos_time \<Rightarrow> int" where
  "sos_time_cmp t1 t2 =
     (if sec t1 < sec t2 then - 1
      else if sec t1 > sec t2 then 1
      else if nanosec t1 < nanosec t2 then - 1
      else if nanosec t1 > nanosec t2 then 1
      else 0)"

definition sos_time_is_zero :: "sos_time \<Rightarrow> bool" where
  "sos_time_is_zero tm \<longleftrightarrow> sec tm = 0 \<and> nanosec tm = 0"

section \<open>State\<close>

record ('r, 'd) timeout_action =
  routine :: "'r option"
  routine_data :: 'd
  timeout :: sos_time

record ('r, 'd) ktime =
  timeout_action_list :: "nat list"
  timeout_actions :: "nat \<Rightarrow> ('r, 'd) timeout_action"
  tick_resolution :: sos_time
  last_tick_time :: sos_time

definition sos_time_subsysem_setup ::
    "sos_time \<Rightarrow> ('r, 'd, 'z) ktime_scheme \<Rightarrow> sos_ret_t \<times> ('r, 'd, 'z) ktime_scheme" where
  "sos_time_subsysem_setup initial_resolution s =
     (SOS_OK, s\<lparr>timeout_action_list := [], last_tick_time := \<lparr>sec = 0, nanosec = 0\<rparr>,
                tick_resolution := initial_resolution\<rparr>)"

definition sos_time_get_tick_resolution :: "('r, 'd, 'z) ktime_scheme \<Rightarrow> sos_ret_t \<times> sos_time" where
  "sos_time_get_tick_resolution s = (SOS_OK, tick_resolution s)"

definition sos_time_set_tick_resolution ::
    "sos_time \<Rightarrow> ('r, 'd, 'z) ktime_scheme \<Rightarrow> sos_ret_t \<times> ('r, 'd, 'z) ktime_scheme" where
  "sos_time_set_tick_resolution resolution s = (SOS_OK, s\<lparr>tick_resolution := resolution\<rparr>)"

definition sos_time_get_now :: "('r, 'd, 'z) ktime_scheme \<Rightarrow> sos_ret_t \<times> sos_time" where
  "sos_time_get_now s = (SOS_OK, last_tick_time s)"

abbreviation due :: "('r, 'd, 'z) ktime_scheme \<Rightarrow> nat \<Rightarrow> sos_time" where
  "due s a \<equiv> timeout (timeout_actions s a)"

definition upd_action :: "nat \<Rightarrow> (('r, 'd) timeout_action \<Rightarrow> ('r, 'd) timeout_action)
    \<Rightarrow> ('r, 'd, 'z) ktime_scheme \<Rightarrow> ('r, 'd, 'z) ktime_scheme" where
  "upd_action a f s = s\<lparr>timeout_actions := (timeout_actions s)(a := f (timeout_actions s a))\<rparr>"

section \<open>Registering and removing actions\<close>

text \<open>The three pointer arguments may be null.\<close>

definition add_action :: "nat option \<Rightarrow> sos_time option \<Rightarrow> bool \<Rightarrow> 'r option \<Rightarrow> 'd
    \<Rightarrow> ('r, 'd, 'z) ktime_scheme \<Rightarrow> sos_ret_t \<times> ('r, 'd, 'z) ktime_scheme" where
  "add_action act due_date is_relative_due_date rout data s =
     (case due_date of None \<Rightarrow> (- SOS_EINVAL, s) | Some due_date \<Rightarrow>
     (case act of None \<Rightarrow> (- SOS_EINVAL, s) | Some act \<Rightarrow>
     (if rout = None then (- SOS_EINVAL, s)
      else if act \<in> set (timeout_action_list s) then (- SOS_EBUSY, s)
      else if \<not> is_relative_due_date \<and> sos_time_cmp due_date (last_tick_time s) < 0
      then (- SOS_EINVAL, s)
      else
        let date = (if is_relative_due_date then sos_time_inc (last_tick_time s) due_date else due_date);
            s = upd_action act (timeout_update (\<lambda>_. date)) s;
            s = upd_action act (\<lambda>t. t\<lparr>routine := rout, routine_data := data\<rparr>) s;
            before = find (\<lambda>other. sos_time_cmp (due s act) (due s other) < 0) (timeout_action_list s)
        in (SOS_OK, s\<lparr>timeout_action_list :=
              (case before of
                 Some other \<Rightarrow> insert_before other act (timeout_action_list s)
               | None \<Rightarrow> add_tail act (timeout_action_list s))\<rparr>))))"

definition sos_time_register_action_relative :: "nat option \<Rightarrow> sos_time option \<Rightarrow> 'r option \<Rightarrow> 'd
    \<Rightarrow> ('r, 'd, 'z) ktime_scheme \<Rightarrow> sos_ret_t \<times> ('r, 'd, 'z) ktime_scheme" where
  "sos_time_register_action_relative act delay rout data s = add_action act delay True rout data s"

definition sos_time_register_action_absolute :: "nat option \<Rightarrow> sos_time option \<Rightarrow> 'r option \<Rightarrow> 'd
    \<Rightarrow> ('r, 'd, 'z) ktime_scheme \<Rightarrow> sos_ret_t \<times> ('r, 'd, 'z) ktime_scheme" where
  "sos_time_register_action_absolute act date rout data s = add_action act date False rout data s"

definition remove_action ::
    "nat \<Rightarrow> ('r, 'd, 'z) ktime_scheme \<Rightarrow> (sos_ret_t \<times> ('r, 'd, 'z) ktime_scheme) option" where
  "remove_action act s =
     (if act \<notin> set (timeout_action_list s) then Some (- SOS_EINVAL, s)
      else do {
        remaining \<leftarrow> (if sos_time_cmp (due s act) (last_tick_time s) \<le> 0
                       then Some \<lparr>sec = 0, nanosec = 0\<rparr>
                       else sos_time_dec (due s act) (last_tick_time s));
        let s = upd_action act (timeout_update (\<lambda>_. remaining)) s;
        l \<leftarrow> list_delete act (timeout_action_list s);
        Some (SOS_OK, s\<lparr>timeout_action_list := l\<rparr>) })"

definition sos_time_unregister_action ::
    "nat \<Rightarrow> ('r, 'd, 'z) ktime_scheme \<Rightarrow> (sos_ret_t \<times> ('r, 'd, 'z) ktime_scheme) option" where
  "sos_time_unregister_action act s = do {
     (retval, s) \<leftarrow> remove_action act s;
     Some (SOS_OK, s) }"

section \<open>The timer tick\<close>

partial_function (option) do_tick_loop ::
    "('r \<Rightarrow> nat \<Rightarrow> ('r, 'd, 'z) ktime_scheme \<Rightarrow> ('r, 'd, 'z) ktime_scheme option)
     \<Rightarrow> ('r, 'd, 'z) ktime_scheme \<Rightarrow> ('r, 'd, 'z) ktime_scheme option" where
  "do_tick_loop call s =
     (case timeout_action_list s of
        [] \<Rightarrow> Some s
      | act # _ \<Rightarrow>
          if sos_time_cmp (last_tick_time s) (due s act) < 0 then Some s
          else do {
            (_, s) \<leftarrow> remove_action act s;
            r \<leftarrow> routine (timeout_actions s act);
            s \<leftarrow> call r act s;
            do_tick_loop call s })"

definition sos_time_do_tick ::
    "('r \<Rightarrow> nat \<Rightarrow> ('r, 'd, 'z) ktime_scheme \<Rightarrow> ('r, 'd, 'z) ktime_scheme option)
     \<Rightarrow> ('r, 'd, 'z) ktime_scheme \<Rightarrow> (sos_ret_t \<times> ('r, 'd, 'z) ktime_scheme) option" where
  "sos_time_do_tick call s = do {
     let s = s\<lparr>last_tick_time := sos_time_inc (last_tick_time s) (tick_resolution s)\<rparr>;
     s \<leftarrow> do_tick_loop call s;
     Some (SOS_OK, s) }"

section \<open>Dates in nanoseconds\<close>

definition time_wf :: "sos_time \<Rightarrow> bool" where
  "time_wf t \<longleftrightarrow> nanosec t < NS_IN_SEC"

definition time_ns :: "sos_time \<Rightarrow> nat" where
  "time_ns t = unat (sec t) * 10 ^ 9 + unat (nanosec t)"

instantiation sos_time_ext :: (linorder) linorder
begin

definition less_eq_sos_time_ext :: "'a sos_time_scheme \<Rightarrow> 'a sos_time_scheme \<Rightarrow> bool" where
  "less_eq_sos_time_ext t1 t2 \<longleftrightarrow> sec t1 < sec t2 \<or> sec t1 = sec t2 \<and>
     (nanosec t1 < nanosec t2 \<or> nanosec t1 = nanosec t2 \<and> sos_time.more t1 \<le> sos_time.more t2)"

definition less_sos_time_ext :: "'a sos_time_scheme \<Rightarrow> 'a sos_time_scheme \<Rightarrow> bool" where
  "less_sos_time_ext t1 t2 \<longleftrightarrow> sec t1 < sec t2 \<or> sec t1 = sec t2 \<and>
     (nanosec t1 < nanosec t2 \<or> nanosec t1 = nanosec t2 \<and> sos_time.more t1 < sos_time.more t2)"

instance
  by standard (auto simp: less_eq_sos_time_ext_def less_sos_time_ext_def intro: sos_time.equality)

end

lemma sos_time_cmp_order:
  "sos_time_cmp t1 t2 = (if t1 < t2 then - 1 else if t2 < t1 then 1 else 0)"
  by (auto simp: sos_time_cmp_def less_sos_time_ext_def)

lemma sos_time_cmp_iff [simp]:
  "sos_time_cmp t1 t2 < 0 \<longleftrightarrow> t1 < t2" "sos_time_cmp t1 t2 \<le> 0 \<longleftrightarrow> t1 \<le> t2"
  "sos_time_cmp t1 t2 = 0 \<longleftrightarrow> t1 = t2"
  by (auto simp: sos_time_cmp_order)

lemma time_less_iff:
  assumes "time_wf t1" and "time_wf t2"
  shows "t1 < t2 \<longleftrightarrow> time_ns t1 < time_ns t2"
proof -
  have "unat (nanosec t1) < 10 ^ 9" "unat (nanosec t2) < 10 ^ 9"
    using assms by (auto simp: time_wf_def NS_IN_SEC_def word_less_nat_alt)
  then show ?thesis
    by (auto simp: less_sos_time_ext_def time_ns_def word_less_nat_alt word_unat_eq_iff)
qed

lemma time_le_iff: "time_wf t1 \<Longrightarrow> time_wf t2 \<Longrightarrow> t1 \<le> t2 \<longleftrightarrow> time_ns t1 \<le> time_ns t2"
  by (simp add: time_less_iff flip: not_less)

lemma time_ns_inj: "time_wf t1 \<Longrightarrow> time_wf t2 \<Longrightarrow> time_ns t1 = time_ns t2 \<longleftrightarrow> t1 = t2"
  by (metis time_le_iff order.antisym order_refl)


lemma sint_word_of_int_small: "- (2 ^ 31) \<le> k \<Longrightarrow> k < 2 ^ 31 \<Longrightarrow> sint (word_of_int k :: u32) = k"
  by (simp add: signed_of_int signed_take_bit_int_eq_self)

lemma sint_diff_small:
  fixes a b :: u32
  assumes "unat a < 2 ^ 31" and "unat b < 2 ^ 31"
  shows "sint (a - b) = int (unat a) - int (unat b)"
proof -
  have "a - b = word_of_int (int (unat a) - int (unat b))" by (simp add: of_int_uint)
  moreover have "int (unat a) < int (2 ^ 31)" "int (unat b) < int (2 ^ 31)"
    using assms by (simp_all only: of_nat_less_iff)
  moreover have "0 \<le> int (unat a)" "0 \<le> int (unat b)" by (simp_all only: of_nat_0_le_iff)
  ultimately have "- (2 ^ 31) \<le> int (unat a) - int (unat b)" "int (unat a) - int (unat b) < 2 ^ 31"
    unfolding of_nat_power of_nat_numeral by linarith+
  from sint_word_of_int_small [OF this] show ?thesis
    unfolding \<open>a - b = _\<close> .
qed

lemma time_inc_exact:
  assumes "time_wf a" and "time_wf b" and fits: "time_ns a + time_ns b < 2 ^ 32 * 10 ^ 9"
  shows "time_wf (sos_time_inc a b)" and "time_ns (sos_time_inc a b) = time_ns a + time_ns b"
proof -
  let ?n = "unat (nanosec a) + unat (nanosec b)"
  have n: "unat (nanosec a) < 10 ^ 9" "unat (nanosec b) < 10 ^ 9"
    using assms by (auto simp: time_wf_def NS_IN_SEC_def word_less_nat_alt)
  then have sn: "unat (nanosec a + nanosec b) = ?n" by (simp add: unat_add_small)
  have d: "unat ((nanosec a + nanosec b) div NS_IN_SEC) = ?n div 10 ^ 9"
    and m: "unat ((nanosec a + nanosec b) mod NS_IN_SEC) = ?n mod 10 ^ 9"
    by (simp_all add: unat_div unat_mod sn NS_IN_SEC_def)
  have le: "(unat (sec a) + unat (sec b) + ?n div 10 ^ 9) * 10 ^ 9 + ?n mod 10 ^ 9 = time_ns a + time_ns b"
    by (simp add: time_ns_def algebra_simps)
  have "(unat (sec a) + unat (sec b) + ?n div 10 ^ 9) < 2 ^ 32"
  proof -
    have "(unat (sec a) + unat (sec b) + ?n div 10 ^ 9) * 10 ^ 9 < 2 ^ 32 * 10 ^ 9"
      using le fits by linarith
    then show ?thesis by (simp only: mult_less_cancel2)
  qed
  then have s: "unat (sec a + sec b + (nanosec a + nanosec b) div NS_IN_SEC)
      = unat (sec a) + unat (sec b) + ?n div 10 ^ 9"
    by (simp add: unat_add_small d)
  show "time_wf (sos_time_inc a b)"
    unfolding time_wf_def sos_time_inc_def Let_def by (simp add: word_less_nat_alt m) (simp add: NS_IN_SEC_def)
  show "time_ns (sos_time_inc a b) = time_ns a + time_ns b"
    using le s m by (simp add: time_ns_def sos_time_inc_def Let_def)
qed

lemma time_dec_exact:
  assumes wf: "time_wf a" "time_wf b" and le: "b \<le> a"
  shows "\<exists>r. sos_time_dec a b = Some r \<and> time_wf r \<and> time_ns r = time_ns a - time_ns b"
proof -
  have n: "unat (nanosec a) < 10 ^ 9" "unat (nanosec b) < 10 ^ 9"
    using wf by (auto simp: time_wf_def NS_IN_SEC_def word_less_nat_alt)
  have sd: "sint (nanosec a - nanosec b) = int (unat (nanosec a)) - int (unat (nanosec b))"
    using n by (intro sint_diff_small) auto
  have g: "sec b \<le> sec a" "sec a = sec b \<longrightarrow> nanosec b \<le> nanosec a"
    using le by (auto simp: less_eq_sos_time_ext_def)
  have us: "unat (sec a - sec b) = unat (sec a) - unat (sec b)" using g(1) by (rule unat_sub)
  show ?thesis
  proof (cases "nanosec b \<le> nanosec a")
    case True
    have ud: "unat (nanosec a - nanosec b) = unat (nanosec a) - unat (nanosec b)"
      using True by (rule unat_sub)
    have lt: "nanosec a - nanosec b < NS_IN_SEC"
      using n ud by (simp add: word_less_nat_alt NS_IN_SEC_def)
    have z: "(nanosec a - nanosec b) div NS_IN_SEC = 0"
      by (rule word_unat_eq_iff [THEN iffD2]) (use lt in \<open>simp add: unat_div word_less_nat_alt\<close>)
    have m: "unat ((NS_IN_SEC + (nanosec a - nanosec b)) mod NS_IN_SEC) = unat (nanosec a) - unat (nanosec b)"
      using n ud by (subst unat_mod, subst unat_add_small) (simp_all add: NS_IN_SEC_def)
    have neg: "\<not> sint (nanosec a - nanosec b) < 0" using True sd by (simp add: word_le_def)
    have z': "(- (nanosec a - nanosec b)) div NS_IN_SEC = 0" if "\<not> 0 < sint (nanosec a - nanosec b)"
    proof -
      have "nanosec a = nanosec b" using that sd True by (simp add: word_le_def word_uint_eq_iff)
      then have "- (nanosec a - nanosec b) = 0" by simp
      then show ?thesis by (simp only: word_unat_eq_iff unat_div) simp
    qed
    have "sos_time_dec a b = Some \<lparr>sec = sec a - sec b,
        nanosec = (NS_IN_SEC + (nanosec a - nanosec b)) mod NS_IN_SEC\<rparr>"
      using g neg z z' by (cases a) (auto simp: sos_time_dec_def Let_def)
    moreover have "time_wf \<lparr>sec = sec a - sec b, nanosec = (NS_IN_SEC + (nanosec a - nanosec b)) mod NS_IN_SEC\<rparr>"
      using m n by (simp add: time_wf_def word_less_nat_alt) (simp add: NS_IN_SEC_def)
    moreover have "unat (sec b) \<le> unat (sec a)" "unat (nanosec b) \<le> unat (nanosec a)"
      using g(1) True by (simp_all add: word_le_nat_alt)
    ultimately show ?thesis
      using m us by (auto simp: time_ns_def algebra_simps)
  next
    case False
    then have lt: "unat (nanosec a) < unat (nanosec b)" by (simp add: word_le_nat_alt)
    then have sl: "sec b < sec a" using g by (metis False order_le_less)
    let ?d = "nanosec b - nanosec a"
    have ud: "unat ?d = unat (nanosec b) - unat (nanosec a)"
      using False by (intro unat_sub) simp
    have z: "(- (nanosec a - nanosec b)) div NS_IN_SEC = 0"
    proof -
      have "?d < NS_IN_SEC" using n ud by (simp add: word_less_nat_alt NS_IN_SEC_def)
      then show ?thesis by (simp add: word_unat_eq_iff unat_div word_less_nat_alt)
    qed
    have "unat (NS_IN_SEC - ?d) = 10 ^ 9 - unat ?d"
      using n ud by (subst unat_sub) (simp_all add: word_le_nat_alt NS_IN_SEC_def)
    then have m: "unat ((NS_IN_SEC + (nanosec a - nanosec b)) mod NS_IN_SEC)
        = 10 ^ 9 + unat (nanosec a) - unat (nanosec b)"
      using n lt ud by (simp add: unat_mod algebra_simps) (simp add: NS_IN_SEC_def)
    have neg: "sint (nanosec a - nanosec b) < 0" using False sd by (simp add: word_le_def)
    have u1: "unat (sec a - sec b - 1) = unat (sec a) - unat (sec b) - 1"
      using sl us by (subst unat_minus_one) auto
    have "sos_time_dec a b = Some \<lparr>sec = sec a - sec b - 1,
        nanosec = (NS_IN_SEC + (nanosec a - nanosec b)) mod NS_IN_SEC\<rparr>"
      using g neg z False by (cases a) (auto simp: sos_time_dec_def Let_def)
    moreover have "time_wf \<lparr>sec = sec a - sec b - 1, nanosec = (NS_IN_SEC + (nanosec a - nanosec b)) mod NS_IN_SEC\<rparr>"
      using m n lt by (simp add: time_wf_def word_less_nat_alt) (simp add: NS_IN_SEC_def)
    moreover have "unat (sec b) < unat (sec a)"
      using sl by (simp add: word_less_nat_alt)
    moreover obtain k where "unat (sec a) = unat (sec b) + 1 + k"
      using calculation(3) by (metis Suc_eq_plus1 add_Suc_shift less_iff_Suc_add add.assoc)
    ultimately show ?thesis
      using m u1 lt n by (auto simp: time_ns_def algebra_simps)
  qed
qed

lemma time_dec_refused: "a < b \<Longrightarrow> sos_time_dec a b = None"
  by (auto simp: sos_time_dec_def Let_def less_sos_time_ext_def sos_assert_fatal_def)

section \<open>Lists ordered by a three-way comparison\<close>

text \<open>
  What the timeout list relies on of the comparison of dates: \<open>cmp\<close> is a three-way comparison
  of a total preorder. Inserting before the first strictly later element keeps a list ordered.
\<close>

locale date_order =
  fixes cmp :: "'t \<Rightarrow> 't \<Rightarrow> int"
  assumes cmp_total: "\<not> cmp t u < 0 \<Longrightarrow> cmp u t \<le> 0"
    and cmp_less: "cmp t u < 0 \<Longrightarrow> cmp t u \<le> 0 \<and> \<not> cmp u t \<le> 0"
    and cmp_trans: "cmp t u \<le> 0 \<Longrightarrow> cmp u v \<le> 0 \<Longrightarrow> cmp t v \<le> 0"
begin

lemma insert_ordered:
  assumes "sorted_wrt (\<lambda>a b. cmp (key a) (key b) \<le> 0) xs"
  shows "sorted_wrt (\<lambda>a b. cmp (key a) (key b) \<le> 0)
    (takeWhile (\<lambda>e. \<not> cmp (key x) (key e) < 0) xs @ x # dropWhile (\<lambda>e. \<not> cmp (key x) (key e) < 0) xs)"
  using assms
proof (induction xs)
  case (Cons y ys)
  let ?P = "\<lambda>e. \<not> cmp (key x) (key e) < 0"
  show ?case
  proof (cases "?P y")
    case True
    then have yx: "cmp (key y) (key x) \<le> 0" by (rule cmp_total)
    with Cons True show ?thesis by (auto dest: set_takeWhileD set_dropWhileD)
  next
    case False
    then have xy: "cmp (key x) (key y) \<le> 0" using cmp_less by blast
    with Cons.prems False show ?thesis by (auto intro: cmp_trans)
  qed
qed simp

lemma take_while_due:
  assumes "sorted_wrt (\<lambda>a b. cmp (key a) (key b) \<le> 0) xs"
  shows "takeWhile (\<lambda>e. \<not> cmp now (key e) < 0) xs = filter (\<lambda>e. \<not> cmp now (key e) < 0) xs"
  using assms
proof (induction xs)
  case (Cons y ys)
  have "cmp now (key z) < 0" if l: "cmp now (key y) < 0" and z: "z \<in> set ys" for z
  proof (rule ccontr)
    assume "\<not> cmp now (key z) < 0"
    then have "cmp (key z) now \<le> 0" by (rule cmp_total)
    moreover have "cmp (key y) (key z) \<le> 0" using Cons.prems z by simp
    ultimately show False using cmp_trans cmp_less [OF l] by blast
  qed
  with Cons show ?case by (auto simp: filter_empty_conv)
qed simp

end

interpretation tc: date_order sos_time_cmp
  by unfold_locales auto

lemma insert_before_find:
  assumes "distinct xs"
  shows "(case find (\<lambda>e. Q e) xs of Some b \<Rightarrow> insert_before b x xs | None \<Rightarrow> add_tail x xs) =
         takeWhile (\<lambda>e. \<not> Q e) xs @ x # dropWhile (\<lambda>e. \<not> Q e) xs"
  using assms
proof (induction xs)
  case (Cons y ys)
  have "b \<in> set ys" if "find Q ys = Some b" for b
    using that by (auto simp: find_Some_iff)
  with Cons show ?case by (auto simp: add_tail_def split: option.splits)
qed (simp add: add_tail_def)

section \<open>The timeout list\<close>

definition tm_wf :: "('r, 'd, 'z) ktime_scheme \<Rightarrow> bool" where
  "tm_wf s \<longleftrightarrow>
     distinct (timeout_action_list s) \<and>
     sorted_wrt (\<lambda>a b. due s a \<le> due s b) (timeout_action_list s) \<and>
     (\<forall>a \<in> set (timeout_action_list s). time_wf (due s a) \<and> routine (timeout_actions s a) \<noteq> None) \<and>
     time_wf (tick_resolution s) \<and> time_wf (last_tick_time s)"

lemma upd_action_sel [simp]:
  "timeout_action_list (upd_action a f s) = timeout_action_list s"
  "timeout_actions (upd_action a f s) = (timeout_actions s)(a := f (timeout_actions s a))"
  "tick_resolution (upd_action a f s) = tick_resolution s"
  "last_tick_time (upd_action a f s) = last_tick_time s"
  "ktime.more (upd_action a f s) = ktime.more s"
  by (simp_all add: upd_action_def)

lemma add_action_errors:
  "add_action act None rel rout data s = (- SOS_EINVAL, s)"
  "add_action None d rel rout data s = (- SOS_EINVAL, s)"
  "add_action act d rel None data s = (- SOS_EINVAL, s)"
  "a \<in> set (timeout_action_list s) \<Longrightarrow> add_action (Some a) (Some t) rel (Some r) data s = (- SOS_EBUSY, s)"
  "a \<notin> set (timeout_action_list s) \<Longrightarrow> t < last_tick_time s \<Longrightarrow>
     add_action (Some a) (Some t) False (Some r) data s = (- SOS_EINVAL, s)"
  by (auto simp: add_action_def split: option.split)

lemma add_action_ok:
  assumes a: "a \<notin> set (timeout_action_list s)" and D: "distinct (timeout_action_list s)"
    and p: "rel \<or> last_tick_time s \<le> t"
    and date: "date = (if rel then sos_time_inc (last_tick_time s) t else t)"
  shows "\<exists>s'. add_action (Some a) (Some t) rel (Some r) data s = (SOS_OK, s') \<and>
     timeout_action_list s' = takeWhile (\<lambda>e. due s e \<le> date) (timeout_action_list s) @ a #
                              dropWhile (\<lambda>e. due s e \<le> date) (timeout_action_list s) \<and>
     timeout_actions s' = (timeout_actions s)(a := \<lparr>routine = Some r, routine_data = data, timeout = date\<rparr>) \<and>
     tick_resolution s' = tick_resolution s \<and> last_tick_time s' = last_tick_time s \<and>
     ktime.more s' = ktime.more s"
proof -
  let ?s = "upd_action a (\<lambda>t. t\<lparr>routine := Some r, routine_data := data\<rparr>)
      (upd_action a (timeout_update (\<lambda>_. date)) s)"
  define l where "l = (case find (\<lambda>other. sos_time_cmp (due ?s a) (due ?s other) < 0) (timeout_action_list s) of
      Some other \<Rightarrow> insert_before other a (timeout_action_list s)
    | None \<Rightarrow> add_tail a (timeout_action_list s))"
  have run: "add_action (Some a) (Some t) rel (Some r) data s = (SOS_OK, ?s\<lparr>timeout_action_list := l\<rparr>)"
    unfolding l_def using a p by (auto simp: add_action_def Let_def date split: option.split)
  have rec: "timeout_actions ?s = (timeout_actions s)(a := \<lparr>routine = Some r, routine_data = data, timeout = date\<rparr>)"
    by (cases "timeout_actions s a") simp
  have old: "(\<not> sos_time_cmp (due ?s a) (due ?s e) < 0) = (due s e \<le> date)"
    if "e \<in> set (timeout_action_list s)" for e
    using that a by (auto simp: not_less)
  have "l = takeWhile (\<lambda>e. due s e \<le> date) (timeout_action_list s) @ a #
             dropWhile (\<lambda>e. due s e \<le> date) (timeout_action_list s)"
    unfolding l_def insert_before_find [OF D] using old by (auto cong: takeWhile_cong dropWhile_cong)
  with run rec show ?thesis by simp
qed

lemma tm_wf_insert:
  assumes wf: "tm_wf s" and a: "a \<notin> set (timeout_action_list s)"
    and d: "time_wf d" "routine act = Some r" "timeout act = d"
    and l: "timeout_action_list s' = takeWhile (\<lambda>e. due s e \<le> d) (timeout_action_list s) @ a #
              dropWhile (\<lambda>e. due s e \<le> d) (timeout_action_list s)"
    and acts: "timeout_actions s' = (timeout_actions s)(a := act)"
    and rest: "tick_resolution s' = tick_resolution s" "last_tick_time s' = last_tick_time s"
  shows "tm_wf s'"
proof -
  let ?xs = "timeout_action_list s"
  have S: "sorted_wrt (\<lambda>x y. due s' x \<le> due s' y) ?xs"
  proof (rule sorted_wrt_mono_rel)
    show "sorted_wrt (\<lambda>x y. due s x \<le> due s y) ?xs" using wf by (simp add: tm_wf_def)
    show "due s' x \<le> due s' y" if "x \<in> set ?xs" "y \<in> set ?xs" "due s x \<le> due s y" for x y
      using that a acts by auto
  qed
  have e: "takeWhile (\<lambda>e. due s e \<le> d) ?xs = takeWhile (\<lambda>e. due s' e \<le> due s' a) ?xs"
      "dropWhile (\<lambda>e. due s e \<le> d) ?xs = dropWhile (\<lambda>e. due s' e \<le> due s' a) ?xs"
    using a acts d by (auto intro!: takeWhile_cong dropWhile_cong)
  have "sorted_wrt (\<lambda>x y. due s' x \<le> due s' y) (timeout_action_list s')"
    using tc.insert_ordered [of "due s'" ?xs a] S unfolding l e by (simp add: not_less)
  moreover have "set (timeout_action_list s') = insert a (set ?xs)"
    unfolding l by (metis set_append list.set(2) takeWhile_dropWhile_id Un_insert_right)
  moreover have "distinct (timeout_action_list s')"
  proof -
    let ?t = "takeWhile (\<lambda>e. due s e \<le> d) ?xs" and ?d = "dropWhile (\<lambda>e. due s e \<le> d) ?xs"
    have "distinct ?t \<and> distinct ?d \<and> set ?t \<inter> set ?d = {}"
      unfolding distinct_append [symmetric] takeWhile_dropWhile_id using wf by (simp add: tm_wf_def)
    then show ?thesis unfolding l using a by (auto dest: set_takeWhileD set_dropWhileD)
  qed
  ultimately show ?thesis using wf d acts rest by (auto simp: tm_wf_def)
qed

lemma remove_action_absent: "a \<notin> set (timeout_action_list s) \<Longrightarrow> remove_action a s = Some (- SOS_EINVAL, s)"
  by (simp add: remove_action_def)

lemma remove_action_ok:
  assumes wf: "tm_wf s" and a: "a \<in> set (timeout_action_list s)"
  shows "\<exists>s' rem. remove_action a s = Some (SOS_OK, s') \<and> tm_wf s' \<and>
     timeout_action_list s' = remove1 a (timeout_action_list s) \<and>
     timeout_actions s' = (timeout_actions s)(a := (timeout_actions s a)\<lparr>timeout := rem\<rparr>) \<and>
     time_wf rem \<and> time_ns rem = time_ns (due s a) - time_ns (last_tick_time s) \<and>
     tick_resolution s' = tick_resolution s \<and> last_tick_time s' = last_tick_time s \<and>
     ktime.more s' = ktime.more s"
proof -
  let ?now = "last_tick_time s"
  have d: "time_wf (due s a)" "time_wf ?now" using wf a by (auto simp: tm_wf_def)
  obtain rem where rem: "(if sos_time_cmp (due s a) ?now \<le> 0 then Some \<lparr>sec = 0, nanosec = 0\<rparr>
        else sos_time_dec (due s a) ?now) = Some rem"
      "time_wf rem" "time_ns rem = time_ns (due s a) - time_ns ?now"
  proof (cases "due s a \<le> ?now")
    case True
    then have "time_ns (due s a) \<le> time_ns ?now" using time_le_iff d by blast
    with True that [of "\<lparr>sec = 0, nanosec = 0\<rparr>"] show thesis
      by (simp add: time_wf_def time_ns_def NS_IN_SEC_def)
  next
    case False
    then have "last_tick_time s \<le> due s a" by simp
    with time_dec_exact [OF d] False that show thesis by auto
  qed
  let ?s = "(upd_action a (timeout_update (\<lambda>_. rem)) s)\<lparr>timeout_action_list := remove1 a (timeout_action_list s)\<rparr>"
  have run: "remove_action a s = Some (SOS_OK, ?s)"
    using a rem(1) by (simp add: remove_action_def)
  have D: "distinct (timeout_action_list s)" using wf by (simp add: tm_wf_def)
  have "sorted_wrt (\<lambda>x y. due s x \<le> due s y) (remove1 a (timeout_action_list s))"
    using wf by (auto simp: tm_wf_def remove1_split distinct_remove1_removeAll sorted_wrt_filter removeAll_filter_not_eq)
  then have "sorted_wrt (\<lambda>x y. due ?s x \<le> due ?s y) (remove1 a (timeout_action_list s))"
    by (rule sorted_wrt_mono_rel [rotated]) (use D in auto)
  then have "tm_wf ?s"
    using wf D by (auto simp: tm_wf_def)
  with run rem show ?thesis by fastforce
qed

section \<open>The tick\<close>

definition fire ::
    "('r \<Rightarrow> nat \<Rightarrow> ('r, 'd, 'z) ktime_scheme \<Rightarrow> ('r, 'd, 'z) ktime_scheme option)
     \<Rightarrow> nat \<Rightarrow> ('r, 'd, 'z) ktime_scheme \<Rightarrow> ('r, 'd, 'z) ktime_scheme option" where
  "fire call act s = do {
     (_, s) \<leftarrow> remove_action act s;
     r \<leftarrow> routine (timeout_actions s act);
     call r act s }"

abbreviation due_now :: "('r, 'd, 'z) ktime_scheme \<Rightarrow> nat list" where
  "due_now s \<equiv> filter (\<lambda>a. due s a \<le> last_tick_time s) (timeout_action_list s)"

text \<open>Routines that leave the pending actions and the clock alone.\<close>

definition time_neutral ::
    "('r \<Rightarrow> nat \<Rightarrow> ('r, 'd, 'z) ktime_scheme \<Rightarrow> ('r, 'd, 'z) ktime_scheme option) \<Rightarrow> bool" where
  "time_neutral call \<longleftrightarrow> (\<forall>r a s s'. call r a s = Some s' \<longrightarrow>
     timeout_action_list s' = timeout_action_list s \<and>
     last_tick_time s' = last_tick_time s \<and> tick_resolution s' = tick_resolution s \<and>
     (\<forall>b \<in> set (timeout_action_list s). timeout_actions s' b = timeout_actions s b))"

text \<open>
  Routines that return, at the date \<open>now\<close>, without registering an action that is already due:
  they may register any later action, themselves included.
\<close>

definition rearms_later ::
    "sos_time \<Rightarrow> ('r \<Rightarrow> nat \<Rightarrow> ('r, 'd, 'z) ktime_scheme \<Rightarrow> ('r, 'd, 'z) ktime_scheme option) \<Rightarrow> bool" where
  "rearms_later now call \<longleftrightarrow>
     (\<forall>r a s. tm_wf s \<longrightarrow> last_tick_time s = now \<longrightarrow> a \<notin> set (timeout_action_list s) \<longrightarrow>
        (\<exists>s'. call r a s = Some s' \<and> tm_wf s' \<and> last_tick_time s' = now \<and>
              length (due_now s') \<le> length (due_now s)))"

lemma tm_wf_cong:
  assumes "tm_wf s" and "timeout_action_list s' = timeout_action_list s"
    and "last_tick_time s' = last_tick_time s" "tick_resolution s' = tick_resolution s"
    and same: "\<And>b. b \<in> set (timeout_action_list s) \<Longrightarrow> timeout_actions s' b = timeout_actions s b"
  shows "tm_wf s'"
proof -
  have "sorted_wrt (\<lambda>x y. due s' x \<le> due s' y) (timeout_action_list s)"
  proof (rule sorted_wrt_mono_rel)
    show "sorted_wrt (\<lambda>x y. due s x \<le> due s y) (timeout_action_list s)"
      using assms(1) by (simp add: tm_wf_def)
  qed (simp add: same)
  with assms show ?thesis by (simp add: tm_wf_def)
qed

lemma due_head:
  assumes "tm_wf s" and "timeout_action_list s = a # ys"
  shows "last_tick_time s < due s a \<Longrightarrow> due_now s = []"
    and "\<not> last_tick_time s < due s a \<Longrightarrow> due_now s = a # filter (\<lambda>b. due s b \<le> last_tick_time s) ys"
  using assms by (fastforce simp: tm_wf_def filter_empty_conv)+

lemma do_tick_loop_step:
  assumes "tm_wf s" and "timeout_action_list s = a # ys" and "\<not> last_tick_time s < due s a"
  shows "do_tick_loop call s = fire call a s \<bind> do_tick_loop call"
  using assms by (subst do_tick_loop.simps, cases "remove_action a s") (auto simp: fire_def)

lemma fire_removed:
  assumes wf: "tm_wf s" and l: "timeout_action_list s = a # ys"
  shows "\<exists>s1 r. fire call a s = call r a s1 \<and> routine (timeout_actions s a) = Some r \<and>
     tm_wf s1 \<and> timeout_action_list s1 = ys \<and> last_tick_time s1 = last_tick_time s \<and>
     tick_resolution s1 = tick_resolution s \<and> a \<notin> set ys \<and>
     (\<forall>b \<in> set ys. timeout_actions s1 b = timeout_actions s b)"
proof -
  have na: "a \<notin> set ys" using wf l by (simp add: tm_wf_def)
  obtain r where r: "routine (timeout_actions s a) = Some r" using wf l by (auto simp: tm_wf_def)
  obtain s1 rem where s1: "remove_action a s = Some (SOS_OK, s1)" "tm_wf s1"
      "timeout_action_list s1 = ys" "last_tick_time s1 = last_tick_time s"
      "tick_resolution s1 = tick_resolution s"
      "timeout_actions s1 = (timeout_actions s)(a := (timeout_actions s a)\<lparr>timeout := rem\<rparr>)"
    using remove_action_ok [OF wf, of a] l by auto
  then have "fire call a s = call r a s1" by (simp add: fire_def r)
  with s1 r na show ?thesis by (intro exI [of _ s1] exI [of _ r]) auto
qed

lemma tick_loop_fires:
  assumes "time_neutral call" and "tm_wf s"
  shows "do_tick_loop call s = fold_opt (fire call) (due_now s) s \<and>
     (\<forall>s'. do_tick_loop call s = Some s' \<longrightarrow>
        tm_wf s' \<and> last_tick_time s' = last_tick_time s \<and>
        timeout_action_list s' = filter (\<lambda>a. last_tick_time s < due s a) (timeout_action_list s) \<and>
        (\<forall>b \<in> set (timeout_action_list s'). timeout_actions s' b = timeout_actions s b))"
  using assms(2)
proof (induction "timeout_action_list s" arbitrary: s)
  case Nil
  then show ?case by (subst (1 2) do_tick_loop.simps) (simp flip: Nil(1))
next
  case (Cons a ys)
  note l = Cons.hyps(2) [symmetric]
  show ?case
  proof (cases "last_tick_time s < due s a")
    case True
    then have "\<forall>b \<in> set ys. last_tick_time s < due s b"
      using Cons.prems l by (auto simp: tm_wf_def)
    with True l due_head(1) [OF Cons.prems l True] Cons.prems show ?thesis
      by (subst (1 2) do_tick_loop.simps) (simp add: filter_id_conv)
  next
    case False
    obtain s1 r where s1: "fire call a s = call r a s1" "tm_wf s1" "timeout_action_list s1 = ys"
        "last_tick_time s1 = last_tick_time s" "tick_resolution s1 = tick_resolution s"
        "\<forall>b \<in> set ys. timeout_actions s1 b = timeout_actions s b"
      using fire_removed [OF Cons.prems l] by blast
    have e: "do_tick_loop call s = call r a s1 \<bind> do_tick_loop call"
      using do_tick_loop_step [OF Cons.prems l False] s1 by simp
    show ?thesis
    proof (cases "call r a s1")
      case None
      with s1 e due_head(2) [OF Cons.prems l False] show ?thesis by simp
    next
      case (Some s2)
      with assms(1) s1 have s2: "timeout_action_list s2 = ys" "last_tick_time s2 = last_tick_time s"
          "tick_resolution s2 = tick_resolution s" "\<forall>b \<in> set ys. timeout_actions s2 b = timeout_actions s b"
        by (auto simp: time_neutral_def)
      have "tm_wf s2"
        using s1(2) by (rule tm_wf_cong) (use s1 s2 in auto)
      from Cons.hyps(1) [OF s2(1) [symmetric] this]
      have IH: "do_tick_loop call s2 = fold_opt (fire call) (due_now s2) s2"
          "\<forall>s'. do_tick_loop call s2 = Some s' \<longrightarrow> tm_wf s' \<and> last_tick_time s' = last_tick_time s2 \<and>
             timeout_action_list s' = filter (\<lambda>a. last_tick_time s2 < due s2 a) (timeout_action_list s2) \<and>
             (\<forall>b \<in> set (timeout_action_list s'). timeout_actions s' b = timeout_actions s2 b)"
        by blast+
      have "due_now s2 = filter (\<lambda>b. due s b \<le> last_tick_time s) ys"
          "filter (\<lambda>a. last_tick_time s2 < due s2 a) (timeout_action_list s2) =
           filter (\<lambda>a. last_tick_time s < due s a) ys"
        using s2(4) unfolding s2(1,2) by (simp_all cong: filter_cong)
      note due2 = this
      have ef: "do_tick_loop call s = do_tick_loop call s2"
        using e Some by simp
      have "fold_opt (fire call) (due_now s) s = fold_opt (fire call) (due_now s2) s2"
        unfolding due_head(2) [OF Cons.prems l False] due2(1) using s1(1) Some by simp
      moreover have "filter (\<lambda>a. last_tick_time s < due s a) (timeout_action_list s)
          = filter (\<lambda>a. last_tick_time s < due s a) ys"
        unfolding l using False by simp
      moreover have "tm_wf s' \<and> last_tick_time s' = last_tick_time s \<and>
          timeout_action_list s' = filter (\<lambda>a. last_tick_time s < due s a) ys \<and>
          (\<forall>b \<in> set (timeout_action_list s'). timeout_actions s' b = timeout_actions s b)"
        if "do_tick_loop call s2 = Some s'" for s'
      proof -
        from IH(2) that have a: "tm_wf s'" "last_tick_time s' = last_tick_time s2"
          "timeout_action_list s' = filter (\<lambda>a. last_tick_time s2 < due s2 a) (timeout_action_list s2)"
          "\<forall>b \<in> set (timeout_action_list s'). timeout_actions s' b = timeout_actions s2 b"
          by blast+
        then have "set (timeout_action_list s') \<subseteq> set ys" unfolding due2(2) by auto
        with a s2 due2(2) show ?thesis by (metis subsetD)
      qed
      ultimately show ?thesis using IH(1) ef by metis
    qed
  qed
qed

lemma tick_loop_returns:
  assumes "rearms_later (last_tick_time s) call" and "tm_wf s"
  shows "\<exists>s'. do_tick_loop call s = Some s' \<and> tm_wf s' \<and> last_tick_time s' = last_tick_time s \<and>
     due_now s' = []"
  using assms
proof (induction "length (due_now s)" arbitrary: s rule: less_induct)
  case less
  show ?case
  proof (cases "timeout_action_list s")
    case Nil
    with less.prems show ?thesis by (subst do_tick_loop.simps) simp
  next
    case (Cons a ys)
    show ?thesis
    proof (cases "last_tick_time s < due s a")
      case True
      with Cons less.prems due_head(1) [OF less.prems(2) Cons True] show ?thesis
        by (subst do_tick_loop.simps) simp
    next
      case False
      obtain s1 r where s1: "fire call a s = call r a s1" "tm_wf s1" "timeout_action_list s1 = ys"
          "last_tick_time s1 = last_tick_time s" "a \<notin> set ys"
          "\<forall>b \<in> set ys. timeout_actions s1 b = timeout_actions s b"
        using fire_removed [OF less.prems(2) Cons] by blast
      with less.prems(1) obtain s2 where s2: "call r a s1 = Some s2" "tm_wf s2"
          "last_tick_time s2 = last_tick_time s" "length (due_now s2) \<le> length (due_now s1)"
        unfolding rearms_later_def by metis
      have "due_now s1 = filter (\<lambda>b. due s b \<le> last_tick_time s) ys"
        using s1(6) unfolding s1(3,4) by (simp cong: filter_cong)
      then have "length (due_now s2) < length (due_now s)"
        using s2(4) due_head(2) [OF less.prems(2) Cons False] by simp
      with less.hyps [of s2] less.prems s2 s1 do_tick_loop_step [OF less.prems(2) Cons False]
      show ?thesis by simp
    qed
  qed
qed

lemma tm_wf_clock:
  "tm_wf s \<Longrightarrow> time_wf t \<Longrightarrow> tm_wf (s\<lparr>last_tick_time := t\<rparr>)"
  by (simp add: tm_wf_def)

section \<open>Properties\<close>

text \<open>Two pending actions, due at 2 and at 5 seconds, one second after boot.\<close>

definition time_example :: "(nat, nat) ktime" where
  "time_example = \<lparr>timeout_action_list = [10, 20],
     timeout_actions = (\<lambda>a. \<lparr>routine = Some 0, routine_data = 0,
        timeout = \<lparr>sec = (if a = 10 then 2 else 5), nanosec = 0\<rparr>\<rparr>),
     tick_resolution = \<lparr>sec = 1, nanosec = 0\<rparr>, last_tick_time = \<lparr>sec = 1, nanosec = 0\<rparr>\<rparr>"

lemma time_example_wf: "tm_wf time_example"
  by (simp add: tm_wf_def time_example_def time_wf_def NS_IN_SEC_def less_eq_sos_time_ext_def)

text \<open>
  The 32-bit arithmetic on dates is exact on normalised dates: an increment that fits in 32-bit
  seconds gives a normalised date that many nanoseconds later, decrementing it again gives the
  date back, and decrementing by a later date stops the machine.
\<close>

theorem time_arithmetic_exact:
  assumes "time_wf a" and "time_wf b"
  shows "(time_ns a + time_ns b < 2 ^ 32 * 10 ^ 9 \<longrightarrow>
            time_wf (sos_time_inc a b) \<and> time_ns (sos_time_inc a b) = time_ns a + time_ns b \<and>
            sos_time_dec (sos_time_inc a b) b = Some a) \<and>
         (sos_time_dec a b = None \<longleftrightarrow> time_ns a < time_ns b) \<and>
         (\<forall>r. sos_time_dec a b = Some r \<longrightarrow> time_wf r \<and> time_ns r = time_ns a - time_ns b)"
proof (intro conjI impI)
  assume f: "time_ns a + time_ns b < 2 ^ 32 * 10 ^ 9"
  note i = time_inc_exact [OF assms f]
  show "time_wf (sos_time_inc a b)" and "time_ns (sos_time_inc a b) = time_ns a + time_ns b"
    by (fact i)+
  have "b \<le> sos_time_inc a b" using i assms by (simp add: time_le_iff)
  from time_dec_exact [OF i(1) assms(2) this] show "sos_time_dec (sos_time_inc a b) b = Some a"
    using i assms time_ns_inj by auto
next
  show "sos_time_dec a b = None \<longleftrightarrow> time_ns a < time_ns b"
    using time_dec_refused [of a b] time_dec_exact [OF assms] assms
    by (metis linorder_not_less option.distinct(1) time_less_iff)
  show "\<forall>r. sos_time_dec a b = Some r \<longrightarrow> time_wf r \<and> time_ns r = time_ns a - time_ns b"
    using time_dec_refused [of a b] time_dec_exact [OF assms]
    by (metis linorder_not_less option.distinct(1) option.inject)
qed

theorem time_arithmetic_exact_witness:
  "sos_time_dec (sos_time_inc \<lparr>sec = 3, nanosec = 700000000\<rparr> \<lparr>sec = 1, nanosec = 600000000\<rparr>)
     \<lparr>sec = 1, nanosec = 600000000\<rparr> = Some \<lparr>sec = 3, nanosec = 700000000\<rparr>"
  using time_arithmetic_exact [of "\<lparr>sec = 3, nanosec = 700000000\<rparr>" "\<lparr>sec = 1, nanosec = 600000000\<rparr>"]
  by (simp add: time_wf_def time_ns_def NS_IN_SEC_def)

text \<open>
  C31: Registering an action that is not pending refuses an absolute date in the past and otherwise
  inserts it at its due date (relative dates count from the last tick): before every strictly later
  action and after every other one, so the list stays sorted and equal dates stay in registration
  order; the other actions and the clock are untouched. The comments of \<open>os/time.h\<close> say that the action is
  always inserted; with a past date it is not.
\<close>

theorem timeout_registration:
  assumes wf: "tm_wf s" and a: "a \<notin> set (timeout_action_list s)" and t: "time_wf t"
    and fits: "rel \<Longrightarrow> time_ns (last_tick_time s) + time_ns t < 2 ^ 32 * 10 ^ 9"
  shows "if \<not> rel \<and> t < last_tick_time s
     then add_action (Some a) (Some t) rel (Some r) data s = (- SOS_EINVAL, s)
     else \<exists>s' date. add_action (Some a) (Some t) rel (Some r) data s = (SOS_OK, s') \<and> tm_wf s' \<and>
            due s' a = date \<and>
            time_ns date = (if rel then time_ns (last_tick_time s) + time_ns t else time_ns t) \<and>
            timeout_action_list s' = takeWhile (\<lambda>b. due s b \<le> date) (timeout_action_list s) @ a #
                                     dropWhile (\<lambda>b. due s b \<le> date) (timeout_action_list s) \<and>
            (\<forall>b. b \<noteq> a \<longrightarrow> timeout_actions s' b = timeout_actions s b) \<and>
            last_tick_time s' = last_tick_time s"
proof (cases "\<not> rel \<and> t < last_tick_time s")
  case True
  with add_action_errors(5) [OF a] show ?thesis by simp
next
  case False
  define date where "date = (if rel then sos_time_inc (last_tick_time s) t else t)"
  have D: "distinct (timeout_action_list s)" and c: "time_wf (last_tick_time s)"
    using wf by (simp_all add: tm_wf_def)
  have d: "time_wf date" "time_ns date = (if rel then time_ns (last_tick_time s) + time_ns t else time_ns t)"
    using time_inc_exact [OF c t] fits t by (auto simp: date_def)
  obtain s' where s': "add_action (Some a) (Some t) rel (Some r) data s = (SOS_OK, s')"
      "timeout_action_list s' = takeWhile (\<lambda>e. due s e \<le> date) (timeout_action_list s) @ a #
                              dropWhile (\<lambda>e. due s e \<le> date) (timeout_action_list s)"
      "timeout_actions s' = (timeout_actions s)(a := \<lparr>routine = Some r, routine_data = data, timeout = date\<rparr>)"
      "tick_resolution s' = tick_resolution s" "last_tick_time s' = last_tick_time s"
    using add_action_ok [OF a D _ date_def, of r data] False by (auto simp: not_less)
  have "tm_wf s'" by (rule tm_wf_insert [OF wf a d(1) _ _ s'(2,3,4,5)]) simp_all
  with s' d show ?thesis unfolding if_not_P [OF False]
    by (intro exI [of _ s'] exI [of _ date]) simp
qed

theorem timeout_registration_witness:
  "\<exists>s'. add_action (Some 30) (Some \<lparr>sec = 1, nanosec = 0\<rparr>) True (Some 0) 0 time_example = (SOS_OK, s') \<and>
        timeout_action_list s' = [10, 30, 20] \<and> tm_wf s'"
proof -
  let ?t = "\<lparr>sec = 1, nanosec = 0\<rparr> :: sos_time"
  have d: "date = \<lparr>sec = 2, nanosec = 0\<rparr>" if "time_wf date" "time_ns date = 2 * 10 ^ 9" for date
    using that time_ns_inj [of date "\<lparr>sec = 2, nanosec = 0\<rparr>"] by (simp add: time_wf_def time_ns_def NS_IN_SEC_def)
  obtain s' date where s': "add_action (Some 30) (Some ?t) True (Some 0) 0 time_example = (SOS_OK, s')" "tm_wf s'"
      "due s' 30 = date" "time_ns date = 2 * 10 ^ 9"
      "timeout_action_list s' = takeWhile (\<lambda>b. due time_example b \<le> date) [10, 20] @ 30 #
                                dropWhile (\<lambda>b. due time_example b \<le> date) [10, 20]"
    using timeout_registration [OF time_example_wf, of 30 ?t True 0 0]
    by (auto simp: time_example_def time_wf_def time_ns_def NS_IN_SEC_def)
  have "time_wf date" using s'(2,3,5) by (simp add: tm_wf_def)
  with d s'(4) have "date = \<lparr>sec = 2, nanosec = 0\<rparr>" by blast
  then have "timeout_action_list s' = [10, 30, 20]"
    using s'(5) by (simp add: time_example_def less_eq_sos_time_ext_def)
  with s'(1,2) show ?thesis by blast
qed

text \<open>
  C29: A timer tick with routines that leave pending actions alone fires exactly the actions whose
  date has come, once each and in the order of their dates, each one removed before its routine
  runs; what stays pending is exactly what is due later.
\<close>

theorem tick_fires_due_actions:
  assumes neutral: "time_neutral call" and wf: "tm_wf s"
    and fits: "time_ns (last_tick_time s) + time_ns (tick_resolution s) < 2 ^ 32 * 10 ^ 9"
    and s1: "s1 = s\<lparr>last_tick_time := sos_time_inc (last_tick_time s) (tick_resolution s)\<rparr>"
  shows "sos_time_do_tick call s = map_option (Pair SOS_OK) (fold_opt (fire call) (due_now s1) s1) \<and>
         time_ns (last_tick_time s1) = time_ns (last_tick_time s) + time_ns (tick_resolution s) \<and>
         (\<forall>r s'. sos_time_do_tick call s = Some (r, s') \<longrightarrow> tm_wf s' \<and>
            last_tick_time s' = last_tick_time s1 \<and>
            timeout_action_list s' = filter (\<lambda>a. last_tick_time s1 < due s a) (timeout_action_list s))"
proof -
  have "time_wf (last_tick_time s)" "time_wf (tick_resolution s)" using wf by (simp_all add: tm_wf_def)
  note i = time_inc_exact [OF this fits]
  have wf1: "tm_wf s1" unfolding s1 by (rule tm_wf_clock [OF wf i(1)])
  note loop = tick_loop_fires [OF neutral wf1]
  have run: "sos_time_do_tick call s = map_option (Pair SOS_OK) (do_tick_loop call s1)"
    by (cases "do_tick_loop call s1") (simp_all add: sos_time_do_tick_def Let_def s1)
  show ?thesis
  proof (intro conjI allI impI)
    show "sos_time_do_tick call s = map_option (Pair SOS_OK) (fold_opt (fire call) (due_now s1) s1)"
      by (simp only: run conjunct1 [OF loop])
    show "time_ns (last_tick_time s1) = time_ns (last_tick_time s) + time_ns (tick_resolution s)"
      using i by (simp add: s1)
  next
    fix r s'
    assume "sos_time_do_tick call s = Some (r, s')"
    then have "do_tick_loop call s1 = Some s'" unfolding run by auto
    moreover have "filter (\<lambda>a. last_tick_time s1 < due s1 a) (timeout_action_list s1)
        = filter (\<lambda>a. last_tick_time s1 < due s a) (timeout_action_list s)"
      by (simp add: s1)
    ultimately show "tm_wf s'" "last_tick_time s' = last_tick_time s1"
      "timeout_action_list s' = filter (\<lambda>a. last_tick_time s1 < due s a) (timeout_action_list s)"
      using conjunct2 [OF loop] by (simp_all only:)
  qed
qed

theorem tick_fires_due_actions_witness:
  "\<exists>s'. sos_time_do_tick (\<lambda>r a s. Some s) time_example = Some (SOS_OK, s') \<and> timeout_action_list s' = [20]"
proof -
  let ?call = "\<lambda>(r :: nat) (a :: nat) s. Some (s :: (nat, nat) ktime)"
  let ?s1 = "time_example\<lparr>last_tick_time := sos_time_inc (last_tick_time time_example) (tick_resolution time_example)\<rparr>"
  have n: "time_neutral ?call" by (simp add: time_neutral_def)
  have "sos_time_inc (last_tick_time time_example) (tick_resolution time_example) = \<lparr>sec = 2, nanosec = 0\<rparr>"
    by (simp add: time_example_def sos_time_inc_def Let_def NS_IN_SEC_def)
  then have e: "due_now ?s1 = [10]" "filter (\<lambda>a. last_tick_time ?s1 < due time_example a) (timeout_action_list time_example) = [20]"
    by (simp_all add: time_example_def less_eq_sos_time_ext_def less_sos_time_ext_def)
  have wf1: "tm_wf ?s1"
    by (rule tm_wf_clock [OF time_example_wf])
      (simp add: time_example_def time_wf_def sos_time_inc_def Let_def NS_IN_SEC_def)
  have l: "timeout_action_list ?s1 = [10, 20]" by (simp add: time_example_def)
  obtain s' where f: "fire ?call 10 ?s1 = Some s'"
    using fire_removed [OF wf1 l, of ?call] by blast
  have fits: "time_ns (last_tick_time time_example) + time_ns (tick_resolution time_example) < 2 ^ 32 * 10 ^ 9"
    by (simp add: time_example_def time_ns_def)
  from tick_fires_due_actions [OF n time_example_wf fits refl] show ?thesis
    unfolding e by (simp add: f)
qed

text \<open>
  C30: A timer tick always returns when the routines return and never register an action that is
  already due, even if they register themselves again: afterwards every pending action is due
  strictly later.
\<close>

theorem tick_returns:
  assumes wf: "tm_wf s" and fits: "time_ns (last_tick_time s) + time_ns (tick_resolution s) < 2 ^ 32 * 10 ^ 9"
    and later: "rearms_later (sos_time_inc (last_tick_time s) (tick_resolution s)) call"
  shows "\<exists>s'. sos_time_do_tick call s = Some (SOS_OK, s') \<and> tm_wf s' \<and>
     time_ns (last_tick_time s') = time_ns (last_tick_time s) + time_ns (tick_resolution s) \<and>
     (\<forall>a \<in> set (timeout_action_list s'). last_tick_time s' < due s' a)"
proof -
  have "time_wf (last_tick_time s)" "time_wf (tick_resolution s)" using wf by (simp_all add: tm_wf_def)
  note i = time_inc_exact [OF this fits]
  let ?s1 = "s\<lparr>last_tick_time := sos_time_inc (last_tick_time s) (tick_resolution s)\<rparr>"
  obtain s' where "do_tick_loop call ?s1 = Some s'" "tm_wf s'" "last_tick_time s' = last_tick_time ?s1"
      "due_now s' = []"
    using tick_loop_returns [of ?s1 call] later tm_wf_clock [OF wf i(1)] by auto
  with i show ?thesis by (auto simp: sos_time_do_tick_def Let_def filter_empty_conv not_le)
qed

text \<open>A routine that registers its action again, one second later.\<close>

definition periodic_call :: "nat \<Rightarrow> nat \<Rightarrow> (nat, nat) ktime \<Rightarrow> (nat, nat) ktime option" where
  "periodic_call r a s =
     Some (snd (sos_time_register_action_relative (Some a) (Some \<lparr>sec = 1, nanosec = 0\<rparr>) (Some r) 0 s))"

lemma periodic_rearms_later: "rearms_later \<lparr>sec = 2, nanosec = 0\<rparr> periodic_call"
  unfolding rearms_later_def
proof (intro allI impI)
  fix r a and s :: "(nat, nat) ktime"
  assume wf: "tm_wf s" and now: "last_tick_time s = \<lparr>sec = 2, nanosec = 0\<rparr>"
    and a: "a \<notin> set (timeout_action_list s)"
  define date where "date = sos_time_inc (last_tick_time s) \<lparr>sec = 1, nanosec = 0\<rparr>"
  have e: "date = \<lparr>sec = 3, nanosec = 0\<rparr>"
    by (simp add: date_def now sos_time_inc_def Let_def NS_IN_SEC_def)
  then have dw: "time_wf date" by (simp add: time_wf_def NS_IN_SEC_def)
  have D: "distinct (timeout_action_list s)" using wf by (simp add: tm_wf_def)
  obtain s' where s': "add_action (Some a) (Some \<lparr>sec = 1, nanosec = 0\<rparr>) True (Some r) 0 s = (SOS_OK, s')"
      "timeout_action_list s' = takeWhile (\<lambda>e. due s e \<le> date) (timeout_action_list s) @ a #
                              dropWhile (\<lambda>e. due s e \<le> date) (timeout_action_list s)"
      "timeout_actions s' = (timeout_actions s)(a := \<lparr>routine = Some r, routine_data = 0, timeout = date\<rparr>)"
      "tick_resolution s' = tick_resolution s" "last_tick_time s' = last_tick_time s"
    using add_action_ok [OF a D, of True \<open>\<lparr>sec = 1, nanosec = 0\<rparr>\<close> date r 0] by (auto simp: date_def)
  have w: "tm_wf s'" by (rule tm_wf_insert [OF wf a dw _ _ s'(2,3,4,5)]) simp_all
  let ?P = "\<lambda>b. due s' b \<le> last_tick_time s'"
  have na: "\<not> ?P a" using s' now e by (simp add: less_eq_sos_time_ext_def)
  have "due_now s' = filter ?P (takeWhile (\<lambda>e. due s e \<le> date) (timeout_action_list s)) @
          filter ?P (dropWhile (\<lambda>e. due s e \<le> date) (timeout_action_list s))"
    using na unfolding s'(2) by simp
  also have "\<dots> = filter ?P (timeout_action_list s)"
    by (simp only: filter_append [symmetric] takeWhile_dropWhile_id)
  also have "\<dots> = due_now s" using a s' by (intro filter_cong) auto
  finally show "\<exists>s'. periodic_call r a s = Some s' \<and> tm_wf s' \<and> last_tick_time s' = \<lparr>sec = 2, nanosec = 0\<rparr> \<and>
      length (due_now s') \<le> length (due_now s)"
    using s' w now by (simp add: periodic_call_def sos_time_register_action_relative_def)
qed

theorem tick_returns_witness:
  "\<exists>s'. sos_time_do_tick periodic_call time_example = Some (SOS_OK, s') \<and> tm_wf s'"
proof -
  have "sos_time_inc (last_tick_time time_example) (tick_resolution time_example) = \<lparr>sec = 2, nanosec = 0\<rparr>"
    by (simp add: time_example_def sos_time_inc_def Let_def NS_IN_SEC_def)
  then show ?thesis
    using tick_returns [OF time_example_wf, of periodic_call] periodic_rearms_later
    by (auto simp: time_example_def time_ns_def)
qed

text \<open>
  Removing a pending action leaves in it the exact time that remained before its date, zero
  when the date is past, and takes it out of the list; removing an action that is not pending
  changes nothing, and unregistering reports success in both cases.
\<close>

theorem unregister_remaining_time:
  assumes wf: "tm_wf s"
  shows "\<exists>s'. sos_time_unregister_action a s = Some (SOS_OK, s') \<and> tm_wf s' \<and>
     timeout_action_list s' = remove1 a (timeout_action_list s) \<and>
     (if a \<in> set (timeout_action_list s)
      then time_ns (due s' a) = time_ns (due s a) - time_ns (last_tick_time s)
      else s' = s)"
proof (cases "a \<in> set (timeout_action_list s)")
  case True
  with remove_action_ok [OF wf] show ?thesis by (fastforce simp: sos_time_unregister_action_def)
next
  case False
  with wf show ?thesis
    by (simp add: sos_time_unregister_action_def remove_action_absent remove1_idem)
qed

theorem unregister_remaining_time_witness:
  "\<exists>s'. sos_time_unregister_action 20 time_example = Some (SOS_OK, s') \<and>
        timeout_action_list s' = [10] \<and> time_ns (due s' 20) = 4 * 10 ^ 9"
  using unregister_remaining_time [OF time_example_wf, of 20]
  by (auto simp: time_example_def time_ns_def)

end
