(* ===== verification/Klibc.thy ===== *)
theory Klibc
  imports SOS_Base "HOL-Library.List_Lexorder"
begin

text \<open>
  The memory of the machine as bytes, with little-endian accesses of 16 and 32 bits, and the
  memory and string routines of \<^verbatim>\<open>lib/klibc.c\<close>. A string is read up to its terminating
  zero byte: a loop that never meets one is \<open>None\<close>. Characters are bytes; where the code
  uses the (signed) type \<^verbatim>\<open>char\<close> in arithmetic the signed value is taken.
\<close>

section \<open>Memory\<close>

type_synonym mem = "u32 \<Rightarrow> u8"

definition load16 :: "mem \<Rightarrow> u32 \<Rightarrow> u16" where
  "load16 m a = ucast (m a) OR push_bit 8 (ucast (m (a + 1)))"

definition load32 :: "mem \<Rightarrow> u32 \<Rightarrow> u32" where
  "load32 m a = ucast (m a) OR push_bit 8 (ucast (m (a + 1))) OR
     push_bit 16 (ucast (m (a + 2))) OR push_bit 24 (ucast (m (a + 3)))"

definition store16 :: "u32 \<Rightarrow> u16 \<Rightarrow> mem \<Rightarrow> mem" where
  "store16 a v m = m(a := ucast v, a + 1 := ucast (drop_bit 8 v))"

definition store32 :: "u32 \<Rightarrow> u32 \<Rightarrow> mem \<Rightarrow> mem" where
  "store32 a v m = m(a := ucast v, a + 1 := ucast (drop_bit 8 v),
     a + 2 := ucast (drop_bit 16 v), a + 3 := ucast (drop_bit 24 v))"

definition in_block :: "u32 \<Rightarrow> u32 \<Rightarrow> u32 \<Rightarrow> bool" where
  "in_block a base len \<longleftrightarrow> a - base < len"

definition disjoint_blocks :: "u32 \<Rightarrow> u32 \<Rightarrow> u32 \<Rightarrow> u32 \<Rightarrow> bool" where
  "disjoint_blocks a alen b blen \<longleftrightarrow> (\<forall>x. \<not> (in_block x a alen \<and> in_block x b blen))"

section \<open>memcpy, memset, memcmp\<close>

fun memcpy_loop :: "nat \<Rightarrow> u32 \<Rightarrow> u32 \<Rightarrow> mem \<Rightarrow> mem" where
  "memcpy_loop 0 dst src m = m"
| "memcpy_loop (Suc n) dst src m = memcpy_loop n (dst + 1) (src + 1) (m(dst := m src))"

definition memcpy :: "u32 \<Rightarrow> u32 \<Rightarrow> u32 \<Rightarrow> mem \<Rightarrow> u32 \<times> mem" where
  "memcpy dst0 src0 sz m = (dst0, memcpy_loop (unat sz) dst0 src0 m)"

fun memset_loop :: "nat \<Rightarrow> u32 \<Rightarrow> u8 \<Rightarrow> mem \<Rightarrow> mem" where
  "memset_loop 0 dst c m = m"
| "memset_loop (Suc len) dst c m = memset_loop len (dst + 1) c (m(dst := c))"

definition memset :: "u32 \<Rightarrow> u32 \<Rightarrow> u32 \<Rightarrow> mem \<Rightarrow> u32 \<times> mem" where
  "memset dst0 c len m = (dst0, memset_loop (unat len) dst0 (ucast c) m)"

fun memcmp_loop :: "nat \<Rightarrow> u32 \<Rightarrow> u32 \<Rightarrow> mem \<Rightarrow> int" where
  "memcmp_loop 0 c1 c2 m = 0"
| "memcmp_loop (Suc len) c1 c2 m =
     (if m c1 \<noteq> m c2 then uint (m c1) - uint (m c2) else memcmp_loop len (c1 + 1) (c2 + 1) m)"

definition memcmp :: "u32 \<Rightarrow> u32 \<Rightarrow> u32 \<Rightarrow> mem \<Rightarrow> int" where
  "memcmp s1 s2 len m = memcmp_loop (unat len) s1 s2 m"

section \<open>Strings\<close>

partial_function (option) strlen_loop :: "u32 \<Rightarrow> u32 \<Rightarrow> mem \<Rightarrow> u32 option" where
  "strlen_loop str retval m =
     (if m str \<noteq> 0 then strlen_loop (str + 1) (retval + 1) m else Some retval)"

definition strlen :: "u32 \<Rightarrow> mem \<Rightarrow> u32 option" where
  "strlen str m = strlen_loop str 0 m"

fun strnlen_loop :: "nat \<Rightarrow> u32 \<Rightarrow> mem \<Rightarrow> u32" where
  "strnlen_loop 0 sc m = sc"
| "strnlen_loop (Suc count) sc m = (if m sc \<noteq> 0 then strnlen_loop count (sc + 1) m else sc)"

definition strnlen :: "u32 \<Rightarrow> u32 \<Rightarrow> mem \<Rightarrow> u32" where
  "strnlen s count m = strnlen_loop (unat count) s m - s"

text \<open>The remaining number of iterations and whether the loop returned at a zero byte.\<close>

fun strzcpy_loop :: "nat \<Rightarrow> u32 \<Rightarrow> u32 \<Rightarrow> mem \<Rightarrow> bool \<times> mem" where
  "strzcpy_loop 0 dst src m = (False, m)"
| "strzcpy_loop (Suc n) dst src m =
     (let m' = m(dst := m src) in if m' src = 0 then (True, m') else strzcpy_loop n (dst + 1) (src + 1) m')"

definition strzcpy :: "u32 \<Rightarrow> u32 \<Rightarrow> int \<Rightarrow> mem \<Rightarrow> u32 \<times> mem" where
  "strzcpy dst src len m =
     (if len \<le> 0 then (dst, m)
      else case strzcpy_loop (nat len) dst src m of
             (True, m') \<Rightarrow> (dst, m')
           | (False, m') \<Rightarrow> (dst, m'(dst + word_of_int (len - 1) := 0)))"

partial_function (option) str_end :: "u32 \<Rightarrow> mem \<Rightarrow> u32 option" where
  "str_end dest m = (if m dest \<noteq> 0 then str_end (dest + 1) m else Some dest)"

partial_function (option) strzcat_loop :: "u32 \<Rightarrow> u32 \<Rightarrow> u32 \<Rightarrow> mem \<Rightarrow> mem option" where
  "strzcat_loop dest src n m =
     (if m src \<noteq> 0
      then let m = m(dest := m src); n = n - 1
           in if n \<le> 0 then Some (m(dest := 0)) else strzcat_loop (dest + 1) (src + 1) n m
      else Some (m(dest := 0)))"

definition strzcat :: "u32 \<Rightarrow> u32 \<Rightarrow> u32 \<Rightarrow> mem \<Rightarrow> (u32 \<times> mem) option" where
  "strzcat dest src n m = do {
     e \<leftarrow> str_end dest m;
     m \<leftarrow> strzcat_loop e src n m;
     Some (dest, m) }"

partial_function (option) strcmp :: "u32 \<Rightarrow> u32 \<Rightarrow> mem \<Rightarrow> int option" where
  "strcmp s1 s2 m =
     (if m s1 = m s2
      then if m s1 = 0 then Some 0 else strcmp (s1 + 1) (s2 + 1) m
      else Some (uint (m s1) - uint (m s2)))"

fun strncmp_loop :: "nat \<Rightarrow> u8 \<Rightarrow> u8 \<Rightarrow> u32 \<Rightarrow> u32 \<Rightarrow> mem \<Rightarrow> int" where
  "strncmp_loop 0 c1 c2 s1 s2 m = sint c1 - sint c2"
| "strncmp_loop (Suc len) c1 c2 s1 s2 m =
     (let c1 = m s1; c2 = m s2
      in if c1 = 0 \<or> c1 \<noteq> c2 then sint c1 - sint c2
         else strncmp_loop len c1 c2 (s1 + 1) (s2 + 1) m)"

definition strncmp :: "u32 \<Rightarrow> u32 \<Rightarrow> int \<Rightarrow> mem \<Rightarrow> int" where
  "strncmp s1 s2 len m = strncmp_loop (nat len) 0 0 s1 s2 m"

section \<open>Random numbers\<close>

definition RAND_MAX :: u32 where
  "RAND_MAX = 4294967291"

definition random_seed_init :: u32 where
  "random_seed_init = 93186752"

definition random_a :: u32 where "random_a = 1588635695"
definition random_q :: u32 where "random_q = 2"
definition random_r :: u32 where "random_r = 1117695901"

definition random :: "u32 \<Rightarrow> u32 \<times> u32" where
  "random seed = (let seed = random_a * (seed mod random_q) - random_r * (seed div random_q) in (seed, seed))"

definition srandom :: "u32 \<Rightarrow> u32" where
  "srandom seed = seed"


section \<open>Blocks of memory\<close>

lemma block_Suc: "unat (x - d) < Suc n \<longleftrightarrow> x = d \<or> unat (x - (d + 1)) < n" for x d :: u32
proof (cases "x = d")
  case False
  then have "unat (x - d - 1) = unat (x - d) - 1" and "unat (x - d) \<noteq> 0"
    by (simp_all add: unat_minus_one unat_eq_0 flip: unat_gt_0)
  with False show ?thesis by (simp add: diff_diff_eq [symmetric] less_diff_conv) linarith
qed simp

lemma memset_loop_eq: "memset_loop n d c m x = (if unat (x - d) < n then c else m x)"
proof (induction n arbitrary: d m)
  case (Suc n)
  then show ?case by (simp only: memset_loop.simps block_Suc) simp
qed simp

lemma memcpy_loop_eq:
  assumes "unat (d - s) = 0 \<or> n \<le> unat (d - s)"
  shows "memcpy_loop n d s m x = (if unat (x - d) < n then m (s + (x - d)) else m x)"
  using assms
proof (induction n arbitrary: d s m)
  case (Suc n)
  have nx: "s + 1 + (x - (d + 1)) = s + (x - d)" by simp
  have sub: "unat (d + 1 - (s + 1)) = 0 \<or> n \<le> unat (d + 1 - (s + 1))" using Suc.prems by auto
  have safe: "s + (x - d) \<noteq> d" if "unat (x - (d + 1)) < n" "x \<noteq> d"
  proof
    assume "s + (x - d) = d"
    then have e: "x - d = d - s" by (simp add: algebra_simps)
    have "unat (x - d) < Suc n" using that by (simp only: block_Suc) simp
    moreover have "unat (d - s) \<noteq> 0" using that(2) e by (metis right_minus_eq unat_eq_0)
    ultimately show False using e Suc.prems by simp
  qed
  show ?case
    unfolding memcpy_loop.simps Suc.IH [OF sub] block_Suc nx using safe by (cases "x = d") simp_all
qed simp

lemma memcmp_loop_eq:
  "(memcmp_loop n a b m = 0 \<longleftrightarrow> (\<forall>i < n. m (a + word_of_nat i) = m (b + word_of_nat i))) \<and>
   (memcmp_loop n a b m < 0 \<longleftrightarrow> (\<exists>i < n. m (a + word_of_nat i) < m (b + word_of_nat i) \<and>
      (\<forall>j < i. m (a + word_of_nat j) = m (b + word_of_nat j))))"
proof (induction n arbitrary: a b)
  case (Suc n)
  have e: "P (Suc i) = P' i" if "\<And>i. P (Suc i) = P' i" for P P' and i :: nat using that by simp
  show ?case
  proof (cases "m a = m b")
    case True
    with Suc [of "a + 1" "b + 1"] show ?thesis
      by (simp add: All_less_Suc2 Ex_less_Suc2 algebra_simps)
  next
    case False
    then show ?thesis
      by (auto simp: All_less_Suc2 Ex_less_Suc2 word_less_def word_uint_eq_iff)
  qed
qed simp

lemma sint_eq_iff: "sint a = sint b \<longleftrightarrow> a = b" for a b :: "'a::len word"
  using signed_word_eqI by auto

lemma sint_zero_iff [simp]: "sint a = 0 \<longleftrightarrow> a = 0" for a :: "'a::len word"
  using sint_eq_iff [of a 0] by simp

section \<open>Strings in memory\<close>

fun cstr :: "mem \<Rightarrow> u32 \<Rightarrow> u8 list \<Rightarrow> bool" where
  "cstr m s [] \<longleftrightarrow> m s = 0"
| "cstr m s (c # cs) \<longleftrightarrow> c \<noteq> 0 \<and> m s = c \<and> cstr m (s + 1) cs"

lemma cstr_cong:
  "(\<And>x. unat (x - s) \<le> length xs \<Longrightarrow> m' x = m x) \<Longrightarrow> cstr m' s xs = cstr m s xs"
proof (induction xs arbitrary: s)
  case (Cons c cs)
  have "m' x = m x" if "unat (x - (s + 1)) \<le> length cs" for x
    using that Cons.prems [of x] block_Suc [of x s "Suc (length cs)"] by (simp add: less_Suc_eq_le)
  with Cons.IH [of "s + 1"] Cons.prems [of s] show ?case by simp
qed simp

lemma strlen_loop_eq: "cstr m s xs \<Longrightarrow> strlen_loop s r m = Some (r + word_of_nat (length xs))"
proof (induction xs arbitrary: s r)
  case Nil
  then show ?case by (subst strlen_loop.simps) simp
next
  case (Cons c cs)
  then show ?case by (subst strlen_loop.simps) (simp add: algebra_simps)
qed

lemma strnlen_loop_eq: "cstr m s xs \<Longrightarrow> strnlen_loop n s m = s + word_of_nat (min n (length xs))"
proof (induction n arbitrary: s xs)
  case (Suc n)
  show ?case
  proof (cases xs)
    case Nil
    with Suc.prems show ?thesis by simp
  next
    case (Cons c cs)
    with Suc.IH [of "s + 1" cs] Suc.prems show ?thesis by (simp add: add.assoc)
  qed
qed simp

lemma str_end_eq: "cstr m s xs \<Longrightarrow> str_end s m = Some (s + word_of_nat (length xs))"
proof (induction xs arbitrary: s)
  case Nil
  then show ?case by (subst str_end.simps) simp
next
  case (Cons c cs)
  then show ?case by (subst str_end.simps) (simp add: algebra_simps)
qed

lemma strcmp_eq:
  "cstr m s1 xs \<Longrightarrow> cstr m s2 ys \<Longrightarrow>
   \<exists>r. strcmp s1 s2 m = Some r \<and> (r = 0 \<longleftrightarrow> xs = ys) \<and> (r < 0 \<longleftrightarrow> xs < ys)"
proof (induction xs arbitrary: s1 s2 ys)
  case Nil
  then show ?case
    by (subst strcmp.simps, cases ys) (auto simp: word_less_alt word_neq_0_conv)
next
  case (Cons x xs)
  show ?case
  proof (cases "ys \<noteq> [] \<and> hd ys = x")
    case True
    then obtain ys' where ys: "ys = x # ys'" by (cases ys) auto
    with Cons.IH [of "s1 + 1" "s2 + 1" ys'] Cons.prems show ?thesis
      by (subst strcmp.simps) auto
  next
    case False
    then have ne: "m s1 \<noteq> m s2" and lt: "m s1 < m s2 \<longleftrightarrow> x # xs < ys"
      using Cons.prems by (cases ys; auto)+
    have "strcmp s1 s2 m = Some (uint (m s1) - uint (m s2))"
      using ne by (subst strcmp.simps) simp
    with ne lt False show ?thesis by (auto simp: word_less_alt word_uint_eq_iff)
  qed
qed

lemma strncmp_loop_zero:
  "cstr m s1 xs \<Longrightarrow> cstr m s2 ys \<Longrightarrow> c1 = c2 \<Longrightarrow>
   strncmp_loop n c1 c2 s1 s2 m = 0 \<longleftrightarrow> take n xs = take n ys"
proof (induction n arbitrary: s1 s2 xs ys c1 c2)
  case (Suc n)
  show ?case
  proof (cases xs)
    case Nil
    with Suc.prems show ?thesis by (cases ys) (auto simp: Let_def)
  next
    case (Cons x xs')
    then show ?thesis
    proof (cases ys)
      case Nil
      with Cons Suc.prems show ?thesis by (auto simp: Let_def)
    next
      case (Cons y ys')
      with \<open>xs = x # xs'\<close> Suc.prems Suc.IH [of "s1 + 1" xs' "s2 + 1" ys'] show ?thesis
        by (auto simp: Let_def sint_eq_iff)
    qed
  qed
qed simp

lemma memcpy_block:
  "disjoint_blocks d n s n \<Longrightarrow> in_block x d n \<Longrightarrow> snd (memcpy d s n m) x = m (s + (x - d))"
proof -
  assume "disjoint_blocks d n s n" and "in_block x d n"
  moreover from this have "0 < n" by (auto simp: in_block_def word_neq_0_conv [symmetric])
  ultimately have "unat (d - s) = 0 \<or> unat n \<le> unat (d - s)"
    unfolding disjoint_blocks_def in_block_def by (metis diff_self not_le word_le_nat_alt)
  with \<open>in_block x d n\<close> show ?thesis
    by (simp add: memcpy_def memcpy_loop_eq in_block_def word_less_nat_alt)
qed

text \<open>The bytes a string routine reads: the string and its terminator.\<close>

definition str_block :: "u32 \<Rightarrow> u32 \<Rightarrow> nat \<Rightarrow> bool" where
  "str_block x s n \<longleftrightarrow> unat (x - s) \<le> n"

lemma strzcpy_loop_eq:
  assumes "cstr m src xs" and "\<And>x. unat (x - dst) < n \<Longrightarrow> \<not> str_block x src (length xs)"
  shows "\<exists>m'. strzcpy_loop n dst src m = (length xs < n, m') \<and>
    (\<forall>x. \<not> unat (x - dst) < n \<longrightarrow> m' x = m x) \<and>
    (if length xs < n then cstr m' dst xs
     else \<forall>k m''. k \<le> n \<longrightarrow> (\<forall>x. unat (x - dst) < k \<longrightarrow> m'' x = m' x) \<longrightarrow>
            m'' (dst + word_of_nat k) = 0 \<longrightarrow> cstr m'' dst (take k xs))"
  using assms
proof (induction n arbitrary: dst src xs m)
  case (Suc n)
  let ?m = "m(dst := m src)"
  have nd: "x \<noteq> dst" if "str_block x src (length xs)" for x using Suc.prems(2) [of x] that by auto
  have ms: "?m src = m src" using nd [of src] by (simp add: str_block_def)
  show ?case
  proof (cases xs)
    case Nil
    with Suc.prems ms show ?thesis by (auto simp: Let_def)
  next
    case (Cons c cs)
    have c: "c \<noteq> 0" "m src = c" "cstr m (src + 1) cs" using Suc.prems(1) Cons by auto
    have sub: "str_block x src (length xs)" if "str_block x (src + 1) (length cs)" for x
      using that block_Suc [of x src "Suc (length cs)"] Cons by (simp add: str_block_def less_Suc_eq_le)
    have c1: "cstr ?m (src + 1) cs"
    proof -
      have "cstr ?m (src + 1) cs = cstr m (src + 1) cs"
        by (rule cstr_cong) (use nd sub in \<open>auto simp: str_block_def\<close>)
      with c(3) show ?thesis by simp
    qed
    have sep: "\<not> str_block x (src + 1) (length cs)" if "unat (x - (dst + 1)) < n" for x
      using Suc.prems(2) [of x] sub [of x] that block_Suc [of x dst n] by blast
    obtain m' where m': "strzcpy_loop n (dst + 1) (src + 1) ?m = (length cs < n, m')"
        "\<forall>x. \<not> unat (x - (dst + 1)) < n \<longrightarrow> m' x = ?m x"
        "if length cs < n then cstr m' (dst + 1) cs
         else \<forall>k m''. k \<le> n \<longrightarrow> (\<forall>x. unat (x - (dst + 1)) < k \<longrightarrow> m'' x = m' x) \<longrightarrow>
            m'' (dst + 1 + word_of_nat k) = 0 \<longrightarrow> cstr m'' (dst + 1) (take k cs)"
      using Suc.IH [OF c1 sep] by blast
    have run: "strzcpy_loop (Suc n) dst src m = (length xs < Suc n, m')"
      using m'(1) ms c Cons by (simp add: Let_def)
    have frame: "\<forall>x. \<not> unat (x - dst) < Suc n \<longrightarrow> m' x = m x"
      using m'(2) by (simp add: block_Suc)
    show ?thesis
    proof (cases "n < 2 ^ 32 \<and> m' dst = c")
      case True
      have "if length xs < Suc n then cstr m' dst xs
         else \<forall>k m''. k \<le> Suc n \<longrightarrow> (\<forall>x. unat (x - dst) < k \<longrightarrow> m'' x = m' x) \<longrightarrow>
           m'' (dst + word_of_nat k) = 0 \<longrightarrow> cstr m'' dst (take k xs)"
      proof (cases "length cs < n")
        case True
        with m'(3) c \<open>n < 2 ^ 32 \<and> m' dst = c\<close> Cons show ?thesis by simp
      next
        case False
        have "cstr m'' dst (take k xs)"
          if a: "k \<le> Suc n" "\<forall>x. unat (x - dst) < k \<longrightarrow> m'' x = m' x" "m'' (dst + word_of_nat k) = 0" for k m''
        proof (cases k)
          case 0
          with a(3) show ?thesis by simp
        next
          case (Suc j)
          have "m'' dst = c" using a(2) Suc \<open>n < 2 ^ 32 \<and> m' dst = c\<close> by simp
          moreover have "\<forall>x. unat (x - (dst + 1)) < j \<longrightarrow> m'' x = m' x"
            using a(2) block_Suc unfolding Suc by blast
          ultimately show ?thesis using m'(3) False a(1,3) c(1) Cons Suc by (simp add: add.assoc)
        qed
        with False Cons show ?thesis by simp
      qed
      with run frame show ?thesis by blast
    next
      case False
      \<comment> \<open>a copy of more than the whole memory would overwrite the source\<close>
      have "unat (src - dst) < Suc n"
      proof (cases "n < 2 ^ 32")
        case True
        with False have "m' dst \<noteq> ?m dst" using c by auto
        then have "unat (dst - (dst + 1)) < n" using m'(2) by blast
        then have "2 ^ 32 - 1 < n" by (simp add: unsigned_minus_1_eq_mask mask_eq_exp_minus_1)
        with True show ?thesis by linarith
      next
        case False
        then show ?thesis using unsigned_less [of "src - dst", where 'a = nat] by simp
      qed
      with Suc.prems(2) [of src] show ?thesis by (simp add: str_block_def)
    qed
  qed
qed simp

lemma strzcpy_eq:
  assumes "cstr m src xs" and l: "0 < len" "len < 2 ^ 31"
    and sep: "\<And>x. unat (x - dst) < nat len \<Longrightarrow> \<not> str_block x src (length xs)"
  shows "\<exists>m'. strzcpy dst src len m = (dst, m') \<and> cstr m' dst (take (nat len - 1) xs) \<and>
     (\<forall>x. \<not> unat (x - dst) < nat len \<longrightarrow> m' x = m x)"
proof -
  obtain m' where m': "strzcpy_loop (nat len) dst src m = (length xs < nat len, m')"
      "\<forall>x. \<not> unat (x - dst) < nat len \<longrightarrow> m' x = m x" "length xs < nat len \<Longrightarrow> cstr m' dst xs"
      "\<not> length xs < nat len \<Longrightarrow> \<forall>k m''. k \<le> nat len \<longrightarrow> (\<forall>x. unat (x - dst) < k \<longrightarrow> m'' x = m' x) \<longrightarrow>
            m'' (dst + word_of_nat k) = 0 \<longrightarrow> cstr m'' dst (take k xs)"
    using strzcpy_loop_eq [where n = "nat len" and dst = dst, OF assms(1) sep]
    by (cases "length xs < nat len") auto
  show ?thesis
  proof (cases "length xs < nat len")
    case True
    with m' l show ?thesis by (simp add: strzcpy_def)
  next
    case False
    define k where "k = nat len - 1"
    have len: "nat len = Suc k" "len - 1 = int k" "k < 2 ^ 31" using l by (auto simp: k_def)
    have ds: "word_of_int (len - 1) = (word_of_nat k :: u32)" unfolding len(2) by simp
    have uk: "unat (word_of_nat k :: u32) = k" using len(3) by (intro unat_of_nat_small) simp
    let ?m = "m'(dst + word_of_nat k := 0)"
    have "cstr ?m dst (take k xs)"
    proof -
      have "k \<le> nat len" "\<forall>x. unat (x - dst) < k \<longrightarrow> ?m x = m' x" "?m (dst + word_of_nat k) = 0"
        using uk len(1) by auto
      with m'(4) False show ?thesis by blast
    qed
    moreover have "\<forall>x. \<not> unat (x - dst) < nat len \<longrightarrow> ?m x = m x"
      using m'(2) uk len(1) by auto
    moreover have "strzcpy dst src len m = (dst, ?m)"
      using m'(1) False l(1) ds by (simp add: strzcpy_def)
    ultimately show ?thesis unfolding k_def by blast
  qed
qed

lemma strzcat_loop_eq:
  assumes "cstr m src xs" and "\<And>x. unat (x - dst) \<le> length xs \<Longrightarrow> \<not> str_block x src (length xs)"
  shows "\<exists>m'. strzcat_loop dst src n m = Some m' \<and>
    cstr m' dst (if n = 0 \<or> length xs < unat n then xs else take (unat n - 1) xs) \<and>
    (\<forall>x. \<not> unat (x - dst) \<le> length xs \<longrightarrow> m' x = m x)"
  using assms
proof (induction xs arbitrary: dst src n m)
  case Nil
  then show ?case by (subst strzcat_loop.simps) (auto simp: unat_gt_0)
next
  case (Cons c cs)
  let ?m = "m(dst := m src)"
  have nd: "x \<noteq> dst" if "str_block x src (length (c # cs))" for x using Cons.prems(2) [of x] that by auto
  have c: "c \<noteq> 0" "m src = c" "cstr m (src + 1) cs" using Cons.prems(1) by auto
  have sub: "str_block x src (length (c # cs))" if "str_block x (src + 1) (length cs)" for x
    using that block_Suc [of x src "Suc (length cs)"] by (simp add: str_block_def less_Suc_eq_le)
  have c1: "cstr ?m (src + 1) cs"
  proof -
    have "cstr ?m (src + 1) cs = cstr m (src + 1) cs"
      by (rule cstr_cong) (use nd sub in \<open>auto simp: str_block_def\<close>)
    with c(3) show ?thesis by simp
  qed
  have dblock: "unat (x - dst) \<le> length (c # cs)" if "unat (x - (dst + 1)) \<le> length cs" for x
    using that block_Suc [of x dst "Suc (length cs)"] by (simp add: less_Suc_eq_le)
  have sep: "\<not> str_block x (src + 1) (length cs)" if "unat (x - (dst + 1)) \<le> length cs" for x
    using Cons.prems(2) [OF dblock [OF that]] sub [of x] by blast
  have u: "n - 1 = 0 \<longleftrightarrow> n = 1" by auto
  show ?case
  proof (cases "n = 1")
    case True
    with c show ?thesis by (subst strzcat_loop.simps) auto
  next
    case False
    obtain m' where m': "strzcat_loop (dst + 1) (src + 1) (n - 1) ?m = Some m'"
        "cstr m' (dst + 1) (if n - 1 = 0 \<or> length cs < unat (n - 1) then cs else take (unat (n - 1) - 1) cs)"
        "\<forall>x. \<not> unat (x - (dst + 1)) \<le> length cs \<longrightarrow> m' x = ?m x"
      using Cons.IH [OF c1 sep] by blast
    have run: "strzcat_loop dst src n m = Some m'"
      using m'(1) c False by (subst strzcat_loop.simps) (simp add: Let_def)
    have frame: "\<forall>x. \<not> unat (x - dst) \<le> length (c # cs) \<longrightarrow> m' x = m x"
    proof (intro allI impI)
      fix x
      assume x: "\<not> unat (x - dst) \<le> length (c # cs)"
      then have "x \<noteq> dst" and "\<not> unat (x - (dst + 1)) \<le> length cs" using dblock [of x] by auto
      with m'(3) show "m' x = m x" by simp
    qed
    have big: "length cs < 2 ^ 32 - 1"
    proof (rule ccontr)
      assume "\<not> length cs < 2 ^ 32 - 1"
      then have "unat (src - dst) \<le> length (c # cs)"
        using unsigned_less [of "src - dst", where 'a = nat] by simp
      with Cons.prems(2) [of src] show False by (simp add: str_block_def)
    qed
    have d: "m' dst = c"
    proof -
      have "unat (dst - (dst + 1)) = 2 ^ 32 - 1"
        by (simp add: unsigned_minus_1_eq_mask mask_eq_exp_minus_1)
      then have "\<not> unat (dst - (dst + 1)) \<le> length cs" using big by simp
      with m'(3) c show ?thesis by simp
    qed
    show ?thesis
    proof (cases "n = 0")
      case True
      have "unat (n - 1) = 2 ^ 32 - 1"
        using True by (simp add: unsigned_minus_1_eq_mask mask_eq_exp_minus_1)
      with m'(2) big have "cstr m' (dst + 1) cs" by simp
      with run frame d c True show ?thesis by auto
    next
      case nz: False
      have un: "unat (n - 1) = unat n - 1" using nz by (rule unat_minus_one)
      have n2: "2 \<le> unat n" using False nz by (metis One_nat_def Suc_1 Suc_leI le_neq_implies_less unat_1 unat_gt_0 word_unat_eq_iff)
      then obtain k where k: "unat n = Suc (Suc k)" by (metis Suc_1 Suc_le_D add_2_eq_Suc le_Suc_ex)
      have "n - 1 \<noteq> 0" using False by simp
      with m'(2) have "cstr m' (dst + 1) (if length cs < Suc k then cs else take k cs)"
        unfolding un k by (simp split: if_splits)
      with run frame d c nz k show ?thesis by (auto split: if_splits)
    qed
  qed
qed

lemma cstr_append:
  "cstr m s ds \<Longrightarrow> cstr m (s + word_of_nat (length ds)) [] \<and>
   (\<forall>m'. (\<forall>x. unat (x - s) < length ds \<longrightarrow> m' x = m x) \<longrightarrow> cstr m' (s + word_of_nat (length ds)) xs \<longrightarrow>
      cstr m' s (ds @ xs))"
proof (induction ds arbitrary: s)
  case (Cons d ds)
  have e: "s + word_of_nat (length (d # ds)) = s + 1 + word_of_nat (length ds)" by (simp add: add.assoc)
  have IH: "cstr m (s + 1 + word_of_nat (length ds)) []"
    "\<forall>m'. (\<forall>x. unat (x - (s + 1)) < length ds \<longrightarrow> m' x = m x) \<longrightarrow>
        cstr m' (s + 1 + word_of_nat (length ds)) xs \<longrightarrow> cstr m' (s + 1) (ds @ xs)"
    using Cons by auto
  have "unat (x - (s + 1)) < length ds \<Longrightarrow> unat (x - s) < length (d # ds)" for x
    using block_Suc [of x s "length ds"] by simp
  with IH Cons.prems show ?case unfolding e by auto
qed simp

section \<open>Accesses of 16 and 32 bits\<close>

lemma ucast_bytes32:
  "(ucast (ucast v :: u8) :: u32) OR push_bit 8 (ucast (ucast (drop_bit 8 v) :: u8)) OR
   push_bit 16 (ucast (ucast (drop_bit 16 v) :: u8)) OR push_bit 24 (ucast (ucast (drop_bit 24 v) :: u8)) = v"
proof (rule bit_word_eqI)
  fix n :: nat
  assume n: "n < LENGTH(32)"
  consider "n < 8" | "8 \<le> n" "n < 16" | "16 \<le> n" "n < 24" | "24 \<le> n" by linarith
  then show "bit ((ucast (ucast v :: u8) :: u32) OR push_bit 8 (ucast (ucast (drop_bit 8 v) :: u8)) OR
      push_bit 16 (ucast (ucast (drop_bit 16 v) :: u8)) OR push_bit 24 (ucast (ucast (drop_bit 24 v) :: u8))) n = bit v n"
    by cases (use n in \<open>auto simp: bit_simps\<close>)
qed

lemma ucast_bytes16:
  "(ucast (ucast v :: u8) :: u16) OR push_bit 8 (ucast (ucast (drop_bit 8 v) :: u8)) = v"
  by (rule bit_word_eqI) (auto simp: bit_simps)

lemma addr_distinct [simp]:
  "a \<noteq> a + 1" "a \<noteq> a + 2" "a \<noteq> a + 3" "a + 1 \<noteq> a" "a + 2 \<noteq> a" "a + 3 \<noteq> a"
  "a + 1 \<noteq> a + 2" "a + 2 \<noteq> a + 1" "a + 1 \<noteq> a + 3" "a + 3 \<noteq> a + 1" "a + 2 \<noteq> a + 3" "a + 3 \<noteq> a + 2"
  for a :: u32
  by simp_all

lemma load32_store32 [simp]: "load32 (store32 a v m) a = v"
  using ucast_bytes32 [of v] by (simp add: load32_def store32_def)

lemma load16_store16 [simp]: "load16 (store16 a v m) a = v"
  using ucast_bytes16 [of v] by (simp add: load16_def store16_def)

lemma store32_other: "\<not> unat (x - a) < 4 \<Longrightarrow> store32 a v m x = m x"
  by (auto simp: store32_def)

lemma store16_other: "\<not> unat (x - a) < 2 \<Longrightarrow> store16 a v m x = m x"
  by (auto simp: store16_def)

lemma load32_cong: "(\<And>i. i < 4 \<Longrightarrow> m' (a + word_of_nat i) = m (a + word_of_nat i)) \<Longrightarrow> load32 m' a = load32 m a"
proof -
  assume h: "\<And>i. i < 4 \<Longrightarrow> m' (a + word_of_nat i) = m (a + word_of_nat i)"
  from h [of 0] h [of 1] h [of 2] h [of 3] show ?thesis by (simp add: load32_def)
qed

lemma near_apart:
  fixes a b :: u32
  assumes "4 \<le> a - b" and "4 \<le> b - a" and "i < 4" and "j < 4"
  shows "a + word_of_nat i \<noteq> b + word_of_nat j"
proof
  assume "a + word_of_nat i = b + word_of_nat j"
  then have e: "a - b = word_of_nat j - word_of_nat i" "b - a = word_of_nat i - word_of_nat j"
    by (simp_all add: algebra_simps)
  have "\<not> 4 \<le> (word_of_nat j - word_of_nat i :: u32) \<or> \<not> 4 \<le> (word_of_nat i - word_of_nat j :: u32)"
  proof (cases "i \<le> j")
    case True
    then have "(word_of_nat j - word_of_nat i :: u32) = word_of_nat (j - i)" by simp
    moreover have "unat (word_of_nat (j - i) :: u32) < 4"
      using assms(4) by (subst unat_of_nat_small) simp_all
    ultimately show ?thesis by (simp add: word_le_nat_alt)
  next
    case False
    then have "(word_of_nat i - word_of_nat j :: u32) = word_of_nat (i - j)" by simp
    moreover have "unat (word_of_nat (i - j) :: u32) < 4"
      using assms(3) by (subst unat_of_nat_small) simp_all
    ultimately show ?thesis by (simp add: word_le_nat_alt)
  qed
  with e assms(1,2) show False by simp
qed

lemma near_apart_byte:
  fixes a b k :: u32
  assumes "4 \<le> a - b" and "4 \<le> b - a" and "i < 4"
  shows "\<not> unat (k + a + word_of_nat i - (k + b)) < 4"
proof
  assume l: "unat (k + a + word_of_nat i - (k + b)) < 4"
  have "b + word_of_nat (unat (k + a + word_of_nat i - (k + b))) = a + word_of_nat i" by simp
  with near_apart [OF assms l] show False by metis
qed

lemma load16_cong: "m' a = m a \<Longrightarrow> m' (a + 1) = m (a + 1) \<Longrightarrow> load16 m' a = load16 m a"
  by (simp add: load16_def)

lemma access_apart [simp]:
  fixes a b k :: u32
  assumes "4 \<le> a - b" and "4 \<le> b - a"
  shows "load32 (store32 (k + b) v m) (k + a) = load32 m (k + a)"
    and "load32 (store16 (k + b) w m) (k + a) = load32 m (k + a)"
    and "load16 (store32 (k + b) v m) (k + a) = load16 m (k + a)"
    and "load16 (store16 (k + b) w m) (k + a) = load16 m (k + a)"
proof -
  note far = near_apart_byte [OF assms, of _ k]
  have s: "store32 (k + b) v m (k + a + word_of_nat i) = m (k + a + word_of_nat i)"
      "store16 (k + b) w m (k + a + word_of_nat i) = m (k + a + word_of_nat i)" if "i < 4" for i v w m
    using store32_other [OF far [OF that]] store16_other [of "k + a + word_of_nat i" "k + b"] far [OF that] by simp_all
  show "load32 (store32 (k + b) v m) (k + a) = load32 m (k + a)"
      "load32 (store16 (k + b) w m) (k + a) = load32 m (k + a)"
    by (auto intro: load32_cong s)
  show "load16 (store32 (k + b) v m) (k + a) = load16 m (k + a)"
      "load16 (store16 (k + b) w m) (k + a) = load16 m (k + a)"
    using s [of 0] s [of 1] by (auto intro: load16_cong)
qed

lemma access_apart16 [simp]:
  fixes a b k :: u32
  assumes "2 \<le> a - b" and "2 \<le> b - a"
  shows "load16 (store16 (k + b) w m) (k + a) = load16 m (k + a)"
proof -
  have "a \<noteq> b" "a \<noteq> b + 1" "a + 1 \<noteq> b" using assms by (auto simp: word_le_nat_alt)
  then show ?thesis by (simp add: load16_def store16_def add.assoc)
qed

section \<open>Properties\<close>

text \<open>
  A memory with the string ''ab'' at address 100 and ''ac'' at 200, zero elsewhere except the
  bytes 5 at 300 and 301.
\<close>

definition mem_example :: mem where
  "mem_example = (\<lambda>_. 0)(100 := 97, 101 := 98, 200 := 97, 201 := 99, 300 := 5, 301 := 5)"

text \<open>
  memset fills exactly its block, memcpy copies a block to a disjoint one (or to one that
  overlaps it from below) and writes nothing else, and memcmp is the lexicographic comparison of
  two blocks as unsigned bytes, zero exactly when they are equal.
\<close>

theorem memory_routines:
  fixes n :: u32
  shows "snd (memset dst c n m) x = (if in_block x dst n then ucast c else m x) \<and>
         (dst - src = 0 \<or> n \<le> dst - src \<longrightarrow>
           snd (memcpy dst src n m) x = (if in_block x dst n then m (src + (x - dst)) else m x)) \<and>
         (memcmp s1 s2 n m = 0 \<longleftrightarrow> (\<forall>i < unat n. m (s1 + word_of_nat i) = m (s2 + word_of_nat i))) \<and>
         (memcmp s1 s2 n m < 0 \<longleftrightarrow> (\<exists>i < unat n. m (s1 + word_of_nat i) < m (s2 + word_of_nat i) \<and>
            (\<forall>j < i. m (s1 + word_of_nat j) = m (s2 + word_of_nat j))))"
  using memcpy_loop_eq [of dst src "unat n" m x] memcmp_loop_eq [of "unat n" s1 s2 m]
  by (auto simp: memset_def memcpy_def memcmp_def memset_loop_eq in_block_def word_less_nat_alt
      word_le_nat_alt unat_eq_0)

theorem memory_routines_witness:
  "snd (memcpy 400 100 3 mem_example) 401 = 98 \<and> snd (memcpy 400 100 3 mem_example) 403 = 0"
  using memory_routines [of 400 0 3 mem_example 401 100] memory_routines [of 400 0 3 mem_example 403 100]
  by (simp add: in_block_def mem_example_def)

text \<open>
  strzcpy into a buffer that does not overlap the source always terminates the copy: the
  destination holds the first len - 1 characters of the source, all of it when it is shorter, and
  no byte outside the len bytes of the buffer is written; a length that is not positive writes
  nothing.
\<close>

theorem strzcpy_terminated:
  assumes "cstr m src xs" and "len < 2 ^ 31"
    and sep: "\<And>x. unat (x - dst) < nat len \<Longrightarrow> \<not> str_block x src (length xs)"
  shows "\<exists>m'. strzcpy dst src len m = (dst, m') \<and>
     (if len \<le> 0 then m' = m else cstr m' dst (take (nat len - 1) xs)) \<and>
     (\<forall>x. \<not> unat (x - dst) < nat len \<longrightarrow> m' x = m x)"
proof (cases "len \<le> 0")
  case True
  then show ?thesis by (simp add: strzcpy_def)
next
  case False
  with strzcpy_eq [OF assms(1) _ assms(2) sep] show ?thesis by simp
qed

theorem strzcpy_terminated_witness:
  "\<exists>m'. strzcpy 400 100 2 mem_example = (400, m') \<and> cstr m' 400 [97] \<and> m' 402 = 0"
proof -
  have c: "cstr mem_example 100 [97, 98]" by (simp add: mem_example_def)
  have "unat (x - 400) < nat 2 \<Longrightarrow> \<not> str_block x 100 (length [97, 98 :: u8])" for x :: u32
  proof -
    assume "unat (x - 400) < nat 2"
    then have "unat (x - 400) = 0 \<or> unat (x - 400) = 1" by auto
    then have "x - 400 = 0 \<or> x - 400 = 1" by (metis unat_0 unat_1 word_unat_eq_iff)
    then have "x = 400 \<or> x = 401" by (auto simp: algebra_simps)
    then show ?thesis by (auto simp: str_block_def)
  qed
  from strzcpy_terminated [where len = 2 and dst = 400, OF c _ this] show ?thesis by (auto simp: mem_example_def)
qed

text \<open>
  strzcat appends to the destination at most n - 1 characters of the source and a terminator
  (so the total length may well exceed n), and with n = 0 the unsigned counter wraps and the whole
  source is appended.
\<close>

theorem strzcat_appends:
  assumes "cstr m dest ds" and "cstr m src xs" and fits: "length ds + length xs < 2 ^ 32"
    and sep: "\<And>x. unat (x - dest) \<le> length ds + length xs \<Longrightarrow> \<not> str_block x src (length xs)"
  shows "\<exists>m'. strzcat dest src n m = Some (dest, m') \<and>
     cstr m' dest (ds @ (if n = 0 \<or> length xs < unat n then xs else take (unat n - 1) xs))"
proof -
  let ?e = "dest + word_of_nat (length ds)"
  have off: "unat (x - dest) = length ds + unat (x - ?e)" if "unat (x - ?e) \<le> length xs" for x
  proof -
    have e: "x - dest = word_of_nat (length ds) + (x - ?e)" by simp
    have u: "unat (word_of_nat (length ds) :: u32) = length ds"
      using fits by (intro unat_of_nat_small) simp
    show ?thesis unfolding e using that fits u by (subst unat_add_small) simp_all
  qed
  have "\<not> str_block x src (length xs)" if "unat (x - ?e) \<le> length xs" for x
    using sep [of x] off [OF that] that by simp
  from strzcat_loop_eq [OF assms(2) this] obtain m' where m': "strzcat_loop ?e src n m = Some m'"
      "cstr m' ?e (if n = 0 \<or> length xs < unat n then xs else take (unat n - 1) xs)"
      "\<forall>x. \<not> unat (x - ?e) \<le> length xs \<longrightarrow> m' x = m x"
    by blast
  have "m' x = m x" if "unat (x - dest) < length ds" for x
    using m'(3) off [of x] that by auto
  with m'(2) have "cstr m' dest (ds @ (if n = 0 \<or> length xs < unat n then xs else take (unat n - 1) xs))"
    using cstr_append [OF assms(1)] by blast
  with m'(1) show ?thesis by (simp add: strzcat_def str_end_eq [OF assms(1)])
qed

theorem strzcat_appends_witness:
  "\<exists>m'. strzcat 200 100 2 mem_example = Some (200, m') \<and> cstr m' 200 [97, 99, 97]"
proof -
  have c: "cstr mem_example 100 [97, 98]" "cstr mem_example 200 [97, 99]" by (simp_all add: mem_example_def)
  have "\<not> str_block x 100 (length [97, 98 :: u8])" if "unat (x - 200) \<le> length [97, 99 :: u8] + length [97, 98 :: u8]" for x :: u32
  proof
    assume "str_block x 100 (length [97, 98 :: u8])"
    then have "unat (x - 100) \<le> 2" by (simp add: str_block_def)
    moreover have e: "x - 100 = (x - 200) + 100" by simp
    have "unat (x - 100) = unat (x - 200) + 100"
      unfolding e using that by (subst unat_add_small) simp_all
    ultimately show False by simp
  qed
  from strzcat_appends [OF c(2,1) _ this, of 2] show ?thesis by auto
qed

text \<open>
  strcmp returns for any two strings, zero exactly when they are equal and negative exactly
  when the first is smaller in the lexicographic order of unsigned bytes; strncmp is zero exactly
  when the first n characters agree, but orders bytes as signed characters.
\<close>

theorem string_comparison:
  assumes "cstr m s1 xs" and "cstr m s2 ys"
  shows "(\<exists>r. strcmp s1 s2 m = Some r \<and> (r = 0 \<longleftrightarrow> xs = ys) \<and> (r < 0 \<longleftrightarrow> xs < ys)) \<and>
         (strncmp s1 s2 len m = 0 \<longleftrightarrow> take (nat len) xs = take (nat len) ys) \<and>
         (xs \<noteq> [] \<and> ys \<noteq> [] \<and> hd xs \<noteq> hd ys \<and> 0 < len \<longrightarrow> strncmp s1 s2 len m = sint (hd xs) - sint (hd ys))"
proof (intro conjI impI)
  show "\<exists>r. strcmp s1 s2 m = Some r \<and> (r = 0 \<longleftrightarrow> xs = ys) \<and> (r < 0 \<longleftrightarrow> xs < ys)"
    by (rule strcmp_eq [OF assms])
  show "strncmp s1 s2 len m = 0 \<longleftrightarrow> take (nat len) xs = take (nat len) ys"
    unfolding strncmp_def by (rule strncmp_loop_zero [OF assms refl])
next
  assume h: "xs \<noteq> [] \<and> ys \<noteq> [] \<and> hd xs \<noteq> hd ys \<and> 0 < len"
  then have "nat len = Suc (nat len - 1)" by simp
  then obtain n where n: "nat len = Suc n" ..
  have "m s1 = hd xs" using assms(1) h by (cases xs) auto
  moreover have "m s2 = hd ys" using assms(2) h by (cases ys) auto
  ultimately show "strncmp s1 s2 len m = sint (hd xs) - sint (hd ys)"
    using h unfolding strncmp_def n by (simp add: Let_def)
qed

theorem string_comparison_witness:
  "\<exists>r. strcmp 100 200 mem_example = Some r \<and> r < 0 \<and> strncmp 100 200 1 mem_example = 0"
proof -
  have "cstr mem_example 100 [97, 98]" "cstr mem_example 200 [97, 99]" by (simp_all add: mem_example_def)
  from string_comparison [OF this, of 1] show ?thesis by auto
qed

lemma random_zero_fixed: "random 0 = (0, 0)"
  by (simp add: random_def random_q_def)

end
