(* ===== verification/Cpu_context.thy ===== *)
theory Cpu_context
  imports Klibc
begin

text \<open>
  CPU contexts (\<^verbatim>\<open>hwcore/cpu_context.c\<close>, \<^verbatim>\<open>hwcore/cpu_context_switch.S\<close>): a saved
  context is a block of 56 bytes at the top of the stack of its thread, its address is the saved
  stack pointer. The routines work on the bytes of memory. The addresses of functions are
  parameters, as is the register \<^verbatim>\<open>cr2\<close>.
\<close>

section \<open>Layout of a saved context\<close>

named_theorems ctxt_layout \<open>offsets of the fields of a saved context\<close>

text \<open>\<^verbatim>\<open>struct sos_cpu_state\<close> is packed: the offset of each field, and the size of the whole.\<close>

definition off_gs :: u32 where [ctxt_layout]: "off_gs = 0"
definition off_fs :: u32 where [ctxt_layout]: "off_fs = 2"
definition off_es :: u32 where [ctxt_layout]: "off_es = 4"
definition off_ds :: u32 where [ctxt_layout]: "off_ds = 6"
definition off_cpl0_ss :: u32 where [ctxt_layout]: "off_cpl0_ss = 8"
definition off_eax :: u32 where [ctxt_layout]: "off_eax = 12"
definition off_ebx :: u32 where [ctxt_layout]: "off_ebx = 16"
definition off_ecx :: u32 where [ctxt_layout]: "off_ecx = 20"
definition off_edx :: u32 where [ctxt_layout]: "off_edx = 24"
definition off_esi :: u32 where [ctxt_layout]: "off_esi = 28"
definition off_edi :: u32 where [ctxt_layout]: "off_edi = 32"
definition off_ebp :: u32 where [ctxt_layout]: "off_ebp = 36"
definition off_error_code :: u32 where [ctxt_layout]: "off_error_code = 40"
definition off_eip :: u32 where [ctxt_layout]: "off_eip = 44"
definition off_cs :: u32 where [ctxt_layout]: "off_cs = 48"
definition off_eflags :: u32 where [ctxt_layout]: "off_eflags = 52"

definition sizeof_cpu_kstate :: u32 where [ctxt_layout]: "sizeof_cpu_kstate = 56"

definition GET_CPU_CS_REGISTER_VALUE :: "u32 \<Rightarrow> u32" where
  "GET_CPU_CS_REGISTER_VALUE pushed_ui32_cs_value = pushed_ui32_cs_value AND 0xffff"

definition SOS_SEG_NULL :: u32 where "SOS_SEG_NULL = 0"
definition SOS_SEG_KCODE :: u32 where "SOS_SEG_KCODE = 1"
definition SOS_SEG_KDATA :: u32 where "SOS_SEG_KDATA = 2"

definition SOS_BUILD_SEGMENT_REG_VALUE :: "u32 \<Rightarrow> bool \<Rightarrow> u32 \<Rightarrow> u32" where
  "SOS_BUILD_SEGMENT_REG_VALUE desc_privilege in_ldt seg_index =
     (desc_privilege AND 3) OR push_bit 2 (if in_ldt then 1 else 0) OR push_bit 3 seg_index"

definition SOS_CPU_STATE_STACK_POISON :: u32 where
  "SOS_CPU_STATE_STACK_POISON = 0xa5"

definition SOS_CPU_STATE_DETECT_KERNEL_STACK_OVERFLOW :: u32 where
  "SOS_CPU_STATE_DETECT_KERNEL_STACK_OVERFLOW = 64"

section \<open>The initial context of a kernel thread\<close>

definition sos_cpu_kstate_init ::
    "u32 \<Rightarrow> u32 \<Rightarrow> u32 \<Rightarrow> sos_vaddr_t \<Rightarrow> sos_size_t \<Rightarrow> u32 \<Rightarrow> u32 \<Rightarrow> mem \<Rightarrow> sos_ret_t \<times> u32 \<times> mem" where
  "sos_cpu_kstate_init core_routine start_func start_arg stack_bottom stack_size exit_func exit_arg m =
     (let tmp_vaddr = stack_bottom + stack_size;
          m = snd (memset stack_bottom SOS_CPU_STATE_STACK_POISON stack_size m);
          stack = tmp_vaddr;
          stack = stack - 4; m = store32 stack exit_arg m;
          stack = stack - 4; m = store32 stack exit_func m;
          stack = stack - 4; m = store32 stack start_arg m;
          stack = stack - 4; m = store32 stack start_func m;
          stack = stack - 4; m = store32 stack 0 m;
          kctxt = stack - sizeof_cpu_kstate;
          m = snd (memset kctxt 0 sizeof_cpu_kstate m);
          m = store32 (kctxt + off_eip) core_routine m;
          m = store32 (kctxt + off_cs) (SOS_BUILD_SEGMENT_REG_VALUE 0 False SOS_SEG_KCODE) m;
          m = store16 (kctxt + off_ds) (ucast (SOS_BUILD_SEGMENT_REG_VALUE 0 False SOS_SEG_KDATA)) m;
          m = store16 (kctxt + off_es) (ucast (SOS_BUILD_SEGMENT_REG_VALUE 0 False SOS_SEG_KDATA)) m;
          m = store16 (kctxt + off_cpl0_ss) (ucast (SOS_BUILD_SEGMENT_REG_VALUE 0 False SOS_SEG_KDATA)) m;
          m = store32 (kctxt + off_eflags) (push_bit 9 1) m
      in (SOS_OK, kctxt, m))"

text \<open>
  The body of a kernel thread. Its functions change the state or do not return; if the exit function returns the assertion halts the machine, so
  there is no result.
\<close>

definition core_routine_body :: "(u32 \<Rightarrow> 's \<Rightarrow> 's option) \<Rightarrow> u32 \<Rightarrow> (u32 \<Rightarrow> 's \<Rightarrow> 's option) \<Rightarrow> u32 \<Rightarrow> 's \<Rightarrow> 's option" where
  "core_routine_body start_func start_arg exit_func exit_arg s = do {
     s \<leftarrow> start_func start_arg s;
     s \<leftarrow> exit_func exit_arg s;
     sos_assert_fatal False;
     Some s }"

section \<open>Detection of stack overflows\<close>

definition sos_cpu_state_prepare_detect_kernel_stack_overflow ::
    "sos_vaddr_t \<Rightarrow> sos_size_t \<Rightarrow> mem \<Rightarrow> mem" where
  "sos_cpu_state_prepare_detect_kernel_stack_overflow stack_bottom stack_size m =
     (let poison_size = SOS_CPU_STATE_DETECT_KERNEL_STACK_OVERFLOW;
          poison_size = (if poison_size > stack_size then stack_size else poison_size)
      in snd (memset stack_bottom SOS_CPU_STATE_STACK_POISON poison_size m))"

fun poison_intact :: "nat \<Rightarrow> u32 \<Rightarrow> mem \<Rightarrow> unit option" where
  "poison_intact 0 c m = Some ()"
| "poison_intact (Suc n) c m = do {
     sos_assert_fatal (m c = ucast SOS_CPU_STATE_STACK_POISON);
     poison_intact n (c + 1) m }"

definition sos_cpu_state_detect_kernel_stack_overflow ::
    "u32 \<Rightarrow> sos_vaddr_t \<Rightarrow> sos_size_t \<Rightarrow> mem \<Rightarrow> unit option" where
  "sos_cpu_state_detect_kernel_stack_overflow ctxt stack_bottom stack_size m = do {
     sos_assert_fatal (ctxt \<ge> stack_bottom);
     sos_assert_fatal (ctxt + sizeof_cpu_kstate \<le> stack_bottom + stack_size);
     poison_intact (unat (min SOS_CPU_STATE_DETECT_KERNEL_STACK_OVERFLOW stack_size)) stack_bottom m }"

section \<open>Accessors\<close>

text \<open>A context address of 0 is the null pointer.\<close>

definition sos_cpu_context_get_PC :: "u32 \<Rightarrow> mem \<Rightarrow> sos_vaddr_t option" where
  "sos_cpu_context_get_PC ctxt m = do {
     sos_assert_fatal (ctxt \<noteq> 0);
     Some (load32 m (ctxt + off_eip)) }"

definition sos_cpu_context_get_SP :: "u32 \<Rightarrow> mem \<Rightarrow> sos_vaddr_t option" where
  "sos_cpu_context_get_SP ctxt m = do {
     sos_assert_fatal (ctxt \<noteq> 0);
     Some ctxt }"

definition sos_cpu_context_get_EX_info :: "u32 \<Rightarrow> mem \<Rightarrow> u32 option" where
  "sos_cpu_context_get_EX_info ctxt m = do {
     sos_assert_fatal (ctxt \<noteq> 0);
     Some (load32 m (ctxt + off_error_code)) }"

definition sos_cpu_context_get_EX_faulting_vaddr :: "u32 \<Rightarrow> u32 \<Rightarrow> sos_vaddr_t" where
  "sos_cpu_context_get_EX_faulting_vaddr cr2 ctxt = cr2"

section \<open>Backtraces\<close>

text \<open>
  The calls made to the callback, in order: program counter, address of the parameters, depth.
  \<open>ret_addr\<close> and \<open>frame\<close> are the values of the compiler builtins used when no context is given.
\<close>

fun backtrace_loop :: "nat \<Rightarrow> nat \<Rightarrow> u32 \<Rightarrow> u32 \<Rightarrow> sos_vaddr_t \<Rightarrow> sos_size_t \<Rightarrow> mem
    \<Rightarrow> (u32 \<times> u32 \<times> nat) list \<Rightarrow> nat \<times> (u32 \<times> u32 \<times> nat) list" where
  "backtrace_loop 0 depth callee_PC caller_frame stack_bottom stack_size m calls = (depth, calls)"
| "backtrace_loop (Suc n) depth callee_PC caller_frame stack_bottom stack_size m calls =
     (let calls = calls @ [(callee_PC, caller_frame + 8, depth)]
      in if caller_frame < stack_bottom \<or> caller_frame + 4 \<ge> stack_bottom + stack_size
         then (depth, calls)
         else backtrace_loop n (Suc depth) (load32 m (caller_frame + 4)) (load32 m caller_frame)
                stack_bottom stack_size m calls)"

definition sos_backtrace :: "u32 option \<Rightarrow> u32 \<Rightarrow> u32 \<Rightarrow> u32 \<Rightarrow> sos_vaddr_t \<Rightarrow> sos_size_t \<Rightarrow> mem
    \<Rightarrow> nat \<times> (u32 \<times> u32 \<times> nat) list" where
  "sos_backtrace cpu_state ret_addr frame max_depth stack_bottom stack_size m =
     (let (callee_PC, caller_frame) =
            (case cpu_state of
               Some c \<Rightarrow> (load32 m (c + off_eip), load32 m (c + off_ebp))
             | None \<Rightarrow> (ret_addr, frame))
      in backtrace_loop (unat max_depth) 0 callee_PC caller_frame stack_bottom stack_size m [])"

section \<open>Context switches\<close>

record cpu_regs =
  r_gs :: u16
  r_fs :: u16
  r_es :: u16
  r_ds :: u16
  r_ss :: u16
  r_eax :: u32
  r_ebx :: u32
  r_ecx :: u32
  r_edx :: u32
  r_esi :: u32
  r_edi :: u32
  r_ebp :: u32
  r_eip :: u32
  r_cs :: u32
  r_eflags :: u32
  r_esp :: u32

text \<open>The pushes of \<^verbatim>\<open>sos_cpu_context_switch\<close> and the pops that end it.\<close>

definition save_context :: "u32 \<Rightarrow> cpu_regs \<Rightarrow> mem \<Rightarrow> u32 \<times> mem" where
  "save_context resume_pc r m =
     (let esp = r_esp r;
          esp = esp - 4; m = store32 esp (r_eflags r) m;
          esp = esp - 4; m = store32 esp (r_cs r) m;
          esp = esp - 4; m = store32 esp resume_pc m;
          esp = esp - 4; m = store32 esp 0 m;
          esp = esp - 4; m = store32 esp (r_ebp r) m;
          esp = esp - 4; m = store32 esp (r_edi r) m;
          esp = esp - 4; m = store32 esp (r_esi r) m;
          esp = esp - 4; m = store32 esp (r_edx r) m;
          esp = esp - 4; m = store32 esp (r_ecx r) m;
          esp = esp - 4; m = store32 esp (r_ebx r) m;
          esp = esp - 4; m = store32 esp (r_eax r) m;
          esp = esp - 2;
          esp = esp - 2; m = store16 esp (r_ss r) m;
          esp = esp - 2; m = store16 esp (r_ds r) m;
          esp = esp - 2; m = store16 esp (r_es r) m;
          esp = esp - 2; m = store16 esp (r_fs r) m;
          esp = esp - 2; m = store16 esp (r_gs r) m
      in (esp, m))"

definition restore_context :: "u32 \<Rightarrow> mem \<Rightarrow> cpu_regs" where
  "restore_context esp m =
     \<lparr>r_gs = load16 m (esp + off_gs), r_fs = load16 m (esp + off_fs), r_es = load16 m (esp + off_es),
      r_ds = load16 m (esp + off_ds), r_ss = load16 m (esp + off_cpl0_ss),
      r_eax = load32 m (esp + off_eax), r_ebx = load32 m (esp + off_ebx),
      r_ecx = load32 m (esp + off_ecx), r_edx = load32 m (esp + off_edx),
      r_esi = load32 m (esp + off_esi), r_edi = load32 m (esp + off_edi),
      r_ebp = load32 m (esp + off_ebp), r_eip = load32 m (esp + off_eip),
      r_cs = load32 m (esp + off_cs), r_eflags = load32 m (esp + off_eflags),
      r_esp = esp + sizeof_cpu_kstate\<rparr>"

text \<open>
  At the entry of the switch the stack holds the return address and the two arguments:
  the address where the saved stack pointer goes, and the context to restore.
\<close>

definition sos_cpu_context_switch :: "u32 \<Rightarrow> cpu_regs \<Rightarrow> mem \<Rightarrow> cpu_regs \<times> mem" where
  "sos_cpu_context_switch resume_pc r m =
     (let (esp, m) = save_context resume_pc r m;
          ebx = load32 m (esp + 60);
          m = store32 ebx esp m;
          esp = load32 m (esp + 64)
      in (restore_context esp m, m))"

definition sos_cpu_context_exit_to :: "(u32 \<Rightarrow> mem \<Rightarrow> mem) \<Rightarrow> cpu_regs \<Rightarrow> mem \<Rightarrow> cpu_regs \<times> mem" where
  "sos_cpu_context_exit_to reclaiming_func r m =
     (let eax = r_esp r;
          esp = load32 m (eax + 4);
          m' = store32 (esp - 4) (load32 m (eax + 12)) m;
          m' = reclaiming_func (load32 m (eax + 12)) m'
      in (restore_context esp m', m'))"

section \<open>The layout of the initial stack\<close>

lemmas store_defs = store32_def store16_def

lemma memset_at: "snd (memset d c n m) x = (if x - d < n then ucast c else m x)"
  by (simp add: memset_def memset_loop_eq word_less_nat_alt)

lemma load32_off: "load32 m (k + a) = ucast (m (k + a)) OR push_bit 8 (ucast (m (k + (a + 1)))) OR
     push_bit 16 (ucast (m (k + (a + 2)))) OR push_bit 24 (ucast (m (k + (a + 3))))"
  by (simp add: load32_def add.assoc)

lemma load16_off: "load16 m (k + a) = ucast (m (k + a)) OR push_bit 8 (ucast (m (k + (a + 1))))"
  by (simp add: load16_def add.assoc)

lemma kstate_init_layout:
  assumes "stack_bottom + stack_size = k + 76"
  shows "\<exists>m'. sos_cpu_kstate_init core start_func start_arg stack_bottom stack_size exit_func exit_arg m = (SOS_OK, k, m') \<and>
    load32 m' (k + 44) = core \<and> load32 m' (k + 48) = 8 \<and> load32 m' (k + 52) = 512 \<and>
    load16 m' (k + 6) = 16 \<and> load16 m' (k + 4) = 16 \<and> load16 m' (k + 8) = 16 \<and>
    load32 m' (k + 56) = 0 \<and> load32 m' (k + 60) = start_func \<and> load32 m' (k + 64) = start_arg \<and>
    load32 m' (k + 68) = exit_func \<and> load32 m' (k + 72) = exit_arg \<and>
    (\<forall>x. \<not> x - k < 76 \<longrightarrow> m' x = snd (memset stack_bottom SOS_CPU_STATE_STACK_POISON stack_size m) x)"
proof -
  define m0 where "m0 = snd (memset stack_bottom SOS_CPU_STATE_STACK_POISON stack_size m)"
  define m1 where "m1 = snd (memset k 0 56 (store32 (k + 56) 0 (store32 (k + 60) start_func
    (store32 (k + 64) start_arg (store32 (k + 68) exit_func (store32 (k + 72) exit_arg m0))))))"
  define m2 where "m2 = store32 (k + 52) 512 (store16 (k + 8) 16 (store16 (k + 4) 16 (store16 (k + 6) 16
    (store32 (k + 48) 8 (store32 (k + 44) core m1)))))"
  have run: "sos_cpu_kstate_init core start_func start_arg stack_bottom stack_size exit_func exit_arg m = (SOS_OK, k, m2)"
    unfolding sos_cpu_kstate_init_def m2_def m1_def m0_def
    by (simp add: assms Let_def ctxt_layout SOS_BUILD_SEGMENT_REG_VALUE_def SOS_SEG_KCODE_def SOS_SEG_KDATA_def
        push_bit_eq_mult add.commute [of _ k])
  have m1: "m1 x = (if x - k < 56 then 0 else store32 (k + 56) 0 (store32 (k + 60) start_func
    (store32 (k + 64) start_arg (store32 (k + 68) exit_func (store32 (k + 72) exit_arg m0)))) x)" for x
    unfolding m1_def memset_at by simp
  have high: "load32 m2 (k + 56) = 0" "load32 m2 (k + 60) = start_func" "load32 m2 (k + 64) = start_arg"
      "load32 m2 (k + 68) = exit_func" "load32 m2 (k + 72) = exit_arg"
  proof -
    have "load32 m2 (k + a) = load32 (store32 (k + 56) 0 (store32 (k + 60) start_func
      (store32 (k + 64) start_arg (store32 (k + 68) exit_func (store32 (k + 72) exit_arg m0))))) (k + a)"
      if a: "a = 56 \<or> a = 60 \<or> a = 64 \<or> a = 68 \<or> a = 72" for a
    proof -
      have "load32 m2 (k + a) = load32 m1 (k + a)" using a by (auto simp: m2_def)
      also have "\<dots> = load32 (store32 (k + 56) 0 (store32 (k + 60) start_func
          (store32 (k + 64) start_arg (store32 (k + 68) exit_func (store32 (k + 72) exit_arg m0))))) (k + a)"
      proof (rule load32_cong)
        fix i :: nat
        assume "i < 4"
        then have "i = 0 \<or> i = 1 \<or> i = 2 \<or> i = 3" by auto
        with a have "\<not> k + a + word_of_nat i - k < 56" by auto
        then show "m1 (k + a + word_of_nat i) = store32 (k + 56) 0 (store32 (k + 60) start_func
            (store32 (k + 64) start_arg (store32 (k + 68) exit_func (store32 (k + 72) exit_arg m0)))) (k + a + word_of_nat i)"
          by (simp only: m1 if_False)
      qed
      finally show ?thesis .
    qed
    from this [of 56] this [of 60] this [of 64] this [of 68] this [of 72]
    show "load32 m2 (k + 56) = 0" "load32 m2 (k + 60) = start_func" "load32 m2 (k + 64) = start_arg"
      "load32 m2 (k + 68) = exit_func" "load32 m2 (k + 72) = exit_arg" by simp_all
  qed
  have low: "load32 m2 (k + 44) = core" "load32 m2 (k + 48) = 8" "load32 m2 (k + 52) = 512"
      "load16 m2 (k + 6) = 16" "load16 m2 (k + 4) = 16" "load16 m2 (k + 8) = 16"
    unfolding m2_def by simp_all
  have "m2 x = m0 x" if "\<not> x - k < 76" for x
  proof -
    have "\<not> x - k < 56" using that by (auto simp: not_less intro: order_trans [rotated])
    with that show ?thesis unfolding m2_def m1_def store_defs memset_at by auto
  qed
  with run high low show ?thesis unfolding m0_def by blast
qed

lemma poison_intact_iff:
  "poison_intact n c m = Some () \<longleftrightarrow> (\<forall>i < n. m (c + word_of_nat i) = ucast SOS_CPU_STATE_STACK_POISON)"
proof (induction n arbitrary: c)
  case (Suc n)
  then show ?case by (simp add: All_less_Suc2 add.assoc)
qed simp

text \<open>The bytes of a context saved at \<open>k\<close>, whichever routine pushed it, with its error code and its resume point.\<close>

definition saved_frame :: "u32 \<Rightarrow> u32 \<Rightarrow> cpu_regs \<Rightarrow> u32 \<Rightarrow> mem \<Rightarrow> mem" where
  "saved_frame code pc r k m = store16 k (r_gs r) (store16 (k + 2) (r_fs r) (store16 (k + 4) (r_es r) (store16 (k + 6) (r_ds r)
     (store16 (k + 8) (r_ss r) (store32 (k + 12) (r_eax r) (store32 (k + 16) (r_ebx r) (store32 (k + 20) (r_ecx r)
     (store32 (k + 24) (r_edx r) (store32 (k + 28) (r_esi r) (store32 (k + 32) (r_edi r) (store32 (k + 36) (r_ebp r)
     (store32 (k + 40) code (store32 (k + 44) pc (store32 (k + 48) (r_cs r) (store32 (k + 52) (r_eflags r) m)))))))))))))))"

lemma saved_frame_outside: "\<not> x - k < 56 \<Longrightarrow> saved_frame code pc r k m x = m x"
  unfolding saved_frame_def store_defs by auto

lemma saved_frame_fields:
  assumes s_def: "s = saved_frame code pc r k m"
  shows "load16 s k = r_gs r" "load16 s (k + 2) = r_fs r" "load16 s (k + 4) = r_es r" "load16 s (k + 6) = r_ds r" "load16 s (k + 8) = r_ss r"
    and "load32 s (k + 12) = r_eax r" "load32 s (k + 16) = r_ebx r" "load32 s (k + 20) = r_ecx r"
      "load32 s (k + 24) = r_edx r" "load32 s (k + 28) = r_esi r" "load32 s (k + 32) = r_edi r"
    and "load32 s (k + 36) = r_ebp r" "load32 s (k + 40) = code" "load32 s (k + 44) = pc" "load32 s (k + 48) = r_cs r"
      "load32 s (k + 52) = r_eflags r"
proof -
  have s0: "store16 k v m = store16 (k + 0) v m" for v m by simp
  show "load16 s k = r_gs r" unfolding s_def saved_frame_def by simp
  show "load16 s (k + 2) = r_fs r" "load16 s (k + 4) = r_es r" "load16 s (k + 6) = r_ds r" "load16 s (k + 8) = r_ss r"
    unfolding s_def saved_frame_def s0 by (simp_all del: add_0_right)
  show "load32 s (k + 12) = r_eax r" "load32 s (k + 16) = r_ebx r" "load32 s (k + 20) = r_ecx r"
      "load32 s (k + 24) = r_edx r" "load32 s (k + 28) = r_esi r" "load32 s (k + 32) = r_edi r"
    unfolding s_def saved_frame_def s0 by (simp_all del: add_0_right)
  show "load32 s (k + 36) = r_ebp r" "load32 s (k + 40) = code" "load32 s (k + 44) = pc" "load32 s (k + 48) = r_cs r"
      "load32 s (k + 52) = r_eflags r"
    unfolding s_def saved_frame_def s0 by (simp_all del: add_0_right)
qed

text \<open>Restoring depends on the 56 bytes of the context only.\<close>

lemma frame_cong:
  assumes "\<forall>x. x - k < 56 \<longrightarrow> m' x = s x"
  shows "a \<le> 52 \<Longrightarrow> load32 m' (k + a) = load32 s (k + a)" and "a \<le> 8 \<Longrightarrow> load16 m' (k + a) = load16 s (k + a)"
proof -
  show "load32 m' (k + a) = load32 s (k + a)" if "a \<le> 52"
  proof (rule load32_cong)
    fix i :: nat
    assume i: "i < 4"
    have "unat a \<le> 52" using that by (simp add: word_le_nat_alt)
    then have "unat (a + word_of_nat i) < 56"
      using i by (subst unat_add_small) (simp_all add: unat_of_nat_small)
    with assms show "m' (k + a + word_of_nat i) = s (k + a + word_of_nat i)"
      by (simp add: word_less_nat_alt add.assoc)
  qed
  show "load16 m' (k + a) = load16 s (k + a)" if "a \<le> 8"
  proof -
    have "unat a \<le> 8" using that by (simp add: word_le_nat_alt)
    moreover from this have "unat (a + 1) < 56" by (subst unat_add_small) simp_all
    ultimately have "unat (a + 1) < 56" "unat a < 56" by simp_all
    with assms show ?thesis by (simp add: load16_def word_less_nat_alt add.assoc)
  qed
qed

lemma restore_saved_frame:
  assumes "\<forall>x. x - k < 56 \<longrightarrow> m' x = saved_frame code pc r k m x"
  shows "restore_context k m' = r\<lparr>r_eip := pc, r_esp := k + 56\<rparr>"
proof -
  note cong = frame_cong [OF assms]
  have "load16 m' k = r_gs r" using cong(2) [of 0] saved_frame_fields(1) [OF refl] by simp
  then show ?thesis by (cases r) (simp add: restore_context_def ctxt_layout cong saved_frame_fields [OF refl])
qed

lemma save_restore:
  "fst (save_context pc r m) = r_esp r - 56"
  "(\<forall>x. x - (r_esp r - 56) < 56 \<longrightarrow> m' x = snd (save_context pc r m) x) \<Longrightarrow>
   restore_context (r_esp r - 56) m' = r\<lparr>r_eip := pc\<rparr>"
  "\<not> x - (r_esp r - 56) < 56 \<Longrightarrow> snd (save_context pc r m) x = m x"
proof -
  define k where "k = r_esp r - 56"
  have esp: "r_esp r = k + 56" by (simp add: k_def)
  have run: "save_context pc r m = (k, saved_frame 0 pc r k m)"
    unfolding save_context_def saved_frame_def esp by (simp add: Let_def add.commute [of _ k])
  show "fst (save_context pc r m) = r_esp r - 56" by (simp add: run k_def)
  show "restore_context (r_esp r - 56) m' = r\<lparr>r_eip := pc\<rparr>"
    if "\<forall>x. x - (r_esp r - 56) < 56 \<longrightarrow> m' x = snd (save_context pc r m) x"
  proof -
    have "r_esp r - 56 + 56 = r_esp r" by simp
    then show ?thesis using restore_saved_frame [of "r_esp r - 56" m' 0 pc r m] that run by (cases r) (simp add: k_def)
  qed
  show "snd (save_context pc r m) x = m x" if "\<not> x - (r_esp r - 56) < 56"
    using that saved_frame_outside by (simp add: run k_def)
qed


section \<open>Properties\<close>

text \<open>
  C25: The context that sos_cpu_kstate_init builds for a stack of at least 140 bytes passes the
  overflow detection, and when it is restored on the CPU the thread starts in core_routine, in
  kernel segments with interrupts enabled, its stack holding a null return address and the start
  routine, its argument, the exit routine and its argument in the order core_routine expects.
\<close>

theorem kstate_init_first_run:
  assumes size: "140 \<le> unat stack_size" and fits: "unat stack_bottom + unat stack_size < 2 ^ 32"
  shows "\<exists>ctxt m'. sos_cpu_kstate_init core start_func start_arg stack_bottom stack_size exit_func exit_arg m
        = (SOS_OK, ctxt, m') \<and>
     sos_cpu_state_detect_kernel_stack_overflow ctxt stack_bottom stack_size m' = Some () \<and>
     (let r = restore_context ctxt m' in
        r_eip r = core \<and> r_cs r = 8 \<and> r_ds r = 16 \<and> r_es r = 16 \<and> r_ss r = 16 \<and>
        bit (r_eflags r) 9 \<and>
        map (\<lambda>i. load32 m' (r_esp r + 4 * word_of_nat i)) [0..<5]
          = [0, start_func, start_arg, exit_func, exit_arg] \<and>
        r_esp r + 20 = stack_bottom + stack_size)"
proof -
  define k where "k = stack_bottom + stack_size - 76"
  have t: "stack_bottom + stack_size = k + 76" by (simp add: k_def)
  obtain m' where m': "sos_cpu_kstate_init core start_func start_arg stack_bottom stack_size exit_func exit_arg m = (SOS_OK, k, m')"
    "load32 m' (k + 44) = core" "load32 m' (k + 48) = 8" "load32 m' (k + 52) = 512"
    "load16 m' (k + 6) = 16" "load16 m' (k + 4) = 16" "load16 m' (k + 8) = 16"
    "load32 m' (k + 56) = 0" "load32 m' (k + 60) = start_func" "load32 m' (k + 64) = start_arg"
    "load32 m' (k + 68) = exit_func" "load32 m' (k + 72) = exit_arg"
    "\<forall>x. \<not> x - k < 76 \<longrightarrow> m' x = snd (memset stack_bottom SOS_CPU_STATE_STACK_POISON stack_size m) x"
    using kstate_init_layout [OF t] by metis
  have ut: "unat (stack_bottom + stack_size) = unat stack_bottom + unat stack_size"
    using fits by (rule unat_add_small)
  have uk: "unat k = unat stack_bottom + unat stack_size - 76"
    unfolding k_def using size ut by (subst unat_sub) (simp_all add: word_le_nat_alt)
  have uk56: "unat (k + 56) = unat k + 56" using uk fits size by (intro trans [OF unat_add_small]) simp_all
  have poison: "m' (stack_bottom + word_of_nat i) = ucast SOS_CPU_STATE_STACK_POISON" if i: "i < 64" for i
  proof -
    have ui: "unat (word_of_nat i :: u32) = i" using i by (intro unat_of_nat_small) simp
    have u: "unat (stack_bottom + word_of_nat i) = unat stack_bottom + i"
      using i ui fits size by (subst unat_add_small) simp_all
    have "\<not> stack_bottom + word_of_nat i - k < 76"
    proof
      assume l: "stack_bottom + word_of_nat i - k < 76"
      have "k + (stack_bottom + word_of_nat i - k) = stack_bottom + word_of_nat i" by simp
      moreover have "unat (k + (stack_bottom + word_of_nat i - k)) = unat k + unat (stack_bottom + word_of_nat i - k)"
        using l uk fits size by (intro unat_add_small) (simp add: word_less_nat_alt)
      ultimately have "unat k \<le> unat stack_bottom + i" using u by simp
      with uk i size show False by simp
    qed
    moreover have "word_of_nat i < stack_size" using ui i size by (simp add: word_less_nat_alt)
    ultimately show ?thesis using m'(13) by (simp add: memset_at)
  qed
  have "unat (min SOS_CPU_STATE_DETECT_KERNEL_STACK_OVERFLOW stack_size) = 64"
    using size by (simp add: SOS_CPU_STATE_DETECT_KERNEL_STACK_OVERFLOW_def min_def word_le_nat_alt)
  then have "sos_cpu_state_detect_kernel_stack_overflow k stack_bottom stack_size m' = Some ()"
    using poison uk ut uk56 size
    by (simp add: sos_cpu_state_detect_kernel_stack_overflow_def poison_intact_iff word_le_nat_alt sizeof_cpu_kstate_def)
  moreover have "let r = restore_context k m' in
        r_eip r = core \<and> r_cs r = 8 \<and> r_ds r = 16 \<and> r_es r = 16 \<and> r_ss r = 16 \<and>
        bit (r_eflags r) 9 \<and>
        map (\<lambda>i. load32 m' (r_esp r + 4 * word_of_nat i)) [0..<5]
          = [0, start_func, start_arg, exit_func, exit_arg] \<and>
        r_esp r + 20 = stack_bottom + stack_size"
  proof -
    have b: "bit (512 :: u32) 9" by code_simp
    have e: "k + 56 + 4 = k + 60" "k + 56 + 8 = k + 64" "k + 56 + 12 = k + 68" "k + 56 + 16 = k + 72" by simp_all
    show ?thesis
      by (simp add: Let_def restore_context_def ctxt_layout m' b t upt_rec e del: add_numeral_left add.assoc)
  qed
  ultimately show ?thesis using m'(1) by blast
qed

theorem kstate_init_first_run_witness:
  "\<exists>ctxt m'. sos_cpu_kstate_init 0x201000 0x202000 7 0x10000 0x1000 0x203000 0 mem_example = (SOS_OK, ctxt, m') \<and>
     sos_cpu_state_detect_kernel_stack_overflow ctxt 0x10000 0x1000 m' = Some () \<and>
     r_eip (restore_context ctxt m') = 0x201000"
  using kstate_init_first_run [of "0x1000" "0x10000" "0x201000" "0x202000" 7 "0x203000" 0 mem_example]
  by (auto simp: Let_def)

text \<open>
  C24: A context switch stores in the pointer it is given the address of a context which, restored
  later while the 56 bytes of the context are intact, gives back every register and the stack
  pointer of the caller, at the resume point; the registers it loads now are those of the context
  it was asked to switch to.
\<close>

theorem context_switch_roundtrip:
  assumes run: "sos_cpu_context_switch resume_pc r m = (r1, m1)"
    and from_ptr: "\<And>i. i < 4 \<Longrightarrow> \<not> load32 m (r_esp r + 4) + word_of_nat i - (r_esp r - 56) < 68"
    and intact: "\<And>x. x - (r_esp r - 56) < 56 \<Longrightarrow> m2 x = m1 x"
  shows "load32 m1 (load32 m (r_esp r + 4)) = r_esp r - 56 \<and>
         restore_context (r_esp r - 56) m2 = r\<lparr>r_eip := resume_pc\<rparr> \<and>
         r1 = restore_context (load32 m (r_esp r + 8)) m1"
proof -
  define k where "k = r_esp r - 56"
  have esp: "r_esp r + 4 = k + 60" "r_esp r + 8 = k + 64" by (simp_all add: k_def)
  let ?p = "load32 m (r_esp r + 4)"
  define M where "M = snd (save_context resume_pc r m)"
  have s: "save_context resume_pc r m = (k, M)"
    using save_restore(1) [of resume_pc r m] by (simp add: prod_eq_iff k_def M_def)
  have args: "load32 M (k + c) = load32 m (k + c)" if "c = 60 \<or> c = 64" for c
  proof (rule load32_cong)
    fix i :: nat
    assume "i < 4"
    then have "i = 0 \<or> i = 1 \<or> i = 2 \<or> i = 3" by auto
    then have "\<not> k + c + word_of_nat i - (r_esp r - 56) < 56" using that by (auto simp: k_def)
    then show "M (k + c + word_of_nat i) = m (k + c + word_of_nat i)" unfolding M_def by (rule save_restore(3))
  qed
  define m' where "m' = store32 ?p k M"
  have out: "m' x = M x" if "x - k < 68" for x
  proof -
    have "x \<noteq> ?p + word_of_nat i" if "i < 4" for i using from_ptr [OF that] \<open>x - k < 68\<close> unfolding k_def by auto
    from this [of 0] this [of 1] this [of 2] this [of 3] show ?thesis by (simp add: m'_def store32_def)
  qed
  have to: "load32 m' (k + 64) = load32 m (k + 64)"
  proof -
    have "load32 m' (k + 64) = load32 M (k + 64)"
    proof (rule load32_cong)
      fix i :: nat
      assume "i < 4"
      then have "i = 0 \<or> i = 1 \<or> i = 2 \<or> i = 3" by auto
      then have "k + 64 + word_of_nat i - k < 68" by auto
      then show "m' (k + 64 + word_of_nat i) = M (k + 64 + word_of_nat i)" by (rule out)
    qed
    with args show ?thesis by simp
  qed
  have r1: "r1 = restore_context (load32 m (r_esp r + 8)) m'" "m1 = m'"
  proof -
    have "load32 M (k + 60) = ?p" unfolding esp by (rule args) simp
    then have "sos_cpu_context_switch resume_pc r m = (restore_context (load32 m' (k + 64)) m', m')"
      unfolding sos_cpu_context_switch_def s Let_def prod.case by (simp only: m'_def)
    from trans [OF sym [OF run] this] have "r1 = restore_context (load32 m' (k + 64)) m' \<and> m1 = m'"
      by (rule prod.inject [THEN iffD1])
    then show "r1 = restore_context (load32 m (r_esp r + 8)) m'" "m1 = m'"
      unfolding to esp by (rule conjunct1, rule conjunct2)
  qed
  have "m2 x = M x" if "x - (r_esp r - 56) < 56" for x
  proof -
    have "x - k < 68" using that by (simp add: k_def word_less_nat_alt)
    with intact [OF that] out [of x] r1(2) show ?thesis by simp
  qed
  then have "restore_context (r_esp r - 56) m2 = r\<lparr>r_eip := resume_pc\<rparr>"
    by (intro save_restore(2) [where m = m and pc = resume_pc]) (simp add: M_def)
  moreover have "load32 m1 ?p = k" by (simp add: r1(2) m'_def)
  ultimately show ?thesis using r1 by (simp add: k_def)
qed

theorem context_switch_roundtrip_witness:
  "\<exists>r1 m1. sos_cpu_context_switch 77 (restore_context 0x1000 (\<lambda>_. 0)) (\<lambda>_. 0) = (r1, m1) \<and>
     restore_context 0x1000 m1 = (restore_context 0x1000 (\<lambda>_. 0))\<lparr>r_eip := 77\<rparr>"
proof -
  let ?m = "(\<lambda>_. 0) :: mem" and ?r = "restore_context 0x1000 (\<lambda>_. 0)"
  obtain r1 m1 where run: "sos_cpu_context_switch 77 ?r ?m = (r1, m1)" by (cases "sos_cpu_context_switch 77 ?r ?m")
  have e: "r_esp ?r = 0x1038" by (simp add: restore_context_def sizeof_cpu_kstate_def)
  have z: "load32 ?m x = 0" for x by (simp add: load32_def)
  have f: "\<not> load32 ?m (r_esp ?r + 4) + word_of_nat i - (r_esp ?r - 56) < 68" if "i < 4" for i
  proof -
    have "i = 0 \<or> i = 1 \<or> i = 2 \<or> i = 3" using that by auto
    then show ?thesis unfolding z e by auto
  qed
  from context_switch_roundtrip [OF run f refl] show ?thesis using run unfolding e by simp
qed

end
