(* ===== verification/Paging.thy ===== *)
theory Paging
  imports Physmem
begin

text \<open>
  The page tables of the MMU (\<^verbatim>\<open>hwcore/paging.c\<close>). A table entry is a 32-bit word; the tables are in
  physical memory, which \<open>ram\<close> gives word by word, at addresses that are multiples of 4. Before the
  setup the accesses are physical; after it every access of the code to a table is a virtual one,
  translated by the tables themselves through the mirror entry of the page directory. The MMU is
  modelled without its TLB: \<^verbatim>\<open>invlpg\<close> has no effect.
\<close>

section \<open>Entries\<close>

record paging =
  phys :: physmem
  cr3 :: u32
  ram :: "u32 \<Rightarrow> u32"

text \<open>The fields of a page directory or page table entry: \<open>present\<close>, \<open>write\<close>, \<open>user\<close> and the address.\<close>

definition present :: "u32 \<Rightarrow> bool" where "present e = bit e 0"
definition writable :: "u32 \<Rightarrow> bool" where "writable e = bit e 1"
definition user :: "u32 \<Rightarrow> bool" where "user e = bit e 2"
definition entry_paddr :: "u32 \<Rightarrow> u32" where "entry_paddr e = drop_bit 12 e"

definition put_bit :: "nat \<Rightarrow> bool \<Rightarrow> u32 \<Rightarrow> u32" where
  "put_bit n b e = (if b then set_bit n e else unset_bit n e)"

definition put_present :: "bool \<Rightarrow> u32 \<Rightarrow> u32" where "put_present b e = put_bit 0 b e"
definition put_writable :: "bool \<Rightarrow> u32 \<Rightarrow> u32" where "put_writable b e = put_bit 1 b e"
definition put_user :: "bool \<Rightarrow> u32 \<Rightarrow> u32" where "put_user b e = put_bit 2 b e"

definition put_paddr :: "u32 \<Rightarrow> u32 \<Rightarrow> u32" where
  "put_paddr p e = take_bit 12 e OR push_bit 12 p"

definition virt_to_pd_index :: "sos_vaddr_t \<Rightarrow> u32" where
  "virt_to_pd_index vaddr = drop_bit 22 vaddr"

definition virt_to_pt_index :: "sos_vaddr_t \<Rightarrow> u32" where
  "virt_to_pt_index vaddr = drop_bit 12 vaddr AND 0x3ff"

definition virt_to_page_offset :: "sos_vaddr_t \<Rightarrow> u32" where
  "virt_to_page_offset vaddr = vaddr AND SOS_PAGE_MASK"

definition SOS_PAGING_BASE_USER_ADDRESS :: sos_vaddr_t where
  "SOS_PAGING_BASE_USER_ADDRESS = 0x40000000"

definition SOS_PAGING_MIRROR_SIZE :: sos_size_t where
  "SOS_PAGING_MIRROR_SIZE = 0x400000"

definition SOS_PAGING_MIRROR_VADDR :: sos_vaddr_t where
  "SOS_PAGING_MIRROR_VADDR = SOS_PAGING_BASE_USER_ADDRESS - SOS_PAGING_MIRROR_SIZE"

definition SOS_VM_MAP_PROT_NONE :: u32 where "SOS_VM_MAP_PROT_NONE = 0"
definition SOS_VM_MAP_PROT_READ :: u32 where "SOS_VM_MAP_PROT_READ = 1"
definition SOS_VM_MAP_PROT_WRITE :: u32 where "SOS_VM_MAP_PROT_WRITE = 2"
definition SOS_VM_MAP_ATOMIC :: u32 where "SOS_VM_MAP_ATOMIC = 0x80000000"

section \<open>The MMU\<close>

text \<open>
  The walk of the tables for a supervisor access; with the write protection that the setup turns on,
  a write needs the write bit of both entries. No result is a page fault.
\<close>

definition mmu_translate :: "bool \<Rightarrow> paging \<Rightarrow> sos_vaddr_t \<Rightarrow> sos_paddr_t option" where
  "mmu_translate is_write s vaddr = (
     let pde = ram s (cr3 s + 4 * virt_to_pd_index vaddr) in
     if \<not> present pde \<or> is_write \<and> \<not> writable pde then None
     else let pte = ram s (push_bit 12 (entry_paddr pde) + 4 * virt_to_pt_index vaddr) in
     if \<not> present pte \<or> is_write \<and> \<not> writable pte then None
     else Some (push_bit 12 (entry_paddr pte) + virt_to_page_offset vaddr))"

definition vload :: "sos_vaddr_t \<Rightarrow> paging \<Rightarrow> u32 option" where
  "vload vaddr s = map_option (ram s) (mmu_translate False s vaddr)"

definition vstore :: "sos_vaddr_t \<Rightarrow> u32 \<Rightarrow> paging \<Rightarrow> paging option" where
  "vstore vaddr e s = do {
     p \<leftarrow> mmu_translate True s vaddr;
     Some (s\<lparr>ram := (ram s)(p := e)\<rparr>) }"

definition vmemset_page :: "sos_vaddr_t \<Rightarrow> paging \<Rightarrow> paging option" where
  "vmemset_page vaddr s = fold_opt (\<lambda>i. vstore (vaddr + 4 * word_of_nat i) 0) [0..<1024] s"

section \<open>Setup\<close>

text \<open>The addresses are physical here: \<open>pd\<close> is the page of the directory.\<close>

definition memset_page :: "sos_paddr_t \<Rightarrow> paging \<Rightarrow> paging" where
  "memset_page p s = s\<lparr>ram := fold (\<lambda>i m. m(p + 4 * word_of_nat i := 0)) [0..<1024] (ram s)\<rparr>"

definition paging_setup_map_helper ::
    "sos_paddr_t \<Rightarrow> sos_paddr_t \<Rightarrow> sos_vaddr_t \<Rightarrow> paging \<Rightarrow> (sos_ret_t \<times> paging) option" where
  "paging_setup_map_helper pd ppage vaddr s = (
     let index_in_pd = virt_to_pd_index vaddr;
         index_in_pt = virt_to_pt_index vaddr;
         pde = ram s (pd + 4 * index_in_pd)
     in do {
       (pt, s) \<leftarrow>
         (if present pde
          then let pt = push_bit 12 (entry_paddr pde) in
            if \<not> present (ram s (pt + 4 * index_in_pt))
            then do {
              (_, m) \<leftarrow> sos_physmem_ref_physpage_at pt (phys s);
              Some (pt, s\<lparr>phys := m\<rparr>) }
            else None
          else do {
            (pt, m) \<leftarrow> sos_physmem_ref_physpage_new False (phys s);
            let s = s\<lparr>phys := m\<rparr>;
            if pt = 0 then Some (0, s)
            else
              let s = memset_page pt s;
                  e = ram s (pd + 4 * index_in_pd);
                  e = put_paddr (drop_bit 12 pt) (put_writable True (put_present True e))
              in Some (pt, s\<lparr>ram := (ram s)(pd + 4 * index_in_pd := e)\<rparr>) });
       if pt = 0 then Some (- SOS_ENOMEM, s)
       else
         let a = pt + 4 * index_in_pt;
             e = put_paddr (drop_bit 12 ppage) (put_user False (put_writable True (put_present True (ram s a))))
         in Some (SOS_OK, s\<lparr>ram := (ram s)(a := e)\<rparr>) })"

partial_function (option) setup_map_loop ::
    "sos_paddr_t \<Rightarrow> sos_paddr_t \<Rightarrow> sos_paddr_t \<Rightarrow> paging \<Rightarrow> (sos_ret_t \<times> paging) option" where
  "setup_map_loop pd pa stop s =
     (if pa < stop
      then do {
        (r, s) \<leftarrow> paging_setup_map_helper pd pa pa s;
        if r \<noteq> SOS_OK then Some (- SOS_ENOMEM, s)
        else setup_map_loop pd (pa + SOS_PAGE_SIZE) stop s }
      else Some (SOS_OK, s))"

declare setup_map_loop.simps [code]

definition sos_paging_subsystem_setup ::
    "sos_paddr_t \<Rightarrow> sos_paddr_t \<Rightarrow> paging \<Rightarrow> (sos_ret_t \<times> paging) option" where
  "sos_paging_subsystem_setup identity_mapping_base identity_mapping_top s = do {
     (pd, m) \<leftarrow> sos_physmem_ref_physpage_new False (phys s);
     let s = memset_page pd (s\<lparr>phys := m\<rparr>);
     (r, s) \<leftarrow> setup_map_loop pd identity_mapping_base identity_mapping_top s;
     if r \<noteq> SOS_OK then Some (- SOS_ENOMEM, s)
     else do {
       (r, s) \<leftarrow> setup_map_loop pd BIOS_N_VIDEO_START BIOS_N_VIDEO_END s;
       if r \<noteq> SOS_OK then Some (- SOS_ENOMEM, s)
       else
         let a = pd + 4 * virt_to_pd_index SOS_PAGING_MIRROR_VADDR;
             e = put_paddr (drop_bit 12 pd) (put_user False (put_writable True (put_present True (ram s a))));
             s = s\<lparr>ram := (ram s)(a := e)\<rparr>;
             new_cr3 = put_paddr (drop_bit 12 pd) 0
         in Some (SOS_OK, s\<lparr>cr3 := new_cr3\<rparr>) } }"

section \<open>Mapping and unmapping\<close>

text \<open>The virtual addresses of the directory and of the table of index \<open>i\<close>.\<close>

definition mirror_pd :: sos_vaddr_t where
  "mirror_pd = SOS_PAGING_MIRROR_VADDR + SOS_PAGE_SIZE * virt_to_pd_index SOS_PAGING_MIRROR_VADDR"

definition mirror_pt :: "u32 \<Rightarrow> sos_vaddr_t" where
  "mirror_pt i = SOS_PAGING_MIRROR_VADDR + SOS_PAGE_SIZE * i"

definition in_mirror :: "sos_vaddr_t \<Rightarrow> bool" where
  "in_mirror v \<longleftrightarrow> v \<ge> SOS_PAGING_MIRROR_VADDR \<and> v < SOS_PAGING_MIRROR_VADDR + SOS_PAGING_MIRROR_SIZE"

definition sos_paging_map ::
    "sos_paddr_t \<Rightarrow> sos_vaddr_t \<Rightarrow> bool \<Rightarrow> u32 \<Rightarrow> paging \<Rightarrow> (sos_ret_t \<times> paging) option" where
  "sos_paging_map ppage_paddr vpage_vaddr is_user_page flags s = (
     let index_in_pd = virt_to_pd_index vpage_vaddr;
         index_in_pt = virt_to_pt_index vpage_vaddr;
         pde = mirror_pd + 4 * index_in_pd;
         pte = mirror_pt index_in_pd + 4 * index_in_pt
     in if in_mirror vpage_vaddr then Some (- SOS_EINVAL, s)
     else do {
       e \<leftarrow> vload pde s;
       (no_pt, s) \<leftarrow>
         (if \<not> present e
          then do {
            (pt_ppage, m) \<leftarrow> sos_physmem_ref_physpage_new (flags AND SOS_VM_MAP_ATOMIC = 0) (phys s);
            let s = s\<lparr>phys := m\<rparr>;
            if pt_ppage = 0 then Some (True, s)
            else do {
              s \<leftarrow> vstore pde (put_paddr (drop_bit 12 pt_ppage) (put_user is_user_page
                     (put_writable True (put_present True e)))) s;
              s \<leftarrow> vmemset_page (mirror_pt index_in_pd) s;
              Some (False, s) } }
          else do {
            t \<leftarrow> vload pte s;
            if \<not> present t
            then do {
              (_, m) \<leftarrow> sos_physmem_ref_physpage_at (push_bit 12 (entry_paddr e)) (phys s);
              Some (False, s\<lparr>phys := m\<rparr>) }
            else do {
              (_, m) \<leftarrow> sos_physmem_unref_physpage (push_bit 12 (entry_paddr t)) (phys s);
              Some (False, s\<lparr>phys := m\<rparr>) } });
       if no_pt then Some (- SOS_ENOMEM, s)
       else do {
         t \<leftarrow> vload pte s;
         s \<leftarrow> vstore pte (put_paddr (drop_bit 12 ppage_paddr) (put_user is_user_page
                (put_writable (flags AND SOS_VM_MAP_PROT_WRITE \<noteq> 0) (put_present True t)))) s;
         (_, m) \<leftarrow> sos_physmem_ref_physpage_at ppage_paddr (phys s);
         Some (SOS_OK, s\<lparr>phys := m\<rparr>) } })"

definition sos_paging_unmap :: "sos_vaddr_t \<Rightarrow> paging \<Rightarrow> (sos_ret_t \<times> paging) option" where
  "sos_paging_unmap vpage_vaddr s = (
     let index_in_pd = virt_to_pd_index vpage_vaddr;
         index_in_pt = virt_to_pt_index vpage_vaddr;
         pde = mirror_pd + 4 * index_in_pd;
         pte = mirror_pt index_in_pd + 4 * index_in_pt
     in do {
       e \<leftarrow> vload pde s;
       if \<not> present e then Some (- SOS_EINVAL, s)
       else do {
         t \<leftarrow> vload pte s;
         if \<not> present t then Some (- SOS_EINVAL, s)
         else if in_mirror vpage_vaddr then Some (- SOS_EINVAL, s)
         else do {
           (_, m) \<leftarrow> sos_physmem_unref_physpage (push_bit 12 (entry_paddr t)) (phys s);
           let s = s\<lparr>phys := m\<rparr>;
           s \<leftarrow> vstore pte 0 s;
           e \<leftarrow> vload pde s;
           (pt_unref_retval, m) \<leftarrow> sos_physmem_unref_physpage (push_bit 12 (entry_paddr e)) (phys s);
           let s = s\<lparr>phys := m\<rparr>;
           sos_assert_fatal (pt_unref_retval \<ge> 0);
           if pt_unref_retval = TRUE_ret
           then do {
             s \<leftarrow> vstore pde 0 s;
             Some (SOS_OK, s) }
           else Some (SOS_OK, s) } } })"

definition sos_paging_get_prot :: "sos_vaddr_t \<Rightarrow> paging \<Rightarrow> u32 option" where
  "sos_paging_get_prot vaddr s = (
     let index_in_pd = virt_to_pd_index vaddr;
         index_in_pt = virt_to_pt_index vaddr
     in do {
       e \<leftarrow> vload (mirror_pd + 4 * index_in_pd) s;
       if \<not> present e then Some SOS_VM_MAP_PROT_NONE
       else do {
         t \<leftarrow> vload (mirror_pt index_in_pd + 4 * index_in_pt) s;
         if \<not> present t then Some SOS_VM_MAP_PROT_NONE
         else if writable e \<and> writable t then Some (SOS_VM_MAP_PROT_READ OR SOS_VM_MAP_PROT_WRITE)
         else Some SOS_VM_MAP_PROT_READ } })"

definition sos_paging_get_paddr :: "sos_vaddr_t \<Rightarrow> paging \<Rightarrow> sos_paddr_t option" where
  "sos_paging_get_paddr vaddr s = (
     let index_in_pd = virt_to_pd_index vaddr;
         index_in_pt = virt_to_pt_index vaddr;
         offset_in_page = virt_to_page_offset vaddr
     in do {
       e \<leftarrow> vload (mirror_pd + 4 * index_in_pd) s;
       if \<not> present e then Some 0
       else do {
         t \<leftarrow> vload (mirror_pt index_in_pd + 4 * index_in_pt) s;
         if \<not> present t then Some 0
         else Some (push_bit 12 (entry_paddr t) + offset_in_page) } })"

definition sos_paging_check_present :: "sos_vaddr_t \<Rightarrow> paging \<Rightarrow> bool option" where
  "sos_paging_check_present vaddr s = map_option (\<lambda>p. p \<noteq> 0) (sos_paging_get_paddr vaddr s)"

end
