(* ===== verification/Paging_tables.thy ===== *)
theory Paging_tables
  imports Paging
begin

text \<open>
  The tables of \<^verbatim>\<open>Paging\<close>: the words of addresses and entries, the invariant \<open>paging_wf\<close> of the page directory
  and the page tables with its reference counts, the accesses through the mirror entry, and what
  \<open>sos_paging_map\<close> and \<open>sos_paging_unmap\<close> do to the mapping of pages, branch by branch.
\<close>

section \<open>Words of addresses and entries\<close>

abbreviation aligned :: "u32 \<Rightarrow> bool" where "aligned p \<equiv> unat p mod 4096 = 0"
abbreviation addr_of :: "u32 \<Rightarrow> u32" where "addr_of e \<equiv> push_bit 12 (entry_paddr e)"
definition ent :: "u32 \<Rightarrow> nat \<Rightarrow> u32" where "ent a i = a + 4 * word_of_nat i"

lemma aligned_le: "aligned p \<Longrightarrow> unat p \<le> 2 ^ 32 - 4096"
proof -
  assume "aligned p"
  then obtain k where k: "unat p = 4096 * k" by (meson dvdE mod_0_imp_dvd)
  moreover have "unat p < 2 ^ 32" using unsigned_less [of p, where 'a = nat] by simp
  ultimately show ?thesis by simp
qed

lemma unat_ent: "aligned a \<Longrightarrow> i < 1024 \<Longrightarrow> unat (ent a i) = unat a + 4 * i"
proof -
  assume a: "aligned a" and i: "i < 1024"
  have e: "(4 * word_of_nat i :: u32) = word_of_nat (4 * i)" by simp
  have u: "unat (word_of_nat (4 * i) :: u32) = 4 * i" by (rule unat_of_nat_small) (use i in simp)
  have "unat a + 4 * i < 2 ^ 32" using aligned_le [OF a] i by simp
  then have "unat (a + word_of_nat (4 * i)) = unat a + unat (word_of_nat (4 * i) :: u32)"
    by (intro unat_add_small) (simp only: u)
  then show ?thesis unfolding ent_def e u .
qed

lemma ent_eq_iff:
  assumes "aligned a" and "aligned b" and "i < 1024" and "j < 1024"
  shows "ent a i = ent b j \<longleftrightarrow> a = b \<and> i = j"
proof
  assume "ent a i = ent b j"
  then have "unat a + 4 * i = unat b + 4 * j" using unat_ent assms by metis
  moreover obtain x y where "unat a = 4096 * x" "unat b = 4096 * y" using assms(1,2) by (meson dvdE mod_0_imp_dvd)
  ultimately have e: "4096 * x + 4 * i = 4096 * y + 4 * j" and u: "unat a = 4096 * x" "unat b = 4096 * y" by simp_all
  have "(4096 * x + 4 * i) div 4096 = x" "(4096 * y + 4 * j) div 4096 = y" using assms(3,4) by simp_all
  with e have "x = y" by simp
  with e u have "unat a = unat b \<and> i = j" by simp
  then show "a = b \<and> i = j" by (simp add: word_unat_eq_iff)
qed simp

lemma addr_of_and: "addr_of e = e AND NOT (mask 12)"
  by (rule bit_word_eqI) (auto simp: entry_paddr_def bit_simps)

lemma addr_of_aligned: "aligned (addr_of e)"
proof -
  have "unat (addr_of e) = unat e div 4096 * 4096"
  proof -
    have "SOS_ALIGN_INF e (2 ^ 12) = addr_of e" unfolding SOS_ALIGN_INF_def power2_minus_one_mask addr_of_and ..
    with unat_align_inf [of e 12] show ?thesis by simp
  qed
  then show ?thesis by simp
qed

lemma aligned_drop_push: "aligned p \<Longrightarrow> push_bit 12 (drop_bit 12 p) = p"
proof -
  assume "aligned p"
  then have "take_bit 12 p = 0" by (simp add: unat_take_bit flip: unat_eq_0)
  with bits_ident [of 12 p] show ?thesis by simp
qed

lemma put_fields [simp]:
  "present (put_present b e) = b" "writable (put_writable b e) = b" "user (put_user b e) = b"
  "present (put_writable b e) = present e" "present (put_user b e) = present e" "present (put_paddr p e) = present e"
  "writable (put_present b e) = writable e" "writable (put_user b e) = writable e" "writable (put_paddr p e) = writable e"
  "user (put_present b e) = user e" "user (put_writable b e) = user e" "user (put_paddr p e) = user e"
  by (auto simp: present_def writable_def user_def put_present_def put_writable_def put_user_def put_bit_def put_paddr_def bit_simps)

lemma put_paddr_addr [simp]:
  "addr_of (put_present b e) = addr_of e" "addr_of (put_writable b e) = addr_of e" "addr_of (put_user b e) = addr_of e"
  "aligned p \<Longrightarrow> addr_of (put_paddr (drop_bit 12 p) e) = p"
proof -
  show "addr_of (put_present b e) = addr_of e" "addr_of (put_writable b e) = addr_of e" "addr_of (put_user b e) = addr_of e"
    by (rule bit_word_eqI, auto simp: entry_paddr_def put_present_def put_writable_def put_user_def put_bit_def bit_simps)+
  have "addr_of (put_paddr (drop_bit 12 p) e) = push_bit 12 (drop_bit 12 p)"
    by (rule bit_word_eqI) (auto simp: entry_paddr_def put_paddr_def bit_simps)
  then show "aligned p \<Longrightarrow> addr_of (put_paddr (drop_bit 12 p) e) = p" by (simp only: aligned_drop_push)
qed

lemma zero_entry [simp]: "\<not> present 0" by (simp add: present_def)

text \<open>The indices of a virtual address as numbers.\<close>

definition pd_ix :: "u32 \<Rightarrow> nat" where "pd_ix v = unat v div 2 ^ 22"
definition pt_ix :: "u32 \<Rightarrow> nat" where "pt_ix v = unat v div 2 ^ 12 mod 1024"

lemma ix_less [simp]: "pd_ix v < 1024" "pt_ix v < 1024"
  using unsigned_less [of v, where 'a = nat] by (simp_all add: pd_ix_def pt_ix_def less_mult_imp_div_less)

lemma virt_ix: "virt_to_pd_index v = word_of_nat (pd_ix v)" "virt_to_pt_index v = word_of_nat (pt_ix v)"
proof -
  show "virt_to_pd_index v = word_of_nat (pd_ix v)"
    by (rule word_eq_of_nat) (simp add: virt_to_pd_index_def pd_ix_def unat_drop_bit)
  have m: "(0x3ff :: u32) = mask 10" by (simp add: mask_eq_exp_minus_1)
  have "unat (virt_to_pt_index v) = unat (take_bit 10 (drop_bit 12 v))"
    unfolding virt_to_pt_index_def m by (simp add: take_bit_eq_mask)
  then have "unat (virt_to_pt_index v) = pt_ix v"
    by (simp add: pt_ix_def unat_take_bit unat_drop_bit)
  then show "virt_to_pt_index v = word_of_nat (pt_ix v)" by (rule word_eq_of_nat)
qed

lemma unat_offset: "unat (virt_to_page_offset v) = unat v mod 4096"
  by (simp add: virt_to_page_offset_def and_page_mask)

text \<open>The addresses of the tables in the mirror.\<close>

lemma mirror_vaddr: "SOS_PAGING_MIRROR_VADDR = 0x3fc00000" "virt_to_pd_index SOS_PAGING_MIRROR_VADDR = 255"
  "mirror_pd = mirror_pt 255"
proof -
  show m: "SOS_PAGING_MIRROR_VADDR = 0x3fc00000"
    by (simp add: SOS_PAGING_MIRROR_VADDR_def SOS_PAGING_BASE_USER_ADDRESS_def SOS_PAGING_MIRROR_SIZE_def)
  have "pd_ix 0x3fc00000 = 255" by (simp add: pd_ix_def)
  then show i: "virt_to_pd_index SOS_PAGING_MIRROR_VADDR = 255" by (simp add: m virt_ix)
  show "mirror_pd = mirror_pt 255" by (simp add: mirror_pd_def mirror_pt_def i)
qed

lemma mirror_ix:
  assumes "j < 1024" and "i < 1024"
  shows "pd_ix (mirror_pt (word_of_nat j) + 4 * word_of_nat i) = 255"
    and "pt_ix (mirror_pt (word_of_nat j) + 4 * word_of_nat i) = j"
    and "virt_to_page_offset (mirror_pt (word_of_nat j) + 4 * word_of_nat i) = 4 * word_of_nat i"
proof -
  let ?v = "mirror_pt (word_of_nat j) + 4 * word_of_nat i"
  have p: "unat (SOS_PAGE_SIZE * word_of_nat j) = 4096 * j"
  proof -
    have "SOS_PAGE_SIZE * word_of_nat j = (word_of_nat (4096 * j) :: u32)" by (simp add: SOS_PAGE_SIZE_def)
    then show ?thesis using unat_of_nat_small [of "4096 * j"] assms by simp
  qed
  have m: "unat (mirror_pt (word_of_nat j)) = 0x3fc00000 + 4096 * j"
    unfolding mirror_pt_def mirror_vaddr using assms p by (subst unat_add_small) simp_all
  then have "aligned (mirror_pt (word_of_nat j))" by (simp add: mod_add_left_eq [symmetric])
  from unat_ent [OF this assms(2)] m have u: "unat ?v = 0x3fc00000 + 4096 * j + 4 * i" by (simp add: ent_def)
  have e: "unat ?v = 4 * i + (j + 255 * 1024) * 4096" using u by simp
  have d: "unat ?v div 4096 = j + 255 * 1024"
  proof -
    have "unat ?v div 4096 = (j + 255 * 1024) + 4 * i div 4096" using e by (simp only: div_mult_self1)
    then show ?thesis using assms(2) by simp
  qed
  have o: "unat ?v mod 4096 = 4 * i" unfolding e mod_mult_self1 using assms(2) by simp
  have "pd_ix ?v = unat ?v div 4096 div 1024" by (simp add: pd_ix_def div_mult2_eq [symmetric])
  then show "pd_ix ?v = 255" unfolding d using assms by simp
  have "unat ?v div 4096 mod 1024 = j mod 1024" unfolding d by (rule mod_mult_self1)
  then show "pt_ix ?v = j" unfolding pt_ix_def using assms by simp
  have "unat (virt_to_page_offset ?v) = 4 * i" unfolding unat_offset by (rule o)
  moreover have "unat (4 * word_of_nat i :: u32) = 4 * i"
    using unat_of_nat_small [of "4 * i"] assms by simp
  ultimately show "virt_to_page_offset ?v = 4 * word_of_nat i" by (simp add: word_unat_eq_iff)
qed

section \<open>The invariant of the tables\<close>

abbreviation pde :: "paging \<Rightarrow> nat \<Rightarrow> u32" where "pde s j \<equiv> ram s (ent (cr3 s) j)"
abbreviation pt_of :: "paging \<Rightarrow> nat \<Rightarrow> u32" where "pt_of s j \<equiv> addr_of (pde s j)"
abbreviation pte :: "paging \<Rightarrow> nat \<Rightarrow> nat \<Rightarrow> u32" where "pte s j i \<equiv> ram s (ent (pt_of s j) i)"

text \<open>The page that the tables give for the page of indices \<open>j\<close> and \<open>i\<close>.\<close>

definition mapped :: "paging \<Rightarrow> nat \<Rightarrow> nat \<Rightarrow> u32 option" where
  "mapped s j i = (if present (pde s j) \<and> present (pte s j i) then Some (addr_of (pte s j i)) else None)"

text \<open>The pages that hold the directory and the tables; the pages mapped at a physical page.\<close>

definition has_pt :: "paging \<Rightarrow> nat \<Rightarrow> bool" where
  "has_pt s j \<longleftrightarrow> j < 1024 \<and> j \<noteq> 255 \<and> present (pde s j)"

definition is_table :: "paging \<Rightarrow> u32 \<Rightarrow> bool" where
  "is_table s p \<longleftrightarrow> p = cr3 s \<or> (\<exists>j. has_pt s j \<and> pt_of s j = p)"

definition maps_to :: "paging \<Rightarrow> u32 \<Rightarrow> (nat \<times> nat) set" where
  "maps_to s p = {(j, i). has_pt s j \<and> i < 1024 \<and> mapped s j i = Some p}"

definition used_entries :: "paging \<Rightarrow> nat \<Rightarrow> nat set" where
  "used_entries s j = {i. i < 1024 \<and> present (pte s j i)}"

definition paging_wf :: "paging \<Rightarrow> bool" where
  "paging_wf s \<longleftrightarrow>
     pm_wf (phys s) \<and> aligned (cr3 s) \<and> page_valid (phys s) (cr3 s) \<and> page_refs (phys s) (cr3 s) \<noteq> 0 \<and>
     present (pde s 255) \<and> writable (pde s 255) \<and> pt_of s 255 = cr3 s \<and>
     (\<forall>j. has_pt s j \<longrightarrow> writable (pde s j) \<and> page_valid (phys s) (pt_of s j) \<and> pt_of s j \<noteq> cr3 s \<and>
        page_refs (phys s) (pt_of s j) = card (used_entries s j) \<and> used_entries s j \<noteq> {}) \<and>
     (\<forall>j j'. has_pt s j \<longrightarrow> has_pt s j' \<longrightarrow> pt_of s j = pt_of s j' \<longrightarrow> j = j') \<and>
     (\<forall>j i p. has_pt s j \<longrightarrow> i < 1024 \<longrightarrow> mapped s j i = Some p \<longrightarrow> \<not> is_table s p) \<and>
     (\<forall>p. page_valid (phys s) p \<longrightarrow> card (maps_to s p) \<le> page_refs (phys s) p)"

lemma paging_wfD:
  assumes "paging_wf s"
  shows "pm_wf (phys s)" "aligned (cr3 s)" "page_valid (phys s) (cr3 s)" "page_refs (phys s) (cr3 s) \<noteq> 0"
    and "present (pde s 255)" "writable (pde s 255)" "pt_of s 255 = cr3 s"
    and "has_pt s j \<Longrightarrow> writable (pde s j)" "has_pt s j \<Longrightarrow> page_valid (phys s) (pt_of s j)"
    and "has_pt s j \<Longrightarrow> pt_of s j \<noteq> cr3 s"
    and "has_pt s j \<Longrightarrow> page_refs (phys s) (pt_of s j) = card (used_entries s j)"
    and "has_pt s j \<Longrightarrow> used_entries s j \<noteq> {}"
    and "has_pt s j \<Longrightarrow> has_pt s j' \<Longrightarrow> pt_of s j = pt_of s j' \<Longrightarrow> j = j'"
    and "has_pt s j \<Longrightarrow> i < 1024 \<Longrightarrow> mapped s j i = Some p \<Longrightarrow> \<not> is_table s p"
    and "page_valid (phys s) p \<Longrightarrow> card (maps_to s p) \<le> page_refs (phys s) p"
  using assms unfolding paging_wf_def by blast+

section \<open>Accesses through the mirror\<close>

lemma translate_ix: "mmu_translate w s v =
   (if present (pde s (pd_ix v)) \<and> (w \<longrightarrow> writable (pde s (pd_ix v))) \<and>
       present (pte s (pd_ix v) (pt_ix v)) \<and> (w \<longrightarrow> writable (pte s (pd_ix v) (pt_ix v)))
    then Some (addr_of (pte s (pd_ix v) (pt_ix v)) + virt_to_page_offset v) else None)"
  by (simp add: mmu_translate_def virt_ix ent_def Let_def)

text \<open>Only the mirror entry of the directory matters for an access to a table.\<close>

definition mirrored :: "paging \<Rightarrow> bool" where
  "mirrored s \<longleftrightarrow> present (pde s 255) \<and> writable (pde s 255) \<and> pt_of s 255 = cr3 s"

lemma mirror_translate:
  assumes m: "mirrored s" and j: "j < 1024" and i: "i < 1024"
  shows "mmu_translate w s (mirror_pt (word_of_nat j) + 4 * word_of_nat i) =
     (if present (pde s j) \<and> (w \<longrightarrow> writable (pde s j)) then Some (ent (pt_of s j) i) else None)"
  using m unfolding translate_ix mirror_ix [OF j i] mirrored_def by (auto simp: ent_def)

lemma mirror_load_pt:
  "mirrored s \<Longrightarrow> j < 1024 \<Longrightarrow> i < 1024 \<Longrightarrow> present (pde s j) \<Longrightarrow>
   vload (mirror_pt (word_of_nat j) + 4 * word_of_nat i) s = Some (pte s j i)"
  by (simp add: vload_def mirror_translate)

lemma mirror_store_pt:
  "mirrored s \<Longrightarrow> j < 1024 \<Longrightarrow> i < 1024 \<Longrightarrow> present (pde s j) \<Longrightarrow> writable (pde s j) \<Longrightarrow>
   vstore (mirror_pt (word_of_nat j) + 4 * word_of_nat i) e s = Some (s\<lparr>ram := (ram s)(ent (pt_of s j) i := e)\<rparr>)"
  by (simp add: vstore_def mirror_translate)

lemma mirror_pd_access:
  assumes m: "mirrored s" and j: "j < 1024"
  shows "vload (mirror_pd + 4 * word_of_nat j) s = Some (pde s j)"
    and "vstore (mirror_pd + 4 * word_of_nat j) e s = Some (s\<lparr>ram := (ram s)(ent (cr3 s) j := e)\<rparr>)"
proof -
  have e: "mirror_pd = mirror_pt (word_of_nat 255)" by (simp add: mirror_vaddr)
  show "vload (mirror_pd + 4 * word_of_nat j) s = Some (pde s j)"
    unfolding e using mirror_load_pt [OF m _ j, of 255] m by (simp add: mirrored_def)
  show "vstore (mirror_pd + 4 * word_of_nat j) e s = Some (s\<lparr>ram := (ram s)(ent (cr3 s) j := e)\<rparr>)"
    unfolding e using mirror_store_pt [OF m _ j, of 255 e] m by (simp add: mirrored_def)
qed

text \<open>Clearing a table.\<close>

definition cleared :: "u32 \<Rightarrow> (u32 \<Rightarrow> u32) \<Rightarrow> u32 \<Rightarrow> u32" where
  "cleared p m a = (if \<exists>i < 1024. a = ent p i then 0 else m a)"

lemma clear_loop:
  assumes "mirrored s" and "j < 1024" and "present (pde s j)" and "writable (pde s j)"
    and "aligned (cr3 s)" and "pt_of s j \<noteq> cr3 s" and "n \<le> 1024"
  shows "fold_opt (\<lambda>i. vstore (mirror_pt (word_of_nat j) + 4 * word_of_nat i) 0) [0..<n] s =
     Some (s\<lparr>ram := (\<lambda>a. if \<exists>i < n. a = ent (pt_of s j) i then 0 else ram s a)\<rparr>)"
  using assms(7)
proof (induction n)
  case 0
  then show ?case by simp
next
  case (Suc n)
  let ?s = "s\<lparr>ram := (\<lambda>a. if \<exists>i < n. a = ent (pt_of s j) i then 0 else ram s a)\<rparr>"
  have "ent (cr3 s) k \<noteq> ent (pt_of s j) i" if "k < 1024" "i < 1024" for k i
    using ent_eq_iff [OF assms(5) addr_of_aligned that] assms(6) by auto
  then have k: "pde ?s k = pde s k" if "k < 1024" for k using that Suc.prems by auto
  have "mirrored ?s" "present (pde ?s j)" "writable (pde ?s j)" "pt_of ?s j = pt_of s j"
    using assms(1-4) k [of 255] k [of j] by (simp_all add: mirrored_def)
  then have "vstore (mirror_pt (word_of_nat j) + 4 * word_of_nat n) 0 ?s = Some (?s\<lparr>ram := (ram ?s)(ent (pt_of s j) n := 0)\<rparr>)"
    using mirror_store_pt [of ?s j n 0] assms(2) Suc.prems by simp
  moreover have "(ram ?s)(ent (pt_of s j) n := 0) = (\<lambda>a. if \<exists>i < Suc n. a = ent (pt_of s j) i then 0 else ram s a)"
    by (auto simp: fun_eq_iff less_Suc_eq)
  ultimately show ?case using Suc by (simp add: fold_opt_append)
qed

lemma clear_table:
  assumes "mirrored s" and "j < 1024" and "present (pde s j)" and "writable (pde s j)"
    and "aligned (cr3 s)" and "pt_of s j \<noteq> cr3 s"
  shows "vmemset_page (mirror_pt (word_of_nat j)) s = Some (s\<lparr>ram := cleared (pt_of s j) (ram s)\<rparr>)"
  using clear_loop [OF assms, of 1024] unfolding vmemset_page_def cleared_def [abs_def] by simp

lemma wf_mirrored: "paging_wf s \<Longrightarrow> mirrored s"
  by (simp add: paging_wf_def mirrored_def)

section \<open>What mapping and unmapping keep\<close>

lemma finite_maps_to [simp]: "finite (maps_to s p)"
proof (rule finite_subset)
  show "maps_to s p \<subseteq> {..<1024} \<times> {..<1024}" by (auto simp: maps_to_def has_pt_def)
qed simp

lemma finite_used [simp]: "finite (used_entries s j)"
  by (simp add: used_entries_def)

lemma mapped_refs:
  assumes wf: "paging_wf s" and "has_pt s k" and "l < 1024" and "mapped s k l = Some q" and "page_valid (phys s) q"
  shows "page_refs (phys s) q \<noteq> 0"
proof -
  have "(k, l) \<in> maps_to s q" using assms by (simp add: maps_to_def)
  then have "0 < card (maps_to s q)" by (auto simp: card_gt_0_iff)
  with paging_wfD(15) [OF wf assms(5)] show ?thesis by simp
qed

lemma used_iff: "has_pt s j \<Longrightarrow> i \<in> used_entries s j \<longleftrightarrow> i < 1024 \<and> mapped s j i \<noteq> None"
  by (auto simp: used_entries_def mapped_def has_pt_def)

lemma table_refs: "paging_wf s \<Longrightarrow> has_pt s j \<Longrightarrow> page_refs (phys s) (pt_of s j) \<noteq> 0"
  using paging_wfD(11,12) [of s j] by (auto simp: card_eq_0_iff)

lemma wf_map_refs:
  assumes wf: "paging_wf s" and j: "j < 1024" "j \<noteq> 255" and i: "i < 1024" and cr: "cr3 s' = cr3 s"
    and m: "pm_wf (phys s')" "page_valid (phys s') = page_valid (phys s)"
    and mirror: "pde s' 255 = pde s 255"
    and pts: "\<And>k. has_pt s' k \<longleftrightarrow> has_pt s k \<or> k = j" "\<And>k. has_pt s' k \<Longrightarrow> writable (pde s' k)"
      "\<And>k. has_pt s k \<Longrightarrow> pt_of s' k = pt_of s k"
    and fresh: "\<not> has_pt s j \<Longrightarrow> page_valid (phys s) (pt_of s' j) \<and> page_refs (phys s) (pt_of s' j) = 0"
    and maps: "\<And>k l. has_pt s' k \<Longrightarrow> l < 1024 \<Longrightarrow> mapped s' k l =
       (if k = j \<and> l = i then Some p else if has_pt s k then mapped s k l else None)"
    and p: "\<not> is_table s p" "page_valid (phys s) p" "page_refs (phys s) p \<noteq> 0"
    and refs: "\<And>q. page_valid (phys s) q \<Longrightarrow>
       page_refs (phys s') q + (if has_pt s j \<and> mapped s j i = Some q then 1 else 0) =
       page_refs (phys s) q + (if q = p then c else 0) +
       (if q = pt_of s' j \<and> \<not> (has_pt s j \<and> mapped s j i \<noteq> None) then 1 else 0)"
    and room: "c = 1 \<or> card (maps_to s p) < page_refs (phys s) p"
  shows "paging_wf s'"
proof -
  note W = paging_wfD [OF wf]
  let ?t = "pt_of s' j"
  have pj: "has_pt s' j" using pts(1) by blast
  have nt: "\<not> is_table s ?t" if "\<not> has_pt s j"
    using fresh [OF that] table_refs [OF wf] W(4) unfolding is_table_def by metis
  have tp: "?t \<noteq> p" using p fresh pts(3) by (cases "has_pt s j") (auto simp: is_table_def)
  have told: "\<not> (has_pt s j \<and> mapped s j i = Some q)" if "is_table s q \<or> q = ?t" for q
    using W(14) [OF _ i, of j q] that pts(3) by (auto simp: is_table_def)
  have tbl: "is_table s' q \<longleftrightarrow> is_table s q \<or> q = ?t" for q
    using pts cr by (auto simp: is_table_def)
  have keep: "page_refs (phys s') q = page_refs (phys s) q" if "is_table s q" "q \<noteq> ?t" "page_valid (phys s) q" for q
    using refs [OF that(3)] told [of q] that p by auto
  have crt: "cr3 s \<noteq> ?t"
    using W(10) [of j] pts(3) nt by (cases "has_pt s j") (auto simp: is_table_def)
  have other: "pt_of s' k \<noteq> ?t" if "has_pt s' k" "k \<noteq> j" for k
  proof -
    have k: "has_pt s k" using that pts(1) by simp
    show ?thesis
    proof (cases "has_pt s j")
      case True
      then show ?thesis using W(13) [OF k] pts(3) k that by metis
    next
      case False
      then show ?thesis using nt k pts(3) [OF k] by (metis is_table_def)
    qed
  qed
  have used: "used_entries s' k = (if k = j then insert i (if has_pt s j then used_entries s j else {}) else used_entries s k)"
    if k: "has_pt s' k" for k
  proof -
    have "l \<in> used_entries s' k \<longleftrightarrow> l < 1024 \<and> mapped s' k l \<noteq> None" for l by (rule used_iff [OF k])
    moreover have "l \<in> used_entries s k \<longleftrightarrow> l < 1024 \<and> mapped s k l \<noteq> None" if "has_pt s k" for l
      by (rule used_iff [OF that])
    ultimately show ?thesis using maps [OF k] i k pts(1) by (auto split: if_splits)
  qed
  have ms: "maps_to s' q = (if q = p then insert (j, i) (maps_to s q) else maps_to s q - {(j, i)})" for q
    using maps pts(1) i by (auto simp: maps_to_def split: if_splits)
  show ?thesis
    unfolding paging_wf_def
  proof (intro conjI allI impI)
    show "pm_wf (phys s')" "aligned (cr3 s')" "page_valid (phys s') (cr3 s')" using m cr W by simp_all
    show "page_refs (phys s') (cr3 s') \<noteq> 0"
      unfolding cr using keep [of "cr3 s"] crt W(3,4) by (simp add: is_table_def)
    show "present (pde s' 255)" "writable (pde s' 255)" "pt_of s' 255 = cr3 s'" using W(5-7) mirror cr by simp_all
  next
    fix k
    assume k: "has_pt s' k"
    show "writable (pde s' k)" by (rule pts(2) [OF k])
    show "page_valid (phys s') (pt_of s' k)"
      using k pts fresh W(9) m(2) by (cases "has_pt s k") auto
    show "pt_of s' k \<noteq> cr3 s'"
      using k pts crt W(10) [of k] cr by (cases "has_pt s k") auto
    show "used_entries s' k \<noteq> {}" using used [OF k] W(12) [of k] k pts(1) by auto
    show "page_refs (phys s') (pt_of s' k) = card (used_entries s' k)"
    proof (cases "k = j")
      case False
      then have "has_pt s k" using k pts(1) by simp
      moreover from this have "is_table s (pt_of s' k)" using pts(3) by (auto simp: is_table_def)
      ultimately show ?thesis using keep [of "pt_of s' k"] other [OF k False] used [OF k] False W(9,11) [of k] pts(3) by simp
    next
      case True
      have v: "page_valid (phys s) ?t" using W(9) [of j] pts(3) fresh by (cases "has_pt s j") auto
      have r: "page_refs (phys s') ?t = page_refs (phys s) ?t + (if has_pt s j \<and> mapped s j i \<noteq> None then 0 else 1)"
        using refs [OF v] told [of ?t] tp by auto
      show ?thesis
      proof (cases "has_pt s j")
        case True2: True
        then have "page_refs (phys s) ?t = card (used_entries s j)" using W(11) pts(3) by simp
        moreover have "i \<in> used_entries s j \<longleftrightarrow> mapped s j i \<noteq> None" using used_iff [OF True2] i by simp
        ultimately show ?thesis using r used [OF k] True True2 by (simp add: card_insert_if)
      next
        case False
        then show ?thesis using r used [OF k] True fresh by simp
      qed
    qed
  next
    fix k k'
    assume k: "has_pt s' k" "has_pt s' k'" and e: "pt_of s' k = pt_of s' k'"
    show "k = k'"
    proof (cases "k = j \<or> k' = j")
      case True
      then show ?thesis using other [OF k(1)] other [OF k(2)] e by metis
    next
      case False
      then show ?thesis using W(13) [of k k'] k e pts(1,3) by auto
    qed
  next
    fix k l q
    assume k: "has_pt s' k" "l < 1024" "mapped s' k l = Some q"
    show "\<not> is_table s' q"
    proof (cases "k = j \<and> l = i")
      case True
      then have "q = p" using maps [OF k(1,2)] k(3) by simp
      then show ?thesis using tbl p(1) tp by simp
    next
      case False
      then have q: "has_pt s k" "mapped s k l = Some q" using maps [OF k(1,2)] k(3) by (auto split: if_splits)
      have n: "\<not> is_table s q" by (rule W(14) [OF q(1) k(2) q(2)])
      have "q \<noteq> ?t"
      proof (cases "has_pt s j")
        case True
        then show ?thesis using n pts(3) by (auto simp: is_table_def)
      next
        case False
        then show ?thesis using mapped_refs [OF wf q(1) k(2) q(2)] fresh by auto
      qed
      with n show ?thesis using tbl by simp
    qed
  next
    fix q
    assume "page_valid (phys s') q"
    then have v: "page_valid (phys s) q" using m by simp
    have old: "(j, i) \<in> maps_to s q \<longleftrightarrow> has_pt s j \<and> mapped s j i = Some q" using i by (simp add: maps_to_def)
    have le: "card (maps_to s q) \<le> page_refs (phys s) q" by (rule W(15) [OF v])
    have rm: "card (maps_to s q) + 1 \<le> page_refs (phys s) q + c" if "q = p" using room le that by auto
    show "card (maps_to s' q) \<le> page_refs (phys s') q"
    proof (cases "(j, i) \<in> maps_to s q")
      case True
      then have r: "page_refs (phys s') q + 1 \<ge> page_refs (phys s) q + (if q = p then c else 0)"
        using refs [OF v] old by simp
      have "0 < card (maps_to s q)" using True by (auto simp: card_gt_0_iff)
      then show ?thesis using r le rm True unfolding ms by (auto simp: insert_absorb card_Diff_singleton)
    next
      case False
      then have nn: "\<not> (has_pt s j \<and> mapped s j i = Some q)" using old by simp
      have r: "page_refs (phys s') q \<ge> page_refs (phys s) q + (if q = p then c else 0)"
        using refs [OF v] unfolding if_not_P [OF nn] by linarith
      then show ?thesis using le rm False unfolding ms by (auto simp: card_insert_if)
    qed
  qed
qed


text \<open>Writing a present entry in a table that is there.\<close>

lemma entry_written:
  assumes wf: "paging_wf s" and h: "has_pt s j" and i: "i < 1024" and c: "cr3 s' = cr3 s"
    and ram: "ram s' = (ram s)(ent (pt_of s j) i := E)" and E: "present E"
  shows "k < 1024 \<Longrightarrow> pde s' k = pde s k" and "has_pt s' = has_pt s"
    and "has_pt s k \<Longrightarrow> l < 1024 \<Longrightarrow> pte s' k l = (if k = j \<and> l = i then E else pte s k l)"
    and "k < 1024 \<Longrightarrow> k \<noteq> 255 \<Longrightarrow> l < 1024 \<Longrightarrow> mapped s' k l = (if k = j \<and> l = i then Some (addr_of E) else mapped s k l)"
proof -
  note W = paging_wfD [OF wf]
  have pd: "pde s' k = pde s k" if k: "k < 1024" for k
    using ent_eq_iff [OF W(2) addr_of_aligned k i, of "pde s j"] W(10) [OF h] by (simp add: c ram)
  then show "k < 1024 \<Longrightarrow> pde s' k = pde s k" .
  show "has_pt s' = has_pt s" using pd by (auto simp: has_pt_def fun_eq_iff)
  have pt: "pte s' k l = (if k = j \<and> l = i then E else pte s k l)" if k: "has_pt s k" "l < 1024" for k l
  proof -
    have "k < 1024" using k by (simp add: has_pt_def)
    moreover have "ent (pt_of s k) l = ent (pt_of s j) i \<longleftrightarrow> k = j \<and> l = i"
      using ent_eq_iff [OF addr_of_aligned addr_of_aligned k(2) i, of "pde s k" "pde s j"] W(13) [OF k(1) h] by auto
    ultimately show ?thesis using pd [of k] by (simp add: ram)
  qed
  then show "has_pt s k \<Longrightarrow> l < 1024 \<Longrightarrow> pte s' k l = (if k = j \<and> l = i then E else pte s k l)" .
  show "mapped s' k l = (if k = j \<and> l = i then Some (addr_of E) else mapped s k l)" if k: "k < 1024" "k \<noteq> 255" "l < 1024"
  proof (cases "has_pt s k")
    case True
    then have e: "present (pde s k)" "pde s' k = pde s k" using pd k by (simp_all add: has_pt_def)
    have "pte s' k l = (if k = j \<and> l = i then E else pte s k l)" by (rule pt [OF True k(3)])
    then show ?thesis using e E by (cases "k = j \<and> l = i") (simp_all only: mapped_def, auto)
  next
    case False
    then have "\<not> present (pde s k)" "\<not> present (pde s' k)" using k pd by (simp_all add: has_pt_def)
    moreover have "k \<noteq> j" using False h by auto
    ultimately show ?thesis by (simp add: mapped_def)
  qed
qed

lemma wf_entry:
  assumes wf: "paging_wf s" and h: "has_pt s j" and i: "i < 1024" and cr: "cr3 s' = cr3 s"
    and ram: "ram s' = (ram s)(ent (pt_of s j) i := E)" and E: "present E" "addr_of E = p"
    and m: "pm_wf (phys s')" "page_valid (phys s') = page_valid (phys s)"
    and p: "\<not> is_table s p" "page_valid (phys s) p" "page_refs (phys s) p \<noteq> 0"
    and refs: "\<And>q. page_valid (phys s) q \<Longrightarrow> page_refs (phys s') q + (if mapped s j i = Some q then 1 else 0) =
       page_refs (phys s) q + (if q = p then c else 0) + (if q = pt_of s j \<and> mapped s j i = None then 1 else 0)"
    and room: "c = 1 \<or> card (maps_to s p) < page_refs (phys s) p"
  shows "paging_wf s'"
proof -
  note W = entry_written [OF wf h i cr ram E(1)]
  have ji: "j < 1024" "j \<noteq> 255" using h by (simp_all add: has_pt_def)
  show ?thesis
  proof (rule wf_map_refs [OF wf ji i cr m, where p = p and c = c, OF _ _ _ _ _ _ p _ room])
    show "pde s' 255 = pde s 255" by (rule W(1)) simp
    show "has_pt s' k \<longleftrightarrow> has_pt s k \<or> k = j" for k using W(2) h by auto
    show "writable (pde s' k)" if "has_pt s' k" for k
      using W(1) [of k] paging_wfD(8) [OF wf, of k] that by (simp add: W(2)) (simp add: has_pt_def)
    show "pt_of s' k = pt_of s k" if "has_pt s k" for k using W(1) [of k] that by (simp add: has_pt_def)
    show "mapped s' k l = (if k = j \<and> l = i then Some p else if has_pt s k then mapped s k l else None)"
      if "has_pt s' k" "l < 1024" for k l
      using W(4) [of k l] that W(2) E(2) by (simp add: has_pt_def)
    show "page_refs (phys s') q + (if has_pt s j \<and> mapped s j i = Some q then 1 else 0) =
        page_refs (phys s) q + (if q = p then c else 0) + (if q = pt_of s' j \<and> \<not> (has_pt s j \<and> mapped s j i \<noteq> None) then 1 else 0)"
      if "page_valid (phys s) q" for q using refs [OF that] h W(1) [OF ji(1)] by simp
  qed (use h in simp)
qed

section \<open>Mapping\<close>

lemma page_valid_aligned: "pm_wf m \<Longrightarrow> page_valid m p \<Longrightarrow> aligned p \<and> p \<noteq> 0"
proof -
  assume wf: "pm_wf m" and "page_valid m p"
  then obtain i where "1 \<le> i" "unat p = i * 4096" using get_descr_iff [OF wf] by (auto simp: page_valid_def)
  then have "aligned p" "unat p \<noteq> 0" by simp_all
  then show ?thesis by (simp add: unat_eq_0)
qed

lemma not_in_mirror: "\<not> in_mirror v \<longleftrightarrow> pd_ix v \<noteq> 255"
proof -
  have "in_mirror v \<longleftrightarrow> 0x3fc00000 \<le> unat v \<and> unat v < 0x40000000"
    by (simp add: in_mirror_def mirror_vaddr SOS_PAGING_MIRROR_SIZE_def word_le_nat_alt word_less_nat_alt)
  also have "\<dots> \<longleftrightarrow> unat v div 2 ^ 22 = 255"
  proof -
    have "unat v div 2 ^ 22 = 255 \<longleftrightarrow> 255 \<le> unat v div 2 ^ 22 \<and> unat v div 2 ^ 22 < 256" by linarith
    also have "\<dots> \<longleftrightarrow> 255 * 2 ^ 22 \<le> unat v \<and> unat v < 256 * 2 ^ 22"
      by (simp only: less_eq_div_iff_mult_less_eq div_less_iff_less_mult zero_less_power zero_less_numeral)
    finally show ?thesis by simp
  qed
  finally show ?thesis by (simp add: pd_ix_def)
qed

text \<open>The entries that are written, and the end of the call once the page table is there.\<close>

definition map_entry :: "bool \<Rightarrow> u32 \<Rightarrow> u32 \<Rightarrow> u32 \<Rightarrow> u32" where
  "map_entry is_user flags p e = put_paddr (drop_bit 12 p) (put_user is_user
     (put_writable (flags AND SOS_VM_MAP_PROT_WRITE \<noteq> 0) (put_present True e)))"

definition new_pde :: "bool \<Rightarrow> u32 \<Rightarrow> u32 \<Rightarrow> u32" where
  "new_pde is_user t e = put_paddr (drop_bit 12 t) (put_user is_user (put_writable True (put_present True e)))"

definition map_tail :: "u32 \<Rightarrow> u32 \<Rightarrow> bool \<Rightarrow> u32 \<Rightarrow> paging \<Rightarrow> (sos_ret_t \<times> paging) option" where
  "map_tail p v is_user flags s1 = do {
     t \<leftarrow> vload (mirror_pt (virt_to_pd_index v) + 4 * virt_to_pt_index v) s1;
     s \<leftarrow> vstore (mirror_pt (virt_to_pd_index v) + 4 * virt_to_pt_index v) (map_entry is_user flags p t) s1;
     (_, m) \<leftarrow> sos_physmem_ref_physpage_at p (phys s);
     Some (SOS_OK, s\<lparr>phys := m\<rparr>) }"

definition map_post :: "u32 \<Rightarrow> nat \<Rightarrow> nat \<Rightarrow> u32 \<Rightarrow> paging \<Rightarrow> paging \<Rightarrow> bool" where
  "map_post p j i e s s' \<longleftrightarrow> paging_wf s' \<and> cr3 s' = cr3 s \<and> has_pt s' j \<and> pte s' j i = e \<and>
     (\<forall>k l. (k, l) \<noteq> (j, i) \<longrightarrow> k < 1024 \<longrightarrow> k \<noteq> 255 \<longrightarrow> l < 1024 \<longrightarrow> mapped s' k l = mapped s k l) \<and>
     page_valid (phys s') = page_valid (phys s) \<and>
     (\<forall>q. page_valid (phys s) q \<longrightarrow>
        page_refs (phys s') q + (if mapped s j i = Some q then 1 else 0) =
        page_refs (phys s) q + (if q = p then 1 else 0) +
        (if q = pt_of s' j \<and> mapped s j i = None then 1 else 0))"

lemma map_entry_present: "aligned p \<Longrightarrow> present (map_entry u f p t) \<and> addr_of (map_entry u f p t) = p"
  by (simp add: map_entry_def)

lemma map_tail_step:
  assumes ji: "pd_ix v < 1024" "pt_ix v < 1024"
    and s1: "mirrored s1" "present (pde s1 (pd_ix v))" "writable (pde s1 (pd_ix v))" "pm_wf (phys s1)"
      "page_valid (phys s1) p" "page_refs (phys s1) p < 2 ^ 32 - 1"
  obtains s' where "map_tail p v is_user flags s1 = Some (SOS_OK, s')" "cr3 s' = cr3 s1"
    "ram s' = (ram s1)(ent (pt_of s1 (pd_ix v)) (pt_ix v) := map_entry is_user flags p (pte s1 (pd_ix v) (pt_ix v)))"
    "pm_wf (phys s')" "page_valid (phys s') = page_valid (phys s1)"
    "page_refs (phys s') = (page_refs (phys s1))(p := page_refs (phys s1) p + 1)"
proof -
  obtain m where m: "sos_physmem_ref_physpage_at p (phys s1) = Some (if page_refs (phys s1) p = 0 then FALSE_ret else TRUE_ret, m)"
      "pm_wf m" "page_valid m = page_valid (phys s1)" "page_refs m = (page_refs (phys s1))(p := page_refs (phys s1) p + 1)"
    using pm.ref_page [OF s1(4,5,6)] by blast
  show thesis
    by (rule that [of "s1\<lparr>ram := (ram s1)(ent (pt_of s1 (pd_ix v)) (pt_ix v) :=
          map_entry is_user flags p (pte s1 (pd_ix v) (pt_ix v))), phys := m\<rparr>"])
      (use mirror_load_pt [OF s1(1) ji s1(2)] mirror_store_pt [OF s1(1) ji s1(2,3)] m in
        \<open>simp_all add: virt_ix map_tail_def\<close>)
qed

lemma map_present:
  assumes wf: "paging_wf s" and v: "pd_ix v \<noteq> 255"
    and p: "\<not> is_table s p" "page_valid (phys s) p" "page_refs (phys s) p \<noteq> 0" "page_refs (phys s) p < 2 ^ 32 - 1"
    and j: "j = pd_ix v" and i: "i = pt_ix v" and h: "has_pt s j"
    and m1: "pm_wf m1" "page_valid m1 = page_valid (phys s)"
      "\<And>q. page_valid (phys s) q \<Longrightarrow> page_refs m1 q + (if mapped s j i = Some q then 1 else 0) =
         page_refs (phys s) q + (if q = pt_of s j \<and> mapped s j i = None then 1 else 0)"
  shows "\<exists>s'. map_tail p v is_user flags (s\<lparr>phys := m1\<rparr>) = Some (SOS_OK, s') \<and>
     map_post p j i (map_entry is_user flags p (pte s j i)) s s'"
proof -
  note W = paging_wfD [OF wf]
  have ji: "j < 1024" "j \<noteq> 255" "i < 1024" using v by (simp_all add: j i)
  have al: "aligned p" using page_valid_aligned [OF W(1) p(2)] by simp
  define E where "E = map_entry is_user flags p (pte s j i)"
  have Ep: "present E" "addr_of E = p" using map_entry_present [OF al] by (simp_all add: E_def)
  let ?s1 = "s\<lparr>phys := m1\<rparr>"
  have pp: "page_refs m1 p < 2 ^ 32 - 1"
  proof -
    have "p \<noteq> pt_of s j" using p(1) h by (auto simp: is_table_def)
    then show ?thesis using m1(3) [OF p(2)] p(4) by (auto split: if_splits)
  qed
  have s1: "mirrored ?s1" "present (pde ?s1 (pd_ix v))" "writable (pde ?s1 (pd_ix v))" "pm_wf (phys ?s1)"
      "page_valid (phys ?s1) p" "page_refs (phys ?s1) p < 2 ^ 32 - 1"
    using wf_mirrored [OF wf] h W(8) m1 p(2) pp by (simp_all add: mirrored_def has_pt_def flip: j)
  obtain s' where s': "map_tail p v is_user flags ?s1 = Some (SOS_OK, s')" "cr3 s' = cr3 s"
      "ram s' = (ram s)(ent (pt_of s j) i := E)" "pm_wf (phys s')" "page_valid (phys s') = page_valid m1"
      "page_refs (phys s') = (page_refs m1)(p := page_refs m1 p + 1)"
    by (rule map_tail_step [OF _ _ s1, of is_user flags]) (simp_all add: E_def j i)
  note X = entry_written [OF wf h ji(3) s'(2,3) Ep(1)]
  have refs: "page_refs (phys s') q + (if mapped s j i = Some q then 1 else 0) =
         page_refs (phys s) q + (if q = p then 1 else 0) + (if q = pt_of s j \<and> mapped s j i = None then 1 else 0)"
    if "page_valid (phys s) q" for q
    using m1(3) [OF that] by (auto simp: s'(6))
  have "paging_wf s'"
    by (rule wf_entry [OF wf h ji(3) s'(2,3) Ep s'(4) _ p(1-3), where c = 1]) (use s'(5) m1(2) refs in simp_all)
  moreover have "pte s' j i = E" using X(3) [OF h ji(3)] by simp
  moreover have "mapped s' k l = mapped s k l" if "(k, l) \<noteq> (j, i)" "k < 1024" "k \<noteq> 255" "l < 1024" for k l
    using that X(4) [of k l] by auto
  ultimately have "map_post p j i E s s'"
    unfolding map_post_def using s'(2,5) m1(2) X(1) [OF ji(1)] X(2) h refs by simp
  with s'(1) show ?thesis unfolding E_def by blast
qed

lemma new_pde_fields:
  "present (new_pde u t e)" "writable (new_pde u t e)" "aligned t \<Longrightarrow> addr_of (new_pde u t e) = t"
  by (simp_all add: new_pde_def)

lemma cleared_other: "\<forall>i < 1024. a \<noteq> ent p i \<Longrightarrow> cleared p m a = m a"
  by (auto simp: cleared_def)

text \<open>The state once a fresh page \<open>t\<close> has become the page table of index \<open>j\<close>.\<close>

definition with_table :: "nat \<Rightarrow> u32 \<Rightarrow> u32 \<Rightarrow> physmem \<Rightarrow> paging \<Rightarrow> paging" where
  "with_table j t e m s = s\<lparr>phys := m, ram := cleared t ((ram s)(ent (cr3 s) j := e))\<rparr>"

lemma with_table_step:
  assumes "mirrored s" and "j < 1024" and "j \<noteq> 255" and "aligned t" and "t \<noteq> cr3 s" and "aligned (cr3 s)"
    and e: "e = new_pde u t e0"
  shows "do { s \<leftarrow> vstore (mirror_pd + 4 * word_of_nat j) e (s\<lparr>phys := m\<rparr>);
              vmemset_page (mirror_pt (word_of_nat j)) s } = Some (with_table j t e m s)"
proof -
  let ?s = "s\<lparr>phys := m, ram := (ram s)(ent (cr3 s) j := e)\<rparr>"
  have ne: "ent (cr3 s) 255 \<noteq> ent (cr3 s) j" using ent_eq_iff [OF assms(6,6), of 255 j] assms by simp
  have m1: "mirrored (s\<lparr>phys := m\<rparr>)" and m2: "mirrored ?s"
    using assms(1) ne by (simp_all add: mirrored_def)
  have "vmemset_page (mirror_pt (word_of_nat j)) ?s = Some (with_table j t e m s)"
    using clear_table [OF m2 assms(2)] new_pde_fields assms by (simp add: with_table_def)
  then show ?thesis using mirror_pd_access(2) [OF m1 assms(2)] by simp
qed

lemma with_table_entries:
  assumes wf: "paging_wf s" and j: "j < 1024" "j \<noteq> 255" and e: "e = new_pde u t e0"
    and t: "page_valid (phys s) t" "page_refs (phys s) t = 0" and s': "s' = with_table j t e m s"
  shows "k < 1024 \<Longrightarrow> pde s' k = (if k = j then e else pde s k)"
    and "l < 1024 \<Longrightarrow> pte s' j l = 0"
    and "has_pt s k \<Longrightarrow> k \<noteq> j \<Longrightarrow> l < 1024 \<Longrightarrow> pte s' k l = pte s k l"
    and "\<not> is_table s t" "aligned t"
proof -
  note W = paging_wfD [OF wf]
  show al: "aligned t" using page_valid_aligned [OF W(1) t(1)] by simp
  show nt: "\<not> is_table s t"
    using t(2) table_refs [OF wf] W(4) unfolding is_table_def by metis
  have c: "cr3 s' = cr3 s" by (simp add: s' with_table_def)
  have ram: "ram s' = cleared t ((ram s)(ent (cr3 s) j := e))" by (simp add: s' with_table_def)
  have tc: "t \<noteq> cr3 s" using nt by (auto simp: is_table_def)
  have pd: "pde s' k = (if k = j then e else pde s k)" if "k < 1024" for k
  proof -
    have "\<forall>i < 1024. ent (cr3 s) k \<noteq> ent t i" using ent_eq_iff [OF W(2) al that] tc by simp
    then show ?thesis unfolding ram c using cleared_other ent_eq_iff [OF W(2) W(2) that j(1)] by simp
  qed
  then show "k < 1024 \<Longrightarrow> pde s' k = (if k = j then e else pde s k)" .
  show "pte s' j l = 0" if "l < 1024"
  proof -
    have "pt_of s' j = t" using pd [OF j(1)] new_pde_fields(3) [OF al] e by simp
    then show ?thesis unfolding ram using that by (auto simp: cleared_def)
  qed
  show "pte s' k l = pte s k l" if k: "has_pt s k" "k \<noteq> j" "l < 1024"
  proof -
    have "k < 1024" using k by (simp add: has_pt_def)
    then have p: "pt_of s' k = pt_of s k" using pd k by simp
    have "pt_of s k \<noteq> t" "pt_of s k \<noteq> cr3 s" using nt k W(10) by (auto simp: is_table_def)
    then have "\<forall>i < 1024. ent (pt_of s k) l \<noteq> ent t i" "ent (pt_of s k) l \<noteq> ent (cr3 s) j"
      using ent_eq_iff [OF addr_of_aligned al k(3)] ent_eq_iff [OF addr_of_aligned W(2) k(3) j(1)] by simp_all
    moreover have "pte s' k l = ram s' (ent (pt_of s k) l)" by (simp only: p)
    ultimately show ?thesis unfolding ram using cleared_other by simp
  qed
qed

text \<open>The same in a table that a fresh page has just become.\<close>

lemma table_entry_written:
  assumes wf: "paging_wf s" and j: "j < 1024" "j \<noteq> 255" and h: "\<not> has_pt s j" and i: "i < 1024"
    and e: "e = new_pde u t e0" and t: "page_valid (phys s) t" "page_refs (phys s) t = 0"
    and c: "cr3 s' = cr3 s" and ram: "ram s' = (ram (with_table j t e m s))(ent t i := E)" and E: "present E"
  shows "k < 1024 \<Longrightarrow> pde s' k = (if k = j then e else pde s k)" and "has_pt s' k \<longleftrightarrow> has_pt s k \<or> k = j"
    and "l < 1024 \<Longrightarrow> pte s' j l = (if l = i then E else 0)"
    and "has_pt s k \<Longrightarrow> l < 1024 \<Longrightarrow> pte s' k l = pte s k l"
    and "k < 1024 \<Longrightarrow> k \<noteq> 255 \<Longrightarrow> l < 1024 \<Longrightarrow> mapped s' k l = (if k = j \<and> l = i then Some (addr_of E) else mapped s k l)"
    and "pt_of s' j = t"
proof -
  note W = paging_wfD [OF wf]
  note T = with_table_entries [where m = m, OF wf j e t refl]
  let ?s1 = "with_table j t e m s"
  have c1: "cr3 ?s1 = cr3 s" by (simp add: with_table_def)
  have ee: "present e" "writable e" "addr_of e = t" using new_pde_fields T(5) by (simp_all add: e)
  have tc: "t \<noteq> cr3 s" using T(4) by (auto simp: is_table_def)
  have pd: "pde s' k = (if k = j then e else pde s k)" if k: "k < 1024" for k
    using ent_eq_iff [OF W(2) T(5) k i] tc T(1) [OF k] by (simp add: c ram c1)
  then show "k < 1024 \<Longrightarrow> pde s' k = (if k = j then e else pde s k)" .
  show hs: "has_pt s' k \<longleftrightarrow> has_pt s k \<or> k = j" for k using pd j ee by (auto simp: has_pt_def)
  show tt: "pt_of s' j = t" using pd [OF j(1)] ee by simp
  show ptj: "pte s' j l = (if l = i then E else 0)" if "l < 1024" for l
    using ent_eq_iff [OF T(5) T(5) that i] pd [OF j(1)] ee T(2) [OF that] T(1) [OF j(1)] by (simp add: ram)
  show pto: "pte s' k l = pte s k l" if k: "has_pt s k" "l < 1024" for k l
  proof -
    have kj: "k \<noteq> j" "k < 1024" "pt_of s k \<noteq> t" using k h T(4) by (auto simp: has_pt_def is_table_def)
    then show ?thesis
      using ent_eq_iff [OF addr_of_aligned T(5) k(2) i, of "pde s k"] pd [of k] T(1) [of k] T(3) [OF k(1) kj(1) k(2)]
      by (simp add: ram)
  qed
  show "mapped s' k l = (if k = j \<and> l = i then Some (addr_of E) else mapped s k l)" if k: "k < 1024" "k \<noteq> 255" "l < 1024"
  proof (cases "k = j")
    case True
    have "\<not> present (pde s j)" using h j by (simp add: has_pt_def)
    then show ?thesis using True ptj [OF k(3)] pd [OF j(1)] ee E unfolding mapped_def by (cases "l = i") simp_all
  next
    case False
    then show ?thesis using pd [OF k(1)] pto [of k l] k unfolding mapped_def has_pt_def by auto
  qed
qed

lemma wf_table_entry:
  assumes wf: "paging_wf s" and j: "j < 1024" "j \<noteq> 255" and h: "\<not> has_pt s j" and i: "i < 1024"
    and e: "e = new_pde u t e0" and t: "page_valid (phys s) t" "page_refs (phys s) t = 0"
    and cr: "cr3 s' = cr3 s" and ram: "ram s' = (ram (with_table j t e m s))(ent t i := E)" and E: "present E" "addr_of E = p"
    and m: "pm_wf (phys s')" "page_valid (phys s') = page_valid (phys s)"
    and p: "\<not> is_table s p" "page_valid (phys s) p" "page_refs (phys s) p \<noteq> 0"
    and refs: "\<And>q. page_valid (phys s) q \<Longrightarrow> page_refs (phys s') q =
       page_refs (phys s) q + (if q = p then c else 0) + (if q = t then 1 else 0)"
    and room: "c = 1 \<or> card (maps_to s p) < page_refs (phys s) p"
  shows "paging_wf s'"
proof -
  note W = table_entry_written [OF wf j h i e t cr ram E(1)]
  have al: "aligned t" using page_valid_aligned [OF paging_wfD(1) [OF wf] t(1)] by simp
  have nj: "mapped s j i = None" using h j by (simp add: mapped_def has_pt_def)
  show ?thesis
  proof (rule wf_map_refs [OF wf j i cr m, where p = p and c = c, OF _ _ _ _ _ _ p _ room])
    show "pde s' 255 = pde s 255" using W(1) [of 255] j by simp
    show "has_pt s' k \<longleftrightarrow> has_pt s k \<or> k = j" for k by (rule W(2))
    show "writable (pde s' k)" if "has_pt s' k" for k
      using W(1) [of k] paging_wfD(8) [OF wf, of k] that W(2) [of k] new_pde_fields(2) e by (auto simp: has_pt_def)
    show "pt_of s' k = pt_of s k" if "has_pt s k" for k using W(1) [of k] that h by (auto simp: has_pt_def)
    show "mapped s' k l = (if k = j \<and> l = i then Some p else if has_pt s k then mapped s k l else None)"
      if "has_pt s' k" "l < 1024" for k l
      using W(5) [of k l] that E(2) by (simp add: has_pt_def) (simp add: mapped_def has_pt_def)
    show "page_refs (phys s') q + (if has_pt s j \<and> mapped s j i = Some q then 1 else 0) =
        page_refs (phys s) q + (if q = p then c else 0) + (if q = pt_of s' j \<and> \<not> (has_pt s j \<and> mapped s j i \<noteq> None) then 1 else 0)"
      if "page_valid (phys s) q" for q using refs [OF that] h W(6) nj by simp
  qed (use t W(6) in simp)
qed


lemma map_fresh:
  assumes wf: "paging_wf s" and v: "pd_ix v \<noteq> 255"
    and p: "\<not> is_table s p" "page_valid (phys s) p" "page_refs (phys s) p \<noteq> 0" "page_refs (phys s) p < 2 ^ 32 - 1"
    and j: "j = pd_ix v" and i: "i = pt_ix v" and h: "\<not> has_pt s j"
    and t: "page_valid (phys s) t" "page_refs (phys s) t = 0"
    and m: "pm_wf m" "page_valid m = page_valid (phys s)" "page_refs m = (page_refs (phys s))(t := 1)"
  shows "\<exists>s'. map_tail p v is_user flags (with_table j t (new_pde u t e0) m s) = Some (SOS_OK, s') \<and>
     map_post p j i (map_entry is_user flags p 0) s s'"
proof -
  note W = paging_wfD [OF wf]
  have ji: "j < 1024" "j \<noteq> 255" "i < 1024" using v by (simp_all add: j i)
  have al: "aligned p" using page_valid_aligned [OF W(1) p(2)] by simp
  define E where "E = map_entry is_user flags p 0"
  have Ep: "present E" "addr_of E = p" using map_entry_present [OF al] by (simp_all add: E_def)
  define e where "e = new_pde u t e0"
  let ?s1 = "with_table j t e m s"
  note T = with_table_entries [where m = m, OF wf ji(1,2) e_def t refl]
  have c1: "cr3 ?s1 = cr3 s" "phys ?s1 = m" by (simp_all add: with_table_def)
  have ee: "present e" "writable e" "addr_of e = t" using new_pde_fields T(5) by (simp_all add: e_def)
  have tp: "t \<noteq> p" using t(2) p(3) by auto
  have s1: "mirrored ?s1" "present (pde ?s1 (pd_ix v))" "writable (pde ?s1 (pd_ix v))" "pm_wf (phys ?s1)"
      "page_valid (phys ?s1) p" "page_refs (phys ?s1) p < 2 ^ 32 - 1"
    using wf_mirrored [OF wf] T(1) [of 255] T(1) [of j] ji m p(2,4) tp ee c1 by (simp_all add: mirrored_def flip: j)
  have tj: "pt_of ?s1 j = t" using T(1) [OF ji(1)] ee by simp
  obtain s' where s': "map_tail p v is_user flags ?s1 = Some (SOS_OK, s')" "cr3 s' = cr3 s"
      "ram s' = (ram ?s1)(ent t i := E)" "pm_wf (phys s')" "page_valid (phys s') = page_valid m"
      "page_refs (phys s') = (page_refs m)(p := page_refs m p + 1)"
    by (rule map_tail_step [OF _ _ s1, of is_user flags])
      (use tj T(2) [OF ji(3)] c1 ji in \<open>simp_all add: E_def flip: j i\<close>)
  note X = table_entry_written [OF wf ji(1,2) h ji(3) e_def t s'(2,3) Ep(1)]
  have nj: "mapped s j i = None" using h ji by (simp add: mapped_def has_pt_def)
  have refs: "page_refs (phys s') q = page_refs (phys s) q + (if q = p then 1 else 0) + (if q = t then 1 else 0)" for q
    using m(3) t(2) tp by (auto simp: s'(6))
  have "paging_wf s'"
    by (rule wf_table_entry [OF wf ji(1,2) h ji(3) e_def t s'(2,3) Ep s'(4) _ p(1-3), where c = 1]) (use s'(5) m(2) refs in simp_all)
  moreover have "mapped s' k l = mapped s k l" if "(k, l) \<noteq> (j, i)" "k < 1024" "k \<noteq> 255" "l < 1024" for k l
    using that X(5) [of k l] by auto
  ultimately have "map_post p j i E s s'"
    unfolding map_post_def using s'(2,5) m(2) X(2,6) refs nj X(3) [OF ji(3)] by simp
  with s'(1) show ?thesis unfolding E_def e_def by blast
qed

lemma map_result:
  assumes wf: "paging_wf s" and v: "pd_ix v \<noteq> 255"
    and p: "\<not> is_table s p" "page_valid (phys s) p" "page_refs (phys s) p \<noteq> 0" "page_refs (phys s) p < 2 ^ 32 - 1"
  obtains (full) "\<not> has_pt s (pd_ix v)" "\<forall>q. page_valid (phys s) q \<longrightarrow> page_refs (phys s) q \<noteq> 0"
      "sos_paging_map p v is_user flags s = Some (- SOS_ENOMEM, s)"
  | (ok) s' where "sos_paging_map p v is_user flags s = Some (SOS_OK, s')"
      "map_post p (pd_ix v) (pt_ix v)
         (map_entry is_user flags p (if has_pt s (pd_ix v) then pte s (pd_ix v) (pt_ix v) else 0)) s s'"
proof -
  note W = paging_wfD [OF wf]
  define j i where "j = pd_ix v" and "i = pt_ix v"
  have ji: "j < 1024" "j \<noteq> 255" "i < 1024" using v by (simp_all add: j_def i_def)
  have hp: "has_pt s j \<longleftrightarrow> present (pde s j)" using ji by (simp add: has_pt_def)
  have mir: "mirrored s" by (rule wf_mirrored [OF wf])
  have mirror: "\<not> in_mirror v" using v not_in_mirror by simp
  have ep: "vload (mirror_pd + 4 * word_of_nat j) s = Some (pde s j)" by (rule mirror_pd_access(1) [OF mir ji(1)])
  show thesis
  proof (cases "has_pt s j")
    case h: True
    have tl: "vload (mirror_pt (word_of_nat j) + 4 * word_of_nat i) s = Some (pte s j i)"
      using mirror_load_pt [OF mir ji(1,3)] h hp by simp
    have run: "sos_paging_map p v is_user flags s = map_tail p v is_user flags (s\<lparr>phys := m1\<rparr>)"
      if "if present (pte s j i) then \<exists>r. sos_physmem_unref_physpage (addr_of (pte s j i)) (phys s) = Some (r, m1)
          else \<exists>r. sos_physmem_ref_physpage_at (pt_of s j) (phys s) = Some (r, m1)" for m1
      using ep tl h hp mirror that
      by (auto simp: sos_paging_map_def map_tail_def map_entry_def virt_ix Let_def j_def i_def split: if_splits)
    show ?thesis
    proof (cases "present (pte s j i)")
      case True
      let ?q = "addr_of (pte s j i)"
      have mq: "mapped s j i = Some ?q" using True h hp by (simp add: mapped_def)
      have qt: "?q \<noteq> pt_of s j" using W(14) [OF h ji(3) mq] h by (auto simp: is_table_def)
      obtain r m1 where m1: "sos_physmem_unref_physpage ?q (phys s) = Some (r, m1)" "pm_wf m1"
          "page_valid m1 = page_valid (phys s)"
          "\<And>x. page_valid (phys s) x \<Longrightarrow> page_refs m1 x + (if x = ?q then 1 else 0) = page_refs (phys s) x"
      proof (cases "page_valid (phys s) ?q")
        case vq: True
        have nz: "page_refs (phys s) ?q \<noteq> 0" by (rule mapped_refs [OF wf h ji(3) mq vq])
        from pm.unref_page [OF W(1) vq nz] nz show thesis using that by fastforce
      next
        case False
        show thesis by (rule that [OF unref_invalid [OF False] W(1)]) (use False in auto)
      qed
      show ?thesis
        using map_present [OF wf v p j_def i_def h m1(2,3), of is_user flags] run [of m1] m1(1,4) mq h True ok
        by (fastforce simp flip: j_def i_def)
    next
      case False
      then have mq: "mapped s j i = None" by (simp add: mapped_def)
      have "card (used_entries s j) \<le> card {..<1024::nat}" by (rule card_mono) (auto simp: used_entries_def)
      then have lim: "page_refs (phys s) (pt_of s j) < 2 ^ 32 - 1" using W(11) [OF h] by simp
      obtain r m1 where m1: "sos_physmem_ref_physpage_at (pt_of s j) (phys s) = Some (r, m1)" "pm_wf m1"
          "page_valid m1 = page_valid (phys s)"
          "page_refs m1 = (page_refs (phys s))(pt_of s j := page_refs (phys s) (pt_of s j) + 1)"
        using pm.ref_page [OF W(1) W(9) [OF h] lim] by blast
      show ?thesis
        using map_present [OF wf v p j_def i_def h m1(2,3), of is_user flags] run [of m1] m1(1,4) mq h False ok
        by (fastforce simp flip: j_def i_def)
    qed
  next
    case h: False
    from W(1) show ?thesis
    proof (rule pm.alloc_cases [where b = "flags AND SOS_VM_MAP_ATOMIC = 0"])
      assume n: "sos_physmem_ref_physpage_new (flags AND SOS_VM_MAP_ATOMIC = 0) (phys s) = Some (0, phys s)"
        and f: "\<forall>q. page_valid (phys s) q \<longrightarrow> page_refs (phys s) q \<noteq> 0"
      have "sos_paging_map p v is_user flags s = Some (- SOS_ENOMEM, s)"
        using ep mirror n h hp by (simp add: sos_paging_map_def virt_ix Let_def flip: j_def i_def)
      then show ?thesis using full f h by (simp add: j_def)
    next
      fix t m
      assume n: "sos_physmem_ref_physpage_new (flags AND SOS_VM_MAP_ATOMIC = 0) (phys s) = Some (t, m)" "pm_wf m" "t \<noteq> 0"
        and t: "page_valid (phys s) t" "page_refs (phys s) t = 0"
        and m: "page_valid m = page_valid (phys s)" "page_refs m = (page_refs (phys s))(t := 1)"
      note T = with_table_entries(4,5) [OF wf ji(1,2) refl t refl]
      have tc: "t \<noteq> cr3 s" using T(1) by (auto simp: is_table_def)
      let ?e = "new_pde is_user t (pde s j)"
      from with_table_step [OF mir ji(1,2) T(2) tc W(2), of ?e is_user "pde s j" m]
      obtain s2 where s2: "vstore (mirror_pd + 4 * word_of_nat j) ?e (s\<lparr>phys := m\<rparr>) = Some s2"
        "vmemset_page (mirror_pt (word_of_nat j)) s2 = Some (with_table j t ?e m s)"
        by (auto simp: bind_eq_Some_conv)
      have "sos_paging_map p v is_user flags s = map_tail p v is_user flags (with_table j t ?e m s)"
        using ep mirror n h hp s2
        by (simp add: sos_paging_map_def map_tail_def map_entry_def new_pde_def virt_ix Let_def flip: j_def i_def)
      then show ?thesis
        using map_fresh [OF wf v p j_def i_def h t n(2) m, of is_user flags is_user "pde s j"] h ok
        by (fastforce simp flip: j_def i_def)
    qed
  qed
qed

section \<open>Unmapping\<close>

lemma wf_unmapI:
  assumes wf: "paging_wf s" and h: "has_pt s j" and i: "i < 1024" and q: "mapped s j i = Some q" and c: "cr3 s' = cr3 s"
    and m: "pm_wf (phys s')" "page_valid (phys s') = page_valid (phys s)"
    and mirror: "pde s' 255 = pde s 255"
    and pts: "\<And>k. has_pt s' k \<longleftrightarrow> has_pt s k \<and> \<not> (k = j \<and> used_entries s j = {i})"
      "\<And>k. has_pt s' k \<Longrightarrow> pde s' k = pde s k"
    and maps: "\<And>k l. has_pt s' k \<Longrightarrow> l < 1024 \<Longrightarrow> mapped s' k l = (if k = j \<and> l = i then None else mapped s k l)"
    and refs: "\<And>x. page_valid (phys s) x \<Longrightarrow>
       page_refs (phys s') x + (if x = q then 1 else 0) + (if x = pt_of s j then 1 else 0) = page_refs (phys s) x"
  shows "paging_wf s'"
proof -
  note W = paging_wfD [OF wf]
  have nq: "\<not> is_table s q" by (rule W(14) [OF h i q])
  have tbl: "is_table s q'" if "is_table s' q'" for q' using that pts(1) pts(2) [symmetric] c unfolding is_table_def by metis
  have keep: "page_refs (phys s') x = page_refs (phys s) x" if "is_table s x" "x \<noteq> pt_of s j" "page_valid (phys s) x" for x
    using refs [OF that(3)] that nq by (auto split: if_splits)
  have used: "used_entries s' k = (if k = j then used_entries s j - {i} else used_entries s k)" if k: "has_pt s' k" for k
  proof -
    have k': "has_pt s k" using k pts(1) by simp
    have "l \<in> used_entries s' k \<longleftrightarrow> l < 1024 \<and> mapped s' k l \<noteq> None" for l by (rule used_iff [OF k])
    moreover have "l \<in> used_entries s k \<longleftrightarrow> l < 1024 \<and> mapped s k l \<noteq> None" for l by (rule used_iff [OF k'])
    ultimately show ?thesis using maps [OF k] by (auto split: if_splits)
  qed
  have ij: "i \<in> used_entries s j" using used_iff [OF h] i q by simp
  have ms: "maps_to s' x \<subseteq> maps_to s x - {(j, i)}" for x
  proof
    fix y
    assume "y \<in> maps_to s' x"
    then obtain k l where y: "y = (k, l)" and k: "has_pt s' k" "l < 1024" "mapped s' k l = Some x"
      by (auto simp: maps_to_def)
    then have "has_pt s k" "(k, l) \<noteq> (j, i)" "mapped s k l = Some x"
      using maps [OF k(1,2)] pts(1) by (auto split: if_splits)
    then show "y \<in> maps_to s x - {(j, i)}" using k y by (simp add: maps_to_def)
  qed
  show ?thesis
    unfolding paging_wf_def
  proof (intro conjI allI impI)
    show "pm_wf (phys s')" "aligned (cr3 s')" "page_valid (phys s') (cr3 s')" using m c W by simp_all
    show "page_refs (phys s') (cr3 s') \<noteq> 0"
      unfolding c using keep [of "cr3 s"] W(3,4) W(10) [OF h] by (auto simp: is_table_def)
    show "present (pde s' 255)" "writable (pde s' 255)" "pt_of s' 255 = cr3 s'" using W(5-7) mirror c by simp_all
  next
    fix k
    assume k: "has_pt s' k"
    then have k': "has_pt s k" and e: "pde s' k = pde s k" using pts by simp_all
    show "writable (pde s' k)" "page_valid (phys s') (pt_of s' k)" "pt_of s' k \<noteq> cr3 s'"
      using W(8,9,10) [OF k'] e m c by simp_all
    have n: "k = j \<Longrightarrow> used_entries s j \<noteq> {i}" using k pts(1) by simp
    show "used_entries s' k \<noteq> {}" using used [OF k] W(12) [OF k'] n ij by auto
    show "page_refs (phys s') (pt_of s' k) = card (used_entries s' k)"
    proof (cases "k = j")
      case True
      have "pt_of s j \<noteq> q" using nq h by (auto simp: is_table_def)
      then show ?thesis using refs [OF W(9) [OF h]] True e used [OF k] W(11) [OF h] ij by (simp add: card_Diff_singleton)
    next
      case False
      moreover have "pt_of s k \<noteq> pt_of s j" using W(13) [OF k' h] False by auto
      moreover have "is_table s (pt_of s k)" using k' by (auto simp: is_table_def)
      ultimately show ?thesis using keep [of "pt_of s k"] e used [OF k] W(9,11) [OF k'] by simp
    qed
  next
    fix k k'
    assume "has_pt s' k" "has_pt s' k'" "pt_of s' k = pt_of s' k'"
    then show "k = k'" using W(13) [of k k'] pts by simp
  next
    fix k l x
    assume k: "has_pt s' k" "l < 1024" "mapped s' k l = Some x"
    then have "mapped s k l = Some x" "has_pt s k" using maps [OF k(1,2)] pts(1) by (auto split: if_splits)
    then show "\<not> is_table s' x" using W(14) k(2) tbl by blast
  next
    fix x
    assume "page_valid (phys s') x"
    then have v: "page_valid (phys s) x" using m by simp
    have le: "card (maps_to s x) \<le> page_refs (phys s) x" by (rule W(15) [OF v])
    have le': "card (maps_to s' x) \<le> card (maps_to s x - {(j, i)})" by (rule card_mono [OF _ ms]) simp
    show "card (maps_to s' x) \<le> page_refs (phys s') x"
    proof (cases "x = pt_of s j")
      case True
      have "maps_to s x = {}" using True W(14) h by (auto simp: maps_to_def is_table_def)
      then show ?thesis using le' by simp
    next
      case False
      have "(j, i) \<in> maps_to s x \<longleftrightarrow> x = q" using h i q by (auto simp: maps_to_def)
      then show ?thesis using refs [OF v] le le' False by (auto simp: card_Diff_singleton split: if_splits)
    qed
  qed
qed

definition unmap_post :: "nat \<Rightarrow> nat \<Rightarrow> u32 \<Rightarrow> paging \<Rightarrow> paging \<Rightarrow> bool" where
  "unmap_post j i q s s' \<longleftrightarrow> paging_wf s' \<and> cr3 s' = cr3 s \<and> mapped s' j i = None \<and>
     (has_pt s' j \<longleftrightarrow> used_entries s j \<noteq> {i}) \<and>
     (\<forall>k l. (k, l) \<noteq> (j, i) \<longrightarrow> k < 1024 \<longrightarrow> k \<noteq> 255 \<longrightarrow> l < 1024 \<longrightarrow> mapped s' k l = mapped s k l) \<and>
     page_valid (phys s') = page_valid (phys s) \<and>
     (\<forall>x. page_valid (phys s) x \<longrightarrow>
       page_refs (phys s') x + (if x = q then 1 else 0) + (if x = pt_of s j then 1 else 0) = page_refs (phys s) x)"

text \<open>The tables once the entry, and with it perhaps the table, is gone.\<close>

lemma unmap_state:
  assumes wf: "paging_wf s" and h: "has_pt s j" and i: "i < 1024" and q: "mapped s j i = Some q"
    and m: "pm_wf m" "page_valid m = page_valid (phys s)"
      "\<And>x. page_valid (phys s) x \<Longrightarrow>
         page_refs m x + (if x = q then 1 else 0) + (if x = pt_of s j then 1 else 0) = page_refs (phys s) x"
    and s': "s' = s\<lparr>phys := m, ram := (let r = (ram s)(ent (pt_of s j) i := 0) in
       if used_entries s j = {i} then r(ent (cr3 s) j := 0) else r)\<rparr>"
  shows "unmap_post j i q s s'"
proof -
  note W = paging_wfD [OF wf]
  have j: "j < 1024" "j \<noteq> 255" using h by (simp_all add: has_pt_def)
  have ram: "ram s' a = (if used_entries s j = {i} \<and> a = ent (cr3 s) j then 0 else if a = ent (pt_of s j) i then 0 else ram s a)" for a
    by (simp add: s' Let_def)
  have c: "cr3 s' = cr3 s" by (simp add: s')
  have pd: "pde s' k = (if used_entries s j = {i} \<and> k = j then 0 else pde s k)" if k: "k < 1024" for k
  proof -
    have "ent (cr3 s) k \<noteq> ent (pt_of s j) i" using ent_eq_iff [OF W(2) addr_of_aligned k i, of "pde s j"] W(10) [OF h] by simp
    then show ?thesis using ent_eq_iff [OF W(2) W(2) k j(1)] by (simp add: ram c)
  qed
  have hs: "has_pt s' k \<longleftrightarrow> has_pt s k \<and> \<not> (k = j \<and> used_entries s j = {i})" for k
    using pd [of k] j by (auto simp: has_pt_def split: if_splits)
  have pe: "pde s' k = pde s k" if "has_pt s' k" for k
    using that hs [of k] pd [of k] by (auto simp: has_pt_def)
  have pt: "pte s' k l = (if k = j \<and> l = i then 0 else pte s k l)" if k: "has_pt s' k" "l < 1024" for k l
  proof -
    have k': "has_pt s k" using k hs by simp
    have "ent (pt_of s k) l = ent (pt_of s j) i \<longleftrightarrow> k = j \<and> l = i"
      using ent_eq_iff [OF addr_of_aligned addr_of_aligned k(2) i, of "pde s k" "pde s j"] W(13) [OF k' h] by auto
    moreover have "ent (pt_of s k) l \<noteq> ent (cr3 s) j"
      using ent_eq_iff [OF addr_of_aligned W(2) k(2) j(1), of "pde s k"] W(10) [OF k'] by simp
    ultimately show ?thesis unfolding pe [OF k(1)] using ram by simp
  qed
  have mp: "mapped s' k l = (if k = j \<and> l = i then None else mapped s k l)" if k: "has_pt s' k" "l < 1024" for k l
    using pt [OF k] pe [OF k(1)] unfolding mapped_def by (cases "k = j \<and> l = i") (simp_all only:, auto)
  have "paging_wf s'"
    by (rule wf_unmapI [OF wf h i q c])
      (use m pd [of 255] j hs pe mp in \<open>simp_all add: s'\<close>)
  moreover have "mapped s' k l = (if k = j \<and> l = i then None else mapped s k l)" if k: "k < 1024" "k \<noteq> 255" "l < 1024" for k l
  proof (cases "has_pt s' k")
    case True
    then show ?thesis using mp k by simp
  next
    case False
    then have n: "mapped s' k l = None" using k by (simp add: has_pt_def mapped_def)
    consider "\<not> has_pt s k" | "k = j" "used_entries s j = {i}" using hs False by blast
    then show ?thesis
    proof cases
      case 1
      then show ?thesis using n k by (simp add: has_pt_def mapped_def)
    next
      case 2
      have "l \<noteq> i \<Longrightarrow> mapped s j l = None" using used_iff [OF h, of l] 2 k(3) by auto
      then show ?thesis using n 2 by simp
    qed
  qed
  ultimately show ?thesis
    unfolding unmap_post_def using m c hs [of j] h j i by (auto simp: s')
qed

lemma unmap_absent:
  assumes wf: "paging_wf s" and v: "pd_ix v = 255 \<or> mapped s (pd_ix v) (pt_ix v) = None"
  shows "sos_paging_unmap v s = Some (- SOS_EINVAL, s)"
proof -
  have mir: "mirrored s" by (rule wf_mirrored [OF wf])
  note acc = mirror_pd_access(1) [OF mir ix_less(1)] mirror_load_pt [OF mir ix_less]
  show ?thesis
  proof (cases "present (pde s (pd_ix v))")
    case True
    have "in_mirror v \<or> \<not> present (pte s (pd_ix v) (pt_ix v))"
      using v not_in_mirror [of v] True by (auto simp: mapped_def split: if_splits)
    then show ?thesis using acc True by (auto simp: sos_paging_unmap_def virt_ix Let_def)
  next
    case False
    then show ?thesis using acc by (simp add: sos_paging_unmap_def virt_ix Let_def)
  qed
qed

lemma unref_mapped:
  assumes wf: "paging_wf s" and h: "has_pt s j" and i: "i < 1024" and q: "mapped s j i = Some q"
  obtains r m1 where "sos_physmem_unref_physpage q (phys s) = Some (r, m1)" "pm_wf m1"
    "page_valid m1 = page_valid (phys s)"
    "\<And>x. page_valid (phys s) x \<Longrightarrow> page_refs m1 x + (if x = q then 1 else 0) = page_refs (phys s) x"
proof (cases "page_valid (phys s) q")
  case vq: True
  have nz: "page_refs (phys s) q \<noteq> 0" by (rule mapped_refs [OF wf h i q vq])
  from pm.unref_page [OF paging_wfD(1) [OF wf] vq nz] nz show thesis using that by fastforce
next
  case False
  show thesis by (rule that [OF unref_invalid [OF False] paging_wfD(1) [OF wf]]) (use False in auto)
qed

lemma unmap_present:
  assumes wf: "paging_wf s" and v: "pd_ix v \<noteq> 255" and q: "mapped s (pd_ix v) (pt_ix v) = Some q"
  shows "\<exists>s'. sos_paging_unmap v s = Some (SOS_OK, s') \<and> unmap_post (pd_ix v) (pt_ix v) q s s'"
proof -
  note W = paging_wfD [OF wf]
  define j i where "j = pd_ix v" and "i = pt_ix v"
  have ji: "j < 1024" "j \<noteq> 255" "i < 1024" using v by (simp_all add: j_def i_def)
  have q': "mapped s j i = Some q" using q by (simp add: j_def i_def)
  have h: "has_pt s j" using q' ji by (auto simp: mapped_def has_pt_def split: if_splits)
  have pr: "present (pde s j)" "present (pte s j i)" "addr_of (pte s j i) = q"
    using q' by (auto simp: mapped_def split: if_splits)
  have mir: "mirrored s" by (rule wf_mirrored [OF wf])
  have mirror: "\<not> in_mirror v" using v not_in_mirror by simp
  obtain r m1 where m1: "sos_physmem_unref_physpage q (phys s) = Some (r, m1)" "pm_wf m1"
      "page_valid m1 = page_valid (phys s)"
      "\<And>x. page_valid (phys s) x \<Longrightarrow> page_refs m1 x + (if x = q then 1 else 0) = page_refs (phys s) x"
    by (rule unref_mapped [OF wf h ji(3) q']) blast
  have qt: "pt_of s j \<noteq> q" using W(14) [OF h ji(3) q'] h by (auto simp: is_table_def)
  have rt: "page_refs m1 (pt_of s j) = card (used_entries s j)"
    using m1(4) [OF W(9) [OF h]] qt W(11) [OF h] by simp
  have vt: "page_valid m1 (pt_of s j)" using m1(3) W(9) [OF h] by simp
  have nz: "page_refs m1 (pt_of s j) \<noteq> 0" using rt W(12) [OF h] by (simp add: card_eq_0_iff)
  obtain m2 where m2: "sos_physmem_unref_physpage (pt_of s j) m1 =
        Some (if page_refs m1 (pt_of s j) = 1 then TRUE_ret else FALSE_ret, m2)"
      "pm_wf m2" "page_valid m2 = page_valid m1" "page_refs m2 = (page_refs m1)(pt_of s j := page_refs m1 (pt_of s j) - 1)"
    using pm.unref_page [OF m1(2) vt nz] by blast
  have one: "page_refs m1 (pt_of s j) = 1 \<longleftrightarrow> used_entries s j = {i}"
    using rt used_iff [OF h, of i] ji q' by (auto simp: card_1_singleton_iff)
  let ?r = "(ram s)(ent (pt_of s j) i := 0)"
  let ?s1 = "s\<lparr>phys := m1, ram := ?r\<rparr>" and ?s2 = "s\<lparr>ram := ?r, phys := m2\<rparr>"
  define s' where "s' = s\<lparr>phys := m2, ram := (let r = ?r in
      if used_entries s j = {i} then r(ent (cr3 s) j := 0) else r)\<rparr>"
  have pd: "pde ?s1 k = pde s k" if k: "k < 1024" for k
    using ent_eq_iff [OF W(2) addr_of_aligned k ji(3), of "pde s j"] W(10) [OF h] by simp
  have mi1: "mirrored (s\<lparr>phys := m1\<rparr>)" "mirrored ?s1" "mirrored ?s2"
    using mir pd [of 255] by (simp_all add: mirrored_def)
  have st: "vstore (mirror_pt (word_of_nat j) + 4 * word_of_nat i) 0 (s\<lparr>phys := m1\<rparr>) = Some ?s1"
    using mirror_store_pt [OF mi1(1) ji(1,3)] pr W(8) [OF h] by simp
  have ld: "vload (mirror_pd + 4 * word_of_nat j) ?s1 = Some (pde s j)"
    using mirror_pd_access(1) [OF mi1(2) ji(1)] pd [OF ji(1)] by simp
  have sd: "vstore (mirror_pd + 4 * word_of_nat j) 0 ?s2 = Some (?s2\<lparr>ram := ?r(ent (cr3 s) j := 0)\<rparr>)"
    using mirror_pd_access(2) [OF mi1(3) ji(1)] by simp
  have "sos_paging_unmap v s = Some (SOS_OK, s')"
    using mirror_pd_access(1) [OF mir ji(1)] mirror_load_pt [OF mir ji(1,3)] pr mirror m1(1) m2(1) st ld sd one
    by (simp add: sos_paging_unmap_def errno_defs virt_ix s'_def sos_assert_fatal_def Let_def flip: j_def i_def)
  moreover have "unmap_post j i q s s'"
  proof (rule unmap_state [OF wf h ji(3) q' m2(2) _ _ s'_def])
    show "page_valid m2 = page_valid (phys s)" using m1 m2 by simp
    show "page_refs m2 x + (if x = q then 1 else 0) + (if x = pt_of s j then 1 else 0) = page_refs (phys s) x"
      if "page_valid (phys s) x" for x
      using m1(4) [OF that] nz m2(4) qt by auto
  qed
  ultimately show ?thesis by (auto simp: j_def i_def)
qed

section \<open>Reading the tables\<close>

lemma get_paddr_mirror:
  assumes wf: "paging_wf s"
  shows "sos_paging_get_paddr v s = Some (case mmu_translate False s v of None \<Rightarrow> 0 | Some p \<Rightarrow> p)"
proof -
  have mir: "mirrored s" by (rule wf_mirrored [OF wf])
  note acc = mirror_pd_access(1) [OF mir ix_less(1)] mirror_load_pt [OF mir ix_less]
  show ?thesis
    by (cases "present (pde s (pd_ix v))") (use acc in \<open>simp_all add: sos_paging_get_paddr_def translate_ix virt_ix Let_def\<close>)
qed

lemma get_prot_mirror:
  assumes wf: "paging_wf s"
  shows "sos_paging_get_prot v s = Some
    (if mmu_translate True s v \<noteq> None then SOS_VM_MAP_PROT_READ OR SOS_VM_MAP_PROT_WRITE
     else if mmu_translate False s v \<noteq> None then SOS_VM_MAP_PROT_READ else SOS_VM_MAP_PROT_NONE)"
proof -
  have mir: "mirrored s" by (rule wf_mirrored [OF wf])
  note acc = mirror_pd_access(1) [OF mir ix_less(1)] mirror_load_pt [OF mir ix_less]
  show ?thesis
    by (cases "present (pde s (pd_ix v))") (use acc in \<open>auto simp add: sos_paging_get_prot_def translate_ix virt_ix Let_def\<close>)
qed

end
