(* ===== verification/Paging_props.thy ===== *)
theory Paging_props
  imports Paging_tables
begin

text \<open>The properties of the page tables: what mapping and unmapping change, and that the lookups agree with the MMU.\<close>

section \<open>Properties\<close>

text \<open>The virtual pages as pairs of indices.\<close>

lemma page_ix: "pd_ix v = pd_ix v' \<and> pt_ix v = pt_ix v' \<longleftrightarrow> drop_bit 12 v = drop_bit 12 v'"
proof -
  have "unat (drop_bit 12 w) = pd_ix w * 1024 + pt_ix w" for w :: u32
  proof -
    have "unat w div 2 ^ 12 div 1024 = pd_ix w" by (simp add: pd_ix_def div_mult2_eq [symmetric])
    then show ?thesis using div_mult_mod_eq [of "unat w div 2 ^ 12" 1024] by (simp add: pt_ix_def unat_drop_bit)
  qed
  note e = this [of v] this [of v']
  have "drop_bit 12 v = drop_bit 12 v' \<longleftrightarrow> pd_ix v * 1024 + pt_ix v = pd_ix v' * 1024 + pt_ix v'"
    by (simp only: word_unat_eq_iff e)
  moreover have "a * 1024 + b = c * 1024 + d \<longleftrightarrow> a = c \<and> b = d" if "b < 1024" "d < 1024" for a b c d :: nat
  proof -
    have "(a * 1024 + b) div 1024 = a" "(c * 1024 + d) div 1024 = c" using that by simp_all
    then show ?thesis by (metis add_left_cancel)
  qed
  ultimately show ?thesis using ix_less by blast
qed

lemma translate_mapped:
  "pd_ix v \<noteq> 255 \<Longrightarrow> mmu_translate False s v =
     map_option (\<lambda>p. p + virt_to_page_offset v) (mapped s (pd_ix v) (pt_ix v))"
  by (simp add: translate_ix mapped_def)

lemma has_pt_iff: "\<not> in_mirror v \<Longrightarrow> has_pt s (pd_ix v) \<longleftrightarrow> present (ram s (cr3 s + 4 * virt_to_pd_index v))"
  by (simp add: has_pt_def not_in_mirror virt_ix ent_def)

lemma other_page:
  assumes "\<forall>k l. (k, l) \<noteq> (pd_ix v, pt_ix v) \<longrightarrow> k < 1024 \<longrightarrow> k \<noteq> 255 \<longrightarrow> l < 1024 \<longrightarrow> mapped s' k l = mapped s k l"
    and "\<not> in_mirror v'" and "drop_bit 12 v' \<noteq> drop_bit 12 v"
  shows "mmu_translate False s' v' = mmu_translate False s v'"
proof -
  have n: "pd_ix v' \<noteq> 255" using assms(2) not_in_mirror by simp
  have "(pd_ix v', pt_ix v') \<noteq> (pd_ix v, pt_ix v)" using page_ix [of v' v] assms(3) by auto
  then have "mapped s' (pd_ix v') (pt_ix v') = mapped s (pd_ix v') (pt_ix v')" using assms(1) n ix_less by blast
  then show ?thesis using n by (simp add: translate_mapped)
qed

lemma map_postD:
  assumes "map_post p j i e s s'"
  shows "paging_wf s'" "cr3 s' = cr3 s" "has_pt s' j" "pte s' j i = e"
    and "\<forall>k l. (k, l) \<noteq> (j, i) \<longrightarrow> k < 1024 \<longrightarrow> k \<noteq> 255 \<longrightarrow> l < 1024 \<longrightarrow> mapped s' k l = mapped s k l"
    and "page_valid (phys s') = page_valid (phys s)"
    and "page_valid (phys s) q \<Longrightarrow>
        page_refs (phys s') q + (if mapped s j i = Some q then 1 else 0) =
        page_refs (phys s) q + (if q = p then 1 else 0) + (if q = pt_of s' j \<and> mapped s j i = None then 1 else 0)"
  using assms unfolding map_post_def by blast+

lemma unmap_postD:
  assumes "unmap_post j i q s s'"
  shows "paging_wf s'" "cr3 s' = cr3 s" "mapped s' j i = None" "has_pt s' j \<longleftrightarrow> used_entries s j \<noteq> {i}"
    and "\<forall>k l. (k, l) \<noteq> (j, i) \<longrightarrow> k < 1024 \<longrightarrow> k \<noteq> 255 \<longrightarrow> l < 1024 \<longrightarrow> mapped s' k l = mapped s k l"
    and "page_valid (phys s') = page_valid (phys s)"
    and "page_valid (phys s) x \<Longrightarrow>
       page_refs (phys s') x + (if x = q then 1 else 0) + (if x = pt_of s j then 1 else 0) = page_refs (phys s) x"
  using assms unfolding unmap_post_def by blast+

text \<open>The table page that the entry of \<open>v\<close> in the directory names.\<close>

definition table_of :: "paging \<Rightarrow> u32 \<Rightarrow> u32" where
  "table_of s v = push_bit 12 (entry_paddr (ram s (cr3 s + 4 * virt_to_pd_index v)))"

lemma table_of_ix: "table_of s v = pt_of s (pd_ix v)"
  by (simp add: table_of_def virt_ix ent_def)

definition pg_mem :: physmem where
  "pg_mem = \<lparr>physical_page_descr_array =
       [\<lparr>paddr = 0, ref_cnt = 0, kernel_range = None\<rparr>,
        \<lparr>paddr = 0x1000, ref_cnt = 1, kernel_range = None\<rparr>,
        \<lparr>paddr = 0x2000, ref_cnt = 1, kernel_range = None\<rparr>,
        \<lparr>paddr = 0x3000, ref_cnt = 0, kernel_range = None\<rparr>],
     free_ppage = [3], used_ppage = [1, 2], physmem_base = 0x1000, physmem_top = 0x4000,
     physmem_total_pages = 4, physmem_used_pages = 2\<rparr>"

text \<open>The page directory is page 1, with only its mirror entry; page 2 is in use and page 3 free.\<close>

definition pg_example :: paging where
  "pg_example = \<lparr>phys = pg_mem, cr3 = 0x1000, ram = (\<lambda>a. if a = 0x13fc then 0x1003 else 0)\<rparr>"

lemma pg_mem_wf: "pm_wf pg_mem"
  by (simp add: pm_wf_def pm_geometry_def pm_lists_def n_pages_def pg_mem_def SOS_PAGE_SIZE_def upt_rec,
      simp add: numeral_2_eq_2)

lemma pg_mem_pages:
  "page_valid pg_mem 0x1000" "page_refs pg_mem 0x1000 = 1" "page_valid pg_mem 0x2000" "page_refs pg_mem 0x2000 = 1"
  "page_valid pg_mem 0x3000" "page_refs pg_mem 0x3000 = 0"
  by (simp_all add: page_valid_def page_refs_def get_page_descr_at_paddr_def pg_mem_def page_defs drop_bit_eq_div)

lemma pg_example_wf: "paging_wf pg_example" "\<not> is_table pg_example 0x2000" "\<not> has_pt pg_example j"
proof -
  have c: "cr3 pg_example = 0x1000" "phys pg_example = pg_mem" by (simp_all add: pg_example_def)
  have a: "aligned (0x1000 :: u32)" by simp
  have "unat (ent 0x1000 255 :: u32) = 0x13fc" using unat_ent [OF a, of 255] by simp
  then have e: "ent 0x1000 255 = (0x13fc :: u32)" by (simp add: word_unat_eq_iff)
  have n: "ent 0x1000 k = (0x13fc :: u32) \<longleftrightarrow> k = 255" if "k < 1024" for k
    using ent_eq_iff [OF a a that, of 255] e by simp
  have pd: "pde pg_example k = (if k = 255 then 0x1003 else 0)" if "k < 1024" for k
    using n [OF that] by (simp add: pg_example_def)
  then show nh: "\<not> has_pt pg_example k" for k by (simp add: has_pt_def)
  have "push_bit 12 (entry_paddr 0x1003) = (0x1000 :: u32)" "present (0x1003 :: u32)" "writable (0x1003 :: u32)"
    by code_simp+
  then have m: "present (pde pg_example 255)" "writable (pde pg_example 255)" "pt_of pg_example 255 = 0x1000"
    using pd [of 255] by simp_all
  show "\<not> is_table pg_example 0x2000" using nh by (simp add: is_table_def c)
  have "maps_to pg_example p = {}" for p using nh by (simp add: maps_to_def)
  then show "paging_wf pg_example"
    unfolding paging_wf_def using nh m by (simp add: c pg_mem_wf pg_mem_pages)
qed

text \<open>
  C6: Mapping a used physical page, not one of the page tables, at a virtual page outside the mirror either fails with
  \<open>-SOS_ENOMEM\<close>, only when a page table is needed and no physical page is free, and changes nothing; or
  it succeeds and then the MMU translates the page to that physical page, writable exactly as asked, every other
  virtual page outside the mirror translates for reading as before, the tables stay consistent, and the reference counts follow:
  one more for the mapped page, one less for the page it replaces, one more for the page table if the entry was free.
\<close>

theorem map_translates:
  assumes "paging_wf s" and "\<not> in_mirror v"
    and "\<not> is_table s p" and "page_valid (phys s) p" and "page_refs (phys s) p \<noteq> 0" and "page_refs (phys s) p < 2 ^ 32 - 1"
  shows "(sos_paging_map p v is_user flags s = Some (- SOS_ENOMEM, s) \<and>
      \<not> present (ram s (cr3 s + 4 * virt_to_pd_index v)) \<and> (\<forall>q. page_valid (phys s) q \<longrightarrow> page_refs (phys s) q \<noteq> 0)) \<or>
    (\<exists>s'. sos_paging_map p v is_user flags s = Some (SOS_OK, s') \<and> paging_wf s' \<and>
       mmu_translate False s' v = Some (p + virt_to_page_offset v) \<and>
       (mmu_translate True s' v \<noteq> None \<longleftrightarrow> flags AND SOS_VM_MAP_PROT_WRITE \<noteq> 0) \<and>
       (\<forall>v'. \<not> in_mirror v' \<longrightarrow> drop_bit 12 v' \<noteq> drop_bit 12 v \<longrightarrow> mmu_translate False s' v' = mmu_translate False s v') \<and>
       (\<forall>q. page_valid (phys s) q \<longrightarrow>
          page_refs (phys s') q + (if mmu_translate False s v = Some (q + virt_to_page_offset v) then 1 else 0) =
          page_refs (phys s) q + (if q = p then 1 else 0) +
          (if q = table_of s' v \<and> mmu_translate False s v = None then 1 else 0)))"
proof -
  have n: "pd_ix v \<noteq> 255" using assms(2) not_in_mirror by simp
  show ?thesis
    using assms(1) n assms(3-6)
  proof (rule map_result [where is_user = is_user and flags = flags])
    assume "\<not> has_pt s (pd_ix v)" "\<forall>q. page_valid (phys s) q \<longrightarrow> page_refs (phys s) q \<noteq> 0"
      "sos_paging_map p v is_user flags s = Some (- SOS_ENOMEM, s)"
    then show ?thesis using has_pt_iff [OF assms(2)] by simp
  next
    fix s'
    let ?e = "map_entry is_user flags p (if has_pt s (pd_ix v) then pte s (pd_ix v) (pt_ix v) else 0)"
    assume r: "sos_paging_map p v is_user flags s = Some (SOS_OK, s')" and post: "map_post p (pd_ix v) (pt_ix v) ?e s s'"
    note P = map_postD [OF post]
    have al: "aligned p" using page_valid_aligned [OF paging_wfD(1) [OF assms(1)] assms(4)] by simp
    have E: "present ?e" "addr_of ?e = p" "writable ?e \<longleftrightarrow> flags AND SOS_VM_MAP_PROT_WRITE \<noteq> 0"
      using map_entry_present [OF al] by (simp_all add: map_entry_def)
    have W: "present (pde s' (pd_ix v))" "writable (pde s' (pd_ix v))"
      using P(3) paging_wfD(8) [OF P(1)] by (simp_all add: has_pt_def)
    have "mmu_translate False s' v = Some (p + virt_to_page_offset v)" using W E unfolding translate_ix P(4) by simp
    moreover have "mmu_translate True s' v \<noteq> None \<longleftrightarrow> flags AND SOS_VM_MAP_PROT_WRITE \<noteq> 0"
      using W E(1,3) unfolding translate_ix P(4) by simp
    moreover have "mmu_translate False s v = Some (q + virt_to_page_offset v) \<longleftrightarrow> mapped s (pd_ix v) (pt_ix v) = Some q"
      "mmu_translate False s v = None \<longleftrightarrow> mapped s (pd_ix v) (pt_ix v) = None" for q
      using translate_mapped [OF n] by (auto simp: map_option_case split: option.split)
    ultimately show ?thesis
      using r P(1,7) other_page [OF P(5)] by (simp only: table_of_ix) blast
  qed
qed

theorem map_translates_witness:
  "\<exists>s'. sos_paging_map 0x2000 0x40001000 True SOS_VM_MAP_PROT_READ pg_example = Some (SOS_OK, s') \<and> paging_wf s' \<and>
     mmu_translate False s' 0x40001000 = Some 0x2000 \<and> mmu_translate True s' 0x40001000 = None"
proof -
  have c: "phys pg_example = pg_mem" by (simp add: pg_example_def)
  have w: "(SOS_VM_MAP_PROT_READ AND SOS_VM_MAP_PROT_WRITE = 0)" "\<not> in_mirror 0x40001000" "virt_to_page_offset 0x40001000 = 0"
    by code_simp+
  show ?thesis
    using map_translates [OF pg_example_wf(1) w(2) pg_example_wf(2), of True SOS_VM_MAP_PROT_READ] pg_mem_pages w(1,3)
    unfolding c by auto
qed

text \<open>
  C7: Unmapping a virtual page answers \<open>-SOS_EINVAL\<close> and changes nothing when the page lies in the mirror
  or is not mapped. Otherwise it succeeds: the page is no longer translated, every other page outside the
  mirror is translated for reading as before, the physical page and the page table each lose one reference, the table goes away exactly
  when this was its last entry, and the tables stay consistent.
\<close>

theorem unmap_page:
  assumes "paging_wf s"
  shows "(in_mirror v \<or> mmu_translate False s v = None \<longrightarrow> sos_paging_unmap v s = Some (- SOS_EINVAL, s)) \<and>
    (\<not> in_mirror v \<longrightarrow> mmu_translate False s v = Some (p + virt_to_page_offset v) \<longrightarrow>
      (\<exists>s'. sos_paging_unmap v s = Some (SOS_OK, s') \<and> paging_wf s' \<and> mmu_translate False s' v = None \<and>
         (\<forall>v'. \<not> in_mirror v' \<longrightarrow> drop_bit 12 v' \<noteq> drop_bit 12 v \<longrightarrow> mmu_translate False s' v' = mmu_translate False s v') \<and>
         (\<forall>q. page_valid (phys s) q \<longrightarrow>
            page_refs (phys s') q + (if q = p then 1 else 0) + (if q = table_of s v then 1 else 0) = page_refs (phys s) q) \<and>
         (present (ram s' (cr3 s' + 4 * virt_to_pd_index v)) \<longleftrightarrow> page_refs (phys s') (table_of s v) \<noteq> 0)))"
proof (intro conjI impI)
  assume "in_mirror v \<or> mmu_translate False s v = None"
  then have "pd_ix v = 255 \<or> mapped s (pd_ix v) (pt_ix v) = None"
    using not_in_mirror [of v] translate_mapped [of v s] by auto
  then show "sos_paging_unmap v s = Some (- SOS_EINVAL, s)" by (rule unmap_absent [OF assms])
next
  assume m: "\<not> in_mirror v" and t: "mmu_translate False s v = Some (p + virt_to_page_offset v)"
  have n: "pd_ix v \<noteq> 255" using m not_in_mirror by simp
  have q: "mapped s (pd_ix v) (pt_ix v) = Some p"
    using t translate_mapped [OF n, of s] by (auto simp: map_option_case split: option.splits)
  have h: "has_pt s (pd_ix v)" using q n by (auto simp: mapped_def has_pt_def split: if_splits)
  obtain s' where s': "sos_paging_unmap v s = Some (SOS_OK, s')" and post: "unmap_post (pd_ix v) (pt_ix v) p s s'"
    using unmap_present [OF assms n q] by blast
  note P = unmap_postD [OF post]
  have tr: "mmu_translate False s' v = None" using P(3) by (simp add: translate_mapped [OF n])
  have tv: "page_valid (phys s) (table_of s v)" using paging_wfD(9) [OF assms h] by (simp add: table_of_ix)
  have "is_table s (table_of s v)" using h by (auto simp: is_table_def table_of_ix)
  then have tp: "table_of s v \<noteq> p" using paging_wfD(14) [OF assms h ix_less(2) q] by auto
  have "page_refs (phys s') (table_of s v) + 1 = card (used_entries s (pd_ix v))"
    using P(7) [OF tv] tp paging_wfD(11) [OF assms h] by (simp add: table_of_ix)
  moreover have "card (used_entries s (pd_ix v)) = 1 \<longleftrightarrow> used_entries s (pd_ix v) = {pt_ix v}"
    using used_iff [OF h, of "pt_ix v"] q by (auto simp: card_1_singleton_iff)
  ultimately have "present (ram s' (cr3 s' + 4 * virt_to_pd_index v)) \<longleftrightarrow> page_refs (phys s') (table_of s v) \<noteq> 0"
    using P(4) has_pt_iff [OF m, of s'] by auto
  then show "\<exists>s'. sos_paging_unmap v s = Some (SOS_OK, s') \<and> paging_wf s' \<and> mmu_translate False s' v = None \<and>
         (\<forall>v'. \<not> in_mirror v' \<longrightarrow> drop_bit 12 v' \<noteq> drop_bit 12 v \<longrightarrow> mmu_translate False s' v' = mmu_translate False s v') \<and>
         (\<forall>q. page_valid (phys s) q \<longrightarrow>
            page_refs (phys s') q + (if q = p then 1 else 0) + (if q = table_of s v then 1 else 0) = page_refs (phys s) q) \<and>
         (present (ram s' (cr3 s' + 4 * virt_to_pd_index v)) \<longleftrightarrow> page_refs (phys s') (table_of s v) \<noteq> 0)"
    using s' P(1) tr other_page [OF P(5)] P(7) by (simp only: table_of_ix) blast
qed

theorem unmap_page_witness:
  "sos_paging_unmap SOS_PAGING_MIRROR_VADDR pg_example = Some (- SOS_EINVAL, pg_example) \<and>
   (\<exists>s' s''. sos_paging_map 0x2000 0x40001000 True SOS_VM_MAP_PROT_READ pg_example = Some (SOS_OK, s') \<and>
      sos_paging_unmap 0x40001000 s' = Some (SOS_OK, s'') \<and> mmu_translate False s'' 0x40001000 = None)"
proof -
  have c: "phys pg_example = pg_mem" by (simp add: pg_example_def)
  have w: "in_mirror SOS_PAGING_MIRROR_VADDR" "\<not> in_mirror 0x40001000" "virt_to_page_offset 0x40001000 = 0"
    by code_simp+
  have n: "pd_ix 0x40001000 \<noteq> 255" by (simp add: pd_ix_def)
  have p: "page_valid (phys pg_example) 0x2000" "page_refs (phys pg_example) 0x2000 \<noteq> 0"
    "page_refs (phys pg_example) 0x2000 < 2 ^ 32 - 1"
    unfolding c by (simp_all add: pg_mem_pages)
  obtain s' where s': "sos_paging_map 0x2000 0x40001000 True SOS_VM_MAP_PROT_READ pg_example = Some (SOS_OK, s')"
    "paging_wf s'" "mmu_translate False s' 0x40001000 = Some (0x2000 + virt_to_page_offset 0x40001000)"
  proof (rule map_result [OF pg_example_wf(1) n pg_example_wf(2) p, of True SOS_VM_MAP_PROT_READ])
    assume "\<forall>q. page_valid (phys pg_example) q \<longrightarrow> page_refs (phys pg_example) q \<noteq> 0"
    then show thesis using pg_mem_pages unfolding c by blast
  next
    fix s'
    let ?e = "map_entry True SOS_VM_MAP_PROT_READ 0x2000 (if has_pt pg_example (pd_ix 0x40001000)
        then pte pg_example (pd_ix 0x40001000) (pt_ix 0x40001000) else 0)"
    assume r: "sos_paging_map 0x2000 0x40001000 True SOS_VM_MAP_PROT_READ pg_example = Some (SOS_OK, s')"
      and post: "map_post 0x2000 (pd_ix 0x40001000) (pt_ix 0x40001000) ?e pg_example s'"
    note P = map_postD [OF post]
    have E: "present ?e" "addr_of ?e = 0x2000" using map_entry_present [of "0x2000"] by simp_all
    have "present (pde s' (pd_ix 0x40001000))" using P(3) unfolding has_pt_def by blast
    then have "mmu_translate False s' 0x40001000 = Some (0x2000 + virt_to_page_offset 0x40001000)"
      using E unfolding translate_ix P(4) by (simp only: simp_thms if_True)
    with that [OF r P(1)] show thesis by blast
  qed
  have "\<exists>s''. sos_paging_unmap 0x40001000 s' = Some (SOS_OK, s'') \<and> mmu_translate False s'' 0x40001000 = None"
    using unmap_page [OF s'(2), of "0x40001000" "0x2000"] w(2) s'(3) by blast
  then show ?thesis using unmap_page [OF pg_example_wf(1), of SOS_PAGING_MIRROR_VADDR] w(1) s'(1) by blast
qed

text \<open>
  C8: The lookups of the code agree with the hardware: \<open>sos_paging_get_paddr\<close>, which walks the tables through
  the mirror, returns what the MMU translates the address to (0 for a page fault), for every address, and
  \<open>sos_paging_get_prot\<close> returns exactly the accesses that the MMU allows.
\<close>

theorem lookups_agree_with_mmu:
  assumes "paging_wf s"
  shows "sos_paging_get_paddr v s = Some (case mmu_translate False s v of None \<Rightarrow> 0 | Some p \<Rightarrow> p) \<and>
    sos_paging_get_prot v s = Some
      (if mmu_translate True s v \<noteq> None then SOS_VM_MAP_PROT_READ OR SOS_VM_MAP_PROT_WRITE
       else if mmu_translate False s v \<noteq> None then SOS_VM_MAP_PROT_READ else SOS_VM_MAP_PROT_NONE)"
  using get_paddr_mirror [OF assms] get_prot_mirror [OF assms] by simp_all

theorem lookups_agree_with_mmu_witness:
  "sos_paging_get_paddr 0x3fcff000 pg_example = Some 0x1000 \<and> sos_paging_get_prot 0x3fcff000 pg_example = Some 3 \<and>
   sos_paging_get_paddr 0x40001000 pg_example = Some 0"
proof -
  have v: "virt_to_pd_index 0x3fcff000 = 0xff" "virt_to_pd_index 0x40001000 = 0x100" "virt_to_pt_index 0x3fcff000 = 0xff"
    by (simp_all add: virt_to_pd_index_def virt_to_pt_index_def drop_bit_eq_div)
  have e: "virt_to_page_offset 0x3fcff000 = 0" "push_bit 12 (entry_paddr 0x1003) = (0x1000 :: u32)" "present 0x1003" "writable 0x1003"
    by code_simp+
  have t: "mmu_translate False pg_example 0x3fcff000 = Some 0x1000" "mmu_translate True pg_example 0x3fcff000 = Some 0x1000"
    "mmu_translate False pg_example 0x40001000 = None"
    by (simp_all add: mmu_translate_def v e pg_example_def Let_def)
  have "SOS_VM_MAP_PROT_READ OR SOS_VM_MAP_PROT_WRITE = 3" by code_simp
  then show ?thesis
    using lookups_agree_with_mmu [OF pg_example_wf(1), of "0x3fcff000"] lookups_agree_with_mmu [OF pg_example_wf(1), of "0x40001000"]
    unfolding t by simp
qed

end
