(* ===== verification/Paging_setup.thy ===== *)
theory Paging_setup
  imports Paging_props
begin

text \<open>
  The set-up of paging (\<^verbatim>\<open>hwcore/paging.c\<close>), and after that of the physical pages (\<^verbatim>\<open>os/physmem.c\<close>): the loops that map the kernel and the
  hardware keep an invariant, that of the tables on the state where the directory would already be loaded.
\<close>

section \<open>The directory before it is loaded\<close>

text \<open>
  The setup works on a directory \<open>pd\<close> that the MMU does not use yet and that has no mirror entry: its invariant is that of the
  state where both would be done.
\<close>

definition view :: "u32 \<Rightarrow> paging \<Rightarrow> paging" where
  "view pd s = s\<lparr>cr3 := pd, ram := (ram s)(ent pd 255 := new_pde False pd 0)\<rparr>"

lemma view_sel [simp]: "cr3 (view pd s) = pd" "phys (view pd s) = phys s"
  by (simp_all add: view_def)

lemma view_pde: "aligned pd \<Longrightarrow> k < 1024 \<Longrightarrow> ram (view pd s) (ent pd k) = (if k = 255 then new_pde False pd 0 else ram s (ent pd k))"
  using ent_eq_iff [of pd pd k 255] by (simp add: view_def)

lemma view_other: "aligned pd \<Longrightarrow> aligned a \<Longrightarrow> a \<noteq> pd \<Longrightarrow> i < 1024 \<Longrightarrow> ram (view pd s) (ent a i) = ram s (ent a i)"
  using ent_eq_iff [of a pd i 255] by (simp add: view_def)

lemma new_pde_keep_user: "new_pde (user e) t e = put_paddr (drop_bit 12 t) (put_writable True (put_present True e))"
proof -
  have "put_user (user e) x = x" if "user x = user e" for x
    using that by (intro bit_word_eqI) (auto simp: put_user_def put_bit_def user_def bit_simps)
  then show ?thesis by (simp add: new_pde_def)
qed

lemma memset_page_cleared: "memset_page p s = s\<lparr>ram := cleared p (ram s)\<rparr>"
proof -
  have "fold (\<lambda>i m. m(p + 4 * word_of_nat i := 0)) [0..<n] m = (\<lambda>a. if \<exists>i < n. a = ent p i then 0 else m a)" for n and m :: "u32 \<Rightarrow> u32"
    by (induction n) (auto simp: fun_eq_iff less_Suc_eq ent_def)
  from this [of 1024] show ?thesis by (simp add: memset_page_def cleared_def [abs_def])
qed

lemma cleared_upd: "\<forall>i < 1024. a \<noteq> ent p i \<Longrightarrow> cleared p (m(a := e)) = (cleared p m)(a := e)"
  by (auto simp: cleared_def fun_eq_iff)

definition page_at :: "nat \<Rightarrow> nat \<Rightarrow> u32" where
  "page_at j i = word_of_nat (j * 2 ^ 22 + i * 4096)"

lemma page_at_ix: "j < 1024 \<Longrightarrow> i < 1024 \<Longrightarrow> aligned (page_at j i) \<and> pd_ix (page_at j i) = j \<and> pt_ix (page_at j i) = i"
proof -
  assume ji: "j < 1024" "i < 1024"
  then have "j * 2 ^ 22 + i * 4096 < 2 ^ 32" by simp
  then have u: "unat (page_at j i) = i * 4096 + j * 2 ^ 22" using unat_of_nat_small [of "j * 2 ^ 22 + i * 4096"] by (simp add: page_at_def add.commute)
  have e: "i * 4096 + j * 2 ^ 22 = 4096 * (i + 1024 * j)" by simp
  have "(i * 4096 + j * 2 ^ 22) div 2 ^ 22 = j" using ji by simp
  moreover have "(4096 * (i + 1024 * j)) div 2 ^ 12 mod 1024 = i" using ji by simp
  moreover have "4096 * (i + 1024 * j) mod 4096 = 0" by (rule mod_mult_self1_is_0)
  ultimately show ?thesis unfolding pd_ix_def pt_ix_def u by (simp only: e)
qed

lemma aligned_ix: "aligned p \<Longrightarrow> aligned q \<Longrightarrow> pd_ix p = pd_ix q \<Longrightarrow> pt_ix p = pt_ix q \<Longrightarrow> p = q"
  using page_ix [of p q] aligned_drop_push [of p] aligned_drop_push [of q] by metis

lemma page_at_iff: "aligned p \<Longrightarrow> j < 1024 \<Longrightarrow> i < 1024 \<Longrightarrow> page_at j i = p \<longleftrightarrow> j = pd_ix p \<and> i = pt_ix p"
  using page_at_ix [of j i] aligned_ix [of "page_at j i" p] by auto

section \<open>The invariant of the setup\<close>

definition free_pages :: "physmem \<Rightarrow> u32 set" where
  "free_pages m = {q. page_valid m q \<and> page_refs m q = 0}"

definition tables_of :: "paging \<Rightarrow> nat set" where "tables_of s = {j. has_pt s j}"

lemma finite_tables [simp]: "finite (tables_of s)"
  by (rule finite_subset [of _ "{..<1024}"]) (auto simp: tables_of_def has_pt_def)

text \<open>The pages \<open>K\<close> are those of the kernel and of the hardware, in use from the start; \<open>P\<close> are those mapped so far.\<close>

definition setup_inv :: "u32 \<Rightarrow> u32 set \<Rightarrow> physmem \<Rightarrow> u32 set \<Rightarrow> paging \<Rightarrow> bool" where
  "setup_inv pd K m0 P s \<longleftrightarrow> paging_wf (view pd s) \<and> ram s (ent pd 255) = 0 \<and>
     (\<forall>p \<in> P. aligned p \<and> pd_ix p \<noteq> 255 \<and> writable (pte (view pd s) (pd_ix p) (pt_ix p))) \<and>
     (\<forall>j < 1024. \<forall>i < 1024. j \<noteq> 255 \<longrightarrow> mapped (view pd s) j i = (if page_at j i \<in> P then Some (page_at j i) else None)) \<and>
     page_valid (phys s) = page_valid m0 \<and> (\<forall>p \<in> K. page_refs (phys s) p = page_refs m0 p \<and> \<not> is_table (view pd s) p) \<and>
     card (free_pages (phys s)) + card (tables_of (view pd s)) + 1 = card (free_pages m0)"

lemma setup_entry:
  assumes S: "setup_inv pd K m0 P s" and p: "aligned p" "pd_ix p \<noteq> 255" and wf: "paging_wf (view pd s')"
    and mp: "\<And>k l. k < 1024 \<Longrightarrow> k \<noteq> 255 \<Longrightarrow> l < 1024 \<Longrightarrow>
      mapped (view pd s') k l = (if k = pd_ix p \<and> l = pt_ix p then Some p else mapped (view pd s) k l)"
    and old: "\<And>k l. has_pt (view pd s) k \<Longrightarrow> l < 1024 \<Longrightarrow> (k, l) \<noteq> (pd_ix p, pt_ix p) \<Longrightarrow> pte (view pd s') k l = pte (view pd s) k l"
    and new: "writable (pte (view pd s') (pd_ix p) (pt_ix p))" and z: "ram s' (ent pd 255) = 0"
    and m: "page_valid (phys s') = page_valid (phys s)" "\<And>q. q \<in> K \<Longrightarrow> page_refs (phys s') q = page_refs (phys s) q"
    and t: "\<And>q. q \<in> K \<Longrightarrow> \<not> is_table (view pd s') q"
    and n: "card (free_pages (phys s')) + card (tables_of (view pd s')) = card (free_pages (phys s)) + card (tables_of (view pd s))"
  shows "setup_inv pd K m0 (insert p P) s'"
proof -
  note I = S [unfolded setup_inv_def]
  have "mapped (view pd s') k l = (if page_at k l \<in> insert p P then Some (page_at k l) else None)"
    if "k < 1024" "l < 1024" "k \<noteq> 255" for k l
    using mp [of k l] I page_at_iff [OF p(1), of k l] that by auto
  moreover have "writable (pte (view pd s') (pd_ix q) (pt_ix q))" if "q \<in> insert p P" for q
  proof (cases "q = p")
    case True
    then show ?thesis using new by simp
  next
    case False
    then have q: "q \<in> P" "aligned q" "pd_ix q \<noteq> 255" "writable (pte (view pd s) (pd_ix q) (pt_ix q))" using that I by auto
    have "page_at (pd_ix q) (pt_ix q) = q" using page_at_iff [OF q(2), of "pd_ix q" "pt_ix q"] by simp
    then have "mapped (view pd s) (pd_ix q) (pt_ix q) = Some q" using I q by simp
    then have "has_pt (view pd s) (pd_ix q)" using q by (simp add: mapped_def has_pt_def split: if_splits)
    moreover have "(pd_ix q, pt_ix q) \<noteq> (pd_ix p, pt_ix p)" using aligned_ix [OF q(2) p(1)] False by auto
    ultimately show ?thesis using old [of "pd_ix q" "pt_ix q"] q(4) by simp
  qed
  ultimately show ?thesis unfolding setup_inv_def using I p wf z m t n by auto
qed

text \<open>What the step finds for a page of \<open>K\<close> that is not mapped yet.\<close>

lemma setup_page:
  assumes S: "setup_inv pd K m0 P s" and p: "p \<in> K" "aligned p" "p \<notin> P" "pd_ix p \<noteq> 255"
    and K: "\<forall>q \<in> K. page_valid m0 q \<and> page_refs m0 q \<noteq> 0"
  shows "paging_wf (view pd s)" "aligned pd" "mapped (view pd s) (pd_ix p) (pt_ix p) = None"
    and "page_valid (phys (view pd s)) p" "page_refs (phys (view pd s)) p \<noteq> 0" "\<not> is_table (view pd s) p"
    and "0 = (1 :: nat) \<or> card (maps_to (view pd s) p) < page_refs (phys (view pd s)) p"
    and "ram (view pd s) (ent pd (pd_ix p)) = ram s (ent pd (pd_ix p))"
    and "has_pt (view pd s) (pd_ix p) \<longleftrightarrow> present (ram s (ent pd (pd_ix p)))"
    and "aligned q \<Longrightarrow> q \<noteq> pd \<Longrightarrow> ent q (pt_ix p) \<noteq> ent pd 255"
proof -
  let ?V = "view pd s"
  note I = S [unfolded setup_inv_def]
  show wf: "paging_wf ?V" using I by blast
  show al: "aligned pd" using paging_wfD(2) [OF wf] by simp
  have mp: "mapped ?V k l = (if page_at k l \<in> P then Some (page_at k l) else None)" if "k < 1024" "k \<noteq> 255" "l < 1024" for k l
    using I that by blast
  show "mapped ?V (pd_ix p) (pt_ix p) = None" using mp [OF _ p(4)] page_at_iff [OF p(2), of "pd_ix p" "pt_ix p"] p(3) by simp
  show pv: "page_valid (phys ?V) p" "page_refs (phys ?V) p \<noteq> 0" "\<not> is_table ?V p" using I p(1) K by auto
  have "maps_to ?V p = {}"
  proof -
    have "mapped ?V k l \<noteq> Some p" if "has_pt ?V k" "l < 1024" for k l
      using mp [of k l] that p(3) by (auto simp: has_pt_def)
    then show ?thesis by (auto simp: maps_to_def)
  qed
  then show "0 = (1 :: nat) \<or> card (maps_to ?V p) < page_refs (phys ?V) p" using pv(2) by simp
  show pe: "ram ?V (ent pd (pd_ix p)) = ram s (ent pd (pd_ix p))" using view_pde [OF al, of "pd_ix p"] p(4) by simp
  show "has_pt ?V (pd_ix p) \<longleftrightarrow> present (ram s (ent pd (pd_ix p)))" using p(4) pe by (simp add: has_pt_def)
  show "ent q (pt_ix p) \<noteq> ent pd 255" if "aligned q" "q \<noteq> pd" using ent_eq_iff [OF that(1) al, of "pt_ix p" 255] that(2) by simp
qed

lemma index_entries: "pd + 4 * virt_to_pd_index p = ent pd (pd_ix p)" "q + 4 * virt_to_pt_index p = ent q (pt_ix p)"
  by (simp_all add: virt_ix ent_def)

lemma setup_present:
  assumes S: "setup_inv pd K m0 P s" and p: "p \<in> K" "aligned p" "p \<notin> P" "pd_ix p \<noteq> 255"
    and K: "\<forall>q \<in> K. page_valid m0 q \<and> page_refs m0 q \<noteq> 0" and h: "has_pt (view pd s) (pd_ix p)"
  obtains s' where "paging_setup_map_helper pd p p s = Some (SOS_OK, s')" "setup_inv pd K m0 (insert p P) s'"
      "tables_of (view pd s') = tables_of (view pd s)"
proof -
  let ?V = "view pd s" and ?j = "pd_ix p" and ?i = "pt_ix p" and ?t = "addr_of (ram s (ent pd (pd_ix p)))"
  note I = S [unfolded setup_inv_def] and F = setup_page [OF S p K]
  note W = paging_wfD [OF F(1)]
  have i: "?i < 1024" by simp
  have t: "pt_of ?V ?j = ?t" "?t \<noteq> pd" "aligned ?t" using W(10) [OF h] F(8) by (simp_all add: addr_of_aligned)
  define E where "E = new_pde False p (ram s (ent ?t ?i))"
  have E: "present E" "addr_of E = p" "writable E" using new_pde_fields p(2) by (simp_all add: E_def)
  have np: "\<not> present (ram s (ent ?t ?i))"
    using F(3) h F(9) view_other [OF F(2) t(3,2) i] by (simp add: mapped_def F(8) split: if_splits)
  have u: "page_refs (phys s) ?t = card (used_entries ?V ?j)" "used_entries ?V ?j \<noteq> {}" "page_valid (phys s) ?t"
    using W(11,12,9) [OF h] by (simp_all add: F(8))
  have t0: "?t \<noteq> 0" using page_valid_aligned [OF _ u(3)] W(1) by simp
  have "card (used_entries ?V ?j) \<le> card {..<1024::nat}" by (rule card_mono) (auto simp: used_entries_def)
  then have lim: "page_refs (phys s) ?t < 2 ^ 32 - 1" using u(1) by simp
  obtain r m1 where m1: "sos_physmem_ref_physpage_at ?t (phys s) = Some (r, m1)" "pm_wf m1" "page_valid m1 = page_valid (phys s)"
      "page_refs m1 = (page_refs (phys s))(?t := page_refs (phys s) ?t + 1)"
    using pm.ref_page [OF _ u(3) lim] W(1) by auto
  define s' where "s' = s\<lparr>phys := m1, ram := (ram s)(ent ?t ?i := E)\<rparr>"
  have run: "paging_setup_map_helper pd p p s = Some (SOS_OK, s')"
    using h np m1(1) t0 unfolding paging_setup_map_helper_def Let_def index_entries F(9) by (simp add: s'_def E_def new_pde_def)
  have V': "cr3 (view pd s') = cr3 ?V" "ram (view pd s') = (ram ?V)(ent (pt_of ?V ?j) ?i := E)"
    using F(10) [OF t(3,2)]
    by (simp_all add: view_def s'_def fun_upd_twist F(8) [unfolded view_def, simplified] t(1) [unfolded view_def, simplified])
  note X = entry_written [OF F(1) h i V' E(1)]
  have tK: "?t \<notin> K" using I h t(1) by (auto simp: is_table_def)
  have tb: "tables_of (view pd s') = tables_of ?V" using X(2) by (simp add: tables_of_def)
  have "setup_inv pd K m0 (insert p P) s'"
  proof (rule setup_entry [OF S p(2,4)])
    show "paging_wf (view pd s')"
      by (rule wf_entry [OF F(1) h i V' E(1,2) _ _ F(6,4,5), where c = 0]) (use m1 F(3,7) t(1) in \<open>auto simp: s'_def\<close>)
    show "ram s' (ent pd 255) = 0" using I F(10) [OF t(3,2)] by (simp add: s'_def)
    have "free_pages m1 = free_pages (phys s)" using m1(3,4) u(1,2) by (auto simp: free_pages_def card_eq_0_iff)
    then show "card (free_pages (phys s')) + card (tables_of (view pd s')) = card (free_pages (phys s)) + card (tables_of (view pd s))"
      by (simp add: tb) (simp add: s'_def)
    show "\<not> is_table (view pd s') q" if "q \<in> K" for q
    proof -
      have "\<not> is_table ?V q" using I that by blast
      moreover have "pt_of (view pd s') k = pt_of ?V k" if "has_pt ?V k" for k using X(1) [of k] that by (simp add: has_pt_def)
      ultimately show ?thesis using X(2) by (auto simp: is_table_def)
    qed
  qed (use X(3,4) E h m1(3,4) tK in \<open>auto simp: s'_def\<close>)
  then show thesis using that run tb by blast
qed

lemma setup_fresh:
  assumes S: "setup_inv pd K m0 P s" and p: "p \<in> K" "aligned p" "p \<notin> P" "pd_ix p \<noteq> 255"
    and K: "\<forall>q \<in> K. page_valid m0 q \<and> page_refs m0 q \<noteq> 0" and h: "\<not> has_pt (view pd s) (pd_ix p)"
    and n: "sos_physmem_ref_physpage_new False (phys s) = Some (t, m)" "pm_wf m" "t \<noteq> 0"
    and t: "page_valid (phys s) t" "page_refs (phys s) t = 0"
    and m: "page_valid m = page_valid (phys s)" "page_refs m = (page_refs (phys s))(t := 1)"
  obtains s' where "paging_setup_map_helper pd p p s = Some (SOS_OK, s')" "setup_inv pd K m0 (insert p P) s'"
      "tables_of (view pd s') = insert (pd_ix p) (tables_of (view pd s))"
proof -
  let ?V = "view pd s" and ?j = "pd_ix p" and ?i = "pt_ix p"
  note I = S [unfolded setup_inv_def] and F = setup_page [OF S p K]
  have j: "?j < 1024" and i: "?i < 1024" by simp_all
  have tv: "page_valid (phys ?V) t" "page_refs (phys ?V) t = 0" using t by simp_all
  note T = with_table_entries(4,5) [OF F(1) j p(4) refl tv refl]
  have tp: "t \<noteq> pd" "t \<noteq> p" using T(1) t(2) F(5) by (auto simp: is_table_def)
  have out: "\<forall>l < 1024. ent pd k \<noteq> ent t l" if "k < 1024" for k using ent_eq_iff [OF F(2) T(2) that] tp by simp
  have cu: "(cleared t f)(ent pd k := x) = cleared t (f(ent pd k := x))" if "k < 1024" for f k x
    using cleared_upd [OF out [OF that]] by simp
  have ne: "ent pd ?j \<noteq> ent pd 255" "ent t ?i \<noteq> ent pd 255" using ent_eq_iff [OF F(2) F(2) j, of 255] p(4) F(10) [OF T(2) tp(1)] by simp_all
  define e0 where "e0 = ram s (ent pd ?j)"
  define e where "e = new_pde (user e0) t e0"
  define E where "E = new_pde False p 0"
  have E: "present E" "addr_of E = p" "writable E" using new_pde_fields p(2) by (simp_all add: E_def)
  define s' where "s' = s\<lparr>phys := m, ram := (cleared t ((ram s)(ent pd ?j := e)))(ent t ?i := E)\<rparr>"
  have run: "paging_setup_map_helper pd p p s = Some (SOS_OK, s')"
  proof -
    have "\<exists>l < 1024. ent t ?i = ent t l" using i by blast
    then have z: "cleared t f (ent t ?i) = 0" for f by (simp add: cleared_def)
    have pd0: "cleared t (ram s) (ent pd ?j) = e0" using cleared_other [OF out [OF j]] by (simp add: e0_def)
    show ?thesis
      using h n(1,3) unfolding paging_setup_map_helper_def Let_def index_entries F(9)
      by (simp add: memset_page_cleared pd0 cu [OF j] z s'_def e_def E_def new_pde_keep_user) (simp add: new_pde_def)
  qed
  have V': "cr3 (view pd s') = cr3 ?V" "ram (view pd s') = (ram (with_table ?j t e m ?V))(ent t ?i := E)"
  proof -
    have "((cleared t f)(ent t ?i := E))(ent pd 255 := x) = (cleared t (f(ent pd 255 := x)))(ent t ?i := E)" for f x
      using fun_upd_twist [OF ne(2), of "cleared t f" E x] cu [of 255 f x] by simp
    then show "ram (view pd s') = (ram (with_table ?j t e m ?V))(ent t ?i := E)"
      using fun_upd_twist [OF ne(1), of "ram s" e "new_pde False pd 0"] by (simp add: view_def s'_def with_table_def)
  qed (simp add: view_def s'_def)
  note X = table_entry_written [OF F(1) j p(4) h i e_def tv V' E(1)]
  have tK: "t \<notin> K" using I t(2) K by auto
  have tb: "tables_of (view pd s') = insert ?j (tables_of ?V)" using X(2) by (auto simp: tables_of_def)
  have "setup_inv pd K m0 (insert p P) s'"
  proof (rule setup_entry [OF S p(2,4)])
    show "paging_wf (view pd s')"
      by (rule wf_table_entry [OF F(1) j p(4) h i e_def tv V' E(1,2) _ _ F(6,4,5), where c = 0]) (use n m t F(7) in \<open>auto simp: s'_def\<close>)
    show "ram s' (ent pd 255) = 0" using I ne cleared_other [OF out, of 255] by (simp add: s'_def)
    have "free_pages (phys s) = insert t (free_pages m)" "t \<notin> free_pages m" using m t by (auto simp: free_pages_def)
    moreover have "?j \<notin> tables_of ?V" using h by (simp add: tables_of_def)
    ultimately show "card (free_pages (phys s')) + card (tables_of (view pd s')) = card (free_pages (phys s)) + card (tables_of (view pd s))"
      by (simp add: tb) (simp add: s'_def)
    show "\<not> is_table (view pd s') q" if "q \<in> K" for q
    proof -
      have "\<not> is_table ?V q" "q \<noteq> t" using I that tK by auto
      moreover have "pt_of (view pd s') k = (if k = ?j then t else pt_of ?V k)" if "has_pt (view pd s') k" for k
        using X(1) [of k] X(6) that by (auto simp: has_pt_def)
      ultimately show ?thesis using X(2) by (auto simp: is_table_def split: if_splits)
    qed
  qed (use X(3,4,5) E h m tK in \<open>auto simp: s'_def\<close>)
  then show thesis using that run tb by blast
qed

lemma setup_step:
  assumes S: "setup_inv pd K m0 P s" and p: "p \<in> K" "aligned p" "p \<notin> P" "pd_ix p \<noteq> 255"
    and K: "\<forall>q \<in> K. page_valid m0 q \<and> page_refs m0 q \<noteq> 0"
  obtains (ok) s' where "paging_setup_map_helper pd p p s = Some (SOS_OK, s')" "setup_inv pd K m0 (insert p P) s'"
      "tables_of (view pd s') = insert (pd_ix p) (tables_of (view pd s))"
  | (full) "paging_setup_map_helper pd p p s = Some (- SOS_ENOMEM, s)" "free_pages (phys s) = {}" "pd_ix p \<notin> tables_of (view pd s)"
proof (cases "has_pt (view pd s) (pd_ix p)")
  case True
  then have "insert (pd_ix p) (tables_of (view pd s)) = tables_of (view pd s)" by (auto simp: tables_of_def)
  then show thesis using setup_present [OF S p K True] ok by metis
next
  case h: False
  have "paging_wf (view pd s)" using S by (simp add: setup_inv_def)
  from paging_wfD(1) [OF this] have "pm_wf (phys s)" by simp
  then show thesis
  proof (rule pm.alloc_cases [where b = False])
    assume n: "sos_physmem_ref_physpage_new False (phys s) = Some (0, phys s)"
      and f: "\<forall>q. page_valid (phys s) q \<longrightarrow> page_refs (phys s) q \<noteq> 0"
    have "paging_setup_map_helper pd p p s = Some (- SOS_ENOMEM, s)"
      using h n setup_page(9) [OF S p K] unfolding paging_setup_map_helper_def Let_def index_entries by simp
    moreover have "free_pages (phys s) = {}" using f by (auto simp: free_pages_def)
    ultimately show thesis using full h by (simp add: tables_of_def)
  next
    fix t m
    assume "sos_physmem_ref_physpage_new False (phys s) = Some (t, m)" "pm_wf m" "t \<noteq> 0" "page_valid (phys s) t" "page_refs (phys s) t = 0"
      "page_valid m = page_valid (phys s)" "page_refs m = (page_refs (phys s))(t := 1)"
    from setup_fresh [OF S p K h this] show thesis using ok by blast
  qed
qed

section \<open>The loops of the setup\<close>

definition pages_between :: "u32 \<Rightarrow> u32 \<Rightarrow> u32 set" where
  "pages_between a b = {p. aligned p \<and> a \<le> p \<and> p < b}"

lemma next_page:
  assumes "aligned a" "aligned b" "a < b"
  shows "unat (a + SOS_PAGE_SIZE) = unat a + 4096" "unat a + 4096 \<le> unat b"
proof -
  have l: "unat a < unat b" using assms(3) by (simp add: word_less_nat_alt)
  obtain x y where xy: "unat a = 4096 * x" "unat b = 4096 * y" using assms(1,2) by (meson dvdE mod_0_imp_dvd)
  then show b: "unat a + 4096 \<le> unat b" using l by simp
  have "unat b < 2 ^ 32" using unsigned_less [of b, where 'a = nat] by simp
  then have "unat a + unat (SOS_PAGE_SIZE :: u32) < 2 ^ 32" using b by (simp add: SOS_PAGE_SIZE_def)
  then have "unat (a + SOS_PAGE_SIZE) = unat a + unat (SOS_PAGE_SIZE :: u32)" by (intro unat_add_small) simp
  then show "unat (a + SOS_PAGE_SIZE) = unat a + 4096" by (simp add: SOS_PAGE_SIZE_def)
qed

lemma pages_between_step:
  assumes "aligned a" "aligned b" "a < b"
  shows "pages_between a b = insert a (pages_between (a + SOS_PAGE_SIZE) b)" "a \<notin> pages_between (a + SOS_PAGE_SIZE) b"
proof -
  note n = next_page [OF assms]
  have "a \<le> p \<longleftrightarrow> p = a \<or> a + SOS_PAGE_SIZE \<le> p" if p: "aligned p" for p
  proof -
    obtain x y where xy: "unat a = 4096 * x" "unat p = 4096 * y" using assms(1) p by (meson dvdE mod_0_imp_dvd)
    then have "unat a \<le> unat p \<longleftrightarrow> unat p = unat a \<or> unat a + 4096 \<le> unat p" by auto
    then show ?thesis by (simp add: word_le_nat_alt word_unat_eq_iff n(1))
  qed
  then show "pages_between a b = insert a (pages_between (a + SOS_PAGE_SIZE) b)" using assms by (auto simp: pages_between_def)
  show "a \<notin> pages_between (a + SOS_PAGE_SIZE) b" by (simp add: pages_between_def word_le_nat_alt n(1))
qed

text \<open>The memory is exhausted before all the tables of \<open>J\<close> are there.\<close>

definition out_of_memory :: "u32 \<Rightarrow> u32 set \<Rightarrow> physmem \<Rightarrow> nat set \<Rightarrow> bool" where
  "out_of_memory pd K m0 J \<longleftrightarrow>
     (\<exists>P s. setup_inv pd K m0 P s \<and> free_pages (phys s) = {} \<and> tables_of (view pd s) \<subset> J)"

lemma setup_loop:
  assumes K: "\<forall>q \<in> K. page_valid m0 q \<and> page_refs m0 q \<noteq> 0" and stop: "aligned stop"
  shows "setup_inv pd K m0 P s \<Longrightarrow> aligned pa \<Longrightarrow> pages_between pa stop \<subseteq> K - P \<Longrightarrow> \<forall>p \<in> pages_between pa stop. pd_ix p \<noteq> 255 \<Longrightarrow>
    \<exists>r s'. setup_map_loop pd pa stop s = Some (r, s') \<and>
      (r = SOS_OK \<and> setup_inv pd K m0 (P \<union> pages_between pa stop) s' \<and>
         tables_of (view pd s') = tables_of (view pd s) \<union> pd_ix ` pages_between pa stop \<or>
       r = - SOS_ENOMEM \<and> out_of_memory pd K m0 (tables_of (view pd s) \<union> pd_ix ` pages_between pa stop))"
proof (induction "unat stop - unat pa" arbitrary: pa P s rule: less_induct)
  case less
  show ?case
  proof (cases "pa < stop")
    case False
    then have "pages_between pa stop = {}" by (auto simp: pages_between_def)
    moreover have "setup_map_loop pd pa stop s = Some (SOS_OK, s)" using False by (subst setup_map_loop.simps) simp
    ultimately show ?thesis using less.prems(1) by simp
  next
    case True
    note st = pages_between_step [OF less.prems(2) stop True] and nx = next_page [OF less.prems(2) stop True]
    have loop: "setup_map_loop pd pa stop s = do {
        (r, s) \<leftarrow> paging_setup_map_helper pd pa pa s;
        if r \<noteq> SOS_OK then Some (- SOS_ENOMEM, s) else setup_map_loop pd (pa + SOS_PAGE_SIZE) stop s }"
      using True by (subst setup_map_loop.simps) simp
    have p: "pa \<in> K" "pa \<notin> P" "pd_ix pa \<noteq> 255" using less.prems(3,4) st(1) by auto
    show ?thesis
    proof (rule setup_step [OF less.prems(1) p(1) less.prems(2) p(2,3) K])
      fix s1
      assume s1: "paging_setup_map_helper pd pa pa s = Some (SOS_OK, s1)" "setup_inv pd K m0 (insert pa P) s1"
        "tables_of (view pd s1) = insert (pd_ix pa) (tables_of (view pd s))"
      have "pages_between (pa + SOS_PAGE_SIZE) stop \<subseteq> K - insert pa P" "\<forall>p \<in> pages_between (pa + SOS_PAGE_SIZE) stop. pd_ix p \<noteq> 255"
        "aligned (pa + SOS_PAGE_SIZE)" "unat stop - unat (pa + SOS_PAGE_SIZE) < unat stop - unat pa"
        using less.prems(2-4) st nx by auto
      from less.hyps [OF this(4) s1(2) this(3,1,2)] show ?thesis
        using s1(1,3) unfolding loop st(1) by auto
    next
      assume f: "paging_setup_map_helper pd pa pa s = Some (- SOS_ENOMEM, s)" "free_pages (phys s) = {}" "pd_ix pa \<notin> tables_of (view pd s)"
      have "tables_of (view pd s) \<subset> tables_of (view pd s) \<union> pd_ix ` pages_between pa stop" using f(3) st(1) by auto
      then have "out_of_memory pd K m0 (tables_of (view pd s) \<union> pd_ix ` pages_between pa stop)"
        using less.prems(1) f(2) unfolding out_of_memory_def by blast
      then show ?thesis using f(1) unfolding loop by (simp add: errno_defs)
    qed
  qed
qed

section \<open>Properties\<close>

text \<open>The addresses that the setup maps at themselves: the kernel and the video memory with the BIOS.\<close>

definition identity :: "u32 \<Rightarrow> u32 \<Rightarrow> u32 \<Rightarrow> bool" where
  "identity base stop v \<longleftrightarrow> base \<le> v \<and> v < stop \<or> BIOS_N_VIDEO_START \<le> v \<and> v < BIOS_N_VIDEO_END"

text \<open>The first state of the loops, on a directory that has just been cleared.\<close>

lemma setup_start:
  assumes m: "pm_wf m0" and K: "\<forall>q \<in> K. page_valid m0 q \<and> page_refs m0 q \<noteq> 0"
    and n: "pm_wf m" "page_valid m0 pd" "page_refs m0 pd = 0" "page_valid m = page_valid m0" "page_refs m = (page_refs m0)(pd := 1)"
  shows "setup_inv pd K m0 {} (memset_page pd (s\<lparr>phys := m\<rparr>))" "tables_of (view pd (memset_page pd (s\<lparr>phys := m\<rparr>))) = {}"
proof -
  let ?s = "memset_page pd (s\<lparr>phys := m\<rparr>)"
  have al: "aligned pd" using page_valid_aligned [OF m n(2)] by simp
  have ph: "phys ?s = m" by (simp add: memset_page_cleared)
  have z: "ram ?s (ent pd k) = 0" if "k < 1024" for k using that by (auto simp: memset_page_cleared cleared_def)
  have pd: "ram (view pd ?s) (ent pd k) = (if k = 255 then new_pde False pd 0 else 0)" if "k < 1024" for k
    using view_pde [OF al that] z [OF that] by simp
  have nh: "\<not> has_pt (view pd ?s) k" for k using pd [of k] by (auto simp: has_pt_def)
  then show tb: "tables_of (view pd ?s) = {}" by (simp add: tables_of_def)
  have mt: "maps_to (view pd ?s) p = {}" for p using nh by (simp add: maps_to_def)
  have it: "is_table (view pd ?s) p \<longleftrightarrow> p = pd" for p using nh by (auto simp: is_table_def)
  have mp: "mapped (view pd ?s) k l = None" if "k < 1024" "k \<noteq> 255" for k l using pd [OF that(1)] that(2) by (simp add: mapped_def)
  have "paging_wf (view pd ?s)"
    unfolding paging_wf_def using nh mt n pd [of 255] al new_pde_fields by (simp add: ph)
  moreover have "card (free_pages m0) = card (free_pages m) + 1"
  proof -
    have "free_pages m0 = insert pd (free_pages m)" "pd \<notin> free_pages m" using n by (auto simp: free_pages_def)
    then show ?thesis by simp
  qed
  moreover have "pd \<notin> K" using K n(3) by auto
  ultimately show "setup_inv pd K m0 {} ?s"
    unfolding setup_inv_def using z [of 255] mp n(4,5) by (auto simp: ph tb it)
qed


lemma setup_room: "setup_inv pd K m0 P s \<Longrightarrow> card (tables_of (view pd s)) < card (free_pages m0)"
  by (simp add: setup_inv_def)

lemma out_of_memory_card: "out_of_memory pd K m0 J \<Longrightarrow> finite J \<Longrightarrow> card (free_pages m0) \<le> card J"
proof -
  assume "out_of_memory pd K m0 J" "finite J"
  then obtain P s where "setup_inv pd K m0 P s" "free_pages (phys s) = {}" "tables_of (view pd s) \<subset> J"
    unfolding out_of_memory_def by blast
  then show ?thesis using psubset_card_mono [OF \<open>finite J\<close>, of "tables_of (view pd s)"] by (simp add: setup_inv_def)
qed

lemma helper_full:
  assumes "pm_wf (phys s)" "free_pages (phys s) = {}" "\<not> present (ram s (ent pd (pd_ix p)))"
  shows "paging_setup_map_helper pd p p s = Some (- SOS_ENOMEM, s)"
proof -
  have "sos_physmem_ref_physpage_new False (phys s) = Some (0, phys s)"
    using pm.alloc_full [OF assms(1)] assms(2) by (simp add: free_pages_def)
  then show ?thesis using assms(3) unfolding paging_setup_map_helper_def Let_def virt_ix ent_def by simp
qed

lemma page_of:
  shows "unat (page_at (pd_ix v) (pt_ix v)) = unat v div 4096 * 4096"
    and "page_at (pd_ix v) (pt_ix v) + virt_to_page_offset v = v"
proof -
  have d: "unat v div 4096 = pd_ix v * 1024 + pt_ix v"
    using div_mult_mod_eq [of "unat v div 4096" 1024] by (simp add: pd_ix_def pt_ix_def div_mult2_eq [symmetric])
  have "unat v div 4096 * 4096 \<le> unat v" by simp
  moreover have b: "unat v < 2 ^ 32" using unsigned_less [of v, where 'a = nat] by simp
  ultimately have "pd_ix v * 2 ^ 22 + pt_ix v * 4096 < 2 ^ 32" using d by simp
  then show u: "unat (page_at (pd_ix v) (pt_ix v)) = unat v div 4096 * 4096"
    using unat_of_nat_small [of "pd_ix v * 2 ^ 22 + pt_ix v * 4096"] d by (simp add: page_at_def)
  have "unat (page_at (pd_ix v) (pt_ix v) + virt_to_page_offset v) = unat v"
    using unat_add_small [of "page_at (pd_ix v) (pt_ix v)" "virt_to_page_offset v"] b unfolding u unat_offset by simp
  then show "page_at (pd_ix v) (pt_ix v) + virt_to_page_offset v = v" by (simp add: word_unat_eq_iff)
qed

lemma page_between: "aligned a \<Longrightarrow> aligned b \<Longrightarrow> page_at (pd_ix v) (pt_ix v) \<in> pages_between a b \<longleftrightarrow> a \<le> v \<and> v < b"
proof -
  assume al: "aligned a" "aligned b"
  let ?p = "page_at (pd_ix v) (pt_ix v)"
  obtain x y where xy: "unat a = 4096 * x" "unat b = 4096 * y" using al by (meson dvdE mod_0_imp_dvd)
  have "x \<le> unat v div 4096 \<longleftrightarrow> 4096 * x \<le> unat v" by (simp add: less_eq_div_iff_mult_less_eq mult.commute)
  moreover have "unat v div 4096 < y \<longleftrightarrow> unat v < 4096 * y" by (simp add: div_less_iff_less_mult mult.commute)
  ultimately show ?thesis using page_at_ix [of "pd_ix v" "pt_ix v"]
    by (simp add: pages_between_def word_le_nat_alt word_less_nat_alt page_of xy)
qed

lemma setup_translate:
  assumes S: "setup_inv pd K m0 P s" and v: "pd_ix v \<noteq> 255"
  shows "mmu_translate w (view pd s) v = (if page_at (pd_ix v) (pt_ix v) \<in> P then Some v else None)"
proof -
  let ?V = "view pd s" and ?p = "page_at (pd_ix v) (pt_ix v)"
  note I = S [unfolded setup_inv_def]
  have mp: "mapped ?V (pd_ix v) (pt_ix v) = (if ?p \<in> P then Some ?p else None)" using I v by simp
  show ?thesis
  proof (cases "?p \<in> P")
    case False
    then show ?thesis using mp unfolding translate_ix mapped_def by (auto split: if_splits)
  next
    case True
    then have p: "present (pde ?V (pd_ix v))" "present (pte ?V (pd_ix v) (pt_ix v))" "addr_of (pte ?V (pd_ix v) (pt_ix v)) = ?p"
      using mp unfolding mapped_def by (auto split: if_splits)
    then have "has_pt ?V (pd_ix v)" using v by (simp add: has_pt_def)
    then have "writable (pde ?V (pd_ix v))" using paging_wfD(8) I by blast
    moreover have "writable (pte ?V (pd_ix v) (pt_ix v))" using I True page_at_ix [of "pd_ix v" "pt_ix v"] by auto
    ultimately show ?thesis using p True page_of(2) [of v] unfolding translate_ix by simp
  qed
qed

lemma identity_pages:
  assumes "aligned base" "aligned stop"
  shows "page_at (pd_ix v) (pt_ix v) \<in> pages_between base stop \<union> pages_between BIOS_N_VIDEO_START BIOS_N_VIDEO_END \<longleftrightarrow> identity base stop v"
    and "pd_ix ` {v. identity base stop v} = pd_ix ` (pages_between base stop \<union> pages_between BIOS_N_VIDEO_START BIOS_N_VIDEO_END)"
proof -
  have b: "aligned BIOS_N_VIDEO_START" "aligned BIOS_N_VIDEO_END" by (simp_all add: BIOS_N_VIDEO_START_def BIOS_N_VIDEO_END_def)
  show i: "page_at (pd_ix v) (pt_ix v) \<in> pages_between base stop \<union> pages_between BIOS_N_VIDEO_START BIOS_N_VIDEO_END \<longleftrightarrow> identity base stop v" for v
    unfolding identity_def Un_iff page_between [OF assms] page_between [OF b] ..
  show "pd_ix ` {v. identity base stop v} = pd_ix ` (pages_between base stop \<union> pages_between BIOS_N_VIDEO_START BIOS_N_VIDEO_END)"
  proof
    show "pd_ix ` {v. identity base stop v} \<subseteq> pd_ix ` (pages_between base stop \<union> pages_between BIOS_N_VIDEO_START BIOS_N_VIDEO_END)"
    proof
      fix j assume "j \<in> pd_ix ` {v. identity base stop v}"
      then obtain v where "j = pd_ix v" "identity base stop v" by blast
      then show "j \<in> pd_ix ` (pages_between base stop \<union> pages_between BIOS_N_VIDEO_START BIOS_N_VIDEO_END)"
        using i [of v] page_at_ix [of "pd_ix v" "pt_ix v"] by (metis image_eqI ix_less)
    qed
  qed (auto simp: identity_def pages_between_def)
qed

lemma setup_no_page:
  assumes "pm_wf (phys s)" "free_pages (phys s) = {}"
  shows "\<exists>s'. sos_paging_subsystem_setup base stop s = Some (- SOS_ENOMEM, s')"
proof -
  let ?s = "memset_page 0 s"
  have n: "sos_physmem_ref_physpage_new False (phys s) = Some (0, phys s)"
    using pm.alloc_full [OF assms(1)] assms(2) by (simp add: free_pages_def)
  have e: "\<not> present (ram ?s (ent 0 (pd_ix p)))" for p
  proof -
    have "\<exists>i < 1024. ent 0 (pd_ix p) = ent 0 i" using ix_less(1) by blast
    then have "ram ?s (ent 0 (pd_ix p)) = 0" by (simp add: memset_page_cleared cleared_def)
    then show ?thesis by simp
  qed
  have h: "paging_setup_map_helper 0 p p ?s = Some (- SOS_ENOMEM, ?s)" for p
    by (rule helper_full) (use assms e in \<open>simp_all add: memset_page_cleared\<close>)
  have l: "setup_map_loop 0 a b ?s = (if a < b then Some (- SOS_ENOMEM, ?s) else Some (SOS_OK, ?s))" for a b
    using h [of a] by (subst setup_map_loop.simps) (simp add: errno_defs)
  have "BIOS_N_VIDEO_START < BIOS_N_VIDEO_END" by (simp add: BIOS_N_VIDEO_START_def BIOS_N_VIDEO_END_def)
  then show ?thesis using n l by (auto simp: sos_paging_subsystem_setup_def errno_defs Let_def)
qed

lemma setup_ok:
  assumes wf: "pm_wf (phys s)" and free: "free_pages (phys s) \<noteq> {}" and al: "aligned base" "aligned stop" and above: "BIOS_N_VIDEO_END \<le> base"
    and below: "stop \<le> SOS_PAGING_MIRROR_VADDR" and K: "K = pages_between base stop \<union> pages_between BIOS_N_VIDEO_START BIOS_N_VIDEO_END"
    and used: "\<forall>p \<in> K. page_valid (phys s) p \<and> page_refs (phys s) p \<noteq> 0"
  obtains (ok) pd s1 where "sos_paging_subsystem_setup base stop s = Some (SOS_OK, view pd s1)" "setup_inv pd K (phys s) K s1"
      "tables_of (view pd s1) = pd_ix ` K"
  | (full) pd s1 where "sos_paging_subsystem_setup base stop s = Some (- SOS_ENOMEM, s1)" "out_of_memory pd K (phys s) (pd_ix ` K)"
proof -
  let ?R = "pages_between base stop" and ?V = "pages_between BIOS_N_VIDEO_START BIOS_N_VIDEO_END"
  have b: "aligned BIOS_N_VIDEO_START" "aligned BIOS_N_VIDEO_END" by (simp_all add: BIOS_N_VIDEO_START_def BIOS_N_VIDEO_END_def)
  have disj: "?V \<subseteq> K - ?R" using above by (auto simp: K pages_between_def)
  have n255: "pd_ix p \<noteq> 255" if "p \<in> K" for p
  proof -
    have "BIOS_N_VIDEO_END \<le> SOS_PAGING_MIRROR_VADDR" by (simp add: mirror_vaddr BIOS_N_VIDEO_END_def)
    then have "p < SOS_PAGING_MIRROR_VADDR" using that below by (auto simp: K pages_between_def)
    then have "unat p < 255 * 2 ^ 22" by (simp add: word_less_nat_alt mirror_vaddr)
    then show ?thesis unfolding pd_ix_def using div_less_iff_less_mult [of "2 ^ 22" "unat p" 255] by simp
  qed
  from wf show thesis
  proof (rule pm.alloc_cases [where b = False])
    assume "\<forall>p. page_valid (phys s) p \<longrightarrow> page_refs (phys s) p \<noteq> 0"
    then show thesis using free by (simp add: free_pages_def)
  next
    fix pd m
    assume n: "sos_physmem_ref_physpage_new False (phys s) = Some (pd, m)" "pm_wf m" "page_valid (phys s) pd"
      "page_refs (phys s) pd = 0" "page_valid m = page_valid (phys s)" "page_refs m = (page_refs (phys s))(pd := 1)"
    let ?s = "memset_page pd (s\<lparr>phys := m\<rparr>)"
    note st = setup_start [OF wf used n(2-6), of s]
    have al_pd: "aligned pd" using page_valid_aligned [OF wf n(3)] by simp
    obtain r1 s1 where 1: "setup_map_loop pd base stop ?s = Some (r1, s1)"
      "r1 = SOS_OK \<and> setup_inv pd K (phys s) ?R s1 \<and> tables_of (view pd s1) = pd_ix ` ?R \<or>
       r1 = - SOS_ENOMEM \<and> out_of_memory pd K (phys s) (pd_ix ` ?R)"
      using setup_loop [OF used al(2) st(1) al(1)] n255 by (auto simp: st(2) K)
    show thesis
    proof (cases "r1 = SOS_OK")
      case False
      then have "out_of_memory pd K (phys s) (pd_ix ` K)" using 1(2) unfolding out_of_memory_def K by blast
      then show thesis using full False n(1) 1(1) by (simp add: sos_paging_subsystem_setup_def)
    next
      case True
      then have S1: "setup_inv pd K (phys s) ?R s1" "tables_of (view pd s1) = pd_ix ` ?R" using 1(2) by (auto simp: errno_defs)
      have u: "pd_ix ` ?R \<union> pd_ix ` ?V = pd_ix ` K" by (auto simp: K)
      obtain r2 s2 where 2: "setup_map_loop pd BIOS_N_VIDEO_START BIOS_N_VIDEO_END s1 = Some (r2, s2)"
        "r2 = SOS_OK \<and> setup_inv pd K (phys s) K s2 \<and> tables_of (view pd s2) = pd_ix ` K \<or>
         r2 = - SOS_ENOMEM \<and> out_of_memory pd K (phys s) (pd_ix ` K)"
        using setup_loop [OF used b(2) S1(1) b(1) disj] n255 unfolding S1(2) u K [symmetric] by (auto simp: K)
      show thesis
      proof (cases "r2 = SOS_OK")
        case False
        then have "out_of_memory pd K (phys s) (pd_ix ` K)" using 2(2) by blast
        moreover have "sos_paging_subsystem_setup base stop s = Some (- SOS_ENOMEM, s2)"
          using False 2(1) n(1) 1(1) True by (simp add: sos_paging_subsystem_setup_def)
        ultimately show thesis using full by blast
      next
        case True2: True
        then have S2: "setup_inv pd K (phys s) K s2" "tables_of (view pd s2) = pd_ix ` K" using 2(2) by (auto simp: errno_defs)
        have a: "pd + 4 * virt_to_pd_index SOS_PAGING_MIRROR_VADDR = ent pd 255" unfolding mirror_vaddr(2) ent_def by simp
        have z: "ram s2 (ent pd 255) = 0" using S2(1) by (simp add: setup_inv_def)
        have c: "put_paddr (drop_bit 12 pd) 0 = pd" using aligned_drop_push [OF al_pd] by (simp add: put_paddr_def)
        have "sos_paging_subsystem_setup base stop s = Some (SOS_OK, view pd s2)"
          using n(1) 1(1) 2(1) True True2 unfolding sos_paging_subsystem_setup_def
          by (simp add: Let_def a z c view_def new_pde_def)
        then show thesis using ok S2 by blast
      qed
    qed
  qed
qed

lemma setup_identity:
  assumes "pm_wf (phys s)" and al: "aligned base" "aligned stop" and "BIOS_N_VIDEO_END \<le> base" and "stop \<le> SOS_PAGING_MIRROR_VADDR"
    and used: "\<forall>p. aligned p \<and> identity base stop p \<longrightarrow> page_valid (phys s) p \<and> page_refs (phys s) p \<noteq> 0"
  shows "\<exists>r s'. sos_paging_subsystem_setup base stop s = Some (r, s') \<and>
     r = (if card (pd_ix ` {v. identity base stop v}) < card (free_pages (phys s)) then SOS_OK else - SOS_ENOMEM) \<and>
     (r = SOS_OK \<longrightarrow> paging_wf s' \<and> (\<forall>w v. \<not> in_mirror v \<longrightarrow> mmu_translate w s' v = (if identity base stop v then Some v else None)) \<and>
        (\<forall>p. aligned p \<and> identity base stop p \<longrightarrow> page_valid (phys s') p \<and> page_refs (phys s') p = page_refs (phys s) p))"
proof -
  define K where "K = pages_between base stop \<union> pages_between BIOS_N_VIDEO_START BIOS_N_VIDEO_END"
  have J: "pd_ix ` {v. identity base stop v} = pd_ix ` K" unfolding K_def by (rule identity_pages(2) [OF al])
  have inK: "p \<in> K \<longleftrightarrow> aligned p \<and> identity base stop p" for p by (auto simp: K_def identity_def pages_between_def)
  have fin: "finite (pd_ix ` K)" by simp
  show ?thesis
  proof (cases "free_pages (phys s) = {}")
    case True
    have "\<exists>s'. sos_paging_subsystem_setup base stop s = Some (- SOS_ENOMEM, s')" by (rule setup_no_page [OF assms(1) True])
    then show ?thesis using True by (auto simp: errno_defs)
  next
    case False
    show ?thesis
    proof (rule setup_ok [OF assms(1) False al assms(4,5) K_def])
      show "\<forall>p \<in> K. page_valid (phys s) p \<and> page_refs (phys s) p \<noteq> 0" using used inK by blast
    next
      fix pd s1
      assume s1: "sos_paging_subsystem_setup base stop s = Some (SOS_OK, view pd s1)" "setup_inv pd K (phys s) K s1" "tables_of (view pd s1) = pd_ix ` K"
      have "card (pd_ix ` K) < card (free_pages (phys s))" using setup_room [OF s1(2)] s1(3) by simp
      moreover have "mmu_translate w (view pd s1) v = (if identity base stop v then Some v else None)" if "\<not> in_mirror v" for w v
        using setup_translate [OF s1(2)] that not_in_mirror identity_pages(1) [OF al, of v] unfolding K_def by simp
      ultimately show ?thesis using s1 inK used unfolding J by (auto simp: setup_inv_def)
    next
      fix pd s1
      assume "sos_paging_subsystem_setup base stop s = Some (- SOS_ENOMEM, s1)" "out_of_memory pd K (phys s) (pd_ix ` K)"
      moreover from this(2) have "\<not> card (pd_ix ` K) < card (free_pages (phys s))" using out_of_memory_card [OF _ fin] by (simp add: not_less)
      ultimately show ?thesis unfolding J by (auto simp: errno_defs)
    qed
  qed
qed

lemma aligned_add: "aligned a \<Longrightarrow> aligned b \<Longrightarrow> aligned (a + b)"
  by (simp add: unat_word_ariths mod_eq_0_iff_dvd dvd_mod)

lemma aligned_top: "aligned (kernel_core_top_of e r)"
proof -
  have i: "aligned (SOS_PAGE_ALIGN_INF x)" for x by (simp add: unat_page_align_inf)
  have p: "aligned (SOS_PAGE_SIZE :: u32)" by (simp add: SOS_PAGE_SIZE_def)
  have s: "aligned (SOS_PAGE_ALIGN_SUP x)" for x
  proof (cases "x = 0")
    case False
    have "SOS_PAGE_ALIGN_SUP x = SOS_PAGE_ALIGN_INF (x - 1) + SOS_PAGE_SIZE"
      using align_sup_pos [OF False, of 12] by (simp add: SOS_PAGE_ALIGN_SUP_def SOS_PAGE_ALIGN_INF_def page_size_power)
    then show ?thesis using aligned_add [OF i p] by simp
  qed (simp add: SOS_PAGE_ALIGN_SUP_def SOS_ALIGN_SUP_def SOS_PAGE_SIZE_def)
  show ?thesis unfolding kernel_core_top_of_def PAGE_DESCR_ARRAY_ADDR_def by (rule aligned_add [OF s s])
qed

text \<open>The 159 pages from 0x1000 to the video memory are free.\<close>

lemma low_pages_free:
  assumes m: "pm_wf m" "256 \<le> n_pages m" and b: "BIOS_N_VIDEO_END \<le> b"
    and r: "\<forall>p. page_valid m p \<longrightarrow> page_refs m p = (if BIOS_N_VIDEO_START \<le> p \<and> p < BIOS_N_VIDEO_END \<or> b \<le> p \<and> p < e then 1 else 0)"
  shows "159 \<le> card (free_pages m)"
proof -
  let ?f = "\<lambda>k. word_of_nat (k * 4096) :: u32"
  have u: "unat (?f k) = k * 4096" if "k < 160" for k using unat_of_nat_small [of "k * 4096"] that by simp
  have "?f ` {1..<160} \<subseteq> free_pages m"
  proof
    fix p assume "p \<in> ?f ` {1..<160}"
    then obtain k where k: "p = ?f k" "1 \<le> k" "k < 160" by auto
    then have v: "page_valid m p" using page_valid_iff [OF m(1)] u m(2) by auto
    have "p < BIOS_N_VIDEO_START" using u [OF k(3)] k by (simp add: word_less_nat_alt BIOS_N_VIDEO_START_def)
    moreover have "BIOS_N_VIDEO_START < b" using b by (simp add: word_less_nat_alt word_le_nat_alt BIOS_N_VIDEO_START_def BIOS_N_VIDEO_END_def)
    ultimately have "\<not> BIOS_N_VIDEO_START \<le> p" "\<not> b \<le> p" by simp_all
    then have "page_refs m p = 0" using r v by simp
    then show "p \<in> free_pages m" using v by (simp add: free_pages_def)
  qed
  moreover have "inj_on ?f {1..<160}" using u by (intro inj_onI) (metis atLeastLessThan_iff mult_cancel2 zero_neq_numeral)
  ultimately show ?thesis using card_mono [of "free_pages m" "?f ` {1..<160}"] by (simp add: card_image)
qed

lemma identity_tables:
  assumes "stop \<le> 0x27000000"
  shows "card (pd_ix ` {v. identity base stop v}) \<le> 156"
proof -
  have "pd_ix v < 156" if "identity base stop v" for v
  proof -
    have "(BIOS_N_VIDEO_END :: u32) \<le> 0x27000000" by (simp add: BIOS_N_VIDEO_END_def)
    then have "v < 0x27000000" using that assms by (auto simp: identity_def)
    then have "unat v < 156 * 2 ^ 22" by (simp add: word_less_nat_alt)
    then show ?thesis unfolding pd_ix_def using div_less_iff_less_mult [of "2 ^ 22" "unat v" 156] by simp
  qed
  then have "pd_ix ` {v. identity base stop v} \<subseteq> {..<156}" by auto
  from card_mono [OF _ this] show ?thesis by simp
qed

text \<open>What the set-up of the physical pages leaves to that of paging.\<close>

lemma boot_physmem:
  assumes al: "SOS_IS_PAGE_ALIGNED b_kernel" and above: "BIOS_N_VIDEO_END \<le> b_kernel"
    and stop: "stop = kernel_core_top_of e_kernel (SOS_PAGE_ALIGN_INF ram_size)" "b_kernel \<le> stop" "stop \<le> SOS_PAGE_ALIGN_INF ram_size"
      "stop \<le> 0x27000000"
  obtains m where "sos_physmem_subsystem_setup b_kernel e_kernel ram_size m0 = Some (SOS_OK, b_kernel, stop, m)" "pm_wf m"
    "aligned b_kernel" "aligned stop" "stop \<le> SOS_PAGING_MIRROR_VADDR"
    "\<forall>p. aligned p \<and> identity b_kernel stop p \<longrightarrow> page_valid m p \<and> page_refs m p = 1"
    "card (pd_ix ` {v. identity b_kernel stop v}) < card (free_pages m)"
proof -
  obtain m where m: "sos_physmem_subsystem_setup b_kernel e_kernel ram_size m0 = Some (SOS_OK, b_kernel, stop, m)" "pm_wf m"
      "n_pages m = unat ram_size div 4096"
      "\<forall>p. page_valid m p \<longrightarrow> page_refs m p = (if BIOS_N_VIDEO_START \<le> p \<and> p < BIOS_N_VIDEO_END \<or> b_kernel \<le> p \<and> p < stop then 1 else 0)"
  proof -
    obtain r m where R: "sos_physmem_subsystem_setup b_kernel e_kernel ram_size m0 = Some (r, b_kernel, stop, m)"
      "r = (if SOS_PAGE_ALIGN_INF ram_size < stop then - SOS_ENOMEM else SOS_OK)"
      "r = SOS_OK \<longrightarrow> pm_wf m \<and> n_pages m = unat ram_size div 4096 \<and>
        (\<forall>p. page_valid m p \<longrightarrow>
           page_refs m p = (if BIOS_N_VIDEO_START \<le> p \<and> p < BIOS_N_VIDEO_END \<or> b_kernel \<le> p \<and> p < stop then 1 else 0))"
      using setup_classifies [OF al above, of ram_size e_kernel m0] unfolding Let_def stop(1) [symmetric] by blast
    moreover have "r = SOS_OK" using R(2) leD [OF stop(3)] by simp
    ultimately show thesis using that by simp
  qed
  have ram: "unat (SOS_PAGE_ALIGN_INF ram_size) = n_pages m * 4096" by (simp add: unat_page_align_inf m(3))
  have n: "256 \<le> n_pages m"
  proof -
    have "BIOS_N_VIDEO_END \<le> SOS_PAGE_ALIGN_INF ram_size" using above stop(2,3) by simp
    then show ?thesis using ram by (simp add: word_le_nat_alt BIOS_N_VIDEO_END_def)
  qed
  have ab: "aligned b_kernel" using al by (simp add: is_page_aligned_iff)
  have as: "aligned stop" by (simp add: stop(1) aligned_top del: mod_eq_0_iff_dvd)
  have used: "page_valid m p \<and> page_refs m p = 1" if p: "aligned p" "identity b_kernel stop p" for p
  proof -
    have lt: "p < SOS_PAGE_ALIGN_INF ram_size" and lo: "BIOS_N_VIDEO_START \<le> p"
      using p(2) above stop(2,3) by (auto simp: identity_def BIOS_N_VIDEO_START_def BIOS_N_VIDEO_END_def word_less_nat_alt word_le_nat_alt)
    obtain k where k: "unat p = 4096 * k" using p(1) by (meson dvdE mod_0_imp_dvd)
    then have "1 \<le> k" "k < n_pages m" using lt lo ram by (simp_all add: word_less_nat_alt word_le_nat_alt BIOS_N_VIDEO_START_def)
    then have "page_valid m p" using page_valid_iff [OF m(2)] k by (auto simp: mult.commute)
    then show ?thesis using m(4) p(2) by (auto simp: identity_def)
  qed
  have "159 \<le> card (free_pages m)" by (rule low_pages_free [OF m(2) n above m(4)])
  then have room: "card (pd_ix ` {v. identity b_kernel stop v}) < card (free_pages m)" using identity_tables [OF stop(4), of b_kernel] by linarith
  have mir: "stop \<le> SOS_PAGING_MIRROR_VADDR" using stop(4) by (simp add: mirror_vaddr word_le_nat_alt)
  show thesis by (rule that [OF m(1,2) ab as mir _ room]) (intro allI impI, elim conjE, rule used)
qed

lemma example_boot_sizes: "SOS_IS_PAGE_ALIGNED 0x200000" "BIOS_N_VIDEO_END \<le> 0x200000"
    "0x254000 = kernel_core_top_of 0x240000 (SOS_PAGE_ALIGN_INF 0x1000000)" "(0x200000 :: u32) \<le> 0x254000"
    "0x254000 \<le> SOS_PAGE_ALIGN_INF 0x1000000" "(0x254000 :: u32) \<le> 0x27000000"
  by code_simp+

text \<open>
  C9: The set-up of paging, when the pages of the kernel and of the hardware are in use. It returns, with success exactly when there are
  more free pages than the page tables it needs: the state is then well formed, the kernel and the hardware are mapped at
  their own addresses, for reading and writing, no other address outside of the mirror is mapped, and the counts of their pages are as before.
\<close>

theorem paging_setup_identity:
  assumes "pm_wf (phys s)" and al: "aligned base" "aligned stop" and "BIOS_N_VIDEO_END \<le> base" and "stop \<le> SOS_PAGING_MIRROR_VADDR"
    and used: "\<forall>p. aligned p \<and> identity base stop p \<longrightarrow> page_valid (phys s) p \<and> page_refs (phys s) p \<noteq> 0"
  shows "\<exists>r s'. sos_paging_subsystem_setup base stop s = Some (r, s') \<and>
     r = (if card (pd_ix ` {v. identity base stop v}) < card (free_pages (phys s)) then SOS_OK else - SOS_ENOMEM) \<and>
     (r = SOS_OK \<longrightarrow> paging_wf s' \<and> (\<forall>w v. \<not> in_mirror v \<longrightarrow> mmu_translate w s' v = (if identity base stop v then Some v else None)) \<and>
        (\<forall>p. aligned p \<and> identity base stop p \<longrightarrow> page_valid (phys s') p \<and> page_refs (phys s') p = page_refs (phys s) p))"
  by (rule setup_identity [OF assms])

theorem paging_setup_identity_witness:
  "\<exists>m s'. sos_paging_subsystem_setup 0x200000 0x254000 (pg_example\<lparr>phys := m\<rparr>) = Some (SOS_OK, s') \<and> paging_wf s' \<and>
     mmu_translate True s' 0x253fff = Some 0x253fff \<and> mmu_translate False s' 0x1ffff0 = None"
proof (rule boot_physmem [OF example_boot_sizes, of pm_example])
  fix m
  assume m: "pm_wf m" "aligned 0x200000" "aligned 0x254000" "0x254000 \<le> SOS_PAGING_MIRROR_VADDR"
    "\<forall>p. aligned p \<and> identity 0x200000 0x254000 p \<longrightarrow> page_valid m p \<and> page_refs m p = 1"
    "card (pd_ix ` {v. identity 0x200000 0x254000 v}) < card (free_pages m)"
  have i: "\<not> in_mirror 0x253fff" "\<not> in_mirror 0x1ffff0" "identity 0x200000 0x254000 0x253fff" "\<not> identity 0x200000 0x254000 0x1ffff0"
    by (simp_all add: identity_def in_mirror_def mirror_vaddr SOS_PAGING_MIRROR_SIZE_def BIOS_N_VIDEO_START_def BIOS_N_VIDEO_END_def)
  obtain s' where "sos_paging_subsystem_setup 0x200000 0x254000 (pg_example\<lparr>phys := m\<rparr>) = Some (SOS_OK, s')" "paging_wf s'"
      "\<forall>w v. \<not> in_mirror v \<longrightarrow> mmu_translate w s' v = (if identity 0x200000 0x254000 v then Some v else None)"
    using paging_setup_identity [of "pg_example\<lparr>phys := m\<rparr>" "0x200000" "0x254000"] m example_boot_sizes(2) by auto
  then show ?thesis using i by (intro exI [of _ m] exI [of _ s']) simp
qed

text \<open>
  C10: The memory at boot, from the sizes that the loader and the linker give: when the kernel, with the descriptors of the pages behind it,
  ends below the end of the memory and below 624 MB, the set-up of the physical pages and then of paging succeed, whatever the memory held. The tables are
  well formed, the kernel and the hardware are mapped at their own addresses and nothing else is outside of the mirror, and each of their pages is in use once.
\<close>

theorem boot_memory_mapped:
  assumes al: "SOS_IS_PAGE_ALIGNED b_kernel" and above: "BIOS_N_VIDEO_END \<le> b_kernel"
    and stop: "stop = kernel_core_top_of e_kernel (SOS_PAGE_ALIGN_INF ram_size)" "b_kernel \<le> stop" "stop \<le> SOS_PAGE_ALIGN_INF ram_size"
      "stop \<le> 0x27000000"
  shows "\<exists>m g. sos_physmem_subsystem_setup b_kernel e_kernel ram_size m0 = Some (SOS_OK, b_kernel, stop, m) \<and>
     sos_paging_subsystem_setup b_kernel stop (s\<lparr>phys := m\<rparr>) = Some (SOS_OK, g) \<and> paging_wf g \<and>
     (\<forall>w v. \<not> in_mirror v \<longrightarrow> mmu_translate w g v = (if identity b_kernel stop v then Some v else None)) \<and>
     (\<forall>p. aligned p \<and> identity b_kernel stop p \<longrightarrow> page_valid (phys g) p \<and> page_refs (phys g) p = 1)"
proof (rule boot_physmem [OF assms, of m0])
  fix m
  assume m: "sos_physmem_subsystem_setup b_kernel e_kernel ram_size m0 = Some (SOS_OK, b_kernel, stop, m)" "pm_wf m"
    "aligned b_kernel" "aligned stop" "stop \<le> SOS_PAGING_MIRROR_VADDR"
    "\<forall>p. aligned p \<and> identity b_kernel stop p \<longrightarrow> page_valid m p \<and> page_refs m p = 1"
    "card (pd_ix ` {v. identity b_kernel stop v}) < card (free_pages m)"
  show ?thesis using setup_identity [of "s\<lparr>phys := m\<rparr>" b_kernel stop] m above by simp
qed

theorem boot_memory_mapped_witness:
  "\<exists>m g. sos_physmem_subsystem_setup 0x200000 0x240000 0x1000000 pm_example = Some (SOS_OK, 0x200000, 0x254000, m) \<and>
     sos_paging_subsystem_setup 0x200000 0x254000 (pg_example\<lparr>phys := m\<rparr>) = Some (SOS_OK, g) \<and> paging_wf g \<and>
     mmu_translate True g 0x200010 = Some 0x200010 \<and> mmu_translate False g 0x254000 = None \<and> page_refs (phys g) 0xb8000 = 1"
proof -
  have i: "\<not> in_mirror 0x200010" "\<not> in_mirror 0x254000" "identity 0x200000 0x254000 0x200010" "\<not> identity 0x200000 0x254000 0x254000"
    "identity 0x200000 0x254000 0xb8000" "aligned 0xb8000"
    by (simp_all add: identity_def in_mirror_def mirror_vaddr SOS_PAGING_MIRROR_SIZE_def BIOS_N_VIDEO_START_def BIOS_N_VIDEO_END_def)
  show ?thesis using boot_memory_mapped [OF example_boot_sizes, of pm_example pg_example] i by metis
qed

end
