(* ===== verification/Kthread.thy ===== *)
theory Kthread
  imports Ktime Cpu_context
begin

text \<open>
  Kernel threads and the scheduler (\<^verbatim>\<open>os/thread.c\<close>, \<^verbatim>\<open>os/sched.c\<close>). A thread, a wait queue
  entry, a timeout action is identified by its address. A routine that switches to another thread is
  cut at the switch: its \<open>begin\<close> part runs up to the switch and tells whether one happened, its
  \<open>end\<close> part is what the thread runs once it gets the CPU back. Each part runs with interrupts
  disabled, as the code has it, so it is one atomic step. Creating a thread is the exception: its
  \<open>end\<close> part is \<open>sos_sched_set_ready\<close>, which the code calls with the interrupts enabled although
  \<^verbatim>\<open>sched.h\<close> asks its callers to disable them. An interrupt before or after that call is a step of its
  own; one in the middle of its update of the ready queue is not modelled.
\<close>

section \<open>State\<close>

datatype sos_thread_state =
  SOS_THR_CREATED | SOS_THR_READY | SOS_THR_RUNNING | SOS_THR_BLOCKED | SOS_THR_ZOMBIE

record sos_thread =
  thr_name :: string
  thr_state :: sos_thread_state
  thr_cpu_state :: u32
  kernel_stack_base_addr :: sos_vaddr_t
  kernel_stack_size :: sos_size_t
  kwaitq_list :: "nat list"

record sos_kwaitq_entry =
  entry_thread :: "nat option"
  entry_kwaitq :: "nat option"
  wakeup_triggered :: bool
  wakeup_status :: sos_ret_t

record sleep_timeout_params =
  thread_to_wakeup :: "nat option"
  timeout_triggered :: bool

text \<open>The routines that the kernel puts in timeout actions.\<close>

datatype timeout_routine = Sleep_timeout

record kernel = "(timeout_routine, nat) ktime" +
  threads :: "nat \<Rightarrow> sos_thread"
  current_thread :: "nat option"
  thread_list :: "nat list"
  ready_list :: "nat list"
  nr_threads :: u32
  waiting_list :: "nat \<Rightarrow> nat list"
  entries :: "nat \<Rightarrow> sos_kwaitq_entry"
  sleepers :: "nat \<Rightarrow> sleep_timeout_params"
  ksema_value :: "nat \<Rightarrow> int"
  kmutex_owner :: "nat \<Rightarrow> nat option"
  kmem :: mem
  irq_nested_level :: u32

abbreviation tstate :: "kernel \<Rightarrow> nat \<Rightarrow> sos_thread_state" where
  "tstate s t \<equiv> thr_state (threads s t)"

definition upd_thread :: "nat \<Rightarrow> (sos_thread \<Rightarrow> sos_thread) \<Rightarrow> kernel \<Rightarrow> kernel" where
  "upd_thread t f s = s\<lparr>threads := (threads s)(t := f (threads s t))\<rparr>"

definition set_state :: "nat \<Rightarrow> sos_thread_state \<Rightarrow> kernel \<Rightarrow> kernel" where
  "set_state t st s = upd_thread t (thr_state_update (\<lambda>_. st)) s"

definition sos_servicing_irq :: "kernel \<Rightarrow> bool" where
  "sos_servicing_irq s \<longleftrightarrow> irq_nested_level s > 0"

section \<open>The scheduler\<close>

definition sos_sched_subsystem_setup :: "kernel \<Rightarrow> sos_ret_t \<times> kernel" where
  "sos_sched_subsystem_setup s = (SOS_OK, s\<lparr>ready_list := [], nr_threads := 0\<rparr>)"

definition add_in_ready_queue :: "nat \<Rightarrow> bool \<Rightarrow> kernel \<Rightarrow> (sos_ret_t \<times> kernel) option" where
  "add_in_ready_queue thr insert_at_tail s = do {
     sos_assert_fatal (tstate s thr = SOS_THR_CREATED \<or> tstate s thr = SOS_THR_RUNNING
                       \<or> tstate s thr = SOS_THR_BLOCKED);
     let s = (if insert_at_tail then s\<lparr>ready_list := add_tail thr (ready_list s)\<rparr>
              else s\<lparr>ready_list := add_head thr (ready_list s)\<rparr>);
     let s = s\<lparr>nr_threads := nr_threads s + 1\<rparr>;
     Some (SOS_OK, set_state thr SOS_THR_READY s) }"

definition sos_sched_set_ready :: "nat \<Rightarrow> kernel \<Rightarrow> (sos_ret_t \<times> kernel) option" where
  "sos_sched_set_ready thr s =
     (if tstate s thr = SOS_THR_READY then Some (SOS_OK, s) else add_in_ready_queue thr True s)"

definition sos_reschedule :: "nat \<Rightarrow> bool \<Rightarrow> kernel \<Rightarrow> (nat \<times> kernel) option" where
  "sos_reschedule current do_yield s = do {
     s \<leftarrow> (if tstate s current = SOS_THR_ZOMBIE then Some s
           else if tstate s current \<noteq> SOS_THR_BLOCKED
           then (if do_yield then map_option snd (add_in_ready_queue current True s)
                 else map_option snd (add_in_ready_queue current False s))
           else Some s);
     if nr_threads s > 0
     then do {
       (next_thr, l) \<leftarrow> pop_head (ready_list s);
       let s = s\<lparr>ready_list := l\<rparr>;
       Some (next_thr, s\<lparr>nr_threads := nr_threads s - 1\<rparr>) }
     else None }"

section \<open>Threads\<close>

definition SOS_THREAD_KERNEL_STACK_SIZE :: sos_size_t where
  "SOS_THREAD_KERNEL_STACK_SIZE = 1 * SOS_PAGE_SIZE"

definition SOS_THR_MAX_NAMELEN :: nat where
  "SOS_THR_MAX_NAMELEN = 32"

definition sos_thread_get_current :: "kernel \<Rightarrow> nat option" where
  "sos_thread_get_current s = do {
     t \<leftarrow> current_thread s;
     sos_assert_fatal (tstate s t = SOS_THR_RUNNING);
     Some t }"

definition set_current :: "nat \<Rightarrow> kernel \<Rightarrow> (sos_ret_t \<times> kernel) option" where
  "set_current thr s = do {
     sos_assert_fatal (tstate s thr = SOS_THR_READY);
     let s = s\<lparr>current_thread := Some thr\<rparr>;
     Some (SOS_OK, set_state thr SOS_THR_RUNNING s) }"

text \<open>
  The memory for the thread structure and the stack comes from the allocators: the pointers they
  return are arguments, null (\<open>None\<close>, 0) when they fail. A new structure is zero-filled.
\<close>

definition zero_thread :: sos_thread where
  "zero_thread = \<lparr>thr_name = '''', thr_state = SOS_THR_CREATED, thr_cpu_state = 0,
     kernel_stack_base_addr = 0, kernel_stack_size = 0, kwaitq_list = []\<rparr>"

definition sos_thread_subsystem_setup ::
    "bool \<Rightarrow> nat option \<Rightarrow> sos_vaddr_t \<Rightarrow> sos_size_t \<Rightarrow> kernel \<Rightarrow> (sos_ret_t \<times> kernel) option" where
  "sos_thread_subsystem_setup cache_ok new_thread stack_base stack_size s =
     (if \<not> cache_ok then Some (- SOS_ENOMEM, s)
      else case new_thread of None \<Rightarrow> Some (- SOS_ENOMEM, s) | Some myself \<Rightarrow> do {
        let s = upd_thread myself (\<lambda>_. zero_thread\<lparr>thr_name := ''[kinit]'',
                  thr_state := SOS_THR_CREATED, kernel_stack_base_addr := stack_base,
                  kernel_stack_size := stack_size\<rparr>) s;
        let s = s\<lparr>kmem := sos_cpu_state_prepare_detect_kernel_stack_overflow stack_base stack_size (kmem s)\<rparr>;
        let s = s\<lparr>thread_list := [myself]\<rparr>;
        let s = set_state myself SOS_THR_READY s;
        (_, s) \<leftarrow> set_current myself s;
        Some (SOS_OK, s) })"

text \<open>
  Creating a thread, cut where the code enables the interrupts again (\<^verbatim>\<open>thread.c:170\<close>): the new
  thread is then in the list of threads and not ready yet, and \<open>sos_sched_set_ready\<close> runs with the
  interrupts enabled. The first result is \<open>Inr\<close> the new thread when the creation goes on, or \<open>Inl\<close>
  the addresses given back to the allocators when it failed; the result of the whole is the new
  thread with those addresses.
\<close>

definition sos_create_kernel_thread_begin ::
    "u32 \<Rightarrow> u32 \<Rightarrow> string option \<Rightarrow> u32 option \<Rightarrow> u32 \<Rightarrow> nat option \<Rightarrow> sos_vaddr_t \<Rightarrow> kernel
     \<Rightarrow> ((u32 list \<times> nat list) + nat) \<times> kernel" where
  "sos_create_kernel_thread_begin core_routine thread_exit tname start_func start_arg new_thread stack s =
     (case start_func of None \<Rightarrow> (Inl ([], []), s) | Some start_func \<Rightarrow>
      case new_thread of None \<Rightarrow> (Inl ([], []), s) | Some new_thread \<Rightarrow>
        let s = upd_thread new_thread (\<lambda>_. zero_thread\<lparr>
                  thr_name := take (SOS_THR_MAX_NAMELEN - 1)
                    (case tname of Some n \<Rightarrow> n | None \<Rightarrow> ''[NONAME]''),
                  thr_state := SOS_THR_CREATED,
                  kernel_stack_base_addr := stack,
                  kernel_stack_size := SOS_THREAD_KERNEL_STACK_SIZE\<rparr>) s in
        if stack = 0 then (Inl ([], [new_thread]), s)
        else case sos_cpu_kstate_init core_routine start_func start_arg stack
                    SOS_THREAD_KERNEL_STACK_SIZE thread_exit 0 (kmem s) of (r, ctxt, m) \<Rightarrow>
        if r \<noteq> SOS_OK then (Inl ([stack], [new_thread]), s)
        else
          let s = upd_thread new_thread (thr_cpu_state_update (\<lambda>_. ctxt)) (s\<lparr>kmem := m\<rparr>);
              s = s\<lparr>thread_list := add_tail new_thread (thread_list s)\<rparr> in
          (Inr new_thread, s))"

definition sos_create_kernel_thread_end :: "nat \<Rightarrow> sos_vaddr_t \<Rightarrow> kernel
     \<Rightarrow> (nat option \<times> u32 list \<times> nat list \<times> kernel) option" where
  "sos_create_kernel_thread_end new_thread stack s = do {
     (r, s) \<leftarrow> sos_sched_set_ready new_thread s;
     if r \<noteq> SOS_OK then Some (None, [stack], [new_thread], s)
     else Some (Some new_thread, [], [], s) }"

definition sos_create_kernel_thread ::
    "u32 \<Rightarrow> u32 \<Rightarrow> string option \<Rightarrow> u32 option \<Rightarrow> u32 \<Rightarrow> nat option \<Rightarrow> sos_vaddr_t \<Rightarrow> kernel
     \<Rightarrow> (nat option \<times> u32 list \<times> nat list \<times> kernel) option" where
  "sos_create_kernel_thread core_routine thread_exit tname start_func start_arg new_thread stack s =
     (case sos_create_kernel_thread_begin core_routine thread_exit tname start_func start_arg new_thread stack s of
        (Inl (stacks, freed), s) \<Rightarrow> Some (None, stacks, freed, s)
      | (Inr new_thread, s) \<Rightarrow> sos_create_kernel_thread_end new_thread stack s)"

definition delete_thread :: "nat \<Rightarrow> kernel \<Rightarrow> (u32 list \<times> nat list \<times> kernel) option" where
  "delete_thread thr s = do {
     l \<leftarrow> list_delete thr (thread_list s);
     let s = s\<lparr>thread_list := l\<rparr>;
     let stack = kernel_stack_base_addr (threads s thr);
     Some ([stack], [thr], upd_thread thr (\<lambda>_. zero_thread) s) }"

definition stack_check :: "nat \<Rightarrow> kernel \<Rightarrow> unit option" where
  "stack_check t s = sos_cpu_state_detect_kernel_stack_overflow (thr_cpu_state (threads s t))
     (kernel_stack_base_addr (threads s t)) (kernel_stack_size (threads s t)) (kmem s)"

definition sos_thread_exit :: "kernel \<Rightarrow> (u32 list \<times> nat list \<times> kernel) option" where
  "sos_thread_exit s = do {
     sos_assert_fatal (\<not> sos_servicing_irq s);
     myself \<leftarrow> sos_thread_get_current s;
     sos_assert_fatal (kwaitq_list (threads s myself) = []);
     let s = set_state myself SOS_THR_ZOMBIE s;
     (next_thread, s) \<leftarrow> sos_reschedule myself False s;
     stack_check next_thread s;
     (_, s) \<leftarrow> set_current next_thread s;
     delete_thread myself s }"

definition sos_thread_get_state :: "nat option \<Rightarrow> kernel \<Rightarrow> sos_thread_state option" where
  "sos_thread_get_state thr s =
     (case thr of None \<Rightarrow> map_option (tstate s) (current_thread s) | Some t \<Rightarrow> Some (tstate s t))"

datatype switch_type = YIELD_MYSELF | BLOCK_MYSELF

text \<open>
  Up to the context switch. The result tells whether the CPU left the thread. \<open>r\<close> are the
  registers of the thread when it calls the switch.
\<close>

definition switch_begin :: "switch_type \<Rightarrow> u32 \<Rightarrow> cpu_regs \<Rightarrow> kernel \<Rightarrow> (bool \<times> kernel) option" where
  "switch_begin operation resume_pc r s = do {
     myself \<leftarrow> current_thread s;
     sos_assert_fatal (tstate s myself = SOS_THR_RUNNING);
     sos_assert_fatal (\<not> sos_servicing_irq s);
     let s = (if operation = BLOCK_MYSELF then set_state myself SOS_THR_BLOCKED s else s);
     (next_thread, s) \<leftarrow> sos_reschedule myself (operation = YIELD_MYSELF) s;
     if myself \<noteq> next_thread
     then do {
       stack_check next_thread s;
       (_, s) \<leftarrow> set_current next_thread s;
       let (ctxt, m) = save_context resume_pc r (kmem s);
       Some (True, upd_thread myself (thr_cpu_state_update (\<lambda>_. ctxt)) (s\<lparr>kmem := m\<rparr>)) }
     else do {
       (_, s) \<leftarrow> set_current next_thread s;
       Some (False, s) } }"

text \<open>Back on the CPU.\<close>

definition switch_end :: "nat \<Rightarrow> kernel \<Rightarrow> sos_ret_t option" where
  "switch_end myself s = do {
     sos_assert_fatal (current_thread s = Some myself);
     sos_assert_fatal (tstate s myself = SOS_THR_RUNNING);
     Some SOS_OK }"

definition sos_thread_yield_begin :: "u32 \<Rightarrow> cpu_regs \<Rightarrow> kernel \<Rightarrow> (bool \<times> kernel) option" where
  "sos_thread_yield_begin resume_pc r s = switch_begin YIELD_MYSELF resume_pc r s"

definition sos_thread_force_unblock :: "nat option \<Rightarrow> kernel \<Rightarrow> (sos_ret_t \<times> kernel) option" where
  "sos_thread_force_unblock thr s =
     (case thr of
        None \<Rightarrow> Some (- SOS_EINVAL, s)
      | Some t \<Rightarrow>
          (case tstate s t of
             SOS_THR_RUNNING \<Rightarrow> Some (SOS_OK, s)
           | SOS_THR_READY \<Rightarrow> Some (SOS_OK, s)
           | SOS_THR_ZOMBIE \<Rightarrow> Some (- SOS_EFATAL, s)
           | _ \<Rightarrow> sos_sched_set_ready t s))"

definition sleep_timeout :: "nat \<Rightarrow> kernel \<Rightarrow> kernel option" where
  "sleep_timeout act s = do {
     let params = routine_data (timeout_actions s act);
     let s = s\<lparr>sleepers := (sleepers s)(params := (sleepers s params)\<lparr>timeout_triggered := True\<rparr>)\<rparr>;
     (ret, s) \<leftarrow> sos_thread_force_unblock (thread_to_wakeup (sleepers s params)) s;
     sos_assert_fatal (ret = SOS_OK);
     Some s }"

definition call_routine :: "timeout_routine \<Rightarrow> nat \<Rightarrow> kernel \<Rightarrow> kernel option" where
  "call_routine rt act s = (case rt of Sleep_timeout \<Rightarrow> sleep_timeout act s)"

text \<open>\<^verbatim>\<open>sos_time_init_action\<close> clears the links of an action: it must not be pending.\<close>

definition sos_time_init_action :: "nat \<Rightarrow> kernel \<Rightarrow> unit option" where
  "sos_time_init_action act s = (if act \<in> set (timeout_action_list s) then None else Some ())"

text \<open>
  The timeout action and the parameters of the callback are local variables of the caller: \<open>act\<close>
  and \<open>params\<close> are their addresses.
\<close>

definition sos_thread_sleep_begin ::
    "sos_time option \<Rightarrow> nat \<Rightarrow> nat \<Rightarrow> u32 \<Rightarrow> cpu_regs \<Rightarrow> kernel \<Rightarrow> (bool \<times> kernel) option" where
  "sos_thread_sleep_begin delay act params resume_pc r s =
     (case delay of
        None \<Rightarrow> switch_begin BLOCK_MYSELF resume_pc r s
      | Some t \<Rightarrow> do {
          sos_time_init_action act s;
          let s = s\<lparr>sleepers := (sleepers s)(params :=
                      \<lparr>thread_to_wakeup = current_thread s, timeout_triggered = False\<rparr>)\<rparr>;
          let (ret, s) = sos_time_register_action_relative (Some act) (Some t) (Some Sleep_timeout) params s;
          sos_assert_fatal (ret = SOS_OK);
          switch_begin BLOCK_MYSELF resume_pc r s })"

text \<open>The result is the return value and the time remaining, written back to the caller's delay.\<close>

definition sos_thread_sleep_end ::
    "sos_time option \<Rightarrow> nat \<Rightarrow> nat \<Rightarrow> nat \<Rightarrow> kernel \<Rightarrow> (sos_ret_t \<times> sos_time option \<times> kernel) option" where
  "sos_thread_sleep_end delay act params myself s =
     (case delay of
        None \<Rightarrow> do {
          retval \<leftarrow> switch_end myself s;
          Some (retval, None, s) }
      | Some t \<Rightarrow> do {
          switch_end myself s;
          (retval, s) \<leftarrow>
            (if timeout_triggered (sleepers s params)
             then do {
               sos_assert_fatal (sos_time_is_zero (due s act));
               Some (SOS_OK, s) }
             else do {
               (ret, s) \<leftarrow> sos_time_unregister_action act s;
               sos_assert_fatal (ret = SOS_OK);
               Some (- SOS_EINTR, s) });
          Some (retval, Some (due s act), s) })"


section \<open>Scheduling invariants\<close>

definition queue_wf :: "kernel \<Rightarrow> bool" where
  "queue_wf s \<longleftrightarrow>
     distinct (ready_list s) \<and> (\<forall>t. t \<in> set (ready_list s) \<longleftrightarrow> tstate s t = SOS_THR_READY) \<and>
     nr_threads s = word_of_nat (length (ready_list s)) \<and>
     distinct (thread_list s) \<and> length (thread_list s) < 2 ^ 32 \<and>
     (\<forall>t. tstate s t \<noteq> SOS_THR_CREATED \<longrightarrow> t \<in> set (thread_list s))"

definition running :: "nat \<Rightarrow> kernel \<Rightarrow> bool" where
  "running c s \<longleftrightarrow> current_thread s = Some c \<and> (\<forall>t. tstate s t = SOS_THR_RUNNING \<longleftrightarrow> t = c)"

lemma upd_thread_sel [simp]:
  "timeout_action_list (upd_thread t f s) = timeout_action_list s"
  "timeout_actions (upd_thread t f s) = timeout_actions s"
  "last_tick_time (upd_thread t f s) = last_tick_time s"
  "tick_resolution (upd_thread t f s) = tick_resolution s"
  "threads (upd_thread t f s) = (threads s)(t := f (threads s t))"
  "current_thread (upd_thread t f s) = current_thread s"
  "thread_list (upd_thread t f s) = thread_list s"
  "ready_list (upd_thread t f s) = ready_list s"
  "nr_threads (upd_thread t f s) = nr_threads s"
  "waiting_list (upd_thread t f s) = waiting_list s"
  "entries (upd_thread t f s) = entries s"
  "sleepers (upd_thread t f s) = sleepers s"
  "ksema_value (upd_thread t f s) = ksema_value s"
  "kmutex_owner (upd_thread t f s) = kmutex_owner s"
  "kmem (upd_thread t f s) = kmem s"
  "irq_nested_level (upd_thread t f s) = irq_nested_level s"
  by (simp_all add: upd_thread_def)

lemma queue_wf_nr:
  assumes "queue_wf s"
  shows "length (ready_list s) \<le> length (thread_list s)"
    and "tstate s c \<noteq> SOS_THR_READY \<Longrightarrow> tstate s c \<noteq> SOS_THR_CREATED \<Longrightarrow>
           length (ready_list s) < length (thread_list s)"
    and "nr_threads s > 0 \<longleftrightarrow> ready_list s \<noteq> []"
proof -
  have sub: "set (ready_list s) \<subseteq> set (thread_list s)" and d: "distinct (ready_list s)" "distinct (thread_list s)"
    using assms by (auto simp: queue_wf_def)
  have c: "length (ready_list s) = card (set (ready_list s))" "length (thread_list s) = card (set (thread_list s))"
    using d by (simp_all add: distinct_card)
  show le: "length (ready_list s) \<le> length (thread_list s)"
    unfolding c using sub by (intro card_mono) auto
  show "length (ready_list s) < length (thread_list s)"
    if "tstate s c \<noteq> SOS_THR_READY" "tstate s c \<noteq> SOS_THR_CREATED"
  proof -
    have "set (ready_list s) \<subset> set (thread_list s)"
      using sub that assms by (auto simp: queue_wf_def)
    then show ?thesis unfolding c by (intro psubset_card_mono) auto
  qed
  have "length (ready_list s) < 2 ^ 32" using le assms by (simp add: queue_wf_def)
  then have "nr_threads s = 0 \<longleftrightarrow> ready_list s = []"
    using assms unat_of_nat_small [of "length (ready_list s)"]
    by (auto simp: queue_wf_def)
  then show "nr_threads s > 0 \<longleftrightarrow> ready_list s \<noteq> []" by (simp add: word_neq_0_conv [symmetric])
qed

lemma queue_head:
  assumes "queue_wf s" and "ready_list s = n # l"
  shows "tstate s n = SOS_THR_READY"
proof -
  have "n \<in> set (ready_list s)" using assms(2) by simp
  with assms(1) show ?thesis by (simp add: queue_wf_def)
qed

lemma queue_head_running:
  "queue_wf s \<Longrightarrow> ready_list s = n # l \<Longrightarrow> running c s \<Longrightarrow> n \<noteq> c \<and> c \<noteq> n"
  by (metis queue_head running_def sos_thread_state.distinct(9))

lemma pop_word: "word_of_nat (Suc n) - 1 = (word_of_nat n :: u32)"
  by simp

text \<open>The state after the CPU goes from \<open>c\<close> to \<open>n\<close>.\<close>

definition switched :: "nat \<Rightarrow> sos_thread_state \<Rightarrow> nat \<Rightarrow> nat list \<Rightarrow> u32 \<Rightarrow> cpu_regs \<Rightarrow> kernel \<Rightarrow> kernel" where
  "switched c st n q resume_pc r s = s\<lparr>
     threads := (threads s)(c := (threads s c)\<lparr>thr_state := st, thr_cpu_state := r_esp r - 56\<rparr>,
                            n := (threads s n)\<lparr>thr_state := SOS_THR_RUNNING\<rparr>),
     current_thread := Some n, ready_list := q, nr_threads := word_of_nat (length q),
     kmem := snd (save_context resume_pc r (kmem s))\<rparr>"

lemma switched_sel [simp]:
  "timeout_action_list (switched c st n q pc r s) = timeout_action_list s"
  "timeout_actions (switched c st n q pc r s) = timeout_actions s"
  "last_tick_time (switched c st n q pc r s) = last_tick_time s"
  "tick_resolution (switched c st n q pc r s) = tick_resolution s"
  "current_thread (switched c st n q pc r s) = Some n"
  "thread_list (switched c st n q pc r s) = thread_list s"
  "ready_list (switched c st n q pc r s) = q"
  "nr_threads (switched c st n q pc r s) = word_of_nat (length q)"
  "waiting_list (switched c st n q pc r s) = waiting_list s"
  "entries (switched c st n q pc r s) = entries s"
  "sleepers (switched c st n q pc r s) = sleepers s"
  "ksema_value (switched c st n q pc r s) = ksema_value s"
  "kmutex_owner (switched c st n q pc r s) = kmutex_owner s"
  "irq_nested_level (switched c st n q pc r s) = irq_nested_level s"
  by (simp_all add: switched_def)

lemma tstate_switched:
  "c \<noteq> n \<Longrightarrow> tstate (switched c st n q pc r s) t =
     (if t = n then SOS_THR_RUNNING else if t = c then st else tstate s t)"
  by (simp add: switched_def)

lemma kwaitq_list_switched [simp]:
  "kwaitq_list (threads (switched c st n q pc r s) t) = kwaitq_list (threads s t)"
  by (simp add: switched_def)

lemma stack_check_cong:
  "threads s' t = (threads s t)\<lparr>thr_state := st\<rparr> \<Longrightarrow> kmem s' = kmem s \<Longrightarrow> stack_check t s' = stack_check t s"
  by (simp add: stack_check_def)

lemma switch_yield:
  assumes q: "queue_wf s" and c: "running c s" and irq: "\<not> sos_servicing_irq s"
  shows "ready_list s = [] \<Longrightarrow> switch_begin YIELD_MYSELF pc r s = Some (False, s)"
    and "ready_list s = n # l \<Longrightarrow> switch_begin YIELD_MYSELF pc r s =
           stack_check n s \<bind> (\<lambda>_. Some (True, switched c SOS_THR_READY n (l @ [c]) pc r s))"
proof -
  have cur: "current_thread s = Some c" and cr: "tstate s c = SOS_THR_RUNNING" using c by (auto simp: running_def)
  have nr: "nr_threads s = word_of_nat (length (ready_list s))" using q by (simp add: queue_wf_def)
  let ?s1 = "set_state c SOS_THR_READY (s\<lparr>ready_list := ready_list s @ [c], nr_threads := nr_threads s + 1\<rparr>)"
  have len: "length (ready_list s) < 2 ^ 32 - 1"
    using queue_wf_nr(2) [OF q, of c] cr q by (simp add: queue_wf_def)
  have pos: "nr_threads s + 1 > 0"
  proof -
    have "nr_threads s + 1 = word_of_nat (Suc (length (ready_list s)))" by (simp add: nr)
    then have "unat (nr_threads s + 1) = Suc (length (ready_list s))"
      using len unat_of_nat_small [of "Suc (length (ready_list s))"] by (simp add: add.commute)
    then show ?thesis by (simp add: word_less_nat_alt)
  qed
  have add: "add_in_ready_queue c True s = Some (SOS_OK, ?s1)"
    using cr by (simp add: add_in_ready_queue_def add_tail_def)
  have res: "sos_reschedule c True s = do {
       (n, l) \<leftarrow> pop_head (ready_list s @ [c]);
       Some (n, (set_state c SOS_THR_READY s)\<lparr>ready_list := l, nr_threads := nr_threads s\<rparr>) }"
    using cr pos by (cases "ready_list s") (simp_all add: sos_reschedule_def add set_state_def upd_thread_def)
  show "switch_begin YIELD_MYSELF pc r s = Some (False, s)" if e: "ready_list s = []"
  proof -
    have id: "(threads s c)\<lparr>thr_state := SOS_THR_RUNNING\<rparr> = threads s c"
      using cr by (cases "threads s c") simp
    have "s\<lparr>ready_list := [], nr_threads := nr_threads s, current_thread := Some c,
        threads := (threads s)(c := threads s c)\<rparr> = s"
      using e cur by (cases s) simp
    then show ?thesis
      using e cur cr irq by (simp add: switch_begin_def res set_current_def set_state_def upd_thread_def id)
  qed
  show "switch_begin YIELD_MYSELF pc r s =
      stack_check n s \<bind> (\<lambda>_. Some (True, switched c SOS_THR_READY n (l @ [c]) pc r s))"
    if e: "ready_list s = n # l"
  proof -
    have n: "tstate s n = SOS_THR_READY" "n \<noteq> c"
      using queue_head [OF q e] queue_head_running [OF q e c] by simp_all
    let ?s2 = "(set_state c SOS_THR_READY s)\<lparr>ready_list := l @ [c], nr_threads := nr_threads s\<rparr>"
    have chk: "stack_check n ?s2 = stack_check n s"
      using n(2) by (simp add: stack_check_def set_state_def)
    have len': "nr_threads s = word_of_nat (length (l @ [c]))" using nr e by simp
    show ?thesis
      using e cur cr irq n chk len'
      by (cases "stack_check n s")
        (simp_all add: switch_begin_def res set_current_def set_state_def upd_thread_def
          case_prod_unfold save_restore(1) switched_def fun_upd_twist del: length_append)
  qed
qed

lemma switch_block:
  assumes q: "queue_wf s" and c: "running c s" and irq: "\<not> sos_servicing_irq s"
  shows "ready_list s = [] \<Longrightarrow> switch_begin BLOCK_MYSELF pc r s = None"
    and "ready_list s = n # l \<Longrightarrow> switch_begin BLOCK_MYSELF pc r s =
           stack_check n s \<bind> (\<lambda>_. Some (True, switched c SOS_THR_BLOCKED n l pc r s))"
proof -
  have cur: "current_thread s = Some c" and cr: "tstate s c = SOS_THR_RUNNING" using c by (auto simp: running_def)
  have nr: "nr_threads s = word_of_nat (length (ready_list s))" using q by (simp add: queue_wf_def)
  note pos = queue_wf_nr(3) [OF q]
  show "switch_begin BLOCK_MYSELF pc r s = None" if e: "ready_list s = []"
    using e cur cr irq pos by (simp add: switch_begin_def sos_reschedule_def set_state_def)
  show "switch_begin BLOCK_MYSELF pc r s =
      stack_check n s \<bind> (\<lambda>_. Some (True, switched c SOS_THR_BLOCKED n l pc r s))"
    if e: "ready_list s = n # l"
  proof -
    have n: "tstate s n = SOS_THR_READY" "n \<noteq> c"
      using queue_head [OF q e] queue_head_running [OF q e c] by simp_all
    let ?s2 = "(set_state c SOS_THR_BLOCKED s)\<lparr>ready_list := l, nr_threads := nr_threads s - 1\<rparr>"
    have chk: "stack_check n ?s2 = stack_check n s"
      using n(2) by (simp add: stack_check_def set_state_def)
    have len': "nr_threads s - 1 = word_of_nat (length l)" using nr e by simp
    have res: "sos_reschedule c False (set_state c SOS_THR_BLOCKED s) = Some (n, ?s2)"
      using e pos by (simp add: sos_reschedule_def set_state_def)
    note res' = res [unfolded set_state_def upd_thread_def, simplified] and chk' = chk [unfolded set_state_def upd_thread_def, simplified]
    show ?thesis
      using cur cr irq n chk' len'
      by (cases "stack_check n s")
        (simp_all add: switch_begin_def res' set_current_def Let_def set_state_def upd_thread_def
          case_prod_unfold save_restore(1) switched_def fun_upd_twist)
  qed
qed

lemma queue_wf_switched:
  assumes q: "queue_wf s" and c: "running c s" and e: "ready_list s = n # l"
  shows "queue_wf (switched c SOS_THR_READY n (l @ [c]) pc r s)" (is ?A)
    and "queue_wf (switched c SOS_THR_BLOCKED n l pc r s)" (is ?B)
    and "st \<noteq> SOS_THR_RUNNING \<Longrightarrow> running n (switched c st n q' pc r s)"
proof -
  have n: "tstate s n = SOS_THR_READY" "n \<noteq> c" "c \<noteq> n"
    using queue_head [OF q e] queue_head_running [OF q e c] by simp_all
  have c': "c \<in> set (thread_list s)" "c \<notin> set (ready_list s)"
  proof -
    have cr: "tstate s c = SOS_THR_RUNNING" using c by (simp add: running_def)
    from q cr show "c \<in> set (thread_list s)" unfolding queue_wf_def by (metis sos_thread_state.distinct(3))
    from q cr show "c \<notin> set (ready_list s)" unfolding queue_wf_def by (metis sos_thread_state.distinct(9))
  qed
  have R: "\<forall>t. t \<in> set (n # l) \<longleftrightarrow> tstate s t = SOS_THR_READY" "distinct (n # l)" "distinct (thread_list s)"
      "length (thread_list s) < 2 ^ 32" "\<forall>t. tstate s t \<noteq> SOS_THR_CREATED \<longrightarrow> t \<in> set (thread_list s)"
    using q unfolding queue_wf_def e by simp_all
  have l: "t \<in> set l \<longleftrightarrow> t \<noteq> n \<and> tstate s t = SOS_THR_READY" for t using R(1,2) by auto
  have cn: "c \<notin> set l" using c' e by simp
  show ?A unfolding queue_wf_def using R l n c' cn by (auto simp: tstate_switched)
  show ?B unfolding queue_wf_def using R l n c' cn by (auto simp: tstate_switched)
  show "running n (switched c st n q' pc r s)" if "st \<noteq> SOS_THR_RUNNING"
    using that c n by (auto simp: running_def tstate_switched)
qed

lemma set_ready_ok:
  assumes q: "queue_wf s" and t: "tstate s t = SOS_THR_BLOCKED \<or> tstate s t = SOS_THR_CREATED \<and> t \<in> set (thread_list s)"
  shows "sos_sched_set_ready t s = Some (SOS_OK, set_state t SOS_THR_READY
           (s\<lparr>ready_list := ready_list s @ [t], nr_threads := nr_threads s + 1\<rparr>))"
    and "queue_wf (set_state t SOS_THR_READY
           (s\<lparr>ready_list := ready_list s @ [t], nr_threads := nr_threads s + 1\<rparr>))"
  using assms by (auto simp: sos_sched_set_ready_def add_in_ready_queue_def add_tail_def queue_wf_def set_state_def)

text \<open>Making a thread ready: the only effect is on its state and the ready queue.\<close>

definition readied :: "nat \<Rightarrow> kernel \<Rightarrow> kernel" where
  "readied t s = (if tstate s t = SOS_THR_BLOCKED
     then set_state t SOS_THR_READY (s\<lparr>ready_list := ready_list s @ [t], nr_threads := nr_threads s + 1\<rparr>) else s)"

lemma readied_sel [simp]:
  "timeout_action_list (readied t s) = timeout_action_list s"
  "timeout_actions (readied t s) = timeout_actions s"
  "last_tick_time (readied t s) = last_tick_time s"
  "tick_resolution (readied t s) = tick_resolution s"
  "current_thread (readied t s) = current_thread s"
  "thread_list (readied t s) = thread_list s"
  "waiting_list (readied t s) = waiting_list s"
  "entries (readied t s) = entries s"
  "sleepers (readied t s) = sleepers s"
  "ksema_value (readied t s) = ksema_value s"
  "kmutex_owner (readied t s) = kmutex_owner s"
  "irq_nested_level (readied t s) = irq_nested_level s"
  "kmem (readied t s) = kmem s"
  "kwaitq_list (threads (readied t s) u) = kwaitq_list (threads s u)"
  by (simp_all add: readied_def set_state_def)

lemma tstate_readied:
  "tstate (readied t s) u = (if u = t \<and> tstate s t = SOS_THR_BLOCKED then SOS_THR_READY else tstate s u)"
  by (simp add: readied_def set_state_def)

lemma queue_wf_readied: "queue_wf s \<Longrightarrow> queue_wf (readied t s)"
  using set_ready_ok(2) [of s t] by (auto simp: readied_def)

lemma running_readied: "running c s \<Longrightarrow> running c (readied t s)"
proof -
  assume r: "running c s"
  then have "tstate s c = SOS_THR_RUNNING" by (simp add: running_def)
  then have "tstate s t = SOS_THR_BLOCKED \<Longrightarrow> t \<noteq> c" by auto
  with r show ?thesis unfolding running_def tstate_readied readied_sel by auto
qed

lemma force_unblock_readied:
  "queue_wf s \<Longrightarrow> tstate s t \<noteq> SOS_THR_ZOMBIE \<Longrightarrow> tstate s t \<noteq> SOS_THR_CREATED \<Longrightarrow>
   sos_thread_force_unblock (Some t) s = Some (SOS_OK, readied t s)"
  using set_ready_ok(1) [of s t]
  by (cases "tstate s t") (simp_all add: sos_thread_force_unblock_def readied_def)

lemma set_ready_readied:
  "queue_wf s \<Longrightarrow> tstate s t = SOS_THR_BLOCKED \<or> tstate s t = SOS_THR_READY \<Longrightarrow>
   sos_sched_set_ready t s = Some (SOS_OK, readied t s)"
  using set_ready_ok(1) [of s t] by (auto simp: sos_sched_set_ready_def readied_def)

end
