(* ===== verification/Ksynch.thy ===== *)
theory Ksynch
  imports Kthread
begin

text \<open>
  Wait queues (\<^verbatim>\<open>os/kwaitq.c\<close>), semaphores and mutexes (\<^verbatim>\<open>os/ksynch.c\<close>). A wait queue is
  the list of the addresses of its entries; the queue embedded in a semaphore or a mutex has the
  address of that object. Blocking routines are cut at the context switch like those of
  \<^verbatim>\<open>thread.c\<close>.
\<close>

section \<open>Wait queues\<close>

definition sos_kwaitq_init :: "nat \<Rightarrow> kernel \<Rightarrow> sos_ret_t \<times> kernel" where
  "sos_kwaitq_init kwq s = (SOS_OK, s\<lparr>waiting_list := (waiting_list s)(kwq := [])\<rparr>)"

definition sos_kwaitq_dispose :: "nat \<Rightarrow> kernel \<Rightarrow> sos_ret_t" where
  "sos_kwaitq_dispose kwq s = (if waiting_list s kwq = [] then SOS_OK else - SOS_EBUSY)"

definition sos_kwaitq_is_empty :: "nat \<Rightarrow> kernel \<Rightarrow> bool" where
  "sos_kwaitq_is_empty kwq s \<longleftrightarrow> waiting_list s kwq = []"

definition upd_entry :: "nat \<Rightarrow> (sos_kwaitq_entry \<Rightarrow> sos_kwaitq_entry) \<Rightarrow> kernel \<Rightarrow> kernel" where
  "upd_entry e f s = s\<lparr>entries := (entries s)(e := f (entries s e))\<rparr>"

definition sos_kwaitq_init_entry :: "nat \<Rightarrow> kernel \<Rightarrow> (sos_ret_t \<times> kernel) option" where
  "sos_kwaitq_init_entry e s = do {
     t \<leftarrow> sos_thread_get_current s;
     Some (SOS_OK, upd_entry e (\<lambda>_. \<lparr>entry_thread = Some t, entry_kwaitq = None,
       wakeup_triggered = False, wakeup_status = 0\<rparr>) s) }"

definition sos_kwaitq_add_entry :: "nat \<Rightarrow> nat \<Rightarrow> kernel \<Rightarrow> (sos_ret_t \<times> kernel) option" where
  "sos_kwaitq_add_entry kwq e s = do {
     sos_assert_fatal (entry_kwaitq (entries s e) = None);
     sos_assert_fatal (entry_thread (entries s e) \<noteq> None);
     let s = upd_entry e (\<lambda>d. d\<lparr>wakeup_triggered := False, wakeup_status := SOS_OK\<rparr>) s;
     let s = s\<lparr>waiting_list := (waiting_list s)(kwq := add_tail e (waiting_list s kwq))\<rparr>;
     t \<leftarrow> entry_thread (entries s e);
     let s = upd_thread t (\<lambda>d. d\<lparr>kwaitq_list := add_tail e (kwaitq_list d)\<rparr>) s;
     Some (SOS_OK, upd_entry e (entry_kwaitq_update (\<lambda>_. Some kwq)) s) }"

definition sos_kwaitq_remove_entry :: "nat \<Rightarrow> nat \<Rightarrow> kernel \<Rightarrow> (sos_ret_t \<times> kernel) option" where
  "sos_kwaitq_remove_entry kwq e s = do {
     sos_assert_fatal (entry_kwaitq (entries s e) = Some kwq);
     l \<leftarrow> list_delete e (waiting_list s kwq);
     let s = s\<lparr>waiting_list := (waiting_list s)(kwq := l)\<rparr>;
     t \<leftarrow> entry_thread (entries s e);
     l \<leftarrow> list_delete e (kwaitq_list (threads s t));
     let s = upd_thread t (kwaitq_list_update (\<lambda>_. l)) s;
     Some (SOS_OK, upd_entry e (entry_kwaitq_update (\<lambda>_. None)) s) }"

text \<open>
  \<open>e\<close> is the address of the entry, a local variable of the waiting thread, as are the timeout
  action and the parameters of the sleep it performs.
\<close>

definition sos_kwaitq_wait_begin :: "nat \<Rightarrow> nat \<Rightarrow> sos_time option \<Rightarrow> nat \<Rightarrow> nat \<Rightarrow> u32 \<Rightarrow> cpu_regs
    \<Rightarrow> kernel \<Rightarrow> (bool \<times> kernel) option" where
  "sos_kwaitq_wait_begin kwq e delay act params resume_pc r s = do {
     (_, s) \<leftarrow> sos_kwaitq_init_entry e s;
     (_, s) \<leftarrow> sos_kwaitq_add_entry kwq e s;
     sos_thread_sleep_begin delay act params resume_pc r s }"

definition sos_kwaitq_wait_end :: "nat \<Rightarrow> nat \<Rightarrow> sos_time option \<Rightarrow> nat \<Rightarrow> nat \<Rightarrow> nat
    \<Rightarrow> kernel \<Rightarrow> (sos_ret_t \<times> sos_time option \<times> kernel) option" where
  "sos_kwaitq_wait_end kwq e delay act params myself s = do {
     (_, remaining, s) \<leftarrow> sos_thread_sleep_end delay act params myself s;
     if \<not> wakeup_triggered (entries s e)
     then do {
       (_, s) \<leftarrow> sos_kwaitq_remove_entry kwq e s;
       Some (- SOS_EINTR, remaining, s) }
     else Some (wakeup_status (entries s e), remaining, s) }"

text \<open>
  A head entry whose thread is running makes the loop repeat without any change: there is then
  no result.
\<close>

partial_function (option) wakeup_loop :: "nat \<Rightarrow> u32 \<Rightarrow> sos_ret_t \<Rightarrow> kernel \<Rightarrow> kernel option" where
  "wakeup_loop kwq nb_threads status s =
     (case waiting_list s kwq of
        [] \<Rightarrow> Some s
      | e # _ \<Rightarrow>
          if nb_threads \<le> 0 then Some s
          else do {
            t \<leftarrow> entry_thread (entries s e);
            if tstate s t = SOS_THR_RUNNING then wakeup_loop kwq nb_threads status s
            else do {
              (_, s) \<leftarrow> sos_sched_set_ready t s;
              (_, s) \<leftarrow> sos_kwaitq_remove_entry kwq e s;
              let s = upd_entry e (\<lambda>d. d\<lparr>wakeup_triggered := True, wakeup_status := status\<rparr>) s;
              wakeup_loop kwq (nb_threads - 1) status s } })"

definition sos_kwaitq_wakeup :: "nat \<Rightarrow> u32 \<Rightarrow> sos_ret_t \<Rightarrow> kernel \<Rightarrow> (sos_ret_t \<times> kernel) option" where
  "sos_kwaitq_wakeup kwq nb_threads status s = do {
     s \<leftarrow> wakeup_loop kwq nb_threads status s;
     Some (SOS_OK, s) }"

section \<open>Semaphores\<close>

definition sos_ksema_init :: "nat \<Rightarrow> int \<Rightarrow> kernel \<Rightarrow> sos_ret_t \<times> kernel" where
  "sos_ksema_init sema initial_value s =
     sos_kwaitq_init sema (s\<lparr>ksema_value := (ksema_value s)(sema := initial_value)\<rparr>)"

definition sos_ksema_dispose :: "nat \<Rightarrow> kernel \<Rightarrow> sos_ret_t" where
  "sos_ksema_dispose sema s = sos_kwaitq_dispose sema s"

definition add_sema :: "nat \<Rightarrow> int \<Rightarrow> kernel \<Rightarrow> kernel" where
  "add_sema sema d s = s\<lparr>ksema_value := (ksema_value s)(sema := ksema_value s sema + d)\<rparr>"

text \<open>
  The first component tells whether the caller must wait: when it is \<open>None\<close> the call has returned
  SOS_OK, otherwise it tells whether the CPU left the thread.
\<close>

definition sos_ksema_down_begin :: "nat \<Rightarrow> nat \<Rightarrow> sos_time option \<Rightarrow> nat \<Rightarrow> nat \<Rightarrow> u32 \<Rightarrow> cpu_regs
    \<Rightarrow> kernel \<Rightarrow> (bool option \<times> kernel) option" where
  "sos_ksema_down_begin sema e delay act params resume_pc r s = do {
     let s = add_sema sema (- 1) s;
     if ksema_value s sema < 0
     then do {
       (switched_away, s) \<leftarrow> sos_kwaitq_wait_begin sema e delay act params resume_pc r s;
       Some (Some switched_away, s) }
     else Some (None, s) }"

definition sos_ksema_down_end :: "nat \<Rightarrow> nat \<Rightarrow> sos_time option \<Rightarrow> nat \<Rightarrow> nat \<Rightarrow> nat
    \<Rightarrow> kernel \<Rightarrow> (sos_ret_t \<times> sos_time option \<times> kernel) option" where
  "sos_ksema_down_end sema e delay act params myself s = do {
     (retval, remaining, s) \<leftarrow> sos_kwaitq_wait_end sema e delay act params myself s;
     let s = (if retval \<noteq> SOS_OK then add_sema sema 1 s else s);
     Some (retval, remaining, s) }"

definition sos_ksema_trydown :: "nat \<Rightarrow> kernel \<Rightarrow> sos_ret_t \<times> kernel" where
  "sos_ksema_trydown sema s =
     (if ksema_value s sema \<ge> 1 then (SOS_OK, add_sema sema (- 1) s) else (- SOS_EBUSY, s))"

definition sos_ksema_up :: "nat \<Rightarrow> kernel \<Rightarrow> (sos_ret_t \<times> kernel) option" where
  "sos_ksema_up sema s = (let s = add_sema sema 1 s in sos_kwaitq_wakeup sema 1 SOS_OK s)"

section \<open>Mutexes\<close>

definition set_owner :: "nat \<Rightarrow> nat option \<Rightarrow> kernel \<Rightarrow> kernel" where
  "set_owner mutex t s = s\<lparr>kmutex_owner := (kmutex_owner s)(mutex := t)\<rparr>"

definition sos_kmutex_init :: "nat \<Rightarrow> kernel \<Rightarrow> sos_ret_t \<times> kernel" where
  "sos_kmutex_init mutex s = sos_kwaitq_init mutex (set_owner mutex None s)"

definition sos_kmutex_dispose :: "nat \<Rightarrow> kernel \<Rightarrow> sos_ret_t" where
  "sos_kmutex_dispose mutex s = sos_kwaitq_dispose mutex s"

text \<open>The result is \<open>Inl\<close> the value returned, or \<open>Inr\<close> when the caller waits.\<close>

definition sos_kmutex_lock_begin :: "nat \<Rightarrow> nat \<Rightarrow> sos_time option \<Rightarrow> nat \<Rightarrow> nat \<Rightarrow> u32 \<Rightarrow> cpu_regs
    \<Rightarrow> kernel \<Rightarrow> ((sos_ret_t + bool) \<times> kernel) option" where
  "sos_kmutex_lock_begin mutex e delay act params resume_pc r s =
     (if kmutex_owner s mutex \<noteq> None
      then do {
        me \<leftarrow> sos_thread_get_current s;
        if Some me = kmutex_owner s mutex then Some (Inl (- SOS_EBUSY), s)
        else do {
          (switched_away, s) \<leftarrow> sos_kwaitq_wait_begin mutex e delay act params resume_pc r s;
          Some (Inr switched_away, s) } }
      else do {
        me \<leftarrow> sos_thread_get_current s;
        Some (Inl SOS_OK, set_owner mutex (Some me) s) })"

definition sos_kmutex_lock_end :: "nat \<Rightarrow> nat \<Rightarrow> sos_time option \<Rightarrow> nat \<Rightarrow> nat \<Rightarrow> nat
    \<Rightarrow> kernel \<Rightarrow> (sos_ret_t \<times> sos_time option \<times> kernel) option" where
  "sos_kmutex_lock_end mutex e delay act params myself s = do {
     (retval, remaining, s) \<leftarrow> sos_kwaitq_wait_end mutex e delay act params myself s;
     if retval \<noteq> SOS_OK then Some (retval, remaining, s)
     else do {
       me \<leftarrow> sos_thread_get_current s;
       Some (retval, remaining, set_owner mutex (Some me) s) } }"

definition sos_kmutex_trylock :: "nat \<Rightarrow> kernel \<Rightarrow> (sos_ret_t \<times> kernel) option" where
  "sos_kmutex_trylock mutex s =
     (if kmutex_owner s mutex = None
      then do {
        me \<leftarrow> sos_thread_get_current s;
        Some (SOS_OK, set_owner mutex (Some me) s) }
      else Some (- SOS_EBUSY, s))"

definition sos_kmutex_unlock :: "nat \<Rightarrow> kernel \<Rightarrow> (sos_ret_t \<times> kernel) option" where
  "sos_kmutex_unlock mutex s = do {
     me \<leftarrow> sos_thread_get_current s;
     if Some me \<noteq> kmutex_owner s mutex then Some (- SOS_EPERM, s)
     else if sos_kwaitq_is_empty mutex s then Some (SOS_OK, set_owner mutex None s)
     else sos_kwaitq_wakeup mutex 1 SOS_OK s }"

end
