(* ===== verification/Ksystem.thy ===== *)
theory Ksystem
  imports Ksynch
begin

text \<open>
  The threads of the kernel running together. A state is the kernel state with, for every thread,
  the call it is inside of; a step is one routine run by the current thread up to its return, its
  context switch or the point where it enables the interrupts, the rest of such a call run by the
  thread when it has the CPU again, or a timer tick. The steps interleave in any order, and any
  thread may call any public routine of the wait queues, the semaphores and the mutexes, unlock
  included when it does not hold the mutex. The queue inside a semaphore or a mutex is left to its
  routines, an entry on the stack of a thread that waits to that call, and an entry that is in a
  queue is not initialised again: the headers of the code ask for no less.

  Three components record history only: the threads that hold a mutex (a lock of theirs returned
  SOS_OK and no unlock of theirs was accepted since), the difference between the completed downs
  and ups of a semaphore, and the number of stale unlocks of a mutex: the code recognises the
  holder by the recorded owner, which after an unlock with threads waiting is still the thread that
  gave the mutex up until the woken thread runs (\<^verbatim>\<open>ksynch.c:213\<close>), and an unlock is stale when
  such a former holder calls it and it is accepted.
\<close>

section \<open>States and steps\<close>

datatype object_kind = Raw_queue | Sema | Mutex

text \<open>A timer is a delay with the addresses of the timeout action and of its parameters.\<close>

datatype timer = Timer (delay: "sos_time option") (tmo_action: nat) (tmo_params: nat)

datatype kcall = Yielding | Sleeping timer | Waiting nat nat timer | Creating nat sos_vaddr_t

record system =
  kern :: kernel
  inside :: "nat \<Rightarrow> kcall option"
  holders :: "nat \<Rightarrow> nat set"
  taken :: "nat \<Rightarrow> int"
  stale :: "nat \<Rightarrow> nat"

text \<open>The timeout action and the parameters of the sleep of a call, when it has a delay.\<close>

fun call_timer :: "kcall \<Rightarrow> (nat \<times> nat) option" where
  "call_timer (Sleeping (Timer (Some d) a p)) = Some (a, p)"
| "call_timer (Waiting q e (Timer (Some d) a p)) = Some (a, p)"
| "call_timer _ = None"

definition ptimer :: "(nat \<Rightarrow> kcall option) \<Rightarrow> nat \<Rightarrow> (nat \<times> nat) option" where
  "ptimer ins t = Option.bind (ins t) call_timer"

text \<open>The local variables of a call are not those of a call in progress.\<close>

definition fresh_timer :: "timer \<Rightarrow> system \<Rightarrow> bool" where
  "fresh_timer tm C \<longleftrightarrow> (case tm of Timer None _ _ \<Rightarrow> True
     | Timer (Some d) a p \<Rightarrow> time_wf d \<and> time_ns (last_tick_time (kern C)) + time_ns d < 2 ^ 32 * 10 ^ 9 \<and>
         (\<forall>t a' p'. ptimer (inside C) t = Some (a', p') \<longrightarrow> a' \<noteq> a \<and> p' \<noteq> p))"

definition fresh_entry :: "nat \<Rightarrow> system \<Rightarrow> bool" where
  "fresh_entry e C \<longleftrightarrow> (\<forall>t q e' tm. inside C t = Some (Waiting q e' tm) \<longrightarrow> e' \<noteq> e) \<and>
     (\<forall>q. e \<notin> set (waiting_list (kern C) q))"

text \<open>An entry of the callers' own, for \<open>sos_kwaitq_add_entry\<close> and \<open>sos_kwaitq_remove_entry\<close>.\<close>

definition public_entry :: "nat \<Rightarrow> system \<Rightarrow> bool" where
  "public_entry e C \<longleftrightarrow> (\<forall>t q e' tm. inside C t = Some (Waiting q e' tm) \<longrightarrow> e' \<noteq> e)"

abbreviation dead :: "sos_thread_state \<Rightarrow> bool" where
  "dead st \<equiv> st = SOS_THR_CREATED \<or> st = SOS_THR_ZOMBIE"

definition entry_owner_alive :: "nat \<Rightarrow> kernel \<Rightarrow> bool" where
  "entry_owner_alive e k \<longleftrightarrow>
     (case entry_thread (entries k e) of None \<Rightarrow> False | Some t \<Rightarrow> \<not> dead (tstate k t))"

definition upd_holders :: "nat \<Rightarrow> (nat set \<Rightarrow> nat set) \<Rightarrow> system \<Rightarrow> system" where
  "upd_holders m f C = C\<lparr>holders := (holders C)(m := f (holders C m))\<rparr>"

definition upd_taken :: "nat \<Rightarrow> int \<Rightarrow> system \<Rightarrow> system" where
  "upd_taken q d C = C\<lparr>taken := (taken C)(q := taken C q + d)\<rparr>"

definition enter :: "nat \<Rightarrow> kcall \<Rightarrow> kernel \<Rightarrow> system \<Rightarrow> system" where
  "enter c call k C = C\<lparr>kern := k, inside := (inside C)(c := Some call)\<rparr>"

definition leave :: "nat \<Rightarrow> kernel \<Rightarrow> system \<Rightarrow> system" where
  "leave c k C = C\<lparr>kern := k, inside := (inside C)(c := None)\<rparr>"

text \<open>What the end part of a call in a wait queue does, by the kind of the object.\<close>

definition wait_end_of :: "object_kind \<Rightarrow> nat \<Rightarrow> nat \<Rightarrow> timer \<Rightarrow> nat \<Rightarrow> kernel
    \<Rightarrow> (sos_ret_t \<times> sos_time option \<times> kernel) option" where
  "wait_end_of knd q e tm c k = (case tm of Timer d a p \<Rightarrow>
     (case knd of Raw_queue \<Rightarrow> sos_kwaitq_wait_end q e d a p c k
      | Sema \<Rightarrow> sos_ksema_down_end q e d a p c k
      | Mutex \<Rightarrow> sos_kmutex_lock_end q e d a p c k))"

definition acquired :: "object_kind \<Rightarrow> nat \<Rightarrow> nat \<Rightarrow> sos_ret_t \<Rightarrow> system \<Rightarrow> system" where
  "acquired knd q c ret C =
     (if ret \<noteq> SOS_OK then C
      else case knd of Raw_queue \<Rightarrow> C | Sema \<Rightarrow> upd_taken q 1 C | Mutex \<Rightarrow> upd_holders q (insert c) C)"

text \<open>What an unlock by \<open>c\<close> that returned \<open>ret\<close> changes in the history.\<close>

definition released :: "nat \<Rightarrow> nat \<Rightarrow> sos_ret_t \<Rightarrow> kernel \<Rightarrow> system \<Rightarrow> system" where
  "released m c ret k C =
     (if ret \<noteq> SOS_OK then C\<lparr>kern := k\<rparr>
      else if c \<in> holders C m then upd_holders m (\<lambda>H. H - {c}) (C\<lparr>kern := k\<rparr>)
      else if kmutex_owner (kern C) m = Some c
        then C\<lparr>kern := k, stale := (stale C)(m := stale C m + 1)\<rparr>
      else C\<lparr>kern := k\<rparr>)"

text \<open>
  \<open>idle c C\<close>: \<open>c\<close> has the CPU and is not inside a call. \<open>interruptible c C\<close>: it has the CPU with
  the interrupts enabled, between two calls or in the middle of the creation of a thread.
\<close>

definition idle :: "nat \<Rightarrow> system \<Rightarrow> bool" where
  "idle c C \<longleftrightarrow> current_thread (kern C) = Some c \<and> inside C c = None"

definition interruptible :: "nat \<Rightarrow> system \<Rightarrow> bool" where
  "interruptible c C \<longleftrightarrow> current_thread (kern C) = Some c \<and>
     (inside C c = None \<or> (\<exists>t stack. inside C c = Some (Creating t stack)))"

inductive sys_step :: "(nat \<Rightarrow> object_kind) \<Rightarrow> system \<Rightarrow> system \<Rightarrow> bool" for kind where
  yield_switch: "idle c C \<Longrightarrow> sos_thread_yield_begin pc r (kern C) = Some (True, k) \<Longrightarrow>
     sys_step kind C (enter c Yielding k C)"
| yield_alone: "idle c C \<Longrightarrow> sos_thread_yield_begin pc r (kern C) = Some (False, k) \<Longrightarrow>
     sys_step kind C (C\<lparr>kern := k\<rparr>)"
| sleep: "idle c C \<Longrightarrow> fresh_timer (Timer d a p) C \<Longrightarrow>
     sos_thread_sleep_begin d a p pc r (kern C) = Some (True, k) \<Longrightarrow>
     sys_step kind C (enter c (Sleeping (Timer d a p)) k C)"
| wait: "idle c C \<Longrightarrow> kind q = Raw_queue \<Longrightarrow> fresh_timer (Timer d a p) C \<Longrightarrow> fresh_entry e C \<Longrightarrow>
     sos_kwaitq_wait_begin q e d a p pc r (kern C) = Some (True, k) \<Longrightarrow>
     sys_step kind C (enter c (Waiting q e (Timer d a p)) k C)"
| wakeup: "idle c C \<Longrightarrow> kind q = Raw_queue \<Longrightarrow> sos_kwaitq_wakeup q n status (kern C) = Some (ret, k) \<Longrightarrow>
     sys_step kind C (C\<lparr>kern := k\<rparr>)"
| init_entry: "idle c C \<Longrightarrow> fresh_entry e C \<Longrightarrow> sos_kwaitq_init_entry e (kern C) = Some (ret, k) \<Longrightarrow>
     sys_step kind C (C\<lparr>kern := k\<rparr>)"
| add_entry: "idle c C \<Longrightarrow> kind q = Raw_queue \<Longrightarrow> public_entry e C \<Longrightarrow> entry_owner_alive e (kern C) \<Longrightarrow>
     sos_kwaitq_add_entry q e (kern C) = Some (ret, k) \<Longrightarrow>
     sys_step kind C (C\<lparr>kern := k\<rparr>)"
| remove_entry: "idle c C \<Longrightarrow> kind q = Raw_queue \<Longrightarrow> public_entry e C \<Longrightarrow>
     sos_kwaitq_remove_entry q e (kern C) = Some (ret, k) \<Longrightarrow>
     sys_step kind C (C\<lparr>kern := k\<rparr>)"
| down_wait: "idle c C \<Longrightarrow> kind q = Sema \<Longrightarrow> fresh_timer (Timer d a p) C \<Longrightarrow> fresh_entry e C \<Longrightarrow>
     sos_ksema_down_begin q e d a p pc r (kern C) = Some (Some True, k) \<Longrightarrow>
     sys_step kind C (enter c (Waiting q e (Timer d a p)) k C)"
| down_now: "idle c C \<Longrightarrow> kind q = Sema \<Longrightarrow> sos_ksema_down_begin q e d a p pc r (kern C) = Some (None, k) \<Longrightarrow>
     sys_step kind C (upd_taken q 1 (C\<lparr>kern := k\<rparr>))"
| trydown: "idle c C \<Longrightarrow> kind q = Sema \<Longrightarrow> sos_ksema_trydown q (kern C) = (ret, k) \<Longrightarrow>
     sys_step kind C (acquired Sema q c ret (C\<lparr>kern := k\<rparr>))"
| up: "idle c C \<Longrightarrow> kind q = Sema \<Longrightarrow> sos_ksema_up q (kern C) = Some (ret, k) \<Longrightarrow>
     sys_step kind C (upd_taken q (- 1) (C\<lparr>kern := k\<rparr>))"
| lock_wait: "idle c C \<Longrightarrow> kind m = Mutex \<Longrightarrow> fresh_timer (Timer d a p) C \<Longrightarrow> fresh_entry e C \<Longrightarrow>
     sos_kmutex_lock_begin m e d a p pc r (kern C) = Some (Inr True, k) \<Longrightarrow>
     sys_step kind C (enter c (Waiting m e (Timer d a p)) k C)"
| lock_now: "idle c C \<Longrightarrow> kind m = Mutex \<Longrightarrow> sos_kmutex_lock_begin m e d a p pc r (kern C) = Some (Inl ret, k) \<Longrightarrow>
     sys_step kind C (acquired Mutex m c ret (C\<lparr>kern := k\<rparr>))"
| trylock: "idle c C \<Longrightarrow> kind m = Mutex \<Longrightarrow> sos_kmutex_trylock m (kern C) = Some (ret, k) \<Longrightarrow>
     sys_step kind C (acquired Mutex m c ret (C\<lparr>kern := k\<rparr>))"
| unlock: "idle c C \<Longrightarrow> kind m = Mutex \<Longrightarrow> sos_kmutex_unlock m (kern C) = Some (ret, k) \<Longrightarrow>
     sys_step kind C (released m c ret k C)"
| force: "idle c C \<Longrightarrow> tstate (kern C) t \<noteq> SOS_THR_CREATED \<Longrightarrow>
     sos_thread_force_unblock (Some t) (kern C) = Some (ret, k) \<Longrightarrow>
     sys_step kind C (C\<lparr>kern := k\<rparr>)"
| create: "idle c C \<Longrightarrow> t \<notin> set (thread_list (kern C)) \<Longrightarrow> inside C t = None \<Longrightarrow>
     length (thread_list (kern C)) < 2 ^ 32 - 1 \<Longrightarrow>
     sos_create_kernel_thread_begin core ext nm (Some f) arg (Some t) stack (kern C) = (Inr t, k) \<Longrightarrow>
     sys_step kind C (enter c (Creating t stack) k C)"
| create_fails: "idle c C \<Longrightarrow> t \<notin> set (thread_list (kern C)) \<Longrightarrow> inside C t = None \<Longrightarrow>
     sos_create_kernel_thread_begin core ext nm f arg (Some t) stack (kern C) = (Inl freed, k) \<Longrightarrow>
     sys_step kind C (C\<lparr>kern := k\<rparr>)"
| resume_create: "current_thread (kern C) = Some c \<Longrightarrow> inside C c = Some (Creating t stack) \<Longrightarrow>
     sos_create_kernel_thread_end t stack (kern C) = Some (t', fs, fo, k) \<Longrightarrow>
     sys_step kind C (leave c k C)"
| exit: "idle c C \<Longrightarrow> sos_thread_exit (kern C) = Some (fs, fo, k) \<Longrightarrow>
     sys_step kind C (C\<lparr>kern := k\<rparr>)"
| tick: "interruptible c C \<Longrightarrow>
     time_ns (last_tick_time (kern C)) + time_ns (tick_resolution (kern C)) < 2 ^ 32 * 10 ^ 9 \<Longrightarrow>
     sos_time_do_tick call_routine (kern C) = Some (ret, k) \<Longrightarrow>
     sys_step kind C (C\<lparr>kern := k\<rparr>)"
| resume_yield: "current_thread (kern C) = Some c \<Longrightarrow> inside C c = Some Yielding \<Longrightarrow>
     switch_end c (kern C) = Some ret \<Longrightarrow>
     sys_step kind C (leave c (kern C) C)"
| resume_sleep: "current_thread (kern C) = Some c \<Longrightarrow> inside C c = Some (Sleeping (Timer d a p)) \<Longrightarrow>
     sos_thread_sleep_end d a p c (kern C) = Some (ret, rem, k) \<Longrightarrow>
     sys_step kind C (leave c k C)"
| resume_wait: "current_thread (kern C) = Some c \<Longrightarrow> inside C c = Some (Waiting q e tm) \<Longrightarrow>
     wait_end_of (kind q) q e tm c (kern C) = Some (ret, rem, k) \<Longrightarrow>
     sys_step kind C (acquired (kind q) q c ret (leave c k C))"

inductive sys_reach :: "(nat \<Rightarrow> object_kind) \<Rightarrow> system \<Rightarrow> system \<Rightarrow> bool" for kind C where
  start: "sys_reach kind C C"
| step: "sys_reach kind C D \<Longrightarrow> sys_step kind D E \<Longrightarrow> sys_reach kind C E"

section \<open>The invariant\<close>

abbreviation triggered :: "kernel \<Rightarrow> nat \<Rightarrow> bool" where
  "triggered k e \<equiv> wakeup_triggered (entries k e)"

text \<open>
  The wait queues and the calls in progress: every entry of a queue belongs to a thread that is
  alive and has it in its own list; in the queue of a semaphore or of a mutex it is the entry of a
  call in progress; a call that was not woken has its entry in the queue.
\<close>

definition calls_ok :: "(nat \<Rightarrow> object_kind) \<Rightarrow> kernel \<Rightarrow> (nat \<Rightarrow> kcall option) \<Rightarrow> bool" where
  "calls_ok kind k ins \<longleftrightarrow>
     (\<forall>q. distinct (waiting_list k q)) \<and>
     (\<forall>q e. e \<in> set (waiting_list k q) \<longrightarrow> \<not> triggered k e \<and> entry_kwaitq (entries k e) = Some q \<and>
        (\<exists>t. entry_thread (entries k e) = Some t \<and> \<not> dead (tstate k t) \<and> e \<in> set (kwaitq_list (threads k t)))) \<and>
     (\<forall>q e. e \<in> set (waiting_list k q) \<longrightarrow> kind q \<noteq> Raw_queue \<longrightarrow> (\<exists>t tm. ins t = Some (Waiting q e tm))) \<and>
     (\<forall>t q e tm. ins t = Some (Waiting q e tm) \<longrightarrow> entry_thread (entries k e) = Some t) \<and>
     (\<forall>t q e tm. ins t = Some (Waiting q e tm) \<longrightarrow> \<not> triggered k e \<longrightarrow> e \<in> set (waiting_list k q)) \<and>
     (\<forall>t q e tm. ins t = Some (Waiting q e tm) \<longrightarrow> triggered k e \<longrightarrow> kind q \<noteq> Raw_queue \<longrightarrow>
        wakeup_status (entries k e) = SOS_OK) \<and>
     (\<forall>t. distinct (kwaitq_list (threads k t))) \<and>
     (\<forall>t e. e \<in> set (kwaitq_list (threads k t)) \<longrightarrow>
        entry_thread (entries k e) = Some t \<and> (\<exists>q. e \<in> set (waiting_list k q))) \<and>
     (\<forall>t. ins t \<noteq> None \<longrightarrow> \<not> dead (tstate k t))"

text \<open>The thread being created is in the list of threads, and its creator has the CPU.\<close>

definition creating_ok :: "kernel \<Rightarrow> (nat \<Rightarrow> kcall option) \<Rightarrow> bool" where
  "creating_ok k ins \<longleftrightarrow> (\<forall>u t stack. ins u = Some (Creating t stack) \<longrightarrow>
     current_thread k = Some u \<and> t \<in> set (thread_list k) \<and> tstate k t = SOS_THR_CREATED)"

definition timers_ok :: "kernel \<Rightarrow> (nat \<Rightarrow> kcall option) \<Rightarrow> bool" where
  "timers_ok k ins \<longleftrightarrow> tm_wf k \<and>
     (\<forall>a \<in> set (timeout_action_list k). \<exists>t p. ptimer ins t = Some (a, p)) \<and>
     (\<forall>t a p. ptimer ins t = Some (a, p) \<longrightarrow> thread_to_wakeup (sleepers k p) = Some t) \<and>
     (\<forall>t a p. ptimer ins t = Some (a, p) \<longrightarrow> timeout_triggered (sleepers k p) \<longrightarrow>
        a \<notin> set (timeout_action_list k) \<and> sos_time_is_zero (due k a)) \<and>
     (\<forall>t a p. ptimer ins t = Some (a, p) \<longrightarrow> \<not> timeout_triggered (sleepers k p) \<longrightarrow>
        a \<in> set (timeout_action_list k) \<and> routine_data (timeout_actions k a) = p)"

text \<open>The threads that were woken for \<open>q\<close> and did not run yet.\<close>

definition granted :: "kernel \<Rightarrow> (nat \<Rightarrow> kcall option) \<Rightarrow> nat \<Rightarrow> nat set" where
  "granted k ins q = {t. \<exists>e tm. ins t = Some (Waiting q e tm) \<and> triggered k e}"

text \<open>
  A semaphore: a negative value counts the threads in the queue, and the initial value is shared
  between the current value, the downs completed, the downs granted and those still waiting. A
  mutex: one thread holds it or is about to when it has an owner, none when it has none, and each
  stale unlock lets in one more.
\<close>

definition sema_inv :: "int \<Rightarrow> int \<Rightarrow> int \<Rightarrow> nat \<Rightarrow> nat \<Rightarrow> bool" where
  "sema_inv v init tk g w \<longleftrightarrow> int w = max 0 (- v) \<and> v = init - tk - int g - int w"

definition mutex_inv :: "nat option \<Rightarrow> nat set \<Rightarrow> nat \<Rightarrow> nat \<Rightarrow> nat \<Rightarrow> bool" where
  "mutex_inv ow H g w st \<longleftrightarrow> finite H \<and> card H + g \<le> (if ow = None then 0 else 1) + st \<and>
     (ow = None \<longrightarrow> w = 0) \<and>
     (st = 0 \<longrightarrow> card H + g = (if ow = None then 0 else 1) \<and> (\<forall>h \<in> H. ow = Some h))"

definition sema_ok :: "(nat \<Rightarrow> int) \<Rightarrow> kernel \<Rightarrow> (nat \<Rightarrow> kcall option) \<Rightarrow> (nat \<Rightarrow> int) \<Rightarrow> nat \<Rightarrow> bool" where
  "sema_ok init k ins tk q \<longleftrightarrow>
     sema_inv (ksema_value k q) (init q) (tk q) (card (granted k ins q)) (length (waiting_list k q))"

definition mutex_ok :: "kernel \<Rightarrow> (nat \<Rightarrow> kcall option) \<Rightarrow> (nat \<Rightarrow> nat set) \<Rightarrow> (nat \<Rightarrow> nat) \<Rightarrow> nat \<Rightarrow> bool" where
  "mutex_ok k ins hs st m \<longleftrightarrow>
     mutex_inv (kmutex_owner k m) (hs m) (card (granted k ins m)) (length (waiting_list k m)) (st m)"

definition kernel_ok :: "(nat \<Rightarrow> object_kind) \<Rightarrow> nat \<Rightarrow> kernel \<Rightarrow> (nat \<Rightarrow> kcall option) \<Rightarrow> bool" where
  "kernel_ok kind c k ins \<longleftrightarrow> queue_wf k \<and> running c k \<and> calls_ok kind k ins \<and> timers_ok k ins"

definition objects_ok :: "(nat \<Rightarrow> object_kind) \<Rightarrow> (nat \<Rightarrow> int) \<Rightarrow> kernel \<Rightarrow> (nat \<Rightarrow> kcall option)
    \<Rightarrow> (nat \<Rightarrow> int) \<Rightarrow> (nat \<Rightarrow> nat set) \<Rightarrow> (nat \<Rightarrow> nat) \<Rightarrow> bool" where
  "objects_ok kind init k ins tk hs st \<longleftrightarrow>
     (\<forall>q. kind q = Sema \<longrightarrow> sema_ok init k ins tk q) \<and> (\<forall>m. kind m = Mutex \<longrightarrow> mutex_ok k ins hs st m)"

definition sys_inv :: "(nat \<Rightarrow> object_kind) \<Rightarrow> (nat \<Rightarrow> int) \<Rightarrow> system \<Rightarrow> bool" where
  "sys_inv kind init C \<longleftrightarrow> (\<exists>c. kernel_ok kind c (kern C) (inside C)) \<and>
     objects_ok kind init (kern C) (inside C) (taken C) (holders C) (stale C)"

end
