(* ===== verification/Ksystem_calls.thy ===== *)
theory Ksystem_calls
  imports Ksystem
begin

text \<open>
  What the parts of a blocking call do to the kernel state (entering and leaving a wait queue,
  arming the timer of a sleep), and the two halves of the invariant on the calls in progress: the
  entries in the wait queues and the timers.
\<close>

section \<open>The effect of each part of a call\<close>

lemma ktime_upd_eq:
  assumes "tick_resolution s' = tick_resolution s" and "last_tick_time s' = last_tick_time s"
    and "ktime.more s' = ktime.more s"
  shows "s' = s\<lparr>timeout_action_list := timeout_action_list s', timeout_actions := timeout_actions s'\<rparr>"
  using assms by (cases s; cases s') simp

definition enq :: "nat \<Rightarrow> nat \<Rightarrow> nat \<Rightarrow> kernel \<Rightarrow> kernel" where
  "enq q e c k = k\<lparr>
     entries := (entries k)(e := \<lparr>entry_thread = Some c, entry_kwaitq = Some q,
       wakeup_triggered = False, wakeup_status = SOS_OK\<rparr>),
     waiting_list := (waiting_list k)(q := waiting_list k q @ [e]),
     threads := (threads k)(c := (threads k c)\<lparr>kwaitq_list := kwaitq_list (threads k c) @ [e]\<rparr>)\<rparr>"

definition deq :: "nat \<Rightarrow> nat \<Rightarrow> nat \<Rightarrow> kernel \<Rightarrow> kernel" where
  "deq q e t k = k\<lparr>
     entries := (entries k)(e := (entries k e)\<lparr>entry_kwaitq := None\<rparr>),
     waiting_list := (waiting_list k)(q := remove1 e (waiting_list k q)),
     threads := (threads k)(t := (threads k t)\<lparr>kwaitq_list := remove1 e (kwaitq_list (threads k t))\<rparr>)\<rparr>"

definition grant :: "nat \<Rightarrow> nat \<Rightarrow> nat \<Rightarrow> sos_ret_t \<Rightarrow> kernel \<Rightarrow> kernel" where
  "grant q e t status k =
     upd_entry e (\<lambda>d. d\<lparr>wakeup_triggered := True, wakeup_status := status\<rparr>) (deq q e t (readied t k))"

definition armed :: "timer \<Rightarrow> nat \<Rightarrow> kernel \<Rightarrow> kernel" where
  "armed tm c k = (case tm of Timer None _ _ \<Rightarrow> k | Timer (Some d) a p \<Rightarrow>
     snd (sos_time_register_action_relative (Some a) (Some d) (Some Sleep_timeout) p
       (k\<lparr>sleepers := (sleepers k)(p := \<lparr>thread_to_wakeup = Some c, timeout_triggered = False\<rparr>)\<rparr>)))"

lemma enter_queue_eq:
  assumes "running c k"
  shows "do { (_, k) \<leftarrow> sos_kwaitq_init_entry e k; sos_kwaitq_add_entry q e k } = Some (SOS_OK, enq q e c k)"
  using assms
  by (simp add: running_def sos_kwaitq_init_entry_def sos_thread_get_current_def sos_kwaitq_add_entry_def
      upd_entry_def upd_thread_def enq_def add_tail_def Let_def)

lemma leave_queue_eq:
  assumes "entry_kwaitq (entries k e) = Some q" and "e \<in> set (waiting_list k q)"
    and "entry_thread (entries k e) = Some t" and "e \<in> set (kwaitq_list (threads k t))"
  shows "sos_kwaitq_remove_entry q e k = Some (SOS_OK, deq q e t k)"
  using assms by (simp add: sos_kwaitq_remove_entry_def upd_entry_def upd_thread_def deq_def Let_def)

lemma deq_sel [simp]:
  "timeout_action_list (deq q e t k) = timeout_action_list k"
  "timeout_actions (deq q e t k) = timeout_actions k"
  "last_tick_time (deq q e t k) = last_tick_time k"
  "tick_resolution (deq q e t k) = tick_resolution k"
  "current_thread (deq q e t k) = current_thread k"
  "thread_list (deq q e t k) = thread_list k"
  "ready_list (deq q e t k) = ready_list k"
  "nr_threads (deq q e t k) = nr_threads k"
  "waiting_list (deq q e t k) = (waiting_list k)(q := remove1 e (waiting_list k q))"
  "sleepers (deq q e t k) = sleepers k"
  "ksema_value (deq q e t k) = ksema_value k"
  "kmutex_owner (deq q e t k) = kmutex_owner k"
  "tstate (deq q e t k) u = tstate k u"
  "triggered (deq q e t k) f = triggered k f"
  "wakeup_status (entries (deq q e t k) f) = wakeup_status (entries k f)"
  "entry_thread (entries (deq q e t k) f) = entry_thread (entries k f)"
  "entry_kwaitq (entries (deq q e t k) f) = (if f = e then None else entry_kwaitq (entries k f))"
  "kwaitq_list (threads (deq q e t k) u) = (if u = t then remove1 e (kwaitq_list (threads k t)) else kwaitq_list (threads k u))"
  by (simp_all add: deq_def)

lemma enq_sel [simp]:
  "timeout_action_list (enq q e t k) = timeout_action_list k"
  "timeout_actions (enq q e t k) = timeout_actions k"
  "last_tick_time (enq q e t k) = last_tick_time k"
  "tick_resolution (enq q e t k) = tick_resolution k"
  "current_thread (enq q e t k) = current_thread k"
  "thread_list (enq q e t k) = thread_list k"
  "ready_list (enq q e t k) = ready_list k"
  "nr_threads (enq q e t k) = nr_threads k"
  "waiting_list (enq q e t k) = (waiting_list k)(q := waiting_list k q @ [e])"
  "sleepers (enq q e t k) = sleepers k"
  "ksema_value (enq q e t k) = ksema_value k"
  "kmutex_owner (enq q e t k) = kmutex_owner k"
  "irq_nested_level (enq q e t k) = irq_nested_level k"
  "tstate (enq q e t k) u = tstate k u"
  "entries (enq q e t k) = (entries k)(e := \<lparr>entry_thread = Some t, entry_kwaitq = Some q,
       wakeup_triggered = False, wakeup_status = SOS_OK\<rparr>)"
  "kwaitq_list (threads (enq q e t k) u) = (if u = t then kwaitq_list (threads k t) @ [e] else kwaitq_list (threads k u))"
  by (simp_all add: enq_def)

lemma upd_entry_sel [simp]:
  "timeout_action_list (upd_entry e f k) = timeout_action_list k"
  "timeout_actions (upd_entry e f k) = timeout_actions k"
  "last_tick_time (upd_entry e f k) = last_tick_time k"
  "tick_resolution (upd_entry e f k) = tick_resolution k"
  "current_thread (upd_entry e f k) = current_thread k"
  "thread_list (upd_entry e f k) = thread_list k"
  "ready_list (upd_entry e f k) = ready_list k"
  "nr_threads (upd_entry e f k) = nr_threads k"
  "waiting_list (upd_entry e f k) = waiting_list k"
  "sleepers (upd_entry e f k) = sleepers k"
  "ksema_value (upd_entry e f k) = ksema_value k"
  "kmutex_owner (upd_entry e f k) = kmutex_owner k"
  "threads (upd_entry e f k) = threads k"
  "entries (upd_entry e f k) = (entries k)(e := f (entries k e))"
  by (simp_all add: upd_entry_def)

lemma queue_wf_cong:
  "queue_wf k \<Longrightarrow> ready_list k' = ready_list k \<Longrightarrow> nr_threads k' = nr_threads k \<Longrightarrow>
   thread_list k' = thread_list k \<Longrightarrow> (\<And>t. tstate k' t = tstate k t) \<Longrightarrow> queue_wf k'"
  by (simp add: queue_wf_def)

lemma running_cong:
  "running c k \<Longrightarrow> current_thread k' = current_thread k \<Longrightarrow> (\<And>t. tstate k' t = tstate k t) \<Longrightarrow> running c k'"
  by (simp add: running_def)

lemma set_take_insert_drop: "set (takeWhile P xs @ a # dropWhile P xs) = insert a (set xs)"
proof -
  have u: "set xs = set (takeWhile P xs) \<union> set (dropWhile P xs)" by (metis set_append takeWhile_dropWhile_id)
  show ?thesis by (simp add: u)
qed

lemma armed_eq:
  assumes "tm_wf k" and "\<And>d. delay tm = Some d \<Longrightarrow> tmo_action tm \<notin> set (timeout_action_list k) \<and> time_wf d \<and>
      time_ns (last_tick_time k) + time_ns d < 2 ^ 32 * 10 ^ 9"
  shows "sos_thread_sleep_begin (delay tm) (tmo_action tm) (tmo_params tm) pc r k =
           (if delay tm = None \<or> current_thread k = Some c
            then switch_begin BLOCK_MYSELF pc r (armed tm c k)
            else sos_thread_sleep_begin (delay tm) (tmo_action tm) (tmo_params tm) pc r k)"
    and "\<exists>l acts. armed tm c k = k\<lparr>timeout_action_list := l, timeout_actions := acts, sleepers := sleepers (armed tm c k)\<rparr>"
    and "tm_wf (armed tm c k)"
    and "delay tm = None \<Longrightarrow> armed tm c k = k"
    and "delay tm = Some d \<Longrightarrow> set (timeout_action_list (armed tm c k)) = insert (tmo_action tm) (set (timeout_action_list k)) \<and>
        sleepers (armed tm c k) = (sleepers k)(tmo_params tm := \<lparr>thread_to_wakeup = Some c, timeout_triggered = False\<rparr>) \<and>
        (\<exists>date. timeout_actions (armed tm c k) = (timeout_actions k)(tmo_action tm :=
           \<lparr>routine = Some Sleep_timeout, routine_data = tmo_params tm, timeout = date\<rparr>))"
proof -
  obtain d0 a p where tm: "tm = Timer d0 a p" by (cases tm) auto
  have none: "armed tm c k = k" if "d0 = None" using that tm by (simp add: armed_def)
  then show "delay tm = None \<Longrightarrow> armed tm c k = k" using tm by simp
  let ?k = "k\<lparr>sleepers := (sleepers k)(p := \<lparr>thread_to_wakeup = Some c, timeout_triggered = False\<rparr>)\<rparr>"
  have some: "\<exists>l date. sos_time_register_action_relative (Some a) (Some d) (Some Sleep_timeout) p ?k
        = (SOS_OK, ?k\<lparr>timeout_action_list := l, timeout_actions := (timeout_actions k)(a :=
             \<lparr>routine = Some Sleep_timeout, routine_data = p, timeout = date\<rparr>)\<rparr>) \<and>
        armed tm c k = ?k\<lparr>timeout_action_list := l, timeout_actions := (timeout_actions k)(a :=
             \<lparr>routine = Some Sleep_timeout, routine_data = p, timeout = date\<rparr>)\<rparr> \<and>
        tm_wf (armed tm c k) \<and> set l = insert a (set (timeout_action_list k))"
    if d: "d0 = Some d" for d
  proof -
    have g: "a \<notin> set (timeout_action_list ?k)" "time_wf d" "time_ns (last_tick_time ?k) + time_ns d < 2 ^ 32 * 10 ^ 9"
      using assms(2) [of d] d tm by simp_all
    have wf: "tm_wf ?k" using assms(1) by (simp add: tm_wf_def)
    have D: "distinct (timeout_action_list ?k)" using wf by (simp add: tm_wf_def)
    define date where "date = sos_time_inc (last_tick_time ?k) d"
    have dw: "time_wf date"
      unfolding date_def using time_inc_exact(1) [OF _ g(2,3)] wf by (simp add: tm_wf_def)
    obtain s' where s': "add_action (Some a) (Some d) True (Some Sleep_timeout) p ?k = (SOS_OK, s')"
      "timeout_action_list s' = takeWhile (\<lambda>e. due ?k e \<le> date) (timeout_action_list ?k) @ a #
                              dropWhile (\<lambda>e. due ?k e \<le> date) (timeout_action_list ?k)"
      "timeout_actions s' = (timeout_actions ?k)(a := \<lparr>routine = Some Sleep_timeout, routine_data = p, timeout = date\<rparr>)"
      "tick_resolution s' = tick_resolution ?k" "last_tick_time s' = last_tick_time ?k"
      "ktime.more s' = ktime.more ?k"
      using add_action_ok [OF g(1) D, of True d date Sleep_timeout p] by (auto simp: date_def)
    have w: "tm_wf s'" by (rule tm_wf_insert [OF wf g(1) dw _ _ s'(2,3,4,5)]) simp_all
    have st: "set (timeout_action_list s') = insert a (set (timeout_action_list k))"
      unfolding s'(2) set_take_insert_drop by simp
    have s'eq: "s' = ?k\<lparr>timeout_action_list := timeout_action_list s', timeout_actions := timeout_actions s'\<rparr>"
      by (rule ktime_upd_eq [OF s'(4,5,6)])
    have arm: "armed tm c k = s'" using d tm s'(1) by (simp add: armed_def sos_time_register_action_relative_def)
    have acts: "timeout_actions s' = (timeout_actions k)(a := \<lparr>routine = Some Sleep_timeout, routine_data = p, timeout = date\<rparr>)"
      using s'(3) by simp
    show ?thesis
      using s'(1) s'eq w st arm unfolding acts
      by (intro exI [of _ "timeout_action_list s'"] exI [of _ date])
        (simp add: sos_time_register_action_relative_def)
  qed
  show "tm_wf (armed tm c k)" using none some assms(1) by (cases d0) auto
  show "\<exists>l acts. armed tm c k = k\<lparr>timeout_action_list := l, timeout_actions := acts, sleepers := sleepers (armed tm c k)\<rparr>"
  proof (cases d0)
    case None
    then have "armed tm c k = k\<lparr>timeout_action_list := timeout_action_list k, timeout_actions := timeout_actions k, sleepers := sleepers (armed tm c k)\<rparr>"
      using none by simp
    then show ?thesis by blast
  next
    case (Some d)
    from some [OF this] obtain l date where e: "armed tm c k = ?k\<lparr>timeout_action_list := l, timeout_actions := (timeout_actions k)(a :=
             \<lparr>routine = Some Sleep_timeout, routine_data = p, timeout = date\<rparr>)\<rparr>" by blast
    show ?thesis unfolding e
      by (intro exI [of _ l] exI [of _ "(timeout_actions k)(a := \<lparr>routine = Some Sleep_timeout, routine_data = p, timeout = date\<rparr>)"]) simp
  qed
  show "delay tm = Some d \<Longrightarrow> set (timeout_action_list (armed tm c k)) = insert (tmo_action tm) (set (timeout_action_list k)) \<and>
        sleepers (armed tm c k) = (sleepers k)(tmo_params tm := \<lparr>thread_to_wakeup = Some c, timeout_triggered = False\<rparr>) \<and>
        (\<exists>date. timeout_actions (armed tm c k) = (timeout_actions k)(tmo_action tm :=
           \<lparr>routine = Some Sleep_timeout, routine_data = tmo_params tm, timeout = date\<rparr>))"
  proof -
    assume "delay tm = Some d"
    then have "d0 = Some d" using tm by simp
    from some [OF this] obtain l date where e: "armed tm c k = ?k\<lparr>timeout_action_list := l, timeout_actions := (timeout_actions k)(a :=
             \<lparr>routine = Some Sleep_timeout, routine_data = p, timeout = date\<rparr>)\<rparr>" "set l = insert a (set (timeout_action_list k))" by blast
    show ?thesis unfolding e(1) using e(2) tm by (auto intro: exI [of _ date])
  qed
  show "sos_thread_sleep_begin (delay tm) (tmo_action tm) (tmo_params tm) pc r k =
           (if delay tm = None \<or> current_thread k = Some c
            then switch_begin BLOCK_MYSELF pc r (armed tm c k)
            else sos_thread_sleep_begin (delay tm) (tmo_action tm) (tmo_params tm) pc r k)"
  proof (cases d0)
    case None
    then show ?thesis using tm none by (simp add: sos_thread_sleep_begin_def)
  next
    case (Some d)
    have a: "a \<notin> set (timeout_action_list k)" using assms(2) [of d] Some tm by simp
    from some [OF Some] obtain k' where "sos_time_register_action_relative (Some a) (Some d) (Some Sleep_timeout) p ?k = (SOS_OK, k')"
        "armed tm c k = k'" by blast
    with a show ?thesis using tm Some
      by (simp add: sos_thread_sleep_begin_def sos_time_init_action_def)
  qed
qed

section \<open>Calls in progress\<close>

lemma calls_okD:
  assumes "calls_ok kind k ins"
  shows "distinct (waiting_list k q)"
    and "e \<in> set (waiting_list k q) \<Longrightarrow> \<not> triggered k e \<and> entry_kwaitq (entries k e) = Some q \<and>
        (\<exists>t. entry_thread (entries k e) = Some t \<and> \<not> dead (tstate k t) \<and> e \<in> set (kwaitq_list (threads k t)))"
    and "e \<in> set (waiting_list k q) \<Longrightarrow> kind q \<noteq> Raw_queue \<Longrightarrow> \<exists>t tm. ins t = Some (Waiting q e tm)"
    and "ins t = Some (Waiting q e tm) \<Longrightarrow> entry_thread (entries k e) = Some t"
    and "ins t = Some (Waiting q e tm) \<Longrightarrow> \<not> triggered k e \<Longrightarrow> e \<in> set (waiting_list k q)"
    and "ins t = Some (Waiting q e tm) \<Longrightarrow> triggered k e \<Longrightarrow> kind q \<noteq> Raw_queue \<Longrightarrow>
           wakeup_status (entries k e) = SOS_OK"
    and "distinct (kwaitq_list (threads k t))"
    and "e \<in> set (kwaitq_list (threads k t)) \<Longrightarrow>
           entry_thread (entries k e) = Some t \<and> (\<exists>q. e \<in> set (waiting_list k q))"
    and "ins t \<noteq> None \<Longrightarrow> \<not> dead (tstate k t)"
proof -
  note h1 = assms [unfolded calls_ok_def]
  note h2 = conjunct2 [OF h1]
  note h3 = conjunct2 [OF h2]
  note h4 = conjunct2 [OF h3]
  note h5 = conjunct2 [OF h4]
  note h6 = conjunct2 [OF h5]
  note h7 = conjunct2 [OF h6]
  note h8 = conjunct2 [OF h7]
  show "distinct (waiting_list k q)" by (rule spec [OF conjunct1 [OF h1]])
  show "e \<in> set (waiting_list k q) \<Longrightarrow> \<not> triggered k e \<and> entry_kwaitq (entries k e) = Some q \<and>
      (\<exists>t. entry_thread (entries k e) = Some t \<and> \<not> dead (tstate k t) \<and> e \<in> set (kwaitq_list (threads k t)))"
    by (rule mp [OF spec [OF spec [OF conjunct1 [OF h2]]]])
  show "e \<in> set (waiting_list k q) \<Longrightarrow> kind q \<noteq> Raw_queue \<Longrightarrow> \<exists>t tm. ins t = Some (Waiting q e tm)"
    using conjunct1 [OF h3] by blast
  show "ins t = Some (Waiting q e tm) \<Longrightarrow> entry_thread (entries k e) = Some t"
    using conjunct1 [OF h4] by blast
  show "ins t = Some (Waiting q e tm) \<Longrightarrow> \<not> triggered k e \<Longrightarrow> e \<in> set (waiting_list k q)"
    using conjunct1 [OF h5] by blast
  show "ins t = Some (Waiting q e tm) \<Longrightarrow> triggered k e \<Longrightarrow> kind q \<noteq> Raw_queue \<Longrightarrow>
           wakeup_status (entries k e) = SOS_OK"
    using conjunct1 [OF h6] by blast
  show "distinct (kwaitq_list (threads k t))" by (rule spec [OF conjunct1 [OF h7]])
  show "e \<in> set (kwaitq_list (threads k t)) \<Longrightarrow>
      entry_thread (entries k e) = Some t \<and> (\<exists>q. e \<in> set (waiting_list k q))"
    by (rule mp [OF spec [OF spec [OF conjunct1 [OF h8]]]])
  show "ins t \<noteq> None \<Longrightarrow> \<not> dead (tstate k t)" by (rule mp [OF spec [OF conjunct2 [OF h8]]])
qed

lemma calls_okI:
  assumes "\<And>q. distinct (waiting_list k q)"
    and "\<And>q e. e \<in> set (waiting_list k q) \<Longrightarrow> \<not> triggered k e \<and> entry_kwaitq (entries k e) = Some q \<and>
        (\<exists>t. entry_thread (entries k e) = Some t \<and> \<not> dead (tstate k t) \<and> e \<in> set (kwaitq_list (threads k t)))"
    and "\<And>q e. e \<in> set (waiting_list k q) \<Longrightarrow> kind q \<noteq> Raw_queue \<Longrightarrow> \<exists>t tm. ins t = Some (Waiting q e tm)"
    and "\<And>t q e tm. ins t = Some (Waiting q e tm) \<Longrightarrow> entry_thread (entries k e) = Some t"
    and "\<And>t q e tm. ins t = Some (Waiting q e tm) \<Longrightarrow> \<not> triggered k e \<Longrightarrow> e \<in> set (waiting_list k q)"
    and "\<And>t q e tm. ins t = Some (Waiting q e tm) \<Longrightarrow> triggered k e \<Longrightarrow> kind q \<noteq> Raw_queue \<Longrightarrow>
           wakeup_status (entries k e) = SOS_OK"
    and "\<And>t. distinct (kwaitq_list (threads k t))"
    and "\<And>t e. e \<in> set (kwaitq_list (threads k t)) \<Longrightarrow>
           entry_thread (entries k e) = Some t \<and> (\<exists>q. e \<in> set (waiting_list k q))"
    and "\<And>t. ins t \<noteq> None \<Longrightarrow> \<not> dead (tstate k t)"
  shows "calls_ok kind k ins"
  unfolding calls_ok_def
  apply (intro conjI)
  subgoal using assms(1) by blast
  subgoal using assms(2) by (intro allI impI)
  subgoal using assms(3) by (intro allI impI)
  subgoal using assms(4) by (intro allI impI)
  subgoal using assms(5) by (intro allI impI)
  subgoal using assms(6) by (intro allI impI)
  subgoal using assms(7) by (intro allI)
  subgoal using assms(8) by (intro allI impI)
  subgoal using assms(9) by (intro allI impI)
  done

lemma calls_ok_frame:
  assumes i: "calls_ok kind k ins"
    and f: "waiting_list k' = waiting_list k" "entries k' = entries k"
      "\<And>t. kwaitq_list (threads k' t) = kwaitq_list (threads k t)"
      "\<And>t. ins t \<noteq> None \<or> kwaitq_list (threads k t) \<noteq> [] \<Longrightarrow> dead (tstate k' t) \<Longrightarrow> dead (tstate k t)"
  shows "calls_ok kind k' ins"
proof (rule calls_okI)
  note D = calls_okD [OF i]
  show "\<not> triggered k' e \<and> entry_kwaitq (entries k' e) = Some q \<and>
      (\<exists>t. entry_thread (entries k' e) = Some t \<and> \<not> dead (tstate k' t) \<and> e \<in> set (kwaitq_list (threads k' t)))"
    if e: "e \<in> set (waiting_list k' q)" for q e
  proof -
    have e': "e \<in> set (waiting_list k q)" using e f(1) by simp
    obtain t where t: "entry_thread (entries k e) = Some t" "\<not> dead (tstate k t)"
        "e \<in> set (kwaitq_list (threads k t))" using D(2) [OF e'] by blast
    have "kwaitq_list (threads k t) \<noteq> []" using t(3) by auto
    then have "\<not> dead (tstate k' t)" using f(4) [of t] t(2) by blast
    then show ?thesis using t D(2) [OF e'] by (simp add: f(2,3))
  qed
  show "\<not> dead (tstate k' t)" if "ins t \<noteq> None" for t
    using D(9) [OF that] f(4) [of t] that by blast
qed (use calls_okD [OF i] in \<open>simp_all add: f(1-3)\<close>)

text \<open>An entry is in one queue, and belongs to one call.\<close>

lemma one_queue:
  "calls_ok kind k ins \<Longrightarrow> e \<in> set (waiting_list k q) \<Longrightarrow> e \<in> set (waiting_list k q') \<Longrightarrow> q' = q"
  using calls_okD(2) [of kind k ins e q] calls_okD(2) [of kind k ins e q'] by simp

lemma queued_of:
  assumes "calls_ok kind k ins" and "e \<in> set (waiting_list k q)" and "entry_thread (entries k e) = Some t"
  shows "entry_kwaitq (entries k e) = Some q" and "\<not> triggered k e" and "\<not> dead (tstate k t)"
    and "e \<in> set (kwaitq_list (threads k t))"
  using calls_okD(2) [OF assms(1,2)] assms(3) by auto

lemma entry_owner_unique:
  assumes "calls_ok kind k ins" and "ins t = Some (Waiting q e tm)" and "ins t' = Some (Waiting q' e tm')"
  shows "t' = t"
  using calls_okD(4) [OF assms(1,2)] calls_okD(4) [OF assms(1,3)] by simp

lemma running_alive: "running c k \<Longrightarrow> \<not> dead (tstate k c)"
proof -
  assume "running c k"
  then have "tstate k c = SOS_THR_RUNNING" by (simp add: running_def)
  then show ?thesis by simp
qed

lemma calls_ok_enter:
  assumes i: "calls_ok kind k ins" and r: "running c k" and n: "ins c = None"
    and call: "\<And>q e tm. call \<noteq> Waiting q e tm"
  shows "calls_ok kind k (ins(c := Some call))"
proof (rule calls_okI)
  note D = calls_okD [OF i]
  have w: "(ins(c := Some call)) t = Some (Waiting q e tm) \<longleftrightarrow> ins t = Some (Waiting q e tm)" for t q e tm
    using call n by auto
  show "\<exists>t tm. (ins(c := Some call)) t = Some (Waiting q e tm)"
    if "e \<in> set (waiting_list k q)" "kind q \<noteq> Raw_queue" for q e
    using D(3) [OF that] unfolding w .
  show "\<not> dead (tstate k t)" if "(ins(c := Some call)) t \<noteq> None" for t
    using that D(9) [of t] running_alive [OF r] by (cases "t = c") simp_all
  fix t q e tm
  assume x: "(ins(c := Some call)) t = Some (Waiting q e tm)"
  note x' = x [unfolded w]
  show "entry_thread (entries k e) = Some t" by (rule D(4) [OF x'])
  show "\<not> triggered k e \<Longrightarrow> e \<in> set (waiting_list k q)" by (rule D(5) [OF x'])
  show "triggered k e \<Longrightarrow> kind q \<noteq> Raw_queue \<Longrightarrow> wakeup_status (entries k e) = SOS_OK" by (rule D(6) [OF x'])
qed (use calls_okD(1,2,7,8) [OF i] in blast)+

lemma calls_ok_leave:
  assumes i: "calls_ok kind k ins" and w: "\<And>q e tm. ins c = Some (Waiting q e tm) \<Longrightarrow> triggered k e"
  shows "calls_ok kind k (ins(c := None))"
proof (rule calls_okI)
  note D = calls_okD [OF i]
  show "\<exists>t tm. (ins(c := None)) t = Some (Waiting q e tm)"
    if e: "e \<in> set (waiting_list k q)" "kind q \<noteq> Raw_queue" for q e
  proof -
    obtain t tm where t: "ins t = Some (Waiting q e tm)" using D(3) [OF e] by blast
    have "t \<noteq> c" using w t D(2) [OF e(1)] by blast
    then have "(ins(c := None)) t = Some (Waiting q e tm)" using t by simp
    then show ?thesis by blast
  qed
  show "\<not> dead (tstate k t)" if "(ins(c := None)) t \<noteq> None" for t
    using that D(9) [of t] by (cases "t = c") simp_all
  fix t q e tm
  assume x: "(ins(c := None)) t = Some (Waiting q e tm)"
  have x': "ins t = Some (Waiting q e tm)" using x by (cases "t = c") simp_all
  show "entry_thread (entries k e) = Some t" by (rule D(4) [OF x'])
  show "\<not> triggered k e \<Longrightarrow> e \<in> set (waiting_list k q)" by (rule D(5) [OF x'])
  show "triggered k e \<Longrightarrow> kind q \<noteq> Raw_queue \<Longrightarrow> wakeup_status (entries k e) = SOS_OK" by (rule D(6) [OF x'])
qed (use calls_okD(1,2,7,8) [OF i] in blast)+

text \<open>An entry that is in no queue and in no call can be written freely.\<close>

lemma calls_ok_upd_entry:
  assumes i: "calls_ok kind k ins" and w: "\<And>q. e \<notin> set (waiting_list k q)"
    and c: "\<And>t q tm. ins t \<noteq> Some (Waiting q e tm)"
  shows "calls_ok kind (upd_entry e f k) ins"
proof (rule calls_okI)
  note D = calls_okD [OF i]
  have ne: "e' \<noteq> e" if "e' \<in> set (waiting_list k q)" for e' q using that w by blast
  have nk: "e' \<noteq> e" if "e' \<in> set (kwaitq_list (threads k t))" for e' t using D(8) [OF that] w by blast
  show "\<not> triggered (upd_entry e f k) e' \<and> entry_kwaitq (entries (upd_entry e f k) e') = Some q \<and>
      (\<exists>t. entry_thread (entries (upd_entry e f k) e') = Some t \<and> \<not> dead (tstate (upd_entry e f k) t) \<and>
        e' \<in> set (kwaitq_list (threads (upd_entry e f k) t)))" if "e' \<in> set (waiting_list (upd_entry e f k) q)" for q e'
    using D(2) [of e' q] ne [of e' q] that by simp
  show "entry_thread (entries (upd_entry e f k) e') = Some t \<and> (\<exists>q. e' \<in> set (waiting_list (upd_entry e f k) q))"
    if "e' \<in> set (kwaitq_list (threads (upd_entry e f k) t))" for t e'
    using D(8) [of e' t] nk [of e' t] that by simp
  fix t q e' tm
  assume x: "ins t = Some (Waiting q e' tm)"
  then have n: "e' \<noteq> e" using c by blast
  show "entry_thread (entries (upd_entry e f k) e') = Some t" using D(4) [OF x] n by simp
  show "e' \<in> set (waiting_list (upd_entry e f k) q)" if "\<not> triggered (upd_entry e f k) e'"
    using D(5) [OF x] n that by simp
  show "wakeup_status (entries (upd_entry e f k) e') = SOS_OK" if "triggered (upd_entry e f k) e'" "kind q \<noteq> Raw_queue"
    using D(6) [OF x] n that by simp
qed (use calls_okD(1,3,7,9) [OF i] in simp_all)

lemma calls_ok_enq:
  assumes i: "calls_ok kind k ins" and a: "\<not> dead (tstate k t)" and w: "\<And>q'. e \<notin> set (waiting_list k q')"
    and f: "\<And>t q' tm. ins t \<noteq> Some (Waiting q' e tm)"
    and new: "ins' = ins \<and> kind q = Raw_queue \<or> ins t = None \<and> ins' = ins(t := Some (Waiting q e tm))"
  shows "calls_ok kind (enq q e t k) ins'"
proof (rule calls_okI)
  note D = calls_okD [OF i]
  let ?k = "enq q e t k"
  have nk: "e \<notin> set (kwaitq_list (threads k u))" for u using D(8) [of e u] w by blast
  have old: "ins' u = Some (Waiting q' e' tm') \<Longrightarrow>
      u = t \<and> q' = q \<and> e' = e \<or> e' \<noteq> e \<and> ins u = Some (Waiting q' e' tm')" for u q' e' tm'
    using new f by (auto split: if_splits)
  have keep: "ins u = Some (Waiting q' e' tm') \<Longrightarrow> ins' u = Some (Waiting q' e' tm')" for u q' e' tm'
    using new by auto
  show "distinct (waiting_list ?k q')" for q' using D(1) [of q'] w [of q'] by auto
  show "\<not> triggered ?k e' \<and> entry_kwaitq (entries ?k e') = Some q' \<and>
      (\<exists>u. entry_thread (entries ?k e') = Some u \<and> \<not> dead (tstate ?k u) \<and> e' \<in> set (kwaitq_list (threads ?k u)))"
    if m: "e' \<in> set (waiting_list ?k q')" for q' e'
  proof (cases "e' = e")
    case True
    then have "q' = q" using m w by (auto split: if_splits)
    then show ?thesis using True a by simp
  next
    case False
    then have m': "e' \<in> set (waiting_list k q')" using m by (auto split: if_splits)
    obtain u where "entry_thread (entries k e') = Some u" "\<not> dead (tstate k u)" "e' \<in> set (kwaitq_list (threads k u))"
      using D(2) [OF m'] by blast
    then show ?thesis using D(2) [OF m'] False by auto
  qed
  show "\<exists>u tm. ins' u = Some (Waiting q' e' tm)" if m: "e' \<in> set (waiting_list ?k q')" "kind q' \<noteq> Raw_queue" for q' e'
  proof (cases "e' = e")
    case True
    then have "q' = q" using m w by (auto split: if_splits)
    then have "ins' t = Some (Waiting q' e' tm)" using new m(2) True by auto
    then show ?thesis by blast
  next
    case False
    then have "e' \<in> set (waiting_list k q')" using m by (auto split: if_splits)
    with D(3) [OF _ m(2)] keep show ?thesis by blast
  qed
  show "distinct (kwaitq_list (threads ?k u))" for u using D(7) [of u] nk [of u] by auto
  show "entry_thread (entries ?k e') = Some u \<and> (\<exists>q. e' \<in> set (waiting_list ?k q))"
    if m: "e' \<in> set (kwaitq_list (threads ?k u))" for u e'
  proof (cases "e' = e")
    case True
    then have "u = t" using m nk [of u] by (auto split: if_splits)
    moreover have "e' \<in> set (waiting_list ?k q)" using True by simp
    ultimately show ?thesis using True by auto
  next
    case False
    then have m': "e' \<in> set (kwaitq_list (threads k u))" using m by (auto split: if_splits)
    obtain q' where "e' \<in> set (waiting_list k q')" using D(8) [OF m'] by blast
    then have "e' \<in> set (waiting_list ?k q')" by auto
    then show ?thesis using D(8) [OF m'] False by auto
  qed
  show "\<not> dead (tstate ?k u)" if "ins' u \<noteq> None" for u
    using that D(9) [of u] a new by (cases "u = t") auto
  fix u q' e' tm'
  assume "ins' u = Some (Waiting q' e' tm')"
  note cs = old [OF this]
  show "entry_thread (entries ?k e') = Some u" using cs D(4) by auto
  show "e' \<in> set (waiting_list ?k q')" if "\<not> triggered ?k e'" using cs D(5) that by auto
  show "wakeup_status (entries ?k e') = SOS_OK" if "triggered ?k e'" "kind q' \<noteq> Raw_queue" using cs D(6) that by auto
qed

lemma calls_ok_grant:
  assumes i: "calls_ok kind k ins" and m: "e \<in> set (waiting_list k q)" and t: "entry_thread (entries k e) = Some t"
    and st: "kind q \<noteq> Raw_queue \<Longrightarrow> status = SOS_OK"
  shows "calls_ok kind (upd_entry e (\<lambda>d. d\<lparr>wakeup_triggered := True, wakeup_status := status\<rparr>) (deq q e t k)) ins"
    (is "calls_ok kind ?k ins")
proof (rule calls_okI)
  note D = calls_okD [OF i]
  have ne: "e' \<noteq> e \<and> e' \<in> set (waiting_list k q')" if "e' \<in> set (waiting_list ?k q')" for e' q'
    using that m one_queue [OF i m, of q'] D(1) [of q'] by (auto split: if_splits)
  have wl: "e' \<in> set (waiting_list ?k q')" if "e' \<in> set (waiting_list k q')" "e' \<noteq> e" for e' q'
    using that by auto
  have nk: "e' \<noteq> e \<and> e' \<in> set (kwaitq_list (threads k u))" if "e' \<in> set (kwaitq_list (threads ?k u))" for e' u
    using that D(7) [of u] D(8) [of e u] t by (cases "u = t") auto
  show "distinct (waiting_list ?k q')" "distinct (kwaitq_list (threads ?k u))" for q' u
    using D(1) D(7) by simp_all
  show "\<not> triggered ?k e' \<and> entry_kwaitq (entries ?k e') = Some q' \<and>
      (\<exists>u. entry_thread (entries ?k e') = Some u \<and> \<not> dead (tstate ?k u) \<and> e' \<in> set (kwaitq_list (threads ?k u)))"
    if "e' \<in> set (waiting_list ?k q')" for q' e'
  proof -
    have e': "e' \<noteq> e" "e' \<in> set (waiting_list k q')" using ne [OF that] by simp_all
    obtain u where u: "entry_thread (entries k e') = Some u" "\<not> dead (tstate k u)" "e' \<in> set (kwaitq_list (threads k u))"
      using D(2) [OF e'(2)] by blast
    then have "e' \<in> set (kwaitq_list (threads ?k u))" using e'(1) by auto
    then show ?thesis using D(2) [OF e'(2)] e'(1) u by simp
  qed
  show "\<exists>u tm. ins u = Some (Waiting q' e' tm)" if "e' \<in> set (waiting_list ?k q')" "kind q' \<noteq> Raw_queue" for q' e'
    using D(3) [OF conjunct2 [OF ne [OF that(1)]] that(2)] .
  show "entry_thread (entries ?k e') = Some u \<and> (\<exists>q. e' \<in> set (waiting_list ?k q))"
    if "e' \<in> set (kwaitq_list (threads ?k u))" for u e'
  proof -
    have e': "e' \<noteq> e" "e' \<in> set (kwaitq_list (threads k u))" using nk [OF that] by simp_all
    obtain q' where "e' \<in> set (waiting_list k q')" using D(8) [OF e'(2)] by blast
    from wl [OF this e'(1)] show ?thesis using D(8) [OF e'(2)] e'(1) by auto
  qed
  show "\<not> dead (tstate ?k u)" if "ins u \<noteq> None" for u using D(9) [OF that] by simp
  fix u q' e' tm
  assume x: "ins u = Some (Waiting q' e' tm)"
  show "entry_thread (entries ?k e') = Some u" using D(4) [OF x] by (cases "e' = e") simp_all
  show "e' \<in> set (waiting_list ?k q')" if "\<not> triggered ?k e'"
  proof -
    have "e' \<noteq> e" "\<not> triggered k e'" using that by (auto split: if_splits)
    then show ?thesis using D(5) [OF x] wl by blast
  qed
  show "wakeup_status (entries ?k e') = SOS_OK" if tr: "triggered ?k e'" "kind q' \<noteq> Raw_queue"
  proof (cases "e' = e")
    case True
    have "\<not> triggered k e" using D(2) [OF m] by blast
    then have "e \<in> set (waiting_list k q')" using D(5) [OF x] True by simp
    then have "q' = q" by (rule one_queue [OF i m])
    then show ?thesis using st tr(2) True by simp
  next
    case False
    then show ?thesis using D(6) [OF x] tr by simp
  qed
qed

text \<open>An entry that leaves its queue without a wake-up: at the end of a call, or by its owner.\<close>

lemma calls_ok_deq:
  assumes i: "calls_ok kind k ins" and m: "e \<in> set (waiting_list k q)" and t: "entry_thread (entries k e) = Some t"
    and new: "ins' = ins \<and> (\<forall>u q tm. ins u \<noteq> Some (Waiting q e tm)) \<or>
      ins' = ins(t := None) \<and> (\<exists>tm. ins t = Some (Waiting q e tm))"
  shows "calls_ok kind (deq q e t k) ins'"
proof -
  let ?g = "upd_entry e (\<lambda>d. d\<lparr>wakeup_triggered := True, wakeup_status := SOS_OK\<rparr>) (deq q e t k)"
  have undo: "deq q e t k = upd_entry e (\<lambda>_. entries (deq q e t k) e) ?g"
    by (simp add: upd_entry_def)
  have g: "calls_ok kind ?g ins" by (rule calls_ok_grant [OF i m t refl])
  have out: "e \<notin> set (waiting_list ?g q')" for q' using calls_okD(2) [OF g, of e q'] by auto
  have g': "calls_ok kind ?g ins'"
  proof (cases "ins' = ins")
    case False
    then obtain tm where x: "ins' = ins(t := None)" "ins t = Some (Waiting q e tm)" using new by blast
    show ?thesis unfolding x(1) by (rule calls_ok_leave [OF g]) (use x(2) in simp)
  qed (use g in simp)
  have "ins' u \<noteq> Some (Waiting q' e tm)" for u q' tm
    using new entry_owner_unique [OF i, of u q' e tm t] by (auto split: if_splits)
  then show ?thesis by (subst undo) (rule calls_ok_upd_entry [OF g' out])
qed

section \<open>Timers of the calls in progress\<close>

lemma timers_okD:
  assumes "timers_ok k ins"
  shows "tm_wf k"
    and "a \<in> set (timeout_action_list k) \<Longrightarrow> \<exists>t p. ptimer ins t = Some (a, p)"
    and "ptimer ins t = Some (a, p) \<Longrightarrow> thread_to_wakeup (sleepers k p) = Some t"
    and "ptimer ins t = Some (a, p) \<Longrightarrow> timeout_triggered (sleepers k p) \<Longrightarrow>
          a \<notin> set (timeout_action_list k) \<and> sos_time_is_zero (due k a)"
    and "ptimer ins t = Some (a, p) \<Longrightarrow> \<not> timeout_triggered (sleepers k p) \<Longrightarrow>
          a \<in> set (timeout_action_list k) \<and> routine_data (timeout_actions k a) = p"
proof -
  note h1 = assms [unfolded timers_ok_def]
  note h2 = conjunct2 [OF h1]
  note h3 = conjunct2 [OF h2]
  note h4 = conjunct2 [OF h3]
  show "tm_wf k" by (rule conjunct1 [OF h1])
  show "a \<in> set (timeout_action_list k) \<Longrightarrow> \<exists>t p. ptimer ins t = Some (a, p)"
    using conjunct1 [OF h2] by blast
  show "ptimer ins t = Some (a, p) \<Longrightarrow> thread_to_wakeup (sleepers k p) = Some t"
    using conjunct1 [OF h3] by blast
  show "ptimer ins t = Some (a, p) \<Longrightarrow> timeout_triggered (sleepers k p) \<Longrightarrow>
      a \<notin> set (timeout_action_list k) \<and> sos_time_is_zero (due k a)"
    using conjunct1 [OF h4] by blast
  show "ptimer ins t = Some (a, p) \<Longrightarrow> \<not> timeout_triggered (sleepers k p) \<Longrightarrow>
      a \<in> set (timeout_action_list k) \<and> routine_data (timeout_actions k a) = p"
    using conjunct2 [OF h4] by blast
qed

lemma timers_okI:
  assumes "tm_wf k"
    and "\<And>a. a \<in> set (timeout_action_list k) \<Longrightarrow> \<exists>t p. ptimer ins t = Some (a, p)"
    and "\<And>t a p. ptimer ins t = Some (a, p) \<Longrightarrow> thread_to_wakeup (sleepers k p) = Some t"
    and "\<And>t a p. ptimer ins t = Some (a, p) \<Longrightarrow> timeout_triggered (sleepers k p) \<Longrightarrow>
          a \<notin> set (timeout_action_list k) \<and> sos_time_is_zero (due k a)"
    and "\<And>t a p. ptimer ins t = Some (a, p) \<Longrightarrow> \<not> timeout_triggered (sleepers k p) \<Longrightarrow>
          a \<in> set (timeout_action_list k) \<and> routine_data (timeout_actions k a) = p"
  shows "timers_ok k ins"
  unfolding timers_ok_def
  apply (intro conjI)
  subgoal by (rule assms(1))
  subgoal using assms(2) by blast
  subgoal using assms(3) by blast
  subgoal using assms(4) by blast
  subgoal using assms(5) by blast
  done

lemma timers_ok_frame:
  assumes i: "timers_ok k ins"
    and f: "timeout_action_list k' = timeout_action_list k" "timeout_actions k' = timeout_actions k"
      "last_tick_time k' = last_tick_time k" "tick_resolution k' = tick_resolution k" "sleepers k' = sleepers k"
    and p: "ptimer ins' = ptimer ins"
  shows "timers_ok k' ins'"
proof -
  have "tm_wf k'" by (rule tm_wf_cong [OF timers_okD(1) [OF i]]) (simp_all add: f)
  then show ?thesis using i unfolding timers_ok_def f p by (elim conjE, intro conjI)
qed

lemma ptimer_upd [simp]:
  "ptimer (ins(c := x)) t = (if t = c then Option.bind x call_timer else ptimer ins t)"
  by (simp add: ptimer_def)

text \<open>A pending action belongs to one call.\<close>

lemma pending_owner:
  assumes i: "timers_ok k ins" and x: "ptimer ins t = Some (a, p)" and y: "ptimer ins t' = Some (a, p')"
    and a: "a \<in> set (timeout_action_list k)"
  shows "t' = t \<and> p' = p"
proof -
  note D = timers_okD [OF i]
  have "\<not> timeout_triggered (sleepers k p)" "\<not> timeout_triggered (sleepers k p')"
    using D(4) [OF x] D(4) [OF y] a by blast+
  then have "p' = p" using D(5) [OF x] D(5) [OF y] by simp
  then show ?thesis using D(3) [OF x] D(3) [OF y] by simp
qed

lemma timers_ok_arm:
  assumes i: "timers_ok k ins" and n: "ins c = None"
    and call: "call_timer call = (case delay tm of None \<Rightarrow> None | Some d \<Rightarrow> Some (tmo_action tm, tmo_params tm))"
    and f: "\<And>t a p d. delay tm = Some d \<Longrightarrow> ptimer ins t = Some (a, p) \<Longrightarrow> a \<noteq> tmo_action tm \<and> p \<noteq> tmo_params tm"
    and g: "\<And>d. delay tm = Some d \<Longrightarrow> time_wf d \<and> time_ns (last_tick_time k) + time_ns d < 2 ^ 32 * 10 ^ 9"
  shows "timers_ok (armed tm c k) (ins(c := Some call))"
proof (cases "delay tm")
  case None
  show ?thesis unfolding armed_eq(4) [OF timers_okD(1) [OF i] _ None, simplified None, simplified]
    by (rule timers_ok_frame [OF i]) (use n call None in \<open>simp_all add: fun_eq_iff ptimer_def\<close>)
next
  case (Some d)
  note D = timers_okD [OF i]
  have na: "tmo_action tm \<notin> set (timeout_action_list k)" using D(2) f [OF Some] by blast
  have h: "\<And>d. delay tm = Some d \<Longrightarrow> tmo_action tm \<notin> set (timeout_action_list k) \<and> time_wf d \<and>
      time_ns (last_tick_time k) + time_ns d < 2 ^ 32 * 10 ^ 9" using na g by blast
  note E = armed_eq [OF D(1) h]
  obtain date where e: "set (timeout_action_list (armed tm c k)) = insert (tmo_action tm) (set (timeout_action_list k))"
      "sleepers (armed tm c k) = (sleepers k)(tmo_params tm := \<lparr>thread_to_wakeup = Some c, timeout_triggered = False\<rparr>)"
      "timeout_actions (armed tm c k) = (timeout_actions k)(tmo_action tm :=
           \<lparr>routine = Some Sleep_timeout, routine_data = tmo_params tm, timeout = date\<rparr>)"
    using E(5) [OF _ Some] by blast
  have pt: "ptimer (ins(c := Some call)) t = Some (a, p) \<longleftrightarrow>
      (if t = c then a = tmo_action tm \<and> p = tmo_params tm else ptimer ins t = Some (a, p))" for t a p
    using call Some by auto
  show ?thesis
  proof (rule timers_okI)
    show "tm_wf (armed tm c k)" by (rule E(3))
    fix a
    assume "a \<in> set (timeout_action_list (armed tm c k))"
    then consider "a = tmo_action tm" | "a \<in> set (timeout_action_list k)" using e(1) by blast
    then show "\<exists>t p. ptimer (ins(c := Some call)) t = Some (a, p)"
    proof cases
      case 1
      then have "ptimer (ins(c := Some call)) c = Some (a, tmo_params tm)" by (simp add: call Some)
      then show ?thesis by blast
    next
      case 2
      from D(2) [OF this] obtain t p where "ptimer ins t = Some (a, p)" by blast
      moreover from this have "t \<noteq> c" using n by (auto simp: ptimer_def)
      ultimately have "ptimer (ins(c := Some call)) t = Some (a, p)" by simp
      then show ?thesis by blast
    qed
  next
    fix t a p
    assume "ptimer (ins(c := Some call)) t = Some (a, p)"
    then consider "t = c" "a = tmo_action tm" "p = tmo_params tm" |
        "ptimer ins t = Some (a, p)" "a \<noteq> tmo_action tm" "p \<noteq> tmo_params tm"
      using pt f [OF Some] by metis
    then have "thread_to_wakeup (sleepers (armed tm c k) p) = Some t \<and>
        (timeout_triggered (sleepers (armed tm c k) p) \<longrightarrow>
           a \<notin> set (timeout_action_list (armed tm c k)) \<and> sos_time_is_zero (due (armed tm c k) a)) \<and>
        (\<not> timeout_triggered (sleepers (armed tm c k) p) \<longrightarrow>
           a \<in> set (timeout_action_list (armed tm c k)) \<and> routine_data (timeout_actions (armed tm c k) a) = p)"
    proof cases
      case 1
      then show ?thesis by (simp add: e)
    next
      case 2
      then show ?thesis using D(3,4,5) [OF 2(1)] by (simp add: e)
    qed
    then show "thread_to_wakeup (sleepers (armed tm c k) p) = Some t"
      "timeout_triggered (sleepers (armed tm c k) p) \<Longrightarrow>
         a \<notin> set (timeout_action_list (armed tm c k)) \<and> sos_time_is_zero (due (armed tm c k) a)"
      "\<not> timeout_triggered (sleepers (armed tm c k) p) \<Longrightarrow>
         a \<in> set (timeout_action_list (armed tm c k)) \<and> routine_data (timeout_actions (armed tm c k) a) = p"
      by blast+
  qed
qed

text \<open>What a removal of a pending action leaves.\<close>

lemma timers_ok_remove:
  assumes i: "timers_ok k ins" and x: "ptimer ins t = Some (a, p)" and a: "a \<in> set (timeout_action_list k)"
    and k': "tm_wf k'" "set (timeout_action_list k') = set (timeout_action_list k) - {a}"
      "\<And>b. b \<noteq> a \<Longrightarrow> timeout_actions k' b = timeout_actions k b"
      "\<And>p'. p' \<noteq> p \<Longrightarrow> sleepers k' p' = sleepers k p'"
    and ins': "ins' = ins(t := None) \<or> ins' = ins \<and> thread_to_wakeup (sleepers k' p) = Some t \<and>
        timeout_triggered (sleepers k' p) \<and> sos_time_is_zero (due k' a)"
  shows "timers_ok k' ins'"
proof -
  note D = timers_okD [OF i]
  have o: "t' \<noteq> t \<Longrightarrow> a' \<noteq> a \<and> p' \<noteq> p" if "ptimer ins t' = Some (a', p')" "a' \<in> set (timeout_action_list k)" for t' a' p'
    using pending_owner [OF i x, of t' p'] that a D(3) [OF x] D(3) [OF that(1)] by auto
  show ?thesis
  proof (rule timers_okI)
    show "tm_wf k'" by (rule k'(1))
    fix b
    assume b: "b \<in> set (timeout_action_list k')"
    then obtain t' p' where t': "ptimer ins t' = Some (b, p')" using D(2) k'(2) by blast
    have "b \<noteq> a" using b k'(2) by blast
    then have "t' \<noteq> t" using t' x by auto
    then have "ptimer ins' t' = Some (b, p')" using t' ins' by auto
    then show "\<exists>t p. ptimer ins' t = Some (b, p)" by blast
  next
    fix t' b p'
    assume y: "ptimer ins' t' = Some (b, p')"
    have y': "ptimer ins t' = Some (b, p')" using y ins' by (auto split: if_splits)
    have eq: "t' = t \<Longrightarrow> b = a \<and> p' = p \<and> ins' = ins" using y y' x ins' by auto
    have "ins t \<noteq> None" using x by (cases "ins t") (simp_all add: ptimer_def)
    then have nl: "thread_to_wakeup (sleepers k' p) = Some t \<and> timeout_triggered (sleepers k' p) \<and>
        sos_time_is_zero (due k' a)" if "t' = t"
      using eq [OF that] ins' by (metis fun_upd_same)
    have ne: "t' \<noteq> t \<Longrightarrow> p' \<noteq> p" using D(3) [OF x] D(3) [OF y'] by auto
    show "thread_to_wakeup (sleepers k' p') = Some t'"
      using D(3) [OF y'] eq ne k'(4) nl by (cases "t' = t") simp_all
    show "b \<notin> set (timeout_action_list k') \<and> sos_time_is_zero (due k' b)" if tr: "timeout_triggered (sleepers k' p')"
    proof (cases "t' = t")
      case True
      then show ?thesis using eq nl k'(2) by simp
    next
      case False
      then have "timeout_triggered (sleepers k p')" using tr ne k'(4) by simp
      from D(4) [OF y' this] have "b \<notin> set (timeout_action_list k)" "sos_time_is_zero (due k b)" by simp_all
      moreover from this a have "b \<noteq> a" by blast
      ultimately show ?thesis using k'(2,3) by simp
    qed
    show "b \<in> set (timeout_action_list k') \<and> routine_data (timeout_actions k' b) = p'"
      if tr: "\<not> timeout_triggered (sleepers k' p')"
    proof (cases "t' = t")
      case True
      then show ?thesis using eq nl tr by simp
    next
      case False
      then have "\<not> timeout_triggered (sleepers k p')" using tr ne k'(4) by simp
      from D(5) [OF y' this] have b: "b \<in> set (timeout_action_list k)" "routine_data (timeout_actions k b) = p'" by simp_all
      from o [OF y' b(1) False] have "b \<noteq> a" by simp
      then show ?thesis using b k'(2,3) by simp
    qed
  qed
qed

end
