(* ===== verification/Ksystem_steps.thy ===== *)
theory Ksystem_steps
  imports Ksystem_calls
begin

text \<open>
  Every routine of the threads keeps the kernel consistent and its counts right: switches, sleeps,
  ticks, wake-ups, and the calls on semaphores and mutexes. Each lemma also says that the routine
  returns, where no assertion of its code can fire.
\<close>

section \<open>The routines keep the kernel consistent\<close>

definition same_sync :: "kernel \<Rightarrow> kernel \<Rightarrow> bool" where
  "same_sync k k' \<longleftrightarrow> waiting_list k' = waiting_list k \<and> entries k' = entries k \<and>
     ksema_value k' = ksema_value k \<and> kmutex_owner k' = kmutex_owner k \<and>
     (\<forall>t. kwaitq_list (threads k' t) = kwaitq_list (threads k t)) \<and>
     (\<forall>t. dead (tstate k' t) \<longrightarrow> dead (tstate k t))"

lemma same_sync_refl [intro, simp]: "same_sync k k"
  by (simp add: same_sync_def)

lemma same_sync_trans [trans]: "same_sync k k' \<Longrightarrow> same_sync k' k'' \<Longrightarrow> same_sync k k''"
  unfolding same_sync_def by metis

lemma calls_ok_same_sync: "calls_ok kind k ins \<Longrightarrow> same_sync k k' \<Longrightarrow> calls_ok kind k' ins"
  unfolding same_sync_def by (elim conjE, rule calls_ok_frame) blast+

lemma kernel_okD:
  "kernel_ok kind c k ins \<Longrightarrow> queue_wf k" "kernel_ok kind c k ins \<Longrightarrow> running c k"
  "kernel_ok kind c k ins \<Longrightarrow> calls_ok kind k ins" "kernel_ok kind c k ins \<Longrightarrow> timers_ok k ins"
  by (simp_all add: kernel_ok_def)

lemma same_sync_readied: "same_sync k (readied t k)"
  by (simp add: same_sync_def tstate_readied)

lemma same_sync_switched:
  "c \<noteq> n \<Longrightarrow> tstate k c = SOS_THR_RUNNING \<Longrightarrow> st = SOS_THR_READY \<or> st = SOS_THR_BLOCKED \<Longrightarrow>
   same_sync k (switched c st n q pc r k)"
  by (auto simp: same_sync_def tstate_switched)

text \<open>The context switch.\<close>

lemma switch_begin_result:
  assumes q: "queue_wf k" and c: "running c k" and s: "switch_begin op pc r k = Some (b, k')"
  shows "b = False \<and> k' = k \<and> op = YIELD_MYSELF \<and> ready_list k = [] \<or>
    b = True \<and> (\<exists>n l. ready_list k = n # l \<and> stack_check n k \<noteq> None \<and>
      k' = switched c (if op = YIELD_MYSELF then SOS_THR_READY else SOS_THR_BLOCKED) n
             (if op = YIELD_MYSELF then l @ [c] else l) pc r k \<and>
      queue_wf k' \<and> running n k' \<and> same_sync k k')"
proof -
  have cur: "current_thread k = Some c" and cr: "tstate k c = SOS_THR_RUNNING" using c by (auto simp: running_def)
  have irq: "\<not> sos_servicing_irq k"
    using s cur cr by (cases "sos_servicing_irq k") (simp_all add: switch_begin_def)
  note Y = switch_yield [OF q c irq] and B = switch_block [OF q c irq]
  have sw: "queue_wf k' \<and> running n k' \<and> same_sync k k'"
    if "ready_list k = n # l" "k' = switched c (if op = YIELD_MYSELF then SOS_THR_READY else SOS_THR_BLOCKED) n
             (if op = YIELD_MYSELF then l @ [c] else l) pc r k" for n l
  proof -
    have "c \<noteq> n" using queue_head_running [OF q that(1) c] by blast
    then have "same_sync k k'" unfolding that(2) using cr by (rule same_sync_switched) simp
    then show ?thesis unfolding that(2) using queue_wf_switched [OF q c that(1)] by (cases op) simp_all
  qed
  show ?thesis
  proof (cases "ready_list k")
    case Nil
    then show ?thesis using s Y(1) B(1) by (cases op) auto
  next
    case (Cons n l)
    have st: "stack_check n k \<noteq> None"
      using s Y(2) [OF Cons, of pc r] B(2) [OF Cons, of pc r] by (cases op; cases "stack_check n k") simp_all
    then have "k' = switched c (if op = YIELD_MYSELF then SOS_THR_READY else SOS_THR_BLOCKED) n
             (if op = YIELD_MYSELF then l @ [c] else l) pc r k \<and> b"
      using s Y(2) [OF Cons, of pc r] B(2) [OF Cons, of pc r] by (cases op) auto
    with sw [OF Cons] st Cons show ?thesis by blast
  qed
qed

text \<open>A blocking call, from its entry to the switch.\<close>

lemma block_kernel_ok:
  assumes k: "kernel_ok kind c k ins" and n: "ins c = None"
    and e: "calls_ok kind k1 (ins(c := Some call))" "queue_wf k1" "running c k1" "timers_ok k1 ins"
    and call: "call_timer call = (case delay tm of None \<Rightarrow> None | Some d \<Rightarrow> Some (tmo_action tm, tmo_params tm))"
    and f: "\<And>t a p d. delay tm = Some d \<Longrightarrow> ptimer ins t = Some (a, p) \<Longrightarrow> a \<noteq> tmo_action tm \<and> p \<noteq> tmo_params tm"
    and g: "\<And>d. delay tm = Some d \<Longrightarrow> time_wf d \<and> time_ns (last_tick_time k1) + time_ns d < 2 ^ 32 * 10 ^ 9"
    and s: "sos_thread_sleep_begin (delay tm) (tmo_action tm) (tmo_params tm) pc r k1 = Some (b, k')"
  shows "\<exists>n l. b \<and> ready_list k1 = n # l \<and> k' = switched c SOS_THR_BLOCKED n l pc r (armed tm c k1) \<and>
     kernel_ok kind n k' (ins(c := Some call)) \<and> same_sync k1 k'"
proof -
  have na: "\<And>d. delay tm = Some d \<Longrightarrow> tmo_action tm \<notin> set (timeout_action_list k1) \<and> time_wf d \<and>
      time_ns (last_tick_time k1) + time_ns d < 2 ^ 32 * 10 ^ 9"
    using timers_okD(2) [OF e(4)] f g by blast
  note A = armed_eq [where c = c, OF timers_okD(1) [OF e(4)] na]
  define ka where "ka = armed tm c k1"
  obtain l acts where ka: "ka = k1\<lparr>timeout_action_list := l, timeout_actions := acts, sleepers := sleepers ka\<rparr>"
    using A(2) unfolding ka_def by blast
  have f1: "ready_list ka = ready_list k1" "waiting_list ka = waiting_list k1" "entries ka = entries k1"
      "threads ka = threads k1" "ksema_value ka = ksema_value k1" "kmutex_owner ka = kmutex_owner k1"
      "current_thread ka = current_thread k1" "nr_threads ka = nr_threads k1" "thread_list ka = thread_list k1"
    by (subst ka, simp)+
  have q: "queue_wf ka" "running c ka" "same_sync k1 ka"
    using e(2,3) by (simp_all add: queue_wf_def running_def same_sync_def f1)
  have "current_thread k1 = Some c" using e(3) by (simp add: running_def)
  then have s': "switch_begin BLOCK_MYSELF pc r ka = Some (b, k')"
    using A(1) [of pc r, unfolded s] by (simp add: ka_def)
  from switch_begin_result [OF q(1,2) s'] obtain n l where n: "b" "ready_list ka = n # l"
      "k' = switched c SOS_THR_BLOCKED n l pc r ka" "queue_wf k'" "running n k'" "same_sync ka k'"
    by auto
  have t: "timers_ok ka (ins(c := Some call))"
    unfolding ka_def by (rule timers_ok_arm [OF e(4) assms(2) call f g])
  have "timers_ok k' (ins(c := Some call))" by (rule timers_ok_frame [OF t]) (simp_all add: n(3))
  moreover have "same_sync k1 k'" by (rule same_sync_trans [OF q(3) n(6)])
  moreover from this have "calls_ok kind k' (ins(c := Some call))" by (rule calls_ok_same_sync [OF e(1)])
  ultimately have "kernel_ok kind n k' (ins(c := Some call))" "same_sync k1 k'"
    using n(4,5) by (simp_all add: kernel_ok_def)
  with n(1) n(2) [unfolded f1(1)] n(3) [unfolded ka_def] show ?thesis by blast
qed

text \<open>A timer tick.\<close>

text \<open>A tick leaves the list of threads alone, and the thread that is being created.\<close>

definition keeps_created :: "kernel \<Rightarrow> kernel \<Rightarrow> bool" where
  "keeps_created k k' \<longleftrightarrow> thread_list k' = thread_list k \<and>
     (\<forall>t. tstate k t = SOS_THR_CREATED \<longrightarrow> tstate k' t = SOS_THR_CREATED)"

lemma keeps_created_trans: "keeps_created k k' \<Longrightarrow> keeps_created k' k'' \<Longrightarrow> keeps_created k k''"
  by (simp add: keeps_created_def)

lemma keeps_created_readied: "keeps_created k (readied t k)"
  by (simp add: keeps_created_def tstate_readied)

lemma time_ns_zero: "time_ns t = 0 \<Longrightarrow> sos_time_is_zero t"
  by (simp add: time_ns_def sos_time_is_zero_def unat_eq_0)

lemma fire_ok:
  assumes k: "kernel_ok kind c k ins" and l: "timeout_action_list k = a # ys"
    and now: "\<not> last_tick_time k < due k a"
  shows "\<exists>k'. fire call_routine a k = Some k' \<and> kernel_ok kind c k' ins \<and> same_sync k k' \<and>
     timeout_action_list k' = ys \<and> keeps_created k k'"
proof -
  note D = kernel_okD [OF k] and T = timers_okD [OF kernel_okD(4) [OF k]]
  have am: "a \<in> set (timeout_action_list k)" using l by simp
  obtain t p where t: "ptimer ins t = Some (a, p)" using T(2) [OF am] by blast
  have tr: "\<not> timeout_triggered (sleepers k p)" using T(4) [OF t] am by blast
  have p: "routine_data (timeout_actions k a) = p" and tw: "thread_to_wakeup (sleepers k p) = Some t"
    using T(5) [OF t tr] T(3) [OF t] by simp_all
  have "ins t \<noteq> None" using t by (cases "ins t") (simp_all add: ptimer_def)
  then have td: "\<not> dead (tstate k t)" by (rule calls_okD(9) [OF D(3)])
  have dist: "distinct (timeout_action_list k)" using T(1) by (simp add: tm_wf_def)
  have rt: "routine (timeout_actions k a) = Some Sleep_timeout"
  proof -
    have "routine (timeout_actions k a) \<noteq> None" using T(1) am unfolding tm_wf_def by blast
    then show ?thesis by (metis option.exhaust timeout_routine.exhaust)
  qed
  obtain k1 rem where k1: "remove_action a k = Some (SOS_OK, k1)" "tm_wf k1" "timeout_action_list k1 = ys"
      "timeout_actions k1 = (timeout_actions k)(a := (timeout_actions k a)\<lparr>timeout := rem\<rparr>)"
      "time_ns rem = time_ns (due k a) - time_ns (last_tick_time k)"
      "tick_resolution k1 = tick_resolution k" "last_tick_time k1 = last_tick_time k" "ktime.more k1 = ktime.more k"
    using remove_action_ok [OF T(1) am] l by auto
  have "time_wf (due k a)" "time_wf (last_tick_time k)" using T(1) am by (auto simp: tm_wf_def)
  then have z: "sos_time_is_zero rem" using k1(5) now by (intro time_ns_zero) (simp add: time_le_iff not_less)
  have k1e: "k1 = k\<lparr>timeout_action_list := ys, timeout_actions := timeout_actions k1\<rparr>"
    using ktime_upd_eq [OF k1(6,7,8)] unfolding k1(3) .
  define k2 where "k2 = k1\<lparr>sleepers := (sleepers k1)(p := (sleepers k1 p)\<lparr>timeout_triggered := True\<rparr>)\<rparr>"
  have s1: "threads k1 = threads k" "sleepers k1 = sleepers k" "ready_list k1 = ready_list k" "entries k1 = entries k"
      "waiting_list k1 = waiting_list k" "ksema_value k1 = ksema_value k" "kmutex_owner k1 = kmutex_owner k"
      "current_thread k1 = current_thread k" "nr_threads k1 = nr_threads k" "thread_list k1 = thread_list k"
    by (subst k1e, simp)+
  have q2: "queue_wf k2" "running c k2" "same_sync k k2" "tstate k2 t = tstate k t"
    using D(1,2) by (simp_all add: k2_def queue_wf_def running_def same_sync_def s1)
  have tw2: "thread_to_wakeup (sleepers k2 p) = Some t" using tw by (simp add: k2_def s1)
  have fu: "sos_thread_force_unblock (Some t) k2 = Some (SOS_OK, readied t k2)"
    by (rule force_unblock_readied [OF q2(1)]) (use td q2(4) in simp_all)
  have r1: "routine_data (timeout_actions k1 a) = p" by (simp add: k1(4) p)
  have st: "sleep_timeout a k1 = Some (readied t k2)"
    using fu tw2 unfolding sleep_timeout_def r1 Let_def k2_def [symmetric] by simp
  have f: "fire call_routine a k = Some (readied t k2)"
    using k1(1) rt st by (simp add: fire_def k1(4) call_routine_def)
  define k3 where "k3 = readied t k2"
  have k3: "timeout_action_list k3 = ys" "timeout_actions k3 = timeout_actions k1"
      "sleepers k3 = (sleepers k)(p := (sleepers k p)\<lparr>timeout_triggered := True\<rparr>)"
      "last_tick_time k3 = last_tick_time k1" "tick_resolution k3 = tick_resolution k1"
    by (simp_all add: k3_def k2_def k1(3) s1)
  have s3: "same_sync k k3" unfolding k3_def by (rule same_sync_trans [OF q2(3) same_sync_readied])
  have "timers_ok k3 ins"
  proof (rule timers_ok_remove [OF D(4) t am])
    show "tm_wf k3" by (rule tm_wf_cong [OF k1(2)]) (simp_all add: k1(3) k3)
    show "set (timeout_action_list k3) = set (timeout_action_list k) - {a}"
      using dist l by (auto simp: k3)
  qed (use tw z in \<open>simp_all add: k3 k1(4)\<close>)
  moreover have "calls_ok kind k3 ins" by (rule calls_ok_same_sync [OF D(3) s3])
  moreover have "queue_wf k3" "running c k3"
    unfolding k3_def by (rule queue_wf_readied [OF q2(1)], rule running_readied [OF q2(2)])
  ultimately have "kernel_ok kind c k3 ins" by (simp add: kernel_ok_def)
  moreover have "keeps_created k k2" by (simp add: keeps_created_def k2_def s1)
  then have "keeps_created k k3" unfolding k3_def by (rule keeps_created_trans [OF _ keeps_created_readied])
  ultimately show ?thesis using f s3 k3(1) unfolding k3_def by blast
qed

lemma tick_loop_ok:
  assumes "kernel_ok kind c k ins"
  shows "\<exists>k'. do_tick_loop call_routine k = Some k' \<and> kernel_ok kind c k' ins \<and> same_sync k k' \<and> keeps_created k k'"
  using assms
proof (induction "timeout_action_list k" arbitrary: k)
  case Nil
  have "do_tick_loop call_routine k = Some k" by (subst do_tick_loop.simps) (simp flip: Nil(1))
  with Nil.prems show ?case by (auto simp: keeps_created_def)
next
  case (Cons a ys)
  note l = Cons.hyps(2) [symmetric]
  have wf: "tm_wf k" by (rule timers_okD(1) [OF kernel_okD(4) [OF Cons.prems]])
  show ?case
  proof (cases "last_tick_time k < due k a")
    case True
    then have "do_tick_loop call_routine k = Some k" using l by (subst do_tick_loop.simps) simp
    with Cons.prems show ?thesis by (auto simp: keeps_created_def)
  next
    case False
    from fire_ok [OF Cons.prems l False] obtain k1 where k1: "fire call_routine a k = Some k1"
        "kernel_ok kind c k1 ins" "same_sync k k1" "timeout_action_list k1 = ys" "keeps_created k k1" by blast
    from Cons.hyps(1) [OF k1(4) [symmetric] k1(2)] obtain k' where k': "do_tick_loop call_routine k1 = Some k'"
        "kernel_ok kind c k' ins" "same_sync k1 k'" "keeps_created k1 k'" by blast
    have "do_tick_loop call_routine k = Some k'"
      using do_tick_loop_step [OF wf l False, of call_routine] k1(1) k'(1) by simp
    with k' same_sync_trans [OF k1(3) k'(3)] keeps_created_trans [OF k1(5) k'(4)] show ?thesis by blast
  qed
qed

lemma tick_ok:
  assumes k: "kernel_ok kind c k ins"
    and fits: "time_ns (last_tick_time k) + time_ns (tick_resolution k) < 2 ^ 32 * 10 ^ 9"
  shows "\<exists>k'. sos_time_do_tick call_routine k = Some (SOS_OK, k') \<and> kernel_ok kind c k' ins \<and> same_sync k k' \<and>
     keeps_created k k'"
proof -
  let ?k = "k\<lparr>last_tick_time := sos_time_inc (last_tick_time k) (tick_resolution k)\<rparr>"
  note T = timers_okD [OF kernel_okD(4) [OF k]]
  have "time_wf (last_tick_time k)" "time_wf (tick_resolution k)" using T(1) by (simp_all add: tm_wf_def)
  from time_inc_exact(1) [OF this fits] have wf: "tm_wf ?k" by (rule tm_wf_clock [OF T(1)])
  have "timers_ok ?k ins" by (rule timers_okI [OF wf]) (use T in simp_all)
  moreover have "same_sync k ?k" by (simp add: same_sync_def)
  ultimately have "kernel_ok kind c ?k ins"
    using calls_ok_same_sync [OF kernel_okD(3) [OF k]] kernel_okD(1,2) [OF k]
    by (simp add: kernel_ok_def queue_wf_def running_def)
  from tick_loop_ok [OF this] obtain k' where "do_tick_loop call_routine ?k = Some k'" "kernel_ok kind c k' ins"
      "same_sync ?k k'" "keeps_created ?k k'" by blast
  with same_sync_trans [OF \<open>same_sync k ?k\<close>] show ?thesis
    by (auto simp: sos_time_do_tick_def Let_def keeps_created_def)
qed

section \<open>Waking up and coming back\<close>

lemma kernel_ok_sync: "same_sync k k' \<Longrightarrow> queue_wf k' \<Longrightarrow> running c k' \<Longrightarrow> timers_ok k' ins \<Longrightarrow>
    calls_ok kind k ins \<Longrightarrow> kernel_ok kind c k' ins"
  using calls_ok_same_sync by (simp add: kernel_ok_def)

text \<open>The thread of an entry that is in a queue, unless it is the one that runs.\<close>

lemma queued_thread:
  assumes k: "kernel_ok kind c k ins" and e: "e \<in> set (waiting_list k q)" and n: "entry_thread (entries k e) \<noteq> Some c"
  shows "\<exists>t. entry_thread (entries k e) = Some t \<and> t \<noteq> c \<and>
     (tstate k t = SOS_THR_BLOCKED \<or> tstate k t = SOS_THR_READY)"
proof -
  note C = calls_okD [OF kernel_okD(3) [OF k]]
  obtain t where t: "entry_thread (entries k e) = Some t" "\<not> dead (tstate k t)" using C(2) [OF e] by blast
  have c: "t \<noteq> c" using t(1) n by auto
  then have "tstate k t \<noteq> SOS_THR_RUNNING" using kernel_okD(2) [OF k] by (simp add: running_def)
  then have "tstate k t = SOS_THR_BLOCKED \<or> tstate k t = SOS_THR_READY" using t(2) by (cases "tstate k t") simp_all
  with t(1) c show ?thesis by blast
qed

text \<open>The queue of a semaphore or of a mutex holds the entries of calls in progress only.\<close>

lemma object_entry:
  assumes k: "kernel_ok kind c k ins" and q: "kind q \<noteq> Raw_queue" and e: "e \<in> set (waiting_list k q)"
  shows "\<exists>t tm. ins t = Some (Waiting q e tm) \<and> entry_thread (entries k e) = Some t \<and> \<not> triggered k e"
proof -
  note C = calls_okD [OF kernel_okD(3) [OF k]]
  obtain t tm where t: "ins t = Some (Waiting q e tm)" using C(3) [OF e q] by blast
  with C(2) [OF e] C(4) [OF t] show ?thesis by blast
qed

lemma grant_sel [simp]:
  "timeout_action_list (grant q e t status k) = timeout_action_list k"
  "timeout_actions (grant q e t status k) = timeout_actions k"
  "last_tick_time (grant q e t status k) = last_tick_time k"
  "tick_resolution (grant q e t status k) = tick_resolution k"
  "current_thread (grant q e t status k) = current_thread k"
  "thread_list (grant q e t status k) = thread_list k"
  "ready_list (grant q e t status k) = ready_list (readied t k)"
  "nr_threads (grant q e t status k) = nr_threads (readied t k)"
  "waiting_list (grant q e t status k) = (waiting_list k)(q := remove1 e (waiting_list k q))"
  "sleepers (grant q e t status k) = sleepers k"
  "ksema_value (grant q e t status k) = ksema_value k"
  "kmutex_owner (grant q e t status k) = kmutex_owner k"
  "tstate (grant q e t status k) u = tstate (readied t k) u"
  "triggered (grant q e t status k) f = (f = e \<or> triggered k f)"
  "wakeup_status (entries (grant q e t status k) f) = (if f = e then status else wakeup_status (entries k f))"
  "entry_thread (entries (grant q e t status k) f) = entry_thread (entries k f)"
  by (simp_all add: grant_def)

lemma grant_ok:
  assumes k: "kernel_ok kind c k ins" and e: "e \<in> set (waiting_list k q)" and t: "entry_thread (entries k e) = Some t"
    and st: "kind q \<noteq> Raw_queue \<Longrightarrow> status = SOS_OK"
  shows "kernel_ok kind c (grant q e t status k) ins"
proof -
  note D = kernel_okD [OF k]
  let ?k = "grant q e t status k"
  have "calls_ok kind (readied t k) ins" by (rule calls_ok_same_sync [OF D(3) same_sync_readied])
  then have "calls_ok kind ?k ins" unfolding grant_def
    by (rule calls_ok_grant) (use e t st in simp_all)
  moreover have "queue_wf ?k" by (rule queue_wf_cong [OF queue_wf_readied [OF D(1), of t]]) simp_all
  moreover have "running c ?k" by (rule running_cong [OF running_readied [OF D(2), of t]]) simp_all
  moreover have "timers_ok ?k ins" by (rule timers_ok_frame [OF D(4)]) simp_all
  ultimately show ?thesis by (simp add: kernel_ok_def)
qed

text \<open>One turn of the wake-up loop.\<close>

lemma wakeup_loop_step:
  assumes k: "kernel_ok kind c k ins" and l: "waiting_list k q = e # es"
    and x: "entry_thread (entries k e) = Some t" "t \<noteq> c" and pos: "nb \<noteq> 0"
  shows "wakeup_loop q nb status k = wakeup_loop q (nb - 1) status (grant q e t status k)"
proof -
  have em: "e \<in> set (waiting_list k q)" using l by simp
  from queued_thread [OF k em] x have w: "tstate k t = SOS_THR_BLOCKED \<or> tstate k t = SOS_THR_READY" by auto
  have nr: "tstate k t \<noteq> SOS_THR_RUNNING" using w by auto
  have sr: "sos_sched_set_ready t k = Some (SOS_OK, readied t k)"
    by (rule set_ready_readied [OF kernel_okD(1) [OF k] w])
  have lv: "sos_kwaitq_remove_entry q e (readied t k) = Some (SOS_OK, deq q e t (readied t k))"
    by (rule leave_queue_eq) (use queued_of [OF kernel_okD(3) [OF k] em x(1)] x(1) em in simp_all)
  show ?thesis
    using pos nr by (subst wakeup_loop.simps) (simp add: l x(1) sr lv grant_def)
qed

lemma wakeup_loop_stop: "waiting_list k q = [] \<or> nb = 0 \<Longrightarrow> wakeup_loop q nb status k = Some k"
  by (subst wakeup_loop.simps) (auto split: list.split)

lemma unat_pred: "(nb :: u32) \<noteq> 0 \<Longrightarrow> unat nb = Suc (unat (nb - 1))"
  using unat_minus_one [of nb] unat_gt_0 [of nb] by simp

definition owner_of :: "kernel \<Rightarrow> nat \<Rightarrow> nat" where
  "owner_of k e = (case entry_thread (entries k e) of Some t \<Rightarrow> t | None \<Rightarrow> 0)"

text \<open>
  The threads that a wake-up puts in the ready queue: those of the entries it takes that are
  blocked, each at its first entry.
\<close>

definition readied_by :: "kernel \<Rightarrow> nat list \<Rightarrow> nat list" where
  "readied_by k es = firsts (filter (\<lambda>t. tstate k t = SOS_THR_BLOCKED) (map (owner_of k) es))"

lemma readied_by_Cons:
  assumes "entry_thread (entries k e) = Some t"
  shows "readied_by k (e # es) = (if tstate k t = SOS_THR_BLOCKED then [t] else []) @
     readied_by (grant q e t status k) es"
proof -
  have o: "owner_of k e = t" "owner_of (grant q e t status k) = owner_of k"
    using assms by (simp_all add: owner_of_def fun_eq_iff)
  have "filter (\<lambda>u. tstate (grant q e t status k) u = SOS_THR_BLOCKED) xs =
      removeAll t (filter (\<lambda>u. tstate k u = SOS_THR_BLOCKED) xs)" if "tstate k t = SOS_THR_BLOCKED" for xs
    by (induction xs) (simp_all add: tstate_readied that)
  moreover have "filter (\<lambda>u. tstate (grant q e t status k) u = SOS_THR_BLOCKED) xs =
      filter (\<lambda>u. tstate k u = SOS_THR_BLOCKED) xs" if "tstate k t \<noteq> SOS_THR_BLOCKED" for xs
    by (induction xs) (simp_all add: tstate_readied that)
  moreover have "firsts (removeAll t xs) = removeAll t (firsts xs)" for xs
    using firsts_filter [of "\<lambda>u. t \<noteq> u" xs] by (simp add: removeAll_filter_not_eq)
  ultimately show ?thesis by (simp add: readied_by_def o)
qed

text \<open>A wake-up where none of the entries to take is of the thread that calls it.\<close>

lemma wakeup_loop_ok:
  assumes "kernel_ok kind c k ins" and "kind q \<noteq> Raw_queue \<Longrightarrow> status = SOS_OK"
    and "\<forall>e \<in> set (take (unat nb) (waiting_list k q)). entry_thread (entries k e) \<noteq> Some c"
  shows "\<exists>k'. wakeup_loop q nb status k = Some k' \<and> kernel_ok kind c k' ins \<and>
     waiting_list k' = (waiting_list k)(q := drop (unat nb) (waiting_list k q)) \<and>
     (\<forall>e. triggered k' e \<longleftrightarrow> triggered k e \<or> e \<in> set (take (unat nb) (waiting_list k q))) \<and>
     (\<forall>e. wakeup_status (entries k' e) = (if e \<in> set (take (unat nb) (waiting_list k q)) then status
            else wakeup_status (entries k e))) \<and>
     (\<forall>e. entry_thread (entries k' e) = entry_thread (entries k e)) \<and>
     ready_list k' = ready_list k @ readied_by k (take (unat nb) (waiting_list k q)) \<and>
     ksema_value k' = ksema_value k \<and> kmutex_owner k' = kmutex_owner k"
  using assms(1,3)
proof (induction "waiting_list k q" arbitrary: k nb)
  case Nil
  note l = Nil.hyps [symmetric]
  have "(waiting_list k)(q := []) = waiting_list k" using l by auto
  with wakeup_loop_stop [of k q nb status] l Nil.prems show ?case by (simp add: readied_by_def)
next
  case (Cons e es)
  note l = Cons.hyps(2) [symmetric] and k = Cons.prems(1)
  show ?case
  proof (cases "nb = 0")
    case True
    with wakeup_loop_stop [of k q nb status] k show ?thesis by (simp add: readied_by_def)
  next
    case False
    note u = unat_pred [OF False]
    have em: "e \<in> set (waiting_list k q)" using l by simp
    have "entry_thread (entries k e) \<noteq> Some c" using Cons.prems(2) by (simp add: l u)
    from queued_thread [OF k em this] obtain t where t: "entry_thread (entries k e) = Some t" "t \<noteq> c" by blast
    define k1 where "k1 = grant q e t status k"
    have k1: "kernel_ok kind c k1 ins" unfolding k1_def by (rule grant_ok [OF k em t(1) assms(2)])
    have l1: "waiting_list k1 q = es" by (simp add: k1_def l)
    have "\<forall>f \<in> set (take (unat (nb - 1)) (waiting_list k1 q)). entry_thread (entries k1 f) \<noteq> Some c"
      using Cons.prems(2) by (simp add: l l1 u k1_def)
    from Cons.hyps(1) [OF l1 [symmetric] k1 this] obtain k' where k': "wakeup_loop q (nb - 1) status k1 = Some k'"
        "kernel_ok kind c k' ins" "waiting_list k' = (waiting_list k1)(q := drop (unat (nb - 1)) es)"
        "\<forall>f. triggered k' f \<longleftrightarrow> triggered k1 f \<or> f \<in> set (take (unat (nb - 1)) es)"
        "\<forall>f. wakeup_status (entries k' f) = (if f \<in> set (take (unat (nb - 1)) es) then status
            else wakeup_status (entries k1 f))"
        "\<forall>f. entry_thread (entries k' f) = entry_thread (entries k1 f)"
        "ready_list k' = ready_list k1 @ readied_by k1 (take (unat (nb - 1)) es)"
        "ksema_value k' = ksema_value k1" "kmutex_owner k' = kmutex_owner k1"
      unfolding l1 by blast
    have run: "wakeup_loop q nb status k = Some k'"
      by (rule trans [OF wakeup_loop_step [OF k l t False] k'(1) [unfolded k1_def]])
    have rd: "ready_list k1 = ready_list k @ (if tstate k t = SOS_THR_BLOCKED then [t] else [])"
      by (simp add: k1_def readied_def set_state_def)
    show ?thesis
    proof (intro exI [of _ k'] conjI)
      show "\<forall>f. triggered k' f \<longleftrightarrow> triggered k f \<or> f \<in> set (take (unat nb) (waiting_list k q))"
        using k'(4) by (auto simp: u l k1_def)
      show "waiting_list k' = (waiting_list k)(q := drop (unat nb) (waiting_list k q))"
        using k'(3) by (auto simp: u l k1_def)
      show "ready_list k' = ready_list k @ readied_by k (take (unat nb) (waiting_list k q))"
        unfolding k'(7) rd u l take_Suc_Cons readied_by_Cons [OF t(1), of _ q status] by (simp add: k1_def)
      show "\<forall>f. wakeup_status (entries k' f) = (if f \<in> set (take (unat nb) (waiting_list k q)) then status
          else wakeup_status (entries k f))"
        using k'(5) by (simp add: u l k1_def)
    qed (use run k' in \<open>simp_all add: k1_def\<close>)
  qed
qed

text \<open>One of them is: the loop never ends.\<close>

lemma wakeup_loop_stuck:
  assumes "wakeup_loop q nb status k = Some k'"
  shows "\<forall>e es t. waiting_list k q = e # es \<longrightarrow> entry_thread (entries k e) = Some t \<longrightarrow>
      tstate k t = SOS_THR_RUNNING \<longrightarrow> nb = 0"
proof (rule wakeup_loop.raw_induct [where P = "\<lambda>q nb status k k'. \<forall>e es t. waiting_list k q = e # es \<longrightarrow>
      entry_thread (entries k e) = Some t \<longrightarrow> tstate k t = SOS_THR_RUNNING \<longrightarrow> nb = 0", OF _ assms])
  fix rec q and nb :: u32 and status k k'
  assume IH: "\<And>q nb status k k'. rec q nb status k = Some k' \<Longrightarrow> \<forall>e es t. waiting_list k q = e # es \<longrightarrow>
      entry_thread (entries k e) = Some t \<longrightarrow> tstate k t = SOS_THR_RUNNING \<longrightarrow> nb = 0"
    and run: "(case waiting_list k q of [] \<Rightarrow> Some k | e # x \<Rightarrow> if nb \<le> 0 then Some k else do {
            t \<leftarrow> entry_thread (entries k e);
            if tstate k t = SOS_THR_RUNNING then rec q nb status k
            else do {
              (_, s) \<leftarrow> sos_sched_set_ready t k;
              (_, s) \<leftarrow> sos_kwaitq_remove_entry q e s;
              let s = upd_entry e (\<lambda>d. d\<lparr>wakeup_triggered := True, wakeup_status := status\<rparr>) s;
              rec q (nb - 1) status s } }) = Some k'"
  show "\<forall>e es t. waiting_list k q = e # es \<longrightarrow> entry_thread (entries k e) = Some t \<longrightarrow>
      tstate k t = SOS_THR_RUNNING \<longrightarrow> nb = 0"
    using run IH [of q nb status k k'] by (auto simp: word_le_nat_alt unat_eq_0 split: if_splits)
qed

lemma wakeup_own_entry:
  assumes "kernel_ok kind c k ins" and "kind q \<noteq> Raw_queue \<Longrightarrow> status = SOS_OK"
    and "\<exists>e \<in> set (take (unat nb) (waiting_list k q)). entry_thread (entries k e) = Some c"
  shows "wakeup_loop q nb status k = None"
  using assms(1,3)
proof (induction "waiting_list k q" arbitrary: k nb)
  case Nil
  then show ?case by simp
next
  case (Cons e es)
  note l = Cons.hyps(2) [symmetric] and k = Cons.prems(1)
  have nz: "nb \<noteq> 0" using Cons.prems(2) by auto
  note u = unat_pred [OF nz]
  have em: "e \<in> set (waiting_list k q)" using l by simp
  show ?case
  proof (cases "entry_thread (entries k e) = Some c")
    case True
    have "tstate k c = SOS_THR_RUNNING" using kernel_okD(2) [OF k] by (simp add: running_def)
    with True l nz show ?thesis using wakeup_loop_stuck [of q nb status k] by (cases "wakeup_loop q nb status k") auto
  next
    case False
    from queued_thread [OF k em this] obtain t where t: "entry_thread (entries k e) = Some t" "t \<noteq> c" by blast
    define k1 where "k1 = grant q e t status k"
    have k1: "kernel_ok kind c k1 ins" unfolding k1_def by (rule grant_ok [OF k em t(1) assms(2)])
    have l1: "waiting_list k1 q = es" by (simp add: k1_def l)
    have "\<exists>f \<in> set (take (unat (nb - 1)) (waiting_list k1 q)). entry_thread (entries k1 f) = Some c"
      using Cons.prems(2) t by (simp add: l l1 u k1_def)
    from Cons.hyps(1) [OF l1 [symmetric] k1 this] show ?thesis
      unfolding wakeup_loop_step [OF k l t nz, of status] k1_def .
  qed
qed

text \<open>A semaphore or a mutex never wakes the thread that uses it.\<close>

lemma object_no_own_entry:
  assumes "kernel_ok kind c k ins" and "ins c = None" and "kind q \<noteq> Raw_queue"
  shows "\<forall>e \<in> set (take n (waiting_list k q)). entry_thread (entries k e) \<noteq> Some c"
proof
  fix e
  assume "e \<in> set (take n (waiting_list k q))"
  then have "e \<in> set (waiting_list k q)" by (rule in_set_takeD)
  from object_entry [OF assms(1,3) this] obtain t tm where "ins t = Some (Waiting q e tm)" "entry_thread (entries k e) = Some t"
    by blast
  with assms(2) show "entry_thread (entries k e) \<noteq> Some c" by auto
qed

definition timer_ptr :: "timer \<Rightarrow> (nat \<times> nat) option" where
  "timer_ptr tm = (case delay tm of None \<Rightarrow> None | Some d \<Rightarrow> Some (tmo_action tm, tmo_params tm))"

lemma call_timer_ptr [simp]:
  "call_timer (Sleeping tm) = timer_ptr tm" "call_timer (Waiting q e tm) = timer_ptr tm"
  by (cases tm; cases "delay tm"; simp add: timer_ptr_def)+

lemma sleep_end_ok:
  assumes k: "kernel_ok kind c k ins" and x: "ins c = Some call" "call_timer call = timer_ptr tm"
  shows "\<exists>ret rem k'. sos_thread_sleep_end (delay tm) (tmo_action tm) (tmo_params tm) c k = Some (ret, rem, k') \<and>
     timers_ok k' (ins(c := None)) \<and> same_sync k k' \<and> queue_wf k' \<and> running c k' \<and>
     ret = (if delay tm = None \<or> timeout_triggered (sleepers k (tmo_params tm)) then SOS_OK else - SOS_EINTR) \<and>
     (ready_list k' = ready_list k)"
proof -
  note D = kernel_okD [OF k]
  note T = timers_okD [OF D(4)]
  have sw: "switch_end c k = Some SOS_OK" using D(2) by (simp add: switch_end_def running_def)
  show ?thesis
  proof (cases "delay tm")
    case None
    then have "ptimer (ins(c := None)) = ptimer ins" using x by (auto simp: fun_eq_iff ptimer_def timer_ptr_def)
    then have "timers_ok k (ins(c := None))" by (intro timers_ok_frame [OF D(4)]) simp_all
    then show ?thesis using None D(1,2) sw by (simp add: sos_thread_sleep_end_def)
  next
    case (Some d)
    let ?a = "tmo_action tm" and ?p = "tmo_params tm"
    have pt: "ptimer ins c = Some (?a, ?p)" using x Some by (simp add: ptimer_def timer_ptr_def)
    show ?thesis
    proof (cases "timeout_triggered (sleepers k ?p)")
      case True
      note z = T(4) [OF pt True]
      have "timers_ok k (ins(c := None))"
      proof (rule timers_okI)
        show "\<exists>t p. ptimer (ins(c := None)) t = Some (b, p)" if b: "b \<in> set (timeout_action_list k)" for b
        proof -
          obtain t p where t: "ptimer ins t = Some (b, p)" using T(2) [OF b] by blast
          have "t \<noteq> c"
          proof
            assume "t = c"
            then have "b = ?a" using t pt by simp
            then show False using b z by blast
          qed
          then have "ptimer (ins(c := None)) t = Some (b, p)" using t by simp
          then show ?thesis by blast
        qed
      qed (use T in \<open>auto split: if_splits\<close>)
      then show ?thesis using Some True z D(1,2) sw by (simp add: sos_thread_sleep_end_def)
    next
      case False
      note a = T(5) [OF pt False]
      obtain k' rem where k': "remove_action ?a k = Some (SOS_OK, k')" "tm_wf k'"
          "timeout_action_list k' = remove1 ?a (timeout_action_list k)"
          "timeout_actions k' = (timeout_actions k)(?a := (timeout_actions k ?a)\<lparr>timeout := rem\<rparr>)"
          "tick_resolution k' = tick_resolution k" "last_tick_time k' = last_tick_time k" "ktime.more k' = ktime.more k"
        using remove_action_ok [OF T(1) conjunct1 [OF a]] by blast
      have e: "k' = k\<lparr>timeout_action_list := timeout_action_list k', timeout_actions := timeout_actions k'\<rparr>"
        by (rule ktime_upd_eq [OF k'(5,6,7)])
      have s: "threads k' = threads k" "sleepers k' = sleepers k" "ready_list k' = ready_list k" "entries k' = entries k"
        "waiting_list k' = waiting_list k" "ksema_value k' = ksema_value k" "kmutex_owner k' = kmutex_owner k"
        "current_thread k' = current_thread k" "nr_threads k' = nr_threads k" "thread_list k' = thread_list k"
        by (subst e, simp)+
      have dist: "distinct (timeout_action_list k)" using T(1) by (simp add: tm_wf_def)
      have "timers_ok k' (ins(c := None))"
        by (rule timers_ok_remove [OF D(4) pt conjunct1 [OF a] k'(2)]) (use dist in \<open>simp_all add: k'(3,4) s\<close>)
      moreover have "queue_wf k'" "running c k'" "same_sync k k'"
        using D(1,2) by (simp_all add: queue_wf_def running_def same_sync_def s)
      moreover have "sos_thread_sleep_end (delay tm) ?a ?p c k = Some (- SOS_EINTR, Some (due k' ?a), k')"
        using Some False sw k'(1) by (simp add: sos_thread_sleep_end_def sos_time_unregister_action_def)
      ultimately show ?thesis using Some False s(3) by simp
    qed
  qed
qed

lemma wait_end_ok:
  assumes k: "kernel_ok kind c k ins" and x: "ins c = Some (Waiting q e tm)"
  shows "\<exists>ret rem k'. sos_kwaitq_wait_end q e (delay tm) (tmo_action tm) (tmo_params tm) c k = Some (ret, rem, k') \<and>
     kernel_ok kind c k' (ins(c := None)) \<and>
     ret = (if triggered k e then wakeup_status (entries k e) else - SOS_EINTR) \<and>
     waiting_list k' = (if triggered k e then waiting_list k else (waiting_list k)(q := remove1 e (waiting_list k q))) \<and>
     (\<forall>f. triggered k' f = triggered k f) \<and> ksema_value k' = ksema_value k \<and> kmutex_owner k' = kmutex_owner k"
proof -
  note D = kernel_okD [OF k]
  note C = calls_okD [OF D(3)]
  obtain ret rem k1 where k1: "sos_thread_sleep_end (delay tm) (tmo_action tm) (tmo_params tm) c k = Some (ret, rem, k1)"
      "timers_ok k1 (ins(c := None))" "same_sync k k1" "queue_wf k1" "running c k1"
    using sleep_end_ok [OF k x, of tm] by auto
  have s: "waiting_list k1 = waiting_list k" "entries k1 = entries k" "ksema_value k1 = ksema_value k"
      "kmutex_owner k1 = kmutex_owner k" using k1(3) by (simp_all add: same_sync_def)
  have c1: "calls_ok kind k1 ins" by (rule calls_ok_same_sync [OF D(3) k1(3)])
  show ?thesis
  proof (cases "triggered k e")
    case True
    have "calls_ok kind k1 (ins(c := None))" by (rule calls_ok_leave [OF c1]) (use x True s in auto)
    then have "kernel_ok kind c k1 (ins(c := None))" using k1 by (simp add: kernel_ok_def)
    then show ?thesis using True k1(1) by (simp add: sos_kwaitq_wait_end_def s)
  next
    case False
    have f: "\<not> triggered k1 e" by (simp add: s False)
    have m: "e \<in> set (waiting_list k1 q)" and t: "entry_thread (entries k1 e) = Some c"
      using calls_okD(4,5) [OF c1 x] f by simp_all
    let ?k = "deq q e c k1"
    have lv: "sos_kwaitq_remove_entry q e k1 = Some (SOS_OK, ?k)"
      by (rule leave_queue_eq) (use queued_of [OF c1 m t] m t in simp_all)
    have "calls_ok kind ?k (ins(c := None))" by (rule calls_ok_deq [OF c1 m t]) (use x in blast)
    moreover have "queue_wf ?k" by (rule queue_wf_cong [OF k1(4)]) simp_all
    moreover have "running c ?k" by (rule running_cong [OF k1(5)]) simp_all
    moreover have "timers_ok ?k (ins(c := None))" by (rule timers_ok_frame [OF k1(2)]) simp_all
    ultimately have "kernel_ok kind c ?k (ins(c := None))" by (simp add: kernel_ok_def)
    then show ?thesis using False k1(1) lv by (simp add: sos_kwaitq_wait_end_def s)
  qed
qed

section \<open>Threads that were woken\<close>

lemma granted_alive: "queue_wf k \<Longrightarrow> calls_ok kind k ins \<Longrightarrow> granted k ins q \<subseteq> set (thread_list k)"
proof
  fix t
  assume q: "queue_wf k" and i: "calls_ok kind k ins" and t: "t \<in> granted k ins q"
  then have "ins t \<noteq> None" by (auto simp: granted_def)
  then have "\<not> dead (tstate k t)" by (rule calls_okD(9) [OF i])
  with q show "t \<in> set (thread_list k)" by (simp add: queue_wf_def)
qed

lemma finite_granted: "kernel_ok kind c k ins \<Longrightarrow> finite (granted k ins q)"
  using granted_alive finite_subset finite_set unfolding kernel_ok_def by metis

lemma granted_cong: "entries k' = entries k \<Longrightarrow> granted k' ins q = granted k ins q"
  by (simp add: granted_def)

lemma granted_enter:
  assumes "ins c = None" and "\<And>q' e tm. call = Waiting q' e tm \<Longrightarrow> \<not> triggered k' e"
    and "\<And>t q' e tm. ins t = Some (Waiting q' e tm) \<Longrightarrow> triggered k' e = triggered k e"
  shows "granted k' (ins(c := Some call)) q = granted k ins q"
proof (rule set_eqI)
  fix t
  show "t \<in> granted k' (ins(c := Some call)) q \<longleftrightarrow> t \<in> granted k ins q"
  proof (cases "t = c")
    case True
    then show ?thesis using assms(1,2) by (auto simp: granted_def)
  next
    case False
    have "(\<exists>e tm. ins t = Some (Waiting q e tm) \<and> triggered k' e) \<longleftrightarrow>
        (\<exists>e tm. ins t = Some (Waiting q e tm) \<and> triggered k e)" using assms(3) by metis
    with False show ?thesis by (simp add: granted_def)
  qed
qed

lemma granted_leave:
  assumes "\<And>e. triggered k' e = triggered k e"
  shows "granted k' (ins(c := None)) q = granted k ins q - {c}"
  unfolding granted_def using assms by auto

lemma granted_wakeup:
  assumes i: "calls_ok kind k ins" and x: "ins t = Some (Waiting q e tm)" "\<not> triggered k e"
    and tr: "\<And>f. triggered k' f = (triggered k f \<or> f = e)"
  shows "granted k' ins q' = (if q' = q then insert t (granted k ins q) else granted k ins q')"
    and "t \<notin> granted k ins q"
proof -
  have u: "ins u = Some (Waiting q' e tm') \<Longrightarrow> u = t \<and> q' = q" for u q' tm'
    using entry_owner_unique [OF i x(1)] x(1) by fastforce
  show "granted k' ins q' = (if q' = q then insert t (granted k ins q) else granted k ins q')"
  proof (rule set_eqI)
    fix v
    have "(\<exists>f tm. ins v = Some (Waiting q' f tm) \<and> (triggered k f \<or> f = e)) \<longleftrightarrow>
        (\<exists>f tm. ins v = Some (Waiting q' f tm) \<and> triggered k f) \<or> v = t \<and> q' = q"
      using u x(1) by metis
    then show "v \<in> granted k' ins q' \<longleftrightarrow>
        v \<in> (if q' = q then insert t (granted k ins q) else granted k ins q')"
      by (auto simp: granted_def tr)
  qed
  show "t \<notin> granted k ins q" using x by (auto simp: granted_def)
qed

section \<open>Each call keeps the system consistent\<close>

lemma sema_ok_frame:
  "sema_ok init k ins tk q \<Longrightarrow> waiting_list k' q = waiting_list k q \<Longrightarrow> granted k' ins' q = granted k ins q \<Longrightarrow>
   ksema_value k' q = ksema_value k q \<Longrightarrow> tk' q = tk q \<Longrightarrow> sema_ok init k' ins' tk' q"
  by (simp add: sema_ok_def)

lemma mutex_ok_frame:
  "mutex_ok k ins hs st q \<Longrightarrow> waiting_list k' q = waiting_list k q \<Longrightarrow> granted k' ins' q = granted k ins q \<Longrightarrow>
   kmutex_owner k' q = kmutex_owner k q \<Longrightarrow> hs' q = hs q \<Longrightarrow> st' q = st q \<Longrightarrow> mutex_ok k' ins' hs' st' q"
  by (simp add: mutex_ok_def)

lemma objects_okD:
  "objects_ok kind init k ins tk hs st \<Longrightarrow> kind q = Sema \<Longrightarrow> sema_ok init k ins tk q"
  "objects_ok kind init k ins tk hs st \<Longrightarrow> kind q = Mutex \<Longrightarrow> mutex_ok k ins hs st q"
  by (simp_all add: objects_ok_def)

lemma objects_frame:
  assumes "objects_ok kind init k ins tk hs st"
    and "\<And>q. kind q \<noteq> Raw_queue \<Longrightarrow> waiting_list k' q = waiting_list k q \<and> granted k' ins' q = granted k ins q"
    and "ksema_value k' = ksema_value k" and "kmutex_owner k' = kmutex_owner k"
  shows "objects_ok kind init k' ins' tk hs st"
  unfolding objects_ok_def
proof (intro conjI allI impI)
  fix r
  show "sema_ok init k' ins' tk r" if r: "kind r = Sema"
    by (rule sema_ok_frame [OF objects_okD(1) [OF assms(1) r]]) (use assms(2) [of r] assms(3) r in simp_all)
  show "mutex_ok k' ins' hs st r" if r: "kind r = Mutex"
    by (rule mutex_ok_frame [OF objects_okD(2) [OF assms(1) r]]) (use assms(2) [of r] assms(4) r in simp_all)
qed

lemma same_syncD:
  "same_sync k k' \<Longrightarrow> waiting_list k' = waiting_list k" "same_sync k k' \<Longrightarrow> entries k' = entries k"
  "same_sync k k' \<Longrightarrow> ksema_value k' = ksema_value k" "same_sync k k' \<Longrightarrow> kmutex_owner k' = kmutex_owner k"
  by (simp_all add: same_sync_def)

lemma objects_same_sync:
  assumes "objects_ok kind init k ins tk hs st" and "same_sync k k'"
  shows "objects_ok kind init k' ins tk hs st"
  by (rule objects_frame [OF assms(1)]) (simp_all add: same_syncD [OF assms(2)] granted_cong [OF same_syncD(2) [OF assms(2)]])

lemma objects_okI:
  assumes "objects_ok kind init k ins tk hs st" and "kind q \<noteq> Raw_queue"
    and "\<And>q'. q' \<noteq> q \<Longrightarrow> waiting_list k' q' = waiting_list k q' \<and> granted k' ins' q' = granted k ins q' \<and>
        ksema_value k' q' = ksema_value k q' \<and> kmutex_owner k' q' = kmutex_owner k q' \<and> tk' q' = tk q' \<and> hs' q' = hs q' \<and> st' q' = st q'"
    and "kind q = Sema \<Longrightarrow> sema_ok init k' ins' tk' q"
    and "kind q = Mutex \<Longrightarrow> mutex_ok k' ins' hs' st' q"
  shows "objects_ok kind init k' ins' tk' hs' st'"
  unfolding objects_ok_def
proof (intro conjI allI impI)
  fix r
  show "sema_ok init k' ins' tk' r" if r: "kind r = Sema"
  proof (cases "r = q")
    case True
    then show ?thesis using assms(4) r by simp
  next
    case False
    then show ?thesis
      by (intro sema_ok_frame [OF objects_okD(1) [OF assms(1) r]]) (use assms(3) [OF False] in simp_all)
  qed
  show "mutex_ok k' ins' hs' st' r" if r: "kind r = Mutex"
  proof (cases "r = q")
    case True
    then show ?thesis using assms(5) r by simp
  next
    case False
    then show ?thesis
      by (intro mutex_ok_frame [OF objects_okD(2) [OF assms(1) r]]) (use assms(3) [OF False] in simp_all)
  qed
qed

lemma yield_ok:
  assumes k: "kernel_ok kind c k ins" and n: "ins c = None"
    and s: "sos_thread_yield_begin pc r k = Some (b, k')"
  shows "b = False \<and> k' = k \<or> b = True \<and> same_sync k k' \<and> (\<exists>n. kernel_ok kind n k' (ins(c := Some Yielding)))"
proof -
  note D = kernel_okD [OF k]
  from switch_begin_result [OF D(1,2) s [unfolded sos_thread_yield_begin_def]]
  consider "b = False" "k' = k" | n l where "b = True" "queue_wf k'" "running n k'" "same_sync k k'"
      "k' = switched c SOS_THR_READY n (l @ [c]) pc r k"
    by auto
  then show ?thesis
  proof cases
    case 2
    have "calls_ok kind k (ins(c := Some Yielding))" by (rule calls_ok_enter [OF D(3,2) n]) simp
    moreover have "timers_ok k' (ins(c := Some Yielding))"
      by (rule timers_ok_frame [OF D(4)]) (use n in \<open>auto simp: 2(5) fun_eq_iff ptimer_def\<close>)
    ultimately have "kernel_ok kind n k' (ins(c := Some Yielding))"
      by (intro kernel_ok_sync [OF 2(4,2,3)])
    with 2 show ?thesis by blast
  qed simp
qed

definition fresh_in :: "timer \<Rightarrow> kernel \<Rightarrow> (nat \<Rightarrow> kcall option) \<Rightarrow> bool" where
  "fresh_in tm k ins \<longleftrightarrow> (\<forall>d. delay tm = Some d \<longrightarrow> time_wf d \<and>
     time_ns (last_tick_time k) + time_ns d < 2 ^ 32 * 10 ^ 9 \<and>
     (\<forall>t a p. ptimer ins t = Some (a, p) \<longrightarrow> a \<noteq> tmo_action tm \<and> p \<noteq> tmo_params tm))"

lemma fresh_timer_in: "fresh_timer tm C \<longleftrightarrow> fresh_in tm (kern C) (inside C)"
  by (cases tm; cases "delay tm") (simp_all add: fresh_timer_def fresh_in_def)

lemma sleep_ok:
  assumes k: "kernel_ok kind c k ins" and n: "ins c = None" and f: "fresh_in tm k ins"
    and s: "sos_thread_sleep_begin (delay tm) (tmo_action tm) (tmo_params tm) pc r k = Some (b, k')"
  shows "b \<and> same_sync k k' \<and> (\<exists>n. kernel_ok kind n k' (ins(c := Some (Sleeping tm))))"
proof -
  note D = kernel_okD [OF k]
  have c: "calls_ok kind k (ins(c := Some (Sleeping tm)))" by (rule calls_ok_enter [OF D(3,2) n]) simp
  have "\<exists>n l. b \<and> ready_list k = n # l \<and> k' = switched c SOS_THR_BLOCKED n l pc r (armed tm c k) \<and>
     kernel_ok kind n k' (ins(c := Some (Sleeping tm))) \<and> same_sync k k'"
    by (rule block_kernel_ok [OF k n c D(1,2,4) _ _ _ s]) (use f in \<open>simp_all add: fresh_in_def timer_ptr_def\<close>)
  then show ?thesis by blast
qed

lemma wait_begin_ok:
  assumes k: "kernel_ok kind c k ins" and n: "ins c = None" and f: "fresh_in tm k ins"
    and e: "\<And>t q' tm. ins t \<noteq> Some (Waiting q' e tm)" "\<And>q'. e \<notin> set (waiting_list k q')"
    and s: "sos_kwaitq_wait_begin q e (delay tm) (tmo_action tm) (tmo_params tm) pc r k = Some (b, k')"
  shows "b \<and> (\<exists>n. kernel_ok kind n k' (ins(c := Some (Waiting q e tm)))) \<and>
    waiting_list k' = (waiting_list k)(q := waiting_list k q @ [e]) \<and>
    ksema_value k' = ksema_value k \<and> kmutex_owner k' = kmutex_owner k \<and>
    (\<forall>q'. granted k' (ins(c := Some (Waiting q e tm))) q' = granted k ins q')"
proof -
  note D = kernel_okD [OF k]
  let ?k = "enq q e c k"
  have s': "sos_thread_sleep_begin (delay tm) (tmo_action tm) (tmo_params tm) pc r ?k = Some (b, k')"
  proof -
    obtain a k1 where "sos_kwaitq_init_entry e k = Some (a, k1)" "sos_kwaitq_add_entry q e k1 = Some (SOS_OK, ?k)"
      using enter_queue_eq [OF D(2), of e q] by (auto simp: bind_eq_Some_conv)
    then show ?thesis using s by (simp add: sos_kwaitq_wait_begin_def)
  qed
  have c: "calls_ok kind ?k (ins(c := Some (Waiting q e tm)))" 
    by (rule calls_ok_enq [OF D(3) running_alive [OF D(2)] e(2,1)]) (use n in blast)
  have q: "queue_wf ?k" "running c ?k" "timers_ok ?k ins"
    by (rule queue_wf_cong [OF D(1)] running_cong [OF D(2)] timers_ok_frame [OF D(4)]; simp)+
  have "\<exists>n l. b \<and> ready_list ?k = n # l \<and> k' = switched c SOS_THR_BLOCKED n l pc r (armed tm c ?k) \<and>
     kernel_ok kind n k' (ins(c := Some (Waiting q e tm))) \<and> same_sync ?k k'"
    by (rule block_kernel_ok [OF k n c q _ _ _ s']) (use f in \<open>simp_all add: fresh_in_def timer_ptr_def\<close>)
  then obtain n where n': "b" "kernel_ok kind n k' (ins(c := Some (Waiting q e tm)))" "same_sync ?k k'" by blast
  have tr: "triggered k' f = (if f = e then False else triggered k f)" for f
    using n'(3) by (simp add: same_sync_def)
  have "granted k' (ins(c := Some (Waiting q e tm))) q' = granted k ins q'" for q'
    by (rule granted_enter) (use n tr e in auto)
  then show ?thesis using n' by (auto simp: same_sync_def)
qed

lemma card_granted_pos: "kernel_ok kind c k ins \<Longrightarrow> t \<in> granted k ins q \<Longrightarrow> 0 < card (granted k ins q)"
  using finite_granted card_gt_0_iff by blast

section \<open>Semaphores and mutexes\<close>

lemma kernel_ok_objects [simp]:
  "kernel_ok kind c (k\<lparr>ksema_value := v\<rparr>) ins = kernel_ok kind c k ins"
  "kernel_ok kind c (k\<lparr>kmutex_owner := w\<rparr>) ins = kernel_ok kind c k ins"
  by (simp_all add: kernel_ok_def queue_wf_def running_def calls_ok_def timers_ok_def tm_wf_def)

lemma granted_objects [simp]:
  "granted (k\<lparr>ksema_value := v\<rparr>) ins q = granted k ins q"
  "granted (k\<lparr>kmutex_owner := w\<rparr>) ins q = granted k ins q"
  by (simp_all add: granted_def)

lemma fresh_in_objects [simp]: "fresh_in tm (k\<lparr>ksema_value := v\<rparr>) ins = fresh_in tm k ins"
  by (simp add: fresh_in_def)

lemma current_ok: "running c k \<Longrightarrow> sos_thread_get_current k = Some c"
  by (simp add: running_def sos_thread_get_current_def)

lemma sema_inv_step:
  "sema_inv v i t g w \<Longrightarrow> v - 1 < 0 \<Longrightarrow> sema_inv (v - 1) i t g (Suc w)"
  "sema_inv v i t g w \<Longrightarrow> \<not> v - 1 < 0 \<Longrightarrow> sema_inv (v - 1) i (t + 1) g w"
  "sema_inv v i t g 0 \<Longrightarrow> sema_inv (v + 1) i (t - 1) g 0"
  "sema_inv v i t g (Suc w) \<Longrightarrow> sema_inv (v + 1) i (t - 1) (Suc g) w"
  "sema_inv v i t (Suc g) w \<Longrightarrow> sema_inv v i (t + 1) g w"
  "sema_inv v i t g (Suc w) \<Longrightarrow> sema_inv (v + 1) i t g w"
  unfolding sema_inv_def by arith+

lemma card_insert_le1: "finite H \<Longrightarrow> card (insert c H) \<le> Suc (card H)"
  by (simp add: card_insert_if)

lemma card_remove1: "finite H \<Longrightarrow> card H = card (H - {c}) + (if c \<in> H then 1 else 0)"
  using card_Suc_Diff1 [of H c] by simp

lemma mutex_inv_step:
  shows "mutex_inv None H g w st \<Longrightarrow> mutex_inv (Some c) (insert c H) g w st"
    and "mutex_inv ow H (Suc g) w st \<Longrightarrow> mutex_inv (Some c) (insert c H) g w st"
    and "mutex_inv ow H g (Suc w) st \<Longrightarrow> mutex_inv ow H g w st"
    and "mutex_inv (Some h) H g w st \<Longrightarrow> mutex_inv (Some h) H g (Suc w) st"
    and "mutex_inv (Some c) H g 0 st \<Longrightarrow> mutex_inv None (H - {c}) g 0 (if c \<in> H then st else st + 1)"
    and "mutex_inv (Some c) H g (Suc w) st \<Longrightarrow>
           mutex_inv (Some c) (H - {c}) (Suc g) w (if c \<in> H then st else st + 1)"
proof -
  have ins: "mutex_inv (Some c) (insert c H) g' w st"
    if "finite H" "card H + g' \<le> st" "st = 0 \<Longrightarrow> H = {} \<and> g' = 0" for g'
    using that card_insert_le1 [OF that(1), of c] by (cases "st = 0") (auto simp: mutex_inv_def)
  show "mutex_inv None H g w st \<Longrightarrow> mutex_inv (Some c) (insert c H) g w st"
    by (rule ins) (auto simp: mutex_inv_def)
  show "mutex_inv ow H (Suc g) w st \<Longrightarrow> mutex_inv (Some c) (insert c H) g w st"
    by (rule ins) (auto simp: mutex_inv_def split: if_splits)
  show "mutex_inv ow H g (Suc w) st \<Longrightarrow> mutex_inv ow H g w st"
    "mutex_inv (Some h) H g w st \<Longrightarrow> mutex_inv (Some h) H g (Suc w) st"
    by (auto simp: mutex_inv_def)
  have rem: "finite (H - {c}) \<and> card (H - {c}) + (if c \<in> H then 1 else 0) + g \<le> 1 + st \<and>
      (c \<in> H \<and> st = 0 \<longrightarrow> H - {c} = {} \<and> g = 0)" if "mutex_inv (Some c) H g w st" for w
    using that card_remove1 [of H c] card_0_eq [of "H - {c}"] by (auto simp: mutex_inv_def)
  show "mutex_inv None (H - {c}) g 0 (if c \<in> H then st else st + 1)" if "mutex_inv (Some c) H g 0 st"
    using rem [OF that] by (cases "c \<in> H"; cases "st = 0") (auto simp: mutex_inv_def)
  show "mutex_inv (Some c) (H - {c}) (Suc g) w (if c \<in> H then st else st + 1)" if "mutex_inv (Some c) H g (Suc w) st"
    using rem [OF that] by (cases "c \<in> H"; cases "st = 0") (auto simp: mutex_inv_def)
qed
text \<open>Waking one thread.\<close>

lemma wakeup_one:
  assumes k: "kernel_ok kind c k ins" and n: "ins c = None" and q: "kind q \<noteq> Raw_queue"
  shows "\<exists>k'. sos_kwaitq_wakeup q 1 SOS_OK k = Some (SOS_OK, k') \<and> kernel_ok kind c k' ins \<and>
     waiting_list k' = (waiting_list k)(q := tl (waiting_list k q)) \<and>
     ksema_value k' = ksema_value k \<and> kmutex_owner k' = kmutex_owner k \<and>
     (\<forall>q'. card (granted k' ins q') = card (granted k ins q') + (if q' = q \<and> waiting_list k q \<noteq> [] then 1 else 0)) \<and>
     (\<forall>q'. q' \<noteq> q \<longrightarrow> granted k' ins q' = granted k ins q')"
proof -
  from wakeup_loop_ok [OF k _ object_no_own_entry [OF k n q], of SOS_OK 1] obtain k' where k': "wakeup_loop q 1 SOS_OK k = Some k'"
      "kernel_ok kind c k' ins" "waiting_list k' = (waiting_list k)(q := drop 1 (waiting_list k q))"
      "\<forall>e. triggered k' e \<longleftrightarrow> triggered k e \<or> e \<in> set (take 1 (waiting_list k q))"
      "ksema_value k' = ksema_value k" "kmutex_owner k' = kmutex_owner k"
    by auto
  have g: "card (granted k' ins q') = card (granted k ins q') + (if q' = q \<and> waiting_list k q \<noteq> [] then 1 else 0) \<and>
      (q' \<noteq> q \<longrightarrow> granted k' ins q' = granted k ins q')" for q'
  proof (cases "waiting_list k q")
    case Nil
    then have "granted k' ins q' = granted k ins q'" using k'(4) by (simp add: granted_def)
    then show ?thesis using Nil by simp
  next
    case (Cons e es)
    have em: "e \<in> set (waiting_list k q)" using Cons by simp
    obtain t tm where t: "ins t = Some (Waiting q e tm)" "\<not> triggered k e"
      using object_entry [OF k q em] by blast
    have tr: "triggered k' f = (triggered k f \<or> f = e)" for f using k'(4) Cons by simp
    note G = granted_wakeup [OF kernel_okD(3) [OF k] t tr]
    show ?thesis using G finite_granted [OF k] Cons by simp
  qed
  show ?thesis using k' g by (simp add: sos_kwaitq_wakeup_def drop_Suc)
qed

lemma down_wait_ok:
  assumes k: "kernel_ok kind c k ins" and o: "objects_ok kind init k ins tk hs st" and n: "ins c = None"
    and q: "kind q = Sema" and f: "fresh_in tm k ins" and e: "\<And>t q' tm. ins t \<noteq> Some (Waiting q' e tm)" "\<And>q'. e \<notin> set (waiting_list k q')"
    and s: "sos_ksema_down_begin q e (delay tm) (tmo_action tm) (tmo_params tm) pc r k = Some (Some b, k')"
  shows "(\<exists>n. kernel_ok kind n k' (ins(c := Some (Waiting q e tm)))) \<and>
     objects_ok kind init k' (ins(c := Some (Waiting q e tm))) tk hs st"
proof -
  let ?k = "k\<lparr>ksema_value := (ksema_value k)(q := ksema_value k q - 1)\<rparr>"
  have s': "ksema_value k q - 1 < 0"
      "sos_kwaitq_wait_begin q e (delay tm) (tmo_action tm) (tmo_params tm) pc r ?k = Some (b, k')"
    using s by (auto simp: sos_ksema_down_begin_def add_sema_def Let_def bind_eq_Some_conv split: if_splits)
  have k1: "kernel_ok kind c ?k ins" "fresh_in tm ?k ins" using k f by simp_all
  have e2: "e \<notin> set (waiting_list ?k q')" for q' using e(2) by simp
  note W = wait_begin_ok [OF k1(1) n k1(2) e(1) e2 s'(2)]
  have w: "waiting_list k' = (waiting_list k)(q := waiting_list k q @ [e])"
      "ksema_value k' = (ksema_value k)(q := ksema_value k q - 1)" "kmutex_owner k' = kmutex_owner k"
      "granted k' (ins(c := Some (Waiting q e tm))) q' = granted k ins q'" for q'
    using W by simp_all
  have "objects_ok kind init k' (ins(c := Some (Waiting q e tm))) tk hs st"
  proof (rule objects_okI [OF o, where q = q])
    show "sema_ok init k' (ins(c := Some (Waiting q e tm))) tk q"
      using sema_inv_step(1) [OF objects_okD(1) [OF o q, unfolded sema_ok_def] s'(1)] by (simp add: sema_ok_def w)
  qed (use q w in simp_all)
  then show ?thesis using W by blast
qed

lemma down_now_ok:
  assumes k: "kernel_ok kind c k ins" and o: "objects_ok kind init k ins tk hs st" and q: "kind q = Sema"
    and s: "sos_ksema_down_begin q e (delay tm) (tmo_action tm) (tmo_params tm) pc r k = Some (None, k')"
  shows "kernel_ok kind c k' ins \<and> objects_ok kind init k' ins (tk(q := tk q + 1)) hs st"
proof -
  have s': "\<not> ksema_value k q - 1 < 0" "k' = k\<lparr>ksema_value := (ksema_value k)(q := ksema_value k q - 1)\<rparr>"
    using s by (auto simp: sos_ksema_down_begin_def add_sema_def Let_def bind_eq_Some_conv split: if_splits)
  have "objects_ok kind init k' ins (tk(q := tk q + 1)) hs st"
  proof (rule objects_okI [OF o, where q = q])
    show "sema_ok init k' ins (tk(q := tk q + 1)) q"
      using sema_inv_step(2) [OF objects_okD(1) [OF o q, unfolded sema_ok_def] s'(1)] by (simp add: sema_ok_def s'(2))
  qed (use q in \<open>simp_all add: s'(2)\<close>)
  with k show ?thesis by (simp add: s'(2))
qed

lemma trydown_ok:
  assumes k: "kernel_ok kind c k ins" and o: "objects_ok kind init k ins tk hs st" and q: "kind q = Sema"
    and s: "sos_ksema_trydown q k = (ret, k')"
  shows "kernel_ok kind c k' ins \<and> objects_ok kind init k' ins (if ret = SOS_OK then tk(q := tk q + 1) else tk) hs st"
proof (cases "ksema_value k q \<ge> 1")
  case True
  then have s': "ret = SOS_OK" "k' = k\<lparr>ksema_value := (ksema_value k)(q := ksema_value k q - 1)\<rparr>"
    using s by (auto simp: sos_ksema_trydown_def add_sema_def)
  have "objects_ok kind init k' ins (tk(q := tk q + 1)) hs st"
  proof (rule objects_okI [OF o, where q = q])
    show "sema_ok init k' ins (tk(q := tk q + 1)) q"
      using sema_inv_step(2) [OF objects_okD(1) [OF o q, unfolded sema_ok_def]] True by (simp add: sema_ok_def s'(2))
  qed (use q in \<open>simp_all add: s'(2)\<close>)
  with k show ?thesis by (simp add: s')
next
  case False
  then show ?thesis using s k o by (auto simp: sos_ksema_trydown_def errno_defs)
qed

lemma up_ok:
  assumes k: "kernel_ok kind c k ins" and o: "objects_ok kind init k ins tk hs st" and n: "ins c = None"
    and q: "kind q = Sema"
  shows "\<exists>k'. sos_ksema_up q k = Some (SOS_OK, k') \<and> kernel_ok kind c k' ins \<and>
     objects_ok kind init k' ins (tk(q := tk q - 1)) hs st"
proof -
  let ?k = "k\<lparr>ksema_value := (ksema_value k)(q := ksema_value k q + 1)\<rparr>"
  have k1: "kernel_ok kind c ?k ins" using k by simp
  obtain k' where k': "sos_kwaitq_wakeup q 1 SOS_OK ?k = Some (SOS_OK, k')" "kernel_ok kind c k' ins"
      "waiting_list k' = (waiting_list k)(q := tl (waiting_list k q))"
      "ksema_value k' = (ksema_value k)(q := ksema_value k q + 1)" "kmutex_owner k' = kmutex_owner k"
      "\<And>q'. card (granted k' ins q') = card (granted k ins q') + (if q' = q \<and> waiting_list k q \<noteq> [] then 1 else 0)"
      "\<And>q'. q' \<noteq> q \<Longrightarrow> granted k' ins q' = granted k ins q'"
    using wakeup_one [OF k1 n, of q] q by auto
  have "objects_ok kind init k' ins (tk(q := tk q - 1)) hs st"
  proof (rule objects_okI [OF o, where q = q])
    show "sema_ok init k' ins (tk(q := tk q - 1)) q"
      using sema_inv_step(3,4) objects_okD(1) [OF o q, unfolded sema_ok_def]
      by (cases "waiting_list k q") (simp_all add: sema_ok_def k'(3,4,6))
  qed (use q in \<open>simp_all add: k'(3,4,5,7)\<close>)
  with k' show ?thesis by (simp add: sos_ksema_up_def add_sema_def Let_def)
qed

lemma lock_wait_ok:
  assumes k: "kernel_ok kind c k ins" and o: "objects_ok kind init k ins tk hs st" and n: "ins c = None"
    and q: "kind q = Mutex" and f: "fresh_in tm k ins" and e: "\<And>t q' tm. ins t \<noteq> Some (Waiting q' e tm)" "\<And>q'. e \<notin> set (waiting_list k q')"
    and s: "sos_kmutex_lock_begin q e (delay tm) (tmo_action tm) (tmo_params tm) pc r k = Some (Inr b, k')"
  shows "(\<exists>n. kernel_ok kind n k' (ins(c := Some (Waiting q e tm)))) \<and>
     objects_ok kind init k' (ins(c := Some (Waiting q e tm))) tk hs st"
proof -
  have s': "kmutex_owner k q \<noteq> None"
      "sos_kwaitq_wait_begin q e (delay tm) (tmo_action tm) (tmo_params tm) pc r k = Some (b, k')"
    using s by (auto simp: sos_kmutex_lock_begin_def bind_eq_Some_conv split: if_splits)
  note W = wait_begin_ok [OF k n f e s'(2)]
  have w: "waiting_list k' = (waiting_list k)(q := waiting_list k q @ [e])"
      "ksema_value k' = ksema_value k" "kmutex_owner k' = kmutex_owner k"
      "granted k' (ins(c := Some (Waiting q e tm))) q' = granted k ins q'" for q'
    using W by simp_all
  have "objects_ok kind init k' (ins(c := Some (Waiting q e tm))) tk hs st"
  proof (rule objects_okI [OF o, where q = q])
    show "mutex_ok k' (ins(c := Some (Waiting q e tm))) hs st q"
      using objects_okD(2) [OF o q] s'(1) mutex_inv_step(4) by (auto simp: mutex_ok_def w)
  qed (use q w in simp_all)
  then show ?thesis using W by blast
qed

lemma take_mutex_ok:
  assumes k: "kernel_ok kind c k ins" and o: "objects_ok kind init k ins tk hs st" and q: "kind q = Mutex"
    and f: "kmutex_owner k q = None" and k': "k' = k\<lparr>kmutex_owner := (kmutex_owner k)(q := Some c)\<rparr>"
  shows "kernel_ok kind c k' ins \<and> objects_ok kind init k' ins tk (hs(q := insert c (hs q))) st"
proof -
  have "objects_ok kind init k' ins tk (hs(q := insert c (hs q))) st"
  proof (rule objects_okI [OF o, where q = q])
    show "mutex_ok k' ins (hs(q := insert c (hs q))) st q"
      using mutex_inv_step(1) objects_okD(2) [OF o q] f by (simp add: mutex_ok_def k')
  qed (use q in \<open>simp_all add: k'\<close>)
  with k show ?thesis by (simp add: k')
qed

lemma lock_now_ok:
  assumes k: "kernel_ok kind c k ins" and o: "objects_ok kind init k ins tk hs st" and q: "kind q = Mutex"
    and s: "sos_kmutex_lock_begin q e d a p pc r k = Some (Inl ret, k') \<or> sos_kmutex_trylock q k = Some (ret, k')"
  shows "kernel_ok kind c k' ins \<and> objects_ok kind init k' ins tk (if ret = SOS_OK then hs(q := insert c (hs q)) else hs) st"
proof -
  note cur = current_ok [OF kernel_okD(2) [OF k]]
  show ?thesis
  proof (cases "kmutex_owner k q")
    case None
    with s cur have "ret = SOS_OK" "k' = k\<lparr>kmutex_owner := (kmutex_owner k)(q := Some c)\<rparr>"
      by (auto simp: sos_kmutex_lock_begin_def sos_kmutex_trylock_def set_owner_def)
    with take_mutex_ok [OF k o q None] show ?thesis by simp
  next
    case (Some w)
    with s cur have "ret = - SOS_EBUSY" "k' = k"
      by (auto simp: sos_kmutex_lock_begin_def sos_kmutex_trylock_def bind_eq_Some_conv split: if_splits)
    with k o show ?thesis by (simp add: errno_defs)
  qed
qed

text \<open>
  The history of a mutex after an unlock that returned \<open>ret\<close> to \<open>c\<close>, and the number of stale
  unlocks.
\<close>

lemma unlock_ok:
  assumes k: "kernel_ok kind c k ins" and o: "objects_ok kind init k ins tk hs st" and n: "ins c = None"
    and q: "kind q = Mutex"
  shows "\<exists>ret k'. sos_kmutex_unlock q k = Some (ret, k') \<and> kernel_ok kind c k' ins \<and>
     (if kmutex_owner k q \<noteq> Some c then ret = - SOS_EPERM \<and> k' = k
      else ret = SOS_OK \<and> objects_ok kind init k' ins tk (hs(q := hs q - {c}))
        (if c \<in> hs q then st else st(q := st q + 1)))"
proof (cases "kmutex_owner k q = Some c")
  case False
  then show ?thesis using k current_ok [OF kernel_okD(2) [OF k]] by (auto simp: sos_kmutex_unlock_def)
next
  case ow: True
  define st' where "st' = (if c \<in> hs q then st else st(q := st q + 1))"
  note M = objects_okD(2) [OF o q, unfolded mutex_ok_def ow]
  note cur = current_ok [OF kernel_okD(2) [OF k]]
  have st: "st' q = (if c \<in> hs q then st q else st q + 1)" "q' \<noteq> q \<Longrightarrow> st' q' = st q'" for q'
    by (simp_all add: st'_def)
  show ?thesis
  proof (cases "waiting_list k q = []")
    case True
    let ?k = "k\<lparr>kmutex_owner := (kmutex_owner k)(q := None)\<rparr>"
    have "objects_ok kind init ?k ins tk (hs(q := hs q - {c})) st'"
    proof (rule objects_okI [OF o, where q = q])
      show "mutex_ok ?k ins (hs(q := hs q - {c})) st' q"
        using mutex_inv_step(5) M True st(1) by (simp add: mutex_ok_def)
    qed (use q st(2) in simp_all)
    then show ?thesis
      using True k cur ow by (simp add: sos_kmutex_unlock_def sos_kwaitq_is_empty_def set_owner_def st'_def)
  next
    case False
    have nr: "kind q \<noteq> Raw_queue" using q by simp
    obtain k' where k': "sos_kwaitq_wakeup q 1 SOS_OK k = Some (SOS_OK, k')" "kernel_ok kind c k' ins"
      "waiting_list k' = (waiting_list k)(q := tl (waiting_list k q))"
      "ksema_value k' = ksema_value k" "kmutex_owner k' = kmutex_owner k"
      "\<And>q'. card (granted k' ins q') = card (granted k ins q') + (if q' = q \<and> waiting_list k q \<noteq> [] then 1 else 0)"
      "\<And>q'. q' \<noteq> q \<Longrightarrow> granted k' ins q' = granted k ins q'"
      using wakeup_one [OF k n nr] by blast
    have "objects_ok kind init k' ins tk (hs(q := hs q - {c})) st'"
    proof (rule objects_okI [OF o, where q = q])
      show "mutex_ok k' ins (hs(q := hs q - {c})) st' q"
        using mutex_inv_step(6) [of c "hs q"] M False st(1) ow
        by (cases "waiting_list k q") (simp_all add: mutex_ok_def k')
    qed (use q st(2) in \<open>simp_all add: k'(3,4,5,7)\<close>)
    with k' False cur ow show ?thesis by (simp add: sos_kmutex_unlock_def sos_kwaitq_is_empty_def st'_def)
  qed
qed

end
