(* ===== verification/Ksystem_props.thy ===== *)
theory Ksystem_props
  imports Ksystem_steps
begin

text \<open>
  The invariant of the system of threads holds in every reachable state, and what it gives:
  scheduling, mutual exclusion up to the stale unlocks, semaphore counting, wake-up order, results
  of sleeps.
\<close>

section \<open>The system\<close>

lemma raw_wakeup_ok:
  assumes k: "kernel_ok kind c k ins" and o: "objects_ok kind init k ins tk hs st"
    and q: "kind q = Raw_queue" and s: "sos_kwaitq_wakeup q nb status k = Some (ret, k')"
  shows "kernel_ok kind c k' ins \<and> objects_ok kind init k' ins tk hs st"
proof -
  have own: "\<forall>e \<in> set (take (unat nb) (waiting_list k q)). entry_thread (entries k e) \<noteq> Some c"
  proof (rule ccontr)
    assume "\<not> (\<forall>e \<in> set (take (unat nb) (waiting_list k q)). entry_thread (entries k e) \<noteq> Some c)"
    then have "wakeup_loop q nb status k = None" by (intro wakeup_own_entry [OF k]) (use q in auto)
    with s show False by (simp add: sos_kwaitq_wakeup_def)
  qed
  obtain k1 where w: "wakeup_loop q nb status k = Some k1" "kernel_ok kind c k1 ins"
     "waiting_list k1 = (waiting_list k)(q := drop (unat nb) (waiting_list k q))"
     "\<forall>e. triggered k1 e \<longleftrightarrow> triggered k e \<or> e \<in> set (take (unat nb) (waiting_list k q))"
     "ksema_value k1 = ksema_value k" "kmutex_owner k1 = kmutex_owner k"
    using wakeup_loop_ok [OF k _ own, of status] q by auto
  have e: "k1 = k'" using s w(1) by (simp add: sos_kwaitq_wakeup_def)
  have g: "granted k1 ins q' = granted k ins q'" if "q' \<noteq> q" for q'
  proof -
    have "triggered k1 e = triggered k e" if x: "ins t = Some (Waiting q' e tm)" for t e tm
    proof (cases "e \<in> set (take (unat nb) (waiting_list k q))")
      case True
      then have m: "e \<in> set (waiting_list k q)" by (rule in_set_takeD)
      note C = calls_okD [OF kernel_okD(3) [OF k]]
      have "e \<in> set (waiting_list k q')" using C(5) [OF x] C(2) [OF m] by blast
      then have "q' = q" by (rule one_queue [OF kernel_okD(3) [OF k] m])
      with \<open>q' \<noteq> q\<close> show ?thesis by simp
    qed (use w(4) in simp)
    then show ?thesis unfolding granted_def by (intro Collect_cong) metis
  qed
  have "objects_ok kind init k1 ins tk hs st"
  proof (rule objects_frame [OF o _ w(5,6)])
    fix q' :: nat
    assume "kind q' \<noteq> Raw_queue"
    then have "q' \<noteq> q" using q by auto
    then show "waiting_list k1 q' = waiting_list k q' \<and> granted k1 ins q' = granted k ins q'"
      using g w(3) by simp
  qed
  with w(2) e show ?thesis by simp
qed

lemma force_ok:
  assumes k: "kernel_ok kind c k ins" and o: "objects_ok kind init k ins tk hs st" and t: "tstate k t \<noteq> SOS_THR_CREATED"
    and s: "sos_thread_force_unblock (Some t) k = Some (ret, k')"
  shows "kernel_ok kind c k' ins \<and> objects_ok kind init k' ins tk hs st"
proof (cases "tstate k t = SOS_THR_ZOMBIE")
  case True
  with s k o show ?thesis by (simp add: sos_thread_force_unblock_def)
next
  case False
  note D = kernel_okD [OF k]
  have e: "k' = readied t k" using force_unblock_readied [OF D(1) False t] s by simp
  have "timers_ok (readied t k) ins" by (rule timers_ok_frame [OF D(4)]) simp_all
  then have "kernel_ok kind c (readied t k) ins"
    using kernel_ok_sync [OF same_sync_readied queue_wf_readied [OF D(1)] running_readied [OF D(2)] _ D(3)] by blast
  with objects_same_sync [OF o same_sync_readied] e show ?thesis by simp
qed

text \<open>
  Creating a thread: up to the enabling of the interrupts the new thread only enters the list of
  threads; the rest puts it in the ready queue.
\<close>

lemma create_begin_eq:
  assumes "sos_create_kernel_thread_begin core ext nm f arg (Some t) stack k = (r, k')"
  shows "\<exists>th m l. thr_state th = SOS_THR_CREATED \<and> kwaitq_list th = [] \<and>
     k' = (if r = Inl ([], []) then k else k\<lparr>threads := (threads k)(t := th), kmem := m, thread_list := l\<rparr>) \<and>
     (case r of Inl _ \<Rightarrow> l = thread_list k | Inr t' \<Rightarrow> t' = t \<and> l = thread_list k @ [t])"
proof (cases f)
  case None
  then show ?thesis using assms
    by (auto simp: sos_create_kernel_thread_begin_def zero_thread_def intro!: exI [of _ zero_thread])
next
  case (Some f)
  define th where "th = zero_thread\<lparr>thr_name := take (SOS_THR_MAX_NAMELEN - 1) (case nm of Some n \<Rightarrow> n | None \<Rightarrow> ''[NONAME]''),
      thr_state := SOS_THR_CREATED, kernel_stack_base_addr := stack, kernel_stack_size := SOS_THREAD_KERNEL_STACK_SIZE\<rparr>"
  obtain rc ctxt m where st: "sos_cpu_kstate_init core f arg stack SOS_THREAD_KERNEL_STACK_SIZE ext 0 (kmem k) = (rc, ctxt, m)"
    by (cases "sos_cpu_kstate_init core f arg stack SOS_THREAD_KERNEL_STACK_SIZE ext 0 (kmem k)") auto
  let ?done = "stack \<noteq> 0 \<and> rc = SOS_OK"
  have th: "thr_state th = SOS_THR_CREATED" "kwaitq_list th = []" by (simp_all add: th_def zero_thread_def)
  have "k' = (if ?done then k\<lparr>threads := (threads k)(t := th\<lparr>thr_cpu_state := ctxt\<rparr>), kmem := m, thread_list := thread_list k @ [t]\<rparr>
        else k\<lparr>threads := (threads k)(t := th)\<rparr>)"
    and "r = (if ?done then Inr t else Inl (if stack = 0 then [] else [stack], [t]))"
    using assms unfolding Some sos_create_kernel_thread_begin_def th_def [symmetric] option.case Let_def
    by (auto simp: st upd_thread_def add_tail_def split: if_splits)
  then show ?thesis
    by (intro exI [of _ "if ?done then th\<lparr>thr_cpu_state := ctxt\<rparr> else th"] exI [of _ "if ?done then m else kmem k"]
        exI [of _ "if ?done then thread_list k @ [t] else thread_list k"]) (simp add: th)
qed

lemma new_thread_free:
  assumes k: "kernel_ok kind c k ins" and t: "t \<notin> set (thread_list k)"
  shows "tstate k t = SOS_THR_CREATED" and "kwaitq_list (threads k t) = []" and "t \<noteq> c"
proof -
  note D = kernel_okD [OF k]
  show ct: "tstate k t = SOS_THR_CREATED" using D(1) t by (auto simp: queue_wf_def)
  show "kwaitq_list (threads k t) = []"
  proof (rule ccontr)
    assume "kwaitq_list (threads k t) \<noteq> []"
    then obtain e where e: "e \<in> set (kwaitq_list (threads k t))" by (metis last_in_set)
    then obtain q where "e \<in> set (waiting_list k q)" "entry_thread (entries k e) = Some t"
      using calls_okD(8) [OF D(3) e] by blast
    from queued_of(3) [OF D(3) this] ct show False by simp
  qed
  show "t \<noteq> c" using ct running_alive [OF D(2)] by auto
qed

lemma create_begin_ok:
  assumes k: "kernel_ok kind c k ins" and o: "objects_ok kind init k ins tk hs st" and n: "ins t = None"
    and t: "t \<notin> set (thread_list k)" and len: "\<forall>t'. r = Inr t' \<longrightarrow> length (thread_list k) < 2 ^ 32 - 1"
    and s: "sos_create_kernel_thread_begin core ext nm f arg (Some t) stack k = (r, k')"
  shows "kernel_ok kind c k' ins \<and> objects_ok kind init k' ins tk hs st \<and> current_thread k' = current_thread k \<and>
     (r = Inr t' \<longrightarrow> t' = t \<and> t \<in> set (thread_list k') \<and> tstate k' t = SOS_THR_CREATED)"
proof -
  note D = kernel_okD [OF k]
  note F = new_thread_free [OF k t]
  obtain th m l where c: "thr_state th = SOS_THR_CREATED" "kwaitq_list th = []"
      "k' = (if r = Inl ([], []) then k else k\<lparr>threads := (threads k)(t := th), kmem := m, thread_list := l\<rparr>)"
      "case r of Inl _ \<Rightarrow> l = thread_list k | Inr t' \<Rightarrow> t' = t \<and> l = thread_list k @ [t]"
    using create_begin_eq [OF s] by blast
  show ?thesis
  proof (cases "r = Inl ([], [])")
    case True
    then show ?thesis using c(3) k o by simp
  next
    case False
    then have k': "k' = k\<lparr>threads := (threads k)(t := th), kmem := m, thread_list := l\<rparr>" using c(3) by simp
    have ts: "tstate k' u = tstate k u" for u using c(1) F(1) by (simp add: k')
    have tl: "distinct (thread_list k)" "length (thread_list k) < 2 ^ 32" using D(1) by (simp_all add: queue_wf_def)
    have l: "distinct l \<and> length l < 2 ^ 32 \<and> set (thread_list k) \<subseteq> set l"
    proof (cases r)
      case (Inl freed)
      then show ?thesis using c(4) tl by simp
    next
      case (Inr u)
      then have "l = thread_list k @ [t]" "length (thread_list k) < 2 ^ 32 - 1" using c(4) len by auto
      then show ?thesis using tl(1) t by auto
    qed
    have s: "same_sync k k'" using F(2) c(2) by (simp add: same_sync_def ts) (simp add: k')
    have q: "queue_wf k'"
    proof -
      have "ready_list k' = ready_list k" "nr_threads k' = nr_threads k" "thread_list k' = l" by (simp_all add: k')
      then show ?thesis using D(1) l unfolding queue_wf_def ts by auto
    qed
    have cur: "current_thread k' = current_thread k" by (simp add: k')
    have r: "running c k'" using D(2) unfolding running_def ts cur .
    have "timers_ok k' ins" by (rule timers_ok_frame [OF D(4)]) (simp_all add: k')
    then have "kernel_ok kind c k' ins" by (rule kernel_ok_sync [OF s q r _ D(3)])
    moreover have "r = Inr t' \<longrightarrow> t' = t \<and> t \<in> set (thread_list k') \<and> tstate k' t = SOS_THR_CREATED"
    proof
      assume "r = Inr t'"
      then show "t' = t \<and> t \<in> set (thread_list k') \<and> tstate k' t = SOS_THR_CREATED"
        using c(4) F(1) by (simp add: ts) (simp add: k')
    qed
    ultimately show ?thesis using objects_same_sync [OF o s] cur by blast
  qed
qed

lemma create_end_ok:
  assumes k: "kernel_ok kind c k ins" and o: "objects_ok kind init k ins tk hs st" and n: "ins c = Some (Creating t stack)"
    and t: "t \<in> set (thread_list k)" "tstate k t = SOS_THR_CREATED"
  shows "\<exists>k'. sos_create_kernel_thread_end t stack k = Some (Some t, [], [], k') \<and>
     kernel_ok kind c k' (ins(c := None)) \<and> objects_ok kind init k' (ins(c := None)) tk hs st"
proof -
  note D = kernel_okD [OF k]
  define k' where "k' = set_state t SOS_THR_READY (k\<lparr>ready_list := ready_list k @ [t], nr_threads := nr_threads k + 1\<rparr>)"
  have sr: "sos_sched_set_ready t k = Some (SOS_OK, k')" "queue_wf k'"
    using set_ready_ok [OF D(1), of t] t by (simp_all add: k'_def)
  have ts: "tstate k' u = (if u = t then SOS_THR_READY else tstate k u)" for u
    by (simp add: k'_def set_state_def)
  have c: "c \<noteq> t" using t(2) running_alive [OF D(2)] by auto
  have s: "same_sync k k'" by (simp add: same_sync_def ts) (simp add: k'_def set_state_def)
  have r: "running c k'"
  proof -
    have "current_thread k' = Some c" using D(2) by (simp add: k'_def set_state_def running_def)
    moreover have "tstate k' u = SOS_THR_RUNNING \<longleftrightarrow> u = c" for u
      using D(2) t(2) c unfolding ts by (auto simp: running_def)
    ultimately show ?thesis by (simp add: running_def)
  qed
  have "calls_ok kind k (ins(c := None))" by (rule calls_ok_leave [OF D(3)]) (simp add: n)
  moreover have "ptimer (ins(c := None)) = ptimer ins" using n by (auto simp: fun_eq_iff ptimer_def)
  then have "timers_ok k' (ins(c := None))"
    by (intro timers_ok_frame [OF D(4)]) (simp_all add: k'_def set_state_def)
  ultimately have "kernel_ok kind c k' (ins(c := None))" using kernel_ok_sync [OF s sr(2) r] by blast
  moreover have "granted k' (ins(c := None)) q = granted k ins q" for q
    using granted_leave [of k' k ins c q] s n by (auto simp: same_syncD granted_def)
  then have "objects_ok kind init k' (ins(c := None)) tk hs st"
    by (intro objects_frame [OF o]) (simp_all add: same_syncD [OF s])
  ultimately show ?thesis by (simp add: sos_create_kernel_thread_end_def sr(1))
qed

text \<open>The entries of a wait queue that threads handle themselves.\<close>

lemma entry_ok:
  assumes k: "kernel_ok kind c k ins" and o: "objects_ok kind init k ins tk hs st"
    and e: "\<And>t q tm. ins t \<noteq> Some (Waiting q e tm)"
  shows "(\<And>q. e \<notin> set (waiting_list k q)) \<Longrightarrow> sos_kwaitq_init_entry e k = Some (ret, k') \<Longrightarrow>
      kernel_ok kind c k' ins \<and> objects_ok kind init k' ins tk hs st"
    and "kind q = Raw_queue \<Longrightarrow> entry_owner_alive e k \<Longrightarrow> sos_kwaitq_add_entry q e k = Some (ret, k') \<Longrightarrow>
      kernel_ok kind c k' ins \<and> objects_ok kind init k' ins tk hs st"
    and "kind q = Raw_queue \<Longrightarrow> sos_kwaitq_remove_entry q e k = Some (ret, k') \<Longrightarrow>
      kernel_ok kind c k' ins \<and> objects_ok kind init k' ins tk hs st"
proof -
  note D = kernel_okD [OF k]
  have obj: "objects_ok kind init k' ins tk hs st"
    if "\<And>f. f \<noteq> e \<Longrightarrow> entries k' f = entries k f" "\<And>q. kind q \<noteq> Raw_queue \<Longrightarrow> waiting_list k' q = waiting_list k q"
      "ksema_value k' = ksema_value k" "kmutex_owner k' = kmutex_owner k"
  proof (rule objects_frame [OF o _ that(3,4)])
    fix q
    assume "kind q \<noteq> Raw_queue"
    moreover have "ins t = Some (Waiting q f tm) \<Longrightarrow> entries k' f = entries k f" for t f tm
      using e that(1) by (cases "f = e") simp_all
    then have "granted k' ins q = granted k ins q" unfolding granted_def by (intro Collect_cong) metis
    ultimately show "waiting_list k' q = waiting_list k q \<and> granted k' ins q = granted k ins q"
      using that(2) by blast
  qed
  have ker: "kernel_ok kind c k' ins"
    if "calls_ok kind k' ins" "ready_list k' = ready_list k" "nr_threads k' = nr_threads k" "thread_list k' = thread_list k"
      "\<And>t. tstate k' t = tstate k t" "current_thread k' = current_thread k"
      "timeout_action_list k' = timeout_action_list k" "timeout_actions k' = timeout_actions k"
      "last_tick_time k' = last_tick_time k" "tick_resolution k' = tick_resolution k" "sleepers k' = sleepers k"
    using that(1) queue_wf_cong [OF D(1) that(2-5)] running_cong [OF D(2) that(6,5)]
      timers_ok_frame [OF D(4) that(7-11) refl] by (simp add: kernel_ok_def)
  show "kernel_ok kind c k' ins \<and> objects_ok kind init k' ins tk hs st"
    if out: "\<And>q. e \<notin> set (waiting_list k q)" and s: "sos_kwaitq_init_entry e k = Some (ret, k')"
  proof -
    obtain f where "k' = upd_entry e f k" using s by (auto simp: sos_kwaitq_init_entry_def bind_eq_Some_conv)
    then show ?thesis using calls_ok_upd_entry [OF D(3) out e, of f] obj ker by simp
  qed
  show "kernel_ok kind c k' ins \<and> objects_ok kind init k' ins tk hs st"
    if q: "kind q = Raw_queue" and a: "entry_owner_alive e k" and s: "sos_kwaitq_add_entry q e k = Some (ret, k')"
  proof -
    obtain t where t: "entry_thread (entries k e) = Some t" "\<not> dead (tstate k t)"
      using a by (auto simp: entry_owner_alive_def split: option.splits)
    have n: "entry_kwaitq (entries k e) = None" using s by (simp add: sos_kwaitq_add_entry_def)
    have out: "e \<notin> set (waiting_list k q')" for q' using calls_okD(2) [OF D(3), of e q'] n by auto
    obtain tr stat where "entries k e = \<lparr>entry_thread = Some t, entry_kwaitq = None, wakeup_triggered = tr, wakeup_status = stat\<rparr>"
      using t(1) n by (cases "entries k e") auto
    then have k': "k' = enq q e t k"
      using s by (auto simp: sos_kwaitq_add_entry_def upd_entry_def upd_thread_def enq_def add_tail_def Let_def)
    have "calls_ok kind k' ins" unfolding k' by (rule calls_ok_enq [OF D(3) t(2) out e]) (use q in simp)
    then have "kernel_ok kind c k' ins" by (rule ker) (simp_all add: k')
    moreover have "objects_ok kind init k' ins tk hs st" by (rule obj) (use q in \<open>auto simp: k'\<close>)
    ultimately show ?thesis by blast
  qed
  show "kernel_ok kind c k' ins \<and> objects_ok kind init k' ins tk hs st"
    if q: "kind q = Raw_queue" and s: "sos_kwaitq_remove_entry q e k = Some (ret, k')"
  proof -
    have m: "e \<in> set (waiting_list k q)"
      using s by (auto simp: sos_kwaitq_remove_entry_def list_delete_def bind_eq_Some_conv split: if_splits)
    obtain t where t: "entry_thread (entries k e) = Some t" using calls_okD(2) [OF D(3) m] by blast
    note Q = queued_of [OF D(3) m t]
    have k': "k' = deq q e t k" using leave_queue_eq [OF Q(1) m t Q(4)] s by simp
    have "calls_ok kind k' ins" unfolding k' by (rule calls_ok_deq [OF D(3) m t]) (use e in blast)
    then have "kernel_ok kind c k' ins" by (rule ker) (simp_all add: k')
    moreover have "entries (deq q e t k) f = entries k f" if "f \<noteq> e" for f using that by (simp add: deq_def)
    then have "objects_ok kind init k' ins tk hs st" by (intro obj) (use q in \<open>auto simp: k'\<close>)
    ultimately show ?thesis by blast
  qed
qed

lemma exit_ok:
  assumes k: "kernel_ok kind c k ins" and o: "objects_ok kind init k ins tk hs st" and n: "ins c = None"
    and s: "sos_thread_exit k = Some (fs, fo, k')"
  shows "(\<exists>n. kernel_ok kind n k' ins) \<and> objects_ok kind init k' ins tk hs st"
proof -
  note D = kernel_okD [OF k]
  note cur = current_ok [OF D(2)]
  have cr: "tstate k c = SOS_THR_RUNNING" using D(2) by (simp add: running_def)
  have kw: "kwaitq_list (threads k c) = []"
    using s by (simp add: sos_thread_exit_def cur)
  have irq: "\<not> sos_servicing_irq k" using s by (simp add: sos_thread_exit_def split: if_splits)
  define k1 where "k1 = set_state c SOS_THR_ZOMBIE k"
  have z: "tstate k1 c = SOS_THR_ZOMBIE" by (simp add: k1_def set_state_def)
  have s1: "nr_threads k1 = nr_threads k" "ready_list k1 = ready_list k" by (simp_all add: k1_def set_state_def)
  have s': "do { (n, k) \<leftarrow> sos_reschedule c False k1; stack_check n k; (_, k) \<leftarrow> set_current n k; delete_thread c k }
      = Some (fs, fo, k')"
    using s by (simp add: sos_thread_exit_def irq cur kw k1_def)
  show ?thesis
  proof (cases "ready_list k")
    case Nil
    then have "\<not> nr_threads k > 0" using queue_wf_nr(3) [OF D(1)] by blast
    then show ?thesis using s' z by (simp add: sos_reschedule_def s1)
  next
    case (Cons h l)
    have nr: "nr_threads k > 0" using queue_wf_nr(3) [OF D(1)] Cons by simp
    have h: "tstate k h = SOS_THR_READY" "h \<noteq> c"
      using queue_head [OF D(1) Cons] queue_head_running [OF D(1) Cons D(2)] by simp_all
    define k2 where "k2 = k1\<lparr>ready_list := l, nr_threads := nr_threads k - 1\<rparr>"
    have res: "sos_reschedule c False k1 = Some (h, k2)" using z nr Cons by (simp add: sos_reschedule_def s1 k2_def)
    have h2: "tstate k2 h = SOS_THR_READY" using h by (simp add: k2_def k1_def set_state_def)
    have cin: "c \<in> set (thread_list k)" using D(1) cr by (simp add: queue_wf_def)
    have k': "k' = k\<lparr>threads := (threads k)(h := (threads k h)\<lparr>thr_state := SOS_THR_RUNNING\<rparr>, c := zero_thread),
        current_thread := Some h, ready_list := l, nr_threads := nr_threads k - 1, thread_list := remove1 c (thread_list k)\<rparr>"
    proof -
      obtain u where u: "stack_check h k2 = Some u" using s' res by (cases "stack_check h k2") simp_all
      have "set_current h k2 = Some (SOS_OK, set_state h SOS_THR_RUNNING (k2\<lparr>current_thread := Some h\<rparr>))"
        using h2 by (simp add: set_current_def)
      then show ?thesis using s' res u cin h(2)
        by (simp add: delete_thread_def k2_def k1_def set_state_def) (auto simp: upd_thread_def fun_upd_twist)
    qed
    have ts: "tstate k' u = (if u = c then SOS_THR_CREATED else if u = h then SOS_THR_RUNNING else tstate k u)" for u
      using h(2) by (simp add: k' zero_thread_def)
    have d: "distinct (ready_list k)" "distinct (thread_list k)" using D(1) by (simp_all add: queue_wf_def)
    have hl: "h \<notin> set l" using d(1) Cons by simp
    have rl: "u \<in> set l \<longleftrightarrow> u \<noteq> h \<and> tstate k u = SOS_THR_READY" for u
    proof -
      have "u \<in> set (h # l) \<longleftrightarrow> tstate k u = SOS_THR_READY" using D(1) unfolding queue_wf_def Cons by blast
      then show ?thesis using hl h(1) by auto
    qed
    have q: "queue_wf k'"
    proof -
      have "distinct (ready_list k')" "distinct (thread_list k')" using d Cons by (simp_all add: k')
      moreover have "length (thread_list k') < 2 ^ 32"
      proof -
        have "length (thread_list k') \<le> length (thread_list k)" by (simp add: k' length_remove1)
        moreover have "length (thread_list k) < 2 ^ 32" using D(1) by (simp add: queue_wf_def)
        ultimately show ?thesis by simp
      qed
      moreover have "nr_threads k' = word_of_nat (length (ready_list k'))" using D(1) Cons by (simp add: k' queue_wf_def)
      moreover have "u \<in> set (ready_list k') \<longleftrightarrow> tstate k' u = SOS_THR_READY" for u
      proof -
        have "ready_list k' = l" by (simp add: k')
        then show ?thesis using rl [of u] cr by (simp add: ts)
      qed
      moreover have "u \<in> set (thread_list k')" if "tstate k' u \<noteq> SOS_THR_CREATED" for u
      proof -
        have "u \<noteq> c" "tstate k u \<noteq> SOS_THR_CREATED" using that h(1) by (auto simp: ts split: if_splits)
        then have "u \<in> set (remove1 c (thread_list k))" using D(1) d(2) by (simp add: queue_wf_def)
        then show ?thesis by (simp add: k')
      qed
      ultimately show ?thesis unfolding queue_wf_def by blast
    qed
    have r: "running h k'"
    proof -
      have "tstate k u = SOS_THR_RUNNING \<longleftrightarrow> u = c" for u using D(2) by (simp add: running_def)
      then have "tstate k' u = SOS_THR_RUNNING \<longleftrightarrow> u = h" for u using h(2) by (simp add: ts)
      then show ?thesis by (simp add: running_def k')
    qed
    have wl: "waiting_list k' = waiting_list k" "entries k' = entries k" "ksema_value k' = ksema_value k"
        "kmutex_owner k' = kmutex_owner k" by (simp_all add: k')
    have kl: "kwaitq_list (threads k' u) = kwaitq_list (threads k u)" for u
      using kw by (simp add: k' zero_thread_def)
    have "calls_ok kind k' ins"
      by (rule calls_ok_frame [OF D(3) wl(1,2) kl]) (use n kw ts in \<open>auto split: if_splits\<close>)
    moreover have "timers_ok k' ins" by (rule timers_ok_frame [OF D(4)]) (simp_all add: k')
    ultimately have "kernel_ok kind h k' ins" using q r by (simp add: kernel_ok_def)
    moreover have "objects_ok kind init k' ins tk hs st"
      by (rule objects_frame [OF o _ wl(3,4)]) (simp add: wl granted_cong [OF wl(2)])
    ultimately show ?thesis by blast
  qed
qed

lemma resume_wait_ok:
  assumes k: "kernel_ok kind c k ins" and o: "objects_ok kind init k ins tk hs st" and x: "ins c = Some (Waiting q e tm)"
    and s: "wait_end_of (kind q) q e tm c k = Some (ret, rem, k')"
  shows "kernel_ok kind c k' (ins(c := None)) \<and> objects_ok kind init k' (ins(c := None))
     (if ret = SOS_OK \<and> kind q = Sema then tk(q := tk q + 1) else tk)
     (if ret = SOS_OK \<and> kind q = Mutex then hs(q := insert c (hs q)) else hs) st"
proof -
  from wait_end_ok [OF k x] obtain r rm k1 where w: 
     "sos_kwaitq_wait_end q e (delay tm) (tmo_action tm) (tmo_params tm) c k = Some (r, rm, k1)"
     "kernel_ok kind c k1 (ins(c := None))"
     "r = (if triggered k e then wakeup_status (entries k e) else - SOS_EINTR)"
     "waiting_list k1 = (if triggered k e then waiting_list k else (waiting_list k)(q := remove1 e (waiting_list k q)))"
     "\<And>f. triggered k1 f = triggered k f" "ksema_value k1 = ksema_value k" "kmutex_owner k1 = kmutex_owner k"
    by blast
  note C = calls_okD [OF kernel_okD(3) [OF k]]
  have g: "granted k1 (ins(c := None)) q' = granted k ins q' - {c}" for q' by (rule granted_leave [OF w(5)])
  have cg: "c \<in> granted k ins q' \<longleftrightarrow> q' = q \<and> triggered k e" for q' using x by (auto simp: granted_def)
  have fin: "finite (granted k ins q')" for q' by (rule finite_granted [OF k])
  have ne: "SOS_OK \<noteq> - SOS_EINTR" by (simp add: errno_defs)
  have gq: "card (granted k ins q) = (if triggered k e then Suc (card (granted k1 (ins(c := None)) q))
      else card (granted k1 (ins(c := None)) q))"
  proof (cases "triggered k e")
    case True
    then have "c \<in> granted k ins q" using cg by simp
    from card_Suc_Diff1 [OF fin this] show ?thesis using True by (simp add: g)
  next
    case False
    then have "granted k ins q - {c} = granted k ins q" using cg by simp
    then show ?thesis using False by (simp add: g)
  qed
  have go: "q' \<noteq> q \<Longrightarrow> granted k1 (ins(c := None)) q' = granted k ins q'" for q' unfolding g using cg by auto
  have wl: "\<not> triggered k e \<Longrightarrow> length (waiting_list k q) = Suc (length (waiting_list k1 q))"
    using C(5) [OF x] w(4) by (simp add: length_remove1) (metis Suc_pred length_pos_if_in_set)
  have wo: "q' \<noteq> q \<Longrightarrow> waiting_list k1 q' = waiting_list k q'" for q' using w(4) by simp
  show ?thesis
  proof (cases "kind q")
    case Raw_queue
    then have e: "k' = k1" using s w(1) by (cases tm) (simp add: wait_end_of_def)
    have "objects_ok kind init k1 (ins(c := None)) tk hs st"
      by (rule objects_frame [OF o _ w(6,7)]) (use go wo Raw_queue in metis)
    then show ?thesis using Raw_queue w(2) e by simp
  next
    case Sema
    have ret: "r = (if triggered k e then SOS_OK else - SOS_EINTR)" using w(3) C(6) [OF x] Sema by simp
    have e: "ret = r" "k' = (if triggered k e then k1 else k1\<lparr>ksema_value := (ksema_value k)(q := ksema_value k q + 1)\<rparr>)"
      using s w(1) Sema ret ne by (cases tm; auto simp: wait_end_of_def sos_ksema_down_end_def add_sema_def w(6) Let_def)+
    note I = objects_okD(1) [OF o Sema, unfolded sema_ok_def]
    have "objects_ok kind init k' (ins(c := None)) (if ret = SOS_OK then tk(q := tk q + 1) else tk) hs st"
    proof (rule objects_okI [OF o, where q = q])
      show "sema_ok init k' (ins(c := None)) (if ret = SOS_OK then tk(q := tk q + 1) else tk) q"
        using sema_inv_step(5,6) I ret ne gq wl w(4)
        by (cases "triggered k e") (simp_all add: sema_ok_def e w(6))
    qed (use Sema go wo in \<open>simp_all add: e w(6,7)\<close>)
    then show ?thesis using Sema w(2) e by simp
  next
    case Mutex
    have ret: "r = (if triggered k e then SOS_OK else - SOS_EINTR)" using w(3) C(6) [OF x] Mutex by simp
    note cur = current_ok [OF kernel_okD(2) [OF w(2)]]
    have e: "ret = r" "k' = (if triggered k e then k1\<lparr>kmutex_owner := (kmutex_owner k)(q := Some c)\<rparr> else k1)"
      using s w(1) Mutex ret ne cur by (cases tm; auto simp: wait_end_of_def sos_kmutex_lock_end_def set_owner_def w(7))+
    note I = objects_okD(2) [OF o Mutex, unfolded mutex_ok_def]
    have "objects_ok kind init k' (ins(c := None)) tk (if ret = SOS_OK then hs(q := insert c (hs q)) else hs) st"
    proof (rule objects_okI [OF o, where q = q])
      show "mutex_ok k' (ins(c := None)) (if ret = SOS_OK then hs(q := insert c (hs q)) else hs) st q"
        using mutex_inv_step(2,3) I ret ne gq wl w(4)
        by (cases "triggered k e") (simp_all add: mutex_ok_def e w(7))
    qed (use Mutex go wo in \<open>simp_all add: e w(6,7)\<close>)
    then show ?thesis using Mutex w(2) e by simp
  qed
qed

text \<open>Every step keeps the invariant.\<close>

lemma sys_invI:
  "kernel_ok kind n k ins \<Longrightarrow> objects_ok kind init k ins tk hs st \<Longrightarrow>
   kern C = k \<Longrightarrow> inside C = ins \<Longrightarrow> taken C = tk \<Longrightarrow> holders C = hs \<Longrightarrow> stale C = st \<Longrightarrow> sys_inv kind init C"
  unfolding sys_inv_def by blast

lemmas system_upds = enter_def leave_def upd_taken_def upd_holders_def acquired_def released_def

lemma sys_inv_idle:
  assumes "sys_inv kind init C" and "idle c C"
  shows "kernel_ok kind c (kern C) (inside C)" and "inside C c = None"
    and "objects_ok kind init (kern C) (inside C) (taken C) (holders C) (stale C)"
  using assms by (auto simp: sys_inv_def idle_def kernel_ok_def running_def)

lemma sys_inv_current:
  assumes "sys_inv kind init C" and "current_thread (kern C) = Some c"
  shows "kernel_ok kind c (kern C) (inside C)"
    and "objects_ok kind init (kern C) (inside C) (taken C) (holders C) (stale C)"
  using assms by (auto simp: sys_inv_def kernel_ok_def running_def)

lemma fresh_entryD:
  "fresh_entry e C \<Longrightarrow> inside C t \<noteq> Some (Waiting q e tm)"
  "fresh_entry e C \<Longrightarrow> e \<notin> set (waiting_list (kern C) q)"
  by (auto simp: fresh_entry_def)

lemma public_entryD: "public_entry e C \<Longrightarrow> inside C t \<noteq> Some (Waiting q e tm)"
  by (auto simp: public_entry_def)

text \<open>While a thread creates another one no thread but its creator has the CPU.\<close>

lemma no_creating:
  assumes "creating_ok (kern C) (inside C)" and "current_thread (kern C) = Some c"
    and "\<And>t stack. inside C c \<noteq> Some (Creating t stack)"
  shows "inside C u \<noteq> Some (Creating t stack)"
proof
  assume x: "inside C u = Some (Creating t stack)"
  then have "u = c" using assms(1,2) by (auto simp: creating_ok_def)
  with x assms(3) show False by simp
qed

lemma interruptibleD: "interruptible c C \<Longrightarrow> current_thread (kern C) = Some c"
  by (simp add: interruptible_def)

text \<open>The steps of a thread that is not inside a blocking call.\<close>

lemma step_yield:
  assumes inv: "sys_inv kind init C" and i: "idle c C"
    and s: "sos_thread_yield_begin pc r (kern C) = Some (b, k)"
  shows "sys_inv kind init (if b then enter c Yielding k C else C\<lparr>kern := k\<rparr>)"
proof -
  note I = sys_inv_idle [OF inv i]
  from yield_ok [OF I(1,2) s] show ?thesis
  proof (elim disjE conjE exE)
    fix n
    assume "b = True" "same_sync (kern C) k" "kernel_ok kind n k ((inside C)(c := Some Yielding))"
    moreover have "objects_ok kind init k ((inside C)(c := Some Yielding)) (taken C) (holders C) (stale C)"
    proof (rule objects_frame [OF I(3)])
      show "waiting_list k q = waiting_list (kern C) q \<and>
          granted k ((inside C)(c := Some Yielding)) q = granted (kern C) (inside C) q" for q
        using granted_enter [of "inside C" c Yielding k "kern C" q] I(2) \<open>same_sync (kern C) k\<close>
        by (simp add: same_syncD)
    qed (use \<open>same_sync (kern C) k\<close> in \<open>simp_all add: same_syncD\<close>)
    ultimately show ?thesis by (auto simp: enter_def intro: sys_invI)
  qed (use inv in \<open>simp add: sys_inv_def\<close>)
qed

lemma step_sleep:
  assumes inv: "sys_inv kind init C" and i: "idle c C" and f: "fresh_timer tm C"
    and s: "sos_thread_sleep_begin (delay tm) (tmo_action tm) (tmo_params tm) pc r (kern C) = Some (b, k)"
  shows "sys_inv kind init (enter c (Sleeping tm) k C)"
proof -
  note I = sys_inv_idle [OF inv i]
  from sleep_ok [OF I(1,2) f [unfolded fresh_timer_in] s] obtain n where
    n: "same_sync (kern C) k" "kernel_ok kind n k ((inside C)(c := Some (Sleeping tm)))" by blast
  have "objects_ok kind init k ((inside C)(c := Some (Sleeping tm))) (taken C) (holders C) (stale C)"
  proof (rule objects_frame [OF I(3)])
    show "waiting_list k q = waiting_list (kern C) q \<and>
        granted k ((inside C)(c := Some (Sleeping tm))) q = granted (kern C) (inside C) q" for q
      using granted_enter [of "inside C" c "Sleeping tm" k "kern C" q] I(2) n(1)
      by (simp add: same_syncD)
  qed (use n(1) in \<open>simp_all add: same_syncD\<close>)
  with n show ?thesis by (auto simp: enter_def intro: sys_invI)
qed

lemma step_wait:
  assumes inv: "sys_inv kind init C" and i: "idle c C" and f: "fresh_timer tm C" "fresh_entry e C"
    and q: "kind q = Raw_queue"
    and s: "sos_kwaitq_wait_begin q e (delay tm) (tmo_action tm) (tmo_params tm) pc r (kern C) = Some (b, k)"
  shows "sys_inv kind init (enter c (Waiting q e tm) k C)"
proof -
  note I = sys_inv_idle [OF inv i]
  note W = wait_begin_ok [OF I(1,2) f(1) [unfolded fresh_timer_in] fresh_entryD [OF f(2)] s]
  have "objects_ok kind init k ((inside C)(c := Some (Waiting q e tm))) (taken C) (holders C) (stale C)"
    by (rule objects_frame [OF I(3)]) (use W q in auto)
  with W show ?thesis by (auto simp: enter_def intro: sys_invI)
qed

lemma step_resume:
  assumes inv: "sys_inv kind init C" and c: "current_thread (kern C) = Some c"
    and x: "inside C c = Some (Sleeping tm)"
    and s: "sos_thread_sleep_end (delay tm) (tmo_action tm) (tmo_params tm) c (kern C) = Some (ret, rem, k)"
  shows "sys_inv kind init (leave c k C)"
proof -
  note I = sys_inv_current [OF inv c]
  obtain ret' rem' k' where "sos_thread_sleep_end (delay tm) (tmo_action tm) (tmo_params tm) c (kern C) = Some (ret', rem', k')"
     "timers_ok k' ((inside C)(c := None))" "same_sync (kern C) k'" "queue_wf k'" "running c k'"
    using sleep_end_ok [OF I(1) x, of tm] by auto
  then have k': "timers_ok k ((inside C)(c := None))" "same_sync (kern C) k" "queue_wf k" "running c k"
    using s by simp_all
  have "calls_ok kind (kern C) ((inside C)(c := None))"
    by (rule calls_ok_leave [OF kernel_okD(3) [OF I(1)]]) (simp add: x)
  with k' have "kernel_ok kind c k ((inside C)(c := None))" by (intro kernel_ok_sync)
  moreover have "granted k ((inside C)(c := None)) q = granted (kern C) (inside C) q" for q
    using granted_leave [of k "kern C" "inside C" c q] k'(2) x by (auto simp: same_syncD granted_def)
  then have "objects_ok kind init k ((inside C)(c := None)) (taken C) (holders C) (stale C)"
    by (intro objects_frame [OF I(2)]) (simp_all add: same_syncD [OF k'(2)])
  ultimately show ?thesis by (auto simp: leave_def intro: sys_invI)
qed

lemma step_resume_yield:
  assumes inv: "sys_inv kind init C" and c: "current_thread (kern C) = Some c" and x: "inside C c = Some Yielding"
  shows "sys_inv kind init (leave c (kern C) C)"
proof -
  note I = sys_inv_current [OF inv c]
  note D = kernel_okD [OF I(1)]
  have "calls_ok kind (kern C) ((inside C)(c := None))" by (rule calls_ok_leave [OF D(3)]) (simp add: x)
  moreover have "timers_ok (kern C) ((inside C)(c := None))"
    by (rule timers_ok_frame [OF D(4)]) (auto simp: fun_eq_iff ptimer_def x)
  ultimately have "kernel_ok kind c (kern C) ((inside C)(c := None))" using D(1,2) by (simp add: kernel_ok_def)
  moreover have "granted (kern C) ((inside C)(c := None)) q = granted (kern C) (inside C) q" for q
    using x by (auto simp: granted_def)
  then have "objects_ok kind init (kern C) ((inside C)(c := None)) (taken C) (holders C) (stale C)"
    by (intro objects_frame [OF I(2)]) simp_all
  ultimately show ?thesis by (auto simp: leave_def intro: sys_invI)
qed

lemma step_resume_wait:
  assumes inv: "sys_inv kind init C" and c: "current_thread (kern C) = Some c"
    and x: "inside C c = Some (Waiting q e tm)"
    and s: "wait_end_of (kind q) q e tm c (kern C) = Some (ret, rem, k)"
  shows "sys_inv kind init (acquired (kind q) q c ret (leave c k C))"
proof -
  note I = sys_inv_current [OF inv c]
  from resume_wait_ok [OF I x s] show ?thesis
    by (cases "kind q") (auto simp: system_upds intro: sys_invI split: if_splits)
qed

text \<open>The steps on a semaphore or a mutex that do not block.\<close>

lemma step_sema:
  assumes inv: "sys_inv kind init C" and i: "idle c C" and q: "kind q = Sema"
  shows "sos_ksema_down_begin q e d a p pc r (kern C) = Some (None, k) \<Longrightarrow> sys_inv kind init (upd_taken q 1 (C\<lparr>kern := k\<rparr>))"
    and "sos_ksema_trydown q (kern C) = (ret, k) \<Longrightarrow> sys_inv kind init (acquired Sema q c ret (C\<lparr>kern := k\<rparr>))"
    and "sos_ksema_up q (kern C) = Some (ret, k) \<Longrightarrow> sys_inv kind init (upd_taken q (- 1) (C\<lparr>kern := k\<rparr>))"
proof -
  note I = sys_inv_idle [OF inv i]
  show "sys_inv kind init (upd_taken q 1 (C\<lparr>kern := k\<rparr>))" if "sos_ksema_down_begin q e d a p pc r (kern C) = Some (None, k)"
    using down_now_ok [OF I(1,3) q, of e "Timer d a p" pc r k] that by (auto simp: system_upds intro: sys_invI)
  show "sys_inv kind init (acquired Sema q c ret (C\<lparr>kern := k\<rparr>))" if "sos_ksema_trydown q (kern C) = (ret, k)"
    using trydown_ok [OF I(1,3) q that] by (auto simp: system_upds intro: sys_invI split: if_splits)
  show "sys_inv kind init (upd_taken q (- 1) (C\<lparr>kern := k\<rparr>))" if "sos_ksema_up q (kern C) = Some (ret, k)"
    using up_ok [OF I(1,3,2) q] that by (auto simp: system_upds intro: sys_invI)
qed

lemma step_mutex:
  assumes inv: "sys_inv kind init C" and i: "idle c C" and q: "kind m = Mutex"
  shows "sos_kmutex_lock_begin m e d a p pc r (kern C) = Some (Inl ret, k) \<or> sos_kmutex_trylock m (kern C) = Some (ret, k) \<Longrightarrow>
           sys_inv kind init (acquired Mutex m c ret (C\<lparr>kern := k\<rparr>))"
    and "sos_kmutex_unlock m (kern C) = Some (ret, k) \<Longrightarrow> sys_inv kind init (released m c ret k C)"
proof -
  note I = sys_inv_idle [OF inv i]
  show "sys_inv kind init (acquired Mutex m c ret (C\<lparr>kern := k\<rparr>))"
    if "sos_kmutex_lock_begin m e d a p pc r (kern C) = Some (Inl ret, k) \<or> sos_kmutex_trylock m (kern C) = Some (ret, k)"
    using lock_now_ok [OF I(1,3) q that] by (auto simp: system_upds intro: sys_invI split: if_splits)
  show "sys_inv kind init (released m c ret k C)" if s: "sos_kmutex_unlock m (kern C) = Some (ret, k)"
  proof (cases "kmutex_owner (kern C) m = Some c")
    case True
    with unlock_ok [OF I(1,3,2) q] s have k: "ret = SOS_OK" "kernel_ok kind c k (inside C)"
        "objects_ok kind init k (inside C) (taken C) ((holders C)(m := holders C m - {c}))
          (if c \<in> holders C m then stale C else (stale C)(m := stale C m + 1))" by auto
    show ?thesis
    proof (cases "c \<in> holders C m")
      case False
      then have "(holders C)(m := holders C m - {c}) = holders C" by auto
      with k False True show ?thesis by (auto simp: system_upds intro: sys_invI)
    qed (use k True in \<open>auto simp: system_upds intro: sys_invI\<close>)
  next
    case False
    with unlock_ok [OF I(1,3,2) q] s have "ret = - SOS_EPERM" "k = kern C" by auto
    then show ?thesis using inv by (simp add: released_def errno_defs)
  qed
qed

text \<open>The calls that wait on a semaphore or a mutex.\<close>

lemma step_wait_object:
  assumes inv: "sys_inv kind init C" and i: "idle c C" and f: "fresh_timer (Timer d a p) C" "fresh_entry e C"
  shows "kind q = Sema \<Longrightarrow> sos_ksema_down_begin q e d a p pc r (kern C) = Some (Some b, k) \<Longrightarrow>
           sys_inv kind init (enter c (Waiting q e (Timer d a p)) k C)"
    and "kind q = Mutex \<Longrightarrow> sos_kmutex_lock_begin q e d a p pc r (kern C) = Some (Inr b, k) \<Longrightarrow>
           sys_inv kind init (enter c (Waiting q e (Timer d a p)) k C)"
proof -
  note I = sys_inv_idle [OF inv i]
  note F = f(1) [unfolded fresh_timer_in] fresh_entryD [OF f(2)]
  show "sys_inv kind init (enter c (Waiting q e (Timer d a p)) k C)"
    if "kind q = Sema" "sos_ksema_down_begin q e d a p pc r (kern C) = Some (Some b, k)"
    using down_wait_ok [OF I(1,3,2) that(1) F, of pc r b k] that(2) by (auto simp: enter_def intro: sys_invI)
  show "sys_inv kind init (enter c (Waiting q e (Timer d a p)) k C)"
    if "kind q = Mutex" "sos_kmutex_lock_begin q e d a p pc r (kern C) = Some (Inr b, k)"
    using lock_wait_ok [OF I(1,3,2) that(1) F, of pc r b k] that(2) by (auto simp: enter_def intro: sys_invI)
qed

text \<open>The steps that only change the kernel state.\<close>

lemma step_kernel:
  assumes inv: "sys_inv kind init C" and i: "idle c C"
  shows "kind q = Raw_queue \<Longrightarrow> sos_kwaitq_wakeup q n status (kern C) = Some (ret, k) \<Longrightarrow> sys_inv kind init (C\<lparr>kern := k\<rparr>)"
    and "tstate (kern C) t \<noteq> SOS_THR_CREATED \<Longrightarrow> sos_thread_force_unblock (Some t) (kern C) = Some (ret, k) \<Longrightarrow>
           sys_inv kind init (C\<lparr>kern := k\<rparr>)"
    and "t \<notin> set (thread_list (kern C)) \<Longrightarrow> inside C t = None \<Longrightarrow>
           sos_create_kernel_thread_begin core ext nm fn arg (Some t) stack (kern C) = (Inl freed, k) \<Longrightarrow>
           sys_inv kind init (C\<lparr>kern := k\<rparr>)"
    and "sos_thread_exit (kern C) = Some (fs, fo, k) \<Longrightarrow> sys_inv kind init (C\<lparr>kern := k\<rparr>)"
    and "fresh_entry e C \<Longrightarrow> sos_kwaitq_init_entry e (kern C) = Some (ret, k) \<Longrightarrow> sys_inv kind init (C\<lparr>kern := k\<rparr>)"
    and "kind q = Raw_queue \<Longrightarrow> public_entry e C \<Longrightarrow> entry_owner_alive e (kern C) \<Longrightarrow>
           sos_kwaitq_add_entry q e (kern C) = Some (ret, k) \<Longrightarrow> sys_inv kind init (C\<lparr>kern := k\<rparr>)"
    and "kind q = Raw_queue \<Longrightarrow> public_entry e C \<Longrightarrow>
           sos_kwaitq_remove_entry q e (kern C) = Some (ret, k) \<Longrightarrow> sys_inv kind init (C\<lparr>kern := k\<rparr>)"
proof -
  note I = sys_inv_idle [OF inv i]
  show "sys_inv kind init (C\<lparr>kern := k\<rparr>)" if "kind q = Raw_queue" "sos_kwaitq_wakeup q n status (kern C) = Some (ret, k)"
    using raw_wakeup_ok [OF I(1,3) that] by (auto intro: sys_invI)
  show "sys_inv kind init (C\<lparr>kern := k\<rparr>)"
    if "tstate (kern C) t \<noteq> SOS_THR_CREATED" "sos_thread_force_unblock (Some t) (kern C) = Some (ret, k)"
    using force_ok [OF I(1,3) that] by (auto intro: sys_invI)
  show "sys_inv kind init (C\<lparr>kern := k\<rparr>)"
    if t: "t \<notin> set (thread_list (kern C))" "inside C t = None"
      "sos_create_kernel_thread_begin core ext nm fn arg (Some t) stack (kern C) = (Inl freed, k)"
    using create_begin_ok [OF I(1,3) t(2,1) _ t(3)] by (auto intro: sys_invI)
  show "sys_inv kind init (C\<lparr>kern := k\<rparr>)" if "sos_thread_exit (kern C) = Some (fs, fo, k)"
    using exit_ok [OF I(1,3,2) that] by (auto intro: sys_invI)
  show "sys_inv kind init (C\<lparr>kern := k\<rparr>)" if "fresh_entry e C" "sos_kwaitq_init_entry e (kern C) = Some (ret, k)"
    using entry_ok(1) [OF I(1,3) fresh_entryD(1) [OF that(1)] fresh_entryD(2) [OF that(1)] that(2)] by (auto intro: sys_invI)
  show "sys_inv kind init (C\<lparr>kern := k\<rparr>)"
    if e: "kind q = Raw_queue" "public_entry e C" "entry_owner_alive e (kern C)" "sos_kwaitq_add_entry q e (kern C) = Some (ret, k)"
    using entry_ok(2) [OF I(1,3) public_entryD [OF e(2)] e(1,3,4)] by (auto intro: sys_invI)
  show "sys_inv kind init (C\<lparr>kern := k\<rparr>)"
    if e: "kind q = Raw_queue" "public_entry e C" "sos_kwaitq_remove_entry q e (kern C) = Some (ret, k)"
    using entry_ok(3) [OF I(1,3) public_entryD [OF e(2)] e(1,3)] by (auto intro: sys_invI)
qed

text \<open>The creation of a thread, and a tick, which can come in the middle of it.\<close>

lemma step_create:
  assumes inv: "sys_inv kind init C" and i: "idle c C" and t: "t \<notin> set (thread_list (kern C))" "inside C t = None"
    and len: "length (thread_list (kern C)) < 2 ^ 32 - 1"
    and s: "sos_create_kernel_thread_begin core ext nm fn arg (Some t) stack (kern C) = (Inr t', k)"
  shows "sys_inv kind init (enter c (Creating t stack) k C)"
    and "creating_ok (kern C) (inside C) \<Longrightarrow>
      creating_ok (kern (enter c (Creating t stack) k C)) (inside (enter c (Creating t stack) k C))"
proof -
  note I = sys_inv_idle [OF inv i]
  have k: "kernel_ok kind c k (inside C)" "objects_ok kind init k (inside C) (taken C) (holders C) (stale C)"
      "current_thread k = Some c" "t \<in> set (thread_list k)" "tstate k t = SOS_THR_CREATED"
    using create_begin_ok [where t' = t', OF I(1,3) t(2,1) _ s] len i by (simp_all add: idle_def)
  note D = kernel_okD [OF k(1)]
  have "calls_ok kind k ((inside C)(c := Some (Creating t stack)))" by (rule calls_ok_enter [OF D(3,2) I(2)]) simp
  moreover have "ptimer ((inside C)(c := Some (Creating t stack))) = ptimer (inside C)"
    using I(2) by (auto simp: fun_eq_iff ptimer_def)
  then have "timers_ok k ((inside C)(c := Some (Creating t stack)))" by (intro timers_ok_frame [OF D(4)]) simp_all
  ultimately have "kernel_ok kind c k ((inside C)(c := Some (Creating t stack)))" using D(1,2) by (simp add: kernel_ok_def)
  moreover have "granted k ((inside C)(c := Some (Creating t stack))) q = granted k (inside C) q" for q
    using granted_enter [of "inside C" c "Creating t stack" k k q] I(2) by simp
  then have "objects_ok kind init k ((inside C)(c := Some (Creating t stack))) (taken C) (holders C) (stale C)"
    by (intro objects_frame [OF k(2)]) simp_all
  ultimately show "sys_inv kind init (enter c (Creating t stack) k C)" by (auto simp: enter_def intro: sys_invI)
  assume cr: "creating_ok (kern C) (inside C)"
  have "inside C u \<noteq> Some (Creating t' stack')" for u t' stack'
    by (rule no_creating [OF cr]) (use i I(2) in \<open>auto simp: idle_def\<close>)
  with k(3-5) show "creating_ok (kern (enter c (Creating t stack) k C)) (inside (enter c (Creating t stack) k C))"
    by (simp add: creating_ok_def enter_def)
qed

lemma step_resume_create:
  assumes inv: "sys_inv kind init C" and cr: "creating_ok (kern C) (inside C)"
    and c: "current_thread (kern C) = Some c" and x: "inside C c = Some (Creating t stack)"
    and s: "sos_create_kernel_thread_end t stack (kern C) = Some (t', fs, fo, k)"
  shows "sys_inv kind init (leave c k C)"
proof -
  note I = sys_inv_current [OF inv c]
  have t: "t \<in> set (thread_list (kern C))" "tstate (kern C) t = SOS_THR_CREATED" using cr x by (auto simp: creating_ok_def)
  from create_end_ok [OF I x t] s show ?thesis by (auto simp: leave_def intro: sys_invI)
qed

lemma step_tick:
  assumes inv: "sys_inv kind init C" and i: "interruptible c C"
    and t: "time_ns (last_tick_time (kern C)) + time_ns (tick_resolution (kern C)) < 2 ^ 32 * 10 ^ 9"
    and s: "sos_time_do_tick call_routine (kern C) = Some (ret, k)"
  shows "sys_inv kind init (C\<lparr>kern := k\<rparr>)"
    and "creating_ok (kern C) (inside C) \<Longrightarrow> creating_ok k (inside C)"
proof -
  note c = interruptibleD [OF i]
  note I = sys_inv_current [OF inv c]
  have k: "kernel_ok kind c k (inside C)" "same_sync (kern C) k" "keeps_created (kern C) k"
    using tick_ok [OF I(1) t] s by auto
  show "sys_inv kind init (C\<lparr>kern := k\<rparr>)" using k objects_same_sync [OF I(2) k(2)] by (auto intro: sys_invI)
  have "current_thread k = Some c" using kernel_okD(2) [OF k(1)] by (simp add: running_def)
  then show "creating_ok (kern C) (inside C) \<Longrightarrow> creating_ok k (inside C)"
    using k(3) c by (simp add: creating_ok_def keeps_created_def)
qed

lemma sys_step_inv:
  assumes "sys_step kind C D" and "sys_inv kind init C" and "creating_ok (kern C) (inside C)"
  shows "sys_inv kind init D"
  using assms
proof (induction rule: sys_step.induct)
  case (yield_switch c C pc r k)
  from step_yield [OF yield_switch(3,1,2)] show ?case by simp
next
  case (yield_alone c C pc r k)
  from step_yield [OF yield_alone(3,1,2)] show ?case by simp
next
  case (sleep c C d a p pc r k)
  from step_sleep [OF sleep(4,1,2)] sleep(3) show ?case by simp
next
  case (wait c C q d a p e pc r k)
  from step_wait [OF wait(6,1,3,4,2)] wait(5) show ?case by simp
next
  case (create c C t core ext nm f arg stack k)
  from step_create(1) [OF create(6,1-5)] show ?case .
next
  case (resume_sleep C c d a p ret rem k)
  from step_resume [OF resume_sleep(4,1,2)] resume_sleep(3) show ?case by simp
qed (blast intro: step_kernel step_sema step_mutex step_wait_object step_resume_wait step_resume_yield
    step_resume_create step_tick(1))+

text \<open>A step other than the creation of a thread or a tick leaves no thread in a creation.\<close>

lemma sys_step_creating:
  assumes "sys_step kind C D" and "sys_inv kind init C" and cr: "creating_ok (kern C) (inside C)"
  shows "creating_ok (kern D) (inside D)"
proof -
  have none: "creating_ok (kern D) (inside D)"
    if c: "current_thread (kern C) = Some c" "\<And>t stack. inside D c \<noteq> Some (Creating t stack)"
      "\<And>u. u \<noteq> c \<Longrightarrow> inside D u = inside C u" for c
  proof -
    have "inside D u \<noteq> Some (Creating t stack)" for u t stack
    proof (cases "u = c")
      case False
      then have "inside C u = Some (Creating t stack) \<Longrightarrow> u = c" using cr c(1) by (auto simp: creating_ok_def)
      with False c(3) show ?thesis by auto
    qed (use c(2) in simp)
    then show ?thesis by (simp add: creating_ok_def)
  qed
  have idle: "idle c C \<Longrightarrow> (\<And>t stack. inside D c \<noteq> Some (Creating t stack)) \<Longrightarrow>
      (\<And>u. u \<noteq> c \<Longrightarrow> inside D u = inside C u) \<Longrightarrow> creating_ok (kern D) (inside D)" for c
    by (rule none) (simp_all add: idle_def)
  have keep: "idle c C \<Longrightarrow> inside D = inside C \<Longrightarrow> creating_ok (kern D) (inside D)" for c
    by (rule idle [of c]) (simp_all add: idle_def)
  from assms(1,2) show ?thesis
  proof cases
    case (create c t core ext nm f arg stack k)
    from step_create(2) [OF assms(2) create(2-6) cr] show ?thesis unfolding create(1) .
  next
    case (tick c ret k)
    from step_tick(2) [OF assms(2) tick(2-4) cr] show ?thesis unfolding tick(1) by simp
  next
    case (resume_wait c q e tm ret rem k)
    show ?thesis
      by (rule none [OF resume_wait(2)]) (auto simp: resume_wait(1) system_upds split: object_kind.splits)
  qed ((erule keep, simp add: system_upds split: object_kind.split; fail) |
       (erule idle none; simp add: system_upds; fail))+
qed

lemma sys_reach_inv:
  "sys_reach kind C D \<Longrightarrow> sys_inv kind init C \<Longrightarrow> creating_ok (kern C) (inside C) \<Longrightarrow>
   sys_inv kind init D \<and> creating_ok (kern D) (inside D)"
  by (induction rule: sys_reach.induct) (auto intro: sys_step_inv sys_step_creating)

section \<open>Properties of the reachable states\<close>

text \<open>A system that starts: one thread runs, no call is in progress, every object is fresh.\<close>

definition initial_system :: "(nat \<Rightarrow> object_kind) \<Rightarrow> (nat \<Rightarrow> int) \<Rightarrow> system \<Rightarrow> bool" where
  "initial_system kind init C \<longleftrightarrow> queue_wf (kern C) \<and> (\<exists>c. running c (kern C)) \<and> tm_wf (kern C) \<and>
     timeout_action_list (kern C) = [] \<and> (\<forall>t. inside C t = None \<and> kwaitq_list (threads (kern C) t) = []) \<and>
     (\<forall>q. waiting_list (kern C) q = []) \<and>
     (\<forall>q. kind q = Sema \<longrightarrow> init q \<ge> 0 \<and> ksema_value (kern C) q = init q \<and> taken C q = 0) \<and>
     (\<forall>m. kind m = Mutex \<longrightarrow> kmutex_owner (kern C) m = None \<and> holders C m = {} \<and> stale C m = 0)"

lemma initial_inv: "initial_system kind init C \<Longrightarrow> sys_inv kind init C"
proof -
  assume i: "initial_system kind init C"
  then obtain c where c: "queue_wf (kern C)" "running c (kern C)" by (auto simp: initial_system_def)
  have n: "inside C t = None" for t using i by (simp add: initial_system_def)
  have "calls_ok kind (kern C) (inside C)" using i by (simp add: initial_system_def calls_ok_def)
  moreover have "timers_ok (kern C) (inside C)" using i n by (simp add: initial_system_def timers_ok_def ptimer_def)
  moreover have "granted (kern C) (inside C) q = {}" for q using n by (simp add: granted_def)
  then have "objects_ok kind init (kern C) (inside C) (taken C) (holders C) (stale C)"
    using i by (simp add: objects_ok_def sema_ok_def mutex_ok_def sema_inv_def mutex_inv_def initial_system_def)
  ultimately show ?thesis using c by (auto simp: sys_inv_def kernel_ok_def)
qed

lemma reach_inv: "initial_system kind init C \<Longrightarrow> sys_reach kind C D \<Longrightarrow> sys_inv kind init D"
  using sys_reach_inv [OF _ initial_inv] by (auto simp: creating_ok_def initial_system_def)

text \<open>A small system: threads 11 (running), 12 and 13 (ready), a semaphore 10 of value 1, a mutex 20, a queue 30.\<close>

definition example_thread :: "sos_thread_state \<Rightarrow> sos_thread" where
  "example_thread st = \<lparr>thr_name = ''t'', thr_state = st, thr_cpu_state = 0x1f00,
     kernel_stack_base_addr = 0x1000, kernel_stack_size = 0x1000, kwaitq_list = []\<rparr>"

definition example_kernel :: kernel where
  "example_kernel = \<lparr>timeout_action_list = [],
     timeout_actions = (\<lambda>_. \<lparr>routine = None, routine_data = 0, timeout = \<lparr>sec = 0, nanosec = 0\<rparr>\<rparr>),
     tick_resolution = \<lparr>sec = 0, nanosec = 10000000\<rparr>, last_tick_time = \<lparr>sec = 0, nanosec = 0\<rparr>,
     threads = (\<lambda>t. example_thread (if t = 11 then SOS_THR_RUNNING else if t = 12 \<or> t = 13 then SOS_THR_READY else SOS_THR_CREATED)),
     current_thread = Some 11, thread_list = [11, 12, 13], ready_list = [12, 13], nr_threads = 2,
     waiting_list = (\<lambda>_. []), entries = (\<lambda>_. \<lparr>entry_thread = None, entry_kwaitq = None, wakeup_triggered = False, wakeup_status = 0\<rparr>),
     sleepers = (\<lambda>_. \<lparr>thread_to_wakeup = None, timeout_triggered = False\<rparr>), ksema_value = (\<lambda>_. 1),
     kmutex_owner = (\<lambda>_. None), kmem = (\<lambda>_. 0xa5), irq_nested_level = 0\<rparr>"

definition example_system :: system where
  "example_system = \<lparr>kern = example_kernel, inside = (\<lambda>_. None), holders = (\<lambda>_. {}), taken = (\<lambda>_. 0), stale = (\<lambda>_. 0)\<rparr>"

definition example_kind :: "nat \<Rightarrow> object_kind" where
  "example_kind q = (if q = 10 then Sema else if q = 20 then Mutex else Raw_queue)"

lemma example_threads: "threads example_kernel =
    (\<lambda>t. example_thread (if t = 11 then SOS_THR_RUNNING else if t = 12 \<or> t = 13 then SOS_THR_READY else SOS_THR_CREATED))"
  "kmem example_kernel = (\<lambda>_. 0xa5)"
  by (simp_all add: example_kernel_def)

lemma example_queue: "queue_wf example_kernel" "running 11 example_kernel"
  by (auto simp: example_kernel_def example_thread_def queue_wf_def running_def)

lemma example_initial: "initial_system example_kind (\<lambda>_. 1) example_system"
proof -
  have "tm_wf example_kernel" by (simp add: example_kernel_def tm_wf_def time_wf_def NS_IN_SEC_def)
  with example_queue show ?thesis
    by (auto simp: initial_system_def example_system_def) (simp_all add: example_kernel_def example_thread_def)
qed

lemma example_idle: "idle 11 example_system"
  by (simp add: idle_def example_system_def example_kernel_def)


lemma example_down_step:
  "\<exists>k. sys_reach example_kind example_system (upd_taken 10 1 (example_system\<lparr>kern := k\<rparr>)) \<and>
     ksema_value k 10 = 0"
proof -
  let ?k = "add_sema 10 (- 1) example_kernel"
  have "sos_ksema_down_begin 10 e d a p pc r (kern example_system) = Some (None, ?k)" for e d a p pc r
    by (simp add: sos_ksema_down_begin_def example_system_def example_kernel_def add_sema_def)
  from sys_step.down_now [OF example_idle _ this] have
    "sys_step example_kind example_system (upd_taken 10 1 (example_system\<lparr>kern := ?k\<rparr>))"
    by (simp add: example_kind_def)
  then show ?thesis
    by (intro exI [of _ ?k]) (auto intro: sys_reach.intros simp: add_sema_def example_kernel_def)
qed


text \<open>
  C1: Mutual exclusion. Whatever calls the threads make and however they interleave, with timeouts,
  forced unblockings, ticks, and unlocks by threads that do not hold the mutex, the threads that
  hold a mutex and those just woken to hold it are at most one when it has an owner and none when
  it has none, plus one for each stale unlock (one accepted from a thread that gave the mutex up
  and is still its recorded owner). As long as no stale unlock happened there is therefore at most
  one holder, and it is the recorded owner.
\<close>

theorem mutex_exclusion:
  assumes "initial_system kind init C" and "sys_reach kind C D" and "kind m = Mutex"
  shows "finite (holders D m) \<and>
     card (holders D m) + card (granted (kern D) (inside D) m) \<le>
       (if kmutex_owner (kern D) m = None then 0 else 1) + stale D m \<and>
     (stale D m = 0 \<longrightarrow> (\<forall>h \<in> holders D m. \<forall>h' \<in> holders D m. h' = h \<and> kmutex_owner (kern D) m = Some h))"
proof -
  have i: "mutex_inv (kmutex_owner (kern D) m) (holders D m) (card (granted (kern D) (inside D) m))
      (length (waiting_list (kern D) m)) (stale D m)"
    using reach_inv [OF assms(1,2)] assms(3) by (auto simp: sys_inv_def objects_ok_def mutex_ok_def)
  have "h' = h \<and> kmutex_owner (kern D) m = Some h"
    if h: "stale D m = 0" "h \<in> holders D m" "h' \<in> holders D m" for h h'
  proof -
    have "\<forall>x \<in> holders D m. kmutex_owner (kern D) m = Some x" using i h(1) by (simp add: mutex_inv_def)
    with h show ?thesis by (metis option.inject)
  qed
  with i show ?thesis unfolding mutex_inv_def by blast
qed

theorem mutex_exclusion_witness:
  "\<exists>D. sys_reach example_kind example_system D \<and> 11 \<in> holders D 20 \<and> kmutex_owner (kern D) 20 = Some 11"
proof -
  let ?k = "set_owner 20 (Some 11) example_kernel"
  let ?D = "acquired Mutex 20 11 SOS_OK (example_system\<lparr>kern := ?k\<rparr>)"
  have "sos_kmutex_trylock 20 (kern example_system) = Some (SOS_OK, ?k)"
    using current_ok [OF example_queue(2)]
    by (simp add: sos_kmutex_trylock_def example_system_def) (simp add: example_kernel_def)
  from sys_step.trylock [OF example_idle _ this] have "sys_step example_kind example_system ?D"
    by (simp add: example_kind_def)
  then have r: "sys_reach example_kind example_system ?D" by (auto intro: sys_reach.intros)
  have h: "11 \<in> holders ?D 20" by (simp add: acquired_def upd_holders_def)
  have m: "example_kind 20 = Mutex" by (simp add: example_kind_def)
  have "stale ?D 20 = 0" by (simp add: acquired_def upd_holders_def example_system_def)
  then show ?thesis using mutex_exclusion [OF example_initial r m] r h by blast
qed

text \<open>
  C2: Semaphores. A negative value is the number of threads in the queue, and the downs completed
  or granted never exceed the ups by more than the initial value: the threads in a region guarded
  by a semaphore are at most as many as its initial value.
\<close>

theorem semaphore_count:
  assumes "initial_system kind init C" and "sys_reach kind C D" and "kind q = Sema"
  shows "int (length (waiting_list (kern D) q)) = max 0 (- ksema_value (kern D) q) \<and>
     taken D q + int (card (granted (kern D) (inside D) q)) = init q - max 0 (ksema_value (kern D) q)"
proof -
  have "sema_inv (ksema_value (kern D) q) (init q) (taken D q) (card (granted (kern D) (inside D) q))
      (length (waiting_list (kern D) q))"
    using reach_inv [OF assms(1,2)] assms(3) by (auto simp: sys_inv_def objects_ok_def sema_ok_def)
  then show ?thesis unfolding sema_inv_def by arith
qed

theorem semaphore_count_witness:
  "\<exists>D. sys_reach example_kind example_system D \<and> ksema_value (kern D) 10 = 0 \<and> waiting_list (kern D) 10 = []"
proof -
  obtain k where k: "sys_reach example_kind example_system (upd_taken 10 1 (example_system\<lparr>kern := k\<rparr>))"
      "ksema_value k 10 = 0" using example_down_step by blast
  have "example_kind 10 = Sema" by (simp add: example_kind_def)
  from semaphore_count [OF example_initial k(1) this] k show ?thesis
    by (auto simp: upd_taken_def)
qed

text \<open>
  C26: Waking threads. In every reachable state, with entries added by calls in progress or by the
  threads themselves (the queue inside a semaphore or a mutex is woken with SOS_OK, as its routines
  do): a wake-up never returns when one of the entries it has to take belongs to the
  thread that calls it; otherwise it returns, takes the first entries of the queue in their order
  of arrival, as many as asked for, gives each the status, and puts the threads that are blocked at
  the end of the ready queue, each once, in that order.
\<close>

theorem wakeup_fifo:
  assumes "initial_system kind init C" and "sys_reach kind C D" and "idle c D"
    and "kind q = Raw_queue \<or> status = SOS_OK"
  shows "if \<exists>e \<in> set (take (unat n) (waiting_list (kern D) q)). entry_thread (entries (kern D) e) = Some c
     then sos_kwaitq_wakeup q n status (kern D) = None
     else \<exists>k'. sos_kwaitq_wakeup q n status (kern D) = Some (SOS_OK, k') \<and>
       waiting_list k' q = drop (unat n) (waiting_list (kern D) q) \<and>
       (\<forall>e \<in> set (take (unat n) (waiting_list (kern D) q)). wakeup_triggered (entries k' e) \<and> wakeup_status (entries k' e) = status) \<and>
       ready_list k' = ready_list (kern D) @ firsts (filter (\<lambda>t. tstate (kern D) t = SOS_THR_BLOCKED)
         (map (owner_of (kern D)) (take (unat n) (waiting_list (kern D) q))))"
proof -
  note I = sys_inv_idle [OF reach_inv [OF assms(1,2)] assms(3)]
  have st: "kind q \<noteq> Raw_queue \<Longrightarrow> status = SOS_OK" using assms(4) by blast
  show ?thesis
  proof (cases "\<exists>e \<in> set (take (unat n) (waiting_list (kern D) q)). entry_thread (entries (kern D) e) = Some c")
    case True
    then show ?thesis using wakeup_own_entry [OF I(1) st True] by (simp add: sos_kwaitq_wakeup_def)
  next
    case False
    then have own: "\<forall>e \<in> set (take (unat n) (waiting_list (kern D) q)). entry_thread (entries (kern D) e) \<noteq> Some c" by blast
    show ?thesis unfolding if_not_P [OF False]
      using wakeup_loop_ok [OF I(1) st own] by (auto simp: sos_kwaitq_wakeup_def readied_by_def)
  qed
qed

text \<open>
  C27: A wake-up never returns when the thread of the first entry is running: the loop goes round
  without a change, with the interrupts disabled.
\<close>

theorem wakeup_running_head:
  assumes "waiting_list k q = e # es" and "entry_thread (entries k e) = Some t"
    and "tstate k t = SOS_THR_RUNNING" and "nb \<noteq> 0"
  shows "sos_kwaitq_wakeup q nb status k = None"
proof (cases "wakeup_loop q nb status k")
  case (Some k')
  from wakeup_loop_stuck [OF this] assms show ?thesis by blast
qed (simp add: sos_kwaitq_wakeup_def)

theorem wakeup_running_head_witness: "sos_kwaitq_wakeup 30 1 SOS_OK (enq 30 7 11 example_kernel) = None"
proof (rule wakeup_running_head)
  show "waiting_list (enq 30 7 11 example_kernel) 30 = [7]" by (simp add: example_kernel_def)
  show "entry_thread (entries (enq 30 7 11 example_kernel) 7) = Some 11" by simp
  show "tstate (enq 30 7 11 example_kernel) 11 = SOS_THR_RUNNING" by (simp add: example_kernel_def example_thread_def)
qed simp

text \<open>
  Round robin. A thread that yields goes to the end of the ready queue and the CPU to the
  thread at its head, unless the ready queue is empty and the thread goes on.
\<close>

theorem yield_round_robin:
  assumes "queue_wf k" and "running c k" and "\<not> sos_servicing_irq k"
    and "\<And>n l. ready_list k = n # l \<Longrightarrow> stack_check n k = Some ()"
  shows "\<exists>k'. sos_thread_yield_begin pc r k = Some (ready_list k \<noteq> [], k') \<and>
     (case ready_list k of [] \<Rightarrow> k' = k
      | n # l \<Rightarrow> ready_list k' = l @ [c] \<and> current_thread k' = Some n \<and> tstate k' n = SOS_THR_RUNNING \<and>
          tstate k' c = SOS_THR_READY \<and> thr_cpu_state (threads k' c) = r_esp r - 56)"
proof (cases "ready_list k")
  case Nil
  then show ?thesis using switch_yield(1) [OF assms(1-3) Nil] by (simp add: sos_thread_yield_begin_def)
next
  case (Cons n l)
  have "c \<noteq> n" using queue_head_running [OF assms(1) Cons assms(2)] by blast
  then show ?thesis
    using switch_yield(2) [OF assms(1-3) Cons] assms(4) [OF Cons] Cons
    by (simp add: sos_thread_yield_begin_def tstate_switched) (simp add: switched_def)
qed

theorem yield_round_robin_witness:
  "\<forall>pc r. \<exists>k'. sos_thread_yield_begin pc r (example_kernel\<lparr>ready_list := [], nr_threads := 0,
      threads := (\<lambda>t. example_thread (if t = 11 then SOS_THR_RUNNING else SOS_THR_CREATED))\<rparr>) = Some (False, k')"
proof (intro allI)
  fix pc r
  let ?k = "example_kernel\<lparr>ready_list := [], nr_threads := 0,
      threads := (\<lambda>t. example_thread (if t = 11 then SOS_THR_RUNNING else SOS_THR_CREATED))\<rparr>"
  have "queue_wf ?k" "running 11 ?k" "\<not> sos_servicing_irq ?k"
    by (auto simp: example_kernel_def example_thread_def queue_wf_def running_def sos_servicing_irq_def)
  from yield_round_robin [OF this, of pc r] show "\<exists>k'. sos_thread_yield_begin pc r ?k = Some (False, k')" by simp
qed

text \<open>
  Coming back from a sleep. In every reachable state a thread that gets the CPU back inside a
  sleep returns, with SOS_OK and a zero remaining time when its timer fired, with -SOS_EINTR
  otherwise; its timeout action is then no longer registered.
\<close>

theorem sleep_result:
  assumes "initial_system kind init C" and "sys_reach kind C D"
    and "current_thread (kern D) = Some c" and "inside D c = Some (Sleeping (Timer (Some d) a p))"
  shows "\<exists>ret rem k'. sos_thread_sleep_end (Some d) a p c (kern D) = Some (ret, Some rem, k') \<and>
     a \<notin> set (timeout_action_list k') \<and>
     (if timeout_triggered (sleepers (kern D) p) then ret = SOS_OK \<and> sos_time_is_zero rem else ret = - SOS_EINTR)"
proof -
  note I = sys_inv_current [OF reach_inv [OF assms(1,2)] assms(3)]
  note D = kernel_okD [OF I(1)]
  note T = timers_okD [OF D(4)]
  have pt: "ptimer (inside D) c = Some (a, p)" by (simp add: ptimer_def assms(4) timer_ptr_def)
  have sw: "switch_end c (kern D) = Some SOS_OK" using D(2) by (simp add: switch_end_def running_def)
  show ?thesis
  proof (cases "timeout_triggered (sleepers (kern D) p)")
    case True
    then show ?thesis using T(4) [OF pt True] sw by (simp add: sos_thread_sleep_end_def)
  next
    case False
    note a = conjunct1 [OF T(5) [OF pt False]]
    have "distinct (timeout_action_list (kern D))" using T(1) by (simp add: tm_wf_def)
    with remove_action_ok [OF T(1) a] show ?thesis
      using False sw by (auto simp: sos_thread_sleep_end_def sos_time_unregister_action_def)
  qed
qed

text \<open>Thread 11 of the example sleeps one second, thread 12 unblocks it and yields.\<close>

definition example_regs :: cpu_regs where
  "example_regs = \<lparr>r_gs = 0, r_fs = 0, r_es = 0, r_ds = 0, r_ss = 0, r_eax = 0, r_ebx = 0, r_ecx = 0, r_edx = 0,
     r_esi = 0, r_edi = 0, r_ebp = 0, r_eip = 0, r_cs = 0, r_eflags = 0, r_esp = 0x2000\<rparr>"

definition example_timer :: timer where
  "example_timer = Timer (Some \<lparr>sec = 1, nanosec = 0\<rparr>) 5 6"

definition stacks_ok :: "kernel \<Rightarrow> bool" where
  "stacks_ok k \<longleftrightarrow> irq_nested_level k = 0 \<and> (\<forall>i < 64. kmem k (0x1000 + word_of_nat i) = 0xa5) \<and>
     (\<forall>t. kernel_stack_base_addr (threads k t) = 0x1000 \<and> kernel_stack_size (threads k t) = 0x1000 \<and>
        0x1000 \<le> thr_cpu_state (threads k t) \<and> thr_cpu_state (threads k t) + 56 \<le> 0x2000)"

lemma stacks_ok_check: "stacks_ok k \<Longrightarrow> stack_check t k = Some ()"
  by (simp add: stacks_ok_def stack_check_def sos_cpu_state_detect_kernel_stack_overflow_def
      poison_intact_iff SOS_CPU_STATE_STACK_POISON_def SOS_CPU_STATE_DETECT_KERNEL_STACK_OVERFLOW_def
      sizeof_cpu_kstate_def)

lemma example_saved: "i < 64 \<Longrightarrow> snd (save_context pc example_regs m) (0x1000 + word_of_nat i) = m (0x1000 + word_of_nat i)"
proof (rule save_restore(3))
  assume i: "i < 64"
  have u: "unat (word_of_nat i :: u32) = i" by (rule unat_of_nat_small) (use i in simp)
  have "(0x1000 + word_of_nat i :: u32) - (r_esp example_regs - 56) = word_of_nat i - 0xfc8"
    by (simp add: example_regs_def)
  moreover have "\<not> word_of_nat i - 0xfc8 < (56 :: u32)"
  proof -
    have "unat ((word_of_nat i :: u32) - 0xfc8) = i + 2 ^ 32 - 0xfc8"
      using u i by (simp add: unat_sub_if')
    then show ?thesis using i by (simp add: word_less_nat_alt)
  qed
  ultimately show "\<not> (0x1000 + word_of_nat i) - (r_esp example_regs - 56) < 56" by simp
qed

lemma stacks_ok_switched: "stacks_ok k \<Longrightarrow> stacks_ok (switched c st n q pc example_regs k)"
  unfolding stacks_ok_def
  by (simp add: switched_def example_saved) (simp add: example_regs_def)

lemma stacks_ok_example: "stacks_ok example_kernel"
  by (simp add: stacks_ok_def example_kernel_def example_thread_def)

lemma example_block:
  assumes "stacks_ok k" and "queue_wf k" and "running c k" and "ready_list k = n # l"
  shows "switch_begin BLOCK_MYSELF 0 example_regs k = Some (True, switched c SOS_THR_BLOCKED n l 0 example_regs k)"
  using switch_block(2) [OF assms(2,3) _ assms(4)] stacks_ok_check [OF assms(1)] assms(1)
  by (simp add: stacks_ok_def sos_servicing_irq_def)

lemma example_yield:
  assumes "stacks_ok k" and "queue_wf k" and "running c k" and "ready_list k = n # l"
  shows "sos_thread_yield_begin 0 example_regs k = Some (True, switched c SOS_THR_READY n (l @ [c]) 0 example_regs k)"
  using switch_yield(2) [OF assms(2,3) _ assms(4)] stacks_ok_check [OF assms(1)] assms(1)
  by (simp add: stacks_ok_def sos_servicing_irq_def sos_thread_yield_begin_def)

lemma example_sleep_reachable:
  "\<exists>D. sys_reach example_kind example_system D \<and> current_thread (kern D) = Some 11 \<and>
       inside D 11 = Some (Sleeping example_timer)"
proof -
  let ?K0 = example_kernel and ?r = example_regs
  let ?Ka = "armed example_timer 11 ?K0"
  let ?K1 = "switched 11 SOS_THR_BLOCKED 12 [13] 0 ?r ?Ka"
  let ?K2 = "readied 11 ?K1"
  let ?K3 = "switched 12 SOS_THR_READY 13 [11, 12] 0 ?r ?K2"
  let ?K4 = "switched 13 SOS_THR_READY 11 [12, 13] 0 ?r ?K3"
  have ka: "ready_list ?Ka = [12, 13]" "queue_wf ?Ka" "running 11 ?Ka" "stacks_ok ?Ka"
    using example_queue stacks_ok_example
    by (simp_all add: armed_def example_timer_def sos_time_register_action_relative_def add_action_def upd_action_def
        sos_time_inc_def example_kernel_def queue_wf_def running_def stacks_ok_def Let_def)
  have "tm_wf ?K0" by (simp add: example_kernel_def tm_wf_def time_wf_def NS_IN_SEC_def)
  then have ae: "sos_thread_sleep_begin (delay example_timer) (tmo_action example_timer) (tmo_params example_timer) 0 ?r ?K0
      = switch_begin BLOCK_MYSELF 0 ?r ?Ka"
    using armed_eq(1) [of ?K0 example_timer 0 ?r 11]
    by (simp add: example_timer_def example_kernel_def time_wf_def time_ns_def NS_IN_SEC_def)
  note s1 = ae [unfolded example_block [OF ka(4,2,3,1)]]
  have q1: "queue_wf ?K1" "running 12 ?K1" "stacks_ok ?K1"
    using queue_wf_switched(2,3) [OF ka(2,3,1)] stacks_ok_switched [OF ka(4)] by simp_all
  have t1: "tstate ?K1 11 = SOS_THR_BLOCKED" by (simp add: tstate_switched)
  have s2: "sos_thread_force_unblock (Some 11) ?K1 = Some (SOS_OK, ?K2)"
    by (rule force_unblock_readied [OF q1(1)]) (simp_all add: t1)
  have q2: "queue_wf ?K2" "running 12 ?K2" "stacks_ok ?K2" and rl2: "ready_list ?K2 = 13 # [11]"
    using queue_wf_readied [OF q1(1), of 11] running_readied [OF q1(2), of 11] q1(3) t1
    by (simp_all add: readied_def set_state_def stacks_ok_def)
  have s3: "sos_thread_yield_begin 0 ?r ?K2 = Some (True, ?K3)"
    using example_yield [OF q2(3,1,2) rl2] by simp
  have q3: "queue_wf ?K3" "running 13 ?K3" "stacks_ok ?K3" and rl3: "ready_list ?K3 = 11 # [12]"
    using queue_wf_switched(1,3) [OF q2(1,2) rl2] stacks_ok_switched [OF q2(3)] by simp_all
  have s4: "sos_thread_yield_begin 0 ?r ?K3 = Some (True, ?K4)"
    using example_yield [OF q3(3,1,2) rl3] by simp
  let ?C1 = "enter 11 (Sleeping example_timer) ?K1 example_system"
  let ?C2 = "?C1\<lparr>kern := ?K2\<rparr>"
  let ?C3 = "enter 12 Yielding ?K3 ?C2"
  let ?C4 = "enter 13 Yielding ?K4 ?C3"
  have f: "fresh_timer example_timer example_system"
    by (simp add: fresh_timer_def example_timer_def example_system_def example_kernel_def time_wf_def time_ns_def
        NS_IN_SEC_def ptimer_def)
  have st1: "sys_step example_kind example_system ?C1"
    using sys_step.sleep [OF example_idle f [unfolded example_timer_def]] s1
    by (simp add: example_timer_def example_system_def)
  have i2: "idle 12 ?C1" by (simp add: idle_def enter_def example_system_def)
  then have st2: "sys_step example_kind ?C1 ?C2"
    by (rule sys_step.force [where t = 11 and ret = SOS_OK]) (simp_all add: enter_def t1 s2)
  have "idle 12 ?C2" using i2 by (simp add: idle_def enter_def)
  then have st3: "sys_step example_kind ?C2 ?C3"
    by (rule sys_step.yield_switch [where pc = 0 and r = ?r]) (simp add: s3)
  have "idle 13 ?C3" by (simp add: idle_def enter_def example_system_def)
  then have st4: "sys_step example_kind ?C3 ?C4"
    by (rule sys_step.yield_switch [where pc = 0 and r = ?r]) (simp add: s4 enter_def)
  have reach: "sys_reach example_kind example_system ?C4"
    by (rule sys_reach.step [OF sys_reach.step [OF sys_reach.step [OF sys_reach.step [OF sys_reach.start st1] st2] st3] st4])
  with reach show ?thesis by (intro exI [of _ ?C4]) (simp add: enter_def)
qed

theorem sleep_result_witness:
  "\<exists>D ret rem k'. sys_reach example_kind example_system D \<and>
     sos_thread_sleep_end (Some \<lparr>sec = 1, nanosec = 0\<rparr>) 5 6 11 (kern D) = Some (ret, Some rem, k')"
proof -
  obtain D where D: "sys_reach example_kind example_system D" "current_thread (kern D) = Some 11"
      "inside D 11 = Some (Sleeping example_timer)" using example_sleep_reachable by blast
  from sleep_result [OF example_initial D(1,2) D(3) [unfolded example_timer_def]] D(1) show ?thesis by blast
qed

text \<open>
  C28: An unlock by the recorded owner of a mutex that threads wait for leaves it as its owner until the
  thread woken runs. Until then a new lock by the caller is refused as if it still held the mutex,
  and a second unlock is accepted and wakes one more thread, so that two threads are granted a
  mutex that admits one.
\<close>

theorem unlock_keeps_owner:
  assumes "initial_system kind init C" and "sys_reach kind C D" and "idle c D" and "kind m = Mutex"
    and "kmutex_owner (kern D) m = Some c" and "waiting_list (kern D) m = e1 # e2 # es"
  shows "\<exists>k1 k2. sos_kmutex_unlock m (kern D) = Some (SOS_OK, k1) \<and> kmutex_owner k1 m = Some c \<and>
     sos_kmutex_lock_begin m e d a p pc r k1 = Some (Inl (- SOS_EBUSY), k1) \<and>
     sos_kmutex_unlock m k1 = Some (SOS_OK, k2) \<and> waiting_list k2 m = es \<and>
     wakeup_triggered (entries k2 e1) \<and> wakeup_triggered (entries k2 e2)"
proof -
  note I = sys_inv_idle [OF reach_inv [OF assms(1,2)] assms(3)]
  note ow = assms(5)
  have nr: "kind m \<noteq> Raw_queue" using assms(4) by simp
  have wake: "\<exists>k'. sos_kmutex_unlock m k = Some (SOS_OK, k') \<and> kernel_ok kind c k' (inside D) \<and>
      waiting_list k' m = ws \<and> kmutex_owner k' m = Some c \<and> (\<forall>f. triggered k' f \<longleftrightarrow> triggered k f \<or> f = w)"
    if k: "kernel_ok kind c k (inside D)" "waiting_list k m = w # ws" "kmutex_owner k m = Some c" for k w ws
    using wakeup_loop_ok [OF k(1) _ object_no_own_entry [OF k(1) I(2) nr], of SOS_OK 1] k current_ok [OF kernel_okD(2) [OF k(1)]]
    by (auto simp: sos_kmutex_unlock_def sos_kwaitq_is_empty_def sos_kwaitq_wakeup_def)
  obtain k1 where k1: "sos_kmutex_unlock m (kern D) = Some (SOS_OK, k1)" "kernel_ok kind c k1 (inside D)"
      "waiting_list k1 m = e2 # es" "kmutex_owner k1 m = Some c" "triggered k1 e1"
    using wake [OF I(1) assms(6) ow] by blast
  obtain k2 where k2: "sos_kmutex_unlock m k1 = Some (SOS_OK, k2)" "waiting_list k2 m = es"
      "triggered k2 e1" "triggered k2 e2"
    using wake [OF k1(2-4)] k1(5) by blast
  have "sos_kmutex_lock_begin m e d a p pc r k1 = Some (Inl (- SOS_EBUSY), k1)"
    using k1(4) current_ok [OF kernel_okD(2) [OF k1(2)]] by (simp add: sos_kmutex_lock_begin_def)
  with k1 k2 show ?thesis by blast
qed

text \<open>Thread 11 of the example takes the mutex and yields, 12 and 13 wait for it, 11 comes back.\<close>

lemma example_lock_wait:
  assumes "stacks_ok k" and "queue_wf k" and "running c k" and "ready_list k = n # l"
    and "kmutex_owner k m = Some h" and "h \<noteq> c"
  shows "sos_kmutex_lock_begin m e None a p 0 example_regs k =
     Some (Inr True, switched c SOS_THR_BLOCKED n l 0 example_regs (enq m e c k))"
proof -
  let ?k = "enq m e c k"
  have k: "queue_wf ?k" "running c ?k" "stacks_ok ?k" "ready_list ?k = n # l"
    using queue_wf_cong [OF assms(2), of ?k] running_cong [OF assms(3), of ?k] assms(1,4)
    by (simp_all add: stacks_ok_def enq_def)
  obtain a' k1 where "sos_kwaitq_init_entry e k = Some (a', k1)" "sos_kwaitq_add_entry m e k1 = Some (SOS_OK, ?k)"
    using enter_queue_eq [OF assms(3), of e m] by (auto simp: bind_eq_Some_conv)
  then have "sos_kwaitq_wait_begin m e None a p 0 example_regs k
      = Some (True, switched c SOS_THR_BLOCKED n l 0 example_regs ?k)"
    using example_block [OF k(3,1,2,4)] by (simp add: sos_kwaitq_wait_begin_def sos_thread_sleep_begin_def)
  then show ?thesis using assms(5,6) current_ok [OF assms(3)] by (simp add: sos_kmutex_lock_begin_def)
qed

lemma example_waiters_reachable:
  "\<exists>D. sys_reach example_kind example_system D \<and> idle 11 D \<and> kmutex_owner (kern D) 20 = Some 11 \<and>
       waiting_list (kern D) 20 = [7, 8] \<and> holders D 20 = {11} \<and> stale D 20 = 0 \<and> stacks_ok (kern D) \<and>
       inside D 12 = Some (Waiting 20 7 (Timer None 0 0)) \<and> inside D 13 = Some (Waiting 20 8 (Timer None 0 0)) \<and>
       ready_list (kern D) = [] \<and> tstate (kern D) 12 = SOS_THR_BLOCKED \<and> tstate (kern D) 13 = SOS_THR_BLOCKED"
proof -
  let ?r = example_regs
  let ?K1 = "set_owner 20 (Some 11) example_kernel"
  let ?K2 = "switched 11 SOS_THR_READY 12 [13, 11] 0 ?r ?K1"
  let ?E2 = "enq 20 7 12 ?K2"
  let ?K3 = "switched 12 SOS_THR_BLOCKED 13 [11] 0 ?r ?E2"
  let ?E3 = "enq 20 8 13 ?K3"
  let ?K4 = "switched 13 SOS_THR_BLOCKED 11 [] 0 ?r ?E3"
  have s1: "sos_kmutex_trylock 20 (kern example_system) = Some (SOS_OK, ?K1)"
    using current_ok [OF example_queue(2)]
    by (simp add: sos_kmutex_trylock_def example_system_def) (simp add: example_kernel_def)
  have q1: "queue_wf ?K1" "running 11 ?K1" "stacks_ok ?K1" "ready_list ?K1 = 12 # [13]"
    using example_queue stacks_ok_example
    by (simp_all add: set_owner_def queue_wf_def running_def stacks_ok_def) (simp add: example_kernel_def)
  have s2: "sos_thread_yield_begin 0 ?r ?K1 = Some (True, ?K2)" using example_yield [OF q1(3,1,2,4)] by simp
  have q2: "queue_wf ?K2" "running 12 ?K2" "stacks_ok ?K2" "ready_list ?K2 = 13 # [11]"
    using queue_wf_switched(1,3) [OF q1(1,2,4)] stacks_ok_switched [OF q1(3)] by simp_all
  have ow: "kmutex_owner ?K1 20 = Some 11" by (simp add: set_owner_def)
  have s3: "sos_kmutex_lock_begin 20 7 None 0 0 0 ?r ?K2 = Some (Inr True, ?K3)"
    by (rule example_lock_wait [where h = 11, OF q2(3,1,2,4)]) (simp_all add: ow)
  have e2: "queue_wf ?E2" "running 12 ?E2" "stacks_ok ?E2" "ready_list ?E2 = 13 # [11]"
    using queue_wf_cong [OF q2(1), of ?E2] running_cong [OF q2(2), of ?E2] q2(3)
    by (simp_all, simp add: stacks_ok_def enq_def)
  have q3: "queue_wf ?K3" "running 13 ?K3" "stacks_ok ?K3" "ready_list ?K3 = 11 # []"
    using queue_wf_switched(2,3) [OF e2(1,2,4)] stacks_ok_switched [OF e2(3)] by simp_all
  have s4: "sos_kmutex_lock_begin 20 8 None 0 0 0 ?r ?K3 = Some (Inr True, ?K4)"
    by (rule example_lock_wait [where h = 11, OF q3(3,1,2,4)]) (simp_all add: ow)
  have e3: "queue_wf ?E3" "running 13 ?E3" "ready_list ?E3 = 11 # []"
    using queue_wf_cong [OF q3(1), of ?E3] running_cong [OF q3(2), of ?E3] by simp_all
  have q4: "running 11 ?K4" "stacks_ok ?K4"
    using queue_wf_switched(3) [OF e3] stacks_ok_switched [of ?E3 13] q3(3) by (simp_all, simp add: stacks_ok_def enq_def)
  from q4(1) have s5: "switch_end 11 ?K4 = Some SOS_OK" by (simp add: switch_end_def running_def)
  let ?C1 = "acquired Mutex 20 11 SOS_OK (example_system\<lparr>kern := ?K1\<rparr>)"
  let ?C2 = "enter 11 Yielding ?K2 ?C1"
  let ?C3 = "enter 12 (Waiting 20 7 (Timer None 0 0)) ?K3 ?C2"
  let ?C4 = "enter 13 (Waiting 20 8 (Timer None 0 0)) ?K4 ?C3"
  let ?C5 = "leave 11 ?K4 ?C4"
  note defs = idle_def enter_def leave_def acquired_def upd_holders_def example_system_def
  have m: "example_kind 20 = Mutex" by (simp add: example_kind_def)
  have w0: "waiting_list ?K1 q = []" for q by (simp add: set_owner_def) (simp add: example_kernel_def)
  have st1: "sys_step example_kind example_system ?C1" by (rule sys_step.trylock) (rule example_idle m s1)+
  have "idle 11 ?C1" by (simp add: defs set_owner_def) (simp add: example_kernel_def)
  then have st2: "sys_step example_kind ?C1 ?C2"
    by (rule sys_step.yield_switch [where pc = 0 and r = ?r]) (simp add: s2 acquired_def upd_holders_def)
  have "idle 12 ?C2" by (simp add: defs)
  then have st3: "sys_step example_kind ?C2 ?C3"
    by (rule sys_step.lock_wait [where pc = 0 and r = ?r])
      (simp_all add: m s3 fresh_timer_def fresh_entry_def, simp_all add: s3 defs w0)
  have "idle 13 ?C3" by (simp add: defs)
  then have st4: "sys_step example_kind ?C3 ?C4"
    by (rule sys_step.lock_wait [where pc = 0 and r = ?r])
      (simp_all add: m s4 fresh_timer_def fresh_entry_def, simp_all add: s4 defs w0)
  have st5: "sys_step example_kind ?C4 ?C5"
    using sys_step.resume_yield [of ?C4 11 SOS_OK] s5 by (simp add: defs)
  have reach: "sys_reach example_kind example_system ?C5"
    by (rule sys_reach.step [OF sys_reach.step [OF sys_reach.step [OF sys_reach.step [OF sys_reach.step [OF sys_reach.start st1] st2] st3] st4] st5])
  have w: "waiting_list example_kernel 20 = []" by (simp add: example_kernel_def)
  have K: "kern ?C5 = ?K4" by (simp add: defs)
  have "holders ?C5 20 = {11}" "stale ?C5 20 = 0" "inside ?C5 12 = Some (Waiting 20 7 (Timer None 0 0))"
      "inside ?C5 13 = Some (Waiting 20 8 (Timer None 0 0))" "idle 11 ?C5"
    by (simp_all add: defs)
  moreover have "kmutex_owner ?K4 20 = Some 11" "waiting_list ?K4 20 = [7, 8]" using w by (simp_all add: set_owner_def)
  moreover have "ready_list ?K4 = []" "tstate ?K4 12 = SOS_THR_BLOCKED" "tstate ?K4 13 = SOS_THR_BLOCKED"
    by (simp_all add: tstate_switched)
  ultimately show ?thesis using reach q4(2) by (intro exI [of _ ?C5]) (simp only: K simp_thms)
qed

theorem wakeup_fifo_witness:
  "\<exists>D k'. sys_reach example_kind example_system D \<and> waiting_list (kern D) 20 = [7, 8] \<and>
     sos_kwaitq_wakeup 20 1 SOS_OK (kern D) = Some (SOS_OK, k') \<and> waiting_list k' 20 = [8] \<and> ready_list k' = [12]"
proof -
  obtain D where D: "sys_reach example_kind example_system D" "idle 11 D" "waiting_list (kern D) 20 = [7, 8]"
      "inside D 12 = Some (Waiting 20 7 (Timer None 0 0))" "ready_list (kern D) = []" "tstate (kern D) 12 = SOS_THR_BLOCKED"
    using example_waiters_reachable by blast
  note I = sys_inv_idle [OF reach_inv [OF example_initial D(1)] D(2)]
  have e: "entry_thread (entries (kern D) 7) = Some 12" by (rule calls_okD(4) [OF kernel_okD(3) [OF I(1)] D(4)])
  have "example_kind 20 = Raw_queue \<or> SOS_OK = SOS_OK" by simp
  note w = wakeup_fifo [OF example_initial D(1,2) this, of 1]
  from w e D(3,5,6) obtain k' where "sos_kwaitq_wakeup 20 1 SOS_OK (kern D) = Some (SOS_OK, k')"
      "waiting_list k' 20 = [8]" "ready_list k' = [12]"
    by (auto simp: owner_of_def)
  with D(1,3) show ?thesis by blast
qed

theorem unlock_keeps_owner_witness:
  "\<exists>D k1 k2. sys_reach example_kind example_system D \<and> sos_kmutex_unlock 20 (kern D) = Some (SOS_OK, k1) \<and>
     sos_kmutex_unlock 20 k1 = Some (SOS_OK, k2) \<and> waiting_list k2 20 = []"
proof -
  obtain D where D: "sys_reach example_kind example_system D" "idle 11 D" "kmutex_owner (kern D) 20 = Some 11"
      "waiting_list (kern D) 20 = 7 # 8 # []" using example_waiters_reachable by auto
  have m: "example_kind 20 = Mutex" by (simp add: example_kind_def)
  from unlock_keeps_owner [OF example_initial D(1,2) m D(3,4), of 0 None 0 0 0 example_regs] D(1)
  show ?thesis by blast
qed

end
