(* ===== verification/Ksystem_stale.thy ===== *)
theory Ksystem_stale
  imports Ksystem_props
begin

text \<open>
  Two holders of a mutex (\<open>os/ksynch.c\<close>): a run of the small system of \<open>Ksystem_props\<close> where a second
  unlock lets two threads in. It shows that the count of stale unlocks in the statement of mutual
  exclusion is needed, and that it is reached by calls of the kernel only.
\<close>

lemma stacks_ok_grant [simp]: "stacks_ok (grant q e t st k) = stacks_ok k"
  unfolding stacks_ok_def grant_def deq_def readied_def set_state_def by (simp add: upd_entry_def upd_thread_def) metis

lemma stacks_ok_set_owner [simp]: "stacks_ok (set_owner m w k) = stacks_ok k"
  by (simp add: stacks_ok_def set_owner_def)

text \<open>An unlock with waiting threads, and the end of the lock of a thread that was woken.\<close>

lemma unlock_grants:
  assumes k: "kernel_ok kind c k ins" and l: "kmutex_owner k m = Some c" "waiting_list k m = e # es"
    and t: "entry_thread (entries k e) = Some t" "t \<noteq> c"
  shows "sos_kmutex_unlock m k = Some (SOS_OK, grant m e t SOS_OK k)"
  using wakeup_loop_step [OF k l(2) t, of 1 SOS_OK] wakeup_loop_stop [of _ m 0 SOS_OK] l current_ok [OF kernel_okD(2) [OF k]]
  by (simp add: sos_kmutex_unlock_def sos_kwaitq_is_empty_def sos_kwaitq_wakeup_def)

lemma lock_resumes:
  assumes "running c k" and "triggered k e" and "wakeup_status (entries k e) = SOS_OK"
  shows "wait_end_of Mutex m e (Timer None a p) c k = Some (SOS_OK, None, set_owner m (Some c) k)"
  using assms current_ok [OF assms(1)]
  by (simp add: wait_end_of_def sos_kmutex_lock_end_def sos_kwaitq_wait_end_def sos_thread_sleep_end_def switch_end_def running_def)

text \<open>
  Thread 11 of the example unlocks the mutex twice and yields; 12 comes back from its lock and
  yields, and 13 comes back from its own: both hold the mutex, whose owner is the last one.
\<close>

theorem exclusion_lost:
  "\<exists>D. sys_reach example_kind example_system D \<and> example_kind 20 = Mutex \<and> holders D 20 = {12, 13} \<and>
     kmutex_owner (kern D) 20 = Some 13 \<and> stale D 20 = 1"
proof -
  let ?r = example_regs
  have m: "example_kind 20 = Mutex" by (simp add: example_kind_def)
  obtain D where D: "sys_reach example_kind example_system D" "idle 11 D" "kmutex_owner (kern D) 20 = Some 11"
      "waiting_list (kern D) 20 = [7, 8]" "holders D 20 = {11}" "stale D 20 = 0" "stacks_ok (kern D)"
      "inside D 12 = Some (Waiting 20 7 (Timer None 0 0))" "inside D 13 = Some (Waiting 20 8 (Timer None 0 0))"
      "ready_list (kern D) = []" "tstate (kern D) 12 = SOS_THR_BLOCKED" "tstate (kern D) 13 = SOS_THR_BLOCKED"
    using example_waiters_reachable by blast
  note I = sys_inv_idle [OF reach_inv [OF example_initial D(1)] D(2)]
  note calls = kernel_okD(3) [OF I(1)]
  have e: "entry_thread (entries (kern D) 7) = Some 12" "entry_thread (entries (kern D) 8) = Some 13"
    using calls_okD(4) [OF calls D(8)] calls_okD(4) [OF calls D(9)] by simp_all
  let ?G1 = "grant 20 7 12 SOS_OK (kern D)"
  let ?G2 = "grant 20 8 13 SOS_OK ?G1"
  let ?K3 = "switched 11 SOS_THR_READY 12 [13, 11] 0 ?r ?G2"
  let ?K4 = "set_owner 20 (Some 12) ?K3"
  let ?K5 = "switched 12 SOS_THR_READY 13 [11, 12] 0 ?r ?K4"
  let ?K6 = "set_owner 20 (Some 13) ?K5"
  have u1: "sos_kmutex_unlock 20 (kern D) = Some (SOS_OK, ?G1)" by (rule unlock_grants [OF I(1) D(3,4) e(1)]) simp
  have g1: "kernel_ok example_kind 11 ?G1 (inside D)" by (rule grant_ok [OF I(1) _ e(1)]) (simp_all add: D(4))
  have u2: "sos_kmutex_unlock 20 ?G1 = Some (SOS_OK, ?G2)"
    by (rule unlock_grants [OF g1, where es = "[]"]) (simp_all add: D(3,4) e)
  have g2: "kernel_ok example_kind 11 ?G2 (inside D)" by (rule grant_ok [OF g1]) (simp_all add: D(4) e)
  note q2 = kernel_okD(1,2) [OF g2]
  have r2: "ready_list ?G2 = 12 # [13]" by (simp add: grant_def deq_def readied_def set_state_def D(10-12) upd_entry_def)
  have s3: "sos_thread_yield_begin 0 ?r ?G2 = Some (True, ?K3)" using example_yield [OF _ q2 r2] D(7) by simp
  have q3: "queue_wf ?K3" "running 12 ?K3" using queue_wf_switched(1,3) [OF q2 r2] by simp_all
  have q4: "queue_wf ?K4" "running 12 ?K4" "ready_list ?K4 = 13 # [11]" "stacks_ok ?K4"
    using queue_wf_cong [OF q3(1), of ?K4] running_cong [OF q3(2), of ?K4] stacks_ok_switched [of ?G2 11] D(7)
    by (simp_all, simp_all add: set_owner_def)
  have s5: "sos_thread_yield_begin 0 ?r ?K4 = Some (True, ?K5)" using example_yield [OF q4(4,1,2,3)] by simp
  have q5: "running 13 ?K5" using queue_wf_switched(3) [OF q4(1-3)] by simp
  let ?D1 = "released 20 11 SOS_OK ?G1 D"
  let ?D2 = "released 20 11 SOS_OK ?G2 ?D1"
  let ?D3 = "enter 11 Yielding ?K3 ?D2"
  let ?D4 = "acquired Mutex 20 12 SOS_OK (leave 12 ?K4 ?D3)"
  let ?D5 = "enter 12 Yielding ?K5 ?D4"
  let ?D6 = "acquired Mutex 20 13 SOS_OK (leave 13 ?K6 ?D5)"
  note defs = released_def enter_def leave_def acquired_def upd_holders_def
  have K: "kern ?D1 = ?G1" "kern ?D2 = ?G2" "kern ?D3 = ?K3" "kern ?D4 = ?K4" "kern ?D5 = ?K5" "kern ?D6 = ?K6"
    by (simp_all add: defs)
  have ids: "idle 11 ?D1" "idle 11 ?D2" "idle 12 ?D4" "inside ?D3 12 = Some (Waiting 20 7 (Timer None 0 0))"
      "inside ?D5 13 = Some (Waiting 20 8 (Timer None 0 0))" "current_thread ?K3 = Some 12" "current_thread ?K5 = Some 13"
    using I(2) D(8,9) kernel_okD(2) [OF g1] q2(2) q4(2) q3(2) q5 unfolding idle_def K by (simp_all add: defs running_def)
  have st1: "sys_step example_kind D ?D1" by (rule sys_step.unlock [where kind = example_kind, OF D(2) m u1])
  have st2: "sys_step example_kind ?D1 ?D2" by (rule sys_step.unlock [where kind = example_kind, OF ids(1) m]) (simp only: K u2)
  have st3: "sys_step example_kind ?D2 ?D3" by (rule sys_step.yield_switch [where pc = 0 and r = ?r, OF ids(2)]) (simp only: K s3)
  have w4: "wait_end_of Mutex 20 7 (Timer None 0 0) 12 ?K3 = Some (SOS_OK, None, ?K4)"
    by (rule lock_resumes [OF q3(2)]) (simp_all add: grant_def)
  have w6: "wait_end_of Mutex 20 8 (Timer None 0 0) 13 ?K5 = Some (SOS_OK, None, ?K6)"
    by (rule lock_resumes [OF q5]) (simp_all add: set_owner_def)
  have st4: "sys_step example_kind ?D3 ?D4"
    using sys_step.resume_wait [of ?D3 12 20 7 "Timer None 0 0" example_kind SOS_OK None ?K4] ids w4 K m by simp
  have st5: "sys_step example_kind ?D4 ?D5" by (rule sys_step.yield_switch [where pc = 0 and r = ?r, OF ids(3)]) (simp only: K s5)
  have st6: "sys_step example_kind ?D5 ?D6"
    using sys_step.resume_wait [of ?D5 13 20 8 "Timer None 0 0" example_kind SOS_OK None ?K6] ids w6 K m by simp
  have "sys_reach example_kind example_system ?D6"
    by (rule sys_reach.step [OF sys_reach.step [OF sys_reach.step [OF sys_reach.step [OF sys_reach.step [OF
          sys_reach.step [OF D(1) st1] st2] st3] st4] st5] st6])
  moreover have "holders ?D6 20 = {12, 13}" "stale ?D6 20 = 1" "kmutex_owner (kern ?D6) 20 = Some 13"
    using D(3,5,6) unfolding K by (auto simp: defs set_owner_def)
  ultimately show ?thesis using m by blast
qed

end
