(* ===== verification/Kmem.thy ===== *)
theory Kmem
  imports Paging
begin

text \<open>
  The kernel memory allocators: ranges of virtual pages (\<^verbatim>\<open>os/kmem_vmm.c\<close>) and slab caches of objects
  (\<^verbatim>\<open>os/kmem_slab.c\<close>). Each structure that the two keep in memory is a record at the address of the
  structure, \<open>0\<close> is the null pointer, and the links of a list are the list of its elements. The contents of
  the objects handed out are not modelled, so clearing them has no effect here.

  The two files call each other: allocating an object may need a range for a new slab, and a range may need an
  object for its structure. The operations that take part take the operation they call back as an
  argument, and \<open>sos_kmem_cache_free\<close> and \<open>sos_kmem_cache_alloc\<close> close the circle: they are the least
  functions that satisfy their equation, so that a nesting without end has no result.
\<close>

section \<open>State\<close>

record kmem_range =
  base_vaddr :: sos_vaddr_t
  nb_pages :: sos_count_t
  range_slab :: sos_vaddr_t

record kslab =
  nb_free :: sos_count_t
  free_objs :: "sos_vaddr_t list"
  slab_range :: sos_vaddr_t
  first_object :: sos_vaddr_t
  slab_cache :: sos_vaddr_t

record kslab_cache =
  cache_name :: string
  original_obj_size :: sos_size_t
  alloc_obj_size :: sos_size_t
  nb_objects_per_slab :: sos_count_t
  nb_pages_per_slab :: sos_count_t
  min_free_objects :: sos_count_t
  cache_flags :: u32
  nb_free_objects :: sos_count_t
  slab_list :: "sos_vaddr_t list"

record kmem =
  pg :: paging
  range_at :: "sos_vaddr_t \<Rightarrow> kmem_range"
  slab_at :: "sos_vaddr_t \<Rightarrow> kslab"
  cache_at :: "sos_vaddr_t \<Rightarrow> kslab_cache"
  free_ranges :: "sos_vaddr_t list"
  used_ranges :: "sos_vaddr_t list"
  kmem_range_cache :: sos_vaddr_t
  cache_of_struct_kslab_cache :: sos_vaddr_t
  cache_of_struct_kslab :: sos_vaddr_t
  kslab_cache_list :: "sos_vaddr_t list"

definition upd_range :: "sos_vaddr_t \<Rightarrow> (kmem_range \<Rightarrow> kmem_range) \<Rightarrow> kmem \<Rightarrow> kmem" where
  "upd_range r f s = s\<lparr>range_at := (range_at s)(r := f (range_at s r))\<rparr>"

definition upd_slab :: "sos_vaddr_t \<Rightarrow> (kslab \<Rightarrow> kslab) \<Rightarrow> kmem \<Rightarrow> kmem" where
  "upd_slab k f s = s\<lparr>slab_at := (slab_at s)(k := f (slab_at s k))\<rparr>"

definition upd_cache :: "sos_vaddr_t \<Rightarrow> (kslab_cache \<Rightarrow> kslab_cache) \<Rightarrow> kmem \<Rightarrow> kmem" where
  "upd_cache c f s = s\<lparr>cache_at := (cache_at s)(c := f (cache_at s c))\<rparr>"

definition set_mem :: "physmem \<Rightarrow> kmem \<Rightarrow> kmem" where
  "set_mem m s = s\<lparr>pg := (pg s)\<lparr>phys := m\<rparr>\<rparr>"

definition SOS_KMEM_VMM_BASE :: sos_vaddr_t where "SOS_KMEM_VMM_BASE = 0x4000"
definition SOS_KMEM_VMM_TOP :: sos_vaddr_t where "SOS_KMEM_VMM_TOP = SOS_PAGING_MIRROR_VADDR"
definition SOS_KMEM_VMM_MAP :: u32 where "SOS_KMEM_VMM_MAP = 1"
definition SOS_KMEM_VMM_ATOMIC :: u32 where "SOS_KMEM_VMM_ATOMIC = 2"
definition SOS_KSLAB_CREATE_MAP :: u32 where "SOS_KSLAB_CREATE_MAP = 1"
definition SOS_KSLAB_CREATE_ZERO :: u32 where "SOS_KSLAB_CREATE_ZERO = 2"
definition SOS_KSLAB_ALLOC_ATOMIC :: u32 where "SOS_KSLAB_ALLOC_ATOMIC = 1"
definition ON_SLAB :: u32 where "ON_SLAB = 0x80000000"
definition MAX_PAGES_PER_SLAB :: u32 where "MAX_PAGES_PER_SLAB = 32"
definition NB_PAGES_IN_SLAB_OF_CACHES :: u32 where "NB_PAGES_IN_SLAB_OF_CACHES = 1"
definition NB_PAGES_IN_SLAB_OF_RANGES :: u32 where "NB_PAGES_IN_SLAB_OF_RANGES = 1"
definition sizeof_struct_sos_kmem_range :: u32 where "sizeof_struct_sos_kmem_range = 20"
definition sizeof_kslab :: u32 where "sizeof_kslab = 28"
definition sizeof_kslab_cache :: u32 where "sizeof_kslab_cache = 44"
definition sizeof_free_object :: u32 where "sizeof_free_object = 8"

section \<open>Lists of ranges\<close>

fun closest_loop :: "(sos_vaddr_t \<Rightarrow> kmem_range) \<Rightarrow> sos_vaddr_t \<Rightarrow> sos_vaddr_t list \<Rightarrow> sos_vaddr_t \<Rightarrow> sos_vaddr_t" where
  "closest_loop m ret_range [] vaddr = ret_range"
| "closest_loop m ret_range (a_range # rs) vaddr =
     (if vaddr < base_vaddr (m a_range) then ret_range else closest_loop m a_range rs vaddr)"

definition get_closest_preceding_kmem_range ::
    "(sos_vaddr_t \<Rightarrow> kmem_range) \<Rightarrow> sos_vaddr_t list \<Rightarrow> sos_vaddr_t \<Rightarrow> sos_vaddr_t" where
  "get_closest_preceding_kmem_range m the_list vaddr = closest_loop m 0 the_list vaddr"

definition find_suitable_free_range :: "sos_count_t \<Rightarrow> kmem \<Rightarrow> sos_vaddr_t" where
  "find_suitable_free_range nb s =
     (case find (\<lambda>r. nb_pages (range_at s r) \<ge> nb) (free_ranges s) of None \<Rightarrow> 0 | Some r \<Rightarrow> r)"

definition insert_range :: "(sos_vaddr_t \<Rightarrow> kmem_range) \<Rightarrow> sos_vaddr_t list \<Rightarrow> sos_vaddr_t \<Rightarrow> sos_vaddr_t list" where
  "insert_range m the_list a_range =
     (let prec_used = get_closest_preceding_kmem_range m the_list (base_vaddr (m a_range))
      in if prec_used \<noteq> 0 then insert_after prec_used a_range the_list else add_head a_range the_list)"

text \<open>No result stands for a page fault or a failed assertion.\<close>

definition lookup_range :: "sos_vaddr_t \<Rightarrow> kmem \<Rightarrow> sos_vaddr_t option" where
  "lookup_range vaddr s = do {
     p \<leftarrow> sos_paging_get_paddr vaddr (pg s);
     let ppage_paddr = SOS_PAGE_ALIGN_INF p;
     if ppage_paddr \<noteq> 0 then sos_physmem_get_kmem_range ppage_paddr (phys (pg s))
     else
       let rng = get_closest_preceding_kmem_range (range_at s) (used_ranges s) vaddr;
           r = range_at s rng
       in if rng = 0 then Some 0
          else if vaddr < base_vaddr r \<or> vaddr \<ge> base_vaddr r + nb_pages r * SOS_PAGE_SIZE then Some 0
          else Some rng }"

definition sos_kmem_vmm_set_slab :: "sos_vaddr_t \<Rightarrow> sos_vaddr_t \<Rightarrow> kmem \<Rightarrow> sos_ret_t \<times> kmem" where
  "sos_kmem_vmm_set_slab rng slab s =
     (if rng = 0 then (- SOS_EINVAL, s) else (SOS_OK, upd_range rng (\<lambda>r. r\<lparr>range_slab := slab\<rparr>) s))"

definition sos_kmem_vmm_resolve_slab :: "sos_vaddr_t \<Rightarrow> kmem \<Rightarrow> sos_vaddr_t option" where
  "sos_kmem_vmm_resolve_slab vaddr s = do {
     rng \<leftarrow> lookup_range vaddr s;
     Some (if rng = 0 then 0 else range_slab (range_at s rng)) }"

definition sos_kmem_vmm_is_valid_vaddr :: "sos_vaddr_t \<Rightarrow> kmem \<Rightarrow> bool option" where
  "sos_kmem_vmm_is_valid_vaddr vaddr s = map_option (\<lambda>rng. rng \<noteq> 0) (lookup_range vaddr s)"

section \<open>Freeing\<close>

text \<open>The result carries the slab that the release has emptied, or 0. A zero object size is a division error.\<close>

definition free_object :: "sos_vaddr_t \<Rightarrow> kmem \<Rightarrow> (sos_ret_t \<times> sos_vaddr_t \<times> kmem) option" where
  "free_object vaddr s = do {
     slab \<leftarrow> sos_kmem_vmm_resolve_slab vaddr s;
     if slab = 0 then Some (- SOS_EINVAL, 0, s)
     else do {
       let kslab_cache = slab_cache (slab_at s slab);
       sos_assert_fatal (kslab_cache \<noteq> 0);
       let c = cache_at s kslab_cache;
       if alloc_obj_size c = 0 then None
       else if (vaddr - first_object (slab_at s slab)) mod alloc_obj_size c \<noteq> 0 then Some (- SOS_EINVAL, 0, s)
       else if (vaddr - first_object (slab_at s slab)) div alloc_obj_size c \<ge> nb_objects_per_slab c
       then Some (- SOS_EINVAL, 0, s)
       else do {
         s \<leftarrow> (if free_objs (slab_at s slab) = []
              then do {
                l \<leftarrow> list_delete slab (slab_list c);
                Some (upd_cache kslab_cache (\<lambda>c. c\<lparr>slab_list := add_head slab l\<rparr>) s) }
              else Some s);
         let s = upd_slab slab (\<lambda>k. k\<lparr>free_objs := add_head vaddr (free_objs k), nb_free := nb_free k + 1\<rparr>) s;
         let s = upd_cache kslab_cache (\<lambda>c. c\<lparr>nb_free_objects := nb_free_objects c + 1\<rparr>) s;
         let k = slab_at s slab;
         let c = cache_at s kslab_cache;
         sos_assert_fatal (nb_free k \<le> nb_objects_per_slab c);
         Some (SOS_OK,
           if nb_free k \<ge> nb_objects_per_slab c \<and> nb_free_objects c - nb_free k \<ge> min_free_objects c then slab else 0,
           s) } } }"

type_synonym free_op = "sos_vaddr_t \<Rightarrow> kmem \<Rightarrow> (sos_ret_t \<times> kmem) option"
type_synonym alloc_op = "sos_vaddr_t \<Rightarrow> u32 \<Rightarrow> kmem \<Rightarrow> (sos_vaddr_t \<times> kmem) option"

text \<open>\<open>cache_free\<close> is \<open>sos_kmem_cache_free\<close> and \<open>del_range\<close> is \<open>sos_kmem_vmm_del_range\<close>, called for the slab's range.\<close>

definition cache_release_slab :: "free_op \<Rightarrow> free_op \<Rightarrow> sos_vaddr_t \<Rightarrow> bool \<Rightarrow> kmem \<Rightarrow> (sos_ret_t \<times> kmem) option" where
  "cache_release_slab cache_free del_range slab must_del_range_now s = do {
     let kslab_cache = slab_cache (slab_at s slab);
     let rng = slab_range (slab_at s slab);
     sos_assert_fatal (kslab_cache \<noteq> 0);
     sos_assert_fatal (rng \<noteq> 0);
     sos_assert_fatal (nb_free (slab_at s slab) = nb_objects_per_slab (cache_at s kslab_cache));
     l \<leftarrow> list_delete slab (slab_list (cache_at s kslab_cache));
     let s = upd_cache kslab_cache (\<lambda>c. c\<lparr>slab_list := l, nb_free_objects := nb_free_objects c - nb_free (slab_at s slab)\<rparr>) s;
     s \<leftarrow> (if cache_flags (cache_at s kslab_cache) AND ON_SLAB = 0
          then map_option snd (cache_free slab s) else Some s);
     let (_, s) = sos_kmem_vmm_set_slab rng 0 s;
     if must_del_range_now then del_range rng s else Some (SOS_OK, s) }"

definition sos_kmem_cache_release_struct_range :: "free_op \<Rightarrow> sos_vaddr_t \<Rightarrow> kmem \<Rightarrow> (sos_vaddr_t \<times> kmem) option" where
  "sos_kmem_cache_release_struct_range cache_free the_range s = do {
     (retval, empty_slab, s) \<leftarrow> free_object the_range s;
     if retval \<noteq> SOS_OK then Some (0, s)
     else if empty_slab \<noteq> 0
     then do {
       let empty_range = slab_range (slab_at s empty_slab);
       (r, s) \<leftarrow> cache_release_slab cache_free (\<lambda>_ _. None) empty_slab False s;
       sos_assert_fatal (r = SOS_OK);
       sos_assert_fatal (empty_range \<noteq> 0);
       Some (empty_range, s) }
     else Some (0, s) }"

text \<open>The neighbours of an element in a circular list.\<close>

fun after_in :: "'a \<Rightarrow> 'a \<Rightarrow> 'a list \<Rightarrow> 'a" where
  "after_in x h [] = h"
| "after_in x h [y] = h"
| "after_in x h (y # z # ys) = (if y = x then z else after_in x h (z # ys))"

definition list_next :: "'a \<Rightarrow> 'a list \<Rightarrow> 'a" where
  "list_next x xs = after_in x (hd xs) xs"

definition list_prev :: "'a \<Rightarrow> 'a list \<Rightarrow> 'a" where
  "list_prev x xs = list_next x (rev xs)"

text \<open>Releasing the structure of a range that has been merged, and the range of its slab with it if that becomes empty.\<close>

definition release_merged ::
    "free_op \<Rightarrow> sos_vaddr_t \<Rightarrow> sos_vaddr_t list \<Rightarrow> kmem \<Rightarrow> (sos_vaddr_t list \<times> kmem) option" where
  "release_merged cache_free rng ranges_to_free s = do {
     (empty_range_of_ranges, s) \<leftarrow> sos_kmem_cache_release_struct_range cache_free rng s;
     if empty_range_of_ranges \<noteq> 0
     then do {
       l \<leftarrow> list_delete empty_range_of_ranges (used_ranges s);
       Some (add_tail empty_range_of_ranges ranges_to_free, s\<lparr>used_ranges := l\<rparr>) }
     else Some (ranges_to_free, s) }"

definition range_unmap :: "kmem_range \<Rightarrow> paging \<Rightarrow> paging option" where
  "range_unmap r = fold_opt (\<lambda>i g. map_option snd (sos_paging_unmap (base_vaddr r + word_of_nat i * SOS_PAGE_SIZE) g))
     [0..<unat (nb_pages r)]"

definition merge_prev ::
    "free_op \<Rightarrow> sos_vaddr_t \<Rightarrow> sos_vaddr_t list \<Rightarrow> kmem \<Rightarrow> (sos_vaddr_t \<times> sos_vaddr_t list \<times> kmem) option" where
  "merge_prev cache_free rng ranges_to_free s = (
     let prec_free = list_prev rng (free_ranges s);
         p = range_at s prec_free
     in if base_vaddr p + nb_pages p * SOS_PAGE_SIZE = base_vaddr (range_at s rng)
     then do {
       let s = upd_range prec_free (\<lambda>r. r\<lparr>nb_pages := nb_pages r + nb_pages (range_at s rng)\<rparr>) s;
       l \<leftarrow> list_delete rng (free_ranges s);
       (ranges_to_free, s) \<leftarrow> release_merged cache_free rng ranges_to_free (s\<lparr>free_ranges := l\<rparr>);
       Some (prec_free, ranges_to_free, s) }
     else Some (rng, ranges_to_free, s))"

definition merge_next ::
    "free_op \<Rightarrow> sos_vaddr_t \<Rightarrow> sos_vaddr_t list \<Rightarrow> kmem \<Rightarrow> (sos_vaddr_t list \<times> kmem) option" where
  "merge_next cache_free rng ranges_to_free s = (
     let next_range = list_next rng (free_ranges s);
         r = range_at s rng
     in if base_vaddr r + nb_pages r * SOS_PAGE_SIZE = base_vaddr (range_at s next_range)
     then do {
       let s = upd_range rng (\<lambda>r. r\<lparr>nb_pages := nb_pages r + nb_pages (range_at s next_range)\<rparr>) s;
       l \<leftarrow> list_delete next_range (free_ranges s);
       release_merged cache_free next_range ranges_to_free (s\<lparr>free_ranges := l\<rparr>) }
     else Some (ranges_to_free, s))"

partial_function (option) del_range_loop ::
    "free_op \<Rightarrow> sos_vaddr_t \<Rightarrow> sos_vaddr_t list \<Rightarrow> kmem \<Rightarrow> kmem option" where
  "del_range_loop cache_free rng ranges_to_free s = do {
     let s = s\<lparr>free_ranges := insert_range (range_at s) (free_ranges s) rng\<rparr>;
     g \<leftarrow> range_unmap (range_at s rng) (pg s);
     let s = s\<lparr>pg := g\<rparr>;
     (rng, ranges_to_free, s) \<leftarrow> merge_prev cache_free rng ranges_to_free s;
     (ranges_to_free, s) \<leftarrow> merge_next cache_free rng ranges_to_free s;
     (case pop_head ranges_to_free of
        None \<Rightarrow> Some s
      | Some (rng, ranges_to_free) \<Rightarrow> del_range_loop cache_free rng ranges_to_free s) }"

declare del_range_loop.simps [code]

definition del_range_with :: "free_op \<Rightarrow> sos_vaddr_t \<Rightarrow> kmem \<Rightarrow> (sos_ret_t \<times> kmem) option" where
  "del_range_with cache_free rng s = do {
     sos_assert_fatal (rng \<noteq> 0);
     sos_assert_fatal (range_slab (range_at s rng) = 0);
     l \<leftarrow> list_delete rng (used_ranges s);
     s \<leftarrow> del_range_loop cache_free rng [] (s\<lparr>used_ranges := l\<rparr>);
     Some (SOS_OK, s) }"

text \<open>
  These operations give more results when the operation they call gives more: this makes the recursion through them well
  defined, calls that never return included.
\<close>

definition more_defined :: "'a option \<Rightarrow> 'a option \<Rightarrow> bool" where
  "more_defined x y \<longleftrightarrow> (\<forall>r. x = Some r \<longrightarrow> y = Some r)"

lemma more_defined_bind: "more_defined x y \<Longrightarrow> (\<And>a. more_defined (h a) (k a)) \<Longrightarrow> more_defined (Option.bind x h) (Option.bind y k)"
  by (auto simp: more_defined_def bind_eq_Some_conv)

lemma more_defined_if: "more_defined x y \<Longrightarrow> more_defined x' y' \<Longrightarrow> more_defined (if b then x else x') (if b then y else y')"
  by simp

lemma more_defined_pair: "(\<And>a b. more_defined (h a b) (k a b)) \<Longrightarrow>
    more_defined (case p of (a, b) \<Rightarrow> h a b) (case p of (a, b) \<Rightarrow> k a b)"
  by (cases p) simp

lemma more_defined_option: "more_defined x y \<Longrightarrow> (\<And>a. more_defined (h a) (k a)) \<Longrightarrow>
    more_defined (case p of None \<Rightarrow> x | Some a \<Rightarrow> h a) (case p of None \<Rightarrow> y | Some a \<Rightarrow> k a)"
  by (cases p) simp_all

lemma more_defined_list: "more_defined x y \<Longrightarrow> (\<And>a b. more_defined (h a b) (k a b)) \<Longrightarrow>
    more_defined (case p of [] \<Rightarrow> x | a # b \<Rightarrow> h a b) (case p of [] \<Rightarrow> y | a # b \<Rightarrow> k a b)"
  by (cases p) simp_all

lemma more_defined_map: "more_defined x y \<Longrightarrow> more_defined (map_option h x) (map_option h y)"
  by (auto simp: more_defined_def)

lemma more_defined_refl: "more_defined x x"
  by (simp add: more_defined_def)

lemmas more_defined_intros = more_defined_bind more_defined_if more_defined_pair more_defined_option more_defined_list more_defined_map more_defined_refl

lemma mono_call:
  fixes F :: "('b \<Rightarrow> 'c option) \<Rightarrow> 'd option" and G :: "('a \<Rightarrow> 'e option) \<Rightarrow> 'b \<Rightarrow> 'c option"
  assumes "\<And>f g. (\<And>x. more_defined (f x) (g x)) \<Longrightarrow> more_defined (F f) (F g)" and "\<And>x. mono_option (\<lambda>f. G f x)"
  shows "mono_option (\<lambda>f. F (G f))"
proof (rule monotoneI)
  fix f g :: "'a \<Rightarrow> 'e option" assume fg: "fun_ord option_ord f g"
  have "more_defined (G f x) (G g x)" for x
  proof -
    have "option_ord (G f x) (G g x)" using assms(2) [of x] fg unfolding monotone_def by blast
    then show ?thesis by (auto simp: flat_ord_def more_defined_def)
  qed
  then have "more_defined (F (G f)) (F (G g))" by (rule assms(1))
  then show "option_ord (F (G f)) (F (G g))" by (cases "F (G f)") (auto simp: flat_ord_def more_defined_def)
qed

lemma release_slab_more:
  assumes "\<And>v s. more_defined (f v s) (g v s)" "\<And>v s. more_defined (d v s) (e v s)"
  shows "more_defined (cache_release_slab f d slab now s) (cache_release_slab g e slab now s)"
  unfolding cache_release_slab_def Let_def by (intro more_defined_intros assms)

lemma release_struct_range_more:
  assumes "\<And>v s. more_defined (f v s) (g v s)"
  shows "more_defined (sos_kmem_cache_release_struct_range f rng s) (sos_kmem_cache_release_struct_range g rng s)"
  unfolding sos_kmem_cache_release_struct_range_def Let_def by (intro more_defined_intros release_slab_more assms)

lemma merges_more:
  assumes "\<And>v s. more_defined (f v s) (g v s)"
  shows "more_defined (merge_prev f rng rs s) (merge_prev g rng rs s)" "more_defined (merge_next f rng rs s) (merge_next g rng rs s)"
  unfolding merge_prev_def merge_next_def release_merged_def Let_def
  by (intro more_defined_intros release_struct_range_more assms)+

lemma del_range_more:
  assumes "\<And>v s. more_defined (f v s) (g v s)"
  shows "more_defined (del_range_with f rng s) (del_range_with g rng s)"
proof -
  have "f = f \<longrightarrow> del_range_loop g rng rs s = Some r" if "del_range_loop f rng rs s = Some r" for rng rs s r
  proof (rule del_range_loop.raw_induct [where P = "\<lambda>cf rng rs s r. cf = f \<longrightarrow> del_range_loop g rng rs s = Some r", OF _ that], goal_cases)
    case (1 rec cf rng rs s r)
    show ?case
    proof
      assume cf: "cf = f"
      have "more_defined
        (do { let s = s\<lparr>free_ranges := insert_range (range_at s) (free_ranges s) rng\<rparr>;
          h \<leftarrow> range_unmap (range_at s rng) (pg s);
          let s = s\<lparr>pg := h\<rparr>;
          (rng, rs, s) \<leftarrow> merge_prev f rng rs s;
          (rs, s) \<leftarrow> merge_next f rng rs s;
          (case pop_head rs of None \<Rightarrow> Some s | Some (rng, rs) \<Rightarrow> rec cf rng rs s) })
        (del_range_loop g rng rs s)"
        apply (subst del_range_loop.simps)
        unfolding Let_def using 1(1)
        by (intro more_defined_intros merges_more assms) (auto simp: more_defined_def cf)
      then show "del_range_loop g rng rs s = Some r" using 1(2) cf by (simp add: more_defined_def)
    qed
  qed
  then show ?thesis unfolding del_range_with_def Let_def
    by (intro more_defined_intros) (auto simp: more_defined_def)
qed

lemma release_slab_mono [partial_function_mono]:
  assumes "\<And>v s. mono_option (\<lambda>f. G f v s)"
  shows "mono_option (\<lambda>f. cache_release_slab (G f) (del_range_with (G f)) slab now s)"
proof -
  have "mono_option (\<lambda>f. cache_release_slab (\<lambda>v s. case_prod (G f) (v, s)) (del_range_with (\<lambda>v s. case_prod (G f) (v, s))) slab now s)"
    using assms
    by (intro mono_call [where F = "\<lambda>f. cache_release_slab (\<lambda>v s. f (v, s)) (del_range_with (\<lambda>v s. f (v, s))) slab now s" and G = "\<lambda>f. case_prod (G f)"]
        release_slab_more del_range_more) auto
  then show ?thesis by simp
qed

partial_function (option) sos_kmem_cache_free :: "sos_vaddr_t \<Rightarrow> kmem \<Rightarrow> (sos_ret_t \<times> kmem) option" where
  "sos_kmem_cache_free vaddr s = do {
     (retval, empty_slab, s) \<leftarrow> free_object vaddr s;
     if retval \<noteq> SOS_OK then Some (retval, s)
     else if empty_slab \<noteq> 0 then cache_release_slab sos_kmem_cache_free (del_range_with sos_kmem_cache_free) empty_slab True s
     else Some (SOS_OK, s) }"

declare sos_kmem_cache_free.simps [code]

definition sos_kmem_vmm_del_range :: free_op where
  "sos_kmem_vmm_del_range = del_range_with sos_kmem_cache_free"

definition sos_kmem_vmm_free :: "sos_vaddr_t \<Rightarrow> kmem \<Rightarrow> (sos_ret_t \<times> kmem) option" where
  "sos_kmem_vmm_free vaddr s = do {
     rng \<leftarrow> lookup_range vaddr s;
     if rng = 0 \<or> base_vaddr (range_at s rng) \<noteq> vaddr then Some (- SOS_EINVAL, s)
     else if range_slab (range_at s rng) \<noteq> 0 then Some (- SOS_EBUSY, s)
     else sos_kmem_vmm_del_range rng s }"

section \<open>Allocating\<close>

text \<open>Mapping the pages of a new range; false when there is no memory left and the range has been deleted.\<close>

fun map_pages :: "sos_vaddr_t \<Rightarrow> u32 \<Rightarrow> u32 \<Rightarrow> nat \<Rightarrow> kmem \<Rightarrow> (bool \<times> kmem) option" where
  "map_pages new_range flags i 0 s = Some (True, s)"
| "map_pages new_range flags i (Suc n) s = do {
     (ppage_paddr, m) \<leftarrow> sos_physmem_ref_physpage_new (flags AND SOS_KMEM_VMM_ATOMIC = 0) (phys (pg s));
     let s = set_mem m s;
     (ppage_paddr, s) \<leftarrow>
       (if ppage_paddr \<noteq> 0
        then do {
          (r, g) \<leftarrow> sos_paging_map ppage_paddr (base_vaddr (range_at s new_range) + i * SOS_PAGE_SIZE) False
            ((if flags AND SOS_KMEM_VMM_ATOMIC \<noteq> 0 then SOS_VM_MAP_ATOMIC else 0)
             OR SOS_VM_MAP_PROT_READ OR SOS_VM_MAP_PROT_WRITE) (pg s);
          (_, m) \<leftarrow> sos_physmem_unref_physpage ppage_paddr (phys g);
          Some (if r \<noteq> SOS_OK then 0 else ppage_paddr, s\<lparr>pg := g\<lparr>phys := m\<rparr>\<rparr>) }
        else Some (0, s));
     if ppage_paddr = 0
     then do {
       (_, s) \<leftarrow> sos_kmem_vmm_del_range new_range s;
       Some (False, s) }
     else
       let (_, m) = sos_physmem_set_kmem_range ppage_paddr (Some new_range) (phys (pg s))
       in map_pages new_range flags (i + 1) n (set_mem m s) }"

text \<open>The result is the range and its start address; both are 0 on failure, when the code leaves the start unset.\<close>

definition new_range_with ::
    "alloc_op \<Rightarrow> sos_count_t \<Rightarrow> u32 \<Rightarrow> kmem \<Rightarrow> (sos_vaddr_t \<times> sos_vaddr_t \<times> kmem) option" where
  "new_range_with cache_alloc nb flags s = (
     if nb = 0 then Some (0, 0, s)
     else let free_range = find_suitable_free_range nb s in
     if free_range = 0 then Some (0, 0, s)
     else do {
       (new_range, s) \<leftarrow>
         (if nb_pages (range_at s free_range) = nb
          then do {
            l \<leftarrow> list_delete free_range (free_ranges s);
            Some (free_range, s\<lparr>free_ranges := l, used_ranges := insert_range (range_at s) (used_ranges s) free_range\<rparr>) }
          else do {
            (new_range, s) \<leftarrow> cache_alloc (kmem_range_cache s)
              (if flags AND SOS_KMEM_VMM_ATOMIC \<noteq> 0 then SOS_KSLAB_ALLOC_ATOMIC else 0) s;
            if new_range = 0 then Some (0, s)
            else
              let s = upd_range new_range (\<lambda>r. r\<lparr>base_vaddr := base_vaddr (range_at s free_range), nb_pages := nb\<rparr>) s;
                  s = upd_range free_range (\<lambda>r. r\<lparr>base_vaddr := base_vaddr r + nb * SOS_PAGE_SIZE, nb_pages := nb_pages r - nb\<rparr>) s
              in Some (new_range, s\<lparr>used_ranges := insert_range (range_at s) (used_ranges s) new_range\<rparr>) });
       if new_range = 0 then Some (0, 0, s)
       else do {
         let s = upd_range new_range (\<lambda>r. r\<lparr>range_slab := 0\<rparr>) s;
         (mapped, s) \<leftarrow> (if flags AND SOS_KMEM_VMM_MAP \<noteq> 0 then map_pages new_range flags 0 (unat nb) s else Some (True, s));
         if mapped then Some (new_range, base_vaddr (range_at s new_range), s) else Some (0, 0, s) } })"

definition cache_add_slab :: "sos_vaddr_t \<Rightarrow> sos_vaddr_t \<Rightarrow> sos_vaddr_t \<Rightarrow> kmem \<Rightarrow> kmem" where
  "cache_add_slab kslab_cache vaddr_slab slab s = (
     let c = cache_at s kslab_cache;
         k = \<lparr>nb_free = nb_objects_per_slab c,
              free_objs = map (\<lambda>i. vaddr_slab + word_of_nat i * alloc_obj_size c) [0..<unat (nb_objects_per_slab c)],
              slab_range = 0, first_object = vaddr_slab, slab_cache = kslab_cache\<rparr>
     in upd_cache kslab_cache (\<lambda>c. c\<lparr>nb_free_objects := nb_free_objects c + nb_objects_per_slab c,
          slab_list := add_head slab (slab_list c)\<rparr>) (upd_slab slab (\<lambda>_. k) s))"

definition cache_grow_with :: "alloc_op \<Rightarrow> sos_vaddr_t \<Rightarrow> u32 \<Rightarrow> kmem \<Rightarrow> (sos_ret_t \<times> kmem) option" where
  "cache_grow_with cache_alloc kslab_cache alloc_flags s = do {
     let c = cache_at s kslab_cache;
     let range_alloc_flags = (if alloc_flags AND SOS_KSLAB_ALLOC_ATOMIC \<noteq> 0 then SOS_KMEM_VMM_ATOMIC else 0)
       OR (if cache_flags c AND (SOS_KSLAB_CREATE_MAP OR SOS_KSLAB_CREATE_ZERO) \<noteq> 0 then SOS_KMEM_VMM_MAP else 0);
     (new_range, new_range_start, s) \<leftarrow> new_range_with cache_alloc (nb_pages_per_slab c) range_alloc_flags s;
     if new_range = 0 then Some (- SOS_ENOMEM, s)
     else do {
       (new_slab, s) \<leftarrow>
         (if cache_flags (cache_at s kslab_cache) AND ON_SLAB \<noteq> 0
          then Some (Some (new_range_start + nb_pages_per_slab (cache_at s kslab_cache) * SOS_PAGE_SIZE - sizeof_kslab), s)
          else do {
            (slab_vaddr, s) \<leftarrow> cache_alloc (cache_of_struct_kslab s) alloc_flags s;
            if slab_vaddr = 0
            then do {
              (_, s) \<leftarrow> sos_kmem_vmm_del_range new_range s;
              Some (None, s) }
            else Some (Some slab_vaddr, s) });
       case new_slab of
         None \<Rightarrow> Some (- SOS_ENOMEM, s)
       | Some new_slab \<Rightarrow>
           let s = cache_add_slab kslab_cache new_range_start new_slab s;
               s = upd_slab new_slab (\<lambda>k. k\<lparr>slab_range := new_range\<rparr>) s;
               (_, s) = sos_kmem_vmm_set_slab new_range new_slab s
           in Some (SOS_OK, s) } }"

text \<open>Taking the object at the head of the first slab of a cache.\<close>

definition take_object :: "sos_vaddr_t \<Rightarrow> kmem \<Rightarrow> (sos_vaddr_t \<times> kmem) option" where
  "take_object kslab_cache s = (case slab_list (cache_at s kslab_cache) of
       [] \<Rightarrow> None
     | slab_head # slabs \<Rightarrow> do {
         (obj_vaddr, fs) \<leftarrow> pop_head (free_objs (slab_at s slab_head));
         let s = upd_slab slab_head (\<lambda>k. k\<lparr>free_objs := fs, nb_free := nb_free k - 1\<rparr>) s;
         let s = upd_cache kslab_cache (\<lambda>c. c\<lparr>nb_free_objects := nb_free_objects c - 1\<rparr>) s;
         Some (obj_vaddr,
           if fs = [] then upd_cache kslab_cache (\<lambda>c. c\<lparr>slab_list := add_tail slab_head slabs\<rparr>) s else s) })"

lemma grow_more:
  assumes "\<And>c a s. more_defined (f c a s) (g c a s)"
  shows "more_defined (cache_grow_with f c a s) (cache_grow_with g c a s)"
  unfolding cache_grow_with_def new_range_with_def Let_def by (intro more_defined_intros assms)

lemma grow_mono [partial_function_mono]:
  assumes "\<And>c a s. mono_option (\<lambda>f. G f c a s)"
  shows "mono_option (\<lambda>f. cache_grow_with (G f) c a s)"
proof -
  have "mono_option (\<lambda>f. cache_grow_with (\<lambda>c a s. (case (c, a, s) of (c, a, s) \<Rightarrow> G f c a s)) c a s)"
    using assms
    by (intro mono_call [where F = "\<lambda>f. cache_grow_with (\<lambda>c a s. f (c, a, s)) c a s" and G = "\<lambda>f (c, a, s). G f c a s"] grow_more) auto
  then show ?thesis by simp
qed

partial_function (option) sos_kmem_cache_alloc :: "sos_vaddr_t \<Rightarrow> u32 \<Rightarrow> kmem \<Rightarrow> (sos_vaddr_t \<times> kmem) option" where
  "sos_kmem_cache_alloc kslab_cache alloc_flags s = do {
     (r, s) \<leftarrow>
       (case slab_list (cache_at s kslab_cache) of
          [] \<Rightarrow> cache_grow_with sos_kmem_cache_alloc kslab_cache alloc_flags s
        | slab_head # _ \<Rightarrow>
            if free_objs (slab_at s slab_head) = [] then cache_grow_with sos_kmem_cache_alloc kslab_cache alloc_flags s
            else Some (SOS_OK, s));
     if r \<noteq> SOS_OK then Some (0, s)
     else do {
       (obj_vaddr, s) \<leftarrow> take_object kslab_cache s;
       let c = cache_at s kslab_cache;
       if min_free_objects c > 0 \<and> nb_free_objects c = min_free_objects c - 1
       then do {
         (r, s) \<leftarrow> cache_grow_with sos_kmem_cache_alloc kslab_cache alloc_flags s;
         if r \<noteq> SOS_OK
         then do {
           (_, s) \<leftarrow> sos_kmem_cache_free obj_vaddr s;
           Some (0, s) }
         else Some (obj_vaddr, s) }
       else Some (obj_vaddr, s) } }"

declare sos_kmem_cache_alloc.simps [code]

definition cache_grow :: "sos_vaddr_t \<Rightarrow> u32 \<Rightarrow> kmem \<Rightarrow> (sos_ret_t \<times> kmem) option" where
  "cache_grow = cache_grow_with sos_kmem_cache_alloc"

definition sos_kmem_vmm_new_range :: "sos_count_t \<Rightarrow> u32 \<Rightarrow> kmem \<Rightarrow> (sos_vaddr_t \<times> sos_vaddr_t \<times> kmem) option" where
  "sos_kmem_vmm_new_range = new_range_with sos_kmem_cache_alloc"

definition sos_kmem_vmm_alloc :: "sos_count_t \<Rightarrow> u32 \<Rightarrow> kmem \<Rightarrow> (sos_vaddr_t \<times> kmem) option" where
  "sos_kmem_vmm_alloc nb flags s = do {
     (rng, _, s) \<leftarrow> sos_kmem_vmm_new_range nb flags s;
     Some (if rng = 0 then 0 else base_vaddr (range_at s rng), s) }"

end
