(* ===== verification/Kmem_setup.thy ===== *)
theory Kmem_setup
  imports Kmem
begin

text \<open>
  Creating and destroying slab caches, the setup of the two allocators out of nothing (\<^verbatim>\<open>os/kmem_slab.c\<close>,
  \<^verbatim>\<open>os/kmem_vmm.c\<close>), and \<open>kmalloc\<close> on top of them (\<^verbatim>\<open>os/kmalloc.c\<close>).
\<close>

section \<open>Caches\<close>

text \<open>No result is a division by zero, when rounding the size of an object up overflows.\<close>

definition cache_initialize ::
    "sos_vaddr_t \<Rightarrow> string \<Rightarrow> sos_size_t \<Rightarrow> sos_count_t \<Rightarrow> sos_count_t \<Rightarrow> u32 \<Rightarrow> kmem \<Rightarrow> (sos_ret_t \<times> kmem) option" where
  "cache_initialize the_cache name obj_size pages_per_slab min_free_objs flags s = (
     if obj_size = 0 then Some (- SOS_EINVAL, s)
     else
       let size = (if obj_size < sizeof_free_object then sizeof_free_object else obj_size);
           size = SOS_ALIGN_SUP size 4
       in if size > pages_per_slab * SOS_PAGE_SIZE then Some (- SOS_EINVAL, s)
       else if pages_per_slab > MAX_PAGES_PER_SLAB then Some (- SOS_ENOMEM, s)
       else
         let flags = (if size \<le> sizeof_kslab then flags OR ON_SLAB else flags);
             space_left = pages_per_slab * SOS_PAGE_SIZE - (if flags AND ON_SLAB \<noteq> 0 then sizeof_kslab else 0)
         in if size = 0 then None
         else
           let nb_objects = space_left div size;
               space_left = space_left - nb_objects * size;
               c = \<lparr>cache_name = name, original_obj_size = obj_size, alloc_obj_size = size,
                    nb_objects_per_slab = nb_objects, nb_pages_per_slab = pages_per_slab,
                    min_free_objects = min_free_objs, cache_flags = flags, nb_free_objects = 0, slab_list = []\<rparr>
           in if nb_objects < min_free_objs then Some (- SOS_EINVAL, upd_cache the_cache (\<lambda>_. c) s)
           else
             let c = (if space_left \<ge> sizeof_kslab then c\<lparr>cache_flags := flags OR ON_SLAB\<rparr> else c)
             in Some (SOS_OK, upd_cache the_cache (\<lambda>_. c) s))"

fun release_slabs :: "nat \<Rightarrow> sos_vaddr_t \<Rightarrow> kmem \<Rightarrow> kmem option" where
  "release_slabs 0 kslab_cache s = (if slab_list (cache_at s kslab_cache) = [] then Some s else None)"
| "release_slabs (Suc n) kslab_cache s =
     (case slab_list (cache_at s kslab_cache) of
        [] \<Rightarrow> Some s
      | slab # _ \<Rightarrow> do {
          (_, s) \<leftarrow> cache_release_slab sos_kmem_cache_free sos_kmem_vmm_del_range slab True s;
          release_slabs n kslab_cache s })"

text \<open>The loop over the slabs is given as many rounds as there are slabs: each one removes the slab it releases.\<close>

definition sos_kmem_cache_destroy :: "sos_vaddr_t \<Rightarrow> kmem \<Rightarrow> (sos_ret_t \<times> kmem) option" where
  "sos_kmem_cache_destroy kslab_cache s = (
     let c = cache_at s kslab_cache
     in if kslab_cache = 0 then Some (- SOS_EINVAL, s)
     else if \<exists>slab \<in> set (slab_list c). nb_free (slab_at s slab) \<noteq> nb_objects_per_slab c then Some (- SOS_EBUSY, s)
     else do {
       s \<leftarrow> release_slabs (length (slab_list c)) kslab_cache s;
       sos_kmem_cache_free kslab_cache s })"

definition sos_kmem_cache_create ::
    "string \<Rightarrow> sos_size_t \<Rightarrow> sos_count_t \<Rightarrow> sos_count_t \<Rightarrow> u32 \<Rightarrow> kmem \<Rightarrow> (sos_vaddr_t \<times> kmem) option" where
  "sos_kmem_cache_create name obj_size pages_per_slab min_free_objs flags s = do {
     (new_cache, s) \<leftarrow> sos_kmem_cache_alloc (cache_of_struct_kslab_cache s) 0 s;
     if new_cache = 0 then Some (0, s)
     else do {
       (r, s) \<leftarrow> cache_initialize new_cache name obj_size pages_per_slab min_free_objs flags s;
       if r \<noteq> SOS_OK
       then do {
         (_, s) \<leftarrow> sos_kmem_cache_free new_cache s;
         Some (0, s) }
       else do {
         let s = s\<lparr>kslab_cache_list := add_tail new_cache (kslab_cache_list s)\<rparr>;
         if min_free_objs \<noteq> 0
         then do {
           (r, s) \<leftarrow> cache_grow new_cache 0 s;
           if r \<noteq> SOS_OK
           then do {
             (_, s) \<leftarrow> sos_kmem_cache_destroy new_cache s;
             Some (0, s) }
           else Some (new_cache, s) }
         else Some (new_cache, s) } } }"

section \<open>The first caches\<close>

text \<open>
  The cache of caches starts on the stack, at the address \<open>fake\<close>, and moves into its own first object. The page
  of the first slab is already mapped. 0 is a null result.
\<close>

definition create_cache_of_caches :: "sos_vaddr_t \<Rightarrow> sos_vaddr_t \<Rightarrow> u32 \<Rightarrow> kmem \<Rightarrow> (sos_vaddr_t \<times> kmem) option" where
  "create_cache_of_caches fake vaddr_first_slab_of_caches nb s = do {
     (r, s) \<leftarrow> cache_initialize fake ''Caches'' sizeof_kslab_cache nb 0 (SOS_KSLAB_CREATE_MAP OR ON_SLAB) s;
     if r \<noteq> SOS_OK then Some (0, s)
     else do {
       let slab_of_caches = vaddr_first_slab_of_caches + nb * SOS_PAGE_SIZE - sizeof_kslab;
       let s = cache_add_slab fake vaddr_first_slab_of_caches slab_of_caches s;
       (real_cache_of_caches, s) \<leftarrow> sos_kmem_cache_alloc fake 0 s;
       sos_assert_fatal (real_cache_of_caches \<noteq> 0);
       let s = upd_cache real_cache_of_caches (\<lambda>_. cache_at s fake) s;
       let s = upd_slab slab_of_caches (\<lambda>k. k\<lparr>slab_cache := real_cache_of_caches\<rparr>) s;
       Some (real_cache_of_caches, s\<lparr>kslab_cache_list := add_tail real_cache_of_caches (kslab_cache_list s)\<rparr>) } }"

definition create_cache_of_ranges :: "sos_vaddr_t \<Rightarrow> u32 \<Rightarrow> u32 \<Rightarrow> kmem \<Rightarrow> (sos_vaddr_t \<times> kmem) option" where
  "create_cache_of_ranges vaddr_first_slab_of_ranges sizeof_struct_range nb s = do {
     (cache_of_ranges, s) \<leftarrow> sos_kmem_cache_alloc (cache_of_struct_kslab_cache s) 0 s;
     if cache_of_ranges = 0 then Some (0, s)
     else do {
       (r, s) \<leftarrow> cache_initialize cache_of_ranges ''struct kmem_range'' sizeof_struct_range nb 2 (SOS_KSLAB_CREATE_MAP OR ON_SLAB) s;
       if r \<noteq> SOS_OK then Some (0, s)
       else
         let s = s\<lparr>kslab_cache_list := add_tail cache_of_ranges (kslab_cache_list s)\<rparr>;
             slab_of_ranges = vaddr_first_slab_of_ranges + nb * SOS_PAGE_SIZE - sizeof_kslab
         in Some (cache_of_ranges, cache_add_slab cache_of_ranges vaddr_first_slab_of_ranges slab_of_ranges s) } }"

text \<open>Mapping a fresh page at each page of a first slab.\<close>

definition map_first_slab :: "sos_vaddr_t \<Rightarrow> u32 \<Rightarrow> kmem \<Rightarrow> kmem option" where
  "map_first_slab vaddr nb = fold_opt (\<lambda>i s. do {
     (ppage_paddr, m) \<leftarrow> sos_physmem_ref_physpage_new False (phys (pg s));
     sos_assert_fatal (ppage_paddr \<noteq> 0);
     (r, g) \<leftarrow> sos_paging_map ppage_paddr (vaddr + word_of_nat i * SOS_PAGE_SIZE) False
       (SOS_VM_MAP_ATOMIC OR SOS_VM_MAP_PROT_READ OR SOS_VM_MAP_PROT_WRITE) ((pg s)\<lparr>phys := m\<rparr>);
     sos_assert_fatal (r = SOS_OK);
     (r, m) \<leftarrow> sos_physmem_unref_physpage ppage_paddr (phys g);
     sos_assert_fatal (r = FALSE_ret);
     Some (s\<lparr>pg := g\<lparr>phys := m\<rparr>\<rparr>) }) [0..<unat nb]"

text \<open>The results are the cache of ranges, then for the slab of caches and for the slab of ranges the slab and its base.\<close>

definition sos_kmem_cache_subsystem_setup_prepare ::
    "sos_vaddr_t \<Rightarrow> sos_vaddr_t \<Rightarrow> u32 \<Rightarrow> kmem \<Rightarrow>
     (sos_vaddr_t \<times> (sos_vaddr_t \<times> sos_vaddr_t) \<times> (sos_vaddr_t \<times> sos_vaddr_t) \<times> kmem) option" where
  "sos_kmem_cache_subsystem_setup_prepare fake kernel_core_top sizeof_struct_range s = do {
     let s = s\<lparr>kslab_cache_list := [], cache_of_struct_kslab := 0, cache_of_struct_kslab_cache := 0\<rparr>;
     let first_slab_of_caches_base = SOS_PAGE_ALIGN_SUP kernel_core_top;
     s \<leftarrow> map_first_slab first_slab_of_caches_base NB_PAGES_IN_SLAB_OF_CACHES s;
     (cc, s) \<leftarrow> create_cache_of_caches fake first_slab_of_caches_base NB_PAGES_IN_SLAB_OF_CACHES s;
     let s = s\<lparr>cache_of_struct_kslab_cache := cc\<rparr>;
     sos_assert_fatal (cc \<noteq> 0);
     first_struct_slab_of_caches \<leftarrow> map_option fst (pop_head (slab_list (cache_at s cc)));
     let first_slab_of_ranges_base = first_slab_of_caches_base + NB_PAGES_IN_SLAB_OF_CACHES * SOS_PAGE_SIZE;
     s \<leftarrow> map_first_slab first_slab_of_ranges_base NB_PAGES_IN_SLAB_OF_RANGES s;
     (cache_of_ranges, s) \<leftarrow> create_cache_of_ranges first_slab_of_ranges_base sizeof_struct_range NB_PAGES_IN_SLAB_OF_RANGES s;
     sos_assert_fatal (cache_of_ranges \<noteq> 0);
     first_struct_slab_of_ranges \<leftarrow> map_option fst (pop_head (slab_list (cache_at s cache_of_ranges)));
     (ck, s) \<leftarrow> sos_kmem_cache_create ''off-slab slab structures'' sizeof_kslab 1 0 SOS_KSLAB_CREATE_MAP s;
     let s = s\<lparr>cache_of_struct_kslab := ck\<rparr>;
     sos_assert_fatal (ck \<noteq> 0);
     Some (cache_of_ranges, (first_struct_slab_of_caches, first_slab_of_caches_base),
       (first_struct_slab_of_ranges, first_slab_of_ranges_base), s) }"

definition sos_kmem_cache_subsystem_setup_commit ::
    "sos_vaddr_t \<Rightarrow> sos_vaddr_t \<Rightarrow> sos_vaddr_t \<Rightarrow> sos_vaddr_t \<Rightarrow> kmem \<Rightarrow> sos_ret_t \<times> kmem" where
  "sos_kmem_cache_subsystem_setup_commit first_struct_slab_of_caches first_range_of_caches
       first_struct_slab_of_ranges first_range_of_ranges s =
     (SOS_OK,
      upd_slab first_struct_slab_of_ranges (\<lambda>k. k\<lparr>slab_range := first_range_of_ranges\<rparr>)
        (upd_slab first_struct_slab_of_caches (\<lambda>k. k\<lparr>slab_range := first_range_of_caches\<rparr>) s))"

section \<open>The first ranges\<close>

definition own_pages :: "sos_vaddr_t \<Rightarrow> sos_vaddr_t \<Rightarrow> sos_vaddr_t \<Rightarrow> kmem \<Rightarrow> kmem option" where
  "own_pages rng base top_vaddr = fold_opt (\<lambda>i s. do {
     p \<leftarrow> sos_paging_get_paddr (base + word_of_nat i * SOS_PAGE_SIZE) (pg s);
     sos_assert_fatal (p \<noteq> 0);
     Some (set_mem (snd (sos_physmem_set_kmem_range p (Some rng) (phys (pg s)))) s) }) 
     [0..<if base < top_vaddr then unat ((top_vaddr - base) div SOS_PAGE_SIZE) else 0]"

definition create_range ::
    "bool \<Rightarrow> sos_vaddr_t \<Rightarrow> sos_vaddr_t \<Rightarrow> sos_vaddr_t \<Rightarrow> kmem \<Rightarrow> (sos_vaddr_t \<times> kmem) option" where
  "create_range is_free base top_vaddr associated_slab s = do {
     sos_assert_fatal (SOS_IS_PAGE_ALIGNED base);
     sos_assert_fatal (SOS_IS_PAGE_ALIGNED top_vaddr);
     if top_vaddr - base < SOS_PAGE_SIZE then Some (0, s)
     else do {
       (rng, s) \<leftarrow> sos_kmem_cache_alloc (kmem_range_cache s) SOS_KSLAB_ALLOC_ATOMIC s;
       sos_assert_fatal (rng \<noteq> 0);
       let s = upd_range rng (\<lambda>r. r\<lparr>base_vaddr := base, nb_pages := (top_vaddr - base) div SOS_PAGE_SIZE\<rparr>) s;
       if is_free then Some (rng, s\<lparr>free_ranges := add_tail rng (free_ranges s)\<rparr>)
       else do {
         let s = upd_range rng (\<lambda>r. r\<lparr>range_slab := associated_slab\<rparr>) s;
         s \<leftarrow> own_pages rng base top_vaddr (s\<lparr>used_ranges := add_tail rng (used_ranges s)\<rparr>);
         Some (rng, s) } } }"

definition sos_kmem_vmm_subsystem_setup ::
    "sos_vaddr_t \<Rightarrow> sos_vaddr_t \<Rightarrow> sos_vaddr_t \<Rightarrow> sos_vaddr_t \<Rightarrow> sos_vaddr_t \<Rightarrow> kmem \<Rightarrow> (sos_ret_t \<times> kmem) option" where
  "sos_kmem_vmm_subsystem_setup fake kernel_core_base kernel_core_top stack_bottom stack_top s = do {
     (rc, (slab_c, base_c), (slab_r, base_r), s) \<leftarrow>
       sos_kmem_cache_subsystem_setup_prepare fake kernel_core_top sizeof_struct_sos_kmem_range (s\<lparr>free_ranges := [], used_ranges := []\<rparr>);
     let s = s\<lparr>kmem_range_cache := rc\<rparr>;
     sos_assert_fatal (rc \<noteq> 0);
     (_, s) \<leftarrow> create_range True SOS_KMEM_VMM_BASE (SOS_PAGE_ALIGN_INF BIOS_N_VIDEO_START) 0 s;
     (_, s) \<leftarrow> create_range False (SOS_PAGE_ALIGN_INF BIOS_N_VIDEO_START) (SOS_PAGE_ALIGN_SUP BIOS_N_VIDEO_END) 0 s;
     (_, s) \<leftarrow> create_range True (SOS_PAGE_ALIGN_SUP BIOS_N_VIDEO_END) (SOS_PAGE_ALIGN_INF kernel_core_base) 0 s;
     (_, s) \<leftarrow> create_range False (SOS_PAGE_ALIGN_INF kernel_core_base) stack_bottom 0 s;
     (_, s) \<leftarrow> create_range False stack_bottom stack_top 0 s;
     (_, s) \<leftarrow> create_range False stack_top (SOS_PAGE_ALIGN_SUP kernel_core_top) 0 s;
     sos_assert_fatal (SOS_PAGE_ALIGN_SUP kernel_core_top = base_c);
     sos_assert_fatal (slab_c \<noteq> 0);
     (range_c, s) \<leftarrow> create_range False base_c (base_c + NB_PAGES_IN_SLAB_OF_CACHES * SOS_PAGE_SIZE) slab_c s;
     sos_assert_fatal (base_c + NB_PAGES_IN_SLAB_OF_CACHES * SOS_PAGE_SIZE = base_r);
     sos_assert_fatal (slab_r \<noteq> 0);
     (range_r, s) \<leftarrow> create_range False base_r (base_r + NB_PAGES_IN_SLAB_OF_RANGES * SOS_PAGE_SIZE) slab_r s;
     (_, s) \<leftarrow> create_range True (base_r + NB_PAGES_IN_SLAB_OF_RANGES * SOS_PAGE_SIZE) SOS_KMEM_VMM_TOP 0 s;
     let (_, s) = sos_kmem_cache_subsystem_setup_commit slab_c range_c slab_r range_r s;
     Some (SOS_OK, s) }"

section \<open>kmalloc\<close>

definition SOS_KMALLOC_ATOMIC :: u32 where "SOS_KMALLOC_ATOMIC = 1"

record kmalloc_entry =
  km_name :: string
  object_size :: sos_size_t
  pages_per_slab :: sos_count_t
  km_cache :: sos_vaddr_t

definition kmalloc_table :: "kmalloc_entry list" where
  "kmalloc_table = map (\<lambda>(n, sz, p). \<lparr>km_name = n, object_size = sz, pages_per_slab = p, km_cache = 0\<rparr>)
     [(''kmalloc 8B objects'', 8, 1), (''kmalloc 16B objects'', 16, 1), (''kmalloc 32B objects'', 32, 1),
      (''kmalloc 64B objects'', 64, 1), (''kmalloc 128B objects'', 128, 1), (''kmalloc 256B objects'', 256, 2),
      (''kmalloc 1024B objects'', 1024, 2), (''kmalloc 2048B objects'', 2048, 3), (''kmalloc 4096B objects'', 4096, 4),
      (''kmalloc 8192B objects'', 8192, 8), (''kmalloc 16384B objects'', 16384, 12)]"

fun kmalloc_setup_loop :: "kmalloc_entry list \<Rightarrow> kmem \<Rightarrow> (kmalloc_entry list \<times> kmem) option" where
  "kmalloc_setup_loop [] s = Some ([], s)"
| "kmalloc_setup_loop (e # es) s = do {
     (new_cache, s) \<leftarrow> sos_kmem_cache_create (km_name e) (object_size e) (pages_per_slab e) 0 SOS_KSLAB_CREATE_MAP s;
     sos_assert_fatal (new_cache \<noteq> 0);
     (es, s) \<leftarrow> kmalloc_setup_loop es s;
     Some (e\<lparr>km_cache := new_cache\<rparr> # es, s) }"

definition sos_kmalloc_subsystem_setup :: "kmem \<Rightarrow> (sos_ret_t \<times> kmalloc_entry list \<times> kmem) option" where
  "sos_kmalloc_subsystem_setup s = do {
     (t, s) \<leftarrow> kmalloc_setup_loop kmalloc_table s;
     Some (SOS_OK, t, s) }"

definition sos_kmalloc :: "kmalloc_entry list \<Rightarrow> sos_size_t \<Rightarrow> u32 \<Rightarrow> kmem \<Rightarrow> (sos_vaddr_t \<times> kmem) option" where
  "sos_kmalloc kmalloc_cache sz flags s =
     (case find (\<lambda>e. object_size e \<ge> sz) kmalloc_cache of
        Some e \<Rightarrow> sos_kmem_cache_alloc (km_cache e) (if flags AND SOS_KMALLOC_ATOMIC \<noteq> 0 then SOS_KSLAB_ALLOC_ATOMIC else 0) s
      | None \<Rightarrow> sos_kmem_vmm_alloc (SOS_PAGE_ALIGN_SUP sz div SOS_PAGE_SIZE)
          ((if flags AND SOS_KMALLOC_ATOMIC \<noteq> 0 then SOS_KMEM_VMM_ATOMIC else 0) OR SOS_KMEM_VMM_MAP) s)"

definition sos_kfree :: "sos_vaddr_t \<Rightarrow> kmem \<Rightarrow> (sos_ret_t \<times> kmem) option" where
  "sos_kfree vaddr s = do {
     (r, s) \<leftarrow> sos_kmem_cache_free vaddr s;
     if r = SOS_OK then Some (SOS_OK, s) else sos_kmem_vmm_free vaddr s }"

end
