(* ===== verification/Kmem_layout.thy ===== *)
theory Kmem_layout
  imports Kmem_setup Paging_props
begin

text \<open>
  Lemmas on the kernel memory allocators of \<^verbatim>\<open>Kmem\<close>: the layout of the objects in a slab, the invariant of the two lists
  of ranges with insertion and lookup, taking an object without growing the cache, and carving a new range.
\<close>

section \<open>The layout of a slab\<close>

definition rounded :: "u32 \<Rightarrow> u32" where
  "rounded sz = SOS_ALIGN_SUP (if sz < sizeof_free_object then sizeof_free_object else sz) 4"

lemma unat_rounded:
  assumes "unat sz \<le> 2 ^ 32 - 4"
  shows "unat (rounded sz) = (max 8 (unat sz) + 3) div 4 * 4"
proof -
  let ?x = "if sz < sizeof_free_object then sizeof_free_object else sz"
  have x: "unat ?x = max 8 (unat sz)" by (auto simp: sizeof_free_object_def word_less_nat_alt)
  have "unat (SOS_ALIGN_SUP ?x (2 ^ 2)) = (unat ?x + 2 ^ 2 - 1) div 2 ^ 2 * 2 ^ 2"
    by (rule unat_align_sup) (use assms x in simp_all)
  then show ?thesis unfolding rounded_def x by simp
qed

lemma rounded_overflow: "unat sz > 2 ^ 32 - 4 \<Longrightarrow> rounded sz = 0"
proof -
  assume a: "unat sz > 2 ^ 32 - 4"
  have l: "unat sz < 2 ^ 32" using unsigned_less [of sz, where 'a = nat] by simp
  have n: "\<not> sz < sizeof_free_object" using a by (simp add: word_less_nat_alt sizeof_free_object_def)
  have nz: "sz \<noteq> 0" using a by auto
  have "unat (sz - 1) = unat sz - 1" using nz by (simp add: unat_minus_one)
  then have "unat (SOS_ALIGN_INF (sz - 1) (2 ^ 2)) = (unat sz - 1) div 4 * 4" using unat_align_inf [of "sz - 1" 2] by simp
  moreover have "(unat sz - 1) div 4 = 1073741823" using a l by (simp add: div_nat_eqI)
  ultimately have "unat (SOS_ALIGN_INF (sz - 1) (2 ^ 2)) = unat (- 4 :: u32)" by simp
  then have "SOS_ALIGN_INF (sz - 1) (2 ^ 2) = (- 4 :: u32)" by (simp add: word_unat_eq_iff)
  then have "SOS_ALIGN_SUP sz (2 ^ 2) = 0" using align_sup_pos [OF nz, of 2] by simp
  then show ?thesis using n by (simp add: rounded_def)
qed

text \<open>What a successful initialisation has written.\<close>

definition slab_struct_space :: "kslab_cache \<Rightarrow> nat" where
  "slab_struct_space c = (if cache_flags c AND ON_SLAB \<noteq> 0 then unat sizeof_kslab else 0)"

lemma on_slab_or: "(f OR ON_SLAB) AND ON_SLAB \<noteq> 0"
proof -
  have "bit ((f OR ON_SLAB) AND ON_SLAB) 31" by (simp add: ON_SLAB_def bit_simps)
  then show ?thesis by auto
qed

lemma cache_initialize_cases:
  assumes "unat sz \<le> 2 ^ 32 - 4"
  obtains (bad) r s' where "cache_initialize a name sz pages mn flags s = Some (r, s')" "r = - SOS_EINVAL \<or> r = - SOS_ENOMEM"
  | (ok) c where "cache_initialize a name sz pages mn flags s = Some (SOS_OK, upd_cache a (\<lambda>_. c) s)"
      "alloc_obj_size c = rounded sz" "original_obj_size c = sz" "nb_pages_per_slab c = pages" "unat pages \<le> 32" "sz \<noteq> 0"
      "nb_free_objects c = 0" "slab_list c = []" "min_free_objects c = mn" "mn \<le> nb_objects_per_slab c"
      "unat (nb_objects_per_slab c) * unat (rounded sz) + slab_struct_space c \<le> unat pages * 4096"
proof -
  have rz: "unat (rounded sz) \<noteq> 0" using unat_rounded [OF assms] by simp
  then have nz: "rounded sz \<noteq> 0" by auto
  show thesis
  proof (cases "sz = 0 \<or> rounded sz > pages * SOS_PAGE_SIZE \<or> pages > MAX_PAGES_PER_SLAB")
    case True
    have "\<exists>r. cache_initialize a name sz pages mn flags s = Some (r, s) \<and> (r = - SOS_EINVAL \<or> r = - SOS_ENOMEM)"
      using True by (auto simp: cache_initialize_def Let_def rounded_def [symmetric])
    then show thesis using bad by blast
  next
    case False
    then have p: "unat pages \<le> 32" "sz \<noteq> 0" "rounded sz \<le> pages * SOS_PAGE_SIZE"
      by (auto simp: MAX_PAGES_PER_SLAB_def word_less_nat_alt word_le_nat_alt)
    have pp: "unat (pages * SOS_PAGE_SIZE) = unat pages * 4096"
      using p(1) by (simp add: unat_word_ariths SOS_PAGE_SIZE_def)
    have p1: "1 \<le> unat pages"
    proof (rule ccontr)
      assume "\<not> 1 \<le> unat pages"
      then have "unat (pages * SOS_PAGE_SIZE) = 0" using pp by simp
      then show False using p(3) rz by (simp add: word_le_nat_alt)
    qed
    define fl where "fl = (if rounded sz \<le> sizeof_kslab then flags OR ON_SLAB else flags)"
    define sp where "sp = pages * SOS_PAGE_SIZE - (if fl AND ON_SLAB \<noteq> 0 then sizeof_kslab else 0)"
    define nb where "nb = sp div rounded sz"
    have le: "(if fl AND ON_SLAB \<noteq> 0 then sizeof_kslab else 0) \<le> pages * SOS_PAGE_SIZE"
      using pp p1 by (simp add: sizeof_kslab_def word_le_nat_alt)
    have usp: "unat sp + (if fl AND ON_SLAB \<noteq> 0 then 28 else 0) = unat pages * 4096"
      using unat_sub [OF le] le pp by (simp add: sp_def sizeof_kslab_def word_le_nat_alt split: if_splits)
    have unb: "unat nb * unat (rounded sz) \<le> unat sp" by (simp add: nb_def unat_div)
    have unm: "unat (nb * rounded sz) = unat nb * unat (rounded sz)"
    proof -
      have "unat sp < 2 ^ 32" using unsigned_less [of sp, where 'a = nat] by simp
      then show ?thesis using unb by (simp add: unat_word_ariths)
    qed
    have left: "unat (sp - nb * rounded sz) = unat sp - unat nb * unat (rounded sz)"
      using unat_sub [of "nb * rounded sz" sp] unb unm by (simp add: word_le_nat_alt)
    define c where "c = \<lparr>cache_name = name, original_obj_size = sz, alloc_obj_size = rounded sz,
      nb_objects_per_slab = nb, nb_pages_per_slab = pages, min_free_objects = mn,
      cache_flags = (if sp - nb * rounded sz \<ge> sizeof_kslab then fl OR ON_SLAB else fl), nb_free_objects = 0, slab_list = []\<rparr>"
    have run: "cache_initialize a name sz pages mn flags s =
        (if nb < mn then Some (- SOS_EINVAL, upd_cache a (\<lambda>_. c\<lparr>cache_flags := fl\<rparr>) s) else Some (SOS_OK, upd_cache a (\<lambda>_. c) s))"
      using False nz by (simp add: cache_initialize_def Let_def rounded_def [symmetric] fl_def [symmetric] sp_def [symmetric] nb_def [symmetric] c_def)
    show thesis
    proof (cases "nb < mn")
      case True
      then show thesis using run by (intro bad [OF _ disjI1 [OF refl]]) simp
    next
      case nm: False
      have "unat nb * unat (rounded sz) + slab_struct_space c \<le> unat pages * 4096"
      proof (cases "sp - nb * rounded sz \<ge> sizeof_kslab")
        case True
        then have "28 \<le> unat sp - unat nb * unat (rounded sz)" using left by (simp add: word_le_nat_alt sizeof_kslab_def)
        then show ?thesis using usp unb True on_slab_or [of fl] by (simp add: slab_struct_space_def c_def sizeof_kslab_def)
      next
        case False
        then show ?thesis using usp unb by (auto simp: slab_struct_space_def c_def sizeof_kslab_def split: if_splits)
      qed
      then show thesis using run nm p by (intro ok [of c]) (simp_all add: c_def)
    qed
  qed
qed

lemma cache_initialize_overflow:
  "unat sz > 2 ^ 32 - 4 \<Longrightarrow> unat pages \<le> 32 \<Longrightarrow> cache_initialize a name sz pages mn flags s = None"
proof -
  assume a: "unat sz > 2 ^ 32 - 4" "unat pages \<le> 32"
  have "rounded sz = 0" by (rule rounded_overflow [OF a(1)])
  moreover have "sz \<noteq> 0" "\<not> pages > MAX_PAGES_PER_SLAB" using a by (auto simp: MAX_PAGES_PER_SLAB_def word_less_nat_alt)
  ultimately show ?thesis by (simp add: cache_initialize_def Let_def rounded_def [symmetric])
qed

text \<open>The objects of a new slab.\<close>

lemma slab_objects:
  assumes b: "unat base + unat pages * 4096 \<le> 2 ^ 32" and fit: "n * unat sz \<le> unat pages * 4096" and i: "i < n" and z: "unat sz \<noteq> 0"
  shows "unat (base + word_of_nat i * sz :: u32) = unat base + i * unat sz"
proof -
  have "i * unat sz < n * unat sz" using i z by simp
  then have l: "unat base + i * unat sz < 2 ^ 32" using b fit by linarith
  have "i \<le> i * unat sz" using z by simp
  then have "unat (word_of_nat i :: u32) = i" using l by (intro unat_of_nat_small) linarith
  then have "unat (word_of_nat i * sz) = i * unat sz" using l by (simp add: unat_word_ariths)
  then show ?thesis using l by (simp add: unat_add_small)
qed

text \<open>
  C19: Initialising a slab cache never yields a cache whose slabs overflow: for every object size up to 2^32 - 4 the call
  returns, and when it succeeds, every slab that is then added at a page-aligned range of the right
  length has all its objects free, as many as the cache counts, each large enough for the size asked, aligned on
  4 bytes, inside the pages of the range and clear of the slab structure when that is kept at the
  end of the range; no two objects overlap. For larger sizes the rounding overflows and the code divides by zero.
\<close>

theorem slab_objects_laid_out:
  assumes base: "unat base mod 4096 = 0" "unat base + unat pages * 4096 \<le> 2 ^ 32"
  shows "(unat sz > 2 ^ 32 - 4 \<and> unat pages \<le> 32 \<longrightarrow> cache_initialize a name sz pages mn flags s = None) \<and>
    (unat sz \<le> 2 ^ 32 - 4 \<longrightarrow>
     (\<exists>r s1. cache_initialize a name sz pages mn flags s = Some (r, s1) \<and>
       (r = SOS_OK \<or> r = - SOS_EINVAL \<or> r = - SOS_ENOMEM) \<and>
       (r = SOS_OK \<longrightarrow>
         (let c = cache_at s1 a; z = unat (alloc_obj_size c);
              k = slab_at (cache_add_slab a base slab s1) slab; os = free_objs k
          in unat sz \<le> z \<and> z mod 4 = 0 \<and> length os = unat (nb_free k) \<and> nb_free k = nb_objects_per_slab c \<and>
             (\<forall>ob \<in> set os. base \<le> ob \<and> unat ob mod 4 = 0 \<and>
                unat ob + z + slab_struct_space c \<le> unat base + unat pages * 4096) \<and>
             (\<forall>i j. i < j \<longrightarrow> j < length os \<longrightarrow> unat (os ! i) + z \<le> unat (os ! j))))))"
proof (intro conjI impI)
  assume "unat sz > 2 ^ 32 - 4 \<and> unat pages \<le> 32"
  then show "cache_initialize a name sz pages mn flags s = None" using cache_initialize_overflow by blast
next
  assume sz: "unat sz \<le> 2 ^ 32 - 4"
  show "\<exists>r s1. cache_initialize a name sz pages mn flags s = Some (r, s1) \<and> (r = SOS_OK \<or> r = - SOS_EINVAL \<or> r = - SOS_ENOMEM) \<and>
       (r = SOS_OK \<longrightarrow>
         (let c = cache_at s1 a; z = unat (alloc_obj_size c);
              k = slab_at (cache_add_slab a base slab s1) slab; os = free_objs k
          in unat sz \<le> z \<and> z mod 4 = 0 \<and> length os = unat (nb_free k) \<and> nb_free k = nb_objects_per_slab c \<and>
             (\<forall>ob \<in> set os. base \<le> ob \<and> unat ob mod 4 = 0 \<and>
                unat ob + z + slab_struct_space c \<le> unat base + unat pages * 4096) \<and>
             (\<forall>i j. i < j \<longrightarrow> j < length os \<longrightarrow> unat (os ! i) + z \<le> unat (os ! j))))"
  proof (rule cache_initialize_cases [OF sz, of a name pages mn flags s])
    fix r s'
    assume "cache_initialize a name sz pages mn flags s = Some (r, s')" "r = - SOS_EINVAL \<or> r = - SOS_ENOMEM"
    then show ?thesis by (auto simp: errno_defs)
  next
    fix c
    assume run: "cache_initialize a name sz pages mn flags s = Some (SOS_OK, upd_cache a (\<lambda>_. c) s)"
      and c: "alloc_obj_size c = rounded sz"
        "unat (nb_objects_per_slab c) * unat (rounded sz) + slab_struct_space c \<le> unat pages * 4096"
    let ?z = "unat (rounded sz)" and ?n = "unat (nb_objects_per_slab c)"
    define obj where "obj i = base + word_of_nat i * rounded sz" for i
    have z: "unat sz \<le> ?z" "?z mod 4 = 0" "?z \<noteq> 0" using unat_rounded [OF sz] by simp_all
    have ob: "unat (obj i) = unat base + i * ?z" if "i < ?n" for i
      unfolding obj_def by (rule slab_objects [OF base(2) _ that z(3)]) (use c(2) in simp)
    have inside: "base \<le> obj i \<and> unat (obj i) mod 4 = 0 \<and> unat (obj i) + ?z + slab_struct_space c \<le> unat base + unat pages * 4096"
      if "i < ?n" for i
    proof -
      have "(i + 1) * ?z \<le> ?n * ?z" using that by (intro mult_le_mono1) simp
      moreover have "unat base mod 4 = 0" using base(1) mod_mod_cancel [of 4 4096 "unat base"] by simp
      ultimately show ?thesis using ob [OF that] c(2) z(2) by (auto simp: word_le_nat_alt mod_add_eq [symmetric] mod_mult_right_eq [symmetric])
    qed
    have apart: "unat (obj i) + ?z \<le> unat (obj j)" if "i < j" "j < ?n" for i j
    proof -
      have "(i + 1) * ?z \<le> j * ?z" using that by (intro mult_le_mono1) simp
      then show ?thesis using ob that by simp
    qed
    show ?thesis
      by (intro exI [of _ SOS_OK] exI [of _ "upd_cache a (\<lambda>_. c) s"])
        (use run z inside apart in \<open>auto simp: Let_def cache_add_slab_def upd_cache_def upd_slab_def c(1) obj_def [symmetric]\<close>)
  qed
qed

theorem slab_objects_laid_out_witness:
  "\<forall>s. cache_initialize 0x1000 ''c'' 0xffffffff 1 0 0 s = None \<and> (\<exists>r s1. cache_initialize 0x1000 ''c'' 20 1 2 0 s = Some (r, s1))"
proof
  fix s
  show "cache_initialize 0x1000 ''c'' 0xffffffff 1 0 0 s = None \<and> (\<exists>r s1. cache_initialize 0x1000 ''c'' 20 1 2 0 s = Some (r, s1))"
    using slab_objects_laid_out [of "0x5000" 1 "0xffffffff" "0x1000" "''c''" 0 0 s "0x5fe4"]
      slab_objects_laid_out [of "0x5000" 1 20 "0x1000" "''c''" 2 0 s "0x5fe4"] by auto
qed

section \<open>The layout of the ranges\<close>

definition r_start :: "(u32 \<Rightarrow> kmem_range) \<Rightarrow> u32 \<Rightarrow> nat" where
  "r_start m r = unat (base_vaddr (m r))"

definition r_end :: "(u32 \<Rightarrow> kmem_range) \<Rightarrow> u32 \<Rightarrow> nat" where
  "r_end m r = unat (base_vaddr (m r)) + unat (nb_pages (m r)) * 4096"

definition before :: "(u32 \<Rightarrow> kmem_range) \<Rightarrow> u32 \<Rightarrow> u32 \<Rightarrow> bool" where
  "before m a b \<longleftrightarrow> r_end m a \<le> r_start m b"

definition range_ok :: "(u32 \<Rightarrow> kmem_range) \<Rightarrow> u32 \<Rightarrow> bool" where
  "range_ok m r \<longleftrightarrow> r \<noteq> 0 \<and> r_start m r mod 4096 = 0 \<and> r_start m r < r_end m r \<and> r_end m r \<le> unat SOS_KMEM_VMM_TOP"

text \<open>Both lists are sorted and no two ranges of the two lists overlap.\<close>

definition ranges_wf :: "(u32 \<Rightarrow> kmem_range) \<Rightarrow> u32 list \<Rightarrow> u32 list \<Rightarrow> bool" where
  "ranges_wf m F U \<longleftrightarrow> (\<forall>r \<in> set F \<union> set U. range_ok m r) \<and> sorted_wrt (before m) F \<and> sorted_wrt (before m) U \<and>
     (\<forall>f \<in> set F. \<forall>u \<in> set U. before m f u \<or> before m u f)"

definition covers :: "(u32 \<Rightarrow> kmem_range) \<Rightarrow> u32 \<Rightarrow> u32 \<Rightarrow> bool" where
  "covers m r v \<longleftrightarrow> r_start m r \<le> unat v \<and> unat v < r_end m r"

lemma ranges_wfD:
  assumes "ranges_wf m F U"
  shows "r \<in> set F \<Longrightarrow> range_ok m r" "r \<in> set U \<Longrightarrow> range_ok m r" "sorted_wrt (before m) F" "sorted_wrt (before m) U"
    and "f \<in> set F \<Longrightarrow> u \<in> set U \<Longrightarrow> before m f u \<or> before m u f"
  using assms unfolding ranges_wf_def by blast+

lemma top_less: "unat SOS_KMEM_VMM_TOP < 2 ^ 32"
  by (simp add: SOS_KMEM_VMM_TOP_def mirror_vaddr)

lemma range_end_word:
  assumes "range_ok m r"
  shows "unat (base_vaddr (m r) + nb_pages (m r) * SOS_PAGE_SIZE) = r_end m r"
proof -
  have l: "unat (base_vaddr (m r)) + unat (nb_pages (m r)) * 4096 < 2 ^ 32"
    using assms top_less by (simp add: range_ok_def r_end_def)
  have "unat (nb_pages (m r) * SOS_PAGE_SIZE) = unat (nb_pages (m r)) * 4096"
    using l by (simp add: unat_word_ariths SOS_PAGE_SIZE_def)
  then show ?thesis using l by (simp add: unat_add_small r_end_def)
qed

lemma sorted_before_distinct:
  "sorted_wrt (before m) rs \<Longrightarrow> \<forall>r \<in> set rs. range_ok m r \<Longrightarrow> distinct rs"
proof (induction rs)
  case (Cons a rs)
  have "a \<notin> set rs"
  proof
    assume "a \<in> set rs"
    then have "r_end m a \<le> r_start m a" "r_start m a < r_end m a"
      using Cons.prems by (simp_all add: before_def range_ok_def)
    then show False by simp
  qed
  then show ?case using Cons by simp
qed simp

lemma closest_loop_eq:
  "closest_loop m d rs v =
     (if takeWhile (\<lambda>r. base_vaddr (m r) \<le> v) rs = [] then d else List.last (takeWhile (\<lambda>r. base_vaddr (m r) \<le> v) rs))"
  by (induction rs arbitrary: d) (auto simp: not_le)

lemma insert_after_last: "a \<notin> set xs \<Longrightarrow> insert_after a x (xs @ a # ys) = xs @ a # x # ys"
  by (induction xs) auto

lemma insert_range_eq:
  assumes "distinct rs" and "0 \<notin> set rs"
  shows "insert_range m rs a =
    takeWhile (\<lambda>r. base_vaddr (m r) \<le> base_vaddr (m a)) rs @ a # dropWhile (\<lambda>r. base_vaddr (m r) \<le> base_vaddr (m a)) rs"
proof -
  let ?t = "takeWhile (\<lambda>r. base_vaddr (m r) \<le> base_vaddr (m a)) rs" and ?d = "dropWhile (\<lambda>r. base_vaddr (m r) \<le> base_vaddr (m a)) rs"
  show ?thesis
  proof (cases "?t = []")
    case True
    then have "?d = rs" using takeWhile_dropWhile_id [of "\<lambda>r. base_vaddr (m r) \<le> base_vaddr (m a)" rs] by simp
    then show ?thesis using True by (simp add: insert_range_def get_closest_preceding_kmem_range_def closest_loop_eq add_head_def)
  next
    case False
    have r: "rs = butlast ?t @ List.last ?t # ?d" using append_butlast_last_id [OF False] takeWhile_dropWhile_id by (metis append_Cons append_Nil append_assoc)
    have l: "List.last ?t \<in> set rs" by (rule set_takeWhileD [THEN conjunct1, OF last_in_set [OF False]])
    then have "List.last ?t \<noteq> 0" using assms(2) by metis
    then have "insert_range m rs a = insert_after (List.last ?t) a rs"
      using False by (simp add: insert_range_def get_closest_preceding_kmem_range_def closest_loop_eq Let_def)
    also have "\<dots> = insert_after (List.last ?t) a (butlast ?t @ List.last ?t # ?d)" using r by simp
    also have "\<dots> = butlast ?t @ List.last ?t # a # ?d"
    proof (rule insert_after_last)
      have "distinct (butlast ?t @ List.last ?t # ?d)" using assms(1) r by simp
      then show "List.last ?t \<notin> set (butlast ?t)" by simp
    qed
    also have "\<dots> = ?t @ a # ?d" using append_butlast_last_id [OF False] by (metis append_Cons append_Nil append_assoc)
    finally show ?thesis .
  qed
qed

lemma insert_range_set:
  assumes "distinct rs" and "0 \<notin> set rs"
  shows "set (insert_range m rs a) = insert a (set rs)"
proof -
  let ?P = "\<lambda>r. base_vaddr (m r) \<le> base_vaddr (m a)"
  have "set rs = set (takeWhile ?P rs) \<union> set (dropWhile ?P rs)"
    by (subst set_append [symmetric]) simp
  then show ?thesis unfolding insert_range_eq [OF assms] by simp
qed

lemma insert_range_sorted:
  assumes s: "sorted_wrt (before m) rs" and ok: "\<forall>r \<in> set rs. range_ok m r" "range_ok m a"
    and a: "\<forall>r \<in> set rs. before m r a \<or> before m a r"
  shows "sorted_wrt (before m) (insert_range m rs a)"
proof -
  let ?P = "\<lambda>r. base_vaddr (m r) \<le> base_vaddr (m a)"
  have z: "0 \<notin> set rs" using ok(1) by (auto simp: range_ok_def)
  have split: "sorted_wrt (before m) (takeWhile ?P rs @ dropWhile ?P rs)" using s by simp
  have t: "before m r a" if "r \<in> set (takeWhile ?P rs)" for r
    using set_takeWhileD [OF that] a ok by (auto simp: before_def range_ok_def r_start_def word_le_nat_alt)
  have d: "before m a r" if dr: "r \<in> set (dropWhile ?P rs)" for r
  proof -
    have r: "r \<in> set rs" by (rule set_dropWhileD [OF dr])
    obtain h hs where h: "dropWhile ?P rs = h # hs" using dr by (meson list.set_cases)
    have hr: "h \<in> set rs" by (rule set_dropWhileD [of h ?P rs]) (simp only: h list.set_intros)
    have nh: "\<not> ?P h" using h by (simp add: dropWhile_eq_Cons_conv)
    have "r = h \<or> before m h r" using dr split unfolding h by (auto simp: sorted_wrt_append)
    then have "r_start m h \<le> r_start m r" using ok(1) hr by (auto simp: before_def range_ok_def)
    then have "\<not> ?P r" using nh by (simp add: word_le_nat_alt r_start_def)
    moreover have "before m r a \<or> before m a r" using a r by simp
    ultimately show ?thesis using ok r by (auto simp: before_def range_ok_def r_start_def word_le_nat_alt)
  qed
  have "\<forall>x \<in> set (takeWhile ?P rs). \<forall>y \<in> set (dropWhile ?P rs). before m x y"
    using split unfolding sorted_wrt_append by blast
  moreover have "sorted_wrt (before m) (takeWhile ?P rs)" "sorted_wrt (before m) (dropWhile ?P rs)"
    using split unfolding sorted_wrt_append by blast+
  ultimately show ?thesis
    using t d by (simp add: insert_range_eq [OF sorted_before_distinct [OF s ok(1)] z] sorted_wrt_append)
qed

text \<open>The lookup of an address in the used list.\<close>

lemma closest_covers:
  assumes s: "sorted_wrt (before m) rs" and ok: "\<forall>r \<in> set rs. range_ok m r" and r: "r \<in> set rs" "covers m r v"
  shows "get_closest_preceding_kmem_range m rs v = r"
proof -
  let ?P = "\<lambda>x. base_vaddr (m x) \<le> v"
  obtain xs ys where rs: "rs = xs @ r # ys" using r(1) by (meson split_list)
  have b: "before m x r" if "x \<in> set xs" for x using s that unfolding rs by (simp add: sorted_wrt_append)
  have x: "?P x" if "x \<in> set xs" for x
  proof -
    have "range_ok m x" using ok that unfolding rs by simp
    then have "r_start m x \<le> unat v" using b [OF that] r(2) by (simp add: before_def range_ok_def covers_def)
    then show ?thesis by (simp add: r_start_def word_le_nat_alt)
  qed
  have y: "\<not> ?P y" if "y \<in> set ys" for y
  proof -
    have "before m r y" using s that unfolding rs by (simp add: sorted_wrt_append)
    then show ?thesis using r(2) by (simp add: before_def covers_def r_start_def word_le_nat_alt)
  qed
  have "?P r" using r(2) by (simp add: covers_def r_start_def word_le_nat_alt)
  moreover have "takeWhile ?P ys = []" using y by (cases ys) auto
  ultimately have "takeWhile ?P rs = xs @ [r]" using x unfolding rs by (simp add: takeWhile_append)
  then show ?thesis by (simp add: get_closest_preceding_kmem_range_def closest_loop_eq)
qed

lemma lookup_unmapped:
  assumes wf: "ranges_wf (range_at s) F (used_ranges s)" and p: "sos_paging_get_paddr v (pg s) = Some 0"
  shows "r \<in> set (used_ranges s) \<Longrightarrow> covers (range_at s) r v \<Longrightarrow> lookup_range v s = Some r"
    and "\<not> (\<exists>r \<in> set (used_ranges s). covers (range_at s) r v) \<Longrightarrow> lookup_range v s = Some 0"
proof -
  let ?m = "range_at s"
  let ?c = "get_closest_preceding_kmem_range ?m (used_ranges s) v"
  have ok: "\<forall>r \<in> set (used_ranges s). range_ok ?m r" using ranges_wfD(2) [OF wf] by blast
  have cov: "covers ?m r v \<longleftrightarrow> \<not> (v < base_vaddr (?m r) \<or> v \<ge> base_vaddr (?m r) + nb_pages (?m r) * SOS_PAGE_SIZE)"
    if "r \<in> set (used_ranges s)" for r
    using range_end_word [of ?m r] ok that by (auto simp: covers_def r_start_def word_less_nat_alt word_le_nat_alt)
  have z: "SOS_PAGE_ALIGN_INF 0 = 0" by (simp add: SOS_PAGE_ALIGN_INF_def SOS_ALIGN_INF_def)
  have run: "lookup_range v s = Some (if ?c = 0 then 0 else if v < base_vaddr (?m ?c) \<or> v \<ge> base_vaddr (?m ?c) + nb_pages (?m ?c) * SOS_PAGE_SIZE then 0 else ?c)"
    using p z by (simp add: lookup_range_def Let_def)
  have mem: "?c = 0 \<or> ?c \<in> set (used_ranges s)"
    unfolding get_closest_preceding_kmem_range_def closest_loop_eq
    by (auto dest: last_in_set set_takeWhileD)
  show a: "lookup_range v s = Some r" if r: "r \<in> set (used_ranges s)" "covers ?m r v" for r
  proof -
    have "?c = r" by (rule closest_covers [OF ranges_wfD(4) [OF wf] ok r])
    moreover have "r \<noteq> 0" using ok r by (simp add: range_ok_def)
    ultimately show ?thesis using run cov [OF r(1)] r(2) by simp
  qed
  show b: "lookup_range v s = Some 0" if "\<not> (\<exists>r \<in> set (used_ranges s). covers ?m r v)"
    using run mem cov that by auto
qed

section \<open>Taking an object without growing the cache\<close>

definition cache_ready :: "u32 \<Rightarrow> kmem \<Rightarrow> bool" where
  "cache_ready c s \<longleftrightarrow> slab_list (cache_at s c) \<noteq> [] \<and> free_objs (slab_at s (hd (slab_list (cache_at s c)))) \<noteq> [] \<and>
     (min_free_objects (cache_at s c) = 0 \<or> nb_free_objects (cache_at s c) \<noteq> min_free_objects (cache_at s c))"

definition next_object :: "u32 \<Rightarrow> kmem \<Rightarrow> u32" where
  "next_object c s = hd (free_objs (slab_at s (hd (slab_list (cache_at s c)))))"

lemma alloc_ready:
  assumes "cache_ready c s"
  obtains s1 where "take_object c s = Some (next_object c s, s1)"
    "sos_kmem_cache_alloc c flags s = Some (next_object c s, s1)"
    "pg s1 = pg s" "range_at s1 = range_at s" "free_ranges s1 = free_ranges s" "used_ranges s1 = used_ranges s"
proof -
  obtain k ks where k: "slab_list (cache_at s c) = k # ks" using assms by (cases "slab_list (cache_at s c)") (auto simp: cache_ready_def)
  obtain ob os where ob: "free_objs (slab_at s k) = ob # os" using assms k by (cases "free_objs (slab_at s k)") (auto simp: cache_ready_def)
  define s1 where "s1 = (let s' = upd_cache c (\<lambda>c. c\<lparr>nb_free_objects := nb_free_objects c - 1\<rparr>)
      (upd_slab k (\<lambda>k. k\<lparr>free_objs := os, nb_free := nb_free k - 1\<rparr>) s) in
    if os = [] then upd_cache c (\<lambda>c. c\<lparr>slab_list := add_tail k ks\<rparr>) s' else s')"
  have t: "take_object c s = Some (ob, s1)" using k ob by (simp add: take_object_def s1_def Let_def)
  have f: "pg s1 = pg s" "range_at s1 = range_at s" "free_ranges s1 = free_ranges s" "used_ranges s1 = used_ranges s"
    "min_free_objects (cache_at s1 c) = min_free_objects (cache_at s c)"
    "nb_free_objects (cache_at s1 c) = nb_free_objects (cache_at s c) - 1"
    by (simp_all add: s1_def Let_def upd_cache_def upd_slab_def)
  have "\<not> (min_free_objects (cache_at s1 c) > 0 \<and> nb_free_objects (cache_at s1 c) = min_free_objects (cache_at s1 c) - 1)"
    using assms f by (auto simp: cache_ready_def)
  then have a: "sos_kmem_cache_alloc c flags s = Some (ob, s1)"
    using k ob t by (subst sos_kmem_cache_alloc.simps) (auto simp: Let_def)
  have "next_object c s = ob" using k ob by (simp add: next_object_def)
  then show thesis using that t a f by simp
qed

section \<open>New ranges\<close>

lemma ranges_wf_cong:
  assumes "\<And>r. r \<in> set F \<union> set U \<Longrightarrow> base_vaddr (m' r) = base_vaddr (m r) \<and> nb_pages (m' r) = nb_pages (m r)"
  shows "ranges_wf m' F U = ranges_wf m F U"
proof -
  have e: "r_start m' r = r_start m r" "r_end m' r = r_end m r" if "r \<in> set F \<union> set U" for r
    using assms [OF that] by (simp_all add: r_start_def r_end_def)
  have b: "before m' a b = before m a b" if "a \<in> set F \<union> set U" "b \<in> set F \<union> set U" for a b
    using e that by (simp add: before_def)
  have s: "sorted_wrt (before m') F = sorted_wrt (before m) F" "sorted_wrt (before m') U = sorted_wrt (before m) U"
    by (rule iffI; erule sorted_wrt_mono_rel [rotated]; use b in blast)+
  have o: "range_ok m' r = range_ok m r" if "r \<in> set F \<union> set U" for r
    using e [OF that] by (simp add: range_ok_def)
  show ?thesis unfolding ranges_wf_def s using b o by (smt (verit) UnCI)
qed

definition free_page :: "kmem \<Rightarrow> u32 \<Rightarrow> bool" where
  "free_page s v \<longleftrightarrow> (\<exists>r \<in> set (free_ranges s). covers (range_at s) r v)"

definition used_page :: "kmem \<Rightarrow> u32 \<Rightarrow> bool" where
  "used_page s v \<longleftrightarrow> (\<exists>r \<in> set (used_ranges s). covers (range_at s) r v)"

lemma sorted_remove1: "sorted_wrt P xs \<Longrightarrow> sorted_wrt P (remove1 x xs)"
  by (induction xs) (auto dest: notin_set_remove1 simp: in_set_remove1 intro: set_remove1_subset [THEN subsetD])

lemma move_to_used:
  assumes wf: "ranges_wf m F U" and f: "f \<in> set F"
  shows "ranges_wf m (remove1 f F) (insert_range m U f)" "set (insert_range m U f) = insert f (set U)"
    "set (remove1 f F) = set F - {f}" "f \<notin> set U"
proof -
  note W = ranges_wfD [OF wf]
  have okF: "\<forall>r \<in> set F. range_ok m r" and okU: "\<forall>r \<in> set U. range_ok m r" using W(1,2) by blast+
  have dF: "distinct F" by (rule sorted_before_distinct [OF W(3) okF])
  have dU: "distinct U" by (rule sorted_before_distinct [OF W(4) okU])
  have zU: "0 \<notin> set U" using okU by (auto simp: range_ok_def)
  show sU: "set (insert_range m U f) = insert f (set U)" by (rule insert_range_set [OF dU zU])
  show sF: "set (remove1 f F) = set F - {f}" using dF by simp
  have irr: "\<not> before m r r" if "range_ok m r" for r using that by (simp add: before_def range_ok_def)
  show "f \<notin> set U" using W(5) [OF f, of f] irr okF f by blast
  have "before m x f \<or> before m f x" if "x \<in> set F - {f}" for x
  proof -
    have "x \<in> set F" "x \<noteq> f" using that by simp_all
    then show ?thesis using W(3) f unfolding sorted_wrt_iff_nth_less by (metis in_set_conv_nth nat_neq_iff)
  qed
  then show "ranges_wf m (remove1 f F) (insert_range m U f)"
    unfolding ranges_wf_def sU sF
    using okF okU f sorted_remove1 [OF W(3)] insert_range_sorted [OF W(4) okU, of f] W(5) by blast
qed

text \<open>Splitting the free range \<open>f\<close>: its first \<open>nb\<close> pages become the used range \<open>a\<close>.\<close>

lemma split_to_used:
  assumes wf: "ranges_wf m F U" and f: "f \<in> set F" and nb: "0 < unat nb" "unat nb < unat (nb_pages (m f))"
    and a: "a \<noteq> 0" "a \<notin> set F" "a \<notin> set U"
    and m': "base_vaddr (m' a) = base_vaddr (m f)" "nb_pages (m' a) = nb"
      "base_vaddr (m' f) = base_vaddr (m f) + nb * SOS_PAGE_SIZE" "nb_pages (m' f) = nb_pages (m f) - nb"
      "\<And>r. r \<noteq> a \<Longrightarrow> r \<noteq> f \<Longrightarrow> m' r = m r"
  shows "ranges_wf m' F (insert_range m' U a)" "set (insert_range m' U a) = insert a (set U)"
    "r_start m' a = r_start m f" "r_end m' a = r_start m f + unat nb * 4096"
    "r_start m' f = r_end m' a" "r_end m' f = r_end m f"
proof -
  note W = ranges_wfD [OF wf]
  have okF: "\<forall>r \<in> set F. range_ok m r" and okU: "\<forall>r \<in> set U. range_ok m r" using W(1,2) by blast+
  have okf: "range_ok m f" using okF f by blast
  have lim: "unat (base_vaddr (m f)) + unat (nb_pages (m f)) * 4096 < 2 ^ 32"
    using okf top_less by (simp add: range_ok_def r_end_def)
  have un: "unat (nb * SOS_PAGE_SIZE) = unat nb * 4096"
    using lim nb by (simp add: unat_word_ariths SOS_PAGE_SIZE_def)
  have ub: "unat (base_vaddr (m' f)) = unat (base_vaddr (m f)) + unat nb * 4096"
    unfolding m'(3) using lim nb un by (subst unat_add_small) simp_all
  have us: "unat (nb_pages (m' f)) = unat (nb_pages (m f)) - unat nb"
    unfolding m'(4) using nb by (simp add: unat_sub word_le_nat_alt)
  show A: "r_start m' a = r_start m f" "r_end m' a = r_start m f + unat nb * 4096"
    using m'(1,2) by (simp_all add: r_start_def r_end_def)
  show B: "r_start m' f = r_end m' a" "r_end m' f = r_end m f"
    using ub us nb A by (simp_all add: r_start_def r_end_def algebra_simps)
  have fa: "f \<noteq> a" using f a by blast
  have fU: "f \<notin> set U"
    using W(5) [OF f, of f] okf by (auto simp: before_def range_ok_def)
  have same: "r_start m' r = r_start m r" "r_end m' r = r_end m r" if "r \<noteq> a" "r \<noteq> f" for r
    using m'(5) [OF that] by (simp_all add: r_start_def r_end_def)
  have sub: "r_start m f \<le> r_start m' f" "r_end m' f = r_end m f" "r_start m' f < r_end m' f" "r_start m' f mod 4096 = 0"
    "r_start m' a < r_end m' a"
    using A B nb ub us okf by (simp_all add: range_ok_def r_start_def r_end_def mod_add_eq [symmetric])
  have ok': "range_ok m' r" if rr: "r \<in> insert a (set F \<union> set U)" for r
  proof -
    consider "r = a" | "r = f" | "r \<noteq> a" "r \<noteq> f" "r \<in> set F \<union> set U" using rr by blast
    then show ?thesis
    proof cases
      case 1
      then show ?thesis using A B sub okf a(1) by (simp add: range_ok_def)
    next
      case 2
      then show ?thesis using sub okf by (simp add: range_ok_def)
    next
      case 3
      then show ?thesis using same [of r] okF okU by (auto simp: range_ok_def)
    qed
  qed
  have bf: "before m' x y" if "before m x y" "x \<noteq> a" "y \<noteq> a" for x y
  proof -
    have "r_end m' x = r_end m x" using same [of x] sub(2) that(2) by (cases "x = f") simp_all
    moreover have "r_start m y \<le> r_start m' y" using same [of y] sub(1) that(3) by (cases "y = f") simp_all
    ultimately show ?thesis using that(1) by (simp add: before_def)
  qed
  have ba: "before m' a y" if "before m f y" "y \<noteq> a" "y \<noteq> f" for y
    using that same [of y] A B sub by (simp add: before_def)
  have bb: "before m' y a" if "before m y f" "y \<noteq> a" "y \<noteq> f" for y
    using that same [of y] A by (simp add: before_def)
  have sF: "sorted_wrt (before m') F" and sU: "sorted_wrt (before m') U"
    using W(3,4) a by (auto intro!: bf elim!: sorted_wrt_mono_rel [rotated])
  have dU: "distinct U" by (rule sorted_before_distinct [OF W(4) okU])
  have zU: "0 \<notin> set U" using okU by (auto simp: range_ok_def)
  show S: "set (insert_range m' U a) = insert a (set U)" by (rule insert_range_set [OF dU zU])
  have aU: "\<forall>u \<in> set U. before m' u a \<or> before m' a u"
    using W(5) [OF f] ba bb a fU by metis
  have sU': "sorted_wrt (before m') (insert_range m' U a)"
    by (rule insert_range_sorted [OF sU _ ok' aU]) (use ok' in auto)
  have "before m' x y \<or> before m' y x" if "x \<in> set F" "y \<in> insert a (set U)" for x y
  proof (cases "y = a")
    case False
    then show ?thesis using W(5) [OF that(1), of y] bf that a by blast
  next
    case True
    show ?thesis
    proof (cases "x = f")
      case True
      then show ?thesis using \<open>y = a\<close> B by (simp add: before_def)
    next
      case False
      have "before m x f \<or> before m f x"
        using W(3) f that(1) False unfolding sorted_wrt_iff_nth_less by (metis in_set_conv_nth nat_neq_iff)
      then show ?thesis using \<open>y = a\<close> ba bb that(1) a False by metis
    qed
  qed
  then show "ranges_wf m' F (insert_range m' U a)"
    unfolding ranges_wf_def S using ok' sF sU' by blast
qed

text \<open>An example: a slab of ranges in page 5 with two ranges in it, itself and the free pages after it.\<close>

definition km_example :: kmem where
  "km_example = \<lparr>pg = pg_example,
     range_at = (\<lambda>a. if a = 0x5014 then \<lparr>base_vaddr = 0x5000, nb_pages = 1, range_slab = 0x5fe4\<rparr>
                     else \<lparr>base_vaddr = 0x6000, nb_pages = 10, range_slab = 0\<rparr>),
     slab_at = (\<lambda>_. \<lparr>nb_free = 2, free_objs = [0x503c, 0x5050], slab_range = 0x5014, first_object = 0x5000, slab_cache = 0x100\<rparr>),
     cache_at = (\<lambda>_. \<lparr>cache_name = ''struct kmem_range'', original_obj_size = 20, alloc_obj_size = 20, nb_objects_per_slab = 5,
        nb_pages_per_slab = 1, min_free_objects = 1, cache_flags = 0x80000001, nb_free_objects = 2, slab_list = [0x5fe4]\<rparr>),
     free_ranges = [0x5028], used_ranges = [0x5014], kmem_range_cache = 0x100, cache_of_struct_kslab_cache = 0,
     cache_of_struct_kslab = 0, kslab_cache_list = [0x100]\<rparr>"

abbreviation kmem_layout :: "kmem \<Rightarrow> bool" where
  "kmem_layout s \<equiv> ranges_wf (range_at s) (free_ranges s) (used_ranges s)"

lemma km_example_ok:
  "kmem_layout km_example" "cache_ready (kmem_range_cache km_example) km_example"
  "next_object (kmem_range_cache km_example) km_example = 0x503c"
  "sos_paging_get_paddr v (pg km_example) = Some 0" if "pd_ix v \<noteq> 255"
proof -
  show "kmem_layout km_example"
    by (simp add: ranges_wf_def range_ok_def before_def r_start_def r_end_def km_example_def SOS_KMEM_VMM_TOP_def mirror_vaddr)
  show "cache_ready (kmem_range_cache km_example) km_example" "next_object (kmem_range_cache km_example) km_example = 0x503c"
    by (simp_all add: cache_ready_def next_object_def km_example_def)
  have "mapped pg_example (pd_ix v) (pt_ix v) = None"
    using pg_example_wf(3) [of "pd_ix v"] that by (simp add: mapped_def has_pt_def)
  then have "mmu_translate False pg_example v = None" using translate_mapped [OF that] by simp
  then show "sos_paging_get_paddr v (pg km_example) = Some 0"
    using get_paddr_mirror [OF pg_example_wf(1)] by (simp add: km_example_def)
qed

lemma find_suitable_cases:
  assumes "kmem_layout s"
  obtains "find_suitable_free_range nb s = 0" "\<forall>r \<in> set (free_ranges s). nb_pages (range_at s r) < nb"
  | f where "find_suitable_free_range nb s = f" "f \<noteq> 0" "f \<in> set (free_ranges s)" "nb \<le> nb_pages (range_at s f)"
proof (cases "find (\<lambda>r. nb_pages (range_at s r) \<ge> nb) (free_ranges s)")
  case None
  have "find_suitable_free_range nb s = 0" using None by (simp add: find_suitable_free_range_def)
  moreover have "\<forall>r \<in> set (free_ranges s). nb_pages (range_at s r) < nb" using None by (auto simp: find_None_iff not_le)
  ultimately show thesis by (rule that(1))
next
  case (Some f)
  then have "f \<in> set (free_ranges s)" "nb \<le> nb_pages (range_at s f)" by (auto simp: find_Some_iff)
  moreover from this(1) have "f \<noteq> 0" using ranges_wfD(1) [OF assms] by (auto simp: range_ok_def)
  ultimately show thesis using that(2) Some by (simp add: find_suitable_free_range_def)
qed

lemma disjoint_covers:
  "range_ok m a \<Longrightarrow> range_ok m b \<Longrightarrow> before m a b \<or> before m b a \<Longrightarrow> covers m a v \<Longrightarrow> \<not> covers m b v"
  by (auto simp: before_def covers_def)

lemma sorted_apart:
  "sorted_wrt (before m) F \<Longrightarrow> x \<in> set F \<Longrightarrow> y \<in> set F \<Longrightarrow> x \<noteq> y \<Longrightarrow> before m x y \<or> before m y x"
  unfolding sorted_wrt_iff_nth_less by (metis in_set_conv_nth nat_neq_iff)

lemma covers_upd_slab:
  "covers (\<lambda>x. if x = a then (m a)\<lparr>range_slab := k\<rparr> else m x) r v = covers m r v"
  by (simp add: covers_def r_start_def r_end_def)

definition pages_of :: "(u32 \<Rightarrow> kmem_range) \<Rightarrow> u32 list \<Rightarrow> u32 \<Rightarrow> bool" where
  "pages_of m rs v \<longleftrightarrow> (\<exists>r \<in> set rs. covers m r v)"

text \<open>The pages of \<open>r\<close> have moved from the free ranges to the used ones.\<close>

definition carved :: "(u32 \<Rightarrow> kmem_range) \<Rightarrow> u32 list \<Rightarrow> u32 list \<Rightarrow> u32 \<Rightarrow> (u32 \<Rightarrow> kmem_range) \<Rightarrow> u32 list \<Rightarrow> u32 list \<Rightarrow> bool" where
  "carved m F U r m' F' U' \<longleftrightarrow> ranges_wf m' F' U' \<and> r \<in> set U' \<and>
     (\<forall>v. covers m' r v \<longrightarrow> pages_of m F v \<and> \<not> pages_of m U v) \<and>
     (\<forall>v. pages_of m' F' v \<longleftrightarrow> pages_of m F v \<and> \<not> covers m' r v) \<and>
     (\<forall>v. pages_of m' U' v \<longleftrightarrow> pages_of m U v \<or> covers m' r v)"

lemma carve_exact:
  assumes wf: "ranges_wf m F U" and f: "f \<in> set F"
    and m': "\<And>r. base_vaddr (m' r) = base_vaddr (m r) \<and> nb_pages (m' r) = nb_pages (m r)"
  shows "carved m F U f m' (remove1 f F) (insert_range m U f)"
proof -
  note W = ranges_wfD [OF wf] and M = move_to_used [OF wf f]
  have c: "covers m' r v = covers m r v" for r v using m' by (simp add: covers_def r_start_def r_end_def)
  have "ranges_wf m' (remove1 f F) (insert_range m U f)" using M(1) m' by (subst ranges_wf_cong [where m = m]) auto
  moreover have "\<not> covers m r v" if "covers m f v" "r \<in> set F - {f} \<or> r \<in> set U" for r v
  proof -
    have "range_ok m f" "range_ok m r" using W(1,2) f that(2) by auto
    moreover have "before m f r \<or> before m r f"
      using W(5) [OF f, of r] sorted_apart [OF W(3) f, of r] that(2) by blast
    ultimately show ?thesis using disjoint_covers that(1) by blast
  qed
  ultimately show ?thesis using f unfolding carved_def pages_of_def c M(2,3) by blast
qed

lemma carve_split:
  assumes wf: "ranges_wf m F U" and f: "f \<in> set F" and nb: "0 < unat nb" "unat nb < unat (nb_pages (m f))"
    and a: "a \<noteq> 0" "a \<notin> set F" "a \<notin> set U"
    and m1: "base_vaddr (m1 a) = base_vaddr (m f)" "nb_pages (m1 a) = nb"
      "base_vaddr (m1 f) = base_vaddr (m f) + nb * SOS_PAGE_SIZE" "nb_pages (m1 f) = nb_pages (m f) - nb"
      "\<And>r. r \<noteq> a \<Longrightarrow> r \<noteq> f \<Longrightarrow> m1 r = m r"
    and m': "\<And>r. base_vaddr (m' r) = base_vaddr (m1 r) \<and> nb_pages (m' r) = nb_pages (m1 r)"
  shows "carved m F U a m' F (insert_range m1 U a)"
proof -
  note W = ranges_wfD [OF wf] and S = split_to_used [OF wf f nb a m1]
  have c: "covers m' r v = covers m1 r v" for r v using m' by (simp add: covers_def r_start_def r_end_def)
  have wf': "ranges_wf m' F (insert_range m1 U a)" using S(1) m' by (subst ranges_wf_cong [where m = m1]) auto
  have okf: "range_ok m f" by (rule W(1) [OF f])
  have le: "r_end m1 a \<le> r_end m f" using S(4) nb by (simp add: r_start_def r_end_def)
  have cf: "covers m f v \<longleftrightarrow> covers m1 a v \<or> covers m1 f v" "\<not> (covers m1 a v \<and> covers m1 f v)" for v
    using S(3-6) le by (auto simp: covers_def)
  have co: "covers m1 r v = covers m r v" if "r \<noteq> a" "r \<noteq> f" for r v
    using m1(5) [OF that] by (simp add: covers_def r_start_def r_end_def)
  have fU: "f \<notin> set U" using move_to_used(4) [OF wf f] .
  have out: "\<not> covers m r v" if "covers m f v" "r \<in> set F - {f} \<or> r \<in> set U" for r v
  proof -
    have "range_ok m r" using W(1,2) that(2) by auto
    moreover have "before m f r \<or> before m r f"
      using W(5) [OF f, of r] sorted_apart [OF W(3) f, of r] that(2) by blast
    ultimately show ?thesis using disjoint_covers okf that(1) by blast
  qed
  have F: "pages_of m1 F v \<longleftrightarrow> pages_of m F v \<and> \<not> covers m1 a v" for v
    unfolding pages_of_def using f a(2) co cf out by (smt (verit) DiffI singletonD)
  have U: "pages_of m1 (insert_range m1 U a) v \<longleftrightarrow> pages_of m U v \<or> covers m1 a v" for v
  proof -
    have "set (insert_range m1 U a) = insert a (set U)" by (rule S(2))
    moreover have "covers m1 r v = covers m r v" if "r \<in> set U" for r using co [of r] a(3) fU that by blast
    ultimately show ?thesis unfolding pages_of_def by auto
  qed
  have "pages_of m F v \<and> \<not> pages_of m U v" if "covers m1 a v" for v
    unfolding pages_of_def using that cf f out by blast
  moreover have "pages_of m' rs v = pages_of m1 rs v" for rs v using c by (simp add: pages_of_def)
  ultimately show ?thesis using wf' F U S(2) unfolding carved_def c by simp
qed

lemma new_range_no_map:
  assumes wf: "kmem_layout s" and nb: "nb \<noteq> 0" and fl: "flags AND SOS_KMEM_VMM_MAP = 0"
    and ready: "cache_ready (kmem_range_cache s) s"
    and a: "next_object (kmem_range_cache s) s \<noteq> 0" "next_object (kmem_range_cache s) s \<notin> set (free_ranges s) \<union> set (used_ranges s)"
  shows "(sos_kmem_vmm_new_range nb flags s = Some (0, 0, s) \<and> (\<forall>r \<in> set (free_ranges s). nb_pages (range_at s r) < nb)) \<or>
    (\<exists>r s'. sos_kmem_vmm_new_range nb flags s = Some (r, base_vaddr (range_at s' r), s') \<and> pg s' = pg s \<and> r \<noteq> 0 \<and>
       nb_pages (range_at s' r) = nb \<and> range_slab (range_at s' r) = 0 \<and>
       carved (range_at s) (free_ranges s) (used_ranges s) r (range_at s') (free_ranges s') (used_ranges s'))"
  using wf
proof (rule find_suitable_cases [where nb = nb])
  assume "find_suitable_free_range nb s = 0" "\<forall>r \<in> set (free_ranges s). nb_pages (range_at s r) < nb"
  then show ?thesis using nb by (simp add: sos_kmem_vmm_new_range_def new_range_with_def)
next
  fix f
  assume f: "find_suitable_free_range nb s = f" "f \<noteq> 0" "f \<in> set (free_ranges s)" "nb \<le> nb_pages (range_at s f)"
  let ?m = "range_at s" and ?a = "next_object (kmem_range_cache s) s"
  show ?thesis
  proof (cases "nb_pages (?m f) = nb")
    case True
    define s' where "s' = upd_range f (\<lambda>r. r\<lparr>range_slab := 0\<rparr>)
      (s\<lparr>free_ranges := remove1 f (free_ranges s), used_ranges := insert_range ?m (used_ranges s) f\<rparr>)"
    have run: "sos_kmem_vmm_new_range nb flags s = Some (f, base_vaddr (range_at s' f), s')"
      using nb f fl True by (simp add: sos_kmem_vmm_new_range_def new_range_with_def Let_def list_delete_def s'_def)
    have "carved ?m (free_ranges s) (used_ranges s) f (range_at s') (free_ranges s') (used_ranges s')"
      using carve_exact [OF wf f(3), of "range_at s'"] by (simp add: s'_def upd_range_def)
    moreover have "pg s' = pg s" "nb_pages (range_at s' f) = nb" "range_slab (range_at s' f) = 0"
      using True by (simp_all add: s'_def upd_range_def)
    ultimately show ?thesis using run f(2) by blast
  next
    case False
    obtain s1 where s1: "sos_kmem_cache_alloc (kmem_range_cache s)
        (if flags AND SOS_KMEM_VMM_ATOMIC \<noteq> 0 then SOS_KSLAB_ALLOC_ATOMIC else 0) s = Some (?a, s1)"
      "pg s1 = pg s" "range_at s1 = ?m" "free_ranges s1 = free_ranges s" "used_ranges s1 = used_ranges s"
      by (rule alloc_ready [OF ready]) blast
    have fa: "f \<noteq> ?a" using a(2) f(3) by auto
    define m1 where "m1 = ?m(?a := (?m ?a)\<lparr>base_vaddr := base_vaddr (?m f), nb_pages := nb\<rparr>,
      f := (?m f)\<lparr>base_vaddr := base_vaddr (?m f) + nb * SOS_PAGE_SIZE, nb_pages := nb_pages (?m f) - nb\<rparr>)"
    define s' where "s' = upd_range ?a (\<lambda>r. r\<lparr>range_slab := 0\<rparr>)
      (s1\<lparr>range_at := m1, used_ranges := insert_range m1 (used_ranges s) ?a\<rparr>)"
    have run: "sos_kmem_vmm_new_range nb flags s = Some (?a, base_vaddr (range_at s' ?a), s')"
      using nb f(1,2) fl False s1 a(1) fa
      by (simp add: sos_kmem_vmm_new_range_def new_range_with_def Let_def s'_def m1_def upd_range_def)
    have "unat nb < unat (nb_pages (?m f))" using f(4) False by (simp add: word_le_nat_alt word_unat_eq_iff)
    moreover have "0 < unat nb" using nb by (simp add: unat_gt_0)
    ultimately have "carved ?m (free_ranges s) (used_ranges s) ?a (range_at s') (free_ranges s) (insert_range m1 (used_ranges s) ?a)"
      using a fa wf f(3)
      by (intro carve_split [of ?m "free_ranges s" "used_ranges s" f nb ?a m1 "range_at s'"])
        (simp_all add: m1_def s'_def upd_range_def)
    moreover have "pg s' = pg s" "nb_pages (range_at s' ?a) = nb" "range_slab (range_at s' ?a) = 0"
        "free_ranges s' = free_ranges s" "used_ranges s' = insert_range m1 (used_ranges s) ?a"
      using s1 fa by (simp_all add: s'_def upd_range_def m1_def)
    ultimately show ?thesis using run a(1) by force
  qed
qed

end
