(* ===== verification/Kmem_props.thy ===== *)
theory Kmem_props
  imports Kmem_layout
begin

text \<open>The properties of the kernel memory allocators: new ranges, lookups, and releasing objects.\<close>

section \<open>Releasing an object\<close>


text \<open>An object of slab \<open>k\<close>: the address is the start of one of the objects of its cache.\<close>

definition object_of :: "u32 \<Rightarrow> u32 \<Rightarrow> kmem \<Rightarrow> bool" where
  "object_of v k s \<longleftrightarrow> (let c = cache_at s (slab_cache (slab_at s k)); d = v - first_object (slab_at s k)
     in d mod alloc_obj_size c = 0 \<and> d div alloc_obj_size c < nb_objects_per_slab c)"

lemma free_object_bad:
  assumes "sos_kmem_vmm_resolve_slab v s = Some k"
    and "k = 0 \<or> slab_cache (slab_at s k) \<noteq> 0 \<and> alloc_obj_size (cache_at s (slab_cache (slab_at s k))) \<noteq> 0 \<and> \<not> object_of v k s"
  shows "sos_kmem_cache_free v s = Some (- SOS_EINVAL, s)"
proof -
  have "free_object v s = Some (- SOS_EINVAL, 0, s)"
    using assms by (auto simp: free_object_def object_of_def Let_def not_le)
  then show ?thesis by (subst sos_kmem_cache_free.simps) (simp add: errno_defs)
qed


section \<open>Properties\<close>

text \<open>
  C14: A new range without physical pages, when the structure it may need is in reserve: with no free
  range of \<open>nb\<close> pages the call fails and changes nothing. Otherwise it returns a used range of exactly \<open>nb\<close> pages
  and its base; all its pages were free and belonged to no used range, they are now used and not free,
  no other page changes hands, and both lists stay sorted without overlaps.
\<close>

theorem new_range_carves:
  assumes "ranges_wf (range_at s) (free_ranges s) (used_ranges s)" and "nb \<noteq> 0" and "flags AND SOS_KMEM_VMM_MAP = 0"
    and "cache_ready (kmem_range_cache s) s" and "next_object (kmem_range_cache s) s \<noteq> 0"
    and "next_object (kmem_range_cache s) s \<notin> set (free_ranges s) \<union> set (used_ranges s)"
  shows "(sos_kmem_vmm_new_range nb flags s = Some (0, 0, s) \<and> (\<forall>r \<in> set (free_ranges s). nb_pages (range_at s r) < nb)) \<or>
    (\<exists>r s'. sos_kmem_vmm_new_range nb flags s = Some (r, base_vaddr (range_at s' r), s') \<and> r \<noteq> 0 \<and>
       r \<in> set (used_ranges s') \<and> nb_pages (range_at s' r) = nb \<and> range_slab (range_at s' r) = 0 \<and>
       ranges_wf (range_at s') (free_ranges s') (used_ranges s') \<and>
       (\<forall>v. covers (range_at s') r v \<longrightarrow> free_page s v \<and> \<not> used_page s v) \<and>
       (\<forall>v. free_page s' v \<longleftrightarrow> free_page s v \<and> \<not> covers (range_at s') r v) \<and>
       (\<forall>v. used_page s' v \<longleftrightarrow> used_page s v \<or> covers (range_at s') r v))"
  using new_range_no_map [OF assms]
proof (elim disjE exE conjE)
  fix r s'
  assume "sos_kmem_vmm_new_range nb flags s = Some (r, base_vaddr (range_at s' r), s')" "r \<noteq> 0"
    "nb_pages (range_at s' r) = nb" "range_slab (range_at s' r) = 0"
    "carved (range_at s) (free_ranges s) (used_ranges s) r (range_at s') (free_ranges s') (used_ranges s')"
  then show ?thesis unfolding carved_def pages_of_def free_page_def [abs_def] used_page_def [abs_def] by blast
qed blast

lemma km_example_alloc:
  "next_object (kmem_range_cache km_example) km_example \<noteq> 0"
  "next_object (kmem_range_cache km_example) km_example \<notin> set (free_ranges km_example) \<union> set (used_ranges km_example)"
proof -
  have "pd_ix 0x6000 \<noteq> 255" by (simp add: pd_ix_def)
  note ob = km_example_ok(3) [OF this]
  show "next_object (kmem_range_cache km_example) km_example \<noteq> 0"
    "next_object (kmem_range_cache km_example) km_example \<notin> set (free_ranges km_example) \<union> set (used_ranges km_example)"
    unfolding ob by (simp_all add: km_example_def)
qed

theorem new_range_carves_witness:
  "\<exists>r s'. sos_kmem_vmm_new_range 3 0 km_example = Some (r, base_vaddr (range_at s' r), s') \<and>
     nb_pages (range_at s' r) = 3 \<and> ranges_wf (range_at s') (free_ranges s') (used_ranges s')"
proof -
  have p: "pd_ix 0x6000 \<noteq> 255" by (simp add: pd_ix_def)
  have "\<not> (\<forall>r \<in> set (free_ranges km_example). nb_pages (range_at km_example r) < 3)" by (simp add: km_example_def)
  then show ?thesis
    using new_range_carves [OF km_example_ok(1) [OF p] _ _ km_example_ok(2) [OF p] km_example_alloc, of 3 0] by auto
qed

text \<open>
  C15: At an address with no page behind it the lookup is exact: the address is valid when some used
  range covers it, then that range is found, it is the only one, and the slab found is the slab of that range; otherwise nothing is
  found and freeing the address is refused with \<open>-SOS_EINVAL\<close>.
\<close>

theorem lookup_finds_owner:
  assumes wf: "ranges_wf (range_at s) (free_ranges s) (used_ranges s)" and p: "sos_paging_get_paddr v (pg s) = Some 0"
  shows "sos_kmem_vmm_is_valid_vaddr v s = Some (used_page s v) \<and>
    (\<forall>r \<in> set (used_ranges s). covers (range_at s) r v \<longrightarrow> lookup_range v s = Some r \<and>
       sos_kmem_vmm_resolve_slab v s = Some (range_slab (range_at s r)) \<and>
       (\<forall>r' \<in> set (used_ranges s) \<union> set (free_ranges s). covers (range_at s) r' v \<longrightarrow> r' = r)) \<and>
    (\<not> used_page s v \<longrightarrow> sos_kmem_vmm_free v s = Some (- SOS_EINVAL, s) \<and> sos_kfree v s = Some (- SOS_EINVAL, s))"
proof (intro conjI ballI impI)
  note W = ranges_wfD [OF wf] and L = lookup_unmapped [OF wf p]
  show "sos_kmem_vmm_is_valid_vaddr v s = Some (used_page s v)"
  proof (cases "used_page s v")
    case True
    then obtain r where r: "r \<in> set (used_ranges s)" "covers (range_at s) r v" by (auto simp: used_page_def)
    then have "r \<noteq> 0" using W(2) by (auto simp: range_ok_def)
    then show ?thesis using L(1) [OF r] True by (simp add: sos_kmem_vmm_is_valid_vaddr_def)
  next
    case False
    then show ?thesis using L(2) by (simp add: sos_kmem_vmm_is_valid_vaddr_def used_page_def)
  qed
  fix r
  assume r: "r \<in> set (used_ranges s)" "covers (range_at s) r v"
  have nz: "r \<noteq> 0" using W(2) [OF r(1)] by (simp add: range_ok_def)
  show "lookup_range v s = Some r" by (rule L(1) [OF r])
  then show "sos_kmem_vmm_resolve_slab v s = Some (range_slab (range_at s r))" using nz by (simp add: sos_kmem_vmm_resolve_slab_def)
  fix r'
  assume r': "r' \<in> set (used_ranges s) \<union> set (free_ranges s)" "covers (range_at s) r' v"
  show "r' = r"
  proof (rule ccontr)
    assume "r' \<noteq> r"
    then have "before (range_at s) r' r \<or> before (range_at s) r r'"
      using r'(1) sorted_apart [OF W(4) r(1), of r'] W(5) [OF _ r(1), of r'] by blast
    then show False using disjoint_covers [of "range_at s" r' r v] W(1) [of r'] W(2) [of r'] W(2) [OF r(1)] r r' by blast
  qed
next
  assume "\<not> used_page s v"
  then have l: "lookup_range v s = Some 0" using lookup_unmapped(2) [OF wf p] by (simp add: used_page_def)
  then show f: "sos_kmem_vmm_free v s = Some (- SOS_EINVAL, s)" by (simp add: sos_kmem_vmm_free_def)
  have "sos_kmem_cache_free v s = Some (- SOS_EINVAL, s)"
    by (rule free_object_bad [of v s 0]) (use l in \<open>simp_all add: sos_kmem_vmm_resolve_slab_def\<close>)
  then show "sos_kfree v s = Some (- SOS_EINVAL, s)" using f by (simp add: sos_kfree_def errno_defs)
qed

theorem lookup_finds_owner_witness:
  "lookup_range 0x5050 km_example = Some 0x5014 \<and> sos_kfree 0x6000 km_example = Some (- SOS_EINVAL, km_example)"
proof -
  have p: "pd_ix 0x5050 \<noteq> 255" "pd_ix 0x6000 \<noteq> 255" by (simp_all add: pd_ix_def)
  have "0x5014 \<in> set (used_ranges km_example)" "covers (range_at km_example) 0x5014 0x5050" "\<not> used_page km_example 0x6000"
    by (simp_all add: km_example_def covers_def used_page_def r_start_def r_end_def)
  then show ?thesis
    using lookup_finds_owner [OF km_example_ok(1,4) [OF p(1)]] lookup_finds_owner [OF km_example_ok(1,4) [OF p(2)]] by blast
qed

text \<open>
  Freeing an address inside a slab that is not the start of one of its objects is refused and changes
  nothing: with \<open>-SOS_EBUSY\<close> at the base of the range, which the slab still holds, and \<open>-SOS_EINVAL\<close> elsewhere.
\<close>

theorem kfree_rejects_non_objects:
  assumes "lookup_range v s = Some r" and "r \<noteq> 0" and "range_slab (range_at s r) = k" and "k \<noteq> 0"
    and "slab_cache (slab_at s k) \<noteq> 0" and "alloc_obj_size (cache_at s (slab_cache (slab_at s k))) \<noteq> 0" and "\<not> object_of v k s"
  shows "sos_kfree v s = Some (if base_vaddr (range_at s r) = v then - SOS_EBUSY else - SOS_EINVAL, s)"
proof -
  have "sos_kmem_cache_free v s = Some (- SOS_EINVAL, s)"
    by (rule free_object_bad [of v s k]) (use assms in \<open>simp_all add: sos_kmem_vmm_resolve_slab_def\<close>)
  then show ?thesis using assms(1-4) by (simp add: sos_kfree_def sos_kmem_vmm_free_def errno_defs)
qed

theorem kfree_rejects_non_objects_witness:
  "sos_kfree 0x5016 km_example = Some (- SOS_EINVAL, km_example)"
proof -
  have "pd_ix 0x5016 \<noteq> 255" by (simp add: pd_ix_def)
  note e = km_example_ok(1,4) [OF this]
  have r: "0x5014 \<in> set (used_ranges km_example)" "covers (range_at km_example) 0x5014 0x5016"
    by (simp_all add: km_example_def covers_def r_start_def r_end_def)
  have "lookup_range 0x5016 km_example = Some 0x5014" by (rule lookup_unmapped(1) [OF e r])
  moreover have "\<not> object_of 0x5016 0x5fe4 km_example" by (simp add: object_of_def km_example_def)
  ultimately show ?thesis
    using kfree_rejects_non_objects [of "0x5016" km_example "0x5014" "0x5fe4"] by (simp add: km_example_def)
qed



end
