(* ===== verification/Kmem_free.thy ===== *)
theory Kmem_free
  imports Kmem_props
begin

text \<open>
  Freeing in the kernel memory allocators: objects, slabs and ranges are freed by routines that call each other, and none of them loses a page,
  gives a page twice or makes a free page used again, whatever the depth of the calls.
\<close>

section \<open>Merging two ranges\<close>

lemma apart_pages:
  assumes "range_ok m a" "range_ok m b" "\<And>v. \<not> (covers m a v \<and> covers m b v)"
  shows "before m a b \<or> before m b a"
proof (rule ccontr)
  assume n: "\<not> (before m a b \<or> before m b a)"
  define k where "k = max (r_start m a) (r_start m b)"
  have k: "k < 2 ^ 32" using assms(1,2) top_less by (auto simp: k_def range_ok_def)
  then have "unat (word_of_nat k :: u32) = k" by (rule unat_of_nat_small)
  then have "covers m a (word_of_nat k)" "covers m b (word_of_nat k)"
    using n assms(1,2) by (auto simp: covers_def k_def before_def range_ok_def)
  then show False using assms(3) by blast
qed

lemma merge_ranges:
  assumes wf: "ranges_wf m F U" and ab: "a \<in> set F" "b \<in> set F" "r_end m a = r_start m b"
    and m': "m' = m(a := (m a)\<lparr>nb_pages := nb_pages (m a) + nb_pages (m b)\<rparr>)"
  shows "ranges_wf m' (remove1 b F) U" "covers m' a v \<longleftrightarrow> covers m a v \<or> covers m b v" "a \<noteq> b"
proof -
  note W = ranges_wfD [OF wf]
  have ok: "range_ok m a" "range_ok m b" by (rule W(1) [OF ab(1)], rule W(1) [OF ab(2)])
  show ne: "a \<noteq> b" using ab(3) ok by (auto simp: range_ok_def)
  have bnd: "unat (nb_pages (m a)) + unat (nb_pages (m b)) < 2 ^ 32"
    using ok ab(3) top_less by (simp add: range_ok_def r_end_def r_start_def)
  have u: "unat (nb_pages (m a) + nb_pages (m b)) = unat (nb_pages (m a)) + unat (nb_pages (m b))"
    by (rule unat_add_small [OF bnd])
  have A: "r_start m' a = r_start m a" "r_end m' a = r_end m b"
    using ab(3) u by (simp_all add: m' r_start_def r_end_def)
  have O: "r_start m' x = r_start m x" "x \<noteq> a \<Longrightarrow> r_end m' x = r_end m x" for x
    by (simp_all add: m' r_start_def r_end_def)
  show "covers m' a v \<longleftrightarrow> covers m a v \<or> covers m b v"
    using A ab(3) ok by (auto simp: covers_def range_ok_def)
  have okF: "\<forall>r \<in> set F. range_ok m r" using W(1) by blast
  have dF: "distinct F" by (rule sorted_before_distinct [OF W(3) okF])
  have sF: "set (remove1 b F) = set F - {b}" using dF by simp
  have bf: "before m' x y" if xy: "before m x y" "x \<noteq> b" "y \<noteq> b" "y \<in> set F \<union> set U" "range_ok m y" for x y
  proof (cases "x = a")
    case True
    have "before m b y \<or> before m y b" using xy(3,4) sorted_apart [OF W(3) ab(2), of y] W(5) [OF ab(2), of y] by auto
    then have "r_end m b \<le> r_start m y" using xy True ab(3) by (auto simp: before_def range_ok_def)
    then show ?thesis using A O True by (simp add: before_def)
  next
    case False
    then show ?thesis using xy(1) O by (simp add: before_def)
  qed
  have ok': "range_ok m' x" if "range_ok m x" for x
    using that ok A O ab(3) by (cases "x = a") (auto simp: range_ok_def)
  have bU: "b \<notin> set U" using W(5) [OF ab(2), of b] ok(2) by (auto simp: before_def range_ok_def)
  have "sorted_wrt (before m') (remove1 b F)" "sorted_wrt (before m') U"
    using sorted_remove1 [OF W(3), of b] W(1-4) sF bU by (auto intro!: bf elim!: sorted_wrt_mono_rel [rotated])
  moreover have "before m' x y \<or> before m' y x" if "x \<in> set F - {b}" "y \<in> set U" for x y
    using W(5) [of x y] bf [of x y] bf [of y x] W(1) [of x] W(2) [of y] that bU by blast
  ultimately show "ranges_wf m' (remove1 b F) U"
    unfolding ranges_wf_def sF using W(1,2) ok' by blast
qed

text \<open>A used range becomes a free one.\<close>

lemma ranges_wf_swap: "ranges_wf m F U \<Longrightarrow> ranges_wf m U F"
  unfolding ranges_wf_def by blast

lemma move_to_free:
  assumes "ranges_wf m F U" and "r \<in> set U"
  shows "ranges_wf m (insert_range m F r) (remove1 r U)" "set (insert_range m F r) = insert r (set F)" "set (remove1 r U) = set U - {r}"
  using move_to_used [OF ranges_wf_swap [OF assms(1)] assms(2)] ranges_wf_swap by blast+

section \<open>What freeing may do\<close>

definition range_ids :: "kmem \<Rightarrow> u32 set" where
  "range_ids s = set (free_ranges s) \<union> set (used_ranges s)"

definition owned_page :: "kmem \<Rightarrow> u32 \<Rightarrow> bool" where
  "owned_page s v \<longleftrightarrow> free_page s v \<or> used_page s v"

text \<open>What a slab and a cache never change.\<close>

definition same_slabs :: "kmem \<Rightarrow> kmem \<Rightarrow> bool" where
  "same_slabs s s' \<longleftrightarrow> (\<forall>k. first_object (slab_at s' k) = first_object (slab_at s k) \<and> slab_cache (slab_at s' k) = slab_cache (slab_at s k)) \<and>
     (\<forall>c. alloc_obj_size (cache_at s' c) = alloc_obj_size (cache_at s c) \<and> cache_flags (cache_at s' c) = cache_flags (cache_at s c) \<and>
        nb_objects_per_slab (cache_at s' c) = nb_objects_per_slab (cache_at s c))"

definition same_ranges :: "u32 set \<Rightarrow> kmem \<Rightarrow> kmem \<Rightarrow> bool" where
  "same_ranges X s s' \<longleftrightarrow> (\<forall>x \<in> X. base_vaddr (range_at s' x) = base_vaddr (range_at s x) \<and> nb_pages (range_at s' x) = nb_pages (range_at s x))"

text \<open>The structures of the ranges \<open>X\<close> are in slabs that hold their own descriptor.\<close>

definition structs_on_slab :: "u32 set \<Rightarrow> kmem \<Rightarrow> bool" where
  "structs_on_slab X s \<longleftrightarrow> (\<forall>x \<in> X. \<forall>k. object_of x k s \<longrightarrow> cache_flags (cache_at s (slab_cache (slab_at s k))) AND ON_SLAB \<noteq> 0)"

text \<open>Ranges that are in neither list and wait to be freed, and whose pages nothing else owns.\<close>

definition held :: "u32 list \<Rightarrow> kmem \<Rightarrow> bool" where
  "held T s \<longleftrightarrow> (\<forall>t \<in> set T. range_ok (range_at s) t) \<and> (\<forall>v. pages_of (range_at s) T v \<longrightarrow> \<not> owned_page s v) \<and>
     sorted_wrt (\<lambda>a b. \<forall>v. \<not> (covers (range_at s) a v \<and> covers (range_at s) b v)) T"

definition freeing_ok :: "u32 list \<Rightarrow> kmem \<Rightarrow> bool" where
  "freeing_ok T s \<longleftrightarrow> kmem_layout s \<and> held T s \<and> structs_on_slab (range_ids s \<union> set T) s"

text \<open>From the state \<open>s\<close> with the ranges \<open>T\<close> waiting to the state \<open>s'\<close> with \<open>T'\<close>.\<close>

definition frees :: "u32 list \<Rightarrow> kmem \<Rightarrow> u32 list \<Rightarrow> kmem \<Rightarrow> bool" where
  "frees T s T' s' \<longleftrightarrow> kmem_layout s' \<and> held T' s' \<and> same_slabs s s' \<and>
     (\<forall>v. owned_page s' v \<or> pages_of (range_at s') T' v \<longleftrightarrow> owned_page s v \<or> pages_of (range_at s) T v) \<and>
     (\<forall>v. used_page s' v \<or> pages_of (range_at s') T' v \<longrightarrow> used_page s v \<or> pages_of (range_at s) T v) \<and>
     (\<forall>v. used_page s' v \<longrightarrow> used_page s v) \<and>
     range_ids s' \<union> set T' \<subseteq> range_ids s \<union> set T \<and> same_ranges (- (range_ids s \<union> set T)) s s'"

lemma freesD:
  assumes "frees T s T' s'"
  shows "kmem_layout s'" "held T' s'" "same_slabs s s'" "range_ids s' \<union> set T' \<subseteq> range_ids s \<union> set T" "same_ranges (- (range_ids s \<union> set T)) s s'"
    and "owned_page s' v \<or> pages_of (range_at s') T' v \<longleftrightarrow> owned_page s v \<or> pages_of (range_at s) T v"
    and "used_page s' v \<or> pages_of (range_at s') T' v \<Longrightarrow> used_page s v \<or> pages_of (range_at s) T v"
    and "used_page s' v \<Longrightarrow> used_page s v"
  using assms unfolding frees_def by blast+

lemma same_slabs_trans: "same_slabs s t \<Longrightarrow> same_slabs t u \<Longrightarrow> same_slabs s u"
  by (simp add: same_slabs_def)

lemma structs_mono: "structs_on_slab X s \<Longrightarrow> same_slabs s s' \<Longrightarrow> Y \<subseteq> X \<Longrightarrow> structs_on_slab Y s'"
proof -
  assume h: "structs_on_slab X s" and s: "same_slabs s s'" and y: "Y \<subseteq> X"
  have "object_of x k s' = object_of x k s" for x k using s by (simp add: same_slabs_def object_of_def Let_def)
  moreover have "cache_flags (cache_at s' (slab_cache (slab_at s' k))) = cache_flags (cache_at s (slab_cache (slab_at s k)))" for k
    using s by (simp add: same_slabs_def)
  ultimately show ?thesis using h y unfolding structs_on_slab_def by auto
qed

lemma freeing_okI: "freeing_ok T s \<Longrightarrow> frees T s T' s' \<Longrightarrow> freeing_ok T' s'"
  using freesD [of T s T' s'] structs_mono unfolding freeing_ok_def by blast

lemma frees_trans:
  assumes "frees T s T1 s1" "frees T1 s1 T2 s2"
  shows "frees T s T2 s2"
proof -
  note A = freesD [OF assms(1)] and B = freesD [OF assms(2)]
  have "same_ranges (- (range_ids s \<union> set T)) s s2"
    unfolding same_ranges_def
  proof
    fix x
    assume x: "x \<in> - (range_ids s \<union> set T)"
    then have "x \<in> - (range_ids s1 \<union> set T1)" using A(4) by blast
    then show "base_vaddr (range_at s2 x) = base_vaddr (range_at s x) \<and> nb_pages (range_at s2 x) = nb_pages (range_at s x)"
      using A(5) B(5) x by (simp add: same_ranges_def)
  qed
  moreover have "owned_page s2 v \<or> pages_of (range_at s2) T2 v \<longleftrightarrow> owned_page s v \<or> pages_of (range_at s) T v" for v
    using A(6) B(6) by simp
  moreover have "used_page s2 v \<or> pages_of (range_at s2) T2 v \<longrightarrow> used_page s v \<or> pages_of (range_at s) T v" for v
    using A(7) B(7) by simp
  moreover have "used_page s2 v \<longrightarrow> used_page s v" for v using A(8) B(8) by blast
  moreover have "range_ids s2 \<union> set T2 \<subseteq> range_ids s \<union> set T" using A(4) B(4) by (rule order_trans [rotated])
  ultimately show ?thesis unfolding frees_def using B(1,2) same_slabs_trans [OF A(3) B(3)] by simp
qed

lemma same_covers: "same_ranges X s s' \<Longrightarrow> x \<in> X \<Longrightarrow> covers (range_at s') x v = covers (range_at s) x v"
    "same_ranges X s s' \<Longrightarrow> x \<in> X \<Longrightarrow> range_ok (range_at s') x = range_ok (range_at s) x"
  by (simp_all add: same_ranges_def covers_def range_ok_def r_start_def r_end_def)

lemma same_pages: "same_ranges X s s' \<Longrightarrow> set rs \<subseteq> X \<Longrightarrow> pages_of (range_at s') rs v = pages_of (range_at s) rs v"
  using same_covers(1) [of X s s'] unfolding pages_of_def by blast

lemma page_defs_pages: "free_page s v = pages_of (range_at s) (free_ranges s) v" "used_page s v = pages_of (range_at s) (used_ranges s) v"
  by (simp_all add: free_page_def used_page_def pages_of_def)

lemma covers_start: "range_ok m r \<Longrightarrow> covers m r (base_vaddr (m r))"
  by (simp add: covers_def range_ok_def r_start_def)

lemma held_out: "held T s \<Longrightarrow> t \<in> set T \<Longrightarrow> t \<notin> range_ids s"
proof
  assume h: "held T s" and t: "t \<in> set T" "t \<in> range_ids s"
  have "covers (range_at s) t (base_vaddr (range_at s t))" by (rule covers_start) (use h t(1) in \<open>simp add: held_def\<close>)
  then have "owned_page s (base_vaddr (range_at s t))" "pages_of (range_at s) T (base_vaddr (range_at s t))"
    using t by (auto simp: owned_page_def free_page_def used_page_def range_ids_def pages_of_def)
  then show False using h by (simp add: held_def)
qed

text \<open>The lists and the places of the ranges as before.\<close>

lemma frees_same:
  assumes ok: "freeing_ok T s" and s': "free_ranges s' = free_ranges s" "used_ranges s' = used_ranges s" "same_ranges UNIV s s'" "same_slabs s s'"
  shows "frees T s T s'"
proof -
  have c: "covers (range_at s') x v = covers (range_at s) x v" "range_ok (range_at s') x = range_ok (range_at s) x" for x v
    using same_covers [OF s'(3)] by simp_all
  have p: "pages_of (range_at s') rs v = pages_of (range_at s) rs v" for rs v using same_pages [OF s'(3)] by simp
  have l: "kmem_layout s'"
    using ok s'(1-3) ranges_wf_cong [of "free_ranges s" "used_ranges s" "range_at s'" "range_at s"]
    by (simp add: freeing_ok_def same_ranges_def)
  have "held T s'" using ok by (simp add: freeing_ok_def held_def owned_page_def page_defs_pages p c s'(1,2))
  then show ?thesis using l s'(3,4)
    by (simp add: frees_def owned_page_def page_defs_pages p s'(1,2) range_ids_def same_ranges_def)
qed

text \<open>A step without waiting ranges, beside some that wait.\<close>

lemma frees_beside:
  assumes ok: "freeing_ok T s" and f: "frees [] s [] s'"
  shows "frees T s T s'"
proof -
  note F = freesD [OF f]
  have out: "set T \<subseteq> - (range_ids s \<union> set [])" using held_out ok by (auto simp: freeing_ok_def)
  have c: "covers (range_at s') t v = covers (range_at s) t v" "range_ok (range_at s') t = range_ok (range_at s) t" if "t \<in> set T" for t v
    using same_covers [OF F(5)] out that by blast+
  have p: "pages_of (range_at s') T v = pages_of (range_at s) T v" for v by (rule same_pages [OF F(5) out])
  have o: "owned_page s' v = owned_page s v" for v using F(6) [of v] by (simp add: pages_of_def)
  have u: "used_page s' v \<Longrightarrow> used_page s v" for v using F(7) [of v] by (simp add: pages_of_def)
  have "sorted_wrt (\<lambda>a b. \<forall>v. \<not> (covers (range_at s') a v \<and> covers (range_at s') b v)) T"
    using ok c(1) unfolding freeing_ok_def held_def by (auto elim!: sorted_wrt_mono_rel [rotated])
  then have "held T s'" using ok c(2) p o by (simp add: freeing_ok_def held_def)
  then show ?thesis using F(1,3,4,5) p o u unfolding frees_def by (auto simp: same_ranges_def)
qed

section \<open>Objects and slabs\<close>

text \<open>A step that leaves both lists and the places of all ranges alone.\<close>

definition slabs_only :: "kmem \<Rightarrow> kmem \<Rightarrow> bool" where
  "slabs_only s s' \<longleftrightarrow> pg s' = pg s \<and> free_ranges s' = free_ranges s \<and> used_ranges s' = used_ranges s \<and> same_ranges UNIV s s' \<and> same_slabs s s'"

lemma slabs_only_trans: "slabs_only s t \<Longrightarrow> slabs_only t u \<Longrightarrow> slabs_only s u"
  by (simp add: slabs_only_def same_ranges_def same_slabs_def)

lemma slabs_only_frees: "slabs_only s s' \<Longrightarrow> freeing_ok T s \<Longrightarrow> frees T s T s'"
  by (simp add: slabs_only_def frees_same)

lemma slabs_only_upd [simp]:
  "slabs_only s s" "slabs_only s (upd_cache c (\<lambda>x. x\<lparr>slab_list := f x\<rparr>) s)" "slabs_only s (upd_cache c (\<lambda>x. x\<lparr>nb_free_objects := g x\<rparr>) s)"
  "slabs_only s (upd_cache c (\<lambda>x. x\<lparr>slab_list := f x, nb_free_objects := g x\<rparr>) s)"
  "slabs_only s (upd_slab k (\<lambda>x. x\<lparr>free_objs := i x, nb_free := h x\<rparr>) s)"
  "slabs_only s (upd_range r (\<lambda>x. x\<lparr>range_slab := j x\<rparr>) s)"
  by (simp_all add: slabs_only_def same_ranges_def same_slabs_def upd_cache_def upd_slab_def upd_range_def)

lemma free_object_step:
  assumes "free_object v s = Some (r, e, s')"
  shows "slabs_only s s'" "e \<noteq> 0 \<Longrightarrow> object_of v e s"
proof -
  obtain k where k: "sos_kmem_vmm_resolve_slab v s = Some k" using assms by (auto simp: free_object_def bind_eq_Some_conv)
  let ?c = "slab_cache (slab_at s k)"
  have "slabs_only s s' \<and> (e \<noteq> 0 \<longrightarrow> object_of v e s)"
  proof (cases "k = 0 \<or> \<not> object_of v k s")
    case True
    then have "s' = s \<and> e = 0" using assms k by (auto simp: free_object_def Let_def object_of_def bind_eq_Some_conv not_le split: if_splits)
    then show ?thesis by simp
  next
    case False
    define s1 where "s1 = (if free_objs (slab_at s k) = [] then
        upd_cache ?c (\<lambda>c. c\<lparr>slab_list := add_head k (remove1 k (slab_list (cache_at s ?c)))\<rparr>) s else s)"
    have "s' = upd_cache ?c (\<lambda>c. c\<lparr>nb_free_objects := nb_free_objects c + 1\<rparr>)
        (upd_slab k (\<lambda>k. k\<lparr>free_objs := add_head v (free_objs k), nb_free := nb_free k + 1\<rparr>) s1) \<and> (e \<noteq> 0 \<longrightarrow> e = k)"
      using assms k False unfolding s1_def
      by (auto simp: free_object_def Let_def object_of_def bind_eq_Some_conv not_le not_less split: if_splits)
    moreover have "slabs_only s s1" by (simp add: s1_def)
    moreover have "slabs_only s (upd_cache c (\<lambda>c. c\<lparr>nb_free_objects := nb_free_objects c + 1\<rparr>)
        (upd_slab k (\<lambda>k. k\<lparr>free_objs := add_head v (free_objs k), nb_free := nb_free k + 1\<rparr>) s1))" if "slabs_only s s1" for c
      by (rule slabs_only_trans [OF slabs_only_trans [OF that slabs_only_upd(5)] slabs_only_upd(3)])
    ultimately show ?thesis using False by (elim conjE) (simp, blast)
  qed
  then show "slabs_only s s'" "e \<noteq> 0 \<Longrightarrow> object_of v e s" by blast+
qed

lemma release_slab_step:
  assumes cf: "\<And>v t r t'. cf v t = Some (r, t') \<Longrightarrow> freeing_ok [] t \<Longrightarrow> frees [] t [] t'"
    and d: "\<And>q t r t'. d q t = Some (r, t') \<Longrightarrow> freeing_ok [] t \<Longrightarrow> frees [] t [] t'"
    and run: "cache_release_slab cf d slab now s = Some (r, s')" and ok: "freeing_ok [] s"
  shows "frees [] s [] s'"
proof -
  let ?c = "slab_cache (slab_at s slab)" and ?q = "slab_range (slab_at s slab)"
  define s1 where "s1 = upd_cache ?c (\<lambda>c. c\<lparr>slab_list := remove1 slab (slab_list (cache_at s ?c)), nb_free_objects := nb_free_objects c - nb_free (slab_at s slab)\<rparr>) s"
  have q: "?q \<noteq> 0" using run by (auto simp: cache_release_slab_def bind_eq_Some_conv Let_def)
  obtain s2 where s2: "(if cache_flags (cache_at s1 ?c) AND ON_SLAB = 0 then map_option snd (cf slab s1) else Some s1) = Some s2"
      "(if now then d ?q (upd_range ?q (\<lambda>r. r\<lparr>range_slab := 0\<rparr>) s2) else Some (SOS_OK, upd_range ?q (\<lambda>r. r\<lparr>range_slab := 0\<rparr>) s2)) = Some (r, s')"
    using run q unfolding s1_def by (auto simp: cache_release_slab_def sos_kmem_vmm_set_slab_def bind_eq_Some_conv Let_def split: if_splits)
  have 1: "frees [] s [] s1" by (rule slabs_only_frees [OF _ ok]) (simp add: s1_def)
  have 2: "frees [] s1 [] s2"
    using s2(1) cf freeing_okI [OF ok 1] slabs_only_frees [OF slabs_only_upd(1) freeing_okI [OF ok 1]] by (auto split: if_splits)
  let ?s3 = "upd_range ?q (\<lambda>r. r\<lparr>range_slab := 0\<rparr>) s2"
  have 3: "frees [] s2 [] ?s3" by (rule slabs_only_frees [OF slabs_only_upd(6) freeing_okI [OF freeing_okI [OF ok 1] 2]])
  note 123 = frees_trans [OF frees_trans [OF 1 2] 3]
  show ?thesis
  proof (cases now)
    case True
    then show ?thesis using frees_trans [OF 123] d freeing_okI [OF ok 123] s2(2) by simp
  next
    case False
    then show ?thesis using 123 s2(2) by simp
  qed
qed

text \<open>Releasing the structure of a range: its slab holds its own descriptor, so nothing else is freed.\<close>

lemma release_struct_step:
  assumes run: "sos_kmem_cache_release_struct_range cf x s = Some (e, s')" and on: "structs_on_slab {x} s"
  shows "slabs_only s s'"
proof -
  obtain r k s1 where f: "free_object x s = Some (r, k, s1)" using run by (auto simp: sos_kmem_cache_release_struct_range_def bind_eq_Some_conv)
  note F = free_object_step [OF f]
  show ?thesis
  proof (cases "r = SOS_OK \<and> k \<noteq> 0")
    case False
    then have "s' = s1" using run f by (auto simp: sos_kmem_cache_release_struct_range_def split: if_splits)
    then show ?thesis using F(1) by simp
  next
    case True
    let ?c = "slab_cache (slab_at s1 k)" and ?q = "slab_range (slab_at s1 k)"
    have "object_of x k s" using F(2) True by simp
    moreover have "same_slabs s s1" using F(1) by (simp add: slabs_only_def)
    ultimately have on1: "cache_flags (cache_at s1 ?c) AND ON_SLAB \<noteq> 0"
      using on by (simp add: structs_on_slab_def same_slabs_def)
    define s2 where "s2 = upd_cache ?c (\<lambda>c. c\<lparr>slab_list := remove1 k (slab_list (cache_at s1 ?c)), nb_free_objects := nb_free_objects c - nb_free (slab_at s1 k)\<rparr>) s1"
    have fl: "cache_flags (cache_at s2 ?c) = cache_flags (cache_at s1 ?c)" by (simp add: s2_def upd_cache_def)
    have "s' = upd_range ?q (\<lambda>r. r\<lparr>range_slab := 0\<rparr>) s2"
      using run f True on1 fl unfolding s2_def
      by (auto simp: sos_kmem_cache_release_struct_range_def cache_release_slab_def sos_kmem_vmm_set_slab_def bind_eq_Some_conv Let_def split: if_splits)
    moreover have "slabs_only s s2" using slabs_only_trans [OF F(1)] by (simp add: s2_def)
    ultimately show ?thesis using slabs_only_trans [OF _ slabs_only_upd(6)] by simp
  qed
qed


section \<open>Ranges\<close>

lemma distinct_free: "kmem_layout s \<Longrightarrow> distinct (free_ranges s)" "kmem_layout s \<Longrightarrow> distinct (used_ranges s)"
  using ranges_wfD(1-4) [of "range_at s" "free_ranges s" "used_ranges s"] by (auto intro: sorted_before_distinct)

lemma used_not_free: "kmem_layout s \<Longrightarrow> r \<in> set (used_ranges s) \<Longrightarrow> r \<notin> set (free_ranges s)"
  using ranges_wfD(5) [of "range_at s" "free_ranges s" "used_ranges s" r r] ranges_wfD(2) [of "range_at s" "free_ranges s" "used_ranges s" r]
  by (auto simp: before_def range_ok_def)

lemma used_unique:
  assumes wf: "kmem_layout s" and r: "r \<in> set (used_ranges s)" "covers (range_at s) r v" and x: "x \<in> range_ids s" "x \<noteq> r"
  shows "\<not> covers (range_at s) x v"
proof -
  note W = ranges_wfD [OF wf]
  have "before (range_at s) x r \<or> before (range_at s) r x"
    using x sorted_apart [OF W(4) r(1), of x] W(5) [OF _ r(1), of x] by (auto simp: range_ids_def)
  then show ?thesis using disjoint_covers r W(1,2) x(1) by (metis UnE range_ids_def)
qed

text \<open>A used range taken out of its list.\<close>

lemma hold_used:
  assumes ok: "freeing_ok T s" and r: "r \<in> set (used_ranges s)" and s': "s' = s\<lparr>used_ranges := remove1 r (used_ranges s)\<rparr>"
  shows "frees T s (T @ [r]) s'" "frees T s (r # T) s'"
proof -
  have wf: "kmem_layout s" and h: "held T s" using ok by (simp_all add: freeing_ok_def)
  note W = ranges_wfD [OF wf]
  have U: "set (used_ranges s') = set (used_ranges s) - {r}" using distinct_free(2) [OF wf] by (simp add: s')
  have F: "free_ranges s' = free_ranges s" "range_at s' = range_at s" by (simp_all add: s')
  have ids: "range_ids s' = range_ids s - {r}" using U F used_not_free [OF wf r] by (auto simp: range_ids_def)
  have l: "kmem_layout s'"
  proof -
    have "sorted_wrt (before (range_at s)) (used_ranges s')" unfolding s' using sorted_remove1 [OF W(4), of r] by simp
    then show ?thesis using W(1,2,3,5) unfolding ranges_wf_def U F by blast
  qed
  have own: "owned_page s v = (\<exists>x \<in> range_ids s. covers (range_at s) x v)" "owned_page s' v = (\<exists>x \<in> range_ids s'. covers (range_at s) x v)" for v
    by (auto simp: owned_page_def free_page_def used_page_def range_ids_def F)
  have own': "owned_page s' v \<longleftrightarrow> owned_page s v \<and> \<not> covers (range_at s) r v" for v
    unfolding own ids using used_unique [OF wf r] by blast
  have cr: "covers (range_at s) r v \<Longrightarrow> owned_page s v" for v using r by (auto simp: own range_ids_def)
  have ut: "used_page s v \<longleftrightarrow> used_page s' v \<or> covers (range_at s) r v" for v using U r by (auto simp: used_page_def F)
  have p: "pages_of (range_at s) (T @ [r]) v \<longleftrightarrow> pages_of (range_at s) T v \<or> covers (range_at s) r v"
     "pages_of (range_at s) (r # T) v \<longleftrightarrow> pages_of (range_at s) T v \<or> covers (range_at s) r v" for v by (auto simp: pages_of_def)
  have dis: "\<not> (covers (range_at s) t v \<and> covers (range_at s) r v)" if "t \<in> set T" for t v
    using h cr that unfolding held_def pages_of_def by blast
  have "range_ok (range_at s) r" by (rule W(2) [OF r])
  then have "held (T @ [r]) s'" "held (r # T) s'"
    using h dis by (auto simp: held_def F p own' sorted_wrt_append)
  moreover have "same_slabs s s'" "same_ranges X s s'" for X by (simp_all add: s' same_slabs_def same_ranges_def)
  ultimately show "frees T s (T @ [r]) s'" "frees T s (r # T) s'"
    using l own' cr ut ids r unfolding frees_def F p by (auto simp: range_ids_def)
qed

text \<open>A waiting range put in the list of free ranges.\<close>

lemma insert_held:
  assumes ok: "freeing_ok (r # T) s" and s': "s' = s\<lparr>free_ranges := insert_range (range_at s) (free_ranges s) r\<rparr>"
  shows "frees (r # T) s T s'" "r \<in> set (free_ranges s')"
proof -
  have wf: "kmem_layout s" and h: "held (r # T) s" using ok by (simp_all add: freeing_ok_def)
  note W = ranges_wfD [OF wf]
  have okr: "range_ok (range_at s) r" using h by (simp add: held_def)
  have own: "owned_page s v = (\<exists>x \<in> range_ids s. covers (range_at s) x v)" for v
    by (auto simp: owned_page_def free_page_def used_page_def range_ids_def)
  have out: "\<not> (covers (range_at s) x v \<and> covers (range_at s) r v)" if "x \<in> range_ids s" for x v
  proof -
    have "owned_page s v" if "covers (range_at s) x v" using own that \<open>x \<in> range_ids s\<close> by blast
    then show ?thesis using h by (auto simp: held_def pages_of_def)
  qed
  have apart: "before (range_at s) x r \<or> before (range_at s) r x" if "x \<in> range_ids s" for x
    by (rule apart_pages [OF _ okr out [OF that]]) (use that W(1,2) in \<open>auto simp: range_ids_def\<close>)
  have okF: "\<forall>x \<in> set (free_ranges s). range_ok (range_at s) x" using W(1) by blast
  have z: "0 \<notin> set (free_ranges s)" using okF by (auto simp: range_ok_def)
  have S: "set (free_ranges s') = insert r (set (free_ranges s))" using insert_range_set [OF distinct_free(1) [OF wf] z] by (simp add: s')
  then show "r \<in> set (free_ranges s')" by simp
  have F: "used_ranges s' = used_ranges s" "range_at s' = range_at s" by (simp_all add: s')
  have "sorted_wrt (before (range_at s)) (free_ranges s')"
    unfolding s' using insert_range_sorted [OF W(3) okF okr] apart by (simp add: range_ids_def)
  then have l: "kmem_layout s'" unfolding ranges_wf_def S F using W okr apart by (simp add: range_ids_def) blast
  have ids: "range_ids s' = insert r (range_ids s)" using S by (auto simp: range_ids_def F)
  have own': "owned_page s' v \<longleftrightarrow> owned_page s v \<or> covers (range_at s) r v" for v
    by (auto simp: owned_page_def free_page_def used_page_def S F)
  have p: "pages_of (range_at s) (r # T) v \<longleftrightarrow> pages_of (range_at s) T v \<or> covers (range_at s) r v" for v by (auto simp: pages_of_def)
  have "held T s'" using h by (auto simp: held_def own' p F) (auto simp: pages_of_def)
  moreover have "same_slabs s s'" "same_ranges X s s'" for X by (simp_all add: s' same_slabs_def same_ranges_def)
  moreover have "used_page s' v = used_page s v" for v by (simp add: used_page_def F)
  ultimately show "frees (r # T) s T s'" using l own' ids unfolding frees_def F p by auto
qed


text \<open>Two adjacent free ranges made one.\<close>

lemma merge_free:
  assumes ok: "freeing_ok T s" and ab: "a \<in> set (free_ranges s)" "b \<in> set (free_ranges s)"
    and adj: "base_vaddr (range_at s a) + nb_pages (range_at s a) * SOS_PAGE_SIZE = base_vaddr (range_at s b)"
    and s': "s' = upd_range a (\<lambda>r. r\<lparr>nb_pages := nb_pages r + nb_pages (range_at s b)\<rparr>) s\<lparr>free_ranges := remove1 b (free_ranges s)\<rparr>"
  shows "frees T s T s'" "structs_on_slab {b} s'" "a \<in> set (free_ranges s')"
proof -
  have wf: "kmem_layout s" and h: "held T s" using ok by (simp_all add: freeing_ok_def)
  note W = ranges_wfD [OF wf]
  have rs: "range_at s' = (range_at s)(a := (range_at s a)\<lparr>nb_pages := nb_pages (range_at s a) + nb_pages (range_at s b)\<rparr>)"
    and F: "free_ranges s' = remove1 b (free_ranges s)" "used_ranges s' = used_ranges s"
    by (simp_all add: s' upd_range_def)
  have e: "r_end (range_at s) a = r_start (range_at s) b"
    using adj range_end_word [OF W(1) [OF ab(1)]] by (simp add: r_start_def)
  note M = merge_ranges [OF wf ab e rs]
  have S: "set (free_ranges s') = set (free_ranges s) - {b}" using distinct_free(1) [OF wf] F by simp
  then show "a \<in> set (free_ranges s')" using ab(1) M(3) by simp
  have c: "covers (range_at s') x v = covers (range_at s) x v" "range_ok (range_at s') x = range_ok (range_at s) x" if "x \<noteq> a" for x v
    using that by (simp_all add: rs covers_def range_ok_def r_start_def r_end_def)
  have free: "free_page s' v \<longleftrightarrow> free_page s v" for v
    unfolding free_page_def S using M(2,3) c(1) ab by (metis (no_types, lifting) Diff_iff empty_iff insert_iff)
  have au: "a \<notin> set (used_ranges s)" using used_not_free [OF wf] ab(1) by blast
  have used: "used_page s' v \<longleftrightarrow> used_page s v" for v unfolding used_page_def F(2) using c(1) au by metis
  have own: "owned_page s' v \<longleftrightarrow> owned_page s v" for v by (simp add: owned_page_def free used)
  have aT: "t \<noteq> a" if "t \<in> set T" for t using held_out [OF h that] ab(1) by (auto simp: range_ids_def)
  have p: "pages_of (range_at s') T v = pages_of (range_at s) T v" for v unfolding pages_of_def using c(1) aT by blast
  have "sorted_wrt (\<lambda>a b. \<forall>v. \<not> (covers (range_at s') a v \<and> covers (range_at s') b v)) T"
    using h c(1) aT unfolding held_def by (auto elim!: sorted_wrt_mono_rel [rotated])
  then have "held T s'" using h c(2) aT by (simp add: held_def p own)
  moreover have ids: "range_ids s' \<subseteq> range_ids s" by (auto simp: range_ids_def S F(2))
  moreover have "kmem_layout s'" using M(1) F by simp
  moreover have ss: "same_slabs s s'" by (simp add: s' same_slabs_def upd_range_def)
  moreover have "same_ranges (- (range_ids s \<union> set T)) s s'" using ab(1) by (auto simp: same_ranges_def rs range_ids_def)
  ultimately show "frees T s T s'" unfolding frees_def p own using used by blast
  show "structs_on_slab {b} s'"
    using ok ab(2) structs_mono [OF _ ss, of "range_ids s \<union> set T" "{b}"] by (simp add: freeing_ok_def range_ids_def)
qed

lemma release_merged_step:
  assumes run: "release_merged cf x T s = Some (T', s')" and ok: "freeing_ok T s" and on: "structs_on_slab {x} s"
  shows "frees T s T' s'" "free_ranges s' = free_ranges s"
proof -
  obtain e s1 where r: "sos_kmem_cache_release_struct_range cf x s = Some (e, s1)"
    and e: "if e \<noteq> 0 then e \<in> set (used_ranges s1) \<and> T' = T @ [e] \<and> s' = s1\<lparr>used_ranges := remove1 e (used_ranges s1)\<rparr> else T' = T \<and> s' = s1"
    using run by (auto simp: release_merged_def bind_eq_Some_conv add_tail_def split: if_splits)
  have so: "slabs_only s s1" by (rule release_struct_step [OF r on])
  have 1: "frees T s T s1" by (rule slabs_only_frees [OF so ok])
  have "frees T s1 T' s'"
  proof (cases "e = 0")
    case True
    then show ?thesis using e slabs_only_frees [OF slabs_only_upd(1) freeing_okI [OF ok 1]] by simp
  next
    case False
    then show ?thesis using e hold_used(1) [OF freeing_okI [OF ok 1], of e s'] by simp
  qed
  then show "frees T s T' s'" by (rule frees_trans [OF 1])
  show "free_ranges s' = free_ranges s" using e so by (auto simp: slabs_only_def split: if_splits)
qed

lemma after_in_mem: "h \<in> set xs \<or> xs = [] \<Longrightarrow> xs \<noteq> [] \<Longrightarrow> after_in x h xs \<in> set xs"
proof -
  have "after_in x h xs = h \<or> after_in x h xs \<in> set xs" for xs by (induction x h xs rule: after_in.induct) auto
  then show "h \<in> set xs \<or> xs = [] \<Longrightarrow> xs \<noteq> [] \<Longrightarrow> after_in x h xs \<in> set xs" by metis
qed

lemma neighbours_mem: "x \<in> set xs \<Longrightarrow> list_next x xs \<in> set xs" "x \<in> set xs \<Longrightarrow> list_prev x xs \<in> set xs"
proof -
  have *: "list_next x xs \<in> set xs" if "x \<in> set xs" for xs
    using that after_in_mem [of "hd xs" xs x] by (cases xs) (auto simp: list_next_def)
  show "x \<in> set xs \<Longrightarrow> list_next x xs \<in> set xs" by (rule *)
  show "x \<in> set xs \<Longrightarrow> list_prev x xs \<in> set xs" using * [of "rev xs"] by (simp add: list_prev_def)
qed

lemma merge_prev_step:
  assumes run: "merge_prev cf x T s = Some (x', T', s')" and ok: "freeing_ok T s" and x: "x \<in> set (free_ranges s)"
  shows "frees T s T' s'" "x' \<in> set (free_ranges s')"
proof -
  let ?p = "list_prev x (free_ranges s)"
  have p: "?p \<in> set (free_ranges s)" by (rule neighbours_mem(2) [OF x])
  define s1 where "s1 = upd_range ?p (\<lambda>r. r\<lparr>nb_pages := nb_pages r + nb_pages (range_at s x)\<rparr>) s\<lparr>free_ranges := remove1 x (free_ranges s)\<rparr>"
  have "frees T s T' s' \<and> x' \<in> set (free_ranges s')"
  proof (cases "base_vaddr (range_at s ?p) + nb_pages (range_at s ?p) * SOS_PAGE_SIZE = base_vaddr (range_at s x)")
    case True
    have m: "release_merged cf x T s1 = Some (T', s')" "x' = ?p"
      using run True by (auto simp: merge_prev_def s1_def upd_range_def bind_eq_Some_conv Let_def)
    note M = merge_free [OF ok p x True s1_def]
    note R = release_merged_step [OF m(1) freeing_okI [OF ok M(1)] M(2)]
    show ?thesis using frees_trans [OF M(1) R(1)] R(2) M(3) m(2) by simp
  next
    case False
    then show ?thesis using run slabs_only_frees [OF slabs_only_upd(1) ok] x by (simp add: merge_prev_def Let_def)
  qed
  then show "frees T s T' s'" "x' \<in> set (free_ranges s')" by blast+
qed

lemma merge_next_step:
  assumes run: "merge_next cf x T s = Some (T', s')" and ok: "freeing_ok T s" and x: "x \<in> set (free_ranges s)"
  shows "frees T s T' s'"
proof -
  let ?n = "list_next x (free_ranges s)"
  have n: "?n \<in> set (free_ranges s)" by (rule neighbours_mem(1) [OF x])
  define s1 where "s1 = upd_range x (\<lambda>r. r\<lparr>nb_pages := nb_pages r + nb_pages (range_at s ?n)\<rparr>) s\<lparr>free_ranges := remove1 ?n (free_ranges s)\<rparr>"
  show ?thesis
  proof (cases "base_vaddr (range_at s x) + nb_pages (range_at s x) * SOS_PAGE_SIZE = base_vaddr (range_at s ?n)")
    case True
    have m: "release_merged cf ?n T s1 = Some (T', s')"
      using run True by (auto simp: merge_next_def s1_def upd_range_def bind_eq_Some_conv Let_def)
    note M = merge_free [OF ok x n True s1_def]
    show ?thesis by (rule frees_trans [OF M(1) release_merged_step(1) [OF m freeing_okI [OF ok M(1)] M(2)]])
  next
    case False
    then show ?thesis using run slabs_only_frees [OF slabs_only_upd(1) ok] by (simp add: merge_next_def Let_def)
  qed
qed

text \<open>The loop frees the range it is given and all that wait behind it.\<close>

lemma del_range_loop_frees:
  assumes "del_range_loop cf x T s = Some s'" "freeing_ok (x # T) s"
  shows "frees (x # T) s [] s'"
proof -
  have "freeing_ok (x # T) s \<longrightarrow> frees (x # T) s [] s'"
  proof (rule del_range_loop.raw_induct [where P = "\<lambda>cf x T s s'. freeing_ok (x # T) s \<longrightarrow> frees (x # T) s [] s'", OF _ assms(1)], goal_cases)
    case (1 rec cf x T s s')
    show ?case
    proof
      assume ok: "freeing_ok (x # T) s"
      define s1 where "s1 = s\<lparr>free_ranges := insert_range (range_at s) (free_ranges s) x\<rparr>"
      obtain g x' T1 s2 T2 s3 where g: "range_unmap (range_at s1 x) (pg s1) = Some g"
        and p: "merge_prev cf x T (s1\<lparr>pg := g\<rparr>) = Some (x', T1, s2)" and n: "merge_next cf x' T1 s2 = Some (T2, s3)"
        and l: "(case pop_head T2 of None \<Rightarrow> Some s3 | Some (y, T3) \<Rightarrow> rec cf y T3 s3) = Some s'"
        using 1(2) by (auto simp: s1_def bind_eq_Some_conv Let_def)
      note I = insert_held [OF ok s1_def]
      note ok1 = freeing_okI [OF ok I(1)]
      have U: "frees T s1 T (s1\<lparr>pg := g\<rparr>)" by (rule frees_same [OF ok1]) (simp_all add: same_ranges_def same_slabs_def)
      note P = merge_prev_step [OF p freeing_okI [OF ok1 U]]
      have x1: "x \<in> set (free_ranges (s1\<lparr>pg := g\<rparr>))" using I(2) by simp
      note ok2 = freeing_okI [OF freeing_okI [OF ok1 U] P(1) [OF x1]]
      note N = merge_next_step [OF n ok2 P(2) [OF x1]]
      note all = frees_trans [OF frees_trans [OF frees_trans [OF I(1) U] P(1) [OF x1]] N]
      show "frees (x # T) s [] s'"
      proof (cases T2)
        case Nil
        then show ?thesis using l all by simp
      next
        case (Cons y T3)
        then have "rec cf y T3 s3 = Some s'" using l by simp
        then have "freeing_ok (y # T3) s3 \<longrightarrow> frees (y # T3) s3 [] s'" by (rule 1(1))
        then show ?thesis using frees_trans [OF all] freeing_okI [OF ok2 N] Cons by simp
      qed
    qed
  qed
  then show ?thesis using assms(2) by blast
qed


lemma del_range_with_frees:
  assumes run: "del_range_with cf r s = Some (e, s')" and ok: "freeing_ok [] s"
  shows "e = SOS_OK" "r \<in> set (used_ranges s)" "frees [] s [] s'" "covers (range_at s) r v \<Longrightarrow> \<not> used_page s' v"
proof -
  define s1 where "s1 = s\<lparr>used_ranges := remove1 r (used_ranges s)\<rparr>"
  have d: "e = SOS_OK" "r \<in> set (used_ranges s)" "del_range_loop cf r [] s1 = Some s'"
    using run by (auto simp: del_range_with_def s1_def bind_eq_Some_conv)
  show "e = SOS_OK" "r \<in> set (used_ranges s)" by (rule d)+
  note H = hold_used(2) [OF ok d(2) s1_def]
  note L = del_range_loop_frees [OF d(3) freeing_okI [OF ok H]]
  show "frees [] s [] s'" by (rule frees_trans [OF H L])
  assume v: "covers (range_at s) r v"
  then have "pages_of (range_at s1) [r] v" by (simp add: pages_of_def s1_def)
  moreover have "held [r] s1" using freesD(2) [OF H] by simp
  ultimately show "\<not> used_page s' v" using freesD(8) [OF L, of v] by (auto simp: held_def owned_page_def)
qed

section \<open>The calls that free\<close>

lemma cache_free_frees:
  assumes "sos_kmem_cache_free v s = Some (r, s')" "freeing_ok [] s"
  shows "frees [] s [] s'"
proof -
  have "freeing_ok [] s \<longrightarrow> frees [] s [] (snd (r, s'))"
  proof (rule sos_kmem_cache_free.raw_induct [where P = "\<lambda>v s r. freeing_ok [] s \<longrightarrow> frees [] s [] (snd r)", OF _ assms(1)], goal_cases)
    case (1 rec v s res)
    show ?case
    proof
      assume ok: "freeing_ok [] s"
      obtain e k s1 where f: "free_object v s = Some (e, k, s1)" using 1(2) by (auto simp: bind_eq_Some_conv)
      have so: "frees [] s [] s1" by (rule slabs_only_frees [OF free_object_step(1) [OF f] ok])
      note ok1 = freeing_okI [OF ok so]
      have cf: "frees [] t [] t'" if "rec v t = Some (r, t')" "freeing_ok [] t" for v t r t' using 1(1) [OF that(1)] that(2) by simp
      show "frees [] s [] (snd res)"
      proof (cases "e = SOS_OK \<and> k \<noteq> 0")
        case True
        obtain r s2 where res: "res = (r, s2)" by (cases res)
        have rel: "cache_release_slab rec (del_range_with rec) k True s1 = Some (r, s2)" using 1(2) f True res by simp
        have "frees [] s1 [] s2"
          by (rule release_slab_step [OF cf del_range_with_frees(3) rel ok1])
        then show ?thesis using frees_trans [OF so] res by simp
      next
        case False
        then have "snd res = s1" using 1(2) f by (auto split: if_splits)
        then show ?thesis using so by simp
      qed
    qed
  qed
  then show ?thesis using assms(2) by simp
qed

lemma vmm_free_frees:
  assumes "sos_kmem_vmm_free v s = Some (r, s')" "freeing_ok [] s"
  shows "frees [] s [] s'"
  using assms slabs_only_frees [OF slabs_only_upd(1) assms(2)] del_range_with_frees(3)
  by (auto simp: sos_kmem_vmm_free_def sos_kmem_vmm_del_range_def bind_eq_Some_conv split: if_splits)

lemma kfree_frees:
  assumes "sos_kfree v s = Some (r, s')" "freeing_ok [] s"
  shows "frees [] s [] s'"
proof -
  obtain e s1 where f: "sos_kmem_cache_free v s = Some (e, s1)" using assms(1) by (auto simp: sos_kfree_def bind_eq_Some_conv)
  note C = cache_free_frees [OF f assms(2)]
  show ?thesis
  proof (cases "e = SOS_OK")
    case True
    then show ?thesis using assms(1) f C by (simp add: sos_kfree_def)
  next
    case False
    then have "sos_kmem_vmm_free v s1 = Some (r, s')" using assms(1) f by (simp add: sos_kfree_def)
    then show ?thesis using frees_trans [OF C vmm_free_frees] freeing_okI [OF assms(2) C] by blast
  qed
qed

end
