(* ===== verification/Kmem_free_props.thy ===== *)
theory Kmem_free_props
  imports Kmem_free
begin

text \<open>
  What the callers of the deallocation rely on: deleting a range that touches no free range always succeeds and releases exactly its pages,
  and no free, whatever it sets off, loses a page or gives one twice.
\<close>

section \<open>Deleting a range that touches no free range\<close>

lemma unmap_step:
  assumes wf: "paging_wf g" and v: "pd_ix v \<noteq> 255"
  obtains e g' where "sos_paging_unmap v g = Some (e, g')" "paging_wf g'" "mmu_translate False g' v = None"
    "\<And>v'. \<not> in_mirror v' \<Longrightarrow> drop_bit 12 v' \<noteq> drop_bit 12 v \<Longrightarrow> mmu_translate False g' v' = mmu_translate False g v'"
proof (cases "mapped g (pd_ix v) (pt_ix v)")
  case None
  then show thesis using that [of "- SOS_EINVAL" g] unmap_absent [OF wf, of v] wf by (simp add: translate_mapped [OF v])
next
  case (Some q)
  obtain g' where r: "sos_paging_unmap v g = Some (SOS_OK, g')" and post: "unmap_post (pd_ix v) (pt_ix v) q g g'"
    using unmap_present [OF wf v Some] by blast
  note P = unmap_postD [OF post]
  show thesis by (rule that [OF r P(1)]) (use P(3) other_page [OF P(5)] in \<open>simp_all add: translate_mapped [OF v]\<close>)
qed

lemma translate_page: "drop_bit 12 v = drop_bit 12 w \<Longrightarrow> mmu_translate False g v = None \<longleftrightarrow> mmu_translate False g w = None"
  using translate_mapped [of v g] translate_mapped [of w g] page_ix [of v w] translate_ix [of False g v] translate_ix [of False g w] by auto

definition pages_at :: "u32 \<Rightarrow> nat \<Rightarrow> u32 \<Rightarrow> bool" where
  "pages_at b n v \<longleftrightarrow> unat b \<le> unat v \<and> unat v < unat b + n * 4096"

lemma unmap_pages:
  assumes wf: "paging_wf g" and b: "unat b mod 4096 = 0" "unat b + n * 4096 \<le> unat SOS_KMEM_VMM_TOP"
  shows "\<exists>g'. fold_opt (\<lambda>i g. map_option snd (sos_paging_unmap (b + word_of_nat i * SOS_PAGE_SIZE) g)) [0..<n] g = Some g' \<and> paging_wf g' \<and>
    (\<forall>v. pages_at b n v \<longrightarrow> mmu_translate False g' v = None) \<and>
    (\<forall>v. \<not> in_mirror v \<longrightarrow> \<not> pages_at b n v \<longrightarrow> mmu_translate False g' v = mmu_translate False g v)"
  using b(2)
proof (induction n)
  case 0
  then show ?case using wf by (auto simp: pages_at_def)
next
  case (Suc n)
  let ?f = "\<lambda>i g. map_option snd (sos_paging_unmap (b + word_of_nat i * SOS_PAGE_SIZE) g)"
  obtain g1 where g1: "fold_opt ?f [0..<n] g = Some g1" "paging_wf g1" "\<And>v. pages_at b n v \<Longrightarrow> mmu_translate False g1 v = None"
    "\<And>v. \<not> in_mirror v \<Longrightarrow> \<not> pages_at b n v \<Longrightarrow> mmu_translate False g1 v = mmu_translate False g v"
    using Suc by auto
  define a where "a = b + word_of_nat n * SOS_PAGE_SIZE"
  have top: "unat SOS_KMEM_VMM_TOP = 0x3fc00000" by (simp add: SOS_KMEM_VMM_TOP_def mirror_vaddr)
  have ua: "unat a = unat b + n * 4096"
  proof -
    have e: "b + word_of_nat n * SOS_PAGE_SIZE = word_of_nat (unat b + n * 4096)" by (simp add: SOS_PAGE_SIZE_def)
    show ?thesis unfolding a_def e by (rule unat_of_nat_small) (use Suc(2) top in simp)
  qed
  have pa: "pages_at b (Suc n) v \<longleftrightarrow> pages_at b n v \<or> drop_bit 12 v = drop_bit 12 a" for v
  proof -
    have "drop_bit 12 v = drop_bit 12 a \<longleftrightarrow> unat v div 4096 = unat a div 4096"
      by (simp add: word_unat_eq_iff unat_drop_bit)
    moreover obtain k where "unat b = 4096 * k" using b(1) by auto
    ultimately show ?thesis unfolding pages_at_def ua by auto
  qed
  have n: "pd_ix a \<noteq> 255" using Suc(2) top ua by (simp add: pd_ix_def)
  then have na: "\<not> in_mirror a" by (simp add: not_in_mirror)
  obtain e g2 where g2: "sos_paging_unmap a g1 = Some (e, g2)" "paging_wf g2" "mmu_translate False g2 a = None"
    "\<And>v'. \<not> in_mirror v' \<Longrightarrow> drop_bit 12 v' \<noteq> drop_bit 12 a \<Longrightarrow> mmu_translate False g2 v' = mmu_translate False g1 v'"
    by (rule unmap_step [OF g1(2) n]) blast
  have "fold_opt ?f [0..<Suc n] g = Some g2" using g1(1) g2(1) by (simp add: fold_opt_append a_def)
  moreover have "mmu_translate False g2 v = None" if v: "pages_at b (Suc n) v" for v
  proof (cases "drop_bit 12 v = drop_bit 12 a")
    case True
    then show ?thesis using g2(3) translate_page by blast
  next
    case False
    then have p: "pages_at b n v" using v pa by blast
    then have "unat v < 255 * 2 ^ 22" using Suc(2) top by (simp add: pages_at_def)
    then have "pd_ix v < 255" unfolding pd_ix_def by (rule less_mult_imp_div_less)
    then have "pd_ix v \<noteq> 255" by simp
    then show ?thesis using g2(4) [of v] g1(3) [OF p] False by (simp add: not_in_mirror)
  qed
  ultimately show ?case using g2(2,4) g1(4) pa by metis
qed

lemma del_range_alone:
  assumes wf: "kmem_layout s" "paging_wf (pg s)" and r: "r \<in> set (used_ranges s)" "range_slab (range_at s r) = 0"
    and alone: "\<forall>f \<in> set (free_ranges s). r_end (range_at s) f \<noteq> r_start (range_at s) r \<and> r_end (range_at s) r \<noteq> r_start (range_at s) f"
  obtains g where "sos_kmem_vmm_del_range r s = Some (SOS_OK, s\<lparr>used_ranges := remove1 r (used_ranges s),
      free_ranges := insert_range (range_at s) (free_ranges s) r, pg := g\<rparr>)" "paging_wf g"
    "\<And>v. covers (range_at s) r v \<Longrightarrow> mmu_translate False g v = None"
    "\<And>v. \<not> in_mirror v \<Longrightarrow> \<not> covers (range_at s) r v \<Longrightarrow> mmu_translate False g v = mmu_translate False (pg s) v"
proof -
  note W = ranges_wfD [OF wf(1)]
  let ?m = "range_at s" and ?F = "insert_range (range_at s) (free_ranges s) r"
  have okr: "range_ok ?m r" by (rule W(2) [OF r(1)])
  have b: "unat (base_vaddr (?m r)) mod 4096 = 0" "unat (base_vaddr (?m r)) + unat (nb_pages (?m r)) * 4096 \<le> unat SOS_KMEM_VMM_TOP"
    using okr by (simp_all add: range_ok_def r_start_def r_end_def)
  have cov: "pages_at (base_vaddr (?m r)) (unat (nb_pages (?m r))) v = covers ?m r v" for v
    by (simp add: pages_at_def covers_def r_start_def r_end_def)
  obtain g where g: "range_unmap (?m r) (pg s) = Some g" "paging_wf g" "\<And>v. covers ?m r v \<Longrightarrow> mmu_translate False g v = None"
    "\<And>v. \<not> in_mirror v \<Longrightarrow> \<not> covers ?m r v \<Longrightarrow> mmu_translate False g v = mmu_translate False (pg s) v"
    using unmap_pages [OF wf(2) b] unfolding cov range_unmap_def by blast
  have z: "0 \<notin> set (free_ranges s)" using W(1) by (auto simp: range_ok_def)
  have S: "set ?F = insert r (set (free_ranges s))" by (rule insert_range_set [OF distinct_free(1) [OF wf(1)] z])
  have far: "base_vaddr (?m x) + nb_pages (?m x) * SOS_PAGE_SIZE \<noteq> base_vaddr (?m y)"
    if "x \<in> set ?F" "y \<in> set ?F" "x = r \<or> y = r" for x y
  proof -
    have "range_ok ?m x" using that(1) W(1) okr S by auto
    moreover have "r_end ?m x \<noteq> r_start ?m y" using that alone okr S by (auto simp: range_ok_def)
    ultimately show ?thesis using range_end_word [of ?m x] by (auto simp: r_start_def)
  qed
  have in_r: "r \<in> set ?F" using S by simp
  define s1 where "s1 = s\<lparr>used_ranges := remove1 r (used_ranges s), free_ranges := ?F, pg := g\<rparr>"
  have "merge_prev sos_kmem_cache_free r [] s1 = Some (r, [], s1)" "merge_next sos_kmem_cache_free r [] s1 = Some ([], s1)"
    using far [OF neighbours_mem(2) [OF in_r] in_r] far [OF in_r neighbours_mem(1) [OF in_r]]
    by (simp_all add: merge_prev_def merge_next_def s1_def)
  then have "del_range_loop sos_kmem_cache_free r [] (s\<lparr>used_ranges := remove1 r (used_ranges s)\<rparr>) = Some s1"
    using g(1) by (subst del_range_loop.simps) (simp add: s1_def)
  then have "sos_kmem_vmm_del_range r s = Some (SOS_OK, s1)"
    using r okr by (simp add: sos_kmem_vmm_del_range_def del_range_with_def range_ok_def)
  then show thesis using that g unfolding s1_def by blast
qed


section \<open>The properties\<close>

text \<open>An example: the pages of \<open>km_example\<close> that were free are a used range.\<close>

definition km_used :: kmem where
  "km_used = km_example\<lparr>free_ranges := [], used_ranges := [0x5014, 0x5028]\<rparr>"

lemma km_used_ok: "kmem_layout km_used" "structs_on_slab X km_used" "paging_wf (pg km_used)"
proof -
  show "kmem_layout km_used"
    by (simp add: ranges_wf_def range_ok_def before_def r_start_def r_end_def km_used_def km_example_def SOS_KMEM_VMM_TOP_def mirror_vaddr)
  have "cache_flags (cache_at km_used c) AND ON_SLAB \<noteq> 0" for c unfolding km_used_def km_example_def kmem.simps kslab_cache.simps by code_simp
  then show "structs_on_slab X km_used" by (simp add: structs_on_slab_def)
  show "paging_wf (pg km_used)" using pg_example_wf(1) by (simp add: km_used_def km_example_def)
qed

lemma km_used_del:
  obtains g where "sos_kmem_vmm_del_range 0x5028 km_used = Some (SOS_OK, km_used\<lparr>used_ranges := [0x5014], free_ranges := [0x5028], pg := g\<rparr>)"
proof -
  have r: "0x5028 \<in> set (used_ranges km_used)" "range_slab (range_at km_used 0x5028) = 0" "free_ranges km_used = []"
    "remove1 0x5028 (used_ranges km_used) = [0x5014]" "insert_range (range_at km_used) [] 0x5028 = [0x5028]"
    by (simp_all add: km_used_def km_example_def insert_range_def get_closest_preceding_kmem_range_def add_head_def)
  show thesis by (rule del_range_alone [OF km_used_ok(1,3) r(1,2)]) (use r that in simp_all)
qed

text \<open>
  C16: Freeing loses no page and gives none away. Whatever \<open>sos_kfree\<close>, \<open>sos_kmem_cache_free\<close>, \<open>sos_kmem_vmm_free\<close> and
  \<open>sos_kmem_vmm_del_range\<close> are given, and however deep the frees they set off go (an object empties its slab, the slab's range
  is deleted and merged with its free neighbours, the structures of the merged ranges empty slabs of ranges), when they return both lists
  are still sorted and free of overlaps, the free and the used pages together are the same as before, no page has become used,
  no range has appeared, and the structures that were in neither list name the same pages as before.
\<close>

theorem freeing_conserves_ranges:
  assumes "free \<in> {sos_kfree, sos_kmem_cache_free, sos_kmem_vmm_free, sos_kmem_vmm_del_range}"
    and "ranges_wf (range_at s) (free_ranges s) (used_ranges s)" and "structs_on_slab (range_ids s) s"
    and "free v s = Some (r, s')"
  shows "ranges_wf (range_at s') (free_ranges s') (used_ranges s') \<and>
    (\<forall>p. free_page s' p \<or> used_page s' p \<longleftrightarrow> free_page s p \<or> used_page s p) \<and>
    (\<forall>p. used_page s' p \<longrightarrow> used_page s p) \<and>
    range_ids s' \<subseteq> range_ids s \<and>
    (\<forall>x. x \<notin> range_ids s \<longrightarrow> base_vaddr (range_at s' x) = base_vaddr (range_at s x) \<and> nb_pages (range_at s' x) = nb_pages (range_at s x))"
proof -
  have ok: "freeing_ok [] s" using assms(2,3) by (simp add: freeing_ok_def held_def pages_of_def)
  have "frees [] s [] s'"
    using assms(1,4) cache_free_frees [OF _ ok] vmm_free_frees [OF _ ok] kfree_frees [OF _ ok] del_range_with_frees(3) [OF _ ok]
    by (auto simp: sos_kmem_vmm_del_range_def)
  then show ?thesis unfolding frees_def owned_page_def pages_of_def same_ranges_def by auto
qed

theorem freeing_conserves_ranges_witness:
  "\<exists>s'. sos_kmem_vmm_del_range 0x5028 km_used = Some (SOS_OK, s') \<and> used_ranges s' = [0x5014] \<and> free_ranges s' = [0x5028] \<and>
     (\<forall>p. free_page s' p \<or> used_page s' p \<longleftrightarrow> free_page km_used p \<or> used_page km_used p)"
proof (rule km_used_del)
  fix g
  assume d: "sos_kmem_vmm_del_range 0x5028 km_used = Some (SOS_OK, km_used\<lparr>used_ranges := [0x5014], free_ranges := [0x5028], pg := g\<rparr>)"
  show ?thesis using freeing_conserves_ranges [where free = sos_kmem_vmm_del_range, OF _ km_used_ok(1) km_used_ok(2) d] d by simp
qed

text \<open>
  C17: Deleting a used range that holds no slab and touches no free range always returns and succeeds: the range moves from the
  used list to the free one, where the list stays sorted, exactly its pages become free, none of its addresses is translated any more,
  every other address outside the mirror translates as before, and the page tables stay consistent. When a call of
  \<open>sos_kmem_vmm_del_range\<close> returns at all, with any neighbours, it has succeeded, the range was a used one, and all its pages are free.
\<close>

theorem del_range_releases:
  assumes "ranges_wf (range_at s) (free_ranges s) (used_ranges s)"
  shows "(paging_wf (pg s) \<longrightarrow> x \<in> set (used_ranges s) \<longrightarrow> range_slab (range_at s x) = 0 \<longrightarrow>
      (\<forall>f \<in> set (free_ranges s). r_end (range_at s) f \<noteq> r_start (range_at s) x \<and> r_end (range_at s) x \<noteq> r_start (range_at s) f) \<longrightarrow>
      (\<exists>s'. sos_kmem_vmm_del_range x s = Some (SOS_OK, s') \<and> ranges_wf (range_at s') (free_ranges s') (used_ranges s') \<and>
         set (free_ranges s') = insert x (set (free_ranges s)) \<and> set (used_ranges s') = set (used_ranges s) - {x} \<and>
         (\<forall>p. free_page s' p \<longleftrightarrow> free_page s p \<or> covers (range_at s) x p) \<and>
         (\<forall>p. used_page s' p \<longleftrightarrow> used_page s p \<and> \<not> covers (range_at s) x p) \<and> paging_wf (pg s') \<and>
         (\<forall>v. covers (range_at s) x v \<longrightarrow> mmu_translate False (pg s') v = None) \<and>
         (\<forall>v. \<not> in_mirror v \<longrightarrow> \<not> covers (range_at s) x v \<longrightarrow> mmu_translate False (pg s') v = mmu_translate False (pg s) v))) \<and>
    (structs_on_slab (range_ids s) s \<longrightarrow> sos_kmem_vmm_del_range x s = Some (r, s') \<longrightarrow>
      r = SOS_OK \<and> x \<in> set (used_ranges s) \<and> (\<forall>p. covers (range_at s) x p \<longrightarrow> free_page s' p \<and> \<not> used_page s' p))"
proof (intro conjI impI allI)
  assume p: "paging_wf (pg s)" and x: "x \<in> set (used_ranges s)" "range_slab (range_at s x) = 0"
    and alone: "\<forall>f \<in> set (free_ranges s). r_end (range_at s) f \<noteq> r_start (range_at s) x \<and> r_end (range_at s) x \<noteq> r_start (range_at s) f"
  note W = ranges_wfD [OF assms]
  obtain g where g: "sos_kmem_vmm_del_range x s = Some (SOS_OK, s\<lparr>used_ranges := remove1 x (used_ranges s),
      free_ranges := insert_range (range_at s) (free_ranges s) x, pg := g\<rparr>)" "paging_wf g"
    "\<And>v. covers (range_at s) x v \<Longrightarrow> mmu_translate False g v = None"
    "\<And>v. \<not> in_mirror v \<Longrightarrow> \<not> covers (range_at s) x v \<Longrightarrow> mmu_translate False g v = mmu_translate False (pg s) v"
    by (rule del_range_alone [OF assms p x alone]) blast
  let ?F = "insert_range (range_at s) (free_ranges s) x" and ?U = "remove1 x (used_ranges s)"
  have M: "ranges_wf (range_at s) ?F ?U" "set ?F = insert x (set (free_ranges s))" "set ?U = set (used_ranges s) - {x}"
    using move_to_free [OF assms x(1)] by blast+
  have u: "used_page s q \<and> \<not> covers (range_at s) x q \<longleftrightarrow> (\<exists>r \<in> set (used_ranges s) - {x}. covers (range_at s) r q)" for q
    using used_unique [OF assms x(1)] by (auto simp: used_page_def range_ids_def)
  show "\<exists>s'. sos_kmem_vmm_del_range x s = Some (SOS_OK, s') \<and> ranges_wf (range_at s') (free_ranges s') (used_ranges s') \<and>
         set (free_ranges s') = insert x (set (free_ranges s)) \<and> set (used_ranges s') = set (used_ranges s) - {x} \<and>
         (\<forall>p. free_page s' p \<longleftrightarrow> free_page s p \<or> covers (range_at s) x p) \<and>
         (\<forall>p. used_page s' p \<longleftrightarrow> used_page s p \<and> \<not> covers (range_at s) x p) \<and> paging_wf (pg s') \<and>
         (\<forall>v. covers (range_at s) x v \<longrightarrow> mmu_translate False (pg s') v = None) \<and>
         (\<forall>v. \<not> in_mirror v \<longrightarrow> \<not> covers (range_at s) x v \<longrightarrow> mmu_translate False (pg s') v = mmu_translate False (pg s) v)"
    using g M u by (intro exI [of _ "s\<lparr>used_ranges := ?U, free_ranges := ?F, pg := g\<rparr>"]) (auto simp: free_page_def used_page_def)
next
  assume on: "structs_on_slab (range_ids s) s" and d: "sos_kmem_vmm_del_range x s = Some (r, s')"
  have ok: "freeing_ok [] s" using assms on by (simp add: freeing_ok_def held_def pages_of_def)
  note D = del_range_with_frees [OF d [unfolded sos_kmem_vmm_del_range_def] ok]
  show "r = SOS_OK" "x \<in> set (used_ranges s)" by (rule D)+
  fix q
  assume q: "covers (range_at s) x q"
  show "\<not> used_page s' q" by (rule D(4) [OF q])
  moreover have "owned_page s' q" using freesD(6) [OF D(3), of q] q D(2) by (auto simp: owned_page_def used_page_def pages_of_def)
  ultimately show "free_page s' q" by (simp add: owned_page_def)
qed

theorem del_range_releases_witness:
  "\<exists>s'. sos_kmem_vmm_del_range 0x5028 km_used = Some (SOS_OK, s') \<and> used_page km_used 0x6000 \<and> free_page s' 0x6000 \<and> \<not> used_page s' 0x6000 \<and>
     mmu_translate False (pg s') 0x6000 = None"
proof -
  have e: "0x5028 \<in> set (used_ranges km_used)" "range_slab (range_at km_used 0x5028) = 0" "free_ranges km_used = []"
    "covers (range_at km_used) 0x5028 0x6000" "used_page km_used 0x6000"
    by (simp_all add: km_used_def km_example_def covers_def used_page_def r_start_def r_end_def)
  note R = del_range_releases [where x = "0x5028", OF km_used_ok(1), THEN conjunct1]
  have alone: "\<forall>f \<in> set (free_ranges km_used). r_end (range_at km_used) f \<noteq> r_start (range_at km_used) 0x5028 \<and>
      r_end (range_at km_used) 0x5028 \<noteq> r_start (range_at km_used) f"
    using e(3) by simp
  show ?thesis using R [THEN mp, THEN mp, THEN mp, THEN mp, OF km_used_ok(3) e(1,2) alone] e(4,5) by blast
qed

end
