(* ===== verification/Kformat.thy ===== *)
theory Kformat
  imports SOS_Base "HOL-Library.Signed_Division" "HOL-Library.Char_ord"
begin

text \<open>
  Formatted output: \<open>vsnprintf\<close> (\<^verbatim>\<open>lib/klibc.c\<close>) and the text console (\<^verbatim>\<open>lib/stdio.c\<close>). The characters of a
  format come before its terminator, and an argument is a number or a string, null or not, without its
  terminator. No result stands for an argument that is missing or of the wrong kind, or for a format
  that ends inside a conversion, where the code reads past the terminator.
\<close>

datatype fmt_arg = Num u32 | Str "string option"

definition char_of_int :: "u32 \<Rightarrow> char" where
  "char_of_int c = char_of (unat c)"

section \<open>vsnprintf\<close>

text \<open>The characters written so far and their count, which goes on past the end of the buffer.\<close>

record fmt_out =
  buff :: string
  result :: u32

definition PUTCHAR :: "sos_size_t \<Rightarrow> char \<Rightarrow> fmt_out \<Rightarrow> fmt_out" where
  "PUTCHAR len thechar f =
     f\<lparr>buff := (if result f < len - 1 then buff f @ [thechar] else buff f), result := result f + 1\<rparr>"

text \<open>The digits of a signed number in the order in which \<open>buff_int\<close> receives them, the last one first.\<close>

function (sequential) buff_int :: "int \<Rightarrow> char list" where
  "buff_int integer =
     (let m10 = integer smod 10;
          m10 = (if m10 < 0 then - m10 else m10);
          c = char_of (48 + nat m10);
          integer = integer sdiv 10
      in if integer \<noteq> 0 then c # buff_int integer else [c])"
  by auto
termination
proof (relation "measure (\<lambda>i. nat \<bar>i\<bar>)")
  fix integer x xa xb xc :: int and c :: char
  assume "xc = integer sdiv 10" "xc \<noteq> 0"
  moreover have "\<bar>integer sdiv 10\<bar> = \<bar>integer\<bar> div 10"
    by (cases "integer = 0") (simp_all add: signed_divide_int_def abs_mult)
  ultimately show "(xc, integer) \<in> measure (\<lambda>i. nat \<bar>i\<bar>)" by (cases "integer = 0") (auto simp: nat_mono_iff)
qed simp

declare buff_int.simps [simp del]

text \<open>The eight hexadecimal digits, the leading zeros skipped.\<close>

definition hex_digit :: "u32 \<Rightarrow> char" where
  "hex_digit nb = (if nb < 10 then char_of (48 + unat nb) else char_of (97 + unat (nb - 10)))"

fun put_hex :: "sos_size_t \<Rightarrow> u32 \<Rightarrow> nat list \<Rightarrow> bool \<Rightarrow> fmt_out \<Rightarrow> fmt_out" where
  "put_hex len hexa [] had_nonzero f = (if \<not> had_nonzero then PUTCHAR len CHR ''0'' f else f)"
| "put_hex len hexa (i # is) had_nonzero f =
     (let nb = drop_bit 28 (push_bit (i * 4) hexa) AND 0xf
      in if nb = 0 then put_hex len hexa is had_nonzero (if had_nonzero then PUTCHAR len CHR ''0'' f else f)
         else put_hex len hexa is True (PUTCHAR len (hex_digit nb) f))"

definition put_string :: "sos_size_t \<Rightarrow> string \<Rightarrow> fmt_out \<Rightarrow> fmt_out" where
  "put_string len s f = fold (PUTCHAR len) s f"

fun vsnprintf_loop :: "sos_size_t \<Rightarrow> string \<Rightarrow> fmt_arg list \<Rightarrow> fmt_out \<Rightarrow> fmt_out option" where
  "vsnprintf_loop len [] ap f = Some f"
| "vsnprintf_loop len (c # fmt) ap f =
     (if c \<noteq> CHR ''%'' then vsnprintf_loop len fmt ap (PUTCHAR len c f)
      else case fmt of
        [] \<Rightarrow> None
      | d # fmt \<Rightarrow>
          if d = CHR ''%'' then vsnprintf_loop len fmt ap (PUTCHAR len CHR ''%'' f)
          else if d = CHR ''i'' \<or> d = CHR ''d'' then
            (case ap of
               Num w # ap \<Rightarrow>
                 let integer = sint w;
                     f = (if integer < 0 then PUTCHAR len CHR ''-'' f else f)
                 in vsnprintf_loop len fmt ap (put_string len (rev (buff_int integer)) f)
             | _ \<Rightarrow> None)
          else if d = CHR ''c'' then
            (case ap of Num w # ap \<Rightarrow> vsnprintf_loop len fmt ap (PUTCHAR len (char_of_int w) f) | _ \<Rightarrow> None)
          else if d = CHR ''s'' then
            (case ap of
               Str s # ap \<Rightarrow> vsnprintf_loop len fmt ap (put_string len (case s of None \<Rightarrow> ''(null)'' | Some s \<Rightarrow> s) f)
             | _ \<Rightarrow> None)
          else if d = CHR ''p'' \<or> d = CHR ''x'' then
            (case ap of
               Num w # ap \<Rightarrow>
                 let f = (if d = CHR ''p'' then PUTCHAR len CHR ''x'' (PUTCHAR len CHR ''0'' f) else f)
                 in vsnprintf_loop len fmt ap (put_hex len w [0..<8] False f)
             | _ \<Rightarrow> None)
          else vsnprintf_loop len fmt ap (PUTCHAR len d (PUTCHAR len CHR ''%'' f)))"

text \<open>The bytes that the call leaves in the buffer, and its result. The pointers are not null.\<close>

definition vsnprintf :: "sos_size_t \<Rightarrow> string \<Rightarrow> fmt_arg list \<Rightarrow> (string \<times> u32) option" where
  "vsnprintf len format ap = do {
     f \<leftarrow> vsnprintf_loop len format ap \<lparr>buff = [], result = 0\<rparr>;
     Some (buff f @ [CHR 0x00], result f) }"

definition snprintf :: "sos_size_t \<Rightarrow> string \<Rightarrow> fmt_arg list \<Rightarrow> (string \<times> u32) option" where
  "snprintf len format ap = vsnprintf len format ap"

section \<open>The console\<close>

definition COLUMNS :: int where "COLUMNS = 80"
definition LINES :: int where "LINES = 24"
definition ATTRIBUTE :: u8 where "ATTRIBUTE = 7"

text \<open>The colours of the characters and of their background (\<^verbatim>\<open>lib/x86_videomem.h\<close>).\<close>

definition FG_BLACK :: u32 where "FG_BLACK = 0"
definition FG_GREEN :: u32 where "FG_GREEN = 2"
definition FG_MAGENTA :: u32 where "FG_MAGENTA = 5"
definition FG_LTBLUE :: u32 where "FG_LTBLUE = 9"
definition FG_LTGREEN :: u32 where "FG_LTGREEN = 10"
definition FG_LTRED :: u32 where "FG_LTRED = 12"
definition FG_YELLOW :: u32 where "FG_YELLOW = 14"
definition BG_BLACK :: u32 where "BG_BLACK = push_bit 4 0"
definition BG_BLUE :: u32 where "BG_BLUE = 16"
definition BG_LTGRAY :: u32 where "BG_LTGRAY = push_bit 4 7"

text \<open>The video memory by offset from its base.\<close>

record console =
  xpos :: int
  ypos :: int
  video :: "int \<Rightarrow> u8"

definition cls :: "console \<Rightarrow> console" where
  "cls s = s\<lparr>video := (\<lambda>i. if 0 \<le> i \<and> i < COLUMNS * LINES * 2 then 0 else video s i), xpos := 0, ypos := 0\<rparr>"

definition newline :: "console \<Rightarrow> console" where
  "newline s = (let y = ypos s + 1 in s\<lparr>xpos := 0, ypos := (if y \<ge> LINES then 0 else y)\<rparr>)"

definition put_cell :: "u8 \<Rightarrow> u32 \<Rightarrow> console \<Rightarrow> console" where
  "put_cell attribute c s = (
     if c = 10 \<or> c = 13 then newline s
     else
       let a = (xpos s + ypos s * COLUMNS) * 2;
           s = s\<lparr>video := (video s)(a := ucast (c AND 0xFF), a + 1 := attribute), xpos := xpos s + 1\<rparr>
       in if xpos s \<ge> COLUMNS then newline s else s)"

definition putchar :: "u32 \<Rightarrow> console \<Rightarrow> console" where
  "putchar c s = put_cell ATTRIBUTE c s"

definition os_putchar :: "int \<Rightarrow> int \<Rightarrow> u8 \<Rightarrow> u32 \<Rightarrow> console \<Rightarrow> console" where
  "os_putchar yp xp attribute c s = put_cell attribute c (s\<lparr>xpos := xp, ypos := yp\<rparr>)"

text \<open>The digits of \<open>itoa\<close> as the division loop produces them; the code then reverses them in place.\<close>

function (sequential) itoa_loop :: "u32 \<Rightarrow> u32 \<Rightarrow> string" where
  "itoa_loop ud divisor =
     (if unat divisor < 2 then []
      else
        let remainder = ud mod divisor;
            c = (if remainder < 10 then char_of (unat remainder + 48) else char_of (unat remainder + 97 - 10));
            ud = ud div divisor
        in if ud \<noteq> 0 then c # itoa_loop ud divisor else [c])"
  by auto
termination
proof (relation "measure (\<lambda>(ud, _). unat ud)")
  fix ud divisor x xb :: u32 and xa :: char
  assume "\<not> unat divisor < 2" "xb = ud div divisor" "xb \<noteq> 0"
  moreover from this have "0 < unat ud div unat divisor" by (simp add: unat_div [symmetric] unat_gt_0)
  ultimately show "((xb, divisor), (ud, divisor)) \<in> measure (\<lambda>(ud, _). unat ud)"
    by (auto simp: unat_div intro!: div_less_dividend gr0I)
qed simp

declare itoa_loop.simps [simp del]

definition itoa :: "char \<Rightarrow> u32 \<Rightarrow> string" where
  "itoa base d =
     (if base = CHR ''d'' \<and> sint d < 0 then CHR ''-'' # rev (itoa_loop (- d) 10)
      else rev (itoa_loop d (if base = CHR ''x'' then 16 else 10)))"

definition int_of_char :: "char \<Rightarrow> u32" where
  "int_of_char c = scast (word_of_nat (of_char c) :: u8)"

definition put_padded :: "(u32 \<Rightarrow> console \<Rightarrow> console) \<Rightarrow> bool \<Rightarrow> nat \<Rightarrow> string \<Rightarrow> console \<Rightarrow> console" where
  "put_padded put pad0 pad p s =
     fold (\<lambda>c. put (int_of_char c)) (replicate (pad - length p) (if pad0 then CHR ''0'' else CHR '' '') @ p) s"

text \<open>The conversion after a percent sign: the zero flag, the width of one digit, and the letter.\<close>

fun conversion :: "string \<Rightarrow> (bool \<times> nat \<times> char \<times> string) option" where
  "conversion fmt =
     (let (pad0, fmt) = (case fmt of c # r \<Rightarrow> if c = CHR ''0'' then (True, r) else (False, fmt) | [] \<Rightarrow> (False, fmt));
          (pad, fmt) = (case fmt of
             c # r \<Rightarrow> if 48 \<le> (of_char c :: nat) \<and> (of_char c :: nat) \<le> 57 then (of_char c - 48, r) else (0, fmt)
           | [] \<Rightarrow> (0, fmt))
      in case fmt of [] \<Rightarrow> None | c # r \<Rightarrow> Some (pad0, pad, c, r))"

lemma conversion_shorter: "conversion fmt = Some (z, p, c, r) \<Longrightarrow> length r < length fmt"
  by (auto split: list.splits if_splits)

declare conversion.simps [simp del]

function (sequential) printf_loop :: "(u32 \<Rightarrow> console \<Rightarrow> console) \<Rightarrow> string \<Rightarrow> fmt_arg list \<Rightarrow> console \<Rightarrow> console option" where
  "printf_loop put [] args s = Some s"
| "printf_loop put (c # fmt) args s =
     (if c \<noteq> CHR ''%'' then printf_loop put fmt args (put (int_of_char c) s)
      else case conversion fmt of
        None \<Rightarrow> None
      | Some (pad0, pad, d, fmt) \<Rightarrow>
          (case args of
             [] \<Rightarrow> None
           | Num w # args \<Rightarrow>
               if d = CHR ''s'' then None
               else if d = CHR ''d'' \<or> d = CHR ''u'' \<or> d = CHR ''x''
               then printf_loop put fmt args (put_padded put pad0 pad (itoa d w) s)
               else printf_loop put fmt args (put w s)
           | Str p # args \<Rightarrow>
               if d = CHR ''s''
               then printf_loop put fmt args (put_padded put pad0 pad (case p of None \<Rightarrow> ''(null)'' | Some p \<Rightarrow> p) s)
               else None))"
  by pat_completeness auto
termination
  by (relation "measure (\<lambda>(_, fmt, _). length fmt)") (auto dest!: conversion_shorter)

definition printf :: "string \<Rightarrow> fmt_arg list \<Rightarrow> console \<Rightarrow> console option" where
  "printf format args s = printf_loop putchar format args s"

definition os_printf :: "int \<Rightarrow> int \<Rightarrow> u8 \<Rightarrow> string \<Rightarrow> fmt_arg list \<Rightarrow> console \<Rightarrow> console option" where
  "os_printf yp xp attribute format args s =
     printf_loop (\<lambda>c s. os_putchar (ypos s) (xpos s) attribute c s) format args (s\<lparr>xpos := xp, ypos := yp\<rparr>)"

end
