(* ===== verification/Kformat_props.thy ===== *)
theory Kformat_props
  imports Kformat
begin

text \<open>
  What the formatting routines write: digits in a base, the text of a format for \<open>vsnprintf\<close> and for
  \<open>printf\<close>, and that neither leaves its buffer or the screen.
\<close>

section \<open>Digits\<close>

fun digits :: "nat \<Rightarrow> nat \<Rightarrow> nat list" where
  "digits b n = (if n < b \<or> b < 2 then [n] else digits b (n div b) @ [n mod b])"

declare digits.simps [simp del]

lemma digits_value: "2 \<le> b \<Longrightarrow> foldl (\<lambda>v d. v * b + d) 0 (digits b n) = n"
  by (induction b n rule: digits.induct) (subst digits.simps, auto)

lemma digits_bound: "2 \<le> b \<Longrightarrow> d \<in> set (digits b n) \<Longrightarrow> d < b"
  by (induction b n rule: digits.induct) (subst (asm) (2) digits.simps, auto split: if_splits)

definition digit_char :: "nat \<Rightarrow> char" where
  "digit_char d = char_of (if d < 10 then 48 + d else 87 + d)"

definition dec_text :: "int \<Rightarrow> string" where
  "dec_text i = (if i < 0 then ''-'' else '''') @ map digit_char (digits 10 (nat \<bar>i\<bar>))"

definition hex_text :: "nat \<Rightarrow> string" where
  "hex_text n = map digit_char (digits 16 n)"

lemma abs_smod10: "\<bar>(i :: int) smod 10\<bar> = \<bar>i\<bar> mod 10" "\<bar>i sdiv 10\<bar> = \<bar>i\<bar> div 10"
  by (cases "i = 0"; simp add: signed_modulo_int_def signed_divide_int_def abs_mult)+

lemma buff_int_digits: "rev (buff_int i) = map digit_char (digits 10 (nat \<bar>i\<bar>))"
proof (induction i rule: buff_int.induct)
  case (1 i)
  let ?q = "i sdiv 10"
  have m: "nat (if i smod 10 < 0 then - (i smod 10) else i smod 10) = nat \<bar>i\<bar> mod 10"
    using abs_smod10(1) [of i] by (simp add: abs_if nat_mod_distrib split: if_splits)
  have q: "nat \<bar>?q\<bar> = nat \<bar>i\<bar> div 10" using abs_smod10(2) [of i] by (simp add: nat_div_distrib)
  have z: "?q \<noteq> 0 \<longleftrightarrow> \<not> nat \<bar>i\<bar> < 10"
  proof -
    have "?q = 0 \<longleftrightarrow> nat \<bar>?q\<bar> = 0" by simp
    then show ?thesis using q by (simp add: div_eq_0_iff)
  qed
  have c: "char_of (48 + nat (if i smod 10 < 0 then - (i smod 10) else i smod 10)) = digit_char (nat \<bar>i\<bar> mod 10)"
    unfolding m by (simp add: digit_char_def)
  show ?case
  proof (cases "?q \<noteq> 0")
    case True
    have IH: "rev (buff_int ?q) = map digit_char (digits 10 (nat \<bar>?q\<bar>))" by (rule 1) (use True in simp_all)
    have "buff_int i = digit_char (nat \<bar>i\<bar> mod 10) # buff_int ?q"
      using True c by (subst buff_int.simps) (simp add: Let_def)
    moreover have "digits 10 (nat \<bar>i\<bar>) = digits 10 (nat \<bar>?q\<bar>) @ [nat \<bar>i\<bar> mod 10]"
      using True z q by (subst digits.simps) simp
    ultimately show ?thesis using IH by simp
  next
    case False
    then have l: "nat \<bar>i\<bar> < 10" using z by simp
    have "buff_int i = [digit_char (nat \<bar>i\<bar> mod 10)]"
      using False c by (subst buff_int.simps) (simp add: Let_def)
    moreover have "digits 10 (nat \<bar>i\<bar>) = [nat \<bar>i\<bar>]" using l by (subst digits.simps) simp
    ultimately show ?thesis using l by simp
  qed
qed

lemma itoa_loop_digits:
  "2 \<le> unat b \<Longrightarrow> unat b \<le> 16 \<Longrightarrow> rev (itoa_loop w b) = map digit_char (digits (unat b) (unat w))"
proof (induction w b rule: itoa_loop.induct)
  case (1 w b)
  have r: "unat (w mod b) = unat w mod unat b" "unat (w div b) = unat w div unat b" by (simp_all add: unat_mod unat_div)
  have c: "(if w mod b < 10 then char_of (unat (w mod b) + 48) else char_of (unat (w mod b) + 97 - 10)) = digit_char (unat w mod unat b)"
  proof -
    have "unat (10 :: u32) = 10" by simp
    then have "w mod b < 10 \<longleftrightarrow> unat w mod unat b < 10" by (simp only: word_less_nat_alt r)
    then show ?thesis by (simp add: digit_char_def r add.commute)
  qed
  have z: "w div b \<noteq> 0 \<longleftrightarrow> \<not> unat w < unat b"
  proof -
    have "w div b = 0 \<longleftrightarrow> unat (w div b) = 0" by (simp add: unat_eq_0)
    then show ?thesis using r 1(2) by (simp add: div_eq_0_iff)
  qed
  show ?case
  proof (cases "w div b \<noteq> 0")
    case True
    have IH: "rev (itoa_loop (w div b) b) = map digit_char (digits (unat b) (unat (w div b)))"
      by (rule 1(1)) (use True 1(2,3) in simp_all)
    have "itoa_loop w b = digit_char (unat w mod unat b) # itoa_loop (w div b) b"
      using True c 1(2) by (subst itoa_loop.simps) (simp add: Let_def)
    moreover have "digits (unat b) (unat w) = digits (unat b) (unat (w div b)) @ [unat w mod unat b]"
      using True z r 1(2) by (subst digits.simps) simp
    ultimately show ?thesis using IH by simp
  next
    case False
    then have l: "unat w < unat b" using z by simp
    have "itoa_loop w b = [digit_char (unat w mod unat b)]"
      using False c 1(2) by (subst itoa_loop.simps) (simp add: Let_def)
    moreover have "digits (unat b) (unat w) = [unat w]" using l by (subst digits.simps) simp
    ultimately show ?thesis using l by simp
  qed
qed

lemma itoa_text:
  "itoa CHR ''d'' w = dec_text (sint w)" "itoa CHR ''u'' w = map digit_char (digits 10 (unat w))"
  "itoa CHR ''x'' w = hex_text (unat w)"
proof -
  have u: "unat (10 :: u32) = 10" "unat (16 :: u32) = 16" by simp_all
  show "itoa CHR ''u'' w = map digit_char (digits 10 (unat w))" "itoa CHR ''x'' w = hex_text (unat w)"
    using itoa_loop_digits [of 10 w] itoa_loop_digits [of 16 w] u by (simp_all add: itoa_def hex_text_def)
  have m: "uint w = sint w mod 2 ^ 32" by (simp add: uint_sint take_bit_eq_mod)
  have b: "- (2 ^ 31) \<le> sint w" "sint w < 2 ^ 31" using sint_greater_eq [of w] sint_less [of w] by simp_all
  show "itoa CHR ''d'' w = dec_text (sint w)"
  proof (cases "sint w < 0")
    case True
    have "uint (- w) = (- uint w) mod 2 ^ 32" by (simp add: uint_word_ariths)
    also have "\<dots> = (- sint w) mod 2 ^ 32" unfolding m by (rule mod_minus_eq)
    also have "\<dots> = - sint w" using True b by (intro mod_pos_pos_trivial) simp_all
    finally have "unat (- w) = nat (- sint w)" by (simp add: unat_eq_nat_uint)
    then show ?thesis using True itoa_loop_digits [of 10 "- w"] u by (simp add: itoa_def dec_text_def)
  next
    case False
    then have "uint w = sint w" using m b by simp
    then have "unat w = nat (sint w)" by (simp add: unat_eq_nat_uint)
    then show ?thesis using False itoa_loop_digits [of 10 w] u by (simp add: itoa_def dec_text_def)
  qed
qed

section \<open>Hexadecimal digits without leading zeros\<close>

definition nibble :: "u32 \<Rightarrow> nat \<Rightarrow> nat" where
  "nibble w i = unat w div 16 ^ (7 - i) mod 16"

lemma nibble_word:
  assumes "i < 8"
  shows "drop_bit 28 (push_bit (i * 4) w) AND 0xf = (word_of_nat (nibble w i) :: u32)"
proof (rule word_eq_of_nat)
  have m: "(0xf :: u32) = mask 4" by (simp add: mask_eq_exp_minus_1)
  have e: "drop_bit 28 (push_bit (i * 4) w) AND 0xf = take_bit 4 (drop_bit (28 - i * 4) w)"
    unfolding m take_bit_eq_mask [symmetric]
    by (rule bit_word_eqI) (use assms in \<open>auto simp: bit_simps\<close>)
  have "(2::nat) ^ (28 - i * 4) = 16 ^ (7 - i)"
  proof -
    have "(16::nat) ^ (7 - i) = (2 ^ 4) ^ (7 - i)" by simp
    also have "\<dots> = 2 ^ (4 * (7 - i))" by (simp only: power_mult)
    finally show ?thesis by (simp add: diff_mult_distrib2 mult.commute)
  qed
  then show "unat (drop_bit 28 (push_bit (i * 4) w) AND 0xf) = nibble w i"
    unfolding e nibble_def by (simp add: unat_take_bit unat_drop_bit)
qed

fun strip :: "nat list \<Rightarrow> nat list" where
  "strip [] = []"
| "strip (d # ds) = (if d = 0 then strip ds else d # ds)"

lemma strip_snoc: "strip (xs @ [y]) = (if strip xs = [] then (if y = 0 then [] else [y]) else strip xs @ [y])"
  by (induction xs) auto

lemma strip_digits:
  "n < 16 ^ k \<Longrightarrow> strip (map (\<lambda>i. n div 16 ^ (k - 1 - i) mod 16) [0..<k]) = (if n = 0 then [] else digits 16 n)"
proof (induction k arbitrary: n)
  case 0
  then show ?case by simp
next
  case (Suc k)
  have IH: "strip (map (\<lambda>i. n div 16 div 16 ^ (k - 1 - i) mod 16) [0..<k]) = (if n div 16 = 0 then [] else digits 16 (n div 16))"
    by (rule Suc.IH) (use Suc.prems in \<open>simp add: less_mult_imp_div_less mult.commute\<close>)
  have "map (\<lambda>i. n div 16 ^ (Suc k - 1 - i) mod 16) [0..<k] = map (\<lambda>i. n div 16 div 16 ^ (k - 1 - i) mod 16) [0..<k]"
  proof (rule map_cong [OF refl])
    fix i
    assume "i \<in> set [0..<k]"
    then have "Suc k - 1 - i = Suc (k - 1 - i)" by auto
    then have "(16::nat) ^ (Suc k - 1 - i) = 16 * 16 ^ (k - 1 - i)" by simp
    then show "n div 16 ^ (Suc k - 1 - i) mod 16 = n div 16 div 16 ^ (k - 1 - i) mod 16" by (simp only: div_mult2_eq)
  qed
  then have e: "map (\<lambda>i. n div 16 ^ (Suc k - 1 - i) mod 16) [0..<Suc k] =
      map (\<lambda>i. n div 16 div 16 ^ (k - 1 - i) mod 16) [0..<k] @ [n mod 16]" by simp
  have ne: "digits 16 m \<noteq> []" for m by (subst digits.simps) simp
  have d: "digits 16 n = (if n < 16 then [n] else digits 16 (n div 16) @ [n mod 16])" by (subst digits.simps) simp
  show ?case
  proof (cases "n < 16")
    case True
    then show ?thesis unfolding e strip_snoc IH using d by simp
  next
    case False
    then have "n div 16 \<noteq> 0" by (simp add: div_eq_0_iff)
    then show ?thesis unfolding e strip_snoc IH using d False ne by simp
  qed
qed

lemma strip_nibbles: "strip (map (nibble w) [0..<8]) = (if w = 0 then [] else digits 16 (unat w))"
proof -
  have "unat w < 16 ^ 8" using unsigned_less [of w, where 'a = nat] by simp
  from strip_digits [OF this] show ?thesis by (simp add: nibble_def [abs_def] unat_eq_0)
qed

section \<open>The characters written\<close>

text \<open>The state of the output once the text \<open>t\<close> has been put.\<close>

definition out_of :: "u32 \<Rightarrow> string \<Rightarrow> fmt_out" where
  "out_of len t = \<lparr>buff = take (unat (len - 1)) t, result = word_of_nat (length t)\<rparr>"

lemma put_char_out: "length t + 1 < 2 ^ 32 \<Longrightarrow> PUTCHAR len c (out_of len t) = out_of len (t @ [c])"
proof -
  assume l: "length t + 1 < 2 ^ 32"
  then have "unat (word_of_nat (length t) :: u32) = length t" by (intro unat_of_nat_small) simp
  then have "word_of_nat (length t) < len - 1 \<longleftrightarrow> length t < unat (len - 1)" by (simp only: word_less_nat_alt)
  then show ?thesis by (auto simp: PUTCHAR_def out_of_def)
qed

lemma put_string_out: "length (t @ u) < 2 ^ 32 \<Longrightarrow> put_string len u (out_of len t) = out_of len (t @ u)"
proof (induction u arbitrary: t)
  case (Cons c u)
  then have "PUTCHAR len c (out_of len t) = out_of len (t @ [c])" by (intro put_char_out) simp
  moreover have "put_string len u (out_of len (t @ [c])) = out_of len ((t @ [c]) @ u)" by (rule Cons.IH) (use Cons.prems in simp)
  ultimately show ?case by (simp add: put_string_def)
qed (simp add: put_string_def)

lemma put_string_Cons: "put_string len (c # u) f = put_string len u (PUTCHAR len c f)"
  by (simp add: put_string_def)

lemma digit_zero: "CHR ''0'' = digit_char 0"
  by code_simp

lemma put_hex_string:
  assumes "\<forall>i \<in> set is. i < 8"
  shows "put_hex len w is b f = put_string len (map digit_char
    (if b then map (nibble w) is else if strip (map (nibble w) is) = [] then [0] else strip (map (nibble w) is))) f"
  using assms
proof (induction "is" arbitrary: b f)
  case Nil
  show ?case by (simp add: put_string_def digit_zero)
next
  case (Cons i "is")
  have i: "i < 8" and "is": "\<forall>i \<in> set is. i < 8" using Cons.prems by simp_all
  note IH = Cons.IH [OF "is"]
  let ?n = "nibble w i"
  have n16: "?n < 16" by (simp add: nibble_def)
  have nb: "drop_bit 28 (push_bit (i * 4) w) AND 0xf = (word_of_nat ?n :: u32)" by (rule nibble_word [OF i])
  have un: "unat (word_of_nat ?n :: u32) = ?n" by (rule unat_of_nat_small) (use n16 in simp)
  have z: "(word_of_nat ?n :: u32) = 0 \<longleftrightarrow> ?n = 0" using un by (metis unat_eq_0)
  have h: "hex_digit (word_of_nat ?n) = digit_char ?n"
  proof -
    have u10: "unat (10 :: u32) = 10" by simp
    have l: "(word_of_nat ?n :: u32) < 10 \<longleftrightarrow> ?n < 10" by (simp only: word_less_nat_alt un u10)
    have "unat (word_of_nat ?n - 10 :: u32) = ?n - 10" if "\<not> ?n < 10"
    proof -
      have "(10 :: u32) \<le> word_of_nat ?n" using that l by (metis not_less)
      from unat_sub [OF this] show ?thesis unfolding un u10 .
    qed
    then show ?thesis using l un by (simp add: hex_digit_def digit_char_def)
  qed
  show ?case
  proof (cases "?n = 0")
    case True
    then show ?thesis
      by (cases b) (simp_all add: nb z IH put_string_Cons [symmetric] digit_zero)
  next
    case False
    then show ?thesis
      by (cases b) (simp_all add: nb z IH h put_string_Cons [symmetric])
  qed
qed

lemma put_hex_text: "put_hex len w [0..<8] False f = put_string len (hex_text (unat w)) f"
proof -
  have "put_hex len w [0..<8] False f = put_string len (map digit_char
      (if strip (map (nibble w) [0..<8]) = [] then [0] else strip (map (nibble w) [0..<8]))) f"
    using put_hex_string [of "[0..<8]" len w False f] by simp
  moreover have "digits 16 (unat w) \<noteq> []" "digits 16 0 = [0]" by (subst digits.simps, simp)+
  ultimately show ?thesis by (auto simp: strip_nibbles hex_text_def)
qed

section \<open>The text of a format\<close>

fun format_text :: "string \<Rightarrow> fmt_arg list \<Rightarrow> string option" where
  "format_text [] ap = Some []"
| "format_text (c # fmt) ap =
     (if c \<noteq> CHR ''%'' then map_option ((@) [c]) (format_text fmt ap)
      else case fmt of
        [] \<Rightarrow> None
      | d # fmt \<Rightarrow>
          if d \<in> set ''idcspx'' then
            (case ap of
               Num w # ap \<Rightarrow>
                 if d \<in> set ''id'' then map_option ((@) (dec_text (sint w))) (format_text fmt ap)
                 else if d = CHR ''c'' then map_option ((@) [char_of_int w]) (format_text fmt ap)
                 else if d = CHR ''p'' then map_option ((@) (''0x'' @ hex_text (unat w))) (format_text fmt ap)
                 else if d = CHR ''x'' then map_option ((@) (hex_text (unat w))) (format_text fmt ap)
                 else None
             | Str s # ap \<Rightarrow>
                 if d = CHR ''s'' then map_option ((@) (case s of None \<Rightarrow> ''(null)'' | Some s \<Rightarrow> s)) (format_text fmt ap)
                 else None
             | [] \<Rightarrow> None)
          else map_option ((@) (if d = CHR ''%'' then ''%'' else [CHR ''%'', d])) (format_text fmt ap))"

definition puts :: "u32 \<Rightarrow> string \<Rightarrow> fmt_out \<Rightarrow> fmt_out" where "puts len u f = put_string len u f"

lemma puts_append: "put_string len (u @ v) f = put_string len v (put_string len u f)"
  by (simp add: put_string_def)

lemma put_dec: "put_string len (rev (buff_int (sint w))) (if sint w < 0 then PUTCHAR len CHR ''-'' f else f) =
    put_string len (dec_text (sint w)) f"
  by (simp add: dec_text_def buff_int_digits puts_append) (simp add: put_string_def)

lemma loop_text: "vsnprintf_loop len fmt ap f = map_option (\<lambda>u. put_string len u f) (format_text fmt ap)"
proof (induction len fmt ap f rule: vsnprintf_loop.induct)
  case (1 len ap f)
  then show ?case by (simp add: put_string_def)
next
  case (2 len c fmt ap f)
  have one: "PUTCHAR len d f = put_string len [d] f" for d f by (simp add: put_string_def)
  note J = put_dec one puts_append [symmetric] put_hex_text option.map_comp comp_def Let_def
  show ?case
  proof (cases "c \<noteq> CHR ''%''")
    case True
    then show ?thesis using 2(1) by (simp add: J)
  next
    case False
    then have c: "c = CHR ''%''" by simp
    show ?thesis
    proof (cases fmt)
      case Nil
      then show ?thesis using c by simp
    next
      case (Cons d fmt')
      note IH = 2(2-) [OF _ Cons]
      consider "d = CHR ''i'' \<or> d = CHR ''d''" | "d = CHR ''c''" | "d = CHR ''s''" | "d = CHR ''p''" | "d = CHR ''x''"
        | "d = CHR ''%''" | "d \<notin> set ''idcspx%''" by auto
      then show ?thesis
      proof cases
        case 1
        then show ?thesis using c Cons IH(2) by (auto simp: J split: list.split fmt_arg.split)
      qed (use c Cons IH in \<open>simp_all add: J split: list.split fmt_arg.split\<close>)
    qed
  qed
qed

lemma vsnprintf_text:
  assumes t: "format_text fmt ap = Some t" and l: "length t < 2 ^ 32"
  shows "vsnprintf len fmt ap = Some (take (unat (len - 1)) t @ [CHR 0x00], word_of_nat (length t))"
proof -
  have "\<lparr>buff = [], result = 0\<rparr> = out_of len []" by (simp add: out_of_def)
  moreover have "put_string len t (out_of len []) = out_of len t" using put_string_out [of "[]" t len] l by simp
  ultimately show ?thesis using t by (simp add: vsnprintf_def loop_text) (simp add: out_of_def)
qed

section \<open>The text on the console\<close>

definition number_text :: "char \<Rightarrow> u32 \<Rightarrow> string" where
  "number_text d w = (if d = CHR ''d'' then dec_text (sint w)
     else if d = CHR ''u'' then map digit_char (digits 10 (unat w)) else hex_text (unat w))"

definition padded :: "bool \<Rightarrow> nat \<Rightarrow> string \<Rightarrow> u32 list" where
  "padded pad0 pad p = map int_of_char (replicate (pad - length p) (if pad0 then CHR ''0'' else CHR '' '') @ p)"

function (sequential) printf_text :: "string \<Rightarrow> fmt_arg list \<Rightarrow> u32 list option" where
  "printf_text [] args = Some []"
| "printf_text (c # fmt) args =
     (if c \<noteq> CHR ''%'' then map_option ((@) [int_of_char c]) (printf_text fmt args)
      else case conversion fmt of
        None \<Rightarrow> None
      | Some (pad0, pad, d, fmt) \<Rightarrow>
          (case args of
             [] \<Rightarrow> None
           | Num w # args \<Rightarrow>
               if d = CHR ''s'' then None
               else map_option ((@) (if d \<in> set ''dux'' then padded pad0 pad (number_text d w) else [w])) (printf_text fmt args)
           | Str p # args \<Rightarrow>
               if d = CHR ''s''
               then map_option ((@) (padded pad0 pad (case p of None \<Rightarrow> ''(null)'' | Some p \<Rightarrow> p))) (printf_text fmt args)
               else None))"
  by pat_completeness auto
termination
  by (relation "measure (\<lambda>(fmt, _). length fmt)") (auto dest!: conversion_shorter)

lemma itoa_number: "d \<in> set ''dux'' \<Longrightarrow> itoa d w = number_text d w"
  using itoa_text [of w] by (auto simp: number_text_def)

lemma put_padded_text: "put_padded put pad0 pad p s = fold put (padded pad0 pad p) s"
  by (simp add: put_padded_def padded_def fold_map comp_def)

lemma printf_loop_text: "printf_loop put fmt args s = map_option (\<lambda>t. fold put t s) (printf_text fmt args)"
proof (induction put fmt args s rule: printf_loop.induct)
  case (1 put args s)
  then show ?case by simp
next
  case (2 put c fmt args s)
  note J = put_padded_text option.map_comp comp_def
  show ?case
  proof (cases "c \<noteq> CHR ''%''")
    case True
    then show ?thesis using 2(1) by (simp add: J)
  next
    case False
    then have c: "c = CHR ''%''" by simp
    show ?thesis
    proof (cases "conversion fmt")
      case None
      then show ?thesis using c by simp
    next
      case (Some r)
      obtain z p d rest where r: "r = (z, p, d, rest)" by (metis prod_cases4)
      note IH = 2(2-) [OF _ _ refl refl refl, unfolded Some r]
      show ?thesis
      proof (cases args)
        case Nil
        then show ?thesis using c Some r by simp
      next
        case (Cons a as)
        consider "d \<in> set ''dux''" "d \<noteq> CHR ''s''" | "d = CHR ''s''" | "d \<notin> set ''dux''" "d \<noteq> CHR ''s''" by auto
        then show ?thesis
        proof cases
          case 1
          then have "itoa d w = number_text d w" for w by (intro itoa_number)
          then show ?thesis using 1 c Some r Cons IH by (cases a) (auto simp: J)
        next
          case 2
          then show ?thesis using c Some r Cons IH by (cases a) (auto simp: J)
        next
          case 3
          then show ?thesis using c Some r Cons IH by (cases a) (auto simp: J)
        qed
      qed
    qed
  qed
qed

text \<open>The cursor inside the screen, and nothing written outside the video memory.\<close>

definition cursor_ok :: "console \<Rightarrow> bool" where
  "cursor_ok s \<longleftrightarrow> 0 \<le> xpos s \<and> xpos s < COLUMNS \<and> 0 \<le> ypos s \<and> ypos s < LINES"

definition screen_step :: "console \<Rightarrow> console \<Rightarrow> bool" where
  "screen_step s s' \<longleftrightarrow> cursor_ok s' \<and> (\<forall>i. i < 0 \<or> i \<ge> COLUMNS * LINES * 2 \<longrightarrow> video s' i = video s i)"

lemma put_cell_step: "cursor_ok s \<Longrightarrow> screen_step s (put_cell a c s)"
  by (auto simp: screen_step_def cursor_ok_def put_cell_def newline_def COLUMNS_def LINES_def Let_def)

text \<open>What the formatting loop relies on: an operation that puts a character and keeps the cursor inside.\<close>

locale character_output =
  fixes put :: "u32 \<Rightarrow> console \<Rightarrow> console"
  assumes put_step: "cursor_ok s \<Longrightarrow> screen_step s (put c s)"
begin

lemma text_step: "cursor_ok s \<Longrightarrow> screen_step s (fold put t s)"
proof (induction t arbitrary: s)
  case Nil
  then show ?case by (simp add: screen_step_def)
next
  case (Cons c t)
  have "screen_step s (put c s)" by (rule put_step [OF Cons.prems])
  moreover from this have "screen_step (put c s) (fold put t (put c s))" by (intro Cons.IH) (simp add: screen_step_def)
  ultimately show ?case by (simp add: screen_step_def)
qed

lemma loop_step: "cursor_ok s \<Longrightarrow> printf_loop put fmt args s = Some s' \<Longrightarrow> screen_step s s'"
  using text_step by (auto simp: printf_loop_text)

end

interpretation con: character_output putchar
  by unfold_locales (simp add: putchar_def put_cell_step)

interpretation win: character_output "\<lambda>c s. os_putchar (ypos s) (xpos s) a c s" for a
  by unfold_locales (simp add: os_putchar_def put_cell_step)

section \<open>Properties\<close>

text \<open>
  C39: Formatting into a buffer: the call fails exactly when an argument is missing or of the wrong kind or the
  format ends inside a conversion. Otherwise, for a text shorter than 2^32, it returns the length of the whole text and leaves in the
  buffer its first \<open>len - 1\<close> characters and a terminator, never more than \<open>len\<close> bytes; but with \<open>len = 0\<close> the
  bound wraps around and the whole text is written.
\<close>

theorem vsnprintf_writes_text:
  shows "(format_text fmt ap = None \<longleftrightarrow> vsnprintf len fmt ap = None) \<and>
    (\<forall>t. format_text fmt ap = Some t \<longrightarrow> length t < 2 ^ 32 \<longrightarrow>
       (\<exists>w. vsnprintf len fmt ap = Some (w, word_of_nat (length t)) \<and>
          (len \<noteq> 0 \<longrightarrow> w = take (unat len - 1) t @ [CHR 0x00] \<and> length w \<le> unat len) \<and>
          (len = 0 \<longrightarrow> w = t @ [CHR 0x00])))"
proof (intro conjI allI impI)
  show "format_text fmt ap = None \<longleftrightarrow> vsnprintf len fmt ap = None"
    by (cases "format_text fmt ap") (simp_all add: vsnprintf_def loop_text)
next
  fix t
  assume t: "format_text fmt ap = Some t" and l: "length t < 2 ^ 32"
  note r = vsnprintf_text [OF t l, of len]
  show "\<exists>w. vsnprintf len fmt ap = Some (w, word_of_nat (length t)) \<and>
          (len \<noteq> 0 \<longrightarrow> w = take (unat len - 1) t @ [CHR 0x00] \<and> length w \<le> unat len) \<and> (len = 0 \<longrightarrow> w = t @ [CHR 0x00])"
  proof (cases "len = 0")
    case True
    have "unat (0 - 1 :: u32) = 2 ^ 32 - 1" by (simp add: unsigned_minus_1_eq_mask mask_eq_exp_minus_1)
    then have "length t \<le> unat (0 - 1 :: u32)" using l by linarith
    then have "length t \<le> unat (len - 1)" using True by simp
    then have "take (unat (len - 1)) t = t" by simp
    then show ?thesis using r True by simp
  next
    case False
    then have "unat (len - 1) = unat len - 1" "0 < unat len" by (simp_all add: unat_minus_one unat_gt_0)
    then show ?thesis using r False by auto
  qed
qed

theorem vsnprintf_writes_text_witness:
  "\<exists>w. vsnprintf 6 ''x=%d'' [Num (- 12)] = Some (w, 5) \<and> w = ''x=-12'' @ [CHR 0x00]"
proof -
  have "format_text ''x=%d'' [Num (- 12)] = Some ''x=-12''"
    by (simp add: dec_text_def digits.simps digit_char_def) code_simp
  then show ?thesis using vsnprintf_writes_text [of "''x=%d''" "[Num (- 12)]" 6] by auto
qed

text \<open>
  Printing on the console puts exactly the characters of the formatted text, in order, with numbers in
  their decimal or hexadecimal digits and padded to the width asked; it fails only on an argument that is missing or of the wrong kind or a
  format that ends inside a conversion. From a cursor inside the screen, the cursor stays inside and
  nothing outside the video memory is written.
\<close>

theorem printf_stays_on_screen:
  "printf fmt args s = map_option (\<lambda>t. fold putchar t s) (printf_text fmt args) \<and>
   (cursor_ok s \<longrightarrow> (\<forall>s'. printf fmt args s = Some s' \<longrightarrow> cursor_ok s' \<and>
      (\<forall>i. i < 0 \<or> i \<ge> COLUMNS * LINES * 2 \<longrightarrow> video s' i = video s i))) \<and>
   (0 \<le> xp \<and> xp < COLUMNS \<and> 0 \<le> yp \<and> yp < LINES \<longrightarrow> (\<forall>s'. os_printf yp xp a fmt args s = Some s' \<longrightarrow> cursor_ok s' \<and>
      (\<forall>i. i < 0 \<or> i \<ge> COLUMNS * LINES * 2 \<longrightarrow> video s' i = video s i)))"
proof (intro conjI impI)
  show "printf fmt args s = map_option (\<lambda>t. fold putchar t s) (printf_text fmt args)"
    by (simp add: printf_def printf_loop_text)
next
  assume "cursor_ok s"
  then show "\<forall>s'. printf fmt args s = Some s' \<longrightarrow> cursor_ok s' \<and> (\<forall>i. i < 0 \<or> i \<ge> COLUMNS * LINES * 2 \<longrightarrow> video s' i = video s i)"
    using con.loop_step by (auto simp: printf_def screen_step_def)
next
  assume "0 \<le> xp \<and> xp < COLUMNS \<and> 0 \<le> yp \<and> yp < LINES"
  then have "cursor_ok (s\<lparr>xpos := xp, ypos := yp\<rparr>)" by (simp add: cursor_ok_def)
  from win.loop_step [OF this]
  show "\<forall>s'. os_printf yp xp a fmt args s = Some s' \<longrightarrow> cursor_ok s' \<and> (\<forall>i. i < 0 \<or> i \<ge> COLUMNS * LINES * 2 \<longrightarrow> video s' i = video s i)"
    by (auto simp: os_printf_def screen_step_def)
qed

theorem printf_stays_on_screen_witness:
  "\<forall>v. \<exists>s'. printf ''ab'' [] \<lparr>xpos = 79, ypos = 23, video = v\<rparr> = Some s' \<and> cursor_ok s' \<and> video s' 4000 = v 4000"
proof
  fix v
  let ?s = "\<lparr>xpos = 79, ypos = 23, video = v\<rparr>"
  have "cursor_ok ?s" by (simp add: cursor_ok_def COLUMNS_def LINES_def)
  moreover have "printf_text ''ab'' [] = Some [int_of_char CHR ''a'', int_of_char CHR ''b'']" by simp
  ultimately show "\<exists>s'. printf ''ab'' [] ?s = Some s' \<and> cursor_ok s' \<and> video s' 4000 = v 4000"
    using printf_stays_on_screen [of "''ab''" "[]" ?s] by (auto simp: COLUMNS_def LINES_def)
qed

end
