(* ===== verification/Interrupts.thy ===== *)
theory Interrupts
  imports Cpu_context
begin

text \<open>
  Interrupts: the segment and interrupt descriptor tables (\<^verbatim>\<open>hwcore/gdt.c\<close>, \<^verbatim>\<open>hwcore/idt.c\<close>), the interrupt
  controllers and the timer chip (\<^verbatim>\<open>hwcore/i8259.c\<close>, \<^verbatim>\<open>hwcore/i8254.c\<close>), and the tables of routines
  (\<^verbatim>\<open>hwcore/irq.c\<close>, \<^verbatim>\<open>hwcore/exception.c\<close>). The bytes sent to the ports are a log; what a port reads back is a
  function of the log, the device, and is a parameter. The addresses of the assembly wrappers are parameters too.
\<close>

section \<open>State\<close>

record idt_entry =
  offset_low :: u16
  seg_sel :: u16
  idt_reserved :: u8
  idt_flags :: u8
  idt_type :: u8
  op_size :: u8
  idt_zero :: u8
  idt_dpl :: int
  idt_present :: bool
  offset_high :: u16

record segment_descriptor =
  limit_15_0 :: u16
  base_paged_addr_15_0 :: u16
  base_paged_addr_23_16 :: u8
  segment_type :: u8
  descriptor_type :: u8
  seg_dpl :: u8
  seg_present :: u8
  limit_19_16 :: u8
  custom :: u8
  seg_zero :: u8
  seg_op_size :: u8
  granularity :: u8
  base_paged_addr_31_24 :: u8

record intr =
  idt :: "idt_entry list"
  idtr :: "(u16 \<times> u32) option"
  gdtr :: "(u16 \<times> u32) option"
  reg_cs :: u32
  reg_data :: "u32 list"
  sos_irq_handler_array :: "sos_vaddr_t list"
  sos_exception_handler_array :: "sos_vaddr_t list"
  sos_irq_nested_level_counter :: u32
  ports :: "(u16 \<times> u8) list"

type_synonym device = "(u16 \<times> u8) list \<Rightarrow> u16 \<Rightarrow> u8"

definition outb :: "u8 \<Rightarrow> u16 \<Rightarrow> intr \<Rightarrow> intr" where
  "outb v port s = s\<lparr>ports := ports s @ [(port, v)]\<rparr>"

definition inb :: "device \<Rightarrow> u16 \<Rightarrow> intr \<Rightarrow> u8" where
  "inb dev port s = dev (ports s) port"

definition SOS_EXCEPT_BASE :: int where "SOS_EXCEPT_BASE = 0"
definition SOS_EXCEPT_NUM :: int where "SOS_EXCEPT_NUM = 32"
definition SOS_IRQ_BASE :: int where "SOS_IRQ_BASE = 32"
definition SOS_IRQ_NUM :: int where "SOS_IRQ_NUM = 16"
definition SOS_IDTE_NUM :: int where "SOS_IDTE_NUM = 256"
definition SOS_EXCEPT_DOUBLE_FAULT :: int where "SOS_EXCEPT_DOUBLE_FAULT = 8"

section \<open>Descriptor tables\<close>

definition sos_idt_set_handler :: "int \<Rightarrow> sos_vaddr_t \<Rightarrow> int \<Rightarrow> intr \<Rightarrow> sos_ret_t \<times> intr" where
  "sos_idt_set_handler index handler_address lowest_priviledge s =
     (if index < 0 \<or> index \<ge> SOS_IDTE_NUM then (- SOS_EINVAL, s)
      else if lowest_priviledge < 0 \<or> lowest_priviledge > 3 then (- SOS_EINVAL, s)
      else
        let idte = idt s ! nat index;
            idte = (if handler_address \<noteq> 0
              then idte\<lparr>offset_low := ucast (handler_address AND 0xffff),
                     offset_high := ucast (drop_bit 16 handler_address AND 0xffff),
                     idt_dpl := lowest_priviledge, idt_present := True\<rparr>
              else idte\<lparr>offset_low := 0, offset_high := 0, idt_dpl := 0, idt_present := False\<rparr>)
        in (SOS_OK, s\<lparr>idt := (idt s)[nat index := idte]\<rparr>))"

text \<open>The address and the privilege level are out parameters, each skipped by the code when its pointer is null.\<close>

definition sos_idt_get_handler :: "int \<Rightarrow> intr \<Rightarrow> sos_ret_t \<times> sos_vaddr_t \<times> int" where
  "sos_idt_get_handler index s =
     (if index < 0 \<or> index \<ge> SOS_IDTE_NUM then (- SOS_EINVAL, 0, 0)
      else
        let idte = idt s ! nat index
        in (SOS_OK, ucast (offset_low idte) OR push_bit 16 (ucast (offset_high idte)), idt_dpl idte))"

definition idt_setup_entry :: "nat \<Rightarrow> intr \<Rightarrow> intr" where
  "idt_setup_entry i s = (
     let idte = (idt s ! i)\<lparr>seg_sel := ucast (SOS_BUILD_SEGMENT_REG_VALUE 0 False SOS_SEG_KCODE),
                   idt_reserved := 0, idt_flags := 0, idt_type := 6, op_size := 1, idt_zero := 0\<rparr>
     in snd (sos_idt_set_handler (int i) 0 0 (s\<lparr>idt := (idt s)[i := idte]\<rparr>)))"

definition sos_idt_subsystem_setup :: "u32 \<Rightarrow> intr \<Rightarrow> sos_ret_t \<times> intr" where
  "sos_idt_subsystem_setup idt_address s = (
     let s = fold idt_setup_entry [0..<nat SOS_IDTE_NUM] s
     in (SOS_OK, s\<lparr>idtr := Some (word_of_int (SOS_IDTE_NUM * 8 - 1), idt_address)\<rparr>))"

definition BUILD_GDTE :: "u8 \<Rightarrow> bool \<Rightarrow> segment_descriptor" where
  "BUILD_GDTE descr_privilege_level is_code =
     \<lparr>limit_15_0 = 0xffff, base_paged_addr_15_0 = 0, base_paged_addr_23_16 = 0,
      segment_type = (if is_code then 0xb else 0x3), descriptor_type = 1, seg_dpl = descr_privilege_level AND 0x3,
      seg_present = 1, limit_19_16 = 0xf, custom = 0, seg_zero = 0, seg_op_size = 1, granularity = 1,
      base_paged_addr_31_24 = 0\<rparr>"

definition gdt :: "segment_descriptor list" where
  "gdt = [\<lparr>limit_15_0 = 0, base_paged_addr_15_0 = 0, base_paged_addr_23_16 = 0, segment_type = 0, descriptor_type = 0,
      seg_dpl = 0, seg_present = 0, limit_19_16 = 0, custom = 0, seg_zero = 0, seg_op_size = 0, granularity = 0,
      base_paged_addr_31_24 = 0\<rparr>, BUILD_GDTE 0 True, BUILD_GDTE 0 False]"

definition sos_gdt_subsystem_setup :: "u32 \<Rightarrow> intr \<Rightarrow> sos_ret_t \<times> intr" where
  "sos_gdt_subsystem_setup gdt_address s =
     (SOS_OK, s\<lparr>gdtr := Some (word_of_nat (length gdt * 8 - 1), gdt_address),
        reg_cs := SOS_BUILD_SEGMENT_REG_VALUE 0 False SOS_SEG_KCODE,
        reg_data := replicate 5 (SOS_BUILD_SEGMENT_REG_VALUE 0 False SOS_SEG_KDATA)\<rparr>)"

section \<open>The chips\<close>

definition PIC_MASTER :: u16 where "PIC_MASTER = 0x20"
definition PIC_SLAVE :: u16 where "PIC_SLAVE = 0xa0"
definition I8254_TIMER0 :: u16 where "I8254_TIMER0 = 0x40"
definition I8254_CONTROL :: u16 where "I8254_CONTROL = 0x43"
definition I8254_MAX_FREQ :: u32 where "I8254_MAX_FREQ = 1193180"

definition sos_i8259_subsystem_setup :: "intr \<Rightarrow> sos_ret_t \<times> intr" where
  "sos_i8259_subsystem_setup s = (SOS_OK,
     fold (\<lambda>(v, port). outb v port)
       [(0x11, PIC_MASTER), (0x11, PIC_SLAVE), (0x20, PIC_MASTER + 1), (0x28, PIC_SLAVE + 1),
        (0x4, PIC_MASTER + 1), (0x2, PIC_SLAVE + 1), (0x1, PIC_MASTER + 1), (0x1, PIC_SLAVE + 1),
        (0xFB, PIC_MASTER + 1), (0xFF, PIC_SLAVE + 1)] s)"

definition sos_i8259_enable_irq_line :: "device \<Rightarrow> int \<Rightarrow> intr \<Rightarrow> sos_ret_t \<times> intr" where
  "sos_i8259_enable_irq_line dev numirq s = (SOS_OK,
     if numirq < 8 then outb (inb dev (PIC_MASTER + 1) s AND NOT (push_bit (nat numirq) 1)) (PIC_MASTER + 1) s
     else outb (inb dev (PIC_SLAVE + 1) s AND NOT (push_bit (nat (numirq - 8)) 1)) (PIC_SLAVE + 1) s)"

definition sos_i8259_disable_irq_line :: "device \<Rightarrow> int \<Rightarrow> intr \<Rightarrow> sos_ret_t \<times> intr" where
  "sos_i8259_disable_irq_line dev numirq s = (SOS_OK,
     if numirq < 8 then outb (inb dev (PIC_MASTER + 1) s OR push_bit (nat numirq) 1) (PIC_MASTER + 1) s
     else outb (inb dev (PIC_SLAVE + 1) s OR push_bit (nat (numirq - 8)) 1) (PIC_SLAVE + 1) s)"

definition sos_i8254_set_frequency :: "u32 \<Rightarrow> intr \<Rightarrow> sos_ret_t \<times> intr" where
  "sos_i8254_set_frequency freq s =
     (if freq = 0 then (- SOS_EINVAL, s)
      else let nb_tick = I8254_MAX_FREQ div freq in
      if nb_tick > 65536 then (- SOS_EINVAL, s)
      else if nb_tick = 0 then (- SOS_EINVAL, s)
      else
        let nb_tick = (if nb_tick = 65536 then 0 else nb_tick)
        in (SOS_OK, outb (ucast (drop_bit 8 nb_tick AND 0xFF)) I8254_TIMER0
             (outb (ucast (nb_tick AND 0xFF)) I8254_TIMER0 (outb 0x34 I8254_CONTROL s))))"

section \<open>Routines\<close>

text \<open>0 is the null routine. The critical sections are atomic steps.\<close>

definition sos_irq_subsystem_setup :: "intr \<Rightarrow> sos_ret_t \<times> intr" where
  "sos_irq_subsystem_setup s = sos_i8259_subsystem_setup (s\<lparr>sos_irq_nested_level_counter := 0\<rparr>)"

definition sos_irq_set_routine :: "device \<Rightarrow> (nat \<Rightarrow> sos_vaddr_t) \<Rightarrow> int \<Rightarrow> sos_vaddr_t \<Rightarrow> intr \<Rightarrow> sos_ret_t \<times> intr" where
  "sos_irq_set_routine dev sos_irq_wrapper_array irq_level routine s =
     (if irq_level < 0 \<or> irq_level \<ge> SOS_IRQ_NUM then (- SOS_EINVAL, s)
      else
        let i = nat irq_level;
            s = s\<lparr>sos_irq_handler_array := (sos_irq_handler_array s)[i := routine]\<rparr>;
            (retval, s) =
              (if routine \<noteq> 0
               then let (r, s) = sos_idt_set_handler (SOS_IRQ_BASE + irq_level) (sos_irq_wrapper_array i) 0 s
                 in (r, if r \<noteq> SOS_OK then s\<lparr>sos_irq_handler_array := (sos_irq_handler_array s)[i := 0]\<rparr> else s)
               else sos_idt_set_handler (SOS_IRQ_BASE + irq_level) 0 0 s);
            s = (if sos_irq_handler_array s ! i \<noteq> 0 then snd (sos_i8259_enable_irq_line dev irq_level s)
                 else snd (sos_i8259_disable_irq_line dev irq_level s))
        in (retval, s))"

definition sos_irq_get_routine :: "int \<Rightarrow> intr \<Rightarrow> sos_vaddr_t" where
  "sos_irq_get_routine irq_level s =
     (if irq_level < 0 \<or> irq_level \<ge> SOS_IRQ_NUM then 0 else sos_irq_handler_array s ! nat irq_level)"

definition sos_irq_get_nested_level :: "intr \<Rightarrow> u32" where
  "sos_irq_get_nested_level s = sos_irq_nested_level_counter s"

definition sos_exception_set_routine :: "(nat \<Rightarrow> sos_vaddr_t) \<Rightarrow> int \<Rightarrow> sos_vaddr_t \<Rightarrow> intr \<Rightarrow> sos_ret_t \<times> intr" where
  "sos_exception_set_routine sos_exception_wrapper_array exception_number routine s =
     (if exception_number < 0 \<or> exception_number \<ge> SOS_EXCEPT_NUM then (- SOS_EINVAL, s)
      else if exception_number = SOS_EXCEPT_DOUBLE_FAULT then (- SOS_ENOSUP, s)
      else
        let i = nat exception_number;
            s = s\<lparr>sos_exception_handler_array := (sos_exception_handler_array s)[i := routine]\<rparr>
        in if routine \<noteq> 0
           then sos_idt_set_handler (SOS_EXCEPT_BASE + exception_number) (sos_exception_wrapper_array i) 0 s
           else sos_idt_set_handler (SOS_EXCEPT_BASE + exception_number) 0 0 s)"

fun exception_setup_loop :: "(nat \<Rightarrow> sos_vaddr_t) \<Rightarrow> sos_vaddr_t \<Rightarrow> int list \<Rightarrow> intr \<Rightarrow> sos_ret_t \<times> intr" where
  "exception_setup_loop wrappers sos_generic_ex [] s =
     sos_idt_set_handler (SOS_EXCEPT_BASE + SOS_EXCEPT_DOUBLE_FAULT) (wrappers (nat SOS_EXCEPT_DOUBLE_FAULT)) 0 s"
| "exception_setup_loop wrappers sos_generic_ex (exid # exids) s =
     (if exid = SOS_EXCEPT_DOUBLE_FAULT then exception_setup_loop wrappers sos_generic_ex exids s
      else let (retval, s) = sos_exception_set_routine wrappers exid sos_generic_ex s
        in if SOS_OK \<noteq> retval then (retval, s) else exception_setup_loop wrappers sos_generic_ex exids s)"

definition sos_exception_subsystem_setup :: "(nat \<Rightarrow> sos_vaddr_t) \<Rightarrow> sos_vaddr_t \<Rightarrow> intr \<Rightarrow> sos_ret_t \<times> intr" where
  "sos_exception_subsystem_setup wrappers sos_generic_ex s =
     exception_setup_loop wrappers sos_generic_ex [0..SOS_EXCEPT_NUM - 1] s"

text \<open>
  The array of the wrappers of the exceptions, from the address of each wrapper: its list of numbers jumps from 27 to 29, so it has 31
  words, and the last one that the code reads is the word after it.
\<close>

definition exception_wrapper_ids :: "nat list" where
  "exception_wrapper_ids = [0..<28] @ [29, 30, 31]"

definition sos_exception_wrapper_array :: "(nat \<Rightarrow> sos_vaddr_t) \<Rightarrow> sos_vaddr_t \<Rightarrow> nat \<Rightarrow> sos_vaddr_t" where
  "sos_exception_wrapper_array wrapper next_word i =
     (if i < length exception_wrapper_ids then wrapper (exception_wrapper_ids ! i) else next_word)"

definition sos_exception_get_routine :: "int \<Rightarrow> intr \<Rightarrow> sos_vaddr_t" where
  "sos_exception_get_routine exception_number s =
     (if exception_number < 0 \<or> exception_number \<ge> SOS_EXCEPT_NUM then 0
      else if exception_number = SOS_EXCEPT_DOUBLE_FAULT then 0
      else sos_exception_handler_array s ! nat exception_number)"

definition sos_x86_exnames :: "string list" where
  "sos_x86_exnames =
     [''Division by zero'', ''Debug'', ''Non Maskable Interrupt'', ''Breakpoint'', ''Overflow'', ''Bound Range Exceeded'',
      ''Invalid Opcode'', ''Device Unavailable'', ''Double Fault'', ''Coprocessor Segment Overrun'', ''Invalid TSS'',
      ''Segment Not Present'', ''Stack Segfault'', ''General Protection'', ''Page Fault'', ''INTEL1'', ''FP Error'',
      ''Alignment Check'', ''Machine Check'', ''INTEL2'', ''INTEL3'', ''INTEL4'', ''INTEL5'', ''INTEL6'', ''INTEL7'',
      ''INTEL8'', ''INTEL9'', ''INTEL10'', ''INTEL11'', ''INTEL12'', ''INTEL13'', ''INTEL14'']"

definition sos_exception_get_name :: "int \<Rightarrow> string option" where
  "sos_exception_get_name exception_number =
     (if exception_number < 0 \<or> exception_number \<ge> SOS_EXCEPT_NUM then None
      else Some (sos_x86_exnames ! nat exception_number))"

end
