(* ===== verification/Interrupts_props.thy ===== *)
theory Interrupts_props
  imports Interrupts
begin

text \<open>
  What the interrupt set-up achieves: gates seen through their accessors, the lines of the controllers, and
  the programming of the timer.
\<close>

section \<open>Gates\<close>

lemma halves_u32: "ucast (ucast (w AND 0xffff) :: u16) OR push_bit 16 (ucast (ucast (drop_bit 16 w AND 0xffff) :: u16)) = (w :: u32)"
proof -
  have m: "(0xffff :: u32) = mask 16" by (simp add: mask_eq_exp_minus_1)
  show ?thesis unfolding m by (rule bit_word_eqI) (auto simp: bit_simps)
qed

text \<open>The effect of installing or removing a gate, seen through \<open>sos_idt_get_handler\<close>.\<close>

lemma gate_set:
  assumes "0 \<le> i" "i < SOS_IDTE_NUM" "length (idt s) = 256"
  shows "fst (sos_idt_set_handler i h 0 s) = SOS_OK"
    and "sos_idt_get_handler j (snd (sos_idt_set_handler i h 0 s)) =
      (if j = i then (SOS_OK, h, 0) else sos_idt_get_handler j s)"
    and "idt_present (idt (snd (sos_idt_set_handler i h 0 s)) ! nat i) \<longleftrightarrow> h \<noteq> 0"
    and "idt_present (idt (snd (sos_idt_set_handler i h 0 s)) ! n) = (if n = nat i then h \<noteq> 0 else idt_present (idt s ! n))"
  using assms halves_u32 [of h]
  by (auto simp: sos_idt_set_handler_def sos_idt_get_handler_def SOS_IDTE_NUM_def Let_def nth_list_update nat_eq_iff2)

lemma get_handler_cong: "idt s = idt s' \<Longrightarrow> sos_idt_get_handler j s = sos_idt_get_handler j s'"
  by (simp add: sos_idt_get_handler_def)

lemma gate_frame:
  "\<exists>t. snd (sos_idt_set_handler i h d s) = s\<lparr>idt := t\<rparr> \<and> length t = length (idt s)"
  by (auto simp: sos_idt_set_handler_def Let_def intro: exI [of _ "idt s"])

section \<open>The exceptions\<close>

text \<open>The exceptions of a list of numbers, then the double fault.\<close>

lemma exception_loop:
  assumes w: "\<forall>i < 32. wrappers i \<noteq> 0" and g: "gen \<noteq> 0"
  shows "length (idt s) = 256 \<Longrightarrow> length (sos_exception_handler_array s) = 32 \<Longrightarrow> \<forall>e \<in> set es. 0 \<le> e \<and> e < 32 \<Longrightarrow>
   \<exists>s'. exception_setup_loop wrappers gen es s = (SOS_OK, s') \<and> length (idt s') = 256 \<and> length (sos_exception_handler_array s') = 32 \<and>
     s' = s\<lparr>idt := idt s', sos_exception_handler_array := sos_exception_handler_array s'\<rparr> \<and>
     (\<forall>j. sos_idt_get_handler j s' = (if j \<in> set es \<or> j = 8 then (SOS_OK, wrappers (nat j), 0) else sos_idt_get_handler j s)) \<and>
     (\<forall>n. idt_present (idt s' ! n) \<longleftrightarrow> int n \<in> set es \<or> n = 8 \<or> idt_present (idt s ! n)) \<and>
     (\<forall>e. 0 \<le> e \<and> e < 32 \<longrightarrow> sos_exception_handler_array s' ! nat e =
        (if e \<in> set es - {8} then gen else sos_exception_handler_array s ! nat e))"
proof (induction es arbitrary: s)
  case Nil
  have i: "0 \<le> (8 :: int)" "8 < SOS_IDTE_NUM" by (simp_all add: SOS_IDTE_NUM_def)
  note G = gate_set [where h = "wrappers 8", OF i Nil(1)]
  obtain t where t: "snd (sos_idt_set_handler 8 (wrappers 8) 0 s) = s\<lparr>idt := t\<rparr>" "length t = 256" using gate_frame [of 8 "wrappers 8" 0 s] Nil(1) by auto
  have "sos_idt_set_handler 8 (wrappers 8) 0 s = (SOS_OK, s\<lparr>idt := t\<rparr>)" using G(1) t(1) by (simp add: prod_eq_iff)
  then show ?case using G(2-4) [unfolded t(1)] t(2) Nil(2) w
    by (intro exI [of _ "s\<lparr>idt := t\<rparr>"]) (auto simp: SOS_EXCEPT_BASE_def SOS_EXCEPT_DOUBLE_FAULT_def)
next
  case (Cons e es)
  show ?case
  proof (cases "e = 8")
    case True
    then have "exception_setup_loop wrappers gen (e # es) s = exception_setup_loop wrappers gen es s" by (simp add: SOS_EXCEPT_DOUBLE_FAULT_def)
    then show ?thesis using Cons.IH [OF Cons.prems(1,2)] Cons.prems(3) True by auto
  next
    case False
    have e: "0 \<le> e" "e < 32" using Cons.prems(3) by simp_all
    then have i: "0 \<le> e" "e < SOS_IDTE_NUM" by (simp_all add: SOS_IDTE_NUM_def)
    define s1 where "s1 = s\<lparr>sos_exception_handler_array := (sos_exception_handler_array s)[nat e := gen]\<rparr>"
    have s1: "length (idt s1) = 256" "idt s1 = idt s" using Cons.prems(1) by (simp_all add: s1_def)
    note G = gate_set [where h = "wrappers (nat e)", OF i s1(1)]
    obtain t where t: "snd (sos_idt_set_handler e (wrappers (nat e)) 0 s1) = s1\<lparr>idt := t\<rparr>" "length t = 256"
      using gate_frame [of e "wrappers (nat e)" 0 s1] s1(1) by auto
    let ?s2 = "s1\<lparr>idt := t\<rparr>"
    have st: "sos_idt_set_handler e (wrappers (nat e)) 0 s1 = (SOS_OK, ?s2)" using G(1) t(1) by (simp add: prod_eq_iff)
    have "sos_exception_set_routine wrappers e gen s = (SOS_OK, ?s2)"
      using e False g st by (simp add: sos_exception_set_routine_def SOS_EXCEPT_NUM_def SOS_EXCEPT_DOUBLE_FAULT_def SOS_EXCEPT_BASE_def s1_def [symmetric] Let_def)
    then have l: "exception_setup_loop wrappers gen (e # es) s = exception_setup_loop wrappers gen es ?s2"
      using False by (simp add: SOS_EXCEPT_DOUBLE_FAULT_def)
    have we: "wrappers (nat e) \<noteq> 0" using w e by simp
    note G2 = G(2-4) [unfolded t(1)]
    have hs: "sos_idt_get_handler j s1 = sos_idt_get_handler j s" for j by (rule get_handler_cong [OF s1(2)])
    have L: "length (idt ?s2) = 256" "length (sos_exception_handler_array ?s2) = 32" "\<forall>x \<in> set es. 0 \<le> x \<and> x < 32"
      using Cons.prems t(2) by (simp_all add: s1_def)
    obtain s' where s': "exception_setup_loop wrappers gen es ?s2 = (SOS_OK, s')" "length (idt s') = 256" "length (sos_exception_handler_array s') = 32"
      "s' = ?s2\<lparr>idt := idt s', sos_exception_handler_array := sos_exception_handler_array s'\<rparr>"
      "\<forall>j. sos_idt_get_handler j s' = (if j \<in> set es \<or> j = 8 then (SOS_OK, wrappers (nat j), 0) else sos_idt_get_handler j ?s2)"
      "\<forall>n. idt_present (idt s' ! n) \<longleftrightarrow> int n \<in> set es \<or> n = 8 \<or> idt_present (idt ?s2 ! n)"
      "\<forall>x. 0 \<le> x \<and> x < 32 \<longrightarrow> sos_exception_handler_array s' ! nat x = (if x \<in> set es - {8} then gen else sos_exception_handler_array ?s2 ! nat x)"
      using Cons.IH [OF L] by (elim exE conjE)
    have f1: "s' = s\<lparr>idt := idt s', sos_exception_handler_array := sos_exception_handler_array s'\<rparr>"
      by (rule trans [OF s'(4)]) (simp add: s1_def)
    have f2: "sos_idt_get_handler j s' = (if j \<in> set (e # es) \<or> j = 8 then (SOS_OK, wrappers (nat j), 0) else sos_idt_get_handler j s)" for j
      using s'(5) [rule_format, of j] G2(1) [of j] hs by auto
    have f3: "idt_present (idt s' ! n) \<longleftrightarrow> int n \<in> set (e # es) \<or> n = 8 \<or> idt_present (idt s ! n)" for n
      using s'(6) [rule_format, of n] G2(3) [of n] s1(2) we e by auto
    have f4: "sos_exception_handler_array s' ! nat x = (if x \<in> set (e # es) - {8} then gen else sos_exception_handler_array s ! nat x)"
      if "0 \<le> x \<and> x < 32" for x
    proof -
      have "nat e = nat x \<longleftrightarrow> x = e" using that e by auto
      then have "sos_exception_handler_array ?s2 ! nat x = (if x = e then gen else sos_exception_handler_array s ! nat x)"
        using e Cons.prems(2) by (simp add: s1_def nth_list_update)
      then show ?thesis using s'(7) [rule_format, OF that] False by (simp only: set_simps insert_iff Diff_iff) (simp split: if_split)
    qed
    show ?thesis unfolding l
      by (rule exI [of _ s'], intro conjI allI impI) (rule s'(1) s'(2) s'(3) f1 f2 f3 | erule f4)+
  qed
qed

section \<open>Interrupt lines\<close>

definition line_port :: "int \<Rightarrow> u16" where
  "line_port l = (if l < 8 then PIC_MASTER + 1 else PIC_SLAVE + 1)"

text \<open>A line is masked when its bit is set in the mask register of its controller.\<close>

definition line_masked :: "device \<Rightarrow> int \<Rightarrow> intr \<Rightarrow> bool" where
  "line_masked dev l s \<longleftrightarrow> bit (inb dev (line_port l) s) (nat (l mod 8))"

text \<open>The data ports of the controllers, once set up: each reads back the mask last written to it.\<close>

definition masks_read_back :: "device \<Rightarrow> intr \<Rightarrow> bool" where
  "masks_read_back dev s \<longleftrightarrow> (\<forall>v. \<forall>p \<in> {PIC_MASTER + 1, PIC_SLAVE + 1}. \<forall>q \<in> {PIC_MASTER + 1, PIC_SLAVE + 1}.
     dev (ports s @ [(p, v)]) q = (if p = q then v else dev (ports s) q))"

text \<open>Setting the routine of one exception, once the gates are set.\<close>

lemma exception_set_effect:
  assumes e: "0 \<le> e" "e < 32" "e \<noteq> 8" and g: "gen \<noteq> 0" "wrappers (nat e) \<noteq> 0" and len: "length (idt s) = 256" "length (sos_exception_handler_array s) = 32"
  shows "\<exists>s'. sos_exception_set_routine wrappers e gen s = (SOS_OK, s') \<and>
     s' = s\<lparr>idt := idt s', sos_exception_handler_array := (sos_exception_handler_array s)[nat e := gen]\<rparr> \<and>
     (\<forall>j. sos_idt_get_handler j s' = (if j = e then (SOS_OK, wrappers (nat e), 0) else sos_idt_get_handler j s)) \<and>
     (\<forall>n. idt_present (idt s' ! n) \<longleftrightarrow> int n = e \<or> idt_present (idt s ! n))"
proof -
  have i: "0 \<le> e" "e < SOS_IDTE_NUM" using e by (simp_all add: SOS_IDTE_NUM_def)
  define s1 where "s1 = s\<lparr>sos_exception_handler_array := (sos_exception_handler_array s)[nat e := gen]\<rparr>"
  have s1: "length (idt s1) = 256" "idt s1 = idt s" using len(1) by (simp_all add: s1_def)
  note G = gate_set [where h = "wrappers (nat e)", OF i s1(1)]
  obtain t where t: "snd (sos_idt_set_handler e (wrappers (nat e)) 0 s1) = s1\<lparr>idt := t\<rparr>" "length t = 256"
    using gate_frame [of e "wrappers (nat e)" 0 s1] s1(1) by auto
  let ?s2 = "s1\<lparr>idt := t\<rparr>"
  have st: "sos_idt_set_handler e (wrappers (nat e)) 0 s1 = (SOS_OK, ?s2)" using G(1) t(1) by (simp add: prod_eq_iff)
  have "sos_exception_set_routine wrappers e gen s = (SOS_OK, ?s2)"
    using e g(1) st by (simp add: sos_exception_set_routine_def SOS_EXCEPT_NUM_def SOS_EXCEPT_DOUBLE_FAULT_def SOS_EXCEPT_BASE_def s1_def [symmetric] Let_def)
  moreover have "sos_idt_get_handler j s1 = sos_idt_get_handler j s" for j by (rule get_handler_cong [OF s1(2)])
  ultimately show ?thesis using G(2-4) [unfolded t(1)] s1(2) g(2) e(1)
    by (intro exI [of _ ?s2]) (auto simp: s1_def)
qed

lemma line_update:
  assumes "masks_read_back dev s" "0 \<le> l" "l < 16" "0 \<le> k" "k < 16"
  shows "line_masked dev k (outb (inb dev (line_port l) s AND NOT (push_bit (nat (l mod 8)) 1)) (line_port l) s)
      = (if k = l then False else line_masked dev k s)"
    and "line_masked dev k (outb (inb dev (line_port l) s OR push_bit (nat (l mod 8)) 1) (line_port l) s)
      = (if k = l then True else line_masked dev k s)"
proof -
  have r: "dev (ports s @ [(line_port l, v)]) (line_port k) = (if line_port l = line_port k then v else dev (ports s) (line_port k))" for v
    using assms(1) unfolding masks_read_back_def line_port_def by auto
  have p: "line_port l = line_port k \<longleftrightarrow> (l < 8 \<longleftrightarrow> k < 8)" by (simp add: line_port_def PIC_MASTER_def PIC_SLAVE_def)
  have m: "nat (l mod 8) < 8" "nat (k mod 8) < 8" by simp_all
  have d: "x mod 8 = (if x < 8 then x else x - 8)" if "0 \<le> x" "x < 16" for x :: int using that by presburger
  have e: "line_port l = line_port k \<Longrightarrow> nat (l mod 8) = nat (k mod 8) \<longleftrightarrow> l = k" unfolding p using assms(2-5) by (auto simp: nat_eq_iff d)
  show "line_masked dev k (outb (inb dev (line_port l) s AND NOT (push_bit (nat (l mod 8)) 1)) (line_port l) s)
      = (if k = l then False else line_masked dev k s)"
    and "line_masked dev k (outb (inb dev (line_port l) s OR push_bit (nat (l mod 8)) 1) (line_port l) s)
      = (if k = l then True else line_masked dev k s)"
    using e m by (auto simp: line_masked_def outb_def inb_def r bit_simps)
qed

lemma line_bit: "0 \<le> l \<Longrightarrow> l < 16 \<Longrightarrow> nat (l mod 8) = (if l < 8 then nat l else nat (l - 8))"
proof -
  assume "0 \<le> l" "l < 16"
  then have "l mod 8 = (if l < 8 then l else l - 8)" by presburger
  then show ?thesis by simp
qed

lemma enable_line: "0 \<le> l \<Longrightarrow> l < 16 \<Longrightarrow>
   snd (sos_i8259_enable_irq_line dev l s) = outb (inb dev (line_port l) s AND NOT (push_bit (nat (l mod 8)) 1)) (line_port l) s"
  by (simp add: sos_i8259_enable_irq_line_def line_port_def line_bit)

lemma disable_line: "0 \<le> l \<Longrightarrow> l < 16 \<Longrightarrow>
   snd (sos_i8259_disable_irq_line dev l s) = outb (inb dev (line_port l) s OR push_bit (nat (l mod 8)) 1) (line_port l) s"
  by (simp add: sos_i8259_disable_irq_line_def line_port_def line_bit)

lemma line_masked_ports: "ports s = ports s' \<Longrightarrow> line_masked dev k s = line_masked dev k s'"
  by (simp add: line_masked_def inb_def)

lemma masks_read_back_ports: "ports s = ports s' \<Longrightarrow> masks_read_back dev s = masks_read_back dev s'"
  by (simp add: masks_read_back_def)

lemma irq_set_effect:
  assumes "length (idt s) = 256" "length (sos_irq_handler_array s) = 16" "masks_read_back dev s"
    and "\<forall>i < 16. wrappers i \<noteq> 0"
    and "sos_irq_set_routine dev wrappers lvl routine s = (r, s')"
  shows "if 0 \<le> lvl \<and> lvl < SOS_IRQ_NUM
    then r = SOS_OK \<and>
      (\<forall>l. sos_irq_get_routine l s' = (if l = lvl then routine else sos_irq_get_routine l s)) \<and>
      (\<forall>j. sos_idt_get_handler j s' =
        (if j = 32 + lvl then (SOS_OK, if routine = 0 then 0 else wrappers (nat lvl), 0) else sos_idt_get_handler j s)) \<and>
      (\<forall>n. idt_present (idt s' ! n) = (if n = nat (32 + lvl) then routine \<noteq> 0 else idt_present (idt s ! n))) \<and>
      (\<forall>l. 0 \<le> l \<and> l < 16 \<longrightarrow> line_masked dev l s' = (if l = lvl then routine = 0 else line_masked dev l s))
    else r = - SOS_EINVAL \<and> s' = s"
proof (cases "0 \<le> lvl \<and> lvl < SOS_IRQ_NUM")
  case False
  then show ?thesis using assms(5) by (auto simp: sos_irq_set_routine_def)
next
  case True
  then have l: "0 \<le> lvl" "lvl < 16" by (simp_all add: SOS_IRQ_NUM_def)
  define h where "h = (if routine = 0 then 0 else wrappers (nat lvl))"
  define s1 where "s1 = s\<lparr>sos_irq_handler_array := (sos_irq_handler_array s)[nat lvl := routine]\<rparr>"
  define s2 where "s2 = snd (sos_idt_set_handler (32 + lvl) h 0 s1)"
  have s1: "length (idt s1) = 256" "ports s1 = ports s" "idt s1 = idt s" using assms(1) by (simp_all add: s1_def)
  obtain t where s2: "s2 = s1\<lparr>idt := t\<rparr>" using gate_frame [of "32 + lvl" h 0 s1] by (auto simp: s2_def)
  have i: "0 \<le> 32 + lvl" "32 + lvl < SOS_IDTE_NUM" using l by (simp_all add: SOS_IDTE_NUM_def)
  note g = gate_set [where h = h, OF i s1(1), folded s2_def]
  have a: "sos_irq_handler_array s2 ! nat lvl = routine" using l assms(2) by (simp add: s2 s1_def)
  have e: "sos_idt_set_handler (32 + lvl) h 0 s1 = (SOS_OK, s2)" using g(1) by (simp add: s2_def prod_eq_iff)
  have d: "(r, s') = (SOS_OK, if routine \<noteq> 0 then snd (sos_i8259_enable_irq_line dev lvl s2)
      else snd (sos_i8259_disable_irq_line dev lvl s2))"
    using assms(5) True e [unfolded s1_def] a unfolding sos_irq_set_routine_def
    by (cases "routine = 0") (simp_all add: Let_def SOS_IRQ_BASE_def h_def)
  have x: "\<exists>v. s' = outb v (line_port lvl) s2" using d by (auto simp: enable_line disable_line l split: if_splits)
  then have fr: "idt s' = idt s2" "sos_irq_handler_array s' = sos_irq_handler_array s2" by (auto simp: outb_def)
  have m: "masks_read_back dev s2" using assms(3) by (simp add: masks_read_back_def s2 s1)
  have "ports s2 = ports s" by (simp add: s2 s1)
  then have "line_masked dev k s2 = line_masked dev k s" for k by (rule line_masked_ports)
  then have "line_masked dev k s' = (if k = lvl then routine = 0 else line_masked dev k s)" if "0 \<le> k" "k < 16" for k
    using line_update [OF m l that] d by (cases "routine = 0") (simp_all add: enable_line disable_line l)
  moreover have "sos_irq_get_routine k s' = (if k = lvl then routine else sos_irq_get_routine k s)" for k
    using l assms(2) by (auto simp: sos_irq_get_routine_def fr s2 s1_def nth_list_update nat_eq_iff2 SOS_IRQ_NUM_def)
  moreover have "sos_idt_get_handler j s' = (if j = 32 + lvl then (SOS_OK, h, 0) else sos_idt_get_handler j s)" for j
    using g(2) [where j = j] get_handler_cong [OF fr(1)] get_handler_cong [OF s1(3)] by simp
  moreover have "idt_present (idt s' ! n) = (if n = nat (32 + lvl) then routine \<noteq> 0 else idt_present (idt s ! n))" for n
    using g(4) [where n = n] assms(4) l by (simp add: fr s1 h_def)
  ultimately show ?thesis using True d by (simp add: h_def)
qed

section \<open>Properties\<close>

text \<open>
  Setting the routine of an interrupt line, valid from 0 to 15 and refused otherwise with no effect: the table holds the
  routine, the gate 32 above the line leads to the wrapper of that line or is absent when the routine is null, the line is
  masked exactly when the routine is null, and every other routine, gate and line is left as it was. The
  hypothesis on the device is that the controllers read back the mask last written.
\<close>

theorem irq_routine_set:
  assumes "length (idt s) = 256" "length (sos_irq_handler_array s) = 16" "masks_read_back dev s"
    and "\<forall>i < 16. wrappers i \<noteq> 0"
    and "sos_irq_set_routine dev wrappers lvl routine s = (r, s')"
  shows "if 0 \<le> lvl \<and> lvl < SOS_IRQ_NUM
    then r = SOS_OK \<and>
      (\<forall>l. sos_irq_get_routine l s' = (if l = lvl then routine else sos_irq_get_routine l s)) \<and>
      (\<forall>j. sos_idt_get_handler j s' =
        (if j = 32 + lvl then (SOS_OK, if routine = 0 then 0 else wrappers (nat lvl), 0) else sos_idt_get_handler j s)) \<and>
      (\<forall>n. idt_present (idt s' ! n) = (if n = nat (32 + lvl) then routine \<noteq> 0 else idt_present (idt s ! n))) \<and>
      (\<forall>l. 0 \<le> l \<and> l < 16 \<longrightarrow> line_masked dev l s' = (if l = lvl then routine = 0 else line_masked dev l s))
    else r = - SOS_EINVAL \<and> s' = s"
  by (rule irq_set_effect [OF assms])

text \<open>A device whose data ports read back the last byte written, and a machine set up by the code.\<close>

definition latch :: device where
  "latch log port = (case filter (\<lambda>(p, _). p = port) (rev log) of [] \<Rightarrow> 0 | (_, v) # _ \<Rightarrow> v)"

definition reset_intr :: intr where
  "reset_intr = \<lparr>idt = replicate 256 \<lparr>offset_low = 0, seg_sel = 0, idt_reserved = 0, idt_flags = 0, idt_type = 0, op_size = 0,
       idt_zero = 0, idt_dpl = 0, idt_present = False, offset_high = 0\<rparr>,
     idtr = None, gdtr = None, reg_cs = 0, reg_data = [], sos_irq_handler_array = replicate 16 0,
     sos_exception_handler_array = replicate 32 0, sos_irq_nested_level_counter = 0, ports = []\<rparr>"

theorem irq_routine_set_witness:
  "let s = snd (sos_irq_subsystem_setup reset_intr);
       s' = snd (sos_irq_set_routine latch (\<lambda>i. if i = 9 then 0x200009 else 0x200000) 9 0x300000 s)
   in line_masked latch 9 s \<and> \<not> line_masked latch 9 s' \<and> \<not> line_masked latch 2 s' \<and> sos_idt_get_handler 41 s' = (SOS_OK, 0x200009, 0) \<and>
      sos_irq_get_routine 9 s' = 0x300000"
proof -
  define s where "s = snd (sos_irq_subsystem_setup reset_intr)"
  define r where "r = sos_irq_set_routine latch (\<lambda>i. if i = 9 then 0x200009 else 0x200000) 9 0x300000 s"
  have s: "idt s = idt reset_intr" "sos_irq_handler_array s = replicate 16 0"
    by (simp_all add: s_def sos_irq_subsystem_setup_def sos_i8259_subsystem_setup_def outb_def reset_intr_def)
  have m: "masks_read_back latch s" by (simp add: masks_read_back_def latch_def PIC_MASTER_def PIC_SLAVE_def)
  have w: "\<forall>i < 16. (if i = (9 :: nat) then 0x200009 else 0x200000) \<noteq> (0 :: u32)" by simp
  have p: "ports s = [(0x20, 0x11), (0xa0, 0x11), (0x21, 0x20), (0xa1, 0x28), (0x21, 0x4), (0xa1, 0x2), (0x21, 0x1), (0xa1, 0x1),
      (0x21, 0xFB), (0xa1, 0xFF)]"
    by (simp add: s_def sos_irq_subsystem_setup_def sos_i8259_subsystem_setup_def outb_def reset_intr_def PIC_MASTER_def PIC_SLAVE_def)
  have k: "line_masked latch 9 s" "\<not> line_masked latch 2 s"
    by (simp_all add: line_masked_def inb_def latch_def p line_port_def PIC_MASTER_def PIC_SLAVE_def bit_iff_odd_drop_bit drop_bit_eq_div)
  note q = irq_routine_set [of s latch "\<lambda>i. if i = 9 then 0x200009 else 0x200000" 9 "0x300000" "fst r" "snd r"]
  have "length (idt s) = 256" "length (sos_irq_handler_array s) = 16" by (simp_all add: s reset_intr_def)
  then show ?thesis using q m w k
    by (simp add: SOS_IRQ_NUM_def r_def [symmetric] s_def [symmetric] Let_def)
qed

lemma byte_mask: "(0xff :: u32) = mask 8"
  by (simp add: mask_eq_exp_minus_1)

lemma low_high_bytes:
  fixes w :: u32
  assumes "unat w < 65536"
  shows "unat (ucast (w AND 0xFF) :: u8) + 256 * unat (ucast (drop_bit 8 w AND 0xFF) :: u8) = unat w"
proof -
  have "unat w div 256 < 256" using assms by auto
  then have "unat (ucast (w AND 0xFF) :: u8) = unat w mod 256" "unat (ucast (drop_bit 8 w AND 0xFF) :: u8) = unat w div 256"
    by (simp_all add: byte_mask take_bit_eq_mask [symmetric] unsigned_ucast_eq unsigned_take_bit_eq unsigned_drop_bit_eq
        drop_bit_eq_div take_bit_nat_def unat_div)
  then show ?thesis by simp
qed

text \<open>
  Programming the timer: a frequency is accepted exactly between 19 Hz and 1193180 Hz, and refused otherwise with nothing
  sent. The bytes sent are the mode, then the low and the high byte of the divisor 1193180 / freq rounded down: it is
  between 1 and 62798, so it fits in two bytes (the value 65536, which the code writes as 0, is never reached), and it
  is the largest whose product with the frequency does not exceed the clock.
\<close>

theorem i8254_programmed:
  "if 19 \<le> unat freq \<and> unat freq \<le> 1193180
   then \<exists>lo hi :: u8. sos_i8254_set_frequency freq s =
       (SOS_OK, s\<lparr>ports := ports s @ [(I8254_CONTROL, 0x34), (I8254_TIMER0, lo), (I8254_TIMER0, hi)]\<rparr>) \<and>
     (let count = unat lo + 256 * unat hi in
       1 \<le> count \<and> count \<le> 62798 \<and> unat freq * count \<le> 1193180 \<and> 1193180 < unat freq * (count + 1))
   else sos_i8254_set_frequency freq s = (- SOS_EINVAL, s)"
proof -
  define q where "q = 1193180 div unat freq"
  have u: "unat (I8254_MAX_FREQ div freq) = q" by (simp add: unat_div q_def I8254_MAX_FREQ_def)
  have c: "I8254_MAX_FREQ div freq > 65536 \<longleftrightarrow> q > 65536" "I8254_MAX_FREQ div freq = 0 \<longleftrightarrow> q = 0"
      "I8254_MAX_FREQ div freq = 65536 \<longleftrightarrow> q = 65536" "freq = 0 \<longleftrightarrow> unat freq = 0"
    by (simp_all add: word_less_nat_alt word_unat_eq_iff u)
  show ?thesis
  proof (cases "19 \<le> unat freq \<and> unat freq \<le> 1193180")
    case False
    consider "unat freq = 0" | "0 < unat freq" "unat freq \<le> 18" | "unat freq > 1193180" using False by linarith
    then show ?thesis
    proof cases
      case 2
      then have "1193180 div 18 \<le> q" unfolding q_def by (intro div_le_mono2)
      then have "q > 65536" by simp
      then have "sos_i8254_set_frequency freq s = (- SOS_EINVAL, s)" by (simp add: sos_i8254_set_frequency_def c Let_def)
      then show ?thesis using False by argo
    qed (use False in \<open>simp_all add: sos_i8254_set_frequency_def c Let_def q_def\<close>)
  next
    case True
    have "q \<le> 1193180 div 19" unfolding q_def using True by (intro div_le_mono2) auto
    then have q: "q \<le> 62798" by simp
    have q0: "1 \<le> q" using True div_le_mono [of "unat freq" 1193180 "unat freq"] by (simp add: q_def)
    have "1193180 = unat freq * q + 1193180 mod unat freq" by (simp add: q_def)
    then have "unat freq * q \<le> 1193180" "1193180 < unat freq * (q + 1)"
      using True mod_less_divisor [of "unat freq" 1193180] by (linarith, simp only: add_mult_distrib2 mult_1_right, linarith)
    moreover define w where "w = I8254_MAX_FREQ div freq"
    have "unat (ucast (w AND 0xFF) :: u8) + 256 * unat (ucast (drop_bit 8 w AND 0xFF) :: u8) = q"
      using low_high_bytes [of w] q u by (simp add: w_def)
    moreover have "sos_i8254_set_frequency freq s = (SOS_OK, s\<lparr>ports := ports s @
        [(I8254_CONTROL, 0x34), (I8254_TIMER0, ucast (w AND 0xFF)), (I8254_TIMER0, ucast (drop_bit 8 w AND 0xFF))]\<rparr>)"
      using True q q0 c by (simp add: sos_i8254_set_frequency_def Let_def outb_def w_def [symmetric])
    ultimately show ?thesis using True q q0 by (auto simp: Let_def)
  qed
qed

end
