(* ===== verification/Mouse_sim.thy ===== *)
theory Mouse_sim
  imports Ksynch Kformat
begin

text \<open>
  The cheese-eating mice of \<^verbatim>\<open>os/mouse_sim.c\<close>, the demonstration of threads and semaphores: the map, its
  elements, and the turns of the mice and of their creator. A cell holds the address of its element, 0 when it is
  empty; the elements are a store of structures by address. The addresses that \<open>sos_kmalloc\<close> returns are a list of inputs, 0 for a
  failure, and those given to \<open>sos_kfree\<close> are recorded. The blocking calls that begin and end a turn, \<open>sos_ksema_down\<close> and
  \<open>sos_thread_sleep\<close>, are those of \<open>Ksynch\<close> and \<open>Kthread\<close>: a turn is the code between them, run while the thread holds \<open>SemMap\<close>.
  No result stands for an access outside the map or through a null pointer, or for a call of the kernel that does not return.
\<close>

section \<open>State\<close>

definition MAP_X :: int where "MAP_X = 76"
definition MAP_Y :: int where "MAP_Y = 12"
definition MAP_SIZE :: int where "MAP_SIZE = MAP_X * MAP_Y"

definition MOUSE :: u32 where "MOUSE = 0x01"
definition CHEESE :: u32 where "CHEESE = 0x02"
definition OBSTACLE :: u32 where "OBSTACLE = 0x04"
definition INPUT :: u32 where "INPUT = 0x08"
definition OUTPUT :: u32 where "OUTPUT = 0x10"

definition OBSTACLE_COUNT :: nat where "OBSTACLE_COUNT = 100"
definition CHEESE_COUNT :: nat where "CHEESE_COUNT = 650"

definition MOUSE_FULL :: u32 where "MOUSE_FULL = 0x01"
definition MOUSE_EMPTY :: u32 where "MOUSE_EMPTY = 0x02"
definition CHEESE_FOUND :: u32 where "CHEESE_FOUND = 0x04"
definition MOUSE_EXITED :: u32 where "MOUSE_EXITED = 0x08"

definition MOUSE_SPEED_MIN :: u32 where "MOUSE_SPEED_MIN = 4"

record Point =
  pX :: int
  pY :: int

record Element =
  Type :: u32
  Status :: u32
  Color :: u32
  Pt :: Point
  ThreadID :: "nat option"
  Way :: int

record sim =
  element :: "u32 \<Rightarrow> Element"
  pMap :: "u32 list"
  MouseCount :: int
  CheeseCount :: int
  ObstacleCount :: int
  MouseSpeed :: u32
  krn :: kernel
  screen :: console
  rand_seed :: u32
  given_back :: "u32 list"

definition IsSet :: "u32 \<Rightarrow> u32 \<Rightarrow> bool" where "IsSet Reg Flag \<longleftrightarrow> Reg AND Flag \<noteq> 0"
definition SetFlag :: "u32 \<Rightarrow> u32 \<Rightarrow> u32" where "SetFlag Reg Flag = Reg OR Flag"
definition ResetFlag :: "u32 \<Rightarrow> u32 \<Rightarrow> u32" where "ResetFlag Reg Flag = Reg AND NOT Flag"

definition upd_element :: "u32 \<Rightarrow> (Element \<Rightarrow> Element) \<Rightarrow> sim \<Rightarrow> sim" where
  "upd_element a f s = s\<lparr>element := (element s)(a := f (element s a))\<rparr>"

definition cell_index :: "Point \<Rightarrow> int" where
  "cell_index p = pX p + pY p * MAP_X"

definition read_cell :: "Point \<Rightarrow> sim \<Rightarrow> u32 option" where
  "read_cell p s = (let i = cell_index p in if 0 \<le> i \<and> i < int (length (pMap s)) then Some (pMap s ! nat i) else None)"

definition write_cell :: "Point \<Rightarrow> u32 \<Rightarrow> sim \<Rightarrow> sim option" where
  "write_cell p a s = (let i = cell_index p in
     if 0 \<le> i \<and> i < int (length (pMap s)) then Some (s\<lparr>pMap := (pMap s)[nat i := a]\<rparr>) else None)"

definition deref :: "u32 \<Rightarrow> sim \<Rightarrow> Element option" where
  "deref a s = (if a = 0 then None else Some (element s a))"

definition draw_random :: "sim \<Rightarrow> u32 \<times> sim" where
  "draw_random s = (let (r, seed) = random (rand_seed s) in (r, s\<lparr>rand_seed := seed\<rparr>))"

definition DrawPixel :: "int \<Rightarrow> int \<Rightarrow> u32 \<Rightarrow> sim \<Rightarrow> sim" where
  "DrawPixel x y color s = s\<lparr>screen := os_putchar (y + 3) (x + 2) (ucast color) 219 (screen s)\<rparr>"

definition print_counts :: "string \<Rightarrow> sim \<Rightarrow> sim option" where
  "print_counts format s = do {
     c \<leftarrow> os_printf 23 0 (ucast (FG_YELLOW OR BG_BLUE)) format
       [Num (word_of_int (MouseCount s)), Num (word_of_int (CheeseCount s)), Num (word_of_int (ObstacleCount s))] (screen s);
     Some (s\<lparr>screen := c\<rparr>) }"

definition counts_format :: string where
  "counts_format = ''Souris = %d; Fromages = %d; Obstacles = %d       ''"

definition counts_format_move :: string where
  "counts_format_move = ''Souris = %d; Fromages = %d; Obstacles = %d      ''"

section \<open>The map\<close>

definition DrawMap :: "sim \<Rightarrow> sim option" where
  "DrawMap s =
     print_counts counts_format
       (fold (\<lambda>i s. if pMap s ! i \<noteq> 0 then DrawPixel (int i mod MAP_X) (int i div MAP_X) (Color (element s (pMap s ! i))) s
                    else DrawPixel (int i mod MAP_X) (int i div MAP_X) FG_BLACK s)
         [0..<nat MAP_SIZE] s)"

definition InitMapInput :: "u32 \<Rightarrow> sim \<Rightarrow> (sos_ret_t \<times> sim) option" where
  "InitMapInput pElement s =
     (if pElement = 0 then Some (- SOS_ENOMEM, s)
      else do {
        let p = \<lparr>pX = 0, pY = MAP_Y div 2\<rparr>;
        let s = upd_element pElement (\<lambda>e. e\<lparr>Type := INPUT, Status := 0, Color := FG_YELLOW OR BG_BLUE, Pt := p, ThreadID := None\<rparr>) s;
        s \<leftarrow> write_cell p pElement s;
        Some (SOS_OK, s) })"

definition InitMapOutput :: "u32 \<Rightarrow> sim \<Rightarrow> (sos_ret_t \<times> sim) option" where
  "InitMapOutput pElement s =
     (if pElement = 0 then Some (- SOS_ENOMEM, s)
      else do {
        let p = \<lparr>pX = MAP_X - 1, pY = MAP_Y div 2\<rparr>;
        let s = upd_element pElement (\<lambda>e. e\<lparr>Type := OUTPUT, Status := 0, Color := FG_LTBLUE, Pt := p, ThreadID := None\<rparr>) s;
        s \<leftarrow> write_cell p pElement s;
        Some (SOS_OK, s) })"

text \<open>One element placed at random, if the cell drawn is free.\<close>

fun ElementInit_loop :: "nat \<Rightarrow> u32 \<Rightarrow> u32 \<Rightarrow> u32 list \<Rightarrow> sim \<Rightarrow> (sos_ret_t \<times> u32 list \<times> sim) option" where
  "ElementInit_loop 0 ty color as s = Some (SOS_OK, as, s)"
| "ElementInit_loop (Suc n) ty color as s =
     (let (r1, s) = draw_random s;
          (r2, s) = draw_random s;
          j = unat ((r1 + r2) mod word_of_int MAP_SIZE)
      in if \<not> j < length (pMap s) then None
      else if pMap s ! j = 0
      then case as of
        [] \<Rightarrow> None
      | a # as \<Rightarrow>
          let s = s\<lparr>pMap := (pMap s)[j := a]\<rparr>
          in if a = 0 then Some (- SOS_ENOMEM, as, s)
          else
            let s = (if ty = CHEESE then s\<lparr>CheeseCount := CheeseCount s + 1\<rparr>
                     else if ty = OBSTACLE then s\<lparr>ObstacleCount := ObstacleCount s + 1\<rparr> else s);
                s = upd_element a (\<lambda>e. e\<lparr>Type := ty, Status := 0, Color := color,
                      Pt := \<lparr>pX = int j mod MAP_X, pY = int j div MAP_X\<rparr>, ThreadID := None\<rparr>) s
            in ElementInit_loop n ty color as s
      else ElementInit_loop n ty color as s)"

definition ElementInit :: "u32 \<Rightarrow> u32 list \<Rightarrow> sim \<Rightarrow> (sos_ret_t \<times> u32 list \<times> sim) option" where
  "ElementInit ty as s =
     (if ty = CHEESE then ElementInit_loop CHEESE_COUNT ty FG_YELLOW as s
      else if ty = OBSTACLE then ElementInit_loop OBSTACLE_COUNT ty FG_GREEN as s
      else Some (- SOS_EINVAL, as, s))"

text \<open>The allocations are those of the map, of the entry, of the exit, and of the other elements in turn.\<close>

definition CreateMap :: "u32 \<Rightarrow> u32 \<Rightarrow> u32 \<Rightarrow> u32 list \<Rightarrow> sim \<Rightarrow> (sos_ret_t \<times> u32 list \<times> sim) option" where
  "CreateMap map_vaddr input_vaddr output_vaddr as s =
     (if map_vaddr = 0 then Some (- SOS_ENOMEM, as, s)
      else do {
        let s = s\<lparr>pMap := replicate (nat MAP_SIZE) 0\<rparr>;
        (r, s) \<leftarrow> InitMapInput input_vaddr s;
        if r \<noteq> SOS_OK then Some (- SOS_EFATAL, as, s) else do {
        (r, s) \<leftarrow> InitMapOutput output_vaddr s;
        if r \<noteq> SOS_OK then Some (- SOS_EFATAL, as, s) else do {
        (r, as, s) \<leftarrow> ElementInit CHEESE as s;
        if r \<noteq> SOS_OK then Some (- SOS_EFATAL, as, s) else do {
        (r, as, s) \<leftarrow> ElementInit OBSTACLE as s;
        if r \<noteq> SOS_OK then Some (- SOS_EFATAL, as, s) else do {
        s \<leftarrow> DrawMap s;
        Some (SOS_OK, as, s) } } } } })"

section \<open>A move\<close>

text \<open>The switch on the direction, which the code repeats in each of its loops over the directions.\<close>

definition displace :: "int \<Rightarrow> Point \<Rightarrow> Point" where
  "displace I p =
     (if I = 0 then p\<lparr>pY := pY p + 1\<rparr>
      else if I = 1 then p\<lparr>pX := pX p + 1, pY := pY p + 1\<rparr>
      else if I = 2 then p\<lparr>pX := pX p + 1\<rparr>
      else if I = 3 then p\<lparr>pX := pX p + 1, pY := pY p - 1\<rparr>
      else if I = 4 then p\<lparr>pY := pY p - 1\<rparr>
      else if I = 5 then p\<lparr>pX := pX p - 1, pY := pY p - 1\<rparr>
      else if I = 6 then p\<lparr>pX := pX p - 1\<rparr>
      else if I = 7 then p\<lparr>pX := pX p - 1, pY := pY p + 1\<rparr>
      else p)"

definition in_map :: "Point \<Rightarrow> bool" where
  "in_map p \<longleftrightarrow> \<not> (pX p < 0 \<or> pY p < 0) \<and> \<not> (pY p \<ge> MAP_Y \<or> pX p \<ge> MAP_X)"

definition IsCollision :: "nat \<Rightarrow> Point \<Rightarrow> Point \<Rightarrow> Point \<Rightarrow> sim \<Rightarrow> (bool \<times> Point \<times> sim) option" where
  "IsCollision SemMouse Org p Cheese s = do {
     pMouse \<leftarrow> read_cell Org s;
     if \<not> in_map p then Some (True, Cheese, s)
     else do {
       pElement \<leftarrow> read_cell p s;
       if pElement = 0 then Some (False, Cheese, s)
       else do {
         m \<leftarrow> deref pMouse s;
         if IsSet (Status m) CHEESE_FOUND then Some (False, Cheese, s)
         else
           let e = element s pElement in
           if Type e = CHEESE then
             if IsSet (Status m) MOUSE_FULL then Some (True, Cheese, s)
             else Some (False, p, upd_element pMouse (\<lambda>m. m\<lparr>Status := SetFlag (Status m) CHEESE_FOUND\<rparr>) s)
           else if Type e = INPUT then
             if IsSet (Status m) MOUSE_EMPTY then Some (True, Cheese, s)
             else do {
               let s = upd_element pMouse (\<lambda>m. m\<lparr>Status := ResetFlag (SetFlag (Status m) MOUSE_EMPTY) MOUSE_FULL,
                     Color := FG_LTRED\<rparr>) s;
               (_, k) \<leftarrow> sos_ksema_up SemMouse (krn s);
               Some (True, Cheese, s\<lparr>krn := k\<rparr>) }
           else if Type e = OUTPUT then Some (False, Cheese, s)
           else Some (True, Cheese, s) } } }"

text \<open>The positions found, in order, and the place of the cheese, which starts with what its variable holds.\<close>

fun EvaluatePositions_loop ::
    "nat \<Rightarrow> Point \<Rightarrow> int list \<Rightarrow> int list \<Rightarrow> Point \<Rightarrow> sim \<Rightarrow> (int list \<times> Point \<times> sim) option" where
  "EvaluatePositions_loop SemMouse Org [] Positions CheesePos s = Some (Positions, CheesePos, s)"
| "EvaluatePositions_loop SemMouse Org (I # Is) Positions CheesePos s = do {
     (c, CheesePos, s) \<leftarrow> IsCollision SemMouse Org (displace I Org) CheesePos s;
     EvaluatePositions_loop SemMouse Org Is (if c then Positions else Positions @ [I]) CheesePos s }"

definition EvaluatePositions :: "nat \<Rightarrow> Point \<Rightarrow> Point \<Rightarrow> sim \<Rightarrow> (int list \<times> Point \<times> sim) option" where
  "EvaluatePositions SemMouse Org unset s = EvaluatePositions_loop SemMouse Org [0..7] [] unset s"

definition ChoosePosition :: "u32 \<Rightarrow> int list \<Rightarrow> sim \<Rightarrow> (Point \<times> sim) option" where
  "ChoosePosition pMouse Positions s = do {
     m \<leftarrow> deref pMouse s;
     case find (\<lambda>I. I = Way m) Positions of
       Some I \<Rightarrow> Some (displace I (Pt m), s)
     | None \<Rightarrow>
         let (r, s) = draw_random s;
             Count = length Positions;
             J = unat (r mod word_of_nat Count);
             I = Positions ! J;
             I = (if (I + 4) mod 8 = Way m then Positions ! ((J + 1) mod Count) else I)
         in Some (displace I (Pt m), upd_element pMouse (\<lambda>m. m\<lparr>Way := I\<rparr>) s) }"

definition AffectMovement :: "Point \<Rightarrow> Point \<Rightarrow> sim \<Rightarrow> (bool \<times> sim) option" where
  "AffectMovement Org p s = do {
     pMouse \<leftarrow> read_cell Org s;
     pElement \<leftarrow> read_cell p s;
     if pElement = 0 then Some (True, s)
     else if Type (element s pElement) = CHEESE then do {
       let s = s\<lparr>given_back := given_back s @ [pElement]\<rparr>;
       s \<leftarrow> write_cell p 0 s;
       _ \<leftarrow> deref pMouse s;
       let s = upd_element pMouse (\<lambda>m. m\<lparr>Status := ResetFlag (SetFlag (Status m) MOUSE_FULL) MOUSE_EMPTY, Color := FG_MAGENTA\<rparr>) s;
       Some (True, s\<lparr>CheeseCount := CheeseCount s - 1\<rparr>) }
     else if Type (element s pElement) = OUTPUT then do {
       s \<leftarrow> write_cell Org 0 s;
       let s = s\<lparr>MouseCount := MouseCount s - 1\<rparr>;
       s \<leftarrow> print_counts counts_format (DrawPixel (pX Org) (pY Org) FG_BLACK s);
       _ \<leftarrow> deref pMouse s;
       Some (False, upd_element pMouse (\<lambda>m. m\<lparr>Status := SetFlag (Status m) MOUSE_EXITED\<rparr>) s) }
     else Some (False, s) }"

text \<open>\<open>unset\<close> is what the uninitialised local variables hold. The result is the next position of the mouse.\<close>

definition MouseMove :: "nat \<Rightarrow> Point \<Rightarrow> Point \<Rightarrow> sim \<Rightarrow> (Point \<times> sim) option" where
  "MouseMove SemMouse unset Org s = do {
     pMouse \<leftarrow> read_cell Org s;
     (Positions, Cheese, s) \<leftarrow> EvaluatePositions SemMouse Org unset s;
     if Positions = [] then Some (Org, s)
     else do {
       m \<leftarrow> deref pMouse s;
       (p, s) \<leftarrow>
         (if IsSet (Status m) CHEESE_FOUND
          then Some (Cheese, upd_element pMouse (\<lambda>m. m\<lparr>Status := ResetFlag (Status m) CHEESE_FOUND\<rparr>) s)
          else ChoosePosition pMouse Positions s);
       (moved, s) \<leftarrow> AffectMovement Org p s;
       if \<not> moved then Some (Org, s)
       else do {
         s \<leftarrow> write_cell Org 0 s;
         s \<leftarrow> write_cell p pMouse s;
         let s = upd_element pMouse (\<lambda>m. m\<lparr>Pt := p\<rparr>) s;
         let s = DrawPixel (pX Org) (pY Org) FG_BLACK s;
         s \<leftarrow> print_counts counts_format_move (DrawPixel (pX p) (pY p) (Color (element s pMouse)) s);
         Some (p, s) } } }"

section \<open>The threads\<close>

text \<open>
  What a mouse does between the return of \<open>sos_ksema_down\<close> on \<open>SemMap\<close> and the sleep or the end of its thread:
  \<open>Inl\<close> the delay of the sleep, or \<open>Inr\<close> when the mouse has left.
\<close>

definition Mouse_turn :: "nat \<Rightarrow> nat \<Rightarrow> Point \<Rightarrow> u32 \<Rightarrow> Point \<Rightarrow> sim \<Rightarrow> ((sos_time + unit) \<times> Point \<times> sim) option" where
  "Mouse_turn SemMap SemMouse unset pMouse p s = do {
     (p, s) \<leftarrow> MouseMove SemMouse unset p s;
     (_, k) \<leftarrow> sos_ksema_up SemMap (krn s);
     let s = s\<lparr>krn := k\<rparr>;
     m \<leftarrow> deref pMouse s;
     if IsSet (Status m) MOUSE_EXITED
     then Some (Inr (), p, s\<lparr>given_back := given_back s @ [pMouse]\<rparr>)
     else
       let (r, s) = draw_random s;
           delay_ms = MOUSE_SPEED_MIN + r mod MouseSpeed s
       in Some (Inl \<lparr>sec = delay_ms div 1000, nanosec = delay_ms mod 1000 * 1000000\<rparr>, p, s) }"

text \<open>The creation of the thread of a mouse: the addresses of the thread's code, of its structure and of its stack are inputs.\<close>

type_synonym thread_input = "u32 \<times> u32 \<times> u32 \<times> nat option \<times> sos_vaddr_t"

fun create_mouse_thread :: "thread_input \<Rightarrow> u32 \<Rightarrow> kernel \<Rightarrow> (nat option \<times> kernel) option" where
  "create_mouse_thread (core_routine, thread_exit, mouse_func, new_thread, stack) pElement k = do {
     (t, _, _, k) \<leftarrow> sos_create_kernel_thread core_routine thread_exit (Some ''Mouse'') (Some mouse_func) pElement new_thread stack k;
     Some (t, k) }"

text \<open>The last component is the mouse that was created, for the thread that starts with it.\<close>

fun CreateMouse_loop :: "thread_input \<Rightarrow> int list \<Rightarrow> u32 list \<Rightarrow> sim \<Rightarrow> (sos_ret_t \<times> u32 option \<times> sim) option" where
  "CreateMouse_loop th [] as s = Some (- SOS_EBUSY, None, s)"
| "CreateMouse_loop th (I # Is) as s =
     (let p = displace I \<lparr>pX = 0, pY = MAP_Y div 2\<rparr> in
      if \<not> in_map p then CreateMouse_loop th Is as s
      else do {
        pElement \<leftarrow> read_cell p s;
        if pElement \<noteq> 0 then CreateMouse_loop th Is as s
        else case as of
          [] \<Rightarrow> None
        | a # as \<Rightarrow>
            if a = 0 then CreateMouse_loop th Is as s
            else do {
              let s = upd_element a (\<lambda>e. e\<lparr>Type := MOUSE, Status := SetFlag (Status e) MOUSE_EMPTY, Color := FG_LTRED, Pt := p, Way := 0\<rparr>) s;
              (t, k) \<leftarrow> create_mouse_thread th a (krn s);
              let s = upd_element a (\<lambda>e. e\<lparr>ThreadID := t\<rparr>) (s\<lparr>krn := k\<rparr>);
              if t = None then Some (- SOS_ENOMEM, None, s\<lparr>given_back := given_back s @ [a]\<rparr>)
              else do {
                s \<leftarrow> write_cell p a s;
                let s = s\<lparr>MouseCount := MouseCount s + 1\<rparr>;
                s \<leftarrow> print_counts counts_format (DrawPixel (pX p) (pY p) (Color (element s a)) s);
                Some (SOS_OK, Some a, s) } } })"

definition CreateMouse :: "thread_input \<Rightarrow> u32 list \<Rightarrow> sim \<Rightarrow> (sos_ret_t \<times> u32 option \<times> sim) option" where
  "CreateMouse th as s = CreateMouse_loop th [0..7] as s"

text \<open>What the creator does between the return of its two \<open>sos_ksema_down\<close> and the next ones.\<close>

definition MouseCreator_turn :: "nat \<Rightarrow> thread_input \<Rightarrow> u32 list \<Rightarrow> sim \<Rightarrow> (u32 option \<times> sim) option" where
  "MouseCreator_turn SemMap th as s = do {
     (_, a, s) \<leftarrow> CreateMouse th as s;
     (_, k) \<leftarrow> sos_ksema_up SemMap (krn s);
     Some (a, s\<lparr>krn := k\<rparr>) }"

definition MouseSim :: "nat \<Rightarrow> nat \<Rightarrow> u32 \<Rightarrow> u32 \<Rightarrow> u32 \<Rightarrow> u32 list \<Rightarrow> thread_input \<Rightarrow> sim \<Rightarrow> sim option" where
  "MouseSim SemMap SemMouse map_vaddr input_vaddr output_vaddr as th s = do {
     let (r, k) = sos_ksema_init SemMap 1 (krn s);
     sos_assert_fatal (r = SOS_OK);
     let (r, k) = sos_ksema_init SemMouse 2 k;
     sos_assert_fatal (r = SOS_OK);
     (r, as, s) \<leftarrow> CreateMap map_vaddr input_vaddr output_vaddr as (s\<lparr>krn := k\<rparr>);
     sos_assert_fatal (r = SOS_OK);
     (case th of (core_routine, thread_exit, creator_func, new_thread, stack) \<Rightarrow> do {
       (t, _, _, k) \<leftarrow> sos_create_kernel_thread core_routine thread_exit (Some ''MouseCreator'') (Some creator_func) 0 new_thread stack (krn s);
       sos_assert_fatal (t \<noteq> None);
       Some (s\<lparr>krn := k\<rparr>) }) }"

end
