(* ===== verification/Mouse_moves.thy ===== *)
theory Mouse_moves
  imports Mouse_sim Ksystem_steps Kformat_props
begin

text \<open>
  The moves of the mice of \<open>os/mouse_sim.c\<close>: the well-formed maps, what a mouse sees around it, and what each end
  of a move does to the map.
\<close>

section \<open>Waking the creator\<close>

text \<open>
  The kernel when its running thread is not inside a blocking call and did not put an entry of its own in a wait queue: a
  wake-up returns and keeps it so.
\<close>

definition up_ready :: "kernel \<Rightarrow> bool" where
  "up_ready k \<longleftrightarrow> (\<exists>kind c ins. kernel_ok kind c k ins \<and> ins c = None \<and>
     (\<forall>q. \<forall>e \<in> set (waiting_list k q). entry_thread (entries k e) \<noteq> Some c))"

lemma up_returns:
  assumes "up_ready k"
  shows "\<exists>k'. sos_ksema_up q k = Some (SOS_OK, k') \<and> up_ready k'"
proof -
  obtain kind c ins where k: "kernel_ok kind c k ins" "ins c = None"
      "\<And>q e. e \<in> set (waiting_list k q) \<Longrightarrow> entry_thread (entries k e) \<noteq> Some c"
    using assms by (auto simp: up_ready_def)
  let ?k = "k\<lparr>ksema_value := (ksema_value k)(q := ksema_value k q + 1)\<rparr>"
  have k1: "kernel_ok kind c ?k ins" using k by simp
  have "\<forall>e \<in> set (take (unat (1::u32)) (waiting_list ?k q)). entry_thread (entries ?k e) \<noteq> Some c"
    using k(3) by (auto dest: in_set_takeD)
  from wakeup_loop_ok [OF k1 _ this, of SOS_OK] obtain k' where w: "wakeup_loop q 1 SOS_OK ?k = Some k'" "kernel_ok kind c k' ins"
      "waiting_list k' = (waiting_list k)(q := drop 1 (waiting_list k q))" "\<And>e. entry_thread (entries k' e) = entry_thread (entries k e)"
    by auto
  have "\<And>q e. e \<in> set (waiting_list k' q) \<Longrightarrow> entry_thread (entries k' e) \<noteq> Some c"
    using k(3) by (auto simp: w(3,4) dest: in_set_dropD split: if_splits)
  with w(2) k(2) have "up_ready k'" unfolding up_ready_def by blast
  moreover have "sos_ksema_up q k = Some (SOS_OK, k')"
    using w(1) by (simp add: sos_ksema_up_def add_sema_def Let_def sos_kwaitq_wakeup_def)
  ultimately show ?thesis by blast
qed

section \<open>The map\<close>

lemmas map_dims = MAP_X_def MAP_Y_def MAP_SIZE_def
lemmas element_types = MOUSE_def CHEESE_def OBSTACLE_def INPUT_def OUTPUT_def
lemmas mouse_flags = MOUSE_FULL_def MOUSE_EMPTY_def CHEESE_FOUND_def MOUSE_EXITED_def IsSet_def SetFlag_def ResetFlag_def

definition point_of :: "nat \<Rightarrow> Point" where
  "point_of i = \<lparr>pX = int i mod MAP_X, pY = int i div MAP_X\<rparr>"

definition cell_of :: "Point \<Rightarrow> nat" where
  "cell_of p = nat (cell_index p)"

lemma point_of_cell [simp]: "in_map p \<Longrightarrow> point_of (cell_of p) = p"
  by (cases p) (auto simp: point_of_def cell_of_def cell_index_def in_map_def map_dims)

lemma cell_of_point [simp]: "i < 912 \<Longrightarrow> cell_of (point_of i) = i"
  by (auto simp: point_of_def cell_of_def cell_index_def map_dims)

lemma point_in_map [simp]: "i < 912 \<Longrightarrow> in_map (point_of i)"
  by (auto simp: point_of_def in_map_def map_dims)

lemma cell_bound: "in_map p \<Longrightarrow> 0 \<le> cell_index p \<and> cell_index p < 912"
  by (auto simp: cell_index_def in_map_def map_dims)

lemma cell_less [simp]: "in_map p \<Longrightarrow> cell_of p < 912"
  using cell_bound [of p] by (auto simp: cell_of_def)

lemma cell_inj: "in_map p \<Longrightarrow> in_map q \<Longrightarrow> cell_of p = cell_of q \<longleftrightarrow> p = q"
  by (metis point_of_cell)

lemma displace_other: "0 \<le> I \<Longrightarrow> I \<le> 7 \<Longrightarrow> displace I p \<noteq> p"
proof -
  assume "0 \<le> I" "I \<le> 7"
  then consider "I = 0" | "I = 1" | "I = 2" | "I = 3" | "I = 4" | "I = 5" | "I = 6" | "I = 7" by linarith
  then show ?thesis by cases (cases p; simp add: displace_def)+
qed

text \<open>What is in a cell: the type of its element, or 0.\<close>

definition kind_in :: "u32 list \<Rightarrow> (u32 \<Rightarrow> Element) \<Rightarrow> nat \<Rightarrow> u32" where
  "kind_in m el i = (if m ! i = 0 then 0 else Type (el (m ! i)))"

definition cells_in :: "u32 list \<Rightarrow> (u32 \<Rightarrow> Element) \<Rightarrow> u32 \<Rightarrow> nat set" where
  "cells_in m el ty = {i. i < 912 \<and> kind_in m el i = ty}"

definition kind_at :: "sim \<Rightarrow> nat \<Rightarrow> u32" where "kind_at s = kind_in (pMap s) (element s)"
abbreviation cells :: "sim \<Rightarrow> u32 \<Rightarrow> nat set" where "cells s \<equiv> cells_in (pMap s) (element s)"

definition mouse_ok :: "Element \<Rightarrow> bool" where
  "mouse_ok e \<longleftrightarrow> (Status e = MOUSE_FULL \<or> Status e = MOUSE_EMPTY) \<and> 0 \<le> Way e \<and> Way e \<le> 7"

definition element_ok :: "nat \<Rightarrow> Element \<Rightarrow> bool" where
  "element_ok i e \<longleftrightarrow> Pt e = point_of i \<and> Type e \<in> {MOUSE, CHEESE, OBSTACLE, INPUT, OUTPUT} \<and> (Type e = MOUSE \<longrightarrow> mouse_ok e)"

text \<open>Every element is in the one cell of its coordinates, and the way in and the way out are there.\<close>

definition store_wf :: "u32 list \<Rightarrow> (u32 \<Rightarrow> Element) \<Rightarrow> bool" where
  "store_wf m el \<longleftrightarrow> length m = 912 \<and> (\<forall>i < 912. m ! i \<noteq> 0 \<longrightarrow> element_ok i (el (m ! i))) \<and>
     (\<forall>i < 912. \<forall>j < 912. m ! i = m ! j \<longrightarrow> m ! i \<noteq> 0 \<longrightarrow> i = j) \<and> cells_in m el INPUT \<subseteq> {456} \<and> cells_in m el OUTPUT \<subseteq> {531}"

definition counts_ok :: "sim \<Rightarrow> bool" where
  "counts_ok s \<longleftrightarrow> MouseCount s = int (card (cells s MOUSE)) \<and> CheeseCount s = int (card (cells s CHEESE)) \<and>
     ObstacleCount s = int (card (cells s OBSTACLE))"

definition map_wf :: "sim \<Rightarrow> bool" where
  "map_wf s \<longleftrightarrow> store_wf (pMap s) (element s) \<and> counts_ok s \<and> kind_at s 456 = INPUT \<and> kind_at s 531 = OUTPUT"

lemma read_cell_in [simp]: "length (pMap s) = 912 \<Longrightarrow> in_map p \<Longrightarrow> read_cell p s = Some (pMap s ! cell_of p)"
  using cell_bound [of p] by (simp add: read_cell_def Let_def cell_of_def)

lemma write_cell_in [simp]:
  "length (pMap s) = 912 \<Longrightarrow> in_map p \<Longrightarrow> write_cell p a s = Some (s\<lparr>pMap := (pMap s)[cell_of p := a]\<rparr>)"
  using cell_bound [of p] by (simp add: write_cell_def Let_def cell_of_def)

lemma print_counts_some: "\<exists>c. print_counts f s = Some (s\<lparr>screen := c\<rparr>) \<or> print_counts f s = None"
  by (cases "print_counts f s") (auto simp: print_counts_def bind_eq_Some_conv)

section \<open>Looking around\<close>

text \<open>The status, the colour and the kernel are all that looking around changes.\<close>

definition looked :: "u32 \<Rightarrow> sim \<Rightarrow> sim \<Rightarrow> bool" where
  "looked a s s' \<longleftrightarrow> s' = s\<lparr>element := element s', krn := krn s'\<rparr> \<and> (\<forall>b. b \<noteq> a \<longrightarrow> element s' b = element s b) \<and>
     Type (element s' a) = Type (element s a) \<and> Pt (element s' a) = Pt (element s a) \<and>
     ThreadID (element s' a) = ThreadID (element s a) \<and> Way (element s' a) = Way (element s a)"

lemma upd_element_sel [simp]:
  "pMap (upd_element a f s) = pMap s" "krn (upd_element a f s) = krn s" "screen (upd_element a f s) = screen s"
  "MouseCount (upd_element a f s) = MouseCount s" "CheeseCount (upd_element a f s) = CheeseCount s"
  "ObstacleCount (upd_element a f s) = ObstacleCount s" "MouseSpeed (upd_element a f s) = MouseSpeed s"
  "rand_seed (upd_element a f s) = rand_seed s" "given_back (upd_element a f s) = given_back s"
  "element (upd_element a f s) = (element s)(a := f (element s a))"
  by (simp_all add: upd_element_def)

lemma looked_refl: "looked a s s"
  by (simp add: looked_def)

lemma looked_status: "looked a s s1 \<Longrightarrow> looked a s (upd_element a (\<lambda>e. e\<lparr>Status := f e\<rparr>) s1)"
  by (cases s1) (auto simp: looked_def upd_element_def)

lemma looked_color: "looked a s s1 \<Longrightarrow> looked a s (upd_element a (\<lambda>e. e\<lparr>Status := f e, Color := col\<rparr>) s1\<lparr>krn := k\<rparr>)"
  by (cases s1) (auto simp: looked_def upd_element_def)

lemma looked_fields:
  assumes "looked a s s'"
  shows "pMap s' = pMap s" "MouseCount s' = MouseCount s" "CheeseCount s' = CheeseCount s" "ObstacleCount s' = ObstacleCount s"
    "MouseSpeed s' = MouseSpeed s" "screen s' = screen s" "rand_seed s' = rand_seed s" "given_back s' = given_back s"
proof -
  obtain e k where "s' = s\<lparr>element := e, krn := k\<rparr>" using assms by (auto simp: looked_def)
  then show "pMap s' = pMap s" "MouseCount s' = MouseCount s" "CheeseCount s' = CheeseCount s" "ObstacleCount s' = ObstacleCount s"
    "MouseSpeed s' = MouseSpeed s" "screen s' = screen s" "rand_seed s' = rand_seed s" "given_back s' = given_back s" by simp_all
qed

lemma looked_type: "looked a s s' \<Longrightarrow> Type (element s' b) = Type (element s b)"
  by (cases "b = a") (auto simp: looked_def)

lemma looked_kind: "looked a s s' \<Longrightarrow> kind_at s' i = kind_at s i"
  by (simp add: kind_at_def kind_in_def looked_type looked_fields)

text \<open>One direction, by what is there and by the status of the mouse.\<close>

definition there :: "sim \<Rightarrow> Point \<Rightarrow> u32" where
  "there s p = kind_at s (cell_of p)"

lemma collision_step:
  assumes "length (pMap s) = 912" "in_map Org" "pMap s ! cell_of Org = a" "a \<noteq> 0" "up_ready (krn s)"
    and ne: "\<forall>i < 912. pMap s ! i \<noteq> 0 \<longrightarrow> kind_at s i \<noteq> 0" and st: "Status (element s a) \<in> {1, 2, 6}"
  shows "case IsCollision q Org p Ch s of None \<Rightarrow> False | Some (c, Ch', s') \<Rightarrow> looked a s s' \<and> up_ready (krn s') \<and>
    (if \<not> in_map p then c \<and> Ch' = Ch \<and> Status (element s' a) = Status (element s a)
     else if there s p = 0 \<or> Status (element s a) = 6 then \<not> c \<and> Ch' = Ch \<and> Status (element s' a) = Status (element s a)
     else if there s p = CHEESE \<and> Status (element s a) = 2 then \<not> c \<and> Ch' = p \<and> Status (element s' a) = 6
     else Ch' = Ch \<and> c = (there s p \<noteq> OUTPUT) \<and> Status (element s' a) = (if there s p = INPUT then 2 else Status (element s a)))"
proof (cases "in_map p \<and> pMap s ! cell_of p \<noteq> 0")
  case False
  then show ?thesis using assms looked_refl [of a s]
    by (cases "in_map p") (simp_all add: IsCollision_def there_def kind_at_def kind_in_def)
next
  case True
  obtain k' where k': "sos_ksema_up q (krn s) = Some (SOS_OK, k')" "up_ready k'" using up_returns [OF assms(5)] by blast
  have ty: "there s p = Type (element s (pMap s ! cell_of p))" using True by (simp add: there_def kind_at_def kind_in_def)
  have n: "there s p \<noteq> 0" using True ne by (simp add: there_def)
  consider "Status (element s a) = 1" | "Status (element s a) = 2" | "Status (element s a) = 6" using st by auto
  then show ?thesis
  proof cases
    case 1
    have "INPUT \<noteq> CHEESE" "INPUT \<noteq> OUTPUT" "CHEESE \<noteq> OUTPUT" by (simp_all add: element_types)
    then show ?thesis using True assms(1-5) 1 k' looked_color [OF looked_refl, where f = "\<lambda>_. 2" and a = a and s = s and col = FG_LTRED and k = k'] looked_refl [of a s]
      using n by (auto simp: IsCollision_def deref_def mouse_flags ty upd_element_def Let_def)
  next
    case 2
    have "INPUT \<noteq> CHEESE" "INPUT \<noteq> OUTPUT" "CHEESE \<noteq> OUTPUT" by (simp_all add: element_types)
    then show ?thesis using True assms(1-5) 2 looked_status [OF looked_refl, where f = "\<lambda>_. 6" and a = a and s = s] looked_refl [of a s]
      using n by (auto simp: IsCollision_def deref_def mouse_flags ty upd_element_def Let_def)
  next
    case 3
    then show ?thesis using True assms(1-5) looked_refl [of a s]
      using n by (auto simp: IsCollision_def deref_def mouse_flags ty Let_def)
  qed
qed

definition passable :: "sim \<Rightarrow> Point \<Rightarrow> bool" where
  "passable s p \<longleftrightarrow> in_map p \<and> (there s p = 0 \<or> there s p = OUTPUT)"

definition cheese_at :: "sim \<Rightarrow> Point \<Rightarrow> bool" where
  "cheese_at s p \<longleftrightarrow> in_map p \<and> there s p = CHEESE"

definition input_at :: "sim \<Rightarrow> Point \<Rightarrow> bool" where
  "input_at s p \<longleftrightarrow> in_map p \<and> there s p = INPUT"

lemma looked_there:
  assumes "looked a s s'"
  shows "passable s' = passable s" "cheese_at s' = cheese_at s" "input_at s' = input_at s"
  using looked_kind [OF assms] by (simp_all add: passable_def cheese_at_def input_at_def there_def fun_eq_iff)

definition mouse_at :: "sim \<Rightarrow> Point \<Rightarrow> u32 \<Rightarrow> bool" where
  "mouse_at s p a \<longleftrightarrow> length (pMap s) = 912 \<and> in_map p \<and> pMap s ! cell_of p = a \<and> a \<noteq> 0 \<and>
     (\<forall>i < 912. pMap s ! i \<noteq> 0 \<longrightarrow> kind_at s i \<noteq> 0)"

lemma looked_mouse_at: "looked a s s' \<Longrightarrow> mouse_at s' p b = mouse_at s p b"
  by (simp add: mouse_at_def looked_fields looked_kind)

lemma looked_trans:
  assumes "looked a s s1" "looked a s1 s2"
  shows "looked a s s2"
proof -
  obtain e k where "s1 = s\<lparr>element := e, krn := k\<rparr>" using assms(1) by (auto simp: looked_def)
  moreover obtain e' k' where "s2 = s1\<lparr>element := e', krn := k'\<rparr>" using assms(2) by (auto simp: looked_def)
  ultimately show ?thesis using assms by (simp add: looked_def)
qed

text \<open>
  What looking in some directions finds, from a status: the positions, with the passable ones among them; and either no cheese that the
  mouse may take, or the first one.
\<close>

definition found :: "sim \<Rightarrow> Point \<Rightarrow> int list \<Rightarrow> u32 \<Rightarrow> int list \<Rightarrow> Point \<Rightarrow> u32 \<Rightarrow> bool" where
  "found s Org Is st Qs Ch st' \<longleftrightarrow>
     st' = (if \<exists>I \<in> set Is. input_at s (displace I Org) then 2 else st) \<and> (\<forall>I \<in> set Qs. passable s (displace I Org)) \<and>
       (st = 2 \<longrightarrow> (\<forall>I \<in> set Is. \<not> cheese_at s (displace I Org)))
   \<or> st' = 6 \<and> (\<exists>Js J Ks. Is = Js @ J # Ks \<and> Ch = displace J Org \<and> cheese_at s Ch \<and> J \<in> set Qs \<and>
       (st = 2 \<longrightarrow> (\<forall>I \<in> set Js. \<not> cheese_at s (displace I Org))) \<and>
       (st = 1 \<longrightarrow> (\<exists>I \<in> set Js. input_at s (displace I Org))))"

lemma looked_found: "looked a s s' \<Longrightarrow> found s' = found s"
  by (simp add: found_def looked_there fun_eq_iff)

lemma found_first: "cheese_at s (displace I Org) \<Longrightarrow> found s Org (I # Is) 2 (I # Qs) (displace I Org) 6"
  unfolding found_def by (intro disjI2) (auto intro: exI [of _ "[]"])

lemma found_cons:
  assumes f: "found s Org Is st1 Qs Ch st'" and st: "st1 \<in> {1, 2}" "st \<in> {1, 2}" "st = 2 \<longrightarrow> st1 = 2"
    and i: "st = 1 \<and> st1 = 2 \<longrightarrow> input_at s (displace I Org)" "input_at s (displace I Org) \<longrightarrow> st1 = 2"
    and c: "c \<or> passable s (displace I Org)" "st = 2 \<longrightarrow> \<not> cheese_at s (displace I Org)"
  shows "found s Org (I # Is) st (if c then Qs else I # Qs) Ch st'"
  using f [unfolded found_def]
proof (elim disjE conjE exE)
  fix Js J Ks
  assume "st' = 6" "Is = Js @ J # Ks" "Ch = displace J Org" "cheese_at s Ch" "J \<in> set Qs"
    "st1 = 2 \<longrightarrow> (\<forall>I \<in> set Js. \<not> cheese_at s (displace I Org))" "st1 = 1 \<longrightarrow> (\<exists>I \<in> set Js. input_at s (displace I Org))"
  moreover have "I # Js @ J # Ks = (I # Js) @ J # Ks" by simp
  ultimately show "?thesis" unfolding found_def using st i c by (intro disjI2) (auto intro!: exI [of _ "I # Js"])
qed (use st i c in \<open>auto simp: found_def\<close>)

lemma eval_loop:
  assumes "mouse_at s Org a" "up_ready (krn s)" "Status (element s a) \<in> {1, 2, 6}"
  shows "case EvaluatePositions_loop q Org Is Ps Ch s of None \<Rightarrow> False | Some (Ps', Ch', s') \<Rightarrow> looked a s s' \<and> up_ready (krn s') \<and>
    (\<exists>Qs. Ps' = Ps @ Qs \<and> length Qs \<le> length Is \<and> set Qs \<subseteq> set Is \<and> (\<forall>I \<in> set Is. passable s (displace I Org) \<longrightarrow> I \<in> set Qs) \<and>
      (if Status (element s a) = 6 then Status (element s' a) = 6 \<and> Ch' = Ch
       else found s Org Is (Status (element s a)) Qs Ch' (Status (element s' a))))"
  using assms
proof (induction Is arbitrary: Ps Ch s)
  case Nil
  then show ?case by (auto simp: looked_refl found_def)
next
  case (Cons I Is)
  have st: "Status (element s a) \<in> {1, 2, 6}" by (rule Cons.prems(3))
  obtain c Ch1 s1 where c: "IsCollision q Org (displace I Org) Ch s = Some (c, Ch1, s1)" "looked a s s1" "up_ready (krn s1)"
    and r: "if \<not> in_map (displace I Org) then c \<and> Ch1 = Ch \<and> Status (element s1 a) = Status (element s a)
     else if there s (displace I Org) = 0 \<or> Status (element s a) = 6 then \<not> c \<and> Ch1 = Ch \<and> Status (element s1 a) = Status (element s a)
     else if there s (displace I Org) = CHEESE \<and> Status (element s a) = 2 then \<not> c \<and> Ch1 = displace I Org \<and> Status (element s1 a) = 6
     else Ch1 = Ch \<and> c = (there s (displace I Org) \<noteq> OUTPUT) \<and>
       Status (element s1 a) = (if there s (displace I Org) = INPUT then 2 else Status (element s a))"
    using collision_step [where s = s and Org = Org and a = a and q = q and p = "displace I Org" and Ch = Ch] Cons.prems by (auto simp: mouse_at_def split: option.splits)
  have "Status (element s1 a) \<in> {1, 2, 6}" using r st by (auto split: if_splits)
  from Cons.IH [OF _ c(3) this, of "if c then Ps else Ps @ [I]" Ch1] obtain Ps' Ch' s' Qs where
    e: "EvaluatePositions_loop q Org Is (if c then Ps else Ps @ [I]) Ch1 s1 = Some (Ps', Ch', s')" "looked a s1 s'" "up_ready (krn s')"
    and q: "Ps' = (if c then Ps else Ps @ [I]) @ Qs" "length Qs \<le> length Is \<and> set Qs \<subseteq> set Is" "\<forall>I \<in> set Is. passable s (displace I Org) \<longrightarrow> I \<in> set Qs"
      "if Status (element s1 a) = 6 then Status (element s' a) = 6 \<and> Ch' = Ch1
       else found s Org Is (Status (element s1 a)) Qs Ch' (Status (element s' a))"
    using Cons.prems(1) looked_mouse_at [OF c(2)] looked_found [OF c(2)] by (auto simp: looked_there [OF c(2)] cong: if_cong split: option.splits)
  let ?Qs = "if c then Qs else I # Qs"
  have "if Status (element s a) = 6 then Status (element s' a) = 6 \<and> Ch' = Ch
       else found s Org (I # Is) (Status (element s a)) ?Qs Ch' (Status (element s' a))"
  proof (cases "Status (element s a) = 6")
    case True
    then show ?thesis using r q(4) by (auto split: if_splits)
  next
    case False
    then have st2: "Status (element s a) \<in> {1, 2}" using st by auto
    show ?thesis
    proof (cases "cheese_at s (displace I Org) \<and> Status (element s a) = 2")
      case True
      then have "\<not> c" "Ch1 = displace I Org" "Status (element s1 a) = 6" using r by (auto simp: cheese_at_def element_types)
      then show ?thesis using True q(4) found_first [of s I Org Is Qs] by simp
    next
      case no: False
      have "Status (element s1 a) \<noteq> 6" using r no st2 by (auto simp: cheese_at_def split: if_splits)
      then have f: "found s Org Is (Status (element s1 a)) Qs Ch' (Status (element s' a))" using q(4) by simp
      have "found s Org (I # Is) (Status (element s a)) ?Qs Ch' (Status (element s' a))"
        by (rule found_cons [OF f]) (use r no st2 in \<open>auto simp: cheese_at_def input_at_def passable_def element_types split: if_splits\<close>)
      then show ?thesis using False by simp
    qed
  qed
  moreover have "passable s (displace I Org) \<longrightarrow> \<not> c"
    using r by (auto simp: passable_def element_types split: if_splits)
  ultimately show ?case using c(1) e q(1-3) looked_trans [OF c(2) e(2)]
    by (auto intro!: exI [of _ ?Qs])
qed

section \<open>Changing a cell\<close>

lemma cells_finite [simp]: "finite (cells_in m el ty)"
  by (simp add: cells_in_def)

lemma store_wfD:
  assumes "store_wf m el"
  shows "length m = 912" "i < 912 \<Longrightarrow> m ! i \<noteq> 0 \<Longrightarrow> element_ok i (el (m ! i))"
    "i < 912 \<Longrightarrow> j < 912 \<Longrightarrow> m ! i = m ! j \<Longrightarrow> m ! i \<noteq> 0 \<Longrightarrow> i = j"
    "i < 912 \<Longrightarrow> m ! i \<noteq> 0 \<Longrightarrow> kind_in m el i \<noteq> 0"
  using assms by (auto simp: store_wf_def element_ok_def kind_in_def element_types)

text \<open>Emptying a cell, filling one, and changing an element in its place.\<close>

lemma kind_clear: "i < length m \<Longrightarrow> kind_in (m[i := 0]) el j = (if j = i then 0 else kind_in m el j)"
  by (simp add: kind_in_def nth_list_update)

lemma kind_fill: "j < length m \<Longrightarrow> a \<noteq> 0 \<Longrightarrow> a \<notin> set m \<Longrightarrow> k < length m \<Longrightarrow>
    kind_in (m[j := a]) (el(a := e)) k = (if k = j then Type e else kind_in m el k)"
  by (auto simp: kind_in_def nth_list_update)

lemma kind_change: "Type e = Type (el a) \<Longrightarrow> kind_in m (el(a := e)) = kind_in m el"
  by (auto simp: kind_in_def fun_eq_iff)

lemma cells_clear: "length m = 912 \<Longrightarrow> i < 912 \<Longrightarrow> ty \<noteq> 0 \<Longrightarrow> cells_in (m[i := 0]) el ty = cells_in m el ty - {i}"
  by (auto simp: cells_in_def kind_clear)

lemma cells_fill: "length m = 912 \<Longrightarrow> j < 912 \<Longrightarrow> a \<noteq> 0 \<Longrightarrow> a \<notin> set m \<Longrightarrow> m ! j = 0 \<Longrightarrow> ty \<noteq> 0 \<Longrightarrow>
    cells_in (m[j := a]) (el(a := e)) ty = (if ty = Type e then insert j (cells_in m el ty) else cells_in m el ty)"
  by (auto simp: cells_in_def kind_fill) (simp add: kind_in_def)

lemma cells_change: "Type e = Type (el a) \<Longrightarrow> cells_in m (el(a := e)) ty = cells_in m el ty"
  by (simp add: cells_in_def kind_change)

lemma store_wfI:
  assumes "length m = 912" "\<And>i. i < 912 \<Longrightarrow> m ! i \<noteq> 0 \<Longrightarrow> element_ok i (el (m ! i))"
    "\<And>i j. i < 912 \<Longrightarrow> j < 912 \<Longrightarrow> m ! i = m ! j \<Longrightarrow> m ! i \<noteq> 0 \<Longrightarrow> i = j"
    "cells_in m el INPUT \<subseteq> {456}" "cells_in m el OUTPUT \<subseteq> {531}"
  shows "store_wf m el"
  using assms unfolding store_wf_def by blast

lemma store_clear:
  assumes "store_wf m el" "i < 912"
  shows "store_wf (m[i := 0]) el"
proof (rule store_wfI)
  note W = store_wfD [OF assms(1)]
  have nth: "m[i := 0] ! k = (if k = i then 0 else m ! k)" if "k < 912" for k using W(1) that by (simp add: nth_list_update)
  show "cells_in (m[i := 0]) el INPUT \<subseteq> {456}" "cells_in (m[i := 0]) el OUTPUT \<subseteq> {531}"
    using assms W(1) by (auto simp: cells_clear store_wf_def element_types)
  show "length (m[i := 0]) = 912" using W(1) by simp
  fix j k :: nat
  assume j: "j < 912" "m[i := 0] ! j \<noteq> 0"
  then show "element_ok j (el (m[i := 0] ! j))" using W(2) [of j] by (simp add: nth split: if_splits)
  assume "k < 912" "m[i := 0] ! j = m[i := 0] ! k"
  then show "j = k" using W(3) [of j k] j by (simp add: nth split: if_splits)
qed

lemma store_fill:
  assumes "store_wf m el" "j < 912" "a \<noteq> 0" "a \<notin> set m" "m ! j = 0" "element_ok j e"
    and "Type e = INPUT \<Longrightarrow> j = 456" "Type e = OUTPUT \<Longrightarrow> j = 531"
  shows "store_wf (m[j := a]) (el(a := e))"
proof (rule store_wfI)
  note W = store_wfD [OF assms(1)]
  have nth: "m[j := a] ! k = (if k = j then a else m ! k)" "m ! k \<noteq> a" if "k < 912" for k
    using W(1) assms(4) that nth_mem [of k m] by (auto simp: nth_list_update)
  show "length (m[j := a]) = 912" using W(1) by simp
  note c = cells_fill [OF W(1) assms(2-5)]
  show "cells_in (m[j := a]) (el(a := e)) INPUT \<subseteq> {456}" "cells_in (m[j := a]) (el(a := e)) OUTPUT \<subseteq> {531}"
    using assms(1,7,8) by (auto simp: store_wf_def c element_types)
  fix i k :: nat
  assume i: "i < 912" "m[j := a] ! i \<noteq> 0"
  then show "element_ok i ((el(a := e)) (m[j := a] ! i))" using W(2) [of i] nth [of i] assms(6) by (simp split: if_splits)
  assume "k < 912" "m[j := a] ! i = m[j := a] ! k"
  then show "i = k" using W(3) [of i k] nth [of i] nth [of k] i by (auto split: if_splits)
qed

lemma store_change:
  assumes "store_wf m el" "a \<in> set m" "Type e = Type (el a)" "Pt e = Pt (el a)" "Type e = MOUSE \<Longrightarrow> mouse_ok e"
  shows "store_wf m (el(a := e))"
  using assms(1,3-5) by (auto simp: store_wf_def element_ok_def cells_change)

lemma cells_mem: "i \<in> cells_in m el ty \<longleftrightarrow> i < 912 \<and> kind_in m el i = ty"
  by (simp add: cells_in_def)

section \<open>A move\<close>

lemma counts_text: "f \<in> {counts_format, counts_format_move} \<Longrightarrow> \<exists>t. printf_text f [Num x, Num y, Num z] = Some t"
  by (auto simp: counts_format_def counts_format_move_def conversion.simps Let_def)

lemma print_counts_ok:
  assumes "f \<in> {counts_format, counts_format_move}"
  obtains c where "print_counts f s = Some (s\<lparr>screen := c\<rparr>)"
  using counts_text [OF assms, of "word_of_int (MouseCount s)" "word_of_int (CheeseCount s)" "word_of_int (ObstacleCount s)"]
  by (auto simp: print_counts_def os_printf_def printf_loop_text)

lemma displace_cases:
  assumes "0 \<le> I" "I \<le> 7"
  shows "\<bar>pX (displace I p) - pX p\<bar> \<le> 1 \<and> \<bar>pY (displace I p) - pY p\<bar> \<le> 1 \<and> displace I p \<noteq> p"
proof -
  consider "I = 0" | "I = 1" | "I = 2" | "I = 3" | "I = 4" | "I = 5" | "I = 6" | "I = 7" using assms by linarith
  then show ?thesis by cases (cases p; simp add: displace_def)+
qed

lemma choose_position:
  assumes "a \<noteq> 0" "Ps \<noteq> []" "length Ps \<le> 8" "\<forall>I \<in> set Ps. 0 \<le> I \<and> I \<le> 7" "0 \<le> Way (element s a)" "Way (element s a) \<le> 7"
  obtains I w r where "I \<in> set Ps" "0 \<le> w" "w \<le> 7"
    "ChoosePosition a Ps s = Some (displace I (Pt (element s a)), upd_element a (\<lambda>m. m\<lparr>Way := w\<rparr>) (s\<lparr>rand_seed := r\<rparr>))"
proof (cases "find (\<lambda>I. I = Way (element s a)) Ps")
  case (Some I)
  then have "I \<in> set Ps" "I = Way (element s a)" by (auto simp: find_Some_iff in_set_conv_nth)
  then show ?thesis
    using Some assms that [of I I "rand_seed s"] by (simp add: ChoosePosition_def deref_def upd_element_def)
next
  case None
  let ?J = "unat (fst (draw_random s) mod word_of_nat (length Ps))"
  define I where "I = (if (Ps ! ?J + 4) mod 8 = Way (element s a) then Ps ! ((?J + 1) mod length Ps) else Ps ! ?J)"
  have n: "unat (word_of_nat (length Ps) :: u32) = length Ps" using assms(3) by (simp add: unat_of_nat take_bit_nat_def)
  then have "?J < length Ps" using assms(2) by (simp add: unat_mod)
  then have "I \<in> set Ps" using assms(2) by (simp add: I_def)
  then show ?thesis
    using None assms that [of I I "snd (random (rand_seed s))"]
    by (auto simp: ChoosePosition_def deref_def draw_random_def I_def Let_def upd_element_def split: prod.splits)
qed

definition mouse_on :: "sim \<Rightarrow> Point \<Rightarrow> u32 \<Rightarrow> bool" where
  "mouse_on s p a \<longleftrightarrow> in_map p \<and> pMap s ! cell_of p = a \<and> kind_at s (cell_of p) = MOUSE"

lemma mouse_onD:
  assumes "map_wf s" "mouse_on s p a"
  shows "mouse_at s p a" "a \<noteq> 0" "Pt (element s a) = p" "Type (element s a) = MOUSE" "mouse_ok (element s a)"
    "Status (element s a) = 1 \<or> Status (element s a) = 2"
proof -
  have W: "store_wf (pMap s) (element s)" using assms(1) by (simp add: map_wf_def)
  note D = store_wfD [OF W]
  have p: "in_map p" "pMap s ! cell_of p = a" "kind_in (pMap s) (element s) (cell_of p) = MOUSE"
    using assms(2) by (simp_all add: mouse_on_def kind_at_def)
  then show a: "a \<noteq> 0" by (auto simp: kind_in_def element_types)
  then show ty: "Type (element s a) = MOUSE" using p by (simp add: kind_in_def)
  have e: "element_ok (cell_of p) (element s a)" using D(2) [of "cell_of p"] p a by simp
  then show "Pt (element s a) = p" "mouse_ok (element s a)" using p ty by (simp_all add: element_ok_def)
  then show "Status (element s a) = 1 \<or> Status (element s a) = 2" by (simp add: mouse_ok_def mouse_flags)
  show "mouse_at s p a" using p a D(1,4) by (simp add: mouse_at_def kind_at_def)
qed

text \<open>The four ends of a move.\<close>

definition stays :: "sim \<Rightarrow> u32 \<Rightarrow> sim \<Rightarrow> bool" where
  "stays s a s' \<longleftrightarrow> pMap s' = pMap s \<and> given_back s' = given_back s \<and> MouseCount s' = MouseCount s \<and> CheeseCount s' = CheeseCount s \<and>
     Type (element s' a) = MOUSE \<and> Pt (element s' a) = Pt (element s a) \<and> mouse_ok (element s' a)"

definition goes :: "sim \<Rightarrow> u32 \<Rightarrow> Point \<Rightarrow> Point \<Rightarrow> sim \<Rightarrow> bool" where
  "goes s a Org p s' \<longleftrightarrow> pMap s' = (pMap s)[cell_of Org := 0, cell_of p := a] \<and> MouseCount s' = MouseCount s \<and>
     Type (element s' a) = MOUSE \<and> Pt (element s' a) = p \<and> mouse_ok (element s' a)"

definition leaves :: "sim \<Rightarrow> u32 \<Rightarrow> Point \<Rightarrow> sim \<Rightarrow> bool" where
  "leaves s a Org s' \<longleftrightarrow> pMap s' = (pMap s)[cell_of Org := 0] \<and> MouseCount s' = MouseCount s - 1 \<and>
     CheeseCount s' = CheeseCount s \<and> given_back s' = given_back s \<and> IsSet (Status (element s' a)) MOUSE_EXITED"

definition others_kept :: "sim \<Rightarrow> u32 \<Rightarrow> sim \<Rightarrow> bool" where
  "others_kept s a s' \<longleftrightarrow> (\<forall>b. b \<noteq> a \<longrightarrow> element s' b = element s b) \<and> ObstacleCount s' = ObstacleCount s \<and> MouseSpeed s' = MouseSpeed s"

lemma IsSet_flags [simp]: "\<not> IsSet 1 CHEESE_FOUND" "\<not> IsSet 2 CHEESE_FOUND" "IsSet 6 CHEESE_FOUND" "ResetFlag 6 CHEESE_FOUND = 2"
  "ResetFlag (SetFlag 2 MOUSE_FULL) MOUSE_EMPTY = 1" "\<not> IsSet 1 MOUSE_EXITED" "\<not> IsSet 2 MOUSE_EXITED"
  by (simp_all add: mouse_flags)

lemma IsSet_exited [simp]: "IsSet (SetFlag w MOUSE_EXITED) MOUSE_EXITED"
proof -
  have "bit ((w OR 8) AND 8) 3" by (simp add: bit_simps)
  then show ?thesis by (auto simp: mouse_flags)
qed

definition next_cell :: "sim \<Rightarrow> Point \<Rightarrow> u32 \<Rightarrow> Point \<Rightarrow> bool" where
  "next_cell s Org a p \<longleftrightarrow> length (pMap s) = 912 \<and> in_map Org \<and> pMap s ! cell_of Org = a \<and> a \<noteq> 0 \<and> in_map p \<and> p \<noteq> Org"

lemma affect_free: "next_cell s1 Org a p \<Longrightarrow> pMap s1 ! cell_of p = 0 \<Longrightarrow> AffectMovement Org p s1 = Some (True, s1)"
  by (simp add: next_cell_def AffectMovement_def)

lemma affect_cheese:
  "next_cell s1 Org a p \<Longrightarrow> b = pMap s1 ! cell_of p \<Longrightarrow> b \<noteq> 0 \<Longrightarrow> Type (element s1 b) = CHEESE \<Longrightarrow> Status (element s1 a) = 2 \<Longrightarrow>
   AffectMovement Org p s1 = Some (True, s1\<lparr>pMap := (pMap s1)[cell_of p := 0], given_back := given_back s1 @ [b], CheeseCount := CheeseCount s1 - 1,
     element := (element s1)(a := (element s1 a)\<lparr>Status := 1, Color := FG_MAGENTA\<rparr>)\<rparr>)"
  by (simp add: next_cell_def AffectMovement_def deref_def upd_element_def)

lemma affect_output:
  assumes "next_cell s1 Org a p" "Type (element s1 (pMap s1 ! cell_of p)) = OUTPUT" "pMap s1 ! cell_of p \<noteq> 0"
  obtains c where "AffectMovement Org p s1 = Some (False, s1\<lparr>pMap := (pMap s1)[cell_of Org := 0], MouseCount := MouseCount s1 - 1, screen := c,
     element := (element s1)(a := (element s1 a)\<lparr>Status := SetFlag (Status (element s1 a)) MOUSE_EXITED\<rparr>)\<rparr>)"
proof -
  let ?t = "DrawPixel (pX Org) (pY Org) FG_BLACK (s1\<lparr>pMap := (pMap s1)[cell_of Org := 0], MouseCount := MouseCount s1 - 1\<rparr>)"
  obtain c where "print_counts counts_format ?t = Some (?t\<lparr>screen := c\<rparr>)" by (rule print_counts_ok [of counts_format ?t]) simp_all
  then have "AffectMovement Org p s1 = Some (False, s1\<lparr>pMap := (pMap s1)[cell_of Org := 0], MouseCount := MouseCount s1 - 1, screen := c,
     element := (element s1)(a := (element s1 a)\<lparr>Status := SetFlag (Status (element s1 a)) MOUSE_EXITED\<rparr>)\<rparr>)"
    using assms by (simp add: next_cell_def AffectMovement_def deref_def upd_element_def DrawPixel_def element_types)
  then show ?thesis by (rule that)
qed

text \<open>The end of a move to a cell, once the movement is allowed.\<close>

lemma finish_move:
  assumes "length (pMap t) = 912" "in_map Org" "in_map p"
  obtains c where "(do {
         s \<leftarrow> write_cell Org 0 t;
         s \<leftarrow> write_cell p a s;
         let s = upd_element a (\<lambda>m. m\<lparr>Pt := p\<rparr>) s;
         let s = DrawPixel (pX Org) (pY Org) FG_BLACK s;
         s \<leftarrow> print_counts counts_format_move (DrawPixel (pX p) (pY p) (Color (element s a)) s);
         Some (p, s) }) =
     Some (p, t\<lparr>pMap := (pMap t)[cell_of Org := 0, cell_of p := a], screen := c, element := (element t)(a := (element t a)\<lparr>Pt := p\<rparr>)\<rparr>)"
proof -
  let ?s = "upd_element a (\<lambda>m. m\<lparr>Pt := p\<rparr>) (t\<lparr>pMap := (pMap t)[cell_of Org := 0, cell_of p := a]\<rparr>)"
  let ?t = "DrawPixel (pX p) (pY p) (Color (element ?s a)) (DrawPixel (pX Org) (pY Org) FG_BLACK ?s)"
  obtain c where c: "print_counts counts_format_move ?t = Some (?t\<lparr>screen := c\<rparr>)" by (rule print_counts_ok [of counts_format_move ?t]) simp_all
  show ?thesis
    by (rule that [of c]) (use assms c in \<open>simp add: DrawPixel_def upd_element_def Let_def\<close>)
qed

definition adjacent :: "Point \<Rightarrow> Point \<Rightarrow> bool" where
  "adjacent p q \<longleftrightarrow> p \<noteq> q \<and> \<bar>pX p - pX q\<bar> \<le> 1 \<and> \<bar>pY p - pY q\<bar> \<le> 1"

definition nearby :: "Point \<Rightarrow> Point list" where
  "nearby p = map (\<lambda>I. displace I p) [0..7]"

text \<open>The ends of a move with what brings them about.\<close>

definition move_result :: "sim \<Rightarrow> u32 \<Rightarrow> Point \<Rightarrow> Point \<Rightarrow> sim \<Rightarrow> bool" where
  "move_result s a Org p s' \<longleftrightarrow>
     p = Org \<and> stays s a s' \<and> (\<forall>q \<in> set (nearby Org). \<not> passable s q)
   \<or> p \<in> set (nearby Org) \<and> in_map p \<and> there s p = 0 \<and> goes s a Org p s' \<and> given_back s' = given_back s \<and> CheeseCount s' = CheeseCount s
   \<or> p \<in> set (nearby Org) \<and> cheese_at s p \<and> goes s a Org p s' \<and> given_back s' = given_back s @ [pMap s ! cell_of p] \<and>
       CheeseCount s' = CheeseCount s - 1 \<and> Status (element s' a) = MOUSE_FULL
   \<or> p = Org \<and> leaves s a Org s' \<and> (\<exists>q \<in> set (nearby Org). in_map q \<and> there s q = OUTPUT)"

text \<open>When a mouse eats: an empty one if and only if there is cheese nearby, and then the first piece; a full one only after it passed the entry.\<close>

definition hunger :: "sim \<Rightarrow> u32 \<Rightarrow> Point \<Rightarrow> Point \<Rightarrow> bool" where
  "hunger s a Org p \<longleftrightarrow>
     (Status (element s a) = MOUSE_EMPTY \<longrightarrow> (case find (cheese_at s) (nearby Org) of Some q \<Rightarrow> p = q | None \<Rightarrow> True)) \<and>
     (Status (element s a) = MOUSE_FULL \<longrightarrow> cheese_at s p \<longrightarrow> (\<exists>q \<in> set (nearby Org). input_at s q))"

lemma mouse_move:
  assumes wf: "map_wf s" and m: "mouse_on s Org a" and k: "up_ready (krn s)"
  shows "case MouseMove q unset Org s of None \<Rightarrow> False | Some (p, s') \<Rightarrow> up_ready (krn s') \<and> others_kept s a s' \<and>
     move_result s a Org p s' \<and> hunger s a Org p"
proof -
  note M = mouse_onD [OF wf m]
  have o: "in_map Org" "pMap s ! cell_of Org = a" "length (pMap s) = 912" using M(1) by (simp_all add: mouse_at_def)
  from eval_loop [OF M(1) k, where q = q and Is = "[0..7]" and Ps = "[]" and Ch = unset] obtain Qs Ch s1 where
    e: "EvaluatePositions q Org unset s = Some (Qs, Ch, s1)" and l: "looked a s s1" and k1: "up_ready (krn s1)" and
    Q: "length Qs \<le> 8" "set Qs \<subseteq> {0..7}" "\<forall>I \<in> {0..7}. passable s (displace I Org) \<longrightarrow> I \<in> set Qs" and
    f: "found s Org [0..7] (Status (element s a)) Qs Ch (Status (element s1 a))"
    using M(6) by (auto simp: EvaluatePositions_def split: option.splits)
  note F = looked_fields [OF l]
  have e1: "Type (element s1 a) = MOUSE" "Pt (element s1 a) = Org" "Way (element s1 a) = Way (element s a)"
    "\<And>b. b \<noteq> a \<Longrightarrow> element s1 b = element s b" using l M(3,4) by (simp_all add: looked_def)
  have way: "0 \<le> Way (element s a)" "Way (element s a) \<le> 7" using M(5) by (simp_all add: mouse_ok_def)
  have nb: "displace I Org \<in> set (nearby Org)" "displace I Org \<noteq> Org" if "I \<in> {0..7}" for I
    using that displace_cases [of I Org] by (auto simp: nearby_def)
  have zero: "pMap s ! cell_of p = 0" if "in_map p" "there s p = 0" for p
    using that M(1) cell_less [of p] unfolding mouse_at_def there_def by blast
  have e2: "read_cell Org s = Some a" using o by simp
  from f [unfolded found_def] show ?thesis
  proof (elim disjE conjE exE)
    assume st1: "Status (element s1 a) = (if \<exists>I \<in> set [0..7]. input_at s (displace I Org) then 2 else Status (element s a))"
      and pass: "\<forall>I \<in> set Qs. passable s (displace I Org)"
      and noch: "Status (element s a) = 2 \<longrightarrow> (\<forall>I \<in> set [0..7]. \<not> cheese_at s (displace I Org))"
    have s12: "Status (element s1 a) = 1 \<or> Status (element s1 a) = 2" using st1 M(6) by auto
    have hu: "hunger s a Org p" if "\<not> cheese_at s p" for p
    proof -
      have "find (cheese_at s) (nearby Org) = None" if "Status (element s a) = 2"
        using noch that by (auto simp: find_None_iff nearby_def)
      then show ?thesis using that by (simp add: hunger_def mouse_flags)
    qed
    show ?thesis
    proof (cases "Qs = []")
      case True
      have "\<forall>q \<in> set (nearby Org). \<not> passable s q" using Q(3) True by (auto simp: nearby_def)
      moreover have "stays s a s1" using e1 F s12 way M(3) by (simp add: stays_def mouse_ok_def mouse_flags)
      moreover have "\<not> cheese_at s Org" using m by (simp add: cheese_at_def mouse_on_def there_def element_types)
      ultimately show ?thesis
        using e e2 k1 F True e1(4) hu [of Org] by (simp add: MouseMove_def others_kept_def move_result_def)
    next
      case False
      obtain I w r where I: "I \<in> set Qs" "0 \<le> w" "w \<le> 7" and
        c: "ChoosePosition a Qs s1 = Some (displace I Org, upd_element a (\<lambda>m. m\<lparr>Way := w\<rparr>) (s1\<lparr>rand_seed := r\<rparr>))"
      proof (rule choose_position [OF M(2) False Q(1), of s1])
        show "\<forall>I \<in> set Qs. 0 \<le> I \<and> I \<le> 7" using Q(2) by auto
      qed (use way e1 that in auto)
      let ?p = "displace I Org" and ?s2 = "upd_element a (\<lambda>m. m\<lparr>Way := w\<rparr>) (s1\<lparr>rand_seed := r\<rparr>)"
      have p: "in_map ?p" "there s ?p = 0 \<or> there s ?p = OUTPUT" using pass I(1) by (auto simp: passable_def)
      have I7: "I \<in> {0..7}" using I(1) Q(2) by blast
      have nx: "next_cell ?s2 Org a ?p" using o M(2) p nb [OF I7] by (simp add: next_cell_def F)
      have mm: "MouseMove q unset Org s = do {
          (moved, s) \<leftarrow> AffectMovement Org ?p ?s2;
          if \<not> moved then Some (Org, s)
          else do {
            s \<leftarrow> write_cell Org 0 s;
            s \<leftarrow> write_cell ?p a s;
            let s = upd_element a (\<lambda>m. m\<lparr>Pt := ?p\<rparr>) s;
            let s = DrawPixel (pX Org) (pY Org) FG_BLACK s;
            s \<leftarrow> print_counts counts_format_move (DrawPixel (pX ?p) (pY ?p) (Color (element s a)) s);
            Some (?p, s) } }"
        using e e2 False c s12 M(2) by (auto simp: MouseMove_def deref_def)
      have nc: "\<not> cheese_at s ?p" "\<not> cheese_at s Org" using p m by (auto simp: cheese_at_def mouse_on_def there_def element_types)
      from p(2) show ?thesis
      proof
        assume z: "there s ?p = 0"
        then have "AffectMovement Org ?p ?s2 = Some (True, ?s2)" using nx zero [OF p(1)] by (intro affect_free) (simp_all add: F)
        moreover obtain c where "(do {
            s \<leftarrow> write_cell Org 0 ?s2;
            s \<leftarrow> write_cell ?p a s;
            let s = upd_element a (\<lambda>m. m\<lparr>Pt := ?p\<rparr>) s;
            let s = DrawPixel (pX Org) (pY Org) FG_BLACK s;
            s \<leftarrow> print_counts counts_format_move (DrawPixel (pX ?p) (pY ?p) (Color (element s a)) s);
            Some (?p, s) }) =
          Some (?p, ?s2\<lparr>pMap := (pMap ?s2)[cell_of Org := 0, cell_of ?p := a], screen := c, element := (element ?s2)(a := (element ?s2 a)\<lparr>Pt := ?p\<rparr>)\<rparr>)"
          by (rule finish_move [of ?s2 Org ?p a]) (use o p in \<open>simp_all add: F\<close>)
        ultimately show ?thesis
          using mm k1 F e1 I s12 z p nb [OF I7] hu [OF nc(1)]
          by (simp add: others_kept_def move_result_def goes_def mouse_ok_def mouse_flags)
      next
        assume z: "there s ?p = OUTPUT"
        then have "Type (element ?s2 (pMap ?s2 ! cell_of ?p)) = OUTPUT" "pMap ?s2 ! cell_of ?p \<noteq> 0"
          using e1 M(4) by (auto simp: there_def kind_at_def kind_in_def F element_types split: if_splits)
        from affect_output [OF nx this] obtain c where "AffectMovement Org ?p ?s2 = Some (False, ?s2\<lparr>pMap := (pMap ?s2)[cell_of Org := 0],
            MouseCount := MouseCount ?s2 - 1, screen := c,
            element := (element ?s2)(a := (element ?s2 a)\<lparr>Status := SetFlag (Status (element ?s2 a)) MOUSE_EXITED\<rparr>)\<rparr>)" by blast
        then show ?thesis
          using mm k1 F e1 z p nb [OF I7] hu [OF nc(2)] by (auto simp: others_kept_def move_result_def leaves_def)
      qed
    qed
  next
    fix Js J Ks
    assume st1: "Status (element s1 a) = 6" and J: "[0..7] = Js @ J # Ks" "Ch = displace J Org" "cheese_at s Ch" "J \<in> set Qs"
      "Status (element s a) = 2 \<longrightarrow> (\<forall>I \<in> set Js. \<not> cheese_at s (displace I Org))"
      "Status (element s a) = 1 \<longrightarrow> (\<exists>I \<in> set Js. input_at s (displace I Org))"
    have J7: "J \<in> {0..7}" using J(4) Q(2) by blast
    let ?s2 = "upd_element a (\<lambda>m. m\<lparr>Status := ResetFlag (Status m) CHEESE_FOUND\<rparr>) s1" and ?b = "pMap s ! cell_of Ch"
    have p: "in_map Ch" "there s Ch = CHEESE" using J(3) by (simp_all add: cheese_at_def)
    have b: "?b \<noteq> 0" "Type (element s ?b) = CHEESE" "?b \<noteq> a"
      using p(2) M(4) by (auto simp: there_def kind_at_def kind_in_def element_types split: if_splits)
    have ch: "Ch \<in> set (nearby Org)" "Ch \<noteq> Org" using nb [OF J7] J(2) by simp_all
    have nx: "next_cell ?s2 Org a Ch" using o M(2) p ch by (simp add: next_cell_def F)
    have af: "AffectMovement Org Ch ?s2 = Some (True, ?s2\<lparr>pMap := (pMap ?s2)[cell_of Ch := 0], given_back := given_back ?s2 @ [?b],
        CheeseCount := CheeseCount ?s2 - 1, element := (element ?s2)(a := (element ?s2 a)\<lparr>Status := 1, Color := FG_MAGENTA\<rparr>)\<rparr>)"
      (is "_ = Some (True, ?t)")
      by (rule affect_cheese [OF nx]) (use b e1(4) st1 in \<open>simp_all add: F\<close>)
    obtain c where fm: "(do {
        s \<leftarrow> write_cell Org 0 ?t;
        s \<leftarrow> write_cell Ch a s;
        let s = upd_element a (\<lambda>m. m\<lparr>Pt := Ch\<rparr>) s;
        let s = DrawPixel (pX Org) (pY Org) FG_BLACK s;
        s \<leftarrow> print_counts counts_format_move (DrawPixel (pX Ch) (pY Ch) (Color (element s a)) s);
        Some (Ch, s) }) =
      Some (Ch, ?t\<lparr>pMap := (pMap ?t)[cell_of Org := 0, cell_of Ch := a], screen := c, element := (element ?t)(a := (element ?t a)\<lparr>Pt := Ch\<rparr>)\<rparr>)"
      by (rule finish_move [of ?t Org Ch a]) (use o p in \<open>simp_all add: F\<close>)
    have "Qs \<noteq> []" using J(4) by auto
    then have mm: "MouseMove q unset Org s =
      Some (Ch, ?t\<lparr>pMap := (pMap ?t)[cell_of Org := 0, cell_of Ch := a], screen := c, element := (element ?t)(a := (element ?t a)\<lparr>Pt := Ch\<rparr>)\<rparr>)"
      using e e2 M(2) st1 af fm by (simp add: MouseMove_def deref_def)
    have ne: "cell_of Ch \<noteq> cell_of Org" using nx by (auto simp: next_cell_def cell_inj)
    have up: "(pMap s)[cell_of Ch := 0, cell_of Org := 0, cell_of Ch := a] = (pMap s)[cell_of Org := 0, cell_of Ch := a]"
      using ne by (metis list_update_overwrite list_update_swap)
    have "hunger s a Org Ch"
    proof -
      have n: "nearby Org = map (\<lambda>I. displace I Org) Js @ Ch # map (\<lambda>I. displace I Org) Ks" by (simp add: nearby_def J(1,2) del: upto.simps)
      have "find (cheese_at s) (nearby Org) = Some Ch" if "Status (element s a) = 2"
        using J(5) that J(3) unfolding n by (induction Js) auto
      moreover have "\<exists>q \<in> set (nearby Org). input_at s q" if "Status (element s a) = 1" using J(6) that by (auto simp: n)
      ultimately show ?thesis using M(6) by (auto simp: hunger_def mouse_flags)
    qed
    then show ?thesis
      using mm k1 F e1 way J(3) ch
      by (simp add: others_kept_def move_result_def goes_def mouse_ok_def mouse_flags up)
  qed
qed

section \<open>The map stays well formed\<close>

lemma absent_after_clear:
  assumes "store_wf m el" "i < 912" "m ! i = a" "a \<noteq> 0"
  shows "a \<notin> set (m[i := 0])"
proof
  assume "a \<in> set (m[i := 0])"
  then obtain j where "j < 912" "m[i := 0] ! j = a" using store_wfD(1) [OF assms(1)] by (auto simp: in_set_conv_nth)
  moreover from this have "j \<noteq> i" using assms store_wfD(1) [OF assms(1)] by auto
  ultimately show False using store_wfD(3) [OF assms(1), of i j] assms store_wfD(1) [OF assms(1)] by (auto simp: nth_list_update)
qed

lemma others_eq: "others_kept s a s' \<Longrightarrow> element s' = (element s)(a := element s' a)"
  by (auto simp: others_kept_def fun_eq_iff)

lemma map_wf_stays:
  assumes "map_wf s" "mouse_on s Org a" "others_kept s a s'" "stays s a s'"
  shows "map_wf s'"
proof -
  note M = mouse_onD [OF assms(1,2)]
  have e: "element s' = (element s)(a := element s' a)" by (rule others_eq [OF assms(3)])
  have t: "Type (element s' a) = Type (element s a)" using assms(4) M(4) by (simp add: stays_def)
  have a: "a \<in> set (pMap s)" using M(1) cell_less by (auto simp: mouse_at_def)
  have "store_wf (pMap s) ((element s)(a := element s' a))"
    by (rule store_change) (use assms(1,4) a t in \<open>auto simp: map_wf_def stays_def\<close>)
  moreover have "cells s' ty = cells s ty" "kind_at s' = kind_at s" for ty
    using cells_change [where e = "element s' a" and el = "element s" and a = a and m = "pMap s" and ty = ty]
      kind_change [where e = "element s' a" and el = "element s" and a = a and m = "pMap s"] t e assms(4) by (simp_all add: stays_def kind_at_def)
  ultimately show ?thesis using assms e by (auto simp: map_wf_def counts_ok_def stays_def others_kept_def)
qed

lemma kind_cells: "i < 912 \<Longrightarrow> kind_at s i = ty \<longleftrightarrow> i \<in> cells s ty"
  by (simp add: cells_in_def kind_at_def)

lemma map_wfI:
  assumes "store_wf (pMap s) (element s)" "counts_ok s" "456 \<in> cells s INPUT" "531 \<in> cells s OUTPUT"
  shows "map_wf s"
  using assms by (simp add: map_wf_def kind_cells)

lemma map_wfD:
  assumes "map_wf s"
  shows "store_wf (pMap s) (element s)" "counts_ok s" "456 \<in> cells s INPUT" "531 \<in> cells s OUTPUT"
  using assms by (simp_all add: map_wf_def kind_cells [symmetric])

lemma map_wf_goes:
  assumes wf: "map_wf s" and m: "mouse_on s Org a" and o: "others_kept s a s'" and g: "goes s a Org p s'"
    and p: "in_map p" "there s p \<in> {0, CHEESE}"
    and c: "CheeseCount s' = CheeseCount s - (if there s p = CHEESE then 1 else 0)"
  shows "map_wf s'"
proof -
  note M = mouse_onD [OF wf m]
  let ?i = "cell_of Org" and ?j = "cell_of p" and ?m = "pMap s" and ?el = "element s"
  have W: "store_wf ?m ?el" using wf by (simp add: map_wf_def)
  have ij: "?i < 912" "?j < 912" "?m ! ?i = a" "a \<noteq> 0" "kind_at s ?i = MOUSE" "kind_at s ?j = there s p" "length ?m = 912"
    using m p(1) M(2) store_wfD(1) [OF W] by (simp_all add: mouse_on_def there_def)
  then have ne: "?i \<noteq> ?j" using p(2) by (auto simp: element_types)
  let ?m1 = "?m[?j := 0]" let ?m2 = "?m1[?i := 0]"
  have W2: "store_wf ?m1 ?el" "store_wf ?m2 ?el" using store_clear [OF W ij(2)] store_clear [OF _ ij(1)] by blast+
  have ab: "a \<notin> set ?m2" using absent_after_clear [OF W2(1) ij(1) _ ij(4)] ij ne by simp
  obtain x where e: "element s' = ?el(a := x)" using others_eq [OF o] by blast
  have mp: "pMap s' = ?m2[?j := a]" using g ne unfolding goes_def by (metis list_update_overwrite list_update_swap)
  have z: "?m2 ! ?j = 0" using ij ne by simp
  have E: "element_ok ?j x" "Type x = MOUSE" using g p(1) e by (simp_all add: goes_def element_ok_def)
  have "store_wf (?m2[?j := a]) (?el(a := x))"
    by (rule store_fill [OF W2(2) ij(2,4) ab z E(1)]) (use E(2) in \<open>simp_all add: element_types\<close>)
  then have "store_wf (pMap s') (element s')" using e mp by simp
  moreover have cl: "cells s' ty = (if ty = MOUSE then insert ?j (cells s ty - {?j} - {?i}) else cells s ty - {?j} - {?i})" if "ty \<noteq> 0" for ty
    using cells_fill [of ?m2 ?j a ty ?el x] cells_clear [of ?m ?j ty ?el] cells_clear [of ?m1 ?i ty ?el] that ij ab z E(2)
    by (cases "ty = MOUSE") (simp_all add: mp e)
  have mem: "?i \<in> cells s ty \<longleftrightarrow> MOUSE = ty" "?j \<in> cells s ty \<longleftrightarrow> there s p = ty" for ty
    using kind_cells [OF ij(1), of s ty] kind_cells [OF ij(2), of s ty] unfolding ij(5,6) by blast+
  have ty: "MOUSE \<noteq> 0" "CHEESE \<noteq> 0" "OBSTACLE \<noteq> 0" "INPUT \<noteq> 0" "OUTPUT \<noteq> 0" "CHEESE \<noteq> MOUSE" "OBSTACLE \<noteq> MOUSE" "INPUT \<noteq> MOUSE" "OUTPUT \<noteq> MOUSE"
    "OBSTACLE \<noteq> CHEESE" "INPUT \<noteq> CHEESE" "OUTPUT \<noteq> CHEESE" by (simp_all add: element_types)
  have j: "?j \<notin> cells s MOUSE" using p(2) ty(1,6) unfolding mem(2) by (metis empty_iff insert_iff)
  have i: "?i \<in> cells s MOUSE" unfolding mem(1) by (rule refl)
  have "card (cells s' MOUSE) = card (cells s MOUSE)"
    using j ne card_Suc_Diff1 [OF cells_finite i] by (simp add: cl ty(1))
  moreover have no: "cells s ty - {?j} - {?i} = cells s ty" if "ty \<noteq> MOUSE" "ty \<noteq> CHEESE" "ty \<noteq> 0" for ty
    using that p(2) mem [of ty] by auto
  then have "cells s' OBSTACLE = cells s OBSTACLE" "cells s' INPUT = cells s INPUT" "cells s' OUTPUT = cells s OUTPUT"
    using ty by (simp_all only: cl if_False no not_False_eq_True)
  moreover have iC: "?i \<notin> cells s CHEESE" using mem(1) [of CHEESE] ty(6) by metis
  then have "int (card (cells s' CHEESE)) = int (card (cells s CHEESE)) - (if there s p = CHEESE then 1 else 0)"
  proof (cases "there s p = CHEESE")
    case True
    then have j: "?j \<in> cells s CHEESE" unfolding mem(2) by simp
    then have "0 < card (cells s CHEESE)" by (auto simp: card_gt_0_iff)
    then show ?thesis using True j iC by (simp add: cl ty)
  next
    case False
    then have "?j \<notin> cells s CHEESE" unfolding mem(2) by simp
    then show ?thesis using iC False by (simp add: cl ty)
  qed
  ultimately show ?thesis using map_wfD [OF wf] c g o e mp
    by (intro map_wfI) (simp_all add: counts_ok_def goes_def others_kept_def)
qed

lemma map_wf_leaves:
  assumes wf: "map_wf s" and m: "mouse_on s Org a" and o: "others_kept s a s'" and l: "leaves s a Org s'"
  shows "map_wf s'" "a \<notin> set (pMap s')"
proof -
  note M = mouse_onD [OF wf m]
  let ?i = "cell_of Org" and ?m = "pMap s" and ?el = "element s"
  have W: "store_wf ?m ?el" using wf by (simp add: map_wf_def)
  have i: "?i < 912" "?m ! ?i = a" "a \<noteq> 0" "kind_at s ?i = MOUSE" "length ?m = 912"
    using m M(2) store_wfD(1) [OF W] by (simp_all add: mouse_on_def)
  have mp: "pMap s' = ?m[?i := 0]" using l by (simp add: leaves_def)
  obtain x where e: "element s' = ?el(a := x)" using others_eq [OF o] by blast
  show ab: "a \<notin> set (pMap s')" using absent_after_clear [OF W i(1,2,3)] mp by simp
  have k: "kind_in (pMap s') (?el(a := x)) j = kind_in (pMap s') ?el j" if "j < 912" for x j
    using ab that i(5) nth_mem [of j "pMap s'"] by (auto simp: kind_in_def mp)
  then have k': "cells_in (pMap s') (?el(a := x)) ty = cells_in (pMap s') ?el ty" for x ty by (auto simp: cells_in_def)
  have W': "store_wf (pMap s') ?el" using store_clear [OF W i(1)] mp by simp
  have sw: "store_wf (pMap s') (?el(a := x))" for x
  proof (rule store_wfI)
    fix j :: nat
    assume j: "j < 912" "pMap s' ! j \<noteq> 0"
    then have "pMap s' ! j \<noteq> a" using ab store_wfD(1) [OF W'] nth_mem [of j "pMap s'"] by auto
    then show "element_ok j ((?el(a := x)) (pMap s' ! j))" using store_wfD(2) [OF W'] j by simp
  qed (use W' in \<open>auto simp: store_wf_def k'\<close>)
  have "store_wf (pMap s') (element s')" using sw [of x] e by simp
  moreover have cl: "cells s' ty = cells s ty - {?i}" if "ty \<noteq> 0" for ty
    using k' [of x ty] cells_clear [OF i(5,1) that, of ?el] e mp by simp
  have mem: "?i \<in> cells s ty \<longleftrightarrow> MOUSE = ty" for ty using kind_cells [OF i(1), of s ty] unfolding i(4) by blast
  have iM: "?i \<in> cells s MOUSE" unfolding mem by (rule refl)
  then have "0 < card (cells s MOUSE)" by (auto simp: card_gt_0_iff)
  then have "int (card (cells s' MOUSE)) = int (card (cells s MOUSE)) - 1" using iM by (simp add: cl element_types)
  moreover have "cells s' CHEESE = cells s CHEESE" "cells s' OBSTACLE = cells s OBSTACLE" "cells s' INPUT = cells s INPUT" "cells s' OUTPUT = cells s OUTPUT"
    using mem [of CHEESE] mem [of OBSTACLE] mem [of INPUT] mem [of OUTPUT] by (simp_all add: cl element_types)
  ultimately show "map_wf s'" using map_wfD [OF wf] e o l
    by (intro map_wfI) (simp_all add: counts_ok_def leaves_def others_kept_def)
qed

end
