(* ===== verification/Mouse_world.thy ===== *)
theory Mouse_world
  imports Mouse_moves Ksystem_props
begin

text \<open>
  The mice together: the set-up of the map, the creation of mice, a whole turn of a mouse, and the interleavings of
  the turns of all the threads of the simulation with the rest of the system.
\<close>

section \<open>New elements\<close>

lemma map_wf_add:
  assumes wf: "map_wf s" and j: "j < 912" "pMap s ! j = 0" and a: "a \<noteq> 0" "a \<notin> set (pMap s)"
    and e: "element_ok j e" "Type e \<in> {MOUSE, CHEESE, OBSTACLE}"
    and s': "pMap s' = (pMap s)[j := a]" "element s' = (element s)(a := e)"
    and c: "MouseCount s' = MouseCount s + (if Type e = MOUSE then 1 else 0)"
      "CheeseCount s' = CheeseCount s + (if Type e = CHEESE then 1 else 0)"
      "ObstacleCount s' = ObstacleCount s + (if Type e = OBSTACLE then 1 else 0)"
  shows "map_wf s'"
proof -
  note D = map_wfD [OF wf]
  note L = store_wfD(1) [OF D(1)]
  have "kind_at s j = 0" using j by (simp add: kind_at_def kind_in_def)
  then have nj: "j \<notin> cells s ty" if "ty \<noteq> 0" for ty using kind_cells [OF j(1), of s ty] that by metis
  have cl: "cells s' ty = (if ty = Type e then insert j (cells s ty) else cells s ty)" if "ty \<noteq> 0" for ty
    using cells_fill [OF L j(1) a j(2) that] by (simp add: s')
  have ty: "MOUSE \<noteq> 0" "CHEESE \<noteq> 0" "OBSTACLE \<noteq> 0" "INPUT \<noteq> 0" "OUTPUT \<noteq> 0" "INPUT \<notin> {MOUSE, CHEESE, OBSTACLE}" "OUTPUT \<notin> {MOUSE, CHEESE, OBSTACLE}"
    by (simp_all add: element_types)
  have "store_wf (pMap s') (element s')" unfolding s'
    by (rule store_fill [OF D(1) j(1) a j(2) e(1)]) (use e(2) ty in auto)
  moreover have "card (cells s' ty) = card (cells s ty) + (if Type e = ty then 1 else 0)" if "ty \<noteq> 0" for ty
    using nj [OF that] that by (auto simp: cl)
  then have "counts_ok s'" using D(2) c ty(1-3) by (simp add: counts_ok_def)
  moreover have "456 \<in> cells s' INPUT" "531 \<in> cells s' OUTPUT" using D(3,4) ty e(2) by (auto simp: cl)
  ultimately show ?thesis by (rule map_wfI)
qed

lemma map_wf_cong:
  "map_wf s \<Longrightarrow> pMap s' = pMap s \<Longrightarrow> element s' = element s \<Longrightarrow> MouseCount s' = MouseCount s \<Longrightarrow> CheeseCount s' = CheeseCount s \<Longrightarrow>
   ObstacleCount s' = ObstacleCount s \<Longrightarrow> map_wf s'"
  by (simp add: map_wf_def counts_ok_def kind_at_def)

lemma map_wf_outside:
  assumes "map_wf s" "a \<notin> set (pMap s)" "pMap s' = pMap s" "element s' = (element s)(a := x)" "MouseCount s' = MouseCount s"
    "CheeseCount s' = CheeseCount s" "ObstacleCount s' = ObstacleCount s"
  shows "map_wf s'"
proof -
  note D = map_wfD [OF assms(1)]
  have n: "pMap s ! i \<noteq> a" if "i < 912" for i using assms(2) store_wfD(1) [OF D(1)] that nth_mem by metis
  then have k: "kind_in (pMap s) ((element s)(a := x)) i = kind_in (pMap s) (element s) i" if "i < 912" for i
    using that by (simp add: kind_in_def)
  then have c: "cells_in (pMap s) ((element s)(a := x)) ty = cells s ty" for ty by (auto simp: cells_in_def)
  have "store_wf (pMap s) ((element s)(a := x))"
    by (rule store_wfI) (use store_wfD [OF D(1)] n D(1) in \<open>auto simp: c store_wf_def\<close>)
  then show ?thesis using D assms(3-) by (intro map_wfI) (simp_all add: c counts_ok_def)
qed

text \<open>The addresses that \<open>sos_kmalloc\<close> returns are those of no element of the map, and the first words of a new object are zero.\<close>

definition new_addresses :: "u32 list \<Rightarrow> sim \<Rightarrow> bool" where
  "new_addresses as s \<longleftrightarrow> (\<forall>a \<in> set as. a \<noteq> 0 \<longrightarrow> a \<notin> set (pMap s) \<and> Status (element s a) = 0)"

definition mice_of :: "sim \<Rightarrow> u32 \<Rightarrow> Point option" where
  "mice_of s a = (if a \<noteq> 0 \<and> a \<in> set (pMap s) \<and> Type (element s a) = MOUSE then Some (Pt (element s a)) else None)"

lemma mice_of_mouse_on:
  assumes "map_wf s"
  shows "mice_of s a = Some p \<longleftrightarrow> mouse_on s p a"
proof
  note W = store_wfD [OF map_wfD(1) [OF assms]]
  assume "mice_of s a = Some p"
  then have a: "a \<noteq> 0" "a \<in> set (pMap s)" "Type (element s a) = MOUSE" "p = Pt (element s a)"
    by (auto simp: mice_of_def split: if_splits)
  then obtain i where i: "i < 912" "pMap s ! i = a" using W(1) by (auto simp: in_set_conv_nth)
  then have "p = point_of i" using W(2) [of i] a by (simp add: element_ok_def)
  then show "mouse_on s p a" using i a by (simp add: mouse_on_def kind_at_def kind_in_def)
next
  assume m: "mouse_on s p a"
  note M = mouse_onD [OF assms m]
  have "a \<in> set (pMap s)" using M(1) cell_less nth_mem by (auto simp: mouse_at_def)
  then show "mice_of s a = Some p" using M by (simp add: mice_of_def)
qed

lemma create_loop:
  assumes wf: "map_wf s" and n: "new_addresses as s"
    and r: "CreateMouse_loop th Is as s = Some (ret, m, s')"
  shows "case m of
      None \<Rightarrow> map_wf s' \<and> pMap s' = pMap s \<and> (\<forall>b. b \<in> set (pMap s) \<longrightarrow> element s' b = element s b)
    | Some a \<Rightarrow> map_wf s' \<and> a \<noteq> 0 \<and> a \<notin> set (pMap s) \<and> (\<forall>b. b \<noteq> a \<longrightarrow> element s' b = element s b) \<and>
        (\<exists>j < 912. pMap s ! j = 0 \<and> pMap s' = (pMap s)[j := a] \<and> Pt (element s' a) = point_of j \<and> Type (element s' a) = MOUSE \<and>
          Status (element s' a) = MOUSE_EMPTY \<and> point_of j \<in> (\<lambda>I. displace I \<lparr>pX = 0, pY = 6\<rparr>) ` set Is)"
  using assms
proof (induction Is arbitrary: as)
  case Nil
  then show ?case by auto
next
  case (Cons I Is)
  let ?p = "displace I \<lparr>pX = 0, pY = MAP_Y div 2\<rparr>"
  have more: ?case if "CreateMouse_loop th Is as' s = Some (ret, m, s')" "set as' \<subseteq> set as" for as'
  proof -
    have "new_addresses as' s" using Cons.prems(2) that(2) by (auto simp: new_addresses_def)
    from Cons.IH [OF wf this that(1)] show ?thesis by (cases m) (simp, simp, blast)
  qed
  have L: "length (pMap s) = 912" by (rule store_wfD(1) [OF map_wfD(1) [OF wf]])
  show ?case
  proof (cases "in_map ?p \<and> pMap s ! cell_of ?p = 0")
    case False
    then have "CreateMouse_loop th Is as s = Some (ret, m, s')" using Cons.prems(3) L by (cases "in_map ?p") (simp_all add: Let_def)
    then show ?thesis by (rule more) simp
  next
    case True
    let ?j = "cell_of ?p"
    have j: "in_map ?p" "?j < 912" "pMap s ! ?j = 0" "point_of ?j = ?p" using True by simp_all
    show ?thesis
    proof (cases as)
      case Nil
      then show ?thesis using Cons.prems(3) L j(1,3) by (simp add: Let_def)
    next
      case (Cons a as')
      show ?thesis
      proof (cases "a = 0")
        case True
        then have "CreateMouse_loop th Is as' s = Some (ret, m, s')" using Cons.prems(3) L j(1,3) Cons by (simp add: Let_def)
        then show ?thesis by (rule more) (auto simp: Cons)
      next
        case False
        define e where "e = (element s a)\<lparr>Type := MOUSE, Status := SetFlag (Status (element s a)) MOUSE_EMPTY, Color := FG_LTRED, Pt := ?p, Way := 0\<rparr>"
        have a: "a \<notin> set (pMap s)" "Status (element s a) = 0" using Cons.prems(2) False Cons by (simp_all add: new_addresses_def)
        obtain t k where k: "create_mouse_thread th a (krn s) = Some (t, k)"
          using Cons.prems(3) L j(1,3) Cons False by (auto simp: Let_def bind_eq_Some_conv)
        let ?s1 = "s\<lparr>krn := k, element := (element s)(a := e\<lparr>ThreadID := t\<rparr>)\<rparr>"
        show ?thesis
        proof (cases t)
          case None
          then have "m = None" "s' = ?s1\<lparr>given_back := given_back s @ [a]\<rparr>"
            using Cons.prems(3) L j(1,3) Cons False k by (simp_all add: Let_def upd_element_def e_def)
          then show ?thesis using map_wf_outside [OF wf a(1), of s' "e\<lparr>ThreadID := t\<rparr>"] a(1) None by auto
        next
          case (Some t')
          let ?s2 = "?s1\<lparr>pMap := (pMap s)[?j := a], MouseCount := MouseCount s + 1\<rparr>"
          let ?s3 = "DrawPixel (pX ?p) (pY ?p) (Color (element ?s2 a)) ?s2"
          obtain c where "print_counts counts_format ?s3 = Some (?s3\<lparr>screen := c\<rparr>)"
            by (rule print_counts_ok [of counts_format ?s3]) simp_all
          then have s': "m = Some a" "s' = ?s3\<lparr>screen := c\<rparr>"
            using Cons.prems(3) L j(1,3) Cons False k Some by (simp_all add: Let_def upd_element_def e_def)
          have "Status e = 2" using a(2) by (simp add: e_def mouse_flags)
          moreover have "map_wf s'"
          proof (rule map_wf_add [OF wf j(2,3) False a(1)])
            show "element_ok ?j (e\<lparr>ThreadID := t\<rparr>)"
              using a(2) j(4) by (simp add: element_ok_def e_def mouse_ok_def mouse_flags)
          qed (simp_all add: s' DrawPixel_def e_def element_types)
          ultimately show ?thesis using s' a(1) False j
            by (auto simp: DrawPixel_def e_def mouse_flags MAP_Y_def intro!: exI [of _ ?j])
        qed
      qed
    qed
  qed
qed

section \<open>The initial map\<close>

definition addresses_ok :: "u32 list \<Rightarrow> sim \<Rightarrow> bool" where
  "addresses_ok as s \<longleftrightarrow> distinct (filter (\<lambda>a. a \<noteq> 0) as) \<and> (\<forall>a \<in> set as. a \<noteq> 0 \<longrightarrow> a \<notin> set (pMap s))"

lemma element_init_loop:
  assumes "map_wf s" "addresses_ok as s" "n \<le> length as" "ty = CHEESE \<or> ty = OBSTACLE"
  shows "\<exists>r as' s'. ElementInit_loop n ty color as s = Some (r, as', s') \<and> map_wf s' \<and> addresses_ok as' s' \<and>
    length as \<le> length as' + n \<and> set as' \<subseteq> set as \<and> (r = SOS_OK \<or> r = - SOS_ENOMEM \<and> 0 \<in> set as) \<and> MouseCount s' = MouseCount s \<and>
    CheeseCount s' \<le> CheeseCount s + (if ty = CHEESE then int n else 0) \<and>
    ObstacleCount s' \<le> ObstacleCount s + (if ty = OBSTACLE then int n else 0)"
  using assms
proof (induction n arbitrary: as s)
  case 0
  then show ?case by auto
next
  case (Suc n)
  have L: "length (pMap s) = 912" by (rule store_wfD(1) [OF map_wfD(1) [OF Suc.prems(1)]])
  obtain r1 s1 where d1: "draw_random s = (r1, s1)" by (cases "draw_random s")
  obtain r2 s2 where d2: "draw_random s1 = (r2, s2)" by (cases "draw_random s1")
  define j where "j = unat ((r1 + r2) mod word_of_int MAP_SIZE)"
  have s0: "s2 = s\<lparr>rand_seed := rand_seed s2\<rparr>" using d1 d2 by (auto simp: draw_random_def Let_def split: prod.splits)
  have "unat (word_of_int MAP_SIZE :: u32) = 912" by (simp add: map_dims)
  then have j: "j < 912" unfolding j_def by (simp add: unat_mod)
  have same: "pMap s2 = pMap s" "MouseCount s2 = MouseCount s" "CheeseCount s2 = CheeseCount s" "ObstacleCount s2 = ObstacleCount s"
    "element s2 = element s" by (subst s0, simp)+
  have eq: "ElementInit_loop (Suc n) ty color as s =
      (if pMap s ! j = 0
      then case as of
        [] \<Rightarrow> None
      | a # as \<Rightarrow>
          let s = s2\<lparr>pMap := (pMap s)[j := a]\<rparr>
          in if a = 0 then Some (- SOS_ENOMEM, as, s)
          else
            let s = (if ty = CHEESE then s\<lparr>CheeseCount := CheeseCount s + 1\<rparr>
                     else if ty = OBSTACLE then s\<lparr>ObstacleCount := ObstacleCount s + 1\<rparr> else s);
                s = upd_element a (\<lambda>e. e\<lparr>Type := ty, Status := 0, Color := color,
                      Pt := \<lparr>pX = int j mod MAP_X, pY = int j div MAP_X\<rparr>, ThreadID := None\<rparr>) s
            in ElementInit_loop n ty color as s
      else ElementInit_loop n ty color as s2)"
    using j L same by (cases as) (simp_all add: j_def d1 d2 Let_def)
  have wf0: "map_wf s2" by (rule map_wf_cong [OF Suc.prems(1)]) (subst s0, simp)+
  have step: ?case if pr: "map_wf t" "addresses_ok bs t" "n \<le> length bs" "length as \<le> length bs + 1" "set bs \<subseteq> set as"
      "ElementInit_loop (Suc n) ty color as s = ElementInit_loop n ty color bs t" "MouseCount t = MouseCount s"
      "CheeseCount t \<le> CheeseCount s + (if ty = CHEESE then 1 else 0)" "ObstacleCount t \<le> ObstacleCount s + (if ty = OBSTACLE then 1 else 0)" for t bs
  proof -
    obtain r as' s' where "ElementInit_loop n ty color bs t = Some (r, as', s')" "map_wf s'" "addresses_ok as' s'"
      "length bs \<le> length as' + n" "set as' \<subseteq> set bs" "r = SOS_OK \<or> r = - SOS_ENOMEM \<and> 0 \<in> set bs" "MouseCount s' = MouseCount t"
      "CheeseCount s' \<le> CheeseCount t + (if ty = CHEESE then int n else 0)"
      "ObstacleCount s' \<le> ObstacleCount t + (if ty = OBSTACLE then int n else 0)"
      using Suc.IH [OF pr(1,2,3) Suc.prems(4)] by blast
    then show ?thesis using pr by (intro exI [of _ r] exI [of _ as'] exI [of _ s']) (auto split: if_splits)
  qed
  show ?case
  proof (cases "pMap s ! j = 0")
    case False
    show ?thesis
      by (rule step [of s2 as]) (use wf0 same Suc.prems(2,3) False eq in \<open>simp_all add: addresses_ok_def\<close>)
  next
    case free: True
    obtain a bs where as: "as = a # bs" using Suc.prems(3) by (cases as) auto
    show ?thesis
    proof (cases "a = 0")
      case True
      let ?t = "s2\<lparr>pMap := (pMap s)[j := 0]\<rparr>"
      have "(pMap s)[j := 0] = pMap s" using free by (metis list_update_id)
      moreover from this have "map_wf ?t" by (intro map_wf_cong [OF Suc.prems(1)]) (simp_all add: same)
      ultimately show ?thesis using eq free as True Suc.prems(2) same
        by (intro exI [of _ "- SOS_ENOMEM"] exI [of _ bs] exI [of _ ?t]) (auto simp: addresses_ok_def)
    next
      case False
      have a: "a \<notin> set (pMap s)" using Suc.prems(2) as False by (simp add: addresses_ok_def)
      define e where "e = (element s a)\<lparr>Type := ty, Status := 0, Color := color,
                      Pt := \<lparr>pX = int j mod MAP_X, pY = int j div MAP_X\<rparr>, ThreadID := None\<rparr>"
      let ?t = "if ty = CHEESE then s2\<lparr>pMap := (pMap s)[j := a], CheeseCount := CheeseCount s + 1, element := (element s)(a := e)\<rparr>
        else s2\<lparr>pMap := (pMap s)[j := a], ObstacleCount := ObstacleCount s + 1, element := (element s)(a := e)\<rparr>"
      have ty: "OBSTACLE \<noteq> CHEESE" "CHEESE \<noteq> OBSTACLE" "CHEESE \<noteq> MOUSE" "OBSTACLE \<noteq> MOUSE" by (simp_all add: element_types)
      have "ElementInit_loop (Suc n) ty color as s = ElementInit_loop n ty color bs ?t"
        using eq free as False same Suc.prems(4) ty by (auto simp: Let_def upd_element_def e_def simp del: ElementInit_loop.simps)
      moreover have "map_wf ?t"
      proof (rule map_wf_add [OF Suc.prems(1) j free False a])
        show "element_ok j e" using Suc.prems(4) by (auto simp: element_ok_def e_def point_of_def element_types)
      qed (use Suc.prems(4) ty same in \<open>auto simp: e_def\<close>)
      moreover have "addresses_ok bs ?t"
        using Suc.prems(2) as False set_update_subset_insert [of "pMap s" j a] by (auto simp: addresses_ok_def)
      ultimately show ?thesis using Suc.prems(3,4) same as ty by (intro step [of ?t bs]) (auto simp del: ElementInit_loop.simps)
    qed
  qed
qed

lemma draw_map: "\<exists>c. DrawMap s = print_counts counts_format (s\<lparr>screen := c\<rparr>)"
proof -
  let ?f = "\<lambda>i s. if pMap s ! i \<noteq> 0 then DrawPixel (int i mod MAP_X) (int i div MAP_X) (Color (element s (pMap s ! i))) s
                    else DrawPixel (int i mod MAP_X) (int i div MAP_X) FG_BLACK s"
  have "\<exists>c. ?f i s = s\<lparr>screen := c\<rparr>" for i s by (auto simp: DrawPixel_def)
  then have "\<exists>c. fold ?f xs s = s\<lparr>screen := c\<rparr>" for xs
  proof (induction xs arbitrary: s)
    case Nil
    show ?case by (rule exI [of _ "screen s"]) simp
  next
    case (Cons i xs)
    obtain c where "?f i s = s\<lparr>screen := c\<rparr>" using Cons.prems by blast
    then show ?case using Cons.IH [of "s\<lparr>screen := c\<rparr>", OF Cons.prems] by auto
  qed
  then show ?thesis unfolding DrawMap_def by metis
qed

lemma draw_map_ok: obtains c where "DrawMap s = Some (s\<lparr>screen := c\<rparr>)"
proof -
  obtain c where "DrawMap s = print_counts counts_format (s\<lparr>screen := c\<rparr>)" using draw_map [of s] by blast
  moreover obtain c' where "print_counts counts_format (s\<lparr>screen := c\<rparr>) = Some (s\<lparr>screen := c\<rparr>\<lparr>screen := c'\<rparr>)"
    by (rule print_counts_ok [of counts_format "s\<lparr>screen := c\<rparr>"]) simp_all
  ultimately show ?thesis by (intro that [of c']) simp
qed

text \<open>The map with only the way in and the way out.\<close>

lemma empty_map_wf:
  assumes "i \<noteq> 0" "o' \<noteq> 0" "i \<noteq> o'" "MouseCount s = 0" "CheeseCount s = 0" "ObstacleCount s = 0"
    and e: "element_ok 456 (element s i)" "Type (element s i) = INPUT" "element_ok 531 (element s o')" "Type (element s o') = OUTPUT"
    and m: "pMap s = (replicate 912 0)[456 := i, 531 := o']"
  shows "map_wf s"
proof -
  have nth: "pMap s ! k = (if k = 456 then i else if k = 531 then o' else 0)" if "k < 912" for k
    using that by (simp add: m nth_list_update)
  have k: "kind_in (pMap s) (element s) k = (if k = 456 then INPUT else if k = 531 then OUTPUT else 0)" if "k < 912" for k
    unfolding kind_in_def nth [OF that] using assms(1,2) e(2,4) by simp
  have c: "cells s ty = (if ty = INPUT then {456} else if ty = OUTPUT then {531} else {})" if "ty \<noteq> 0" for ty
  proof -
    have "cells s ty = {k. k < 912 \<and> (if k = 456 then INPUT else if k = 531 then OUTPUT else 0) = ty}"
      unfolding cells_in_def using k by (intro Collect_cong conj_cong) simp_all
    moreover have "INPUT \<noteq> OUTPUT" "OUTPUT \<noteq> INPUT" by (simp_all add: element_types)
    ultimately show ?thesis using that
    proof (intro set_eqI)
      fix x
      assume c: "cells s ty = {k. k < 912 \<and> (if k = 456 then INPUT else if k = 531 then OUTPUT else 0) = ty}"
        "INPUT \<noteq> OUTPUT" "OUTPUT \<noteq> INPUT" "ty \<noteq> 0"
      show "x \<in> cells s ty \<longleftrightarrow> x \<in> (if ty = INPUT then {456} else if ty = OUTPUT then {531} else {})"
        unfolding c(1) using c(2-4) by (cases "x = 456"; cases "x = 531") simp_all
    qed
  qed
  show ?thesis
  proof (rule map_wfI)
    show "store_wf (pMap s) (element s)"
    proof (rule store_wfI)
      show "length (pMap s) = 912" by (simp add: m)
      show "element_ok k (element s (pMap s ! k))" if "k < 912" "pMap s ! k \<noteq> 0" for k
        using that e by (simp add: nth split: if_splits)
      show "k = l" if "k < 912" "l < 912" "pMap s ! k = pMap s ! l" "pMap s ! k \<noteq> 0" for k l
        using that assms(1-3) by (simp add: nth split: if_splits)
    qed (simp_all add: c element_types)
  qed (use assms(4-6) in \<open>simp_all add: c counts_ok_def element_types\<close>)
qed

text \<open>
  Setting the map up, with enough addresses, distinct, for its elements: it fails only when an allocation fails. The map is then
  well formed: every element is in the one cell of its coordinates, the way in and the way out are where they
  belong, the counters are the numbers of elements, there is no mouse, and at most 650 pieces of cheese and 100 obstacles.
\<close>

theorem create_map_sound:
  assumes a: "map_vaddr \<noteq> 0" "i \<noteq> 0" "o' \<noteq> 0" "i \<noteq> o'" "i \<notin> set as" "o' \<notin> set as" "distinct (filter (\<lambda>a. a \<noteq> 0) as)" "750 \<le> length as"
    and c: "MouseCount s = 0" "CheeseCount s = 0" "ObstacleCount s = 0"
  shows "\<exists>r as' s'. CreateMap map_vaddr i o' as s = Some (r, as', s') \<and> map_wf s' \<and>
    (r = SOS_OK \<or> r = - SOS_EFATAL \<and> 0 \<in> set as) \<and>
    MouseCount s' = 0 \<and> CheeseCount s' \<le> 650 \<and> ObstacleCount s' \<le> 100"
proof -
  define ei where "ei = (element s i)\<lparr>Type := INPUT, Status := 0, Color := FG_YELLOW OR BG_BLUE, Pt := \<lparr>pX = 0, pY = MAP_Y div 2\<rparr>, ThreadID := None\<rparr>"
  define eo where "eo = (element s o')\<lparr>Type := OUTPUT, Status := 0, Color := FG_LTBLUE, Pt := \<lparr>pX = MAP_X - 1, pY = MAP_Y div 2\<rparr>, ThreadID := None\<rparr>"
  let ?s1 = "s\<lparr>pMap := (replicate 912 0)[456 := i], element := (element s)(i := ei)\<rparr>"
  let ?s2 = "s\<lparr>pMap := (replicate 912 0)[456 := i, 531 := o'], element := (element s)(i := ei, o' := eo)\<rparr>"
  have dims: "nat MAP_SIZE = 912" "cell_index \<lparr>pX = 0, pY = MAP_Y div 2\<rparr> = 456" "cell_index \<lparr>pX = MAP_X - 1, pY = MAP_Y div 2\<rparr> = 531"
    by (simp_all add: map_dims cell_index_def)
  have 1: "InitMapInput i (s\<lparr>pMap := replicate (nat MAP_SIZE) 0\<rparr>) = Some (SOS_OK, ?s1)"
    using a(2) by (simp add: InitMapInput_def write_cell_def dims upd_element_def ei_def Let_def)
  have 2: "InitMapOutput o' ?s1 = Some (SOS_OK, ?s2)"
    using a(3,4) by (simp add: InitMapOutput_def write_cell_def dims upd_element_def eo_def Let_def)
  have wf2: "map_wf ?s2"
    by (rule empty_map_wf [of i o'])
      (use a c in \<open>simp_all add: element_ok_def ei_def eo_def point_of_def map_dims element_types\<close>)
  have ad2: "addresses_ok as ?s2" using a(2,3,5-7) by (auto simp: addresses_ok_def dest!: set_update_subset_insert [THEN subsetD])
  obtain r3 as3 s3 where 3: "ElementInit_loop 650 CHEESE FG_YELLOW as ?s2 = Some (r3, as3, s3)" "map_wf s3" "addresses_ok as3 s3"
    "length as \<le> length as3 + 650" "set as3 \<subseteq> set as" "r3 = SOS_OK \<or> r3 = - SOS_ENOMEM \<and> 0 \<in> set as" "MouseCount s3 = 0" "CheeseCount s3 \<le> 650"
    "ObstacleCount s3 \<le> 0"
    using element_init_loop [OF wf2 ad2, of 650 CHEESE FG_YELLOW] a(8) c by (auto simp: element_types)
  have e3: "ElementInit CHEESE as ?s2 = Some (r3, as3, s3)" using 3(1) by (simp add: ElementInit_def CHEESE_COUNT_def)
  show ?thesis
  proof (cases "r3 = SOS_OK")
    case False
    then show ?thesis using 1 2 e3 3 a(1) by (simp add: CreateMap_def dims errno_defs)
  next
    case True
    have "100 \<le> length as3" using 3(4) a(8) by simp
    from element_init_loop [OF 3(2,3) this, of OBSTACLE FG_GREEN]
    obtain r4 as4 s4 where 4: "ElementInit_loop 100 OBSTACLE FG_GREEN as3 s3 = Some (r4, as4, s4)" "map_wf s4"
      "r4 = SOS_OK \<or> r4 = - SOS_ENOMEM \<and> 0 \<in> set as3" "MouseCount s4 = 0" "CheeseCount s4 \<le> 650" "ObstacleCount s4 \<le> 100"
      using 3(7-9) by (auto simp: element_types)
    have e4: "ElementInit OBSTACLE as3 s3 = Some (r4, as4, s4)" using 4(1) by (simp add: ElementInit_def OBSTACLE_COUNT_def element_types)
    show ?thesis
    proof (cases "r4 = SOS_OK")
      case False
      then show ?thesis using 1 2 e3 e4 4 3(5) a(1) True by (auto simp: CreateMap_def dims errno_defs)
    next
      case r4: True
      obtain c where "DrawMap s4 = Some (s4\<lparr>screen := c\<rparr>)" by (rule draw_map_ok)
      moreover have "map_wf (s4\<lparr>screen := c\<rparr>)" by (rule map_wf_cong [OF 4(2)]) simp_all
      ultimately show ?thesis using 1 2 e3 e4 4 a(1) True r4 by (simp add: CreateMap_def dims)
    qed
  qed
qed

section \<open>A turn of a mouse\<close>

lemma turn_delay:
  fixes r :: u32
  assumes "d = MOUSE_SPEED_MIN + r mod 100"
  shows "d div 1000 = 0" "unat (d mod 1000 * 1000000) = (4 + unat r mod 100) * 1000000"
proof -
  have m: "unat r mod 100 < 100" by simp
  have u: "unat d = 4 + unat r mod 100"
    unfolding assms by (subst unat_add_lem [THEN iffD1]) (use m in \<open>simp_all add: MOUSE_SPEED_MIN_def unat_mod\<close>)
  then have l: "unat d < 1000" using m by linarith
  then show "d div 1000 = 0" by (simp add: word_unat_eq_iff unat_div)
  have "unat (d mod 1000) = unat d" using l by (simp add: unat_mod)
  then show "unat (d mod 1000 * 1000000) = (4 + unat r mod 100) * 1000000"
    by (subst unat_mult_lem [THEN iffD1]) (use u m in simp_all)
qed

lemma mouse_on_after:
  assumes wf: "map_wf s'" and m: "mouse_on s Org a" and o: "others_kept s a s'" and b: "b \<noteq> a"
    and p: "pMap s' = pMap s \<or> pMap s' = (pMap s)[cell_of Org := 0] \<or>
       pMap s' = (pMap s)[cell_of Org := 0, cell_of p := a] \<and> in_map p \<and> there s p \<noteq> MOUSE" and L: "length (pMap s) = 912"
  shows "mouse_on s' q b \<longleftrightarrow> mouse_on s q b"
proof (cases "in_map q")
  case True
  have e: "element s' b = element s b" using o b by (simp add: others_kept_def)
  have nO: "\<not> mouse_on s Org b" using m b by (simp add: mouse_on_def)
  have z: "\<not> mouse_on t r b" if "pMap t ! cell_of r \<noteq> b" for t r using that by (simp add: mouse_on_def)
  have c: "cell_of q = cell_of Org \<longleftrightarrow> q = Org" using True m cell_inj by (simp add: mouse_on_def)
  have b0: "mouse_on s' q b \<Longrightarrow> b \<noteq> 0" by (auto simp: mouse_on_def kind_at_def kind_in_def element_types)
  have keep: "pMap s' ! cell_of q = pMap s ! cell_of q \<Longrightarrow> ?thesis"
    using e by (auto simp: mouse_on_def kind_at_def kind_in_def)
  from p show ?thesis
  proof (elim disjE conjE)
    assume "pMap s' = (pMap s)[cell_of Org := 0]"
    then show ?thesis using c b0 nO keep L True by (cases "q = Org") (auto simp: mouse_on_def)
  next
    assume s': "pMap s' = (pMap s)[cell_of Org := 0, cell_of p := a]" and pp: "in_map p" "there s p \<noteq> MOUSE"
    have c2: "cell_of q = cell_of p \<longleftrightarrow> q = p" using True pp cell_inj by simp
    show ?thesis
    proof (cases "q = p")
      case True
      then have "pMap s' ! cell_of q = a" using s' L pp by simp
      moreover have "\<not> mouse_on s q b" using pp True by (auto simp: mouse_on_def there_def)
      ultimately show ?thesis using b by (auto simp: mouse_on_def)
    next
      case False
      then show ?thesis using s' c c2 b0 nO keep L \<open>in_map q\<close> by (cases "q = Org") (auto simp: mouse_on_def)
    qed
  qed (use keep in simp)
qed (simp add: mouse_on_def)

lemma mouse_unique:
  assumes "map_wf s" "mouse_on s p a" "mouse_on s q a"
  shows "p = q"
  using mouse_onD(3) [OF assms(1,2)] mouse_onD(3) [OF assms(1,3)] by simp

definition turn_result :: "sim \<Rightarrow> u32 \<Rightarrow> Point \<Rightarrow> sos_time + unit \<Rightarrow> Point \<Rightarrow> sim \<Rightarrow> bool" where
  "turn_result s a Org res p s' \<longleftrightarrow> (case res of
     Inl dl \<Rightarrow> mouse_on s' p a \<and>
       (p = Org \<and> pMap s' = pMap s \<and> given_back s' = given_back s \<and> (\<forall>q \<in> set (nearby Org). \<not> passable s q)
        \<or> p \<in> set (nearby Org) \<and> there s p = 0 \<and> pMap s' = (pMap s)[cell_of Org := 0, cell_of p := a] \<and> given_back s' = given_back s
        \<or> p \<in> set (nearby Org) \<and> cheese_at s p \<and> pMap s' = (pMap s)[cell_of Org := 0, cell_of p := a] \<and>
            given_back s' = given_back s @ [pMap s ! cell_of p] \<and> CheeseCount s' = CheeseCount s - 1 \<and> Status (element s' a) = MOUSE_FULL)
   | Inr _ \<Rightarrow> pMap s' = (pMap s)[cell_of Org := 0] \<and> given_back s' = given_back s @ [a] \<and> MouseCount s' = MouseCount s - 1 \<and>
       (\<exists>q \<in> set (nearby Org). in_map q \<and> there s q = OUTPUT))"

lemma mouse_turn:
  assumes wf: "map_wf s" and m: "mouse_on s Org a" and k: "up_ready (krn s)"
  shows "\<exists>res p s'. Mouse_turn SemMap SemMouse unset a Org s = Some (res, p, s') \<and> up_ready (krn s') \<and> map_wf s' \<and> others_kept s a s' \<and>
     hunger s a Org p \<and> turn_result s a Org res p s' \<and>
     (\<forall>b q. b \<noteq> a \<longrightarrow> mouse_on s' q b = mouse_on s q b) \<and> (\<forall>q. mouse_on s' q a \<longleftrightarrow> isl res \<and> q = p) \<and>
     (\<forall>dl. res = Inl dl \<longrightarrow> MouseSpeed s = 100 \<longrightarrow> sec dl = 0 \<and> 4000000 \<le> unat (nanosec dl) \<and> unat (nanosec dl) \<le> 103000000)"
proof -
  note M = mouse_onD [OF wf m]
  obtain p s1 where mv: "MouseMove SemMouse unset Org s = Some (p, s1)" "up_ready (krn s1)" "others_kept s a s1"
      "move_result s a Org p s1" "hunger s a Org p"
    using mouse_move [OF wf m k, of SemMouse unset] by (auto split: option.splits)
  obtain k' where k': "sos_ksema_up SemMap (krn s1) = Some (SOS_OK, k')" "up_ready k'" using up_returns [OF mv(2)] by blast
  define s2 where "s2 = s1\<lparr>krn := k'\<rparr>"
  have tn: "Mouse_turn SemMap SemMouse unset a Org s =
     (if IsSet (Status (element s1 a)) MOUSE_EXITED then Some (Inr (), p, s2\<lparr>given_back := given_back s1 @ [a]\<rparr>)
      else let r = random (rand_seed s1); d = MOUSE_SPEED_MIN + fst r mod MouseSpeed s1
        in Some (Inl \<lparr>sec = d div 1000, nanosec = d mod 1000 * 1000000\<rparr>, p, s2\<lparr>rand_seed := snd r\<rparr>))"
    using mv(1) k'(1) M(2) by (simp add: Mouse_turn_def deref_def draw_random_def s2_def Let_def split_beta)
  have L: "length (pMap s) = 912" by (rule store_wfD(1) [OF map_wfD(1) [OF wf]])
  have oM: "there s Org = MOUSE" "in_map Org" using m by (simp_all add: mouse_on_def there_def)
  have out: ?thesis if x: "Mouse_turn SemMap SemMouse unset a Org s = Some (res, p, s')" "krn s' = k'" "pMap s' = pMap s1" "element s' = element s1"
      "MouseCount s' = MouseCount s1" "CheeseCount s' = CheeseCount s1" "ObstacleCount s' = ObstacleCount s1" "MouseSpeed s' = MouseSpeed s1"
      "map_wf s1" "isl res \<longrightarrow> mouse_on s1 p a" "\<not> isl res \<longrightarrow> a \<notin> set (pMap s1)" "turn_result s a Org res p s'"
      "pMap s1 = pMap s \<or> pMap s1 = (pMap s)[cell_of Org := 0] \<or>
       pMap s1 = (pMap s)[cell_of Org := 0, cell_of p := a] \<and> in_map p \<and> there s p \<noteq> MOUSE"
      "\<forall>dl. res = Inl dl \<longrightarrow> MouseSpeed s = 100 \<longrightarrow> sec dl = 0 \<and> 4000000 \<le> unat (nanosec dl) \<and> unat (nanosec dl) \<le> 103000000"
    for res s'
  proof -
    have w: "map_wf s'" by (rule map_wf_cong [OF x(9,3,4,5,6,7)])
    have o: "others_kept s a s'" using mv(3) x by (simp add: others_kept_def)
    have on: "mouse_on s' q b = mouse_on s1 q b" for q b using x(3,4) by (simp add: mouse_on_def kind_at_def)
    have "mouse_on s' q b = mouse_on s q b" if "b \<noteq> a" for b q
      by (rule mouse_on_after [OF w m o that _ L]) (use x(3,13) in simp)
    moreover have "mouse_on s' q a \<longleftrightarrow> isl res \<and> q = p" for q
    proof (cases "isl res")
      case True
      then show ?thesis using x(10) on mouse_unique [OF x(9)] by auto
    next
      case False
      then have "a \<notin> set (pMap s1)" using x(11) by simp
      then have "\<not> mouse_on s1 q a" using store_wfD(1) [OF map_wfD(1) [OF x(9)]] cell_less [of q] nth_mem [of "cell_of q" "pMap s1"]
        by (auto simp: mouse_on_def)
      then show ?thesis using False on by simp
    qed
    ultimately show ?thesis using x(1,2,12,14) w o mv(5) k'(2)
      by (intro exI [of _ res] exI [of _ p] exI [of _ s']) simp
  qed
  have go_on: ?thesis if y: "mouse_ok (element s1 a)" "map_wf s1" "mouse_on s1 p a"
      "\<And>s' dl. pMap s' = pMap s1 \<Longrightarrow> element s' = element s1 \<Longrightarrow> CheeseCount s' = CheeseCount s1 \<Longrightarrow> given_back s' = given_back s1 \<Longrightarrow>
        turn_result s a Org (Inl dl) p s'"
      "pMap s1 = pMap s \<or> pMap s1 = (pMap s)[cell_of Org := 0, cell_of p := a] \<and> in_map p \<and> there s p \<noteq> MOUSE"
  proof -
    define d where "d = MOUSE_SPEED_MIN + fst (random (rand_seed s1)) mod MouseSpeed s1"
    let ?dl = "\<lparr>sec = d div 1000, nanosec = d mod 1000 * 1000000\<rparr> :: sos_time"
    have "\<not> IsSet (Status (element s1 a)) MOUSE_EXITED" using y(1) by (auto simp: mouse_ok_def mouse_flags)
    then have tn1: "Mouse_turn SemMap SemMouse unset a Org s = Some (Inl ?dl, p, s2\<lparr>rand_seed := snd (random (rand_seed s1))\<rparr>)"
      using tn by (simp add: d_def Let_def)
    have sp: "MouseSpeed s1 = MouseSpeed s" using mv(3) by (simp add: others_kept_def)
    have dl: "sec ?dl = 0 \<and> 4000000 \<le> unat (nanosec ?dl) \<and> unat (nanosec ?dl) \<le> 103000000" if "MouseSpeed s = 100"
    proof -
      have "unat (fst (random (rand_seed s1))) mod 100 < 100" by simp
      moreover have "d = MOUSE_SPEED_MIN + fst (random (rand_seed s1)) mod 100" using d_def sp that by simp
      ultimately show ?thesis using turn_delay [of d "fst (random (rand_seed s1))"] by simp
    qed
    show ?thesis
    proof (rule out [OF tn1])
      show "turn_result s a Org (Inl ?dl) p (s2\<lparr>rand_seed := snd (random (rand_seed s1))\<rparr>)" by (rule y(4)) (simp_all add: s2_def)
      show "pMap s1 = pMap s \<or> pMap s1 = (pMap s)[cell_of Org := 0] \<or>
         pMap s1 = (pMap s)[cell_of Org := 0, cell_of p := a] \<and> in_map p \<and> there s p \<noteq> MOUSE" using y(5) by blast
      show "\<forall>dl. (Inl ?dl :: sos_time + unit) = Inl dl \<longrightarrow> MouseSpeed s = 100 \<longrightarrow>
         sec dl = 0 \<and> 4000000 \<le> unat (nanosec dl) \<and> unat (nanosec dl) \<le> 103000000"
      proof (intro allI impI)
        fix dl' assume e: "(Inl ?dl :: sos_time + unit) = Inl dl'" and sp: "MouseSpeed s = 100"
        have "dl' = ?dl" using e by (simp only: sum.inject)
        then show "sec dl' = 0 \<and> 4000000 \<le> unat (nanosec dl') \<and> unat (nanosec dl') \<le> 103000000" using dl [OF sp] by simp
      qed
    qed (use y(2,3) in \<open>simp_all add: s2_def\<close>)
  qed
  have went: "mouse_on s1 p a" if "goes s a Org p s1" "in_map p"
    using that L M(2) by (simp add: goes_def mouse_on_def kind_at_def kind_in_def)
  from mv(4) [unfolded move_result_def] show ?thesis
  proof (elim disjE conjE)
    assume st: "p = Org" "stays s a s1" "\<forall>q \<in> set (nearby Org). \<not> passable s q"
    show ?thesis
    proof (rule go_on)
      show "map_wf s1" by (rule map_wf_stays [OF wf m mv(3) st(2)])
      show on: "mouse_on s1 p a" using st m M(2) by (simp add: stays_def mouse_on_def kind_at_def kind_in_def)
      show "turn_result s a Org (Inl dl) p s'" if "pMap s' = pMap s1" "element s' = element s1" "CheeseCount s' = CheeseCount s1"
        "given_back s' = given_back s1" for s' dl
        using that st on by (simp add: turn_result_def stays_def mouse_on_def kind_at_def)
    qed (use st in \<open>simp_all add: stays_def\<close>)
  next
    assume g: "p \<in> set (nearby Org)" "in_map p" "there s p = 0" "goes s a Org p s1" "given_back s1 = given_back s" "CheeseCount s1 = CheeseCount s"
    show ?thesis
    proof (rule go_on)
      show "map_wf s1" by (rule map_wf_goes [OF wf m mv(3) g(4,2)]) (use g in \<open>simp_all add: element_types\<close>)
      show on: "mouse_on s1 p a" by (rule went [OF g(4,2)])
      show "turn_result s a Org (Inl dl) p s'" if "pMap s' = pMap s1" "element s' = element s1" "CheeseCount s' = CheeseCount s1"
        "given_back s' = given_back s1" for s' dl
        using that g on by (simp add: turn_result_def goes_def mouse_on_def kind_at_def)
    qed (use g in \<open>simp_all add: goes_def element_types\<close>)
  next
    assume g: "p \<in> set (nearby Org)" "cheese_at s p" "goes s a Org p s1" "given_back s1 = given_back s @ [pMap s ! cell_of p]"
      "CheeseCount s1 = CheeseCount s - 1" "Status (element s1 a) = MOUSE_FULL"
    have p: "in_map p" "there s p = CHEESE" using g(2) by (simp_all add: cheese_at_def)
    show ?thesis
    proof (rule go_on)
      show "map_wf s1" by (rule map_wf_goes [OF wf m mv(3) g(3) p(1)]) (use g p in simp_all)
      show on: "mouse_on s1 p a" by (rule went [OF g(3) p(1)])
      show "turn_result s a Org (Inl dl) p s'" if "pMap s' = pMap s1" "element s' = element s1" "CheeseCount s' = CheeseCount s1"
        "given_back s' = given_back s1" for s' dl
        using that g on by (simp add: turn_result_def goes_def mouse_on_def kind_at_def)
    qed (use g p in \<open>simp_all add: goes_def element_types\<close>)
  next
    assume l: "p = Org" "leaves s a Org s1" "\<exists>q \<in> set (nearby Org). in_map q \<and> there s q = OUTPUT"
    have "Mouse_turn SemMap SemMouse unset a Org s = Some (Inr (), p, s2\<lparr>given_back := given_back s1 @ [a]\<rparr>)"
      using tn l(2) by (simp add: leaves_def)
    then show ?thesis
    proof (rule out)
      show "turn_result s a Org (Inr ()) p (s2\<lparr>given_back := given_back s1 @ [a]\<rparr>)"
        using l by (simp add: turn_result_def leaves_def s2_def)
    qed (use map_wf_leaves [OF wf m mv(3) l(2)] l in \<open>simp_all add: s2_def leaves_def\<close>)
  qed
qed

section \<open>The mice together\<close>

text \<open>
  The map, and for each mouse thread that runs the place its local variable holds. Between two turns the rest of the system may do
  anything to the kernel, to the screen and to the seed of \<open>random\<close>, which are not under \<open>SemMap\<close>.
\<close>

record mouse_world =
  game :: sim
  mice :: "u32 \<Rightarrow> Point option"

inductive mouse_step :: "nat \<Rightarrow> nat \<Rightarrow> mouse_world \<Rightarrow> mouse_world \<Rightarrow> bool" for SemMap SemMouse where
  turn: "mice w a = Some p \<Longrightarrow> up_ready (krn (game w)) \<Longrightarrow> Mouse_turn SemMap SemMouse unset a p (game w) = Some (res, p', s) \<Longrightarrow>
    mouse_step SemMap SemMouse w \<lparr>game = s, mice = (mice w)(a := if isl res then Some p' else None)\<rparr>"
| create: "new_addresses as (game w) \<Longrightarrow> MouseCreator_turn SemMap th as (game w) = Some (Some a, s) \<Longrightarrow>
    mouse_step SemMap SemMouse w \<lparr>game = s, mice = (mice w)(a \<mapsto> Pt (element s a))\<rparr>"
| no_create: "new_addresses as (game w) \<Longrightarrow> MouseCreator_turn SemMap th as (game w) = Some (None, s) \<Longrightarrow>
    mouse_step SemMap SemMouse w (w\<lparr>game := s\<rparr>)"
| others: "mouse_step SemMap SemMouse w (w\<lparr>game := (game w)\<lparr>krn := k, screen := c, rand_seed := r\<rparr>\<rparr>)"

definition mouse_inv :: "mouse_world \<Rightarrow> bool" where
  "mouse_inv w \<longleftrightarrow> map_wf (game w) \<and> (\<forall>a p. mice w a = Some p \<longleftrightarrow> mouse_on (game w) p a)"

lemma creator_turn:
  assumes wf: "map_wf s" and n: "new_addresses as s" and r: "MouseCreator_turn q th as s = Some (m, s')"
  shows "map_wf s' \<and> (\<forall>b p. mouse_on s' p b \<longleftrightarrow> mouse_on s p b \<or> m = Some b \<and> p = Pt (element s' b))"
proof -
  obtain ret s1 where c: "CreateMouse_loop th [0..7] as s = Some (ret, m, s1)" "pMap s' = pMap s1" "element s' = element s1"
    "MouseCount s' = MouseCount s1" "CheeseCount s' = CheeseCount s1" "ObstacleCount s' = ObstacleCount s1"
    using r by (auto simp: MouseCreator_turn_def CreateMouse_def bind_eq_Some_conv)
  note L = create_loop [OF wf n c(1)]
  have on: "mouse_on s' p b = mouse_on s1 p b" for p b using c(2,3) by (simp add: mouse_on_def kind_at_def)
  have w: "map_wf s'" by (rule map_wf_cong [OF _ c(2-)]) (use L in \<open>auto split: option.splits\<close>)
  have len: "length (pMap s) = 912" by (rule store_wfD(1) [OF map_wfD(1) [OF wf]])
  have inm: "pMap s ! cell_of p \<in> set (pMap s)" if "in_map p" for p using that len by simp
  show ?thesis
  proof (cases m)
    case None
    then have s1: "pMap s1 = pMap s" "\<And>b. b \<in> set (pMap s) \<Longrightarrow> element s1 b = element s b" using L by simp_all
    have "mouse_on s1 p b = mouse_on s p b" for p b
      using s1 inm [of p] by (auto simp: mouse_on_def kind_at_def kind_in_def)
    then show ?thesis using w on None by simp
  next
    case (Some a)
    then obtain j where a: "a \<noteq> 0" "a \<notin> set (pMap s)" "\<And>b. b \<noteq> a \<Longrightarrow> element s1 b = element s b" "j < 912" "pMap s ! j = 0"
      "pMap s1 = (pMap s)[j := a]" "Pt (element s1 a) = point_of j" "Type (element s1 a) = MOUSE" using L by auto
    have "mouse_on s1 p b \<longleftrightarrow> mouse_on s p b \<or> b = a \<and> p = point_of j" for p b
    proof (cases "in_map p")
      case True
      then have i: "cell_of p < 912" "p = point_of (cell_of p)" by simp_all
      show ?thesis
      proof (cases "cell_of p = j")
        case True
        then have "p = point_of j" using i(2) by simp
        moreover have "\<not> mouse_on s p b" using True a(5) by (auto simp: mouse_on_def kind_at_def kind_in_def element_types)
        moreover have "mouse_on s1 p b \<longleftrightarrow> b = a" using True a(1,6,8) len \<open>in_map p\<close> i(1)
          by (auto simp: mouse_on_def kind_at_def kind_in_def)
        ultimately show ?thesis by simp
      next
        case False
        then have "p \<noteq> point_of j" using a(4) by auto
        moreover have "pMap s1 ! cell_of p = pMap s ! cell_of p" using False a(6) by simp
        moreover have "pMap s ! cell_of p \<noteq> a" using inm [OF True] a(2) by auto
        ultimately show ?thesis using a(3) [of "pMap s ! cell_of p"] by (simp add: mouse_on_def kind_at_def kind_in_def)
      qed
    next
      case False
      then have "p \<noteq> point_of j" using a(4) by auto
      then show ?thesis using False by (simp add: mouse_on_def)
    qed
    then show ?thesis using w on c(3) Some a(7) by auto
  qed
qed

lemma mouse_step_inv:
  assumes "mouse_step SemMap SemMouse w w'" "mouse_inv w"
  shows "mouse_inv w'"
  using assms
proof cases
  case (turn a p unset res p' s)
  have m: "map_wf (game w)" "mouse_on (game w) p a" using assms(2) turn(2) by (simp_all add: mouse_inv_def)
  from mouse_turn [OF m turn(3), of SemMap SemMouse unset] turn(4)
  have t: "map_wf s" "\<And>b q. b \<noteq> a \<Longrightarrow> mouse_on s q b = mouse_on (game w) q b" "\<And>q. mouse_on s q a \<longleftrightarrow> isl res \<and> q = p'" by auto
  have "mice w' b = Some q \<longleftrightarrow> mouse_on s q b" for b :: u32 and q
    using t(2) [of b q] t(3) [of q] assms(2) turn(1) by (cases "b = a") (auto simp: mouse_inv_def)
  then show ?thesis using t(1) turn(1) by (simp add: mouse_inv_def)
next
  case (create as th a s)
  have wf: "map_wf (game w)" using assms(2) by (simp add: mouse_inv_def)
  note C = creator_turn [OF wf create(2,3)]
  have "map_wf s" using C by blast
  have "mouse_on s (Pt (element s a)) a" using C by blast
  have "mice w' b = Some q \<longleftrightarrow> mouse_on s q b" for b q
  proof (cases "b = a")
    case True
    then show ?thesis using create(1) \<open>mouse_on s (Pt (element s a)) a\<close> mouse_unique [OF \<open>map_wf s\<close>] by auto
  next
    case False
    then show ?thesis using C create(1) assms(2) by (simp add: mouse_inv_def)
  qed
  then show ?thesis using C create(1) by (simp add: mouse_inv_def)
next
  case (no_create as th s)
  have wf: "map_wf (game w)" using assms(2) by (simp add: mouse_inv_def)
  show ?thesis using creator_turn [OF wf no_create(2,3)] assms(2) no_create(1) by (simp add: mouse_inv_def)
next
  case (others r c k)
  have "map_wf ((game w)\<lparr>krn := k, screen := c, rand_seed := r\<rparr>)"
    by (rule map_wf_cong [of "game w"]) (use assms(2) in \<open>simp_all add: mouse_inv_def\<close>)
  moreover have "mouse_on ((game w)\<lparr>krn := k, screen := c, rand_seed := r\<rparr>) = mouse_on (game w)"
    by (simp add: mouse_on_def kind_at_def fun_eq_iff)
  ultimately show ?thesis using assms(2) others by (simp add: mouse_inv_def)
qed

lemma mouse_steps_inv: "(mouse_step SemMap SemMouse)\<^sup>*\<^sup>* w w' \<Longrightarrow> mouse_inv w \<Longrightarrow> mouse_inv w'"
  by (induction rule: rtranclp_induct) (auto intro: mouse_step_inv)

lemma mouse_inv_start:
  assumes "map_wf s" "MouseCount s = 0"
  shows "mouse_inv \<lparr>game = s, mice = \<lambda>_. None\<rparr>"
proof -
  have "card (cells s MOUSE) = 0" using map_wfD(2) [OF assms(1)] assms(2) by (simp add: counts_ok_def)
  moreover have "finite (cells s MOUSE)" by (simp add: cells_in_def)
  ultimately have "cells s MOUSE = {}" by simp
  then have "\<not> mouse_on s p a" for p a using cell_less [of p] by (auto simp: mouse_on_def kind_at_def cells_in_def)
  with assms(1) show ?thesis by (simp add: mouse_inv_def)
qed

lemma mouse_count:
  assumes "mouse_inv w"
  shows "MouseCount (game w) = int (card (dom (mice w)))"
proof -
  let ?s = "game w"
  have wf: "map_wf ?s" using assms by (simp add: mouse_inv_def)
  note W = store_wfD [OF map_wfD(1) [OF wf]]
  have "dom (mice w) = (\<lambda>i. pMap ?s ! i) ` cells ?s MOUSE"
  proof (intro set_eqI iffI)
    fix a assume "a \<in> dom (mice w)"
    then obtain p where "mouse_on ?s p a" using assms by (auto simp: mouse_inv_def)
    then show "a \<in> (\<lambda>i. pMap ?s ! i) ` cells ?s MOUSE"
      using cell_less [of p] by (intro image_eqI [of _ _ "cell_of p"]) (auto simp: mouse_on_def kind_at_def cells_in_def)
  next
    fix a assume "a \<in> (\<lambda>i. pMap ?s ! i) ` cells ?s MOUSE"
    then obtain i where "i < 912" "kind_in (pMap ?s) (element ?s) i = MOUSE" "a = pMap ?s ! i" by (auto simp: cells_in_def)
    then have "mouse_on ?s (point_of i) a" by (simp add: mouse_on_def kind_at_def)
    then show "a \<in> dom (mice w)" using assms by (auto simp: mouse_inv_def)
  qed
  moreover have "inj_on (\<lambda>i. pMap ?s ! i) (cells ?s MOUSE)"
  proof (rule inj_onI)
    fix i j assume ij: "i \<in> cells ?s MOUSE" "j \<in> cells ?s MOUSE" and e: "pMap ?s ! i = pMap ?s ! j"
    then have "pMap ?s ! i \<noteq> 0" by (auto simp: cells_in_def kind_in_def element_types)
    with W(3) [of i j] ij e show "i = j" by (simp add: cells_in_def)
  qed
  ultimately show ?thesis using map_wfD(2) [OF wf] by (simp add: card_image counts_ok_def)
qed

section \<open>A small map\<close>

definition example_element :: "u32 \<Rightarrow> Element" where
  "example_element a =
     (if a = 100 then \<lparr>Type = INPUT, Status = 0, Color = FG_YELLOW, Pt = point_of 456, ThreadID = None, Way = 0\<rparr>
      else if a = 200 then \<lparr>Type = OUTPUT, Status = 0, Color = FG_LTBLUE, Pt = point_of 531, ThreadID = None, Way = 0\<rparr>
      else \<lparr>Type = 0, Status = 0, Color = 0, Pt = point_of 0, ThreadID = None, Way = 0\<rparr>)"

definition example_map :: sim where
  "example_map = \<lparr>element = example_element, pMap = (replicate 912 0)[456 := 100, 531 := 200], MouseCount = 0, CheeseCount = 0,
     ObstacleCount = 0, MouseSpeed = 100, krn = example_kernel, screen = \<lparr>xpos = 0, ypos = 0, video = \<lambda>_. 0\<rparr>,
     rand_seed = 93186752, given_back = []\<rparr>"

lemma example_map_wf: "map_wf example_map"
  by (rule empty_map_wf [of 100 200])
    (simp_all add: example_map_def example_element_def element_ok_def element_types)

lemma example_up_ready: "up_ready example_kernel"
proof -
  have "sys_inv example_kind (\<lambda>_. 1) example_system" by (rule initial_inv [OF example_initial])
  then obtain c where "kernel_ok example_kind c example_kernel (\<lambda>_. None)" by (auto simp: sys_inv_def example_system_def)
  moreover have "waiting_list example_kernel = (\<lambda>_. [])" by (simp add: example_kernel_def)
  ultimately show ?thesis by (auto simp: up_ready_def)
qed

lemma example_thread_created:
  "\<exists>k. create_mouse_thread (0, 0, 0, Some 14, 0x20000) a example_kernel = Some (Some 14, k) \<and> up_ready k"
proof -
  obtain ctxt m where st: "sos_cpu_kstate_init 0 0 a 0x20000 SOS_THREAD_KERNEL_STACK_SIZE 0 0 (kmem example_kernel) = (SOS_OK, ctxt, m)"
    by (simp add: sos_cpu_kstate_init_def Let_def)
  have c: "current_thread example_kernel = Some 11" "thread_list example_kernel = [11, 12, 13]" by (simp_all add: example_kernel_def)
  obtain k1 where b: "sos_create_kernel_thread_begin 0 0 (Some ''Mouse'') (Some 0) a (Some 14) 0x20000 example_kernel = (Inr 14, k1)"
    by (simp add: sos_create_kernel_thread_begin_def st Let_def)
  let ?E = "enter 11 (Creating 14 0x20000) k1 example_system"
  have i: "sys_inv example_kind (\<lambda>_. 1) example_system" by (rule initial_inv [OF example_initial])
  have "creating_ok (kern example_system) (inside example_system)" by (simp add: creating_ok_def example_system_def)
  with step_create [OF i example_idle, of 14 0 0 "Some ''Mouse''" "Some 0" a "0x20000" 14 k1] b c
  have E: "sys_inv example_kind (\<lambda>_. 1) ?E" "creating_ok (kern ?E) (inside ?E)" by (simp_all add: example_system_def)
  have k1: "kern ?E = k1" "inside ?E 11 = Some (Creating 14 0x20000)" "current_thread k1 = Some 11"
      "waiting_list k1 = (\<lambda>_. [])" "tstate k1 14 = SOS_THR_CREATED"
    using create_begin_eq [OF b] by (auto simp: enter_def example_kernel_def split: if_splits)
  obtain k where e: "sos_create_kernel_thread_end 14 0x20000 k1 = Some (Some 14, [], [], k)" "waiting_list k = (\<lambda>_. [])"
      "current_thread k = Some 11"
    using k1(3-5) by (simp add: sos_create_kernel_thread_end_def sos_sched_set_ready_def add_in_ready_queue_def set_state_def)
  have "sys_inv example_kind (\<lambda>_. 1) (leave 11 k ?E)"
    by (rule step_resume_create [OF E _ k1(2)]) (use k1 e in simp_all)
  then obtain kind c ins where "kernel_ok kind c k ins" "ins 11 = None" by (auto simp: sys_inv_def leave_def enter_def)
  moreover from this e(3) have "c = 11" by (auto simp: kernel_ok_def running_def)
  ultimately have "up_ready k" using e(2) by (auto simp: up_ready_def)
  then show ?thesis using b e by (simp add: sos_create_kernel_thread_def)
qed

lemma example_created:
  "\<exists>s. MouseCreator_turn 10 (0, 0, 0, Some 14, 0x20000) [300] example_map = Some (Some 300, s) \<and> mouse_on s \<lparr>pX = 0, pY = 7\<rparr> 300 \<and>
     MouseSpeed s = 100"
proof -
  let ?p = "\<lparr>pX = 0, pY = 7\<rparr>"
  have p: "displace 0 \<lparr>pX = 0, pY = MAP_Y div 2\<rparr> = ?p" "in_map ?p" "cell_of ?p = 532"
    by (simp_all add: displace_def map_dims in_map_def cell_of_def cell_index_def)
  have L: "length (pMap example_map) = 912" "pMap example_map ! 532 = 0" by (simp_all add: example_map_def)
  obtain k where k: "create_mouse_thread (0, 0, 0, Some 14, 0x20000) 300 example_kernel = Some (Some 14, k)" "up_ready k"
    using example_thread_created by blast
  obtain k' where k': "sos_ksema_up 10 k = Some (SOS_OK, k')" using up_returns [OF k(2)] by blast
  define e where "e = (example_element 300)\<lparr>Type := MOUSE, Status := SetFlag 0 MOUSE_EMPTY, Color := FG_LTRED, Pt := ?p, Way := 0, ThreadID := Some 14\<rparr>"
  define s1 where "s1 = example_map\<lparr>krn := k, element := example_element(300 := e), pMap := (pMap example_map)[532 := 300], MouseCount := 1\<rparr>"
  obtain c where c: "print_counts counts_format (DrawPixel 0 7 (Color e) s1) = Some ((DrawPixel 0 7 (Color e) s1)\<lparr>screen := c\<rparr>)"
    by (rule print_counts_ok [of counts_format]) simp_all
  have kr: "krn example_map = example_kernel" "MouseCount example_map = 0" "element example_map = example_element"
    "Status (example_element 300) = 0" "MouseSpeed example_map = 100"
    by (simp_all add: example_map_def example_element_def)
  have up: "[0..7] = 0 # [1..(7::int)]" by (simp add: upto_rec1)
  have "CreateMouse (0, 0, 0, Some 14, 0x20000) [300] example_map = Some (SOS_OK, Some 300, (DrawPixel 0 7 (Color e) s1)\<lparr>screen := c\<rparr>)"
    unfolding CreateMouse_def up using p L k(1) kr c
    by (simp add: Let_def upd_element_def s1_def e_def del: create_mouse_thread.simps)
  then have "MouseCreator_turn 10 (0, 0, 0, Some 14, 0x20000) [300] example_map = Some (Some 300, s1\<lparr>screen := c, krn := k'\<rparr>)"
    using k' by (simp add: MouseCreator_turn_def DrawPixel_def s1_def)
  moreover have "mouse_on (s1\<lparr>screen := c, krn := k'\<rparr>) ?p 300"
    using p L by (simp add: mouse_on_def kind_at_def kind_in_def s1_def e_def)
  ultimately show ?thesis using kr by (intro exI [of _ "s1\<lparr>screen := c, krn := k'\<rparr>"]) (simp add: s1_def)
qed

lemma example_new: "new_addresses [300] example_map"
proof -
  have "set ((replicate 912 0)[456 := 100, 531 := 200]) \<subseteq> {0, 100, 200 :: u32}"
    by (auto dest!: set_update_subset_insert [THEN subsetD] simp: in_set_replicate)
  moreover have "(300::u32) \<noteq> 0 \<and> (300::u32) \<noteq> 100 \<and> (300::u32) \<noteq> 200" by simp
  ultimately show ?thesis unfolding new_addresses_def by (auto simp: example_map_def example_element_def)
qed

lemma example_world:
  "\<exists>w. (mouse_step 10 20)\<^sup>*\<^sup>* \<lparr>game = example_map, mice = \<lambda>_. None\<rparr> w \<and> up_ready (krn (game w)) \<and> MouseSpeed (game w) = 100 \<and>
     map_wf (game w) \<and> mice w 300 = Some \<lparr>pX = 0, pY = 7\<rparr> \<and> mouse_on (game w) \<lparr>pX = 0, pY = 7\<rparr> 300"
proof -
  let ?w0 = "\<lparr>game = example_map, mice = \<lambda>_. None\<rparr> :: mouse_world"
  obtain s where s: "MouseCreator_turn 10 (0, 0, 0, Some 14, 0x20000) [300] example_map = Some (Some 300, s)"
    "mouse_on s \<lparr>pX = 0, pY = 7\<rparr> 300" "MouseSpeed s = 100" using example_created by blast
  have wf: "map_wf s" using creator_turn [OF example_map_wf example_new s(1)] by blast
  have P: "Pt (element s 300) = \<lparr>pX = 0, pY = 7\<rparr>" by (rule mouse_onD(3) [OF wf s(2)])
  define w1 where "w1 = \<lparr>game = s, mice = (\<lambda>_. None)(300 \<mapsto> \<lparr>pX = 0, pY = 7\<rparr>)\<rparr>"
  have 1: "mouse_step 10 20 ?w0 w1"
    using mouse_step.create [of "[300]" ?w0 10 "(0, 0, 0, Some 14, 0x20000)" 300 s] example_new s(1) by (simp add: w1_def P)
  let ?w2 = "w1\<lparr>game := (game w1)\<lparr>krn := example_kernel, screen := screen s, rand_seed := rand_seed s\<rparr>\<rparr>"
  have "(mouse_step 10 20)\<^sup>*\<^sup>* ?w0 ?w2" by (rule rtranclp.rtrancl_into_rtrancl [where b = w1]) (rule r_into_rtranclp [where r = "mouse_step 10 20"], rule 1, rule mouse_step.others)
  moreover have "map_wf (game ?w2)" by (rule map_wf_cong [OF wf]) (simp_all add: w1_def)
  moreover have "mouse_on (game ?w2) \<lparr>pX = 0, pY = 7\<rparr> 300" using s(2) by (simp add: mouse_on_def kind_at_def w1_def)
  ultimately show ?thesis using example_up_ready s(3) by (intro exI [of _ ?w2]) (simp add: w1_def)
qed

section \<open>What the mice do\<close>

text \<open>
  C38: A turn of a mouse, whatever the map around it: it returns without reading or writing outside of the map. The
  mouse either stays because no cell around it is free or the way out; or it goes to one of the eight cells around it, free or with a piece of cheese,
  which is then given back and counted; or it leaves by the way out next to it, and is given back and counted.
  A hungry mouse goes to the first piece of cheese around it, and one that has eaten eats again only when the way in is next
  to it. The map is well formed afterwards, and the mouse sleeps between 4 and 103 milliseconds.
\<close>

theorem mouse_turn_sound:
  assumes "map_wf s" and "mouse_on s Org a" and "up_ready (krn s)" and "MouseSpeed s = 100"
  shows "\<exists>res p s'. Mouse_turn SemMap SemMouse unset a Org s = Some (res, p, s') \<and> map_wf s' \<and> turn_result s a Org res p s' \<and>
     hunger s a Org p \<and> (\<forall>b q. b \<noteq> a \<longrightarrow> mouse_on s' q b = mouse_on s q b) \<and>
     (\<forall>d. res = Inl d \<longrightarrow> sec d = 0 \<and> 4000000 \<le> unat (nanosec d) \<and> unat (nanosec d) \<le> 103000000)"
  using mouse_turn [OF assms(1-3), of SemMap SemMouse unset] assms(4) by blast

theorem mouse_turn_sound_witness:
  "\<exists>s res p s'. map_wf s \<and> Mouse_turn 10 20 \<lparr>pX = 0, pY = 0\<rparr> 300 \<lparr>pX = 0, pY = 7\<rparr> s = Some (res, p, s') \<and> map_wf s' \<and>
     turn_result s 300 \<lparr>pX = 0, pY = 7\<rparr> res p s'"
proof -
  obtain w :: mouse_world where "up_ready (krn (game w))" "MouseSpeed (game w) = 100" "map_wf (game w)" "mouse_on (game w) \<lparr>pX = 0, pY = 7\<rparr> 300"
    using example_world by blast
  with mouse_turn_sound [OF this(3,4,1,2), of 10 20 "\<lparr>pX = 0, pY = 0\<rparr>"] show ?thesis by blast
qed

text \<open>
  C4: The mice together, however their turns, the creations of mice and the rest of the system interleave: the map stays well formed,
  every mouse thread knows the place of its mouse on the map and no mouse is there without its thread, no two mice are in the
  same cell, and the counter shown is the number of the mice.
\<close>

theorem mice_invariant:
  assumes "map_wf s" and "MouseCount s = 0" and "(mouse_step SemMap SemMouse)\<^sup>*\<^sup>* \<lparr>game = s, mice = \<lambda>_. None\<rparr> w"
  shows "map_wf (game w) \<and> (\<forall>a p. mice w a = Some p \<longleftrightarrow> mouse_on (game w) p a) \<and>
     (\<forall>a b p. mice w a = Some p \<and> mice w b = Some p \<longrightarrow> a = b) \<and> MouseCount (game w) = int (card (dom (mice w)))"
proof -
  have i: "mouse_inv w" by (rule mouse_steps_inv [OF assms(3) mouse_inv_start [OF assms(1,2)]])
  then show ?thesis using mouse_count [OF i] by (auto simp: mouse_inv_def mouse_on_def)
qed

theorem mice_invariant_witness: "\<exists>w. (mouse_step 10 20)\<^sup>*\<^sup>* \<lparr>game = example_map, mice = \<lambda>_. None\<rparr> w \<and> mouse_on (game w) \<lparr>pX = 0, pY = 7\<rparr> 300"
proof -
  have "MouseCount example_map = 0" by (simp add: example_map_def)
  obtain w :: mouse_world where "(mouse_step 10 20)\<^sup>*\<^sup>* \<lparr>game = example_map, mice = \<lambda>_. None\<rparr> w" "mice w 300 = Some \<lparr>pX = 0, pY = 7\<rparr>"
    using example_world by blast
  with mice_invariant [OF example_map_wf \<open>MouseCount example_map = 0\<close> this(1)] show ?thesis by blast
qed

definition example_addresses :: "u32 list" where "example_addresses = map word_of_nat [3..<753]"

lemma example_addresses: "distinct example_addresses" "length example_addresses = 750" "x \<in> set example_addresses \<Longrightarrow> 3 \<le> unat x"
proof -
  have u: "unat (word_of_nat n :: u32) = n" if "n < 753" for n using that by (simp add: unat_of_nat take_bit_nat_eq_self)
  have "inj_on (word_of_nat :: nat \<Rightarrow> u32) {3..<753}"
    by (rule inj_onI) (metis atLeastLessThan_iff u)
  then show "distinct example_addresses" unfolding example_addresses_def distinct_map set_upt by (intro conjI distinct_upt)
  show "length example_addresses = 750" unfolding example_addresses_def length_map length_upt by simp
  show "3 \<le> unat x" if "x \<in> set example_addresses"
    using that u unfolding example_addresses_def set_map set_upt by auto
qed

theorem create_map_sound_witness:
  "\<exists>r as' s'. CreateMap 0x1000 1 2 example_addresses example_map = Some (r, as', s') \<and> map_wf s' \<and> CheeseCount s' \<le> 650"
proof -
  have "1 \<notin> set example_addresses" "2 \<notin> set example_addresses" using example_addresses(3) [of 1] example_addresses(3) [of 2] by auto
  moreover have "MouseCount example_map = 0" "CheeseCount example_map = 0" "ObstacleCount example_map = 0"
    by (simp_all add: example_map_def)
  ultimately show ?thesis
    using create_map_sound [of "0x1000" 1 2 example_addresses example_map] example_addresses(1,2) by auto
qed

end
