(* ===== verification/Multiboot.thy ===== *)
theory Multiboot
  imports Klibc Kformat
begin

text \<open>
  What the boot loader hands over: the tags of the Multiboot information (\<^verbatim>\<open>include/multiboot2.h\<close>) and the walk over them
  that prints them, keeps the address of the memory size and draws on the framebuffer (\<^verbatim>\<open>os/mbi.c\<close>). The structures are read
  in the byte memory at the offsets of their fields. The text screen is the console of \<open>Kformat\<close>, apart from this memory.
  The loops over the memory need not end: no result is a walk that never ends.
\<close>

section \<open>Structures\<close>

definition MULTIBOOT2_BOOTLOADER_MAGIC :: u32 where "MULTIBOOT2_BOOTLOADER_MAGIC = 0x36d76289"

definition MULTIBOOT_TAG_TYPE_END :: u32 where "MULTIBOOT_TAG_TYPE_END = 0"
definition MULTIBOOT_TAG_TYPE_CMDLINE :: u32 where "MULTIBOOT_TAG_TYPE_CMDLINE = 1"
definition MULTIBOOT_TAG_TYPE_BOOT_LOADER_NAME :: u32 where "MULTIBOOT_TAG_TYPE_BOOT_LOADER_NAME = 2"
definition MULTIBOOT_TAG_TYPE_MODULE :: u32 where "MULTIBOOT_TAG_TYPE_MODULE = 3"
definition MULTIBOOT_TAG_TYPE_BASIC_MEMINFO :: u32 where "MULTIBOOT_TAG_TYPE_BASIC_MEMINFO = 4"
definition MULTIBOOT_TAG_TYPE_BOOTDEV :: u32 where "MULTIBOOT_TAG_TYPE_BOOTDEV = 5"
definition MULTIBOOT_TAG_TYPE_MMAP :: u32 where "MULTIBOOT_TAG_TYPE_MMAP = 6"
definition MULTIBOOT_TAG_TYPE_FRAMEBUFFER :: u32 where "MULTIBOOT_TAG_TYPE_FRAMEBUFFER = 8"

definition MULTIBOOT_FRAMEBUFFER_TYPE_INDEXED :: u8 where "MULTIBOOT_FRAMEBUFFER_TYPE_INDEXED = 0"
definition MULTIBOOT_FRAMEBUFFER_TYPE_RGB :: u8 where "MULTIBOOT_FRAMEBUFFER_TYPE_RGB = 1"
definition MULTIBOOT_FRAMEBUFFER_TYPE_EGA_TEXT :: u8 where "MULTIBOOT_FRAMEBUFFER_TYPE_EGA_TEXT = 2"

definition load64 :: "mem \<Rightarrow> u32 \<Rightarrow> 64 word" where
  "load64 m a = ucast (load32 m a) OR push_bit 32 (ucast (load32 m (a + 4)))"

definition tag_type :: "mem \<Rightarrow> u32 \<Rightarrow> u32" where "tag_type m tag = load32 m tag"
definition tag_size :: "mem \<Rightarrow> u32 \<Rightarrow> u32" where "tag_size m tag = load32 m (tag + 4)"

definition string_string :: "u32 \<Rightarrow> u32" where "string_string tag = tag + 8"

definition module_mod_start :: "mem \<Rightarrow> u32 \<Rightarrow> u32" where "module_mod_start m tag = load32 m (tag + 8)"
definition module_mod_end :: "mem \<Rightarrow> u32 \<Rightarrow> u32" where "module_mod_end m tag = load32 m (tag + 12)"
definition module_cmdline :: "u32 \<Rightarrow> u32" where "module_cmdline tag = tag + 16"

definition meminfo_mem_lower :: "mem \<Rightarrow> u32 \<Rightarrow> u32" where "meminfo_mem_lower m tag = load32 m (tag + 8)"
definition meminfo_mem_upper :: "mem \<Rightarrow> u32 \<Rightarrow> u32" where "meminfo_mem_upper m tag = load32 m (tag + 12)"

definition bootdev_biosdev :: "mem \<Rightarrow> u32 \<Rightarrow> u32" where "bootdev_biosdev m tag = load32 m (tag + 8)"
definition bootdev_slice :: "mem \<Rightarrow> u32 \<Rightarrow> u32" where "bootdev_slice m tag = load32 m (tag + 12)"
definition bootdev_part :: "mem \<Rightarrow> u32 \<Rightarrow> u32" where "bootdev_part m tag = load32 m (tag + 16)"

definition mmap_entry_size :: "mem \<Rightarrow> u32 \<Rightarrow> u32" where "mmap_entry_size m tag = load32 m (tag + 8)"
definition mmap_entries :: "u32 \<Rightarrow> u32" where "mmap_entries tag = tag + 16"
definition entry_addr :: "mem \<Rightarrow> u32 \<Rightarrow> 64 word" where "entry_addr m mmap = load64 m mmap"
definition entry_len :: "mem \<Rightarrow> u32 \<Rightarrow> 64 word" where "entry_len m mmap = load64 m (mmap + 8)"
definition entry_type :: "mem \<Rightarrow> u32 \<Rightarrow> u32" where "entry_type m mmap = load32 m (mmap + 16)"

definition framebuffer_addr :: "mem \<Rightarrow> u32 \<Rightarrow> 64 word" where "framebuffer_addr m tag = load64 m (tag + 8)"
definition framebuffer_pitch :: "mem \<Rightarrow> u32 \<Rightarrow> u32" where "framebuffer_pitch m tag = load32 m (tag + 16)"
definition framebuffer_width :: "mem \<Rightarrow> u32 \<Rightarrow> u32" where "framebuffer_width m tag = load32 m (tag + 20)"
definition framebuffer_height :: "mem \<Rightarrow> u32 \<Rightarrow> u32" where "framebuffer_height m tag = load32 m (tag + 24)"
definition framebuffer_bpp :: "mem \<Rightarrow> u32 \<Rightarrow> u8" where "framebuffer_bpp m tag = m (tag + 28)"
definition framebuffer_type :: "mem \<Rightarrow> u32 \<Rightarrow> u8" where "framebuffer_type m tag = m (tag + 29)"
definition framebuffer_palette_num_colors :: "mem \<Rightarrow> u32 \<Rightarrow> u16" where "framebuffer_palette_num_colors m tag = load16 m (tag + 32)"
definition framebuffer_palette :: "u32 \<Rightarrow> u32" where "framebuffer_palette tag = tag + 34"
definition framebuffer_blue_field_position :: "mem \<Rightarrow> u32 \<Rightarrow> u8" where "framebuffer_blue_field_position m tag = m (tag + 36)"
definition framebuffer_blue_mask_size :: "mem \<Rightarrow> u32 \<Rightarrow> u8" where "framebuffer_blue_mask_size m tag = m (tag + 37)"

text \<open>The components of a palette entry of three bytes, as the code widens them.\<close>

definition color_red :: "mem \<Rightarrow> u32 \<Rightarrow> u32 \<Rightarrow> u32" where "color_red m palette i = ucast (m (palette + 3 * i))"
definition color_green :: "mem \<Rightarrow> u32 \<Rightarrow> u32 \<Rightarrow> u32" where "color_green m palette i = ucast (m (palette + 3 * i + 1))"
definition color_blue :: "mem \<Rightarrow> u32 \<Rightarrow> u32 \<Rightarrow> u32" where "color_blue m palette i = ucast (m (palette + 3 * i + 2))"

text \<open>A string in memory, up to its terminator.\<close>

partial_function (option) string_at :: "mem \<Rightarrow> u32 \<Rightarrow> string option" where
  "string_at m a = (if m a = 0 then Some [] else do { r \<leftarrow> string_at m (a + 1); Some (char_of (unat (m a)) # r) })"

section \<open>The walk\<close>

text \<open>0 is the null \<open>mbi_tag_mem\<close>.\<close>

record mbi =
  bytes :: mem
  con :: console
  mbi_tag_mem :: u32

definition mbi_printf :: "string \<Rightarrow> fmt_arg list \<Rightarrow> mbi \<Rightarrow> mbi option" where
  "mbi_printf format args s = do {
     c \<leftarrow> printf format args (con s);
     Some (s\<lparr>con := c\<rparr>) }"

partial_function (option) mmap_loop :: "u32 \<Rightarrow> u32 \<Rightarrow> mbi \<Rightarrow> mbi option" where
  "mmap_loop tag mmap s =
     (if mmap < tag + tag_size (bytes s) tag
      then do {
        s \<leftarrow> mbi_printf ('' base_addr = 0x%x%x, length = 0x%x%x, type = 0x%x'' @ [CHR 0x0A])
          [Num (ucast (drop_bit 32 (entry_addr (bytes s) mmap))), Num (ucast (entry_addr (bytes s) mmap AND 0xffffffff)),
           Num (ucast (drop_bit 32 (entry_len (bytes s) mmap))), Num (ucast (entry_len (bytes s) mmap AND 0xffffffff)),
           Num (entry_type (bytes s) mmap)] s;
        mmap_loop tag (mmap + mmap_entry_size (bytes s) tag) s }
      else Some s)"

text \<open>The palette entry nearest to blue: its index and its distance so far.\<close>

fun best_color_loop :: "mem \<Rightarrow> u32 \<Rightarrow> nat list \<Rightarrow> u32 \<Rightarrow> u32 \<Rightarrow> u32" where
  "best_color_loop m palette [] color best_distance = color"
| "best_color_loop m palette (i # is) color best_distance =
     (let w = word_of_nat i;
          distance = (0xff - color_blue m palette w) * (0xff - color_blue m palette w)
            + color_red m palette w * color_red m palette w + color_green m palette w * color_green m palette w
      in if distance < best_distance then best_color_loop m palette is w distance
         else best_color_loop m palette is color best_distance)"

definition fb_color :: "mem \<Rightarrow> u32 \<Rightarrow> u32" where
  "fb_color m tag =
     (if framebuffer_type m tag = MULTIBOOT_FRAMEBUFFER_TYPE_INDEXED
      then best_color_loop m (framebuffer_palette tag) [0..<unat (framebuffer_palette_num_colors m tag)] 0 (4 * 256 * 256)
      else if framebuffer_type m tag = MULTIBOOT_FRAMEBUFFER_TYPE_RGB
      then push_bit (unat (framebuffer_blue_field_position m tag)) (push_bit (unat (framebuffer_blue_mask_size m tag)) 1 - 1)
      else if framebuffer_type m tag = MULTIBOOT_FRAMEBUFFER_TYPE_EGA_TEXT then 0x5c OR 0x0100
      else 0xffffffff)"

definition paint_pixel :: "u32 \<Rightarrow> u32 \<Rightarrow> u32 \<Rightarrow> u32 \<Rightarrow> mem \<Rightarrow> mem" where
  "paint_pixel tag fb color i m = (
     let bpp = framebuffer_bpp m tag; line = fb + framebuffer_pitch m tag * i
     in if bpp = 8 then m(line + i := ucast color)
        else if bpp = 15 \<or> bpp = 16 then store16 (line + 2 * i) (ucast color) m
        else if bpp = 24 then store32 (line + 3 * i) ((color AND 0xffffff) OR (load32 m (line + 3 * i) AND 0xff000000)) m
        else if bpp = 32 then store32 (line + 4 * i) color m
        else m)"

text \<open>The size of the framebuffer is read again at each pixel.\<close>

partial_function (option) paint_loop :: "u32 \<Rightarrow> u32 \<Rightarrow> u32 \<Rightarrow> u32 \<Rightarrow> mem \<Rightarrow> mem option" where
  "paint_loop tag fb color i m =
     (if i < framebuffer_width m tag \<and> i < framebuffer_height m tag
      then paint_loop tag fb color (i + 1) (paint_pixel tag fb color i m)
      else Some m)"

definition print_tag :: "u32 \<Rightarrow> mbi \<Rightarrow> mbi option" where
  "print_tag tag s = (
     let m = bytes s; ty = tag_type m tag
     in if ty = MULTIBOOT_TAG_TYPE_CMDLINE then do {
       t \<leftarrow> string_at m (string_string tag);
       mbi_printf (''Command line = %s'' @ [CHR 0x0A]) [Str (Some t)] s }
     else if ty = MULTIBOOT_TAG_TYPE_BOOT_LOADER_NAME then do {
       t \<leftarrow> string_at m (string_string tag);
       mbi_printf (''Boot loader name = %s'' @ [CHR 0x0A]) [Str (Some t)] s }
     else if ty = MULTIBOOT_TAG_TYPE_MODULE then do {
       t \<leftarrow> string_at m (module_cmdline tag);
       mbi_printf (''Module at 0x%x-0x%x. Command line %s'' @ [CHR 0x0A])
         [Num (module_mod_start m tag), Num (module_mod_end m tag), Str (Some t)] s }
     else if ty = MULTIBOOT_TAG_TYPE_BASIC_MEMINFO then
       mbi_printf (''mem_lower = %uKB, mem_upper = %uKB'' @ [CHR 0x0A])
         [Num (meminfo_mem_lower m tag), Num (meminfo_mem_upper m tag)] (s\<lparr>mbi_tag_mem := tag\<rparr>)
     else if ty = MULTIBOOT_TAG_TYPE_BOOTDEV then
       mbi_printf (''Boot device 0x%x,%u,%u'' @ [CHR 0x0A])
         [Num (bootdev_biosdev m tag), Num (bootdev_slice m tag), Num (bootdev_part m tag)] s
     else if ty = MULTIBOOT_TAG_TYPE_MMAP then do {
       s \<leftarrow> mbi_printf (''mmap'' @ [CHR 0x0A]) [] s;
       mmap_loop tag (mmap_entries tag) s }
     else if ty = MULTIBOOT_TAG_TYPE_FRAMEBUFFER then do {
       m \<leftarrow> paint_loop tag (ucast (framebuffer_addr m tag)) (fb_color m tag) 0 m;
       Some (s\<lparr>bytes := m\<rparr>) }
     else Some s)"

definition next_tag :: "mem \<Rightarrow> u32 \<Rightarrow> u32" where
  "next_tag m tag = tag + (tag_size m tag + 7 AND NOT 7)"

partial_function (option) mbi_loop :: "u32 \<Rightarrow> mbi \<Rightarrow> (u32 \<times> mbi) option" where
  "mbi_loop tag s =
     (if tag_type (bytes s) tag \<noteq> MULTIBOOT_TAG_TYPE_END
      then do {
        s \<leftarrow> print_tag tag s;
        mbi_loop (next_tag (bytes s) tag) s }
      else Some (tag, s))"

definition mbi_rule :: string where
  "mbi_rule = ''=========================================='' @ [CHR 0x0A]"

definition mbi_end_rule :: string where
  "mbi_end_rule = ''===================================='' @ [CHR 0x0A]"

definition mbi_print :: "u32 \<Rightarrow> u32 \<Rightarrow> mbi \<Rightarrow> mbi option" where
  "mbi_print magic addr s = do {
     s \<leftarrow> mbi_printf mbi_rule [] s;
     s \<leftarrow> mbi_printf (''Print the Multi-Boot Information structure'' @ [CHR 0x0A]) [] s;
     s \<leftarrow> mbi_printf mbi_rule [] s;
     s \<leftarrow> mbi_printf (''Announced mbi size 0x%x'' @ [CHR 0x0A]) [Num (load32 (bytes s) addr)] s;
     (tag, s) \<leftarrow> mbi_loop (addr + 8) s;
     let tag = next_tag (bytes s) tag;
     s \<leftarrow> mbi_printf (''Total mbi size 0x%x'' @ [CHR 0x0A]) [Num (tag - addr)] s;
     s \<leftarrow> mbi_printf mbi_end_rule [] s;
     s \<leftarrow> mbi_printf (''End Multi-Boot Information structure'' @ [CHR 0x0A]) [] s;
     mbi_printf mbi_end_rule [] s }"

end
