(* ===== verification/Multiboot_props.thy ===== *)
theory Multiboot_props
  imports Multiboot Kformat_props
begin

text \<open>
  The walk over the Multiboot tags: it returns on well-formed information and keeps the last memory size, writes only the pixels of the
  framebuffer, and never ends on tags or memory maps without a size.
\<close>

section \<open>Printing\<close>

lemma mbi_printf_some: "printf_text fmt args = Some t \<Longrightarrow> mbi_printf fmt args s = Some (s\<lparr>con := fold putchar t (con s)\<rparr>)"
  by (simp add: mbi_printf_def printf_def printf_loop_text)

lemma mbi_printf_ok: "\<exists>t. printf_text fmt args = Some t \<Longrightarrow> \<exists>c. mbi_printf fmt args s = Some (s\<lparr>con := c\<rparr>)"
  using mbi_printf_some by blast

lemma mbi_printf_keeps: "mbi_printf fmt args s = Some s' \<Longrightarrow> bytes s' = bytes s \<and> mbi_tag_mem s' = mbi_tag_mem s"
  by (auto simp: mbi_printf_def bind_eq_Some_conv)

lemma plain_text: "CHR ''%'' \<notin> set fmt \<Longrightarrow> \<exists>t. printf_text fmt [] = Some t"
  by (induction fmt) auto

lemma mbi_formats:
  "\<exists>t. printf_text ('' base_addr = 0x%x%x, length = 0x%x%x, type = 0x%x'' @ [CHR 0x0A]) [Num a, Num b, Num c, Num d, Num e] = Some t"
  "\<exists>t. printf_text (''Command line = %s'' @ [CHR 0x0A]) [Str (Some p)] = Some t"
  "\<exists>t. printf_text (''Boot loader name = %s'' @ [CHR 0x0A]) [Str (Some p)] = Some t"
  "\<exists>t. printf_text (''Module at 0x%x-0x%x. Command line %s'' @ [CHR 0x0A]) [Num a, Num b, Str (Some p)] = Some t"
  "\<exists>t. printf_text (''mem_lower = %uKB, mem_upper = %uKB'' @ [CHR 0x0A]) [Num a, Num b] = Some t"
  "\<exists>t. printf_text (''Boot device 0x%x,%u,%u'' @ [CHR 0x0A]) [Num a, Num b, Num c] = Some t"
  "\<exists>t. printf_text (''Announced mbi size 0x%x'' @ [CHR 0x0A]) [Num a] = Some t"
  "\<exists>t. printf_text (''Total mbi size 0x%x'' @ [CHR 0x0A]) [Num a] = Some t"
  by (simp_all add: conversion.simps Let_def)

lemma mbi_texts:
  "\<exists>t. printf_text (''mmap'' @ [CHR 0x0A]) [] = Some t" "\<exists>t. printf_text mbi_rule [] = Some t" "\<exists>t. printf_text mbi_end_rule [] = Some t"
  "\<exists>t. printf_text (''Print the Multi-Boot Information structure'' @ [CHR 0x0A]) [] = Some t"
  "\<exists>t. printf_text (''End Multi-Boot Information structure'' @ [CHR 0x0A]) [] = Some t"
  by (rule plain_text; simp add: mbi_rule_def mbi_end_rule_def)+

section \<open>Blocks of memory\<close>

definition block :: "u32 \<Rightarrow> nat \<Rightarrow> u32 set" where
  "block a n = (\<lambda>k. a + word_of_nat k) ` {..<n}"

lemma block_mem [intro]: "k < n \<Longrightarrow> a + word_of_nat k \<in> block a n"
  by (auto simp: block_def)

lemma block_mem_numeral:
  "0 < n \<Longrightarrow> a \<in> block a n" "1 < n \<Longrightarrow> a + 1 \<in> block a n" "numeral k < n \<Longrightarrow> a + numeral k \<in> block a n"
  using block_mem [of 0 n a] block_mem [of 1 n a] block_mem [of "numeral k" n a] by simp_all

lemma same_load32:
  assumes "\<forall>x \<in> R. m' x = m x" "block t n \<subseteq> R" "k + 4 \<le> n" "a = t + word_of_nat k"
  shows "load32 m' a = load32 m a"
proof -
  have "m' (a + word_of_nat j) = m (a + word_of_nat j)" if "j < 4" for j
  proof -
    have "a + word_of_nat j = t + word_of_nat (k + j)" by (simp add: assms(4))
    then have "a + word_of_nat j \<in> block t n" using block_mem [of "k + j" n t] assms(3) that by (simp add: add.assoc)
    then show ?thesis using assms(1,2) by blast
  qed
  from this [of 0] this [of 1] this [of 2] this [of 3] show ?thesis by (simp add: load32_def)
qed

lemma same_byte:
  assumes "\<forall>x \<in> R. m' x = m x" "block t n \<subseteq> R" "k < n" "a = t + word_of_nat k"
  shows "m' a = m a"
  using assms block_mem [of k n t] by blast

section \<open>Strings\<close>

definition ends :: "u32 set \<Rightarrow> mem \<Rightarrow> u32 \<Rightarrow> bool" where
  "ends R m a \<longleftrightarrow> (\<exists>n. block a (Suc n) \<subseteq> R \<and> m (a + word_of_nat n) = 0)"

lemma string_returns: "m (a + word_of_nat n) = 0 \<Longrightarrow> \<exists>t. string_at m a = Some t"
proof (induction n arbitrary: a)
  case 0
  then show ?case by (simp add: string_at.simps)
next
  case (Suc n)
  then have "m ((a + 1) + word_of_nat n) = 0" by (simp add: algebra_simps)
  from Suc.IH [OF this] show ?case by (subst string_at.simps) auto
qed

lemma ends_returns: "ends R m a \<Longrightarrow> \<exists>t. string_at m a = Some t"
  using string_returns by (auto simp: ends_def)

lemma ends_cong: "\<forall>x \<in> R. m' x = m x \<Longrightarrow> ends R m' a = ends R m a"
  by (auto simp: ends_def) (metis block_mem lessI subsetD)+

section \<open>The framebuffer\<close>

text \<open>The bytes that painting a pixel writes.\<close>

definition pixel_bytes :: "mem \<Rightarrow> u32 \<Rightarrow> u32 \<Rightarrow> u32 set" where
  "pixel_bytes m tag i = (
     let bpp = framebuffer_bpp m tag; line = ucast (framebuffer_addr m tag) + framebuffer_pitch m tag * i
     in if bpp = 8 then block (line + i) 1
        else if bpp = 15 \<or> bpp = 16 then block (line + 2 * i) 2
        else if bpp = 24 then block (line + 3 * i) 4
        else if bpp = 32 then block (line + 4 * i) 4
        else {})"

definition painted :: "mem \<Rightarrow> u32 \<Rightarrow> u32 set" where
  "painted m tag = (\<Union>i \<in> {i. i < framebuffer_width m tag \<and> i < framebuffer_height m tag}. pixel_bytes m tag i)"

lemma block_small: "block a 1 = {a}" "block a (Suc 0) = {a}" "block a 2 = {a, a + 1}" "block a 4 = {a, a + 1, a + 2, a + 3}"
  by (auto simp: block_def lessThan_nat_numeral lessThan_Suc numeral_eq_Suc)

lemma store_outside:
  "x \<notin> block a 1 \<Longrightarrow> (m(a := v)) x = m x" "x \<notin> block a 2 \<Longrightarrow> store16 a w m x = m x" "x \<notin> block a 4 \<Longrightarrow> store32 a d m x = m x"
  by (simp_all add: block_small store16_def store32_def)

lemma paint_pixel_outside:
  assumes fb: "fb = ucast (framebuffer_addr m0 tag)" and e: "framebuffer_bpp m tag = framebuffer_bpp m0 tag"
    "framebuffer_pitch m tag = framebuffer_pitch m0 tag" and x: "x \<notin> pixel_bytes m0 tag i"
  shows "paint_pixel tag fb color i m x = m x"
proof -
  define line where "line = fb + framebuffer_pitch m0 tag * i"
  have n: "x \<notin> (if framebuffer_bpp m0 tag = 8 then block (line + i) 1
        else if framebuffer_bpp m0 tag = 15 \<or> framebuffer_bpp m0 tag = 16 then block (line + 2 * i) 2
        else if framebuffer_bpp m0 tag = 24 then block (line + 3 * i) 4
        else if framebuffer_bpp m0 tag = 32 then block (line + 4 * i) 4
        else {})" using x unfolding pixel_bytes_def Let_def line_def fb .
  define b where "b = framebuffer_bpp m0 tag"
  note n = n [folded b_def]
  have p: "paint_pixel tag fb color i m =
     (if b = 8 then m(line + i := ucast color)
        else if b = 15 \<or> b = 16 then store16 (line + 2 * i) (ucast color) m
        else if b = 24 then store32 (line + 3 * i) ((color AND 0xffffff) OR (load32 m (line + 3 * i) AND 0xff000000)) m
        else if b = 32 then store32 (line + 4 * i) color m
        else m)"
    unfolding paint_pixel_def Let_def e line_def b_def ..
  consider "b = 8" | "b \<noteq> 8" "b = 15 \<or> b = 16" | "b = 24" | "b = 32" | "b \<noteq> 8" "\<not> (b = 15 \<or> b = 16)" "b \<noteq> 24" "b \<noteq> 32"
    by blast
  then show ?thesis
  proof cases
    case 1
    then show ?thesis using n unfolding p by (simp add: block_small)
  next
    case 2
    then show ?thesis using n unfolding p by (simp only: if_False if_True simp_thms store_outside)
  next
    case 3
    then show ?thesis using n unfolding p by (simp add: store_outside)
  next
    case 4
    then show ?thesis using n unfolding p by (simp add: store_outside)
  next
    case 5
    then show ?thesis unfolding p by (simp only: if_False)
  qed
qed

text \<open>The fields that the loop reads, when nothing is painted over them.\<close>

lemma fb_fields:
  assumes "\<forall>x \<in> R. m' x = m x" "block tag 38 \<subseteq> R"
  shows "framebuffer_addr m' tag = framebuffer_addr m tag" "framebuffer_pitch m' tag = framebuffer_pitch m tag"
    "framebuffer_width m' tag = framebuffer_width m tag" "framebuffer_height m' tag = framebuffer_height m tag"
    "framebuffer_bpp m' tag = framebuffer_bpp m tag"
  using same_load32 [OF assms, of 8 "tag + 8"] same_load32 [OF assms, of 12 "tag + 8 + 4"] same_load32 [OF assms, of 16 "tag + 16"]
    same_load32 [OF assms, of 20 "tag + 20"] same_load32 [OF assms, of 24 "tag + 24"] same_byte [OF assms, of 28 "tag + 28"]
  by (simp_all add: framebuffer_addr_def load64_def framebuffer_pitch_def framebuffer_width_def framebuffer_height_def framebuffer_bpp_def
      add.assoc)

lemma paint_loop_returns:
  assumes R: "block tag 38 \<subseteq> R" "painted m0 tag \<inter> R = {}" and m: "\<forall>x. x \<notin> painted m0 tag \<longrightarrow> m x = m0 x"
    and fb: "fb = ucast (framebuffer_addr m0 tag)"
  shows "\<exists>m'. paint_loop tag fb color i m = Some m' \<and> (\<forall>x. x \<notin> painted m0 tag \<longrightarrow> m' x = m0 x)"
  using m
proof (induction "unat (framebuffer_width m0 tag) - unat i" arbitrary: i m rule: less_induct)
  case less
  have "\<forall>x \<in> R. m x = m0 x" using less.prems R(2) by blast
  note F = fb_fields [OF this R(1)]
  show ?case
  proof (cases "i < framebuffer_width m0 tag \<and> i < framebuffer_height m0 tag")
    case False
    then have "paint_loop tag fb color i m = Some m" by (subst paint_loop.simps) (auto simp: F)
    then show ?thesis using less.prems by blast
  next
    case True
    let ?m = "paint_pixel tag fb color i m"
    have "pixel_bytes m0 tag i \<subseteq> painted m0 tag" using True by (auto simp: painted_def)
    then have m': "\<forall>x. x \<notin> painted m0 tag \<longrightarrow> ?m x = m0 x"
      using paint_pixel_outside [OF fb F(5,2)] less.prems by (metis subsetD)
    have l: "unat i < unat (framebuffer_width m0 tag)" using True by (simp add: word_less_nat_alt)
    then have "unat (i + 1) = unat i + 1" using unsigned_less [of "framebuffer_width m0 tag", where 'a = nat]
      by (subst unat_add_lem [THEN iffD1]) simp_all
    then have "unat (framebuffer_width m0 tag) - unat (i + 1) < unat (framebuffer_width m0 tag) - unat i" using l by simp
    from less.hyps [OF this m'] obtain m'' where "paint_loop tag fb color (i + 1) ?m = Some m''" "\<forall>x. x \<notin> painted m0 tag \<longrightarrow> m'' x = m0 x" by blast
    moreover have "paint_loop tag fb color i m = paint_loop tag fb color (i + 1) ?m"
      using True by (subst paint_loop.simps) (simp add: F)
    ultimately show ?thesis by simp
  qed
qed

section \<open>The memory map\<close>

lemma mmap_loop_returns:
  assumes "mmap_entry_size (bytes s) tag \<noteq> 0"
    and "unat tag + unat (tag_size (bytes s) tag) + unat (mmap_entry_size (bytes s) tag) < 2 ^ 32"
  shows "\<exists>c. mmap_loop tag mmap s = Some (s\<lparr>con := c\<rparr>)"
  using assms
proof (induction "unat (tag + tag_size (bytes s) tag) - unat mmap" arbitrary: mmap s rule: less_induct)
  case less
  let ?e = "mmap_entry_size (bytes s) tag" and ?stop = "tag + tag_size (bytes s) tag"
  show ?case
  proof (cases "mmap < ?stop")
    case False
    then have "mmap_loop tag mmap s = Some (s\<lparr>con := con s\<rparr>)" by (subst mmap_loop.simps) simp
    then show ?thesis by blast
  next
    case True
    have st: "unat ?stop = unat tag + unat (tag_size (bytes s) tag)" using less.prems(2) by (intro unat_add_lem [THEN iffD1]) simp
    have l: "unat mmap < unat ?stop" using True by (simp add: word_less_nat_alt)
    have "unat (mmap + ?e) = unat mmap + unat ?e" using l st less.prems(2) by (intro unat_add_lem [THEN iffD1]) simp
    moreover have "0 < unat ?e" using less.prems(1) by (simp add: unat_gt_0)
    ultimately have d: "unat ?stop - unat (mmap + ?e) < unat ?stop - unat mmap" using l by simp
    obtain c where c: "mbi_printf ('' base_addr = 0x%x%x, length = 0x%x%x, type = 0x%x'' @ [CHR 0x0A])
          [Num (ucast (drop_bit 32 (entry_addr (bytes s) mmap))), Num (ucast (entry_addr (bytes s) mmap AND 0xffffffff)),
           Num (ucast (drop_bit 32 (entry_len (bytes s) mmap))), Num (ucast (entry_len (bytes s) mmap AND 0xffffffff)),
           Num (entry_type (bytes s) mmap)] s = Some (s\<lparr>con := c\<rparr>)"
      using mbi_printf_ok [OF mbi_formats(1)] by blast
    let ?s = "s\<lparr>con := c\<rparr>"
    have "\<exists>c'. mmap_loop tag (mmap + ?e) ?s = Some (?s\<lparr>con := c'\<rparr>)"
      using less.hyps [of ?s "mmap + ?e"] d less.prems by simp
    moreover have "mmap_loop tag mmap s = mmap_loop tag (mmap + ?e) ?s" using True c by (subst mmap_loop.simps) simp
    ultimately show ?thesis by auto
  qed
qed

section \<open>The tags\<close>

text \<open>What a tag needs for the walk to get past it, with its fields in \<open>R\<close> and nothing painted there.\<close>

definition tag_ok :: "u32 set \<Rightarrow> mem \<Rightarrow> u32 \<Rightarrow> bool" where
  "tag_ok R m t \<longleftrightarrow>
     (tag_type m t = MULTIBOOT_TAG_TYPE_CMDLINE \<or> tag_type m t = MULTIBOOT_TAG_TYPE_BOOT_LOADER_NAME \<longrightarrow> ends R m (string_string t)) \<and>
     (tag_type m t = MULTIBOOT_TAG_TYPE_MODULE \<longrightarrow> ends R m (module_cmdline t)) \<and>
     (tag_type m t = MULTIBOOT_TAG_TYPE_MMAP \<longrightarrow> block t 16 \<subseteq> R \<and> mmap_entry_size m t \<noteq> 0 \<and>
        unat t + unat (tag_size m t) + unat (mmap_entry_size m t) < 2 ^ 32) \<and>
     (tag_type m t = MULTIBOOT_TAG_TYPE_FRAMEBUFFER \<longrightarrow> block t 38 \<subseteq> R \<and> painted m t \<inter> R = {})"

text \<open>The address of the tag after one: its size is rounded up to a multiple of 8, and addresses wrap around.\<close>

definition tag_after :: "mem \<Rightarrow> u32 \<Rightarrow> u32" where
  "tag_after m tag = word_of_nat (unat tag + (unat (tag_size m tag) + 7) div 8 * 8)"

lemma next_tag_after: "next_tag m tag = tag_after m tag"
proof -
  let ?w = "tag_size m tag"
  have a: "unat (w AND NOT 7) = unat w div 8 * 8" for w :: u32 using unat_align_inf [of w 3] by (simp add: SOS_ALIGN_INF_def)
  have "(unat ?w + 7) div 8 * 8 mod 2 ^ 32 = (unat ?w + 7) mod 2 ^ 32 div 8 * 8"
  proof (cases "unat ?w + 7 < 2 ^ 32")
    case True
    moreover have "(unat ?w + 7) div 8 * 8 \<le> unat ?w + 7" by simp
    ultimately have "(unat ?w + 7) div 8 * 8 < 2 ^ 32" by linarith
    then show ?thesis using True by (simp only: mod_less)
  next
    case False
    then obtain d where d: "unat ?w + 7 = 2 ^ 32 + d" using nat_le_iff_add [of "2 ^ 32" "unat ?w + 7"] by auto
    moreover have "unat ?w < 2 ^ 32" using unsigned_less [of ?w, where 'a = nat] by simp
    ultimately have "d < 8" by simp
    then have "(unat ?w + 7) div 8 = 2 ^ 29" "(unat ?w + 7) mod 2 ^ 32 = d" by (simp_all add: d)
    then show ?thesis using \<open>d < 8\<close> by simp
  qed
  moreover have "unat (?w + 7) = (unat ?w + 7) mod 2 ^ 32" by (simp add: unat_word_ariths)
  moreover have "unat (word_of_nat n :: u32) = n mod 2 ^ 32" for n by (simp add: unat_of_nat take_bit_eq_mod)
  ultimately have "(?w + 7) AND NOT 7 = word_of_nat ((unat ?w + 7) div 8 * 8)" by (simp only: word_unat_eq_iff a)
  then show ?thesis by (simp add: next_tag_def tag_after_def)
qed

fun tags_in :: "u32 set \<Rightarrow> mem \<Rightarrow> u32 \<Rightarrow> u32 list \<Rightarrow> bool" where
  "tags_in R m tag [] \<longleftrightarrow> block tag 8 \<subseteq> R \<and> tag_type m tag = MULTIBOOT_TAG_TYPE_END"
| "tags_in R m tag (t # ts) \<longleftrightarrow> t = tag \<and> block tag 8 \<subseteq> R \<and> tag_type m tag \<noteq> MULTIBOOT_TAG_TYPE_END \<and> tag_ok R m tag \<and>
     tags_in R m (tag_after m tag) ts"

lemma same_header:
  assumes "\<forall>x \<in> R. m' x = m x" "block t 8 \<subseteq> R"
  shows "tag_type m' t = tag_type m t" "tag_size m' t = tag_size m t" "next_tag m' t = next_tag m t" "tag_after m' t = tag_after m t"
  using same_load32 [OF assms, of 0 t] same_load32 [OF assms, of 4 "t + 4"] by (simp_all add: tag_type_def tag_size_def next_tag_def tag_after_def)

lemma block_mono: "k \<le> n \<Longrightarrow> block a n \<subseteq> R \<Longrightarrow> block a k \<subseteq> R"
  by (auto simp: block_def)

lemma painted_cong:
  assumes "\<forall>x \<in> R. m' x = m x" "block t 38 \<subseteq> R"
  shows "painted m' t = painted m t"
  by (simp add: painted_def pixel_bytes_def fb_fields [OF assms])

lemma tag_ok_cong:
  assumes R: "\<forall>x \<in> R. m' x = m x" "block t 8 \<subseteq> R" and t: "tag_ok R m t"
  shows "tag_ok R m' t"
proof -
  note H = same_header [OF R]
  have "mmap_entry_size m' t = mmap_entry_size m t" if "block t 16 \<subseteq> R"
    using same_load32 [OF R(1) that, of 8 "t + 8"] by (simp add: mmap_entry_size_def)
  then show ?thesis using t ends_cong [OF R(1)] painted_cong [OF R(1)] unfolding tag_ok_def H by auto
qed

lemma tags_in_cong: "\<forall>x \<in> R. m' x = m x \<Longrightarrow> tags_in R m tag ts \<Longrightarrow> tags_in R m' tag ts"
proof (induction ts arbitrary: tag)
  case Nil
  then show ?case using same_header [OF Nil(1)] by simp
next
  case (Cons t ts)
  then have b: "block tag 8 \<subseteq> R" by simp
  show ?case using Cons tag_ok_cong [OF Cons.prems(1) b] by (simp add: same_header [OF Cons.prems(1) b])
qed

definition is_meminfo :: "mem \<Rightarrow> u32 \<Rightarrow> bool" where
  "is_meminfo m t \<longleftrightarrow> tag_type m t = MULTIBOOT_TAG_TYPE_BASIC_MEMINFO"

lemmas tag_types = MULTIBOOT_TAG_TYPE_END_def MULTIBOOT_TAG_TYPE_CMDLINE_def MULTIBOOT_TAG_TYPE_BOOT_LOADER_NAME_def MULTIBOOT_TAG_TYPE_MODULE_def
  MULTIBOOT_TAG_TYPE_BASIC_MEMINFO_def MULTIBOOT_TAG_TYPE_BOOTDEV_def MULTIBOOT_TAG_TYPE_MMAP_def MULTIBOOT_TAG_TYPE_FRAMEBUFFER_def

lemma print_tag_returns:
  assumes "tag_ok R (bytes s) t" "block t 8 \<subseteq> R"
  shows "\<exists>s'. print_tag t s = Some s' \<and> mbi_tag_mem s' = (if is_meminfo (bytes s) t then t else mbi_tag_mem s) \<and>
    (\<forall>x. (tag_type (bytes s) t = MULTIBOOT_TAG_TYPE_FRAMEBUFFER \<longrightarrow> x \<notin> painted (bytes s) t) \<longrightarrow> bytes s' x = bytes s x) \<and>
    (\<forall>x \<in> R. bytes s' x = bytes s x)"
proof -
  have printed: ?thesis if "print_tag t s = mbi_printf fmt args (s\<lparr>mbi_tag_mem := n\<rparr>)" "\<exists>u. printf_text fmt args = Some u"
    "n = (if is_meminfo (bytes s) t then t else mbi_tag_mem s)" for fmt args n
    using mbi_printf_ok [OF that(2), of "s\<lparr>mbi_tag_mem := n\<rparr>"] that(1,3) by auto
  have same: "s = s\<lparr>mbi_tag_mem := mbi_tag_mem s\<rparr>" by simp
  consider (line) "tag_type (bytes s) t = MULTIBOOT_TAG_TYPE_CMDLINE" | (loader) "tag_type (bytes s) t = MULTIBOOT_TAG_TYPE_BOOT_LOADER_NAME"
    | (module) "tag_type (bytes s) t = MULTIBOOT_TAG_TYPE_MODULE" | (meminfo) "tag_type (bytes s) t = MULTIBOOT_TAG_TYPE_BASIC_MEMINFO"
    | (bootdev) "tag_type (bytes s) t = MULTIBOOT_TAG_TYPE_BOOTDEV" | (mmap) "tag_type (bytes s) t = MULTIBOOT_TAG_TYPE_MMAP"
    | (fb) "tag_type (bytes s) t = MULTIBOOT_TAG_TYPE_FRAMEBUFFER"
    | (other) "tag_type (bytes s) t \<noteq> MULTIBOOT_TAG_TYPE_CMDLINE" "tag_type (bytes s) t \<noteq> MULTIBOOT_TAG_TYPE_BOOT_LOADER_NAME"
      "tag_type (bytes s) t \<noteq> MULTIBOOT_TAG_TYPE_MODULE" "tag_type (bytes s) t \<noteq> MULTIBOOT_TAG_TYPE_BASIC_MEMINFO"
      "tag_type (bytes s) t \<noteq> MULTIBOOT_TAG_TYPE_BOOTDEV" "tag_type (bytes s) t \<noteq> MULTIBOOT_TAG_TYPE_MMAP"
      "tag_type (bytes s) t \<noteq> MULTIBOOT_TAG_TYPE_FRAMEBUFFER"
    by blast
  then show ?thesis
  proof cases
    case line
    then obtain u where "string_at (bytes s) (string_string t) = Some u" using assms(1) unfolding tag_ok_def by (blast dest: ends_returns)
    with line show ?thesis
      by (intro printed [where n = "mbi_tag_mem s", OF _ mbi_formats(2)]) (simp_all add: print_tag_def Let_def is_meminfo_def tag_types)
  next
    case loader
    then obtain u where "string_at (bytes s) (string_string t) = Some u" using assms(1) unfolding tag_ok_def by (blast dest: ends_returns)
    with loader show ?thesis
      by (intro printed [where n = "mbi_tag_mem s", OF _ mbi_formats(3)]) (simp_all add: print_tag_def Let_def is_meminfo_def tag_types)
  next
    case module
    then obtain u where "string_at (bytes s) (module_cmdline t) = Some u" using assms(1) unfolding tag_ok_def by (blast dest: ends_returns)
    with module show ?thesis
      by (intro printed [where n = "mbi_tag_mem s", OF _ mbi_formats(4)]) (simp_all add: print_tag_def Let_def is_meminfo_def tag_types)
  next
    case meminfo
    then show ?thesis
      by (intro printed [where n = t, OF _ mbi_formats(5)]) (simp_all add: print_tag_def Let_def is_meminfo_def tag_types)
  next
    case bootdev
    then show ?thesis
      by (intro printed [where n = "mbi_tag_mem s", OF _ mbi_formats(6)]) (simp_all add: print_tag_def Let_def is_meminfo_def tag_types)
  next
    case mmap
    obtain c where c: "mbi_printf (''mmap'' @ [CHR 0x0A]) [] s = Some (s\<lparr>con := c\<rparr>)" using mbi_printf_ok [OF mbi_texts(1)] by blast
    have "mmap_entry_size (bytes (s\<lparr>con := c\<rparr>)) t \<noteq> 0"
      "unat t + unat (tag_size (bytes (s\<lparr>con := c\<rparr>)) t) + unat (mmap_entry_size (bytes (s\<lparr>con := c\<rparr>)) t) < 2 ^ 32"
      using assms(1) mmap by (simp_all add: tag_ok_def tag_types)
    from mmap_loop_returns [OF this] obtain c' where "mmap_loop t (mmap_entries t) (s\<lparr>con := c\<rparr>) = Some (s\<lparr>con := c'\<rparr>)" by auto
    then show ?thesis using mmap c by (auto simp: print_tag_def Let_def is_meminfo_def tag_types)
  next
    case fb
    have "block t 38 \<subseteq> R" "painted (bytes s) t \<inter> R = {}" using assms(1) fb by (simp_all add: tag_ok_def tag_types)
    from paint_loop_returns [OF this _ refl, of "bytes s" "fb_color (bytes s) t" 0]
    obtain m' where m': "paint_loop t (ucast (framebuffer_addr (bytes s) t)) (fb_color (bytes s) t) 0 (bytes s) = Some m'"
      "\<forall>x. x \<notin> painted (bytes s) t \<longrightarrow> m' x = bytes s x" by blast
    then have "print_tag t s = Some (s\<lparr>bytes := m'\<rparr>)" using fb by (simp add: print_tag_def Let_def tag_types)
    then show ?thesis using m'(2) fb \<open>painted (bytes s) t \<inter> R = {}\<close> by (auto simp: is_meminfo_def tag_types)
  next
    case other
    then show ?thesis by (simp add: print_tag_def Let_def is_meminfo_def)
  qed
qed

lemma mbi_loop_returns:
  "tags_in R (bytes s) tag ts \<Longrightarrow> \<exists>e s'. mbi_loop tag s = Some (e, s') \<and> (\<forall>x \<in> R. bytes s' x = bytes s x) \<and>
     (\<forall>x. (\<forall>t \<in> set ts. tag_type (bytes s) t = MULTIBOOT_TAG_TYPE_FRAMEBUFFER \<longrightarrow> x \<notin> painted (bytes s) t) \<longrightarrow> bytes s' x = bytes s x) \<and>
     mbi_tag_mem s' = (case rev (filter (is_meminfo (bytes s)) ts) of [] \<Rightarrow> mbi_tag_mem s | t # _ \<Rightarrow> t)"
proof (induction ts arbitrary: tag s)
  case Nil
  then have "mbi_loop tag s = Some (tag, s)" by (subst mbi_loop.simps) simp
  then show ?case by simp
next
  case (Cons t ts)
  have t: "t = tag" "block tag 8 \<subseteq> R" "tag_type (bytes s) tag \<noteq> MULTIBOOT_TAG_TYPE_END" "tag_ok R (bytes s) tag"
    "tags_in R (bytes s) (next_tag (bytes s) tag) ts" using Cons.prems by (simp_all add: next_tag_after)
  obtain s1 where s1: "print_tag tag s = Some s1" "mbi_tag_mem s1 = (if is_meminfo (bytes s) tag then tag else mbi_tag_mem s)"
    "\<forall>x. (tag_type (bytes s) tag = MULTIBOOT_TAG_TYPE_FRAMEBUFFER \<longrightarrow> x \<notin> painted (bytes s) tag) \<longrightarrow> bytes s1 x = bytes s x"
    "\<forall>x \<in> R. bytes s1 x = bytes s x"
    using print_tag_returns [OF t(4,2)] by blast
  have l: "mbi_loop tag s = mbi_loop (next_tag (bytes s) tag) s1"
    using t(3) s1(1) same_header(3) [OF s1(4) t(2)] by (subst mbi_loop.simps) simp
  obtain e s' where s': "mbi_loop (next_tag (bytes s) tag) s1 = Some (e, s')" "\<forall>x \<in> R. bytes s' x = bytes s1 x"
    "\<forall>x. (\<forall>t \<in> set ts. tag_type (bytes s1) t = MULTIBOOT_TAG_TYPE_FRAMEBUFFER \<longrightarrow> x \<notin> painted (bytes s1) t) \<longrightarrow> bytes s' x = bytes s1 x"
    "mbi_tag_mem s' = (case rev (filter (is_meminfo (bytes s1)) ts) of [] \<Rightarrow> mbi_tag_mem s1 | t # _ \<Rightarrow> t)"
    using Cons.IH [OF tags_in_cong [OF s1(4) t(5)]] by blast
  have in_R: "block u 8 \<subseteq> R \<and> tag_ok R (bytes s) u" if "u \<in> set us" "tags_in R (bytes s) v us" for u us v
    using that by (induction us arbitrary: v) auto
  have ty: "tag_type (bytes s1) u = tag_type (bytes s) u \<and>
      (tag_type (bytes s) u = MULTIBOOT_TAG_TYPE_FRAMEBUFFER \<longrightarrow> painted (bytes s1) u = painted (bytes s) u)" if "u \<in> set ts" for u
    using in_R [OF that t(5)] same_header(1) [OF s1(4)] painted_cong [OF s1(4)] by (simp add: tag_ok_def)
  then have "filter (is_meminfo (bytes s1)) ts = filter (is_meminfo (bytes s)) ts" by (intro filter_cong) (simp_all add: is_meminfo_def)
  then have "mbi_tag_mem s' = (case rev (filter (is_meminfo (bytes s)) (t # ts)) of [] \<Rightarrow> mbi_tag_mem s | t # _ \<Rightarrow> t)"
    using s'(4) s1(2) t(1) by (auto split: list.splits)
  moreover have "bytes s' x = bytes s x"
    if "\<forall>t \<in> set (t # ts). tag_type (bytes s) t = MULTIBOOT_TAG_TYPE_FRAMEBUFFER \<longrightarrow> x \<notin> painted (bytes s) t" for x
    using that s'(3) s1(3) ty t(1) by simp
  ultimately show ?case using l s'(1,2) s1(4) by auto
qed

section \<open>Walks that never end\<close>

lemma print_tag_keeps:
  assumes "print_tag t s = Some s'" "tag_type (bytes s) t \<noteq> MULTIBOOT_TAG_TYPE_FRAMEBUFFER"
  shows "bytes s' = bytes s"
proof -
  have mm: "mmap_loop tag mmap s = Some s' \<Longrightarrow> bytes s' = bytes s" for tag mmap s s'
  proof (rule mmap_loop.raw_induct [where P = "\<lambda>tag mmap s s'. bytes s' = bytes s"], goal_cases)
    case (1 rec tag mmap s r)
    then show ?case by (fastforce simp: bind_eq_Some_conv dest: mbi_printf_keeps split: if_splits)
  qed simp
  show ?thesis using assms mm
    by (auto simp: print_tag_def Let_def bind_eq_Some_conv dest!: mbi_printf_keeps split: if_splits)
qed

lemma mmap_loop_stuck:
  assumes "mmap_loop tag mmap s = Some s'"
  shows "\<not> (mmap < tag + tag_size (bytes s) tag \<and> mmap_entry_size (bytes s) tag = 0)"
proof (rule mmap_loop.raw_induct [where P = "\<lambda>tag mmap s s'. \<not> (mmap < tag + tag_size (bytes s) tag \<and> mmap_entry_size (bytes s) tag = 0)",
      OF _ assms], goal_cases)
  case (1 rec tag mmap s r)
  show ?case
  proof
    assume z: "mmap < tag + tag_size (bytes s) tag \<and> mmap_entry_size (bytes s) tag = 0"
    then obtain s1 where s1: "bytes s1 = bytes s" "rec tag mmap s1 = Some r"
      using 1(2) by (auto simp: bind_eq_Some_conv dest: mbi_printf_keeps)
    then show False using 1(1) [OF s1(2)] z by simp
  qed
qed

lemma mbi_loop_stuck:
  assumes "mbi_loop tag s = Some r"
  shows "\<not> (tag_type (bytes s) tag \<noteq> MULTIBOOT_TAG_TYPE_END \<and> tag_type (bytes s) tag \<noteq> MULTIBOOT_TAG_TYPE_FRAMEBUFFER \<and>
    next_tag (bytes s) tag = tag)"
proof (rule mbi_loop.raw_induct [where P = "\<lambda>tag s r. \<not> (tag_type (bytes s) tag \<noteq> MULTIBOOT_TAG_TYPE_END \<and>
    tag_type (bytes s) tag \<noteq> MULTIBOOT_TAG_TYPE_FRAMEBUFFER \<and> next_tag (bytes s) tag = tag)", OF _ assms], goal_cases)
  case (1 rec tag s r)
  show ?case
  proof
    assume z: "tag_type (bytes s) tag \<noteq> MULTIBOOT_TAG_TYPE_END \<and> tag_type (bytes s) tag \<noteq> MULTIBOOT_TAG_TYPE_FRAMEBUFFER \<and>
      next_tag (bytes s) tag = tag"
    then obtain s1 where s1: "print_tag tag s = Some s1" "rec (next_tag (bytes s1) tag) s1 = Some r"
      using 1(2) by (auto simp: bind_eq_Some_conv)
    have "bytes s1 = bytes s" using print_tag_keeps s1(1) z by blast
    then show False using 1(1) [OF s1(2)] z by simp
  qed
qed

lemma no_next_tag: "tag_size m t = 0 \<or> unat (tag_size m t) > 2 ^ 32 - 8 \<Longrightarrow> next_tag m t = t"
proof (cases "tag_size m t = 0")
  case False
  assume "tag_size m t = 0 \<or> unat (tag_size m t) > 2 ^ 32 - 8"
  then have "unat (tag_size m t) > 2 ^ 32 - 8" using False by blast
  moreover have "unat (tag_size m t) < 2 ^ 32" using unsigned_less [of "tag_size m t", where 'a = nat] by simp
  ultimately have "(unat (tag_size m t) + 7) div 8 = 2 ^ 29" by simp
  then show ?thesis by (simp add: next_tag_after tag_after_def)
qed (simp add: next_tag_after tag_after_def)

section \<open>Properties\<close>

text \<open>
  C36: On information whose tags end with an end tag, whose strings end, whose memory map has entries of a size that is not
  zero and does not overflow, and whose framebuffer lies elsewhere, the walk returns. \<open>mbi_tag_mem\<close> is then the last
  tag of the memory size, unchanged when there is none, and nothing but the pixels of the framebuffer has been written.
\<close>

theorem mbi_print_sound:
  assumes "tags_in R (bytes s) (addr + 8) ts"
  shows "\<exists>s'. mbi_print magic addr s = Some s' \<and>
     mbi_tag_mem s' = (case rev (filter (is_meminfo (bytes s)) ts) of [] \<Rightarrow> mbi_tag_mem s | t # _ \<Rightarrow> t) \<and>
     (\<forall>x \<in> R. bytes s' x = bytes s x) \<and>
     (\<forall>x. (\<forall>t \<in> set ts. tag_type (bytes s) t = MULTIBOOT_TAG_TYPE_FRAMEBUFFER \<longrightarrow> x \<notin> painted (bytes s) t) \<longrightarrow> bytes s' x = bytes s x)"
proof -
  have p: "\<exists>c. mbi_printf fmt args s = Some (s\<lparr>con := c\<rparr>)" if "\<exists>t. printf_text fmt args = Some t" for fmt args and s :: mbi
    using mbi_printf_ok [OF that] .
  obtain c1 where 1: "mbi_printf mbi_rule [] s = Some (s\<lparr>con := c1\<rparr>)" using p [OF mbi_texts(2)] by blast
  obtain c2 where 2: "mbi_printf (''Print the Multi-Boot Information structure'' @ [CHR 0x0A]) [] (s\<lparr>con := c1\<rparr>) = Some (s\<lparr>con := c2\<rparr>)"
    using p [OF mbi_texts(4), of "s\<lparr>con := c1\<rparr>"] by auto
  obtain c3 where 3: "mbi_printf mbi_rule [] (s\<lparr>con := c2\<rparr>) = Some (s\<lparr>con := c3\<rparr>)" using p [OF mbi_texts(2), of "s\<lparr>con := c2\<rparr>"] by auto
  obtain c4 where 4: "mbi_printf (''Announced mbi size 0x%x'' @ [CHR 0x0A]) [Num (load32 (bytes s) addr)] (s\<lparr>con := c3\<rparr>) = Some (s\<lparr>con := c4\<rparr>)"
    using p [OF mbi_formats(7), of "load32 (bytes s) addr" "s\<lparr>con := c3\<rparr>"] by auto
  obtain e s1 where l: "mbi_loop (addr + 8) (s\<lparr>con := c4\<rparr>) = Some (e, s1)" "\<forall>x \<in> R. bytes s1 x = bytes s x"
    "\<forall>x. (\<forall>t \<in> set ts. tag_type (bytes s) t = MULTIBOOT_TAG_TYPE_FRAMEBUFFER \<longrightarrow> x \<notin> painted (bytes s) t) \<longrightarrow> bytes s1 x = bytes s x"
    "mbi_tag_mem s1 = (case rev (filter (is_meminfo (bytes s)) ts) of [] \<Rightarrow> mbi_tag_mem s | t # _ \<Rightarrow> t)"
    using mbi_loop_returns [of R "s\<lparr>con := c4\<rparr>" "addr + 8" ts] assms by (auto cong: list.case_cong)
  let ?t = "next_tag (bytes s1) e"
  obtain c5 where 5: "mbi_printf (''Total mbi size 0x%x'' @ [CHR 0x0A]) [Num (?t - addr)] s1 = Some (s1\<lparr>con := c5\<rparr>)"
    using p [OF mbi_formats(8), of "?t - addr" s1] by auto
  obtain c6 where 6: "mbi_printf mbi_end_rule [] (s1\<lparr>con := c5\<rparr>) = Some (s1\<lparr>con := c6\<rparr>)" using p [OF mbi_texts(3), of "s1\<lparr>con := c5\<rparr>"] by auto
  obtain c7 where 7: "mbi_printf (''End Multi-Boot Information structure'' @ [CHR 0x0A]) [] (s1\<lparr>con := c6\<rparr>) = Some (s1\<lparr>con := c7\<rparr>)"
    using p [OF mbi_texts(5), of "s1\<lparr>con := c6\<rparr>"] by auto
  obtain c8 where 8: "mbi_printf mbi_end_rule [] (s1\<lparr>con := c7\<rparr>) = Some (s1\<lparr>con := c8\<rparr>)" using p [OF mbi_texts(3), of "s1\<lparr>con := c7\<rparr>"] by auto
  have "mbi_print magic addr s = Some (s1\<lparr>con := c8\<rparr>)"
    using 1 2 3 4 l(1) 5 6 7 8 by (simp add: mbi_print_def Let_def del: append.simps)
  then show ?thesis using l(2-4) by simp
qed

text \<open>Information at 0x1000: a tag of the memory size, and one of a framebuffer of one pixel at 0x200000.\<close>

definition example_info :: mem where
  "example_info a = (if a = 0x1008 then 4 else if a = 0x100c then 16 else if a = 0x1018 then 8 else if a = 0x101c then 40
     else if a = 0x1022 then 0x20 else if a = 0x102c then 1 else if a = 0x1030 then 1 else if a = 0x1034 then 32 else if a = 0x1035 then 1 else 0)"

definition example_mbi :: mbi where
  "example_mbi = \<lparr>bytes = example_info, con = \<lparr>xpos = 0, ypos = 0, video = \<lambda>_. 0\<rparr>, mbi_tag_mem = 0\<rparr>"

lemma block_below: "unat a + n \<le> 0x2000 \<Longrightarrow> block a n \<subseteq> {x. x < 0x2000}"
  unfolding block_def
proof clarsimp
  fix k assume "unat a + n \<le> 0x2000" "k < n"
  then have "unat (a + word_of_nat k) \<le> unat a + k" "k < 0x2000"
    by (simp_all add: unat_word_ariths unat_of_nat)
  then show "a + word_of_nat k < 0x2000" using \<open>unat a + n \<le> 0x2000\<close> \<open>k < n\<close> by (simp add: word_less_nat_alt)
qed

lemma example_tags: "tags_in {x. x < 0x2000} example_info 0x1008 [0x1008, 0x1018]"
proof -
  have w: "tag_type example_info 0x1008 = 4" "tag_size example_info 0x1008 = 16" "tag_type example_info 0x1018 = 8"
    "tag_size example_info 0x1018 = 40" "tag_type example_info 0x1040 = 0" "framebuffer_width example_info 0x1018 = 1"
    "framebuffer_height example_info 0x1018 = 1" "framebuffer_bpp example_info 0x1018 = 32" "framebuffer_pitch example_info 0x1018 = 0"
    by (simp_all add: tag_type_def tag_size_def framebuffer_width_def framebuffer_height_def framebuffer_bpp_def framebuffer_pitch_def load32_def
        example_info_def)
  have fa: "ucast (framebuffer_addr example_info 0x1018) = (0x200000 :: u32)"
    by (simp add: framebuffer_addr_def load64_def load32_def example_info_def)
  have n: "tag_after example_info 0x1008 = 0x1018" "tag_after example_info 0x1018 = 0x1040" by (simp_all add: tag_after_def w)
  have "i = 0" if "i < 1" for i :: u32 using that by (simp add: word_less_nat_alt unat_eq_0)
  then have "painted example_info 0x1018 \<subseteq> block 0x200000 4"
    by (auto simp: painted_def pixel_bytes_def w fa Let_def)
  moreover have "\<not> x < 0x2000" if "x \<in> block 0x200000 4" for x using that by (auto simp: block_small)
  ultimately have "painted example_info 0x1018 \<inter> {x. x < 0x2000} = {}" by blast
  moreover have "block 0x1018 38 \<subseteq> {x. x < 0x2000}" "block 0x1008 8 \<subseteq> {x. x < 0x2000}" "block 0x1018 8 \<subseteq> {x. x < 0x2000}"
    "block 0x1040 8 \<subseteq> {x. x < 0x2000}"
    by (rule block_below; simp)+
  ultimately show ?thesis unfolding tags_in.simps n w tag_ok_def tag_types by simp
qed

theorem mbi_print_sound_witness:
  "\<exists>s'. mbi_print MULTIBOOT2_BOOTLOADER_MAGIC 0x1000 example_mbi = Some s' \<and> mbi_tag_mem s' = 0x1008 \<and> bytes s' 0x1008 = 4"
proof -
  have t: "tags_in {x. x < 0x2000} (bytes example_mbi) (0x1000 + 8) [0x1008, 0x1018]" using example_tags by (simp add: example_mbi_def del: tags_in.simps)
  have "is_meminfo example_info 0x1008" "\<not> is_meminfo example_info 0x1018" "example_info 0x1008 = 4"
    by (simp_all add: is_meminfo_def tag_type_def load32_def example_info_def tag_types)
  then show ?thesis using mbi_print_sound [OF t, of MULTIBOOT2_BOOTLOADER_MAGIC] by (auto simp: example_mbi_def)
qed

text \<open>
  C37: Information that the walk never gets past, stated for its first tag: a tag whose size, rounded up to a multiple of 8, is zero, as it is for a size of
  zero or one just below \<open>2^32\<close>, or a memory map with entries of size zero. The kernel then prints for ever.
\<close>

theorem mbi_print_stuck:
  assumes "tag_type (bytes s) (addr + 8) \<noteq> MULTIBOOT_TAG_TYPE_END" and "tag_type (bytes s) (addr + 8) \<noteq> MULTIBOOT_TAG_TYPE_FRAMEBUFFER"
    and "tag_size (bytes s) (addr + 8) = 0 \<or> unat (tag_size (bytes s) (addr + 8)) > 2 ^ 32 - 8 \<or>
      tag_type (bytes s) (addr + 8) = MULTIBOOT_TAG_TYPE_MMAP \<and> mmap_entry_size (bytes s) (addr + 8) = 0 \<and>
        mmap_entries (addr + 8) < addr + 8 + tag_size (bytes s) (addr + 8)"
  shows "mbi_print magic addr s = None"
proof (rule ccontr)
  assume "mbi_print magic addr s \<noteq> None"
  then obtain s1 r where s1: "bytes s1 = bytes s" "mbi_loop (addr + 8) s1 = Some r"
    by (force simp: mbi_print_def bind_eq_Some_conv dest: mbi_printf_keeps)
  show False
  proof (cases "next_tag (bytes s) (addr + 8) = addr + 8")
    case True
    then show False using mbi_loop_stuck [OF s1(2)] assms(1,2) s1(1) by simp
  next
    case False
    then have f: "\<not> (tag_size (bytes s) (addr + 8) = 0 \<or> unat (tag_size (bytes s) (addr + 8)) > 2 ^ 32 - 8)" using no_next_tag by blast
    obtain s2 where "print_tag (addr + 8) s1 = Some s2" using s1 assms(1) by (subst (asm) mbi_loop.simps) (auto simp: bind_eq_Some_conv)
    moreover have "tag_type (bytes s1) (addr + 8) = MULTIBOOT_TAG_TYPE_MMAP" using f assms(3) s1(1) by simp
    ultimately obtain s3 where "mmap_loop (addr + 8) (mmap_entries (addr + 8)) s3 = Some s2" "bytes s3 = bytes s"
      using s1(1) by (auto simp: print_tag_def tag_types bind_eq_Some_conv dest: mbi_printf_keeps)
    then show False using mmap_loop_stuck [of "addr + 8" "mmap_entries (addr + 8)" s3 s2] f assms(3) by simp
  qed
qed

theorem mbi_print_stuck_witness:
  "\<forall>c. mbi_print MULTIBOOT2_BOOTLOADER_MAGIC 0x1000 \<lparr>bytes = \<lambda>a. if a = 0x1008 then 1 else 0, con = c, mbi_tag_mem = 0\<rparr> = None"
proof
  fix c
  have w: "load32 (\<lambda>a. if a = 0x1008 then 1 else 0) 0x1008 = 1" "load32 (\<lambda>a. if a = 0x1008 then 1 else 0) 0x100c = 0"
    by (simp_all add: load32_def)
  show "mbi_print MULTIBOOT2_BOOTLOADER_MAGIC 0x1000 \<lparr>bytes = \<lambda>a. if a = 0x1008 then 1 else 0, con = c, mbi_tag_mem = 0\<rparr> = None"
    by (rule mbi_print_stuck) (simp_all add: tag_type_def tag_size_def tag_types w)
qed

end
