(* ===== verification/Fatal_errors.thy ===== *)
theory Fatal_errors
  imports Kformat Interrupts
begin

text \<open>
  What halts the kernel with a message: fatal errors (\<^verbatim>\<open>os/assert.c\<close>) and the exceptions that nothing handles (\<^verbatim>\<open>hwcore/exception.c\<close>), and the
  dump of a context (\<^verbatim>\<open>hwcore/cpu_context.c\<close>). The result of a routine that halts is the console that it leaves on the screen; the interrupts are off.
\<close>

text \<open>The text that the code reads from a buffer, up to the terminator.\<close>

definition c_string :: "string \<Rightarrow> string" where
  "c_string b = takeWhile (\<lambda>c. c \<noteq> CHR 0x00) b"

definition sos_display_fatal_error :: "string \<Rightarrow> fmt_arg list \<Rightarrow> console \<Rightarrow> console option" where
  "sos_display_fatal_error format ap c = do {
     (buff, _) \<leftarrow> vsnprintf 256 format ap;
     c \<leftarrow> printf (''%s'' @ [CHR 0x0A]) [Str (Some (c_string buff))] c;
     os_printf 23 0 (ucast (BG_BLACK OR FG_LTRED)) ''%s'' [Str (Some (c_string buff))] c }"

definition sos_generic_ex :: "int \<Rightarrow> u32 \<Rightarrow> mem \<Rightarrow> console \<Rightarrow> console option" where
  "sos_generic_ex exid ctxt m c = (
     let exname = sos_exception_get_name exid
     in do {
       pc \<leftarrow> sos_cpu_context_get_PC ctxt m;
       info \<leftarrow> sos_cpu_context_get_EX_info ctxt m;
       sos_display_fatal_error (''Exception %s in Kernel at instruction 0x%x (info=%x)!'' @ [CHR 0x0A])
         [Str exname, Num pc, Num info] c })"

text \<open>The wrapper of the double fault, on a stack of its own.\<close>

definition double_fault_wrapper :: "console \<Rightarrow> console option" where
  "double_fault_wrapper c =
     sos_display_fatal_error ''exception_wrappers.S: Double fault detected ! NOT SUPPORTED yet. System Halted.'' [] c"

definition sos_cpu_context_dump :: "u32 \<Rightarrow> mem \<Rightarrow> console \<Rightarrow> console option" where
  "sos_cpu_context_dump ctxt m c = do {
     (buf, _) \<leftarrow> snprintf 128 ''CPU: eip=%x esp=%x eflags=%x cs=%x ds=%x ss=%x err=%x''
       [Num (load32 m (ctxt + off_eip)), Num ctxt, Num (load32 m (ctxt + off_eflags)),
        Num (GET_CPU_CS_REGISTER_VALUE (load32 m (ctxt + off_cs))), Num (ucast (load16 m (ctxt + off_ds))),
        Num (ucast (load16 m (ctxt + off_cpl0_ss))), Num (load32 m (ctxt + off_error_code))];
     c \<leftarrow> printf (''%s'' @ [CHR 0x0A]) [Str (Some (c_string buf))] c;
     os_printf 23 0 (ucast (FG_BLACK OR BG_LTGRAY)) ''%s'' [Str (Some (c_string buf))] c }"

end
