(* ===== verification/Kernel_main.thy ===== *)
theory Kernel_main
  imports Multiboot Mouse_sim Fatal_errors Kmem_setup
begin

text \<open>
  The kernel that puts the components together (\<^verbatim>\<open>os/kernel.c\<close>): the clock interrupt, demand paging in the page fault handler,
  the demonstration threads, and the boot. A machine is the state of every component: the console, the threads and the mice (\<open>world\<close>), the descriptor tables
  and the chips, the allocators with the page tables and the physical pages. The bytes of the kernel stacks and of
  the boot information are the memory of the threads. What the linker, the compiler and the allocations for threads
  provide are inputs of the boot.
\<close>

section \<open>State\<close>

definition SOS_IRQ_TIMER :: int where "SOS_IRQ_TIMER = 0"
definition SOS_EXCEPT_PAGE_FAULT :: int where "SOS_EXCEPT_PAGE_FAULT = 14"

record machine =
  world :: sim
  intrs :: intr
  alloc :: "Kmem.kmem"
  kmalloc_caches :: "kmalloc_entry list"
  tag_mem :: u32
  clock_count :: u32
  demand_paging_count :: u32
  interrupts_on :: bool

definition on_screen :: "(console \<Rightarrow> console) \<Rightarrow> machine \<Rightarrow> machine" where
  "on_screen f m = m\<lparr>world := (world m)\<lparr>screen := f (screen (world m))\<rparr>\<rparr>"

definition printf_on :: "string \<Rightarrow> fmt_arg list \<Rightarrow> machine \<Rightarrow> machine option" where
  "printf_on format args m = do {
     c \<leftarrow> printf format args (screen (world m));
     Some (on_screen (\<lambda>_. c) m) }"

definition on_kernel :: "(kernel \<Rightarrow> kernel) \<Rightarrow> machine \<Rightarrow> machine" where
  "on_kernel f m = m\<lparr>world := (world m)\<lparr>krn := f (krn (world m))\<rparr>\<rparr>"

section \<open>The clock\<close>

text \<open>The row and the column are unsigned characters, and the column is incremented after each character.\<close>

fun display_bits_loop :: "nat list \<Rightarrow> u8 \<Rightarrow> u8 \<Rightarrow> u8 \<Rightarrow> u32 \<Rightarrow> console \<Rightarrow> console" where
  "display_bits_loop [] row col attribute integer c = c"
| "display_bits_loop (i # is) row col attribute integer c =
     (let bit_i = integer AND push_bit i 1;
          ascii_code = (if bit_i \<noteq> 0 then 219 else 177)
      in display_bits_loop is row (col + 1) attribute integer (os_putchar (uint row) (uint col) attribute ascii_code c))"

definition display_bits :: "u8 \<Rightarrow> u8 \<Rightarrow> u8 \<Rightarrow> u32 \<Rightarrow> console \<Rightarrow> console" where
  "display_bits row col attribute integer c = display_bits_loop (rev [0..<32]) row col attribute integer c"

definition clk_it :: "int \<Rightarrow> machine \<Rightarrow> machine" where
  "clk_it intid m =
     (on_screen (display_bits 0 48 (ucast (FG_LTGREEN OR BG_BLUE)) (clock_count m)) m)\<lparr>clock_count := clock_count m + 1\<rparr>"

section \<open>Page faults\<close>

definition INTERVAL_OK :: "u32 \<Rightarrow> u32 \<Rightarrow> u32 \<Rightarrow> bool" where "INTERVAL_OK b v u \<longleftrightarrow> b \<le> v \<and> v < u"

text \<open>What the callback prints of a frame: an argument that starts outside of the stack is \<open>invalid\<close>.\<close>

definition frame_arg :: "u32 \<Rightarrow> u32 \<Rightarrow> u32 \<Rightarrow> mem \<Rightarrow> u32" where
  "frame_arg stack_bottom stack_size arg m =
     (if \<not> INTERVAL_OK stack_bottom arg (stack_bottom + stack_size) then 0xffffffff else load32 m arg)"

definition backtracer :: "u32 \<Rightarrow> u32 \<Rightarrow> bool \<Rightarrow> bool \<Rightarrow> u32 \<times> u32 \<times> nat \<Rightarrow> machine \<Rightarrow> machine option" where
  "backtracer stack_bottom stack_size on_console on_bochs frame m = (case frame of (PC, params, depth) \<Rightarrow>
     let mem = kmem (krn (world m));
         arg = (\<lambda>k. frame_arg stack_bottom stack_size (params + k) mem);
         d = word_of_nat depth
     in do {
       m \<leftarrow> (if on_bochs
             then printf_on (''[%d] PC=0x%x arg1=0x%x arg2=0x%x arg3=0x%x'' @ [CHR 0x0A]) [Num d, Num PC, Num (arg 0), Num (arg 4), Num (arg 8)] m
             else Some m);
       if on_console
       then do {
         c \<leftarrow> os_printf (23 - int depth) 3 (ucast (BG_BLUE OR FG_LTGREEN)) ''[%d] PC=0x%x arg1=0x%x arg2=0x%x arg3=0x%x arg4=0x%x''
           [Num d, Num PC, Num (arg 0), Num (arg 4), Num (arg 8), Num (arg 12)] (screen (world m));
         Some (on_screen (\<lambda>_. c) m) }
       else Some m })"

definition dump_backtrace :: "u32 \<Rightarrow> u32 \<Rightarrow> u32 \<Rightarrow> bool \<Rightarrow> bool \<Rightarrow> machine \<Rightarrow> machine option" where
  "dump_backtrace cpu_state stack_bottom stack_size on_console on_bochs m =
     fold_opt (backtracer stack_bottom stack_size on_console on_bochs)
       (snd (sos_backtrace (Some cpu_state) 0 0 15 stack_bottom stack_size (kmem (krn (world m))))) m"

definition SOS_PGFLT_FLAGS :: u32 where
  "SOS_PGFLT_FLAGS = SOS_VM_MAP_PROT_READ OR SOS_VM_MAP_PROT_WRITE OR SOS_VM_MAP_ATOMIC"

text \<open>
  The address of the fault is in \<open>cr2\<close>. No result is a halt: on an address outside of every range, after the backtrace; when no physical page is
  free, or none for a page table; or on a failed assertion of a component.
\<close>

definition pgflt_ex :: "u32 \<Rightarrow> u32 \<Rightarrow> machine \<Rightarrow> machine option" where
  "pgflt_ex cr2 ctxt m = (
     let faulting_vaddr = sos_cpu_context_get_EX_faulting_vaddr cr2 ctxt
     in do {
       valid \<leftarrow> sos_kmem_vmm_is_valid_vaddr faulting_vaddr (alloc m);
       sos_assert_fatal valid;
       let m = m\<lparr>demand_paging_count := demand_paging_count m + 1\<rparr>;
       let m = on_screen (display_bits 0 0 (ucast (FG_LTRED OR BG_BLUE)) (demand_paging_count m)) m;
       (ppage_paddr, pm) \<leftarrow> sos_physmem_ref_physpage_new False (phys (pg (alloc m)));
       sos_assert_fatal (ppage_paddr \<noteq> 0);
       (r, g) \<leftarrow> sos_paging_map ppage_paddr (SOS_PAGE_ALIGN_INF faulting_vaddr) False SOS_PGFLT_FLAGS ((pg (alloc m))\<lparr>phys := pm\<rparr>);
       sos_assert_fatal (r = SOS_OK);
       (_, pm) \<leftarrow> sos_physmem_unref_physpage ppage_paddr (phys g);
       Some (m\<lparr>alloc := (alloc m)\<lparr>pg := g\<lparr>phys := pm\<rparr>\<rparr>\<rparr>) })"

text \<open>What is on the screen when an address outside of every range halts the kernel.\<close>

definition pgflt_fatal :: "u32 \<Rightarrow> u32 \<Rightarrow> u32 \<Rightarrow> u32 \<Rightarrow> machine \<Rightarrow> machine option" where
  "pgflt_fatal bootstrap_stack_bottom bootstrap_stack_size cr2 ctxt m = do {
     m \<leftarrow> dump_backtrace ctxt bootstrap_stack_bottom bootstrap_stack_size True True m;
     pc \<leftarrow> sos_cpu_context_get_PC ctxt (kmem (krn (world m)));
     info \<leftarrow> sos_cpu_context_get_EX_info ctxt (kmem (krn (world m)));
     c \<leftarrow> sos_display_fatal_error ''Unresolved page Fault at instruction 0x%x on access to address 0x%x (info=%x)!''
       [Num pc, Num cr2, Num info] (screen (world m));
     Some ((on_screen (\<lambda>_. c) m)\<lparr>interrupts_on := False\<rparr>) }"

section \<open>The demonstration threads\<close>

record thr_arg =
  character :: char
  thr_color :: int
  thr_col :: int
  thr_row :: int

text \<open>What a turn of a thread ends with: nothing, or a call that blocks.\<close>

datatype demo_wait = Goes_on | Yields | Sleeps sos_time

definition esc :: string where "esc = [CHR 0x1B]"

definition demo_start :: "thr_arg \<Rightarrow> sim \<Rightarrow> sim option" where
  "demo_start a s = do {
     c \<leftarrow> printf ''start %c'' [Num (int_of_char (character a))] (screen s);
     Some (s\<lparr>screen := c\<rparr>) }"

definition demo_block :: "thr_arg \<Rightarrow> string \<Rightarrow> char \<Rightarrow> demo_wait \<Rightarrow> sim \<Rightarrow> (demo_wait \<times> sim) option" where
  "demo_block a what mark w s = do {
     c \<leftarrow> printf (esc @ ''[37m'' @ what @ ''(%c)'' @ esc @ ''[m'' @ [CHR 0x0A]) [Num (int_of_char (character a))] (screen s);
     Some (w, s\<lparr>screen := os_putchar (thr_row a) (thr_col a) 0x1e (int_of_char mark) c\<rparr>) }"

text \<open>From the top of the loop to the call that blocks, or back to the top.\<close>

definition demo_turn :: "thr_arg \<Rightarrow> u32 \<Rightarrow> sim \<Rightarrow> (demo_wait \<times> u32 \<times> sim) option" where
  "demo_turn a progress s = (
     let progress = progress + 1;
         s = s\<lparr>screen := putchar (int_of_char (character a))
               (display_bits (word_of_int (thr_row a)) (word_of_int (thr_col a + 1)) (word_of_int (thr_color a)) progress (screen s))\<rparr>;
         (r, s) = draw_random s
     in do {
       (w, s) \<leftarrow>
         (if r mod 100 = 0 then demo_block a ''yield'' CHR ''Y'' Yields s
          else
            let (r, s) = draw_random s
            in if r mod 200 = 0 then demo_block a ''sleep1'' CHR ''s'' (Sleeps \<lparr>sec = 0, nanosec = 50000000\<rparr>) s
            else
              let (r, s) = draw_random s
              in if r mod 300 = 0 then demo_block a ''sleep2'' CHR ''S'' (Sleeps \<lparr>sec = 0, nanosec = 300000000\<rparr>) s
              else Some (Goes_on, s));
       Some (w, progress, s) })"

text \<open>After the call, with its result and the time that it has left; the time is not read after a yield.\<close>

definition demo_resume :: "thr_arg \<Rightarrow> demo_wait \<Rightarrow> sos_ret_t \<Rightarrow> sos_time \<Rightarrow> sim \<Rightarrow> sim option" where
  "demo_resume a w ret t s = (
     case w of
       Goes_on \<Rightarrow> Some s
     | _ \<Rightarrow> do {
         sos_assert_fatal (ret = SOS_OK);
         sos_assert_fatal (w = Yields \<or> sos_time_is_zero t);
         Some (s\<lparr>screen := os_putchar (thr_row a) (thr_col a) 0x1e (int_of_char CHR ''R'') (screen s)\<rparr>) })"

definition demo_args :: "thr_arg list" where
  "demo_args = map (\<lambda>(ch, col, row, color). \<lparr>character = ch, thr_color = color, thr_col = col, thr_row = row\<rparr>)
     [(CHR ''b'', 0, 21, 0x14), (CHR ''c'', 46, 21, 0x14), (CHR ''d'', 0, 20, 0x14), (CHR ''e'', 0, 19, 0x14),
      (CHR ''R'', 0, 17, 0x1c), (CHR ''S'', 0, 16, 0x1c)]"

text \<open>One input per thread, with the address of its argument. The result of the creation is not looked at.\<close>

definition test_thread :: "(thread_input \<times> u32) list \<Rightarrow> kernel \<Rightarrow> kernel option" where
  "test_thread inputs k =
     fold_opt (\<lambda>(a, (core_routine, thread_exit, demo_thread, new_thread, stack), arg) k. do {
       (_, _, _, k) \<leftarrow> sos_create_kernel_thread core_routine thread_exit (Some (''YO['' @ [character a] @ '']'')) (Some demo_thread) arg
         new_thread stack k;
       Some k }) (zip demo_args inputs) k"

definition idle_turn :: "u32 \<Rightarrow> machine \<Rightarrow> u32 \<times> machine" where
  "idle_turn idle_twiddle m = (
     let idle_twiddle = idle_twiddle + 1
     in (idle_twiddle, on_screen (display_bits 0 0 (ucast (FG_GREEN OR BG_BLUE)) idle_twiddle) m))"

section \<open>The boot\<close>

text \<open>
  What the boot does not compute: the symbols of the linker, the addresses of functions and of tables, the device, and the memory that
  the allocations for threads and mice return. The array of the wrappers of the exceptions is the one that the assembly builds from the
  address of each wrapper, with the word that follows it in memory.
\<close>

record boot_input =
  b_kernel :: u32
  e_kernel :: u32
  bootstrap_stack_bottom :: u32
  bootstrap_stack_size :: u32
  gdt_at :: u32
  idt_at :: u32
  exception_wrapper :: "nat \<Rightarrow> sos_vaddr_t"
  after_wrappers :: sos_vaddr_t
  irq_wrappers :: "nat \<Rightarrow> sos_vaddr_t"
  generic_ex :: sos_vaddr_t
  clk_it_at :: sos_vaddr_t
  pgflt_ex_at :: sos_vaddr_t
  chips :: device
  fake_cache :: sos_vaddr_t
  thread_cache :: bool
  first_thread :: "nat option"
  idle_input :: thread_input
  sem_map :: nat
  sem_mouse :: nat
  map_at :: u32
  input_at :: u32
  output_at :: u32
  elements_at :: "u32 list"
  creator_input :: thread_input
  demo_inputs :: "(thread_input \<times> u32) list"

definition exception_wrappers :: "boot_input \<Rightarrow> nat \<Rightarrow> sos_vaddr_t" where
  "exception_wrappers i = sos_exception_wrapper_array (exception_wrapper i) (after_wrappers i)"

definition boot_hardware :: "boot_input \<Rightarrow> intr \<Rightarrow> intr" where
  "boot_hardware i s = (
     let (_, s) = sos_gdt_subsystem_setup (gdt_at i) s;
         (_, s) = sos_idt_subsystem_setup (idt_at i) s;
         (_, s) = sos_exception_subsystem_setup (exception_wrappers i) (generic_ex i) s;
         (_, s) = sos_irq_subsystem_setup s;
         (_, s) = sos_i8254_set_frequency 100 s
     in snd (sos_irq_set_routine (chips i) (irq_wrappers i) SOS_IRQ_TIMER (clk_it_at i) s))"

text \<open>The page fault handler is bound once the page tables are in use.\<close>

definition bind_page_fault :: "boot_input \<Rightarrow> intr \<Rightarrow> intr" where
  "bind_page_fault i s = snd (sos_exception_set_routine (exception_wrappers i) SOS_EXCEPT_PAGE_FAULT (pgflt_ex_at i) s)"

definition boot_memory :: "boot_input \<Rightarrow> machine \<Rightarrow> machine option" where
  "boot_memory i m = do {
     (_, base, core_top, pm) \<leftarrow> sos_physmem_subsystem_setup (b_kernel i) (e_kernel i)
       (push_bit 10 (meminfo_mem_upper (kmem (krn (world m))) (tag_mem m)) + push_bit 20 1) (phys (pg (alloc m)));
     (r, g) \<leftarrow> sos_paging_subsystem_setup base core_top ((pg (alloc m))\<lparr>phys := pm\<rparr>);
     sos_assert_fatal (r = SOS_OK);
     let m = m\<lparr>intrs := bind_page_fault i (intrs m)\<rparr>;
     let m = on_screen cls m;
     (r, a) \<leftarrow> sos_kmem_vmm_subsystem_setup (fake_cache i) base core_top (bootstrap_stack_bottom i)
       (bootstrap_stack_bottom i + bootstrap_stack_size i) ((alloc m)\<lparr>pg := g\<rparr>);
     m \<leftarrow> (if r \<noteq> 0 then printf_on (''Could not setup the Kernel virtual space allocator'' @ [CHR 0x0A]) [] m else Some m);
     (r, table, a) \<leftarrow> sos_kmalloc_subsystem_setup a;
     let m = m\<lparr>alloc := a, kmalloc_caches := table\<rparr>;
     if r \<noteq> 0 then printf_on (''Could not setup the Kmalloc subsystem'' @ [CHR 0x0A]) [] m else Some m }"

definition boot_threads :: "boot_input \<Rightarrow> machine \<Rightarrow> machine option" where
  "boot_threads i m = do {
     (_, k) \<leftarrow> sos_thread_subsystem_setup (thread_cache i) (first_thread i) (bootstrap_stack_bottom i) (bootstrap_stack_size i) (krn (world m));
     let (_, k) = sos_sched_subsystem_setup k;
     (t, _, _, k) \<leftarrow> (case idle_input i of (core_routine, thread_exit, idle_thread, new_thread, stack) \<Rightarrow>
       sos_create_kernel_thread core_routine thread_exit (Some ''idle'') (Some idle_thread) 0 new_thread stack k);
     sos_assert_fatal (t \<noteq> None);
     let m = (on_kernel (\<lambda>_. k) m)\<lparr>interrupts_on := True\<rparr>;
     s \<leftarrow> MouseSim (sem_map i) (sem_mouse i) (map_at i) (input_at i) (output_at i) (elements_at i) (creator_input i) (world m);
     k \<leftarrow> test_thread (demo_inputs i) (krn s);
     Some (m\<lparr>world := s\<lparr>krn := k\<rparr>\<rparr>) }"

text \<open>
  The boot refuses to go on, or ends with the exit of the first thread, which leaves the CPU to another one: the
  stacks and the thread structures that the exit frees come with the machine.
\<close>

datatype boot_end = Refused machine | Started "u32 list" "nat list" machine

definition boot_rule :: string where
  "boot_rule = ''================================================================ '' @ [CHR 0x0A]"

definition cmain :: "u32 \<Rightarrow> u32 \<Rightarrow> boot_input \<Rightarrow> machine \<Rightarrow> boot_end option" where
  "cmain magic addr i m = (
     let m = on_screen cls m
     in if magic \<noteq> MULTIBOOT2_BOOTLOADER_MAGIC then map_option Refused (printf_on (''Invalid magic number: 0x%x'' @ [CHR 0x0A]) [Num magic] m)
     else if addr AND 7 \<noteq> 0 then map_option Refused (printf_on (''Unaligned mbi: 0x%x'' @ [CHR 0x0A]) [Num addr] m)
     else do {
       m \<leftarrow> printf_on boot_rule [] m;
       m \<leftarrow> printf_on (''Welcome From '' @ [CHR 0x27] @ ''Multiboot-compliant boot loader'' @ [CHR 0x27] @ '' GRUB2 to SaghirOS '' @ [CHR 0x0A]) [] m;
       m \<leftarrow> printf_on boot_rule [] m;
       b \<leftarrow> mbi_print magic addr \<lparr>bytes = kmem (krn (world m)), con = screen (world m), mbi_tag_mem = tag_mem m\<rparr>;
       let m = on_kernel (\<lambda>k. k\<lparr>kmem := bytes b\<rparr>) (on_screen (\<lambda>_. con b) (m\<lparr>tag_mem := mbi_tag_mem b\<rparr>));
       let m = m\<lparr>intrs := boot_hardware i (intrs m)\<rparr>;
       let m = on_kernel (\<lambda>k. snd (sos_time_subsysem_setup \<lparr>sec = 0, nanosec = 10000000\<rparr> k)) m;
       m \<leftarrow> boot_memory i m;
       m \<leftarrow> boot_threads i m;
       m \<leftarrow> printf_on (''Bye from primary thread !'' @ [CHR 0x0A]) [] m;
       (stacks, threads, k) \<leftarrow> sos_thread_exit (krn (world m));
       Some (Started stacks threads (on_kernel (\<lambda>_. k) m)) })"

end
