(* ===== verification/Kernel_props.thy ===== *)
theory Kernel_props
  imports Kernel_main Paging_props Kmem_props Interrupts_props Ksystem_props Kformat_props
begin

text \<open>
  The interrupts of the kernel (\<^verbatim>\<open>os/kernel.c\<close>). A page fault on a valid address that no page backs is
  repaired: the access succeeds after it, on a page that nothing else uses, and every other translation is as before. What the repaired
  page lacks, and what the clock interrupt does and does not do, are stated beside it.
\<close>

section \<open>A small machine\<close>

definition example_world :: sim where
  "example_world = \<lparr>element = (\<lambda>_. \<lparr>Type = 0, Status = 0, Color = 0, Pt = \<lparr>pX = 0, pY = 0\<rparr>, ThreadID = None, Way = 0\<rparr>), pMap = [],
     MouseCount = 0, CheeseCount = 0, ObstacleCount = 0, MouseSpeed = 100, krn = example_kernel,
     screen = \<lparr>xpos = 3, ypos = 7, video = \<lambda>_. 32\<rparr>, rand_seed = 93186752, given_back = []\<rparr>"

definition example_machine :: "Kmem.kmem \<Rightarrow> machine" where
  "example_machine a = \<lparr>world = example_world, intrs = reset_intr, alloc = a, kmalloc_caches = [], tag_mem = 0,
     clock_count = 5, demand_paging_count = 0, interrupts_on = True\<rparr>"

definition example_boot :: boot_input where
  "example_boot = \<lparr>b_kernel = 0x200000, e_kernel = 0x240000, bootstrap_stack_bottom = 0x230000, bootstrap_stack_size = 0x4000,
     gdt_at = 0x23a000, idt_at = 0x23b000, exception_wrapper = (\<lambda>i. 0x201000 + word_of_nat i), after_wrappers = 0x6e65, irq_wrappers = (\<lambda>i. 0x202000 + word_of_nat i),
     generic_ex = 0x203000, clk_it_at = 0x204000, pgflt_ex_at = 0x205000, chips = latch, fake_cache = 0, thread_cache = True,
     first_thread = Some 11, idle_input = (0, 0, 0, Some 14, 0x20000), sem_map = 20, sem_mouse = 21, map_at = 0x1000, input_at = 1,
     output_at = 2, elements_at = [], creator_input = (0, 0, 0, None, 0), demo_inputs = []\<rparr>"

section \<open>Page tables when a reference count changes\<close>

lemma phys_only [simp]:
  "mapped (s\<lparr>phys := m\<rparr>) = mapped s" "has_pt (s\<lparr>phys := m\<rparr>) = has_pt s" "is_table (s\<lparr>phys := m\<rparr>) = is_table s"
  "maps_to (s\<lparr>phys := m\<rparr>) = maps_to s" "used_entries (s\<lparr>phys := m\<rparr>) = used_entries s" "mmu_translate w (s\<lparr>phys := m\<rparr>) v = mmu_translate w s v"
  by (simp_all add: fun_eq_iff mapped_def has_pt_def is_table_def maps_to_def used_entries_def mmu_translate_def Let_def)

lemma paging_wf_refs:
  assumes wf: "paging_wf s" and m: "pm_wf m" "page_valid m = page_valid (phys s)" "\<forall>q. q \<noteq> p \<longrightarrow> page_refs m q = page_refs (phys s) q"
    and p: "\<not> is_table s p" "card (maps_to s p) \<le> page_refs m p"
  shows "paging_wf (s\<lparr>phys := m\<rparr>)"
proof -
  note W = paging_wfD [OF wf]
  have t: "page_refs m q = page_refs (phys s) q" if "is_table s q" for q using m(3) p(1) that by metis
  then have "page_refs m (cr3 s) = page_refs (phys s) (cr3 s)" by (simp add: is_table_def)
  moreover have "page_refs m (pt_of s j) = card (used_entries s j)" if "has_pt s j" for j
    using t [of "pt_of s j"] that W(11) [OF that] by (auto simp: is_table_def)
  moreover have "card (maps_to s q) \<le> page_refs m q" if "page_valid (phys s) q" for q
    using W(15) [OF that] m(3) p(2) by (cases "q = p") auto
  ultimately show ?thesis using W m(1,2) unfolding paging_wf_def by simp
qed

section \<open>The address of the page\<close>

lemma align_ix: "pd_ix (SOS_PAGE_ALIGN_INF v) = pd_ix v" "pt_ix (SOS_PAGE_ALIGN_INF v) = pt_ix v" "virt_to_page_offset (SOS_PAGE_ALIGN_INF v) = 0"
proof -
  have u: "unat (SOS_PAGE_ALIGN_INF v) = unat v div 2 ^ 12 * 2 ^ 12"
    using unat_align_inf [of v 12] by (simp add: SOS_PAGE_ALIGN_INF_def SOS_PAGE_SIZE_def)
  have "unat v div 2 ^ 12 * 2 ^ 12 div 2 ^ 22 = unat v div 2 ^ 22"
  proof -
    have "unat v div 2 ^ 12 * 2 ^ 12 div 2 ^ 22 = unat v div 2 ^ 12 * 2 ^ 12 div 2 ^ 12 div 2 ^ 10" by (simp add: div_mult2_eq [symmetric])
    also have "\<dots> = unat v div 2 ^ 12 div 2 ^ 10" by simp
    finally show ?thesis by (simp add: div_mult2_eq [symmetric])
  qed
  then show "pd_ix (SOS_PAGE_ALIGN_INF v) = pd_ix v" by (simp only: pd_ix_def u)
  show "pt_ix (SOS_PAGE_ALIGN_INF v) = pt_ix v" by (simp add: pt_ix_def u)
  have "unat (virt_to_page_offset (SOS_PAGE_ALIGN_INF v)) = 0" unfolding unat_offset u by simp
  then show "virt_to_page_offset (SOS_PAGE_ALIGN_INF v) = 0" by (simp add: unat_eq_0)
qed

section \<open>The range recorded for a page\<close>

text \<open>Only the allocators record one: every other operation on a physical page keeps it or removes it.\<close>

abbreviation no_range :: "u32 \<Rightarrow> physmem \<Rightarrow> bool" where
  "no_range p s \<equiv> sos_physmem_get_kmem_range p s = None"

lemma upd_descr_range:
  assumes "no_range p s" "\<forall>d. paddr (f d) = paddr d \<and> (kernel_range (f d) = kernel_range d \<or> kernel_range (f d) = None)"
  shows "no_range p (upd_descr i f s)"
proof (cases "i < length (physical_page_descr_array s)")
  case True
  have g: "get_page_descr_at_paddr p (upd_descr i f s) = get_page_descr_at_paddr p s"
    by (simp add: get_page_descr_at_paddr_def upd_descr_def Let_def)
  have d: "descr (upd_descr i f s) j = (if j = i then f (descr s i) else descr s j)" for j
    using True by (simp add: upd_descr_def nth_list_update)
  have r: "kernel_range (f (descr s i)) = None" if "kernel_range (descr s i) = None" using assms(2) that by metis
  show ?thesis using assms(1) r unfolding sos_physmem_get_kmem_range_def g by (auto simp: d split: option.splits)
next
  case False
  then have "upd_descr i f s = s" by (cases s) (simp add: upd_descr_def list_update_beyond)
  then show ?thesis using assms(1) by simp
qed

lemma lists_range [simp]:
  "no_range p (s\<lparr>free_ppage := x\<rparr>) = no_range p s" "no_range p (s\<lparr>used_ppage := x\<rparr>) = no_range p s"
  "no_range p (s\<lparr>physmem_used_pages := n\<rparr>) = no_range p s"
  by (simp_all add: sos_physmem_get_kmem_range_def get_page_descr_at_paddr_def Let_def cong: option.case_cong)

lemma new_range_kept: "sos_physmem_ref_physpage_new b s = Some (q, s') \<Longrightarrow> no_range p s \<Longrightarrow> no_range p s'"
  by (auto simp: sos_physmem_ref_physpage_new_def bind_eq_Some_conv Let_def intro!: upd_descr_range split: if_splits)

lemma at_range_kept: "sos_physmem_ref_physpage_at q s = Some (r, s') \<Longrightarrow> no_range p s \<Longrightarrow> no_range p s'"
  by (auto simp: sos_physmem_ref_physpage_at_def bind_eq_Some_conv Let_def intro!: upd_descr_range split: if_splits option.splits)

lemma unref_range_kept: "sos_physmem_unref_physpage q s = Some (r, s') \<Longrightarrow> no_range p s \<Longrightarrow> no_range p s'"
  by (auto simp: sos_physmem_unref_physpage_def bind_eq_Some_conv Let_def intro!: upd_descr_range split: if_splits option.splits)

lemma load_phys: "vload v (s\<lparr>phys := m\<rparr>) = vload v s"
  by (simp add: vload_def)

lemma store_phys: "vstore v e s = Some s' \<Longrightarrow> phys s' = phys s"
  by (auto simp: vstore_def bind_eq_Some_conv)

lemma fold_opt_inv: "fold_opt f xs s = Some s' \<Longrightarrow> (\<And>x t t'. f x t = Some t' \<Longrightarrow> Q t \<Longrightarrow> Q t') \<Longrightarrow> Q s \<Longrightarrow> Q s'"
  by (induction xs arbitrary: s) (auto simp: bind_eq_Some_conv)

lemma memset_phys: "vmemset_page v s = Some s' \<Longrightarrow> phys s' = phys s"
  unfolding vmemset_page_def by (erule fold_opt_inv [where Q = "\<lambda>t. phys t = phys s"]) (auto dest: store_phys)

lemma map_range_kept:
  assumes "sos_paging_map q v u flags s = Some (r, s')" "no_range p (phys s)"
  shows "no_range p (phys s')"
proof -
  note kept = new_range_kept [where p = p] at_range_kept [where p = p] unref_range_kept [where p = p]
  have k: "sos_physmem_ref_physpage_new b m = Some (x, m') \<Longrightarrow> no_range p m \<longrightarrow> no_range p m'"
    "sos_physmem_ref_physpage_at y m = Some (z, m') \<Longrightarrow> no_range p m \<longrightarrow> no_range p m'"
    "sos_physmem_unref_physpage y m = Some (z, m') \<Longrightarrow> no_range p m \<longrightarrow> no_range p m'" for b m m' x y z
    using kept by blast+
  show ?thesis using assms unfolding sos_paging_map_def Let_def
    by (auto simp: bind_eq_Some_conv dest!: store_phys memset_phys k split: if_splits)
qed

section \<open>Demand paging\<close>

text \<open>
  What the handler finds: the address is in a used range and outside of the mirror, and nothing is mapped there; a physical page is free, and another one when there
  is no page table for the address yet.
\<close>

definition can_page_in :: "u32 \<Rightarrow> Kmem.kmem \<Rightarrow> bool" where
  "can_page_in v a \<longleftrightarrow> paging_wf (pg a) \<and> ranges_wf (range_at a) (free_ranges a) (used_ranges a) \<and> used_page a v \<and> \<not> in_mirror v \<and>
     mmu_translate False (pg a) v = None \<and>
     (if present (ram (pg a) (cr3 (pg a) + 4 * virt_to_pd_index v)) then 1 else 2) \<le> length (free_ppage (phys (pg a)))"

lemma page_in:
  assumes "can_page_in v a"
  obtains p m1 g m2 where "sos_kmem_vmm_is_valid_vaddr v a = Some True" "sos_physmem_ref_physpage_new False (phys (pg a)) = Some (p, m1)" "p \<noteq> 0"
    "sos_paging_map p (SOS_PAGE_ALIGN_INF v) False SOS_PGFLT_FLAGS ((pg a)\<lparr>phys := m1\<rparr>) = Some (SOS_OK, g)"
    "sos_physmem_unref_physpage p (phys g) = Some (FALSE_ret, m2)" "paging_wf (g\<lparr>phys := m2\<rparr>)" "page_refs (phys (pg a)) p = 0" "page_refs m2 p = 1"
    "\<forall>w. mmu_translate w (g\<lparr>phys := m2\<rparr>) v = Some (p + virt_to_page_offset v)"
    "\<forall>v'. \<not> in_mirror v' \<longrightarrow> drop_bit 12 v' \<noteq> drop_bit 12 v \<longrightarrow> mmu_translate False (g\<lparr>phys := m2\<rparr>) v' = mmu_translate False (pg a) v'"
    "no_range p m2" "page_valid (phys (pg a)) p" "aligned p"
proof -
  let ?s = "pg a" and ?v = "SOS_PAGE_ALIGN_INF v"
  have A: "paging_wf ?s" "ranges_wf (range_at a) (free_ranges a) (used_ranges a)" "used_page a v" "\<not> in_mirror v"
    "mmu_translate False ?s v = None" using assms by (simp_all add: can_page_in_def)
  note W = paging_wfD [OF A(1)]
  have n: "pd_ix v \<noteq> 255" using A(4) not_in_mirror by simp
  have g0: "sos_paging_get_paddr v ?s = Some 0" using get_paddr_mirror [OF A(1), of v] A(5) by simp
  obtain r where r: "r \<in> set (used_ranges a)" "covers (range_at a) r v" using A(3) by (auto simp: used_page_def)
  then have valid: "sos_kmem_vmm_is_valid_vaddr v a = Some True"
    using lookup_unmapped(1) [OF A(2) g0 r] ranges_wfD(2) [OF A(2) r(1)] by (simp add: sos_kmem_vmm_is_valid_vaddr_def range_ok_def)
  have "free_ppage (phys ?s) \<noteq> []" using assms by (auto simp: can_page_in_def split: if_splits)
  then obtain i fs where f: "free_ppage (phys ?s) = i # fs" by (cases "free_ppage (phys ?s)") auto
  obtain p m1 where new: "sos_physmem_ref_physpage_new False (phys ?s) = Some (p, m1)" "pm_wf m1" "p \<noteq> 0" "page_valid (phys ?s) p"
    "page_refs (phys ?s) p = 0" "page_valid m1 = page_valid (phys ?s)" "page_refs m1 = (page_refs (phys ?s))(p := 1)"
    using new_nonempty [OF W(1) f] by blast
  have pd: "p = paddr (descr (phys ?s) i)" "m1 = pm_set i 1 None fs (used_ppage (phys ?s) @ [i]) (phys ?s)"
    using new_run(2) [OF W(1) f, of False] new(1) by simp_all
  have free1: "free_ppage m1 = fs" "no_range p m1"
    using new_run(1) [OF W(1) f] descr_listed(1) [OF W(1) new_run(1) [OF W(1) f]]
    by (simp_all add: pd pm_set_def)
      (auto simp: sos_physmem_get_kmem_range_def get_page_descr_at_paddr_def upd_descr_def n_pages_def split: if_splits option.splits)
  let ?s1 = "?s\<lparr>phys := m1\<rparr>"
  have al: "aligned p" using page_valid_aligned [OF W(1) new(4)] by simp
  have "page_refs (phys ?s) q \<noteq> 0" if "is_table ?s q" for q
    using that W(4) table_refs [OF A(1)] unfolding is_table_def by blast
  then have nt: "\<not> is_table ?s p" using new(5) by blast
  have none: "maps_to ?s p = {}" using W(15) [OF new(4)] new(5) by simp
  have wf1: "paging_wf ?s1" by (rule paging_wf_refs [OF A(1) new(2,6), of p]) (use new(7) nt none in simp_all)
  have free: "has_pt ?s (pd_ix v) \<or> (\<exists>q. page_valid m1 q \<and> page_refs m1 q = 0)"
  proof (cases "has_pt ?s (pd_ix v)")
    case False
    then have "2 \<le> length (free_ppage (phys ?s))" using assms has_pt_iff [OF A(4), of ?s] by (simp add: can_page_in_def)
    then have "free_ppage m1 \<noteq> []" using f free1 by auto
    then show ?thesis using no_free_page [OF new(2)] by auto
  qed simp
  have pre: "\<not> is_table ?s1 p" "page_valid (phys ?s1) p" "page_refs (phys ?s1) p \<noteq> 0" "page_refs (phys ?s1) p < 2 ^ 32 - 1"
    using nt new(4,6,7) by simp_all
  have nv: "pd_ix ?v \<noteq> 255" using n align_ix by simp
  show thesis
  proof (rule map_result [OF wf1 nv pre, of False SOS_PGFLT_FLAGS])
    assume "\<not> has_pt ?s1 (pd_ix ?v)" "\<forall>q. page_valid (phys ?s1) q \<longrightarrow> page_refs (phys ?s1) q \<noteq> 0"
    then show thesis using free by (auto simp: align_ix)
  next
    fix g
    assume mp: "sos_paging_map p ?v False SOS_PGFLT_FLAGS ?s1 = Some (SOS_OK, g)"
      and post: "map_post p (pd_ix ?v) (pt_ix ?v)
        (map_entry False SOS_PGFLT_FLAGS p (if has_pt ?s1 (pd_ix ?v) then pte ?s1 (pd_ix ?v) (pt_ix ?v) else 0)) ?s1 g"
    note P = map_postD [OF post, unfolded align_ix]
    let ?e = "map_entry False SOS_PGFLT_FLAGS p (if has_pt ?s1 (pd_ix v) then pte ?s1 (pd_ix v) (pt_ix v) else 0)"
    have wf: "SOS_PGFLT_FLAGS AND SOS_VM_MAP_PROT_WRITE \<noteq> 0" by code_simp
    have E: "present ?e" "addr_of ?e = p" using map_entry_present [OF al] by blast+
    have Ew: "writable ?e" using wf by (simp add: map_entry_def)
    have D: "present (pde g (pd_ix v))" "writable (pde g (pd_ix v))" using P(3) paging_wfD(8) [OF P(1)] by (simp_all add: has_pt_def)
    have tr: "mmu_translate w g v = Some (p + virt_to_page_offset v)" for w using D E Ew unfolding translate_ix P(4) by simp
    have unmapped: "mapped ?s (pd_ix v) (pt_ix v) = None" using A(5) translate_mapped [OF n, of ?s] by simp
    have mg: "mapped g (pd_ix v) (pt_ix v) = Some p" using tr [of False] translate_mapped [OF n, of g] by (cases "mapped g (pd_ix v) (pt_ix v)") simp_all
    have ntg: "\<not> is_table g p" by (rule paging_wfD(14) [OF P(1) P(3) ix_less(2) mg])
    have "maps_to g p \<subseteq> {(pd_ix v, pt_ix v)}"
    proof clarsimp
      fix j k assume jk: "(j, k) \<in> maps_to g p"
      show "j = pd_ix v \<and> k = pt_ix v"
      proof (rule ccontr)
        assume "\<not> (j = pd_ix v \<and> k = pt_ix v)"
        then have "mapped ?s1 j k = Some p" using jk P(5) by (auto simp: maps_to_def has_pt_def)
        then have "(j, k) \<in> maps_to ?s p" using jk by (auto simp: maps_to_def has_pt_def mapped_def split: if_splits)
        then show False using none by simp
      qed
    qed
    then have card: "card (maps_to g p) \<le> 1" using card_mono [of "{(pd_ix v, pt_ix v)}" "maps_to g p"] by simp
    have "p \<noteq> pt_of g (pd_ix v)" using ntg P(3) by (auto simp: is_table_def)
    then have r2: "page_refs (phys g) p = 2" using P(7) [of p] new(4,6,7) unmapped by simp
    have vg: "page_valid (phys g) p" using P(6) new(4,6) by simp
    obtain m2 where m2: "sos_physmem_unref_physpage p (phys g) = Some (FALSE_ret, m2)" "pm_wf m2" "page_valid m2 = page_valid (phys g)"
      "page_refs m2 = (page_refs (phys g))(p := 1)" using unref_step(2) [OF paging_wfD(1) [OF P(1)] vg] r2 by auto
    have wf2: "paging_wf (g\<lparr>phys := m2\<rparr>)" by (rule paging_wf_refs [OF P(1) m2(2,3), of p]) (use m2(4) ntg card in simp_all)
    have nr: "no_range p m2" using unref_range_kept [OF m2(1)] map_range_kept [OF mp] free1(2) by simp
    show thesis
    proof (rule that [OF valid new(1,3) mp m2(1) wf2 new(5)])
      show "\<forall>v'. \<not> in_mirror v' \<longrightarrow> drop_bit 12 v' \<noteq> drop_bit 12 v \<longrightarrow> mmu_translate False (g\<lparr>phys := m2\<rparr>) v' = mmu_translate False ?s v'"
        using other_page [OF P(5)] by simp
    qed (use m2(4) tr nr new(4) al in simp_all)
  qed
qed

text \<open>A directory with only its mirror entry, and two free pages.\<close>

definition page_in_mem :: physmem where
  "page_in_mem = \<lparr>physical_page_descr_array =
       [\<lparr>paddr = 0, ref_cnt = 0, kernel_range = None\<rparr>,
        \<lparr>paddr = 0x1000, ref_cnt = 1, kernel_range = None\<rparr>,
        \<lparr>paddr = 0x2000, ref_cnt = 0, kernel_range = None\<rparr>,
        \<lparr>paddr = 0x3000, ref_cnt = 0, kernel_range = None\<rparr>],
     free_ppage = [2, 3], used_ppage = [1], physmem_base = 0x1000, physmem_top = 0x4000,
     physmem_total_pages = 4, physmem_used_pages = 1\<rparr>"

lemma page_in_mem_wf: "pm_wf page_in_mem"
  by (simp add: pm_wf_def pm_geometry_def pm_lists_def n_pages_def page_in_mem_def SOS_PAGE_SIZE_def upt_rec,
      simp add: numeral_2_eq_2 numeral_3_eq_3)

definition page_in_alloc :: Kmem.kmem where
  "page_in_alloc = km_example\<lparr>pg := pg_example\<lparr>phys := page_in_mem\<rparr>\<rparr>"

lemma page_in_example: "can_page_in 0x5050 page_in_alloc"
proof -
  have nh: "\<not> has_pt pg_example j" for j by (rule pg_example_wf(3))
  have c: "cr3 pg_example = 0x1000" "phys pg_example = pg_mem" by (simp_all add: pg_example_def)
  have v: "page_valid page_in_mem = page_valid pg_mem"
    by (simp add: fun_eq_iff page_valid_def get_page_descr_at_paddr_def page_in_mem_def pg_mem_def)
  have r: "page_refs page_in_mem 0x1000 = 1"
    by (simp add: page_refs_def get_page_descr_at_paddr_def page_in_mem_def page_defs drop_bit_eq_div)
  note W = paging_wfD [OF pg_example_wf(1)]
  have "maps_to pg_example p = {}" for p using nh by (simp add: maps_to_def)
  then have wf: "paging_wf (pg_example\<lparr>phys := page_in_mem\<rparr>)"
    using W(2,3,5-7) nh page_in_mem_wf v r c unfolding paging_wf_def by simp
  have m: "\<not> in_mirror 0x5050" by code_simp
  then have p: "pd_ix 0x5050 \<noteq> 255" using not_in_mirror by blast
  have np: "\<not> present (ram pg_example (cr3 pg_example + 4 * virt_to_pd_index 0x5050))" using has_pt_iff [OF m, of pg_example] nh by simp
  then have t: "mmu_translate False pg_example 0x5050 = None" by (simp add: mmu_translate_def Let_def)
  have "used_page page_in_alloc 0x5050"
    by (simp add: page_in_alloc_def km_example_def covers_def used_page_def r_start_def r_end_def)
  moreover have "ranges_wf (range_at page_in_alloc) (free_ranges page_in_alloc) (used_ranges page_in_alloc)"
    using km_example_ok(1) [OF p] by (simp add: page_in_alloc_def)
  ultimately show ?thesis using wf m t np by (simp add: can_page_in_def) (simp add: page_in_alloc_def page_in_mem_def)
qed

section \<open>Properties\<close>

text \<open>
  C5: Demand paging. A fault at an address of a used range where nothing is mapped is repaired, when there are enough free pages: the
  address is then mapped, for reading and for writing, to a page that was free and that has only this
  reference; an address of any other page outside the mirror of the page tables is translated for reading as before (the entries
  seen through the mirror are those that changed), the page tables stay consistent, and neither the ranges nor the slabs have changed.
\<close>

theorem demand_paging:
  assumes "can_page_in cr2 (alloc m)"
  shows "\<exists>p m'. pgflt_ex cr2 ctxt m = Some m' \<and> alloc m' = (alloc m)\<lparr>pg := pg (alloc m')\<rparr> \<and> paging_wf (pg (alloc m')) \<and>
     page_refs (phys (pg (alloc m))) p = 0 \<and> page_refs (phys (pg (alloc m'))) p = 1 \<and>
     (\<forall>w. mmu_translate w (pg (alloc m')) cr2 = Some (p + virt_to_page_offset cr2)) \<and>
     (\<forall>v. \<not> in_mirror v \<longrightarrow> drop_bit 12 v \<noteq> drop_bit 12 cr2 \<longrightarrow>
        mmu_translate False (pg (alloc m')) v = mmu_translate False (pg (alloc m)) v)"
proof -
  obtain p m1 g m2 where P: "sos_kmem_vmm_is_valid_vaddr cr2 (alloc m) = Some True"
    "sos_physmem_ref_physpage_new False (phys (pg (alloc m))) = Some (p, m1)" "p \<noteq> 0"
    "sos_paging_map p (SOS_PAGE_ALIGN_INF cr2) False SOS_PGFLT_FLAGS ((pg (alloc m))\<lparr>phys := m1\<rparr>) = Some (SOS_OK, g)"
    "sos_physmem_unref_physpage p (phys g) = Some (FALSE_ret, m2)" "paging_wf (g\<lparr>phys := m2\<rparr>)" "page_refs (phys (pg (alloc m))) p = 0" "page_refs m2 p = 1"
    "\<forall>w. mmu_translate w (g\<lparr>phys := m2\<rparr>) cr2 = Some (p + virt_to_page_offset cr2)"
    "\<forall>v'. \<not> in_mirror v' \<longrightarrow> drop_bit 12 v' \<noteq> drop_bit 12 cr2 \<longrightarrow>
       mmu_translate False (g\<lparr>phys := m2\<rparr>) v' = mmu_translate False (pg (alloc m)) v'"
    by (rule page_in [OF assms])
  obtain m' where "pgflt_ex cr2 ctxt m = Some m'" "alloc m' = (alloc m)\<lparr>pg := g\<lparr>phys := m2\<rparr>\<rparr>"
    using P(1-5) by (simp add: pgflt_ex_def sos_cpu_context_get_EX_faulting_vaddr_def on_screen_def)
  then show ?thesis using P(6-10) by (intro exI [of _ p] exI [of _ m']) simp
qed

theorem demand_paging_witness:
  "\<exists>p m'. pgflt_ex 0x5050 0 (example_machine page_in_alloc) = Some m' \<and> mmu_translate True (pg (alloc m')) 0x5050 = Some (p + 0x50) \<and>
     page_refs page_in_mem p = 0"
proof -
  let ?m = "example_machine page_in_alloc"
  have "can_page_in 0x5050 (alloc ?m)" using page_in_example by (simp add: example_machine_def)
  moreover have "phys (pg (alloc ?m)) = page_in_mem" by (simp add: example_machine_def page_in_alloc_def)
  moreover have "virt_to_page_offset 0x5050 = 0x50" by code_simp
  ultimately show ?thesis using demand_paging [of "0x5050" ?m 0] by auto
qed

text \<open>
  C20: The page that demand paging has provided belongs to no range for the physical page allocator, which the lookup of a range
  asserts for every mapped page: once an address has been paged in, asking whether an address of this page is valid, or freeing one with
  \<open>sos_kmem_vmm_free\<close> or \<open>sos_kfree\<close>, halts the kernel.
\<close>

theorem demand_paged_halts:
  assumes "can_page_in cr2 (alloc m)" and "drop_bit 12 v = drop_bit 12 cr2"
  shows "\<exists>m'. pgflt_ex cr2 ctxt m = Some m' \<and> sos_kmem_vmm_is_valid_vaddr v (alloc m') = None \<and> sos_kmem_vmm_free v (alloc m') = None \<and>
     sos_kfree v (alloc m') = None"
proof -
  obtain p m1 g m2 where P: "sos_kmem_vmm_is_valid_vaddr cr2 (alloc m) = Some True"
    "sos_physmem_ref_physpage_new False (phys (pg (alloc m))) = Some (p, m1)" "p \<noteq> 0"
    "sos_paging_map p (SOS_PAGE_ALIGN_INF cr2) False SOS_PGFLT_FLAGS ((pg (alloc m))\<lparr>phys := m1\<rparr>) = Some (SOS_OK, g)"
    "sos_physmem_unref_physpage p (phys g) = Some (FALSE_ret, m2)" "paging_wf (g\<lparr>phys := m2\<rparr>)"
    "\<forall>w. mmu_translate w (g\<lparr>phys := m2\<rparr>) cr2 = Some (p + virt_to_page_offset cr2)" "no_range p m2" "aligned p"
    by (rule page_in [OF assms(1)])
  obtain m' where m': "pgflt_ex cr2 ctxt m = Some m'" "alloc m' = (alloc m)\<lparr>pg := g\<lparr>phys := m2\<rparr>\<rparr>"
    using P(1-5) by (simp add: pgflt_ex_def sos_cpu_context_get_EX_faulting_vaddr_def on_screen_def)
  have ix: "pd_ix v = pd_ix cr2" "pt_ix v = pt_ix cr2" using page_ix [of v cr2] assms(2) by simp_all
  have n: "pd_ix cr2 \<noteq> 255" using assms(1) not_in_mirror by (simp add: can_page_in_def)
  have "mapped g (pd_ix cr2) (pt_ix cr2) = Some p"
    using P(7) translate_mapped [OF n, of g] by (cases "mapped g (pd_ix cr2) (pt_ix cr2)") simp_all
  then have "mmu_translate False (g\<lparr>phys := m2\<rparr>) v = Some (p + virt_to_page_offset v)"
    using translate_mapped [of v g] n by (simp add: ix)
  then have g: "sos_paging_get_paddr v (g\<lparr>phys := m2\<rparr>) = Some (p + virt_to_page_offset v)" using get_paddr_mirror [OF P(6), of v] by simp
  have al: "SOS_PAGE_ALIGN_INF (p + virt_to_page_offset v) = p"
  proof -
    have o: "unat (virt_to_page_offset v) < 4096" by (simp add: unat_offset)
    have "unat p mod 4096 = 0" "unat p \<le> 2 ^ 32 - 4096" using P(9) aligned_le by simp_all
    moreover from this have "unat (p + virt_to_page_offset v) = unat p + unat (virt_to_page_offset v)"
      using o by (intro unat_add_lem [THEN iffD1]) simp
    moreover obtain k where k: "unat p = 4096 * k" using \<open>unat p mod 4096 = 0\<close> by auto
    have "(4096 * k + unat (virt_to_page_offset v)) div 4096 = k" using o by (simp add: div_mult_self4)
    ultimately have "unat (SOS_PAGE_ALIGN_INF (p + virt_to_page_offset v)) = unat p"
      using unat_align_inf [of "p + virt_to_page_offset v" 12] k by (simp add: SOS_PAGE_ALIGN_INF_def SOS_PAGE_SIZE_def)
    then show ?thesis by (simp add: word_unat_eq_iff)
  qed
  have l: "lookup_range v (alloc m') = None" using P(3,8) by (simp add: lookup_range_def m'(2) g al Let_def)
  then have "free_object v (alloc m') = None" by (simp add: free_object_def sos_kmem_vmm_resolve_slab_def)
  then have "sos_kmem_cache_free v (alloc m') = None" by (subst sos_kmem_cache_free.simps) simp
  then show ?thesis using m'(1) l by (simp add: sos_kmem_vmm_is_valid_vaddr_def sos_kmem_vmm_free_def sos_kfree_def)
qed

theorem demand_paged_halts_witness:
  "\<exists>m'. pgflt_ex 0x5050 0 (example_machine page_in_alloc) = Some m' \<and> sos_kfree 0x5000 (alloc m') = None"
proof -
  have "can_page_in 0x5050 (alloc (example_machine page_in_alloc))" using page_in_example by (simp add: example_machine_def)
  moreover have "drop_bit 12 0x5000 = (drop_bit 12 0x5050 :: u32)" by (simp add: drop_bit_eq_div)
  ultimately show ?thesis using demand_paged_halts by blast
qed

section \<open>The clock interrupt\<close>

text \<open>The two bytes of a cell of the screen, counted from its start.\<close>

lemma put_cell_video: "c \<noteq> 10 \<Longrightarrow> c \<noteq> 13 \<Longrightarrow> video (put_cell a c s) =
    (video s)((xpos s + ypos s * COLUMNS) * 2 := ucast (c AND 0xFF), (xpos s + ypos s * COLUMNS) * 2 + 1 := a)"
  by (simp add: put_cell_def newline_def Let_def)

definition bit_char :: "u32 \<Rightarrow> nat \<Rightarrow> u8" where
  "bit_char integer i = (if bit integer i then 219 else 177)"

lemma bit_code: "ucast ((if integer AND push_bit i 1 \<noteq> 0 then 219 else 177 :: u32) AND 0xFF) = bit_char integer i" if "i < 32"
proof -
  have "integer AND push_bit i 1 \<noteq> 0 \<longleftrightarrow> bit integer i"
    using that by (metis bit_and_iff bit_iff_and_push_bit_not_eq_0)
  then show ?thesis by (simp add: bit_char_def)
qed

lemma display_bits_video:
  assumes "uint col + int (length ks) \<le> 256" "\<forall>i \<in> set ks. i < 32"
  shows "video (display_bits_loop ks row col a n c) j =
    (let k = j div 2 - (uint col + uint row * COLUMNS)
     in if 0 \<le> k \<and> k < int (length ks) then (if even j then bit_char n (ks ! nat k) else a) else video c j)"
  using assms
proof (induction ks arbitrary: col c)
  case Nil
  then show ?case by (auto simp: Let_def)
next
  case (Cons i ks)
  define b where "b = uint col + uint row * COLUMNS"
  define ch :: u32 where "ch = (if n AND push_bit i 1 \<noteq> 0 then 219 else 177)"
  define c1 where "c1 = os_putchar (uint row) (uint col) a ch c"
  have "ch \<noteq> 10" "ch \<noteq> 13" by (simp_all add: ch_def)
  then have v1: "video c1 = (video c)(b * 2 := bit_char n i, b * 2 + 1 := a)"
    using bit_code [of i n] Cons.prems(2) by (simp add: c1_def os_putchar_def put_cell_video b_def ch_def)
  have l: "display_bits_loop (i # ks) row col a n c = display_bits_loop ks row (col + 1) a n c1"
    by (simp add: c1_def ch_def Let_def)
  show ?case
  proof (cases "ks = []")
    case True
    have "j = b * 2 \<or> j = b * 2 + 1 \<longleftrightarrow> j div 2 = b" by presburger
    then show ?thesis unfolding l b_def [symmetric] using True v1 by (auto simp: Let_def)
  next
    case False
    then have "uint (col + 1) = uint col + 1" using Cons.prems(1)
      by (subst uint_add_lem [THEN iffD1]) (cases ks, simp_all)
    then have IH: "video (display_bits_loop ks row (col + 1) a n c1) j =
      (let k = j div 2 - (b + 1) in if 0 \<le> k \<and> k < int (length ks) then (if even j then bit_char n (ks ! nat k) else a) else video c1 j)"
      using Cons.IH [of "col + 1" c1] Cons.prems by (simp add: b_def algebra_simps)
    consider "j div 2 = b" | "j div 2 < b" | "j div 2 \<ge> b + 1" by linarith
    then show ?thesis
    proof cases
      case 1
      then have "j = b * 2 \<or> j = b * 2 + 1" by presburger
      then show ?thesis unfolding l IH b_def [symmetric] using 1 v1 by (auto simp: Let_def)
    next
      case 2
      then have "j \<noteq> b * 2" "j \<noteq> b * 2 + 1" by presburger+
      then show ?thesis unfolding l IH b_def [symmetric] using 2 v1 by (simp add: Let_def)
    next
      case 3
      then have ne: "j \<noteq> b * 2" "j \<noteq> b * 2 + 1" by presburger+
      have "nat (j div 2 - b) = Suc (nat (j div 2 - (b + 1)))" using 3 by simp
      then have "(i # ks) ! nat (j div 2 - b) = ks ! nat (j div 2 - (b + 1))" by simp
      then show ?thesis unfolding l IH b_def [symmetric] using 3 v1 ne by (simp add: Let_def)
    qed
  qed
qed

text \<open>
  C35: The clock interrupt shows its count in the last 32 cells of the first row, the most significant bit first, a dark character for a
  one and a light one for a zero, and writes nowhere else. It counts, modulo \<open>2^32\<close>, and does nothing more: the kernel time and the threads are
  as before. The cursor of the console, which the interrupted code may be using, is left at the start of the second row.
\<close>

theorem clock_interrupt:
  shows "\<exists>v. clk_it intid m = m\<lparr>world := (world m)\<lparr>screen := \<lparr>xpos = 0, ypos = 1, video = v\<rparr>\<rparr>, clock_count := clock_count m + 1\<rparr> \<and>
     (\<forall>k. k < 32 \<longrightarrow> v (96 + 2 * int k) = (if bit (clock_count m) (31 - k) then 219 else 177) \<and> v (97 + 2 * int k) = 26) \<and>
     (\<forall>j. j < 96 \<or> j \<ge> 160 \<longrightarrow> v j = video (screen (world m)) j)"
proof -
  let ?n = "clock_count m" and ?c = "screen (world m)"
  define c where "c = display_bits 0 48 26 ?n ?c"
  have a: "ucast (FG_LTGREEN OR BG_BLUE) = (26 :: u8)" by code_simp
  have v: "video c j = (let k = j div 2 - 48 in if 0 \<le> k \<and> k < 32
      then (if even j then bit_char ?n (rev [0..<32] ! nat k) else 26) else video ?c j)" for j
    using display_bits_video [where col = 48 and row = 0 and ks = "rev [0..<32]" and a = 26 and n = ?n and c = ?c and j = j]
    unfolding c_def display_bits_def by simp
  have pos: "xpos c = 0 \<and> ypos c = 1"
  proof -
    have r: "rev [0..<32] = rev [Suc 0..<32] @ [0]" by (simp add: upt_rec)
    have snoc: "display_bits_loop (xs @ [0]) 0 col b n t =
        os_putchar 0 (uint (col + word_of_nat (length xs))) b (if n AND push_bit 0 1 \<noteq> 0 then 219 else 177) (display_bits_loop xs 0 col b n t)"
      for xs col b n t
      by (induction xs arbitrary: col t) (simp_all add: Let_def algebra_simps)
    have u: "uint (48 + word_of_nat (length (rev [Suc 0..<32])) :: u8) = 79" by simp
    show ?thesis unfolding c_def display_bits_def r snoc u
      by (simp add: os_putchar_def put_cell_def newline_def Let_def COLUMNS_def LINES_def)
  qed
  have "clk_it intid m = m\<lparr>world := (world m)\<lparr>screen := \<lparr>xpos = 0, ypos = 1, video = video c\<rparr>\<rparr>, clock_count := clock_count m + 1\<rparr>"
    using pos by (simp add: clk_it_def on_screen_def a c_def)
  moreover have "video c (96 + 2 * int k) = (if bit ?n (31 - k) then 219 else 177) \<and> video c (97 + 2 * int k) = 26" if "k < 32" for k
  proof -
    have d: "(96 + 2 * int k) div 2 - 48 = int k" "(97 + 2 * int k) div 2 - 48 = int k" by presburger+
    have "rev [0..<32] ! k = 31 - k" using that by (simp add: rev_nth)
    then show ?thesis using that unfolding v d by (simp add: Let_def bit_char_def)
  qed
  moreover have "video c j = video ?c j" if "j < 96 \<or> j \<ge> 160" for j
  proof -
    have "\<not> (0 \<le> j div 2 - 48 \<and> j div 2 - 48 < 32)" using that by presburger
    then show ?thesis unfolding v by (auto simp: Let_def)
  qed
  ultimately show ?thesis by (intro exI [of _ "video c"]) simp
qed

theorem clock_interrupt_witness:
  "let v = video (screen (world (clk_it 0 (example_machine page_in_alloc)))) in v 158 = 219 \<and> v 156 = 177 \<and> v 160 = 32"
proof -
  let ?m = "example_machine page_in_alloc"
  have c: "clock_count ?m = 5" "video (screen (world ?m)) 160 = 32" by (simp_all add: example_machine_def example_world_def)
  have b: "bit (5 :: u32) 0" "\<not> bit (5 :: u32) 1" by (simp_all add: bit_iff_odd)
  obtain v where v: "clk_it 0 ?m = ?m\<lparr>world := (world ?m)\<lparr>screen := \<lparr>xpos = 0, ypos = 1, video = v\<rparr>\<rparr>, clock_count := clock_count ?m + 1\<rparr>"
      "\<forall>k. k < 32 \<longrightarrow> v (96 + 2 * int k) = (if bit (5 :: u32) (31 - k) then 219 else 177) \<and> v (97 + 2 * int k) = 26"
      "\<forall>j. j < 96 \<or> j \<ge> 160 \<longrightarrow> v j = video (screen (world ?m)) j"
    using clock_interrupt [of 0 ?m] unfolding c(1) by blast
  then show ?thesis using b c(2) v(2) [rule_format, of 31] v(2) [rule_format, of 30] by simp
qed

end
