(* ===== verification/Kernel_boot.thy ===== *)
theory Kernel_boot
  imports Kernel_props
begin

text \<open>
  The boot (\<^verbatim>\<open>os/kernel.c\<close>): the refusal of a loader or of boot information that the kernel cannot use, and the
  state of the descriptor tables, of the handlers and of the interrupt and timer chips when the boot is about to enable the interrupts.
\<close>

section \<open>The hardware at the end of its set-up\<close>



















section \<open>A line on a cleared screen\<close>

definition line_char :: "char \<Rightarrow> bool" where "line_char ch \<longleftrightarrow> ch \<noteq> CHR 0x0A \<and> ch \<noteq> CHR 0x0D"

lemma ucast_low_byte: "ucast (int_of_char ch AND 0xFF) = (of_char ch :: u8)"
  by (cases ch) (simp add: int_of_char_def of_char_def; code_simp)

lemma line_char_code: "line_char ch \<Longrightarrow> int_of_char ch \<noteq> 10 \<and> int_of_char ch \<noteq> 13"
proof -
  assume l: "line_char ch"
  have n: "(of_char ch :: nat) < 256" by simp
  have "(of_char ch :: nat) \<noteq> of_char CHR 0x0A" "(of_char ch :: nat) \<noteq> of_char CHR 0x0D"
    using l unfolding line_char_def by (simp_all only: of_char_eq_iff not_False_eq_True)
  then have "unat (word_of_nat (of_char ch) :: u8) \<noteq> unat (10 :: u8)" "unat (word_of_nat (of_char ch) :: u8) \<noteq> unat (13 :: u8)"
    using n by (simp_all add: unat_of_nat take_bit_nat_eq_self)
  then have w: "(word_of_nat (of_char ch) :: u8) \<noteq> 10" "(word_of_nat (of_char ch) :: u8) \<noteq> 13" by auto
  have "ucast (scast b :: u32) = b" for b :: u8 by (rule bit_eqI) (auto simp: bit_simps)
  from this [of "word_of_nat (of_char ch)"] have u: "(ucast (int_of_char ch) :: u8) = word_of_nat (of_char ch)" by (simp add: int_of_char_def)
  show ?thesis using u w by auto
qed

lemma put_line:
  assumes "xpos c = int x" "ypos c = 0" "x + length t < 80" "\<forall>ch \<in> set t. line_char ch"
  shows "\<exists>v. fold putchar (map int_of_char t) c = c\<lparr>xpos := int (x + length t), video := v\<rparr> \<and>
     (\<forall>k < length t. v (2 * int (x + k)) = of_char (t ! k) \<and> v (2 * int (x + k) + 1) = ATTRIBUTE) \<and>
     (\<forall>j. j < 2 * int x \<or> j \<ge> 2 * int (x + length t) \<longrightarrow> v j = video c j)"
  using assms
proof (induction t arbitrary: c x)
  case Nil
  then show ?case by (intro exI [of _ "video c"]) (simp add: assms)
next
  case (Cons ch t)
  let ?c = "c\<lparr>xpos := int (Suc x), video := (video c)(2 * int x := of_char ch, 2 * int x + 1 := ATTRIBUTE)\<rparr>"
  have "putchar (int_of_char ch) c = ?c"
    using Cons.prems line_char_code [of ch]
    by (simp add: putchar_def put_cell_def newline_def Let_def COLUMNS_def ucast_low_byte mult.commute add.commute)
  moreover obtain v where v: "fold putchar (map int_of_char t) ?c = ?c\<lparr>xpos := int (Suc x + length t), video := v\<rparr>"
      "\<forall>k < length t. v (2 * int (Suc x + k)) = of_char (t ! k) \<and> v (2 * int (Suc x + k) + 1) = ATTRIBUTE"
      "\<forall>j. j < 2 * int (Suc x) \<or> j \<ge> 2 * int (Suc x + length t) \<longrightarrow> v j = video ?c j"
    using Cons.IH [of ?c "Suc x"] Cons.prems by auto
  ultimately have "fold putchar (map int_of_char (ch # t)) c = c\<lparr>xpos := int (x + length (ch # t)), video := v\<rparr>" by simp
  moreover have "v (2 * int (x + k)) = of_char ((ch # t) ! k) \<and> v (2 * int (x + k) + 1) = ATTRIBUTE" if "k < length (ch # t)" for k
    using v(2) v(3) [rule_format, of "2 * int x"] v(3) [rule_format, of "2 * int x + 1"] that by (cases k) simp_all
  moreover have "v j = video c j" if "j < 2 * int x \<or> j \<ge> 2 * int (x + length (ch # t))" for j
  proof -
    have "j < 2 * int (Suc x) \<or> j \<ge> 2 * int (Suc x + length t)" using that by auto
    then show ?thesis using v(3) that by auto
  qed
  ultimately show ?case by blast
qed

lemma hex_text_chars: "ch \<in> set (hex_text n) \<Longrightarrow> line_char ch"
proof -
  assume "ch \<in> set (hex_text n)"
  then obtain d where d: "ch = digit_char d" "d < 16" using digits_bound [of 16] by (auto simp: hex_text_def)
  then have "(of_char ch :: nat) \<ge> 48" by (simp add: digit_char_def)
  then show "line_char ch" by (auto simp: line_char_def)
qed

lemma hex_text_length: "n < 16 ^ Suc k \<Longrightarrow> length (hex_text n) \<le> Suc k"
proof (induction k arbitrary: n)
  case 0
  then show ?case by (simp add: hex_text_def digits.simps)
next
  case (Suc k)
  have "n div 16 < 16 ^ Suc k" using Suc.prems by (simp add: div_less_iff_less_mult)
  from Suc.IH [OF this] show ?case by (subst hex_text_def, subst digits.simps) (simp add: hex_text_def)
qed

definition refusal :: "u32 \<Rightarrow> u32 \<Rightarrow> string" where
  "refusal magic addr = (if magic \<noteq> MULTIBOOT2_BOOTLOADER_MAGIC then ''Invalid magic number: 0x'' @ hex_text (unat magic)
     else ''Unaligned mbi: 0x'' @ hex_text (unat addr))"

lemma refusal_line: "length (refusal magic addr) < 80" "\<forall>ch \<in> set (refusal magic addr). line_char ch"
proof -
  have "unat w < 16 ^ Suc 7" for w :: u32 using unsigned_less [of w, where 'a = nat] by simp
  from hex_text_length [OF this] have len: "length (hex_text (unat w)) \<le> 8" for w :: u32 by simp
  show "length (refusal magic addr) < 80" "\<forall>ch \<in> set (refusal magic addr). line_char ch"
    using len [of magic] len [of addr] hex_text_chars by (auto simp: refusal_def line_char_def)
qed

lemma printf_hex: "CHR ''%'' \<notin> set p \<Longrightarrow>
    printf (p @ [CHR ''%'', CHR ''x'', CHR 0x0A]) [Num w] c = Some (putchar 10 (fold putchar (map int_of_char (p @ hex_text (unat w))) c))"
proof -
  assume p: "CHR ''%'' \<notin> set p"
  have nl: "int_of_char CHR 0x0A = 10" by code_simp
  have "printf_text (p @ [CHR ''%'', CHR ''x'', CHR 0x0A]) [Num w] = Some (map int_of_char (p @ hex_text (unat w)) @ [10])"
    using p
  proof (induction p)
    case (Cons a p)
    then have "a \<noteq> CHR ''%''" by auto
    then show ?case using Cons by simp
  qed (simp add: conversion.simps padded_def number_text_def nl)
  then show ?thesis by (simp add: printf_def printf_loop_text)
qed

text \<open>
  Started by a loader that is not compliant, or with boot information that is not aligned, the kernel shows why on the first row of a
  cleared screen, with the value in hexadecimal, and returns: no other part of the machine is changed, and nothing outside of the
  video memory is written.
\<close>

theorem cmain_refuses:
  assumes "magic \<noteq> MULTIBOOT2_BOOTLOADER_MAGIC \<or> addr AND 7 \<noteq> 0"
  shows "\<exists>v. cmain magic addr i m = Some (Refused (m\<lparr>world := (world m)\<lparr>screen := \<lparr>xpos = 0, ypos = 1, video = v\<rparr>\<rparr>\<rparr>)) \<and>
     (\<forall>k < length (refusal magic addr). v (2 * int k) = of_char (refusal magic addr ! k) \<and> v (2 * int k + 1) = ATTRIBUTE) \<and>
     (\<forall>j. 2 * int (length (refusal magic addr)) \<le> j \<and> j < 3840 \<longrightarrow> v j = 0) \<and>
     (\<forall>j. j < 0 \<or> 3840 \<le> j \<longrightarrow> v j = video (screen (world m)) j)"
proof -
  define c where "c = cls (screen (world m))"
  let ?t = "refusal magic addr"
  note t = refusal_line [of magic addr]
  obtain v where v: "fold putchar (map int_of_char ?t) c = c\<lparr>xpos := int (length ?t), video := v\<rparr>"
      "\<forall>k < length ?t. v (2 * int k) = of_char (?t ! k) \<and> v (2 * int k + 1) = ATTRIBUTE"
      "\<forall>j. j < 0 \<or> j \<ge> 2 * int (length ?t) \<longrightarrow> v j = video c j"
    using put_line [of c 0 ?t] t by (auto simp: c_def cls_def)
  have nl: "putchar 10 (c\<lparr>xpos := int (length ?t), video := v\<rparr>) = \<lparr>xpos = 0, ypos = 1, video = v\<rparr>"
    by (simp add: c_def cls_def putchar_def put_cell_def newline_def Let_def LINES_def)
  have f: "printf (''Invalid magic number: 0x%x'' @ [CHR 0x0A]) [Num w] c =
        Some (putchar 10 (fold putchar (map int_of_char (''Invalid magic number: 0x'' @ hex_text (unat w))) c))"
      "printf (''Unaligned mbi: 0x%x'' @ [CHR 0x0A]) [Num w] c =
        Some (putchar 10 (fold putchar (map int_of_char (''Unaligned mbi: 0x'' @ hex_text (unat w))) c))" for w
    using printf_hex [of "''Invalid magic number: 0x''" w c] printf_hex [of "''Unaligned mbi: 0x''" w c] by simp_all
  have "cmain magic addr i m = Some (Refused (m\<lparr>world := (world m)\<lparr>screen := \<lparr>xpos = 0, ypos = 1, video = v\<rparr>\<rparr>\<rparr>))"
  proof (cases "magic \<noteq> MULTIBOOT2_BOOTLOADER_MAGIC")
    case True
    then show ?thesis using f(1) [of magic] v(1) nl
      by (simp add: cmain_def printf_on_def on_screen_def refusal_def c_def [symmetric])
  next
    case False
    then show ?thesis using f(2) [of addr] v(1) nl assms
      by (simp add: cmain_def printf_on_def on_screen_def refusal_def c_def [symmetric])
  qed
  moreover have "v j = 0" if "2 * int (length ?t) \<le> j" "j < 3840" for j
    using v(3) [rule_format, of j] that by (simp add: c_def cls_def COLUMNS_def LINES_def)
  moreover have "v j = video (screen (world m)) j" if "j < 0 \<or> 3840 \<le> j" for j
    using v(3) [rule_format, of j] that t(1) by (auto simp: c_def cls_def COLUMNS_def LINES_def)
  ultimately show ?thesis using v(2) by blast
qed

theorem cmain_refuses_witness:
  "\<exists>v. cmain 0x2badb002 0x10000 example_boot (example_machine km_example) = Some (Refused ((example_machine km_example)
       \<lparr>world := example_world\<lparr>screen := \<lparr>xpos = 0, ypos = 1, video = v\<rparr>\<rparr>\<rparr>)) \<and> v 0 = 73 \<and> v 3840 = 32"
proof -
  have w: "world (example_machine km_example) = example_world" "video (screen example_world) 3840 = 32"
    by (simp_all add: example_machine_def example_world_def)
  have "refusal 0x2badb002 0x10000 = CHR ''I'' # drop 1 (refusal 0x2badb002 0x10000)"
    by (simp add: refusal_def MULTIBOOT2_BOOTLOADER_MAGIC_def)
  then have r: "0 < length (refusal 0x2badb002 0x10000)" "refusal 0x2badb002 0x10000 ! 0 = CHR ''I''" by (metis length_greater_0_conv list.simps(3), metis nth_Cons_0)
  have c: "(of_char CHR ''I'' :: u8) = 73" by code_simp
  have "(0x2badb002 :: u32) \<noteq> MULTIBOOT2_BOOTLOADER_MAGIC \<or> (0x10000 :: u32) AND 7 \<noteq> 0" by (simp add: MULTIBOOT2_BOOTLOADER_MAGIC_def)
  from cmain_refuses [OF this, of example_boot "example_machine km_example"] obtain v where
    "cmain 0x2badb002 0x10000 example_boot (example_machine km_example) = Some (Refused ((example_machine km_example)
       \<lparr>world := example_world\<lparr>screen := \<lparr>xpos = 0, ypos = 1, video = v\<rparr>\<rparr>\<rparr>))"
    "\<forall>k < length (refusal 0x2badb002 0x10000). v (2 * int k) = of_char (refusal 0x2badb002 0x10000 ! k) \<and> v (2 * int k + 1) = ATTRIBUTE"
    "\<forall>j. j < 0 \<or> 3840 \<le> j \<longrightarrow> v j = video (screen example_world) j"
    unfolding w(1) by blast
  then show ?thesis using r c w(2) by (intro exI [of _ v]) auto
qed

end
