(* ===== verification/Interrupt_wrappers.thy ===== *)
theory Interrupt_wrappers
  imports Interrupts_props
begin

text \<open>
  The wrappers of the interrupts and of the exceptions (\<^verbatim>\<open>hwcore/irq_wrappers.S\<close>, \<^verbatim>\<open>hwcore/exception_wrappers.S\<close>), cut at the call of the
  routine: what the processor and the wrapper push before it, and what happens after it. The context that they leave on the stack is
  the one of \<open>Cpu_context\<close>. What a routine does in between is \<open>handler_run\<close>: its own work, and the interrupts and exceptions that
  arrive meanwhile, in any number and depth.
\<close>

section \<open>Entry and exit\<close>

definition pushl :: "u32 \<Rightarrow> u32 \<times> mem \<Rightarrow> u32 \<times> mem" where
  "pushl v st = (let esp = fst st - 4 in (esp, store32 esp v (snd st)))"

definition pushw :: "u16 \<Rightarrow> u32 \<times> mem \<Rightarrow> u32 \<times> mem" where
  "pushw v st = (let esp = fst st - 2 in (esp, store16 esp v (snd st)))"

text \<open>What the processor pushes when it takes an interrupt or an exception in kernel mode, the error code aside.\<close>

definition cpu_interrupt :: "cpu_regs \<Rightarrow> mem \<Rightarrow> u32 \<times> mem" where
  "cpu_interrupt r m = pushl (r_eip r) (pushl (r_cs r) (pushl (r_eflags r) (r_esp r, m)))"

text \<open>The backup of the registers, the same in all wrappers.\<close>

definition backup_context :: "cpu_regs \<Rightarrow> u32 \<times> mem \<Rightarrow> u32 \<times> mem" where
  "backup_context r st = (
     let st = pushl (r_ebp r) st;
         st = pushl (r_edi r) st;
         st = pushl (r_esi r) st;
         st = pushl (r_edx r) st;
         st = pushl (r_ecx r) st;
         st = pushl (r_ebx r) st;
         st = pushl (r_eax r) st;
         st = (fst st - 2, snd st);
         st = pushw (r_ss r) st;
         st = pushw (r_ds r) st;
         st = pushw (r_es r) st;
         st = pushw (r_fs r) st
     in pushw (r_gs r) st)"

text \<open>
  The state in which the routine is called: the stack pointer, the address of the routine, the memory and the interrupt state. The end of interrupt
  goes to the slave controller first.
\<close>

definition irq_wrapper_entry :: "nat \<Rightarrow> cpu_regs \<Rightarrow> mem \<Rightarrow> intr \<Rightarrow> u32 \<times> sos_vaddr_t \<times> mem \<times> intr" where
  "irq_wrapper_entry nr r m s = (
     let st = cpu_interrupt r m;
         st = pushl 0 st;
         st = backup_context r st;
         s = s\<lparr>sos_irq_nested_level_counter := sos_irq_nested_level_counter s + 1\<rparr>;
         s = (if nr < 8 then outb 0x20 0x20 s else outb 0x20 0x20 (outb 0x20 0xa0 s));
         (esp, m) = pushl (word_of_nat nr) st
     in (esp, sos_irq_handler_array s ! nr, m, s))"

text \<open>The fatal error when the subtraction borrows is no result.\<close>

definition irq_wrapper_exit :: "u32 \<Rightarrow> mem \<Rightarrow> intr \<Rightarrow> (cpu_regs \<times> mem \<times> intr) option" where
  "irq_wrapper_exit esp m s = (
     let esp = esp + 4;
         borrow = sos_irq_nested_level_counter s < 1;
         s = s\<lparr>sos_irq_nested_level_counter := sos_irq_nested_level_counter s - 1\<rparr>
     in if borrow then None else Some (restore_context esp m, m, s))"

text \<open>The exceptions for which the processor pushes an error code; for the double fault it is zero.\<close>

definition has_error_code :: "nat \<Rightarrow> bool" where
  "has_error_code nr \<longleftrightarrow> nr \<in> set [8, 10, 11, 12, 13, 14, 17]"

text \<open>
  The numbers of the two families of wrappers that call a routine: those of the first push a zero where the processor pushed no error code.
  The double fault is in neither: its wrapper (\<open>double_fault_wrapper\<close>) leaves the stack, shows a message and halts. There is no entry
  for it here, nor for a number that is not an exception.
\<close>

definition wrappers_without_code :: "nat list" where
  "wrappers_without_code = [0..<8] @ [9, 15, 16] @ [18..<32]"

definition wrappers_with_code :: "nat list" where
  "wrappers_with_code = [10, 11, 12, 13, 14, 17]"

definition exception_wrapper_entry :: "nat \<Rightarrow> u32 \<Rightarrow> cpu_regs \<Rightarrow> mem \<Rightarrow> intr \<Rightarrow> (u32 \<times> sos_vaddr_t \<times> mem) option" where
  "exception_wrapper_entry nr error_code r m s =
     (if nr \<notin> set wrappers_without_code \<and> nr \<notin> set wrappers_with_code then None
      else
        let st = cpu_interrupt r m;
            st = (if nr \<in> set wrappers_with_code then pushl error_code st else pushl 0 st);
            st = backup_context r st;
            st = pushl (fst st) st;
            (esp, m) = pushl (word_of_nat nr) st
        in Some (esp, sos_exception_handler_array s ! nr, m))"

definition exception_wrapper_exit :: "u32 \<Rightarrow> mem \<Rightarrow> cpu_regs" where
  "exception_wrapper_exit esp m = restore_context (esp + 8) m"

section \<open>A routine and what interrupts it\<close>

text \<open>
  The run of a routine called with the stack pointer \<open>esp\<close>, on a stack that ends at \<open>stop\<close>. Its own work leaves alone the part of the
  stack that was in use when it was called and the level of nesting. An interrupt or an exception takes place with a stack pointer below it.
\<close>

inductive handler_run :: "u32 \<Rightarrow> u32 \<Rightarrow> mem \<Rightarrow> intr \<Rightarrow> mem \<Rightarrow> intr \<Rightarrow> bool" for stop where
  finished: "handler_run stop esp m s m s"
| work: "\<lbrakk>\<forall>x. esp \<le> x \<and> x < stop \<longrightarrow> m1 x = m x;
      sos_irq_nested_level_counter s1 = sos_irq_nested_level_counter s; handler_run stop esp m1 s1 m' s'\<rbrakk>
    \<Longrightarrow> handler_run stop esp m s m' s'"
| interrupted: "\<lbrakk>r_esp r \<le> esp; 60 \<le> unat (r_esp r); irq_wrapper_entry nr r m s = (esp1, routine, m1, s1);
      handler_run stop esp1 m1 s1 m2 s2; irq_wrapper_exit esp1 m2 s2 = Some (r2, m3, s3); handler_run stop esp m3 s3 m' s'\<rbrakk>
    \<Longrightarrow> handler_run stop esp m s m' s'"
| trapped: "\<lbrakk>r_esp r \<le> esp; 64 \<le> unat (r_esp r); exception_wrapper_entry nr code r m s = Some (esp1, routine, m1);
      handler_run stop esp1 m1 s m2 s2; handler_run stop esp m2 s2 m' s'\<rbrakk>
    \<Longrightarrow> handler_run stop esp m s m' s'"

section \<open>Lemmas\<close>

lemma backup_frame:
  "r_esp r = k + 56 \<Longrightarrow> backup_context r (pushl code (cpu_interrupt r m)) = (k, saved_frame code (r_eip r) r k m)"
  unfolding backup_context_def cpu_interrupt_def pushl_def pushw_def saved_frame_def
  by (simp add: Let_def add.commute [of _ k])

lemma pushl_pair: "pushl v (e, m) = (e - 4, store32 (e - 4) v m)"
  by (simp add: pushl_def Let_def)

lemma irq_entry_frame:
  assumes "irq_wrapper_entry nr r m s = (esp, routine, m1, s1)" and k: "r_esp r = k + 56"
  shows "esp = k - 4" "m1 = store32 (k - 4) (word_of_nat nr) (saved_frame 0 (r_eip r) r k m)"
    and "routine = sos_irq_handler_array s ! nr" "sos_irq_nested_level_counter s1 = sos_irq_nested_level_counter s + 1"
    and "ports s1 = ports s @ (if nr < 8 then [(0x20, 0x20)] else [(0xa0, 0x20), (0x20, 0x20)])"
  using assms(1) unfolding irq_wrapper_entry_def
  by (auto simp: backup_frame [OF k] pushl_pair Let_def outb_def split: if_splits)

lemma exception_entry_iff:
  "exception_wrapper_entry nr code r m s \<noteq> None \<longleftrightarrow> nr < 32 \<and> nr \<noteq> 8"
  "nr < 32 \<Longrightarrow> nr \<noteq> 8 \<Longrightarrow> nr \<in> set wrappers_with_code \<longleftrightarrow> has_error_code nr"
proof -
  have all: "\<forall>n \<in> set [0..<32]. (n \<in> set wrappers_without_code \<or> n \<in> set wrappers_with_code \<longleftrightarrow> n \<noteq> 8) \<and>
      (n \<noteq> 8 \<longrightarrow> (n \<in> set wrappers_with_code \<longleftrightarrow> has_error_code n))"
    unfolding wrappers_without_code_def wrappers_with_code_def has_error_code_def by code_simp
  then have nr: "nr < 32 \<Longrightarrow> (nr \<in> set wrappers_without_code \<or> nr \<in> set wrappers_with_code \<longleftrightarrow> nr \<noteq> 8) \<and>
      (nr \<noteq> 8 \<longrightarrow> (nr \<in> set wrappers_with_code \<longleftrightarrow> has_error_code nr))" by simp
  have "nr \<in> set wrappers_without_code \<or> nr \<in> set wrappers_with_code \<Longrightarrow> nr < 32"
    by (auto simp: wrappers_without_code_def wrappers_with_code_def)
  moreover have "exception_wrapper_entry nr code r m s \<noteq> None \<longleftrightarrow> nr \<in> set wrappers_without_code \<or> nr \<in> set wrappers_with_code"
    by (simp add: exception_wrapper_entry_def Let_def split_beta)
  ultimately show "exception_wrapper_entry nr code r m s \<noteq> None \<longleftrightarrow> nr < 32 \<and> nr \<noteq> 8" using nr by blast
  show "nr < 32 \<Longrightarrow> nr \<noteq> 8 \<Longrightarrow> nr \<in> set wrappers_with_code \<longleftrightarrow> has_error_code nr" using nr by blast
qed

lemma exception_entry_ex:
  assumes "nr < 32" and "nr \<noteq> 8"
  obtains esp routine m1 where "exception_wrapper_entry nr code r m s = Some (esp, routine, m1)"
  using exception_entry_iff(1) [of nr code r m s] assms that by auto

lemma exception_entry_frame:
  assumes "exception_wrapper_entry nr code r m s = Some (esp, routine, m1)" and k: "r_esp r = k + 56"
  shows "esp = k - 8" "m1 = store32 (k - 8) (word_of_nat nr) (store32 (k - 4) k
      (saved_frame (if has_error_code nr then code else 0) (r_eip r) r k m))"
    and "routine = sos_exception_handler_array s ! nr"
proof -
  have e: "(if b then pushl code st else pushl 0 st) = pushl (if b then code else 0) st" for b st by simp
  have "nr < 32" "nr \<noteq> 8" using exception_entry_iff(1) [of nr code r m s] assms(1) by simp_all
  note w = exception_entry_iff(2) [OF this]
  show "esp = k - 8" "m1 = store32 (k - 8) (word_of_nat nr) (store32 (k - 4) k
      (saved_frame (if has_error_code nr then code else 0) (r_eip r) r k m))" "routine = sos_exception_handler_array s ! nr"
    using assms(1) unfolding exception_wrapper_entry_def e w Let_def backup_frame [OF k] by (auto simp: pushl_pair split: if_splits)
qed

text \<open>What is at or above a stack pointer is not in what was pushed below it; what was pushed is between the two.\<close>

lemma above_block:
  fixes x e n :: u32
  assumes "n \<le> e" and "e \<le> x"
  shows "\<not> x - (e - n) < n"
proof -
  have "unat (e - n) = unat e - unat n" using assms(1) by (rule unat_sub)
  moreover from this have "unat (x - (e - n)) = unat x - unat (e - n)"
    using assms by (intro unat_sub) (simp add: word_le_nat_alt)
  ultimately show ?thesis using assms by (simp add: word_less_nat_alt word_le_nat_alt)
qed

lemma in_pushed:
  fixes x e n :: u32
  assumes "n \<le> e" and "x - (e - n) < n"
  shows "e - n \<le> x" "x < e"
proof -
  have n: "unat (e - n) = unat e - unat n" using assms(1) by (rule unat_sub)
  have "x = e - n + (x - (e - n))" by simp
  moreover have "unat (e - n + (x - (e - n))) = unat (e - n) + unat (x - (e - n))"
    using n assms by (intro unat_add_small) (use unsigned_less [of e, where 'a = nat] in \<open>simp add: word_less_nat_alt word_le_nat_alt\<close>)
  ultimately have "unat x = unat (e - n) + unat (x - (e - n))" by simp
  then show "e - n \<le> x" "x < e" using n assms by (simp_all add: word_less_nat_alt word_le_nat_alt)
qed

text \<open>The entry of a wrapper pushes below the stack pointer of what it interrupts.\<close>

lemma irq_entry_below:
  assumes e: "irq_wrapper_entry nr r m s = (esp, routine, m1, s1)" and fits: "60 \<le> r_esp r"
  shows "esp \<le> r_esp r" and "r_esp r \<le> x \<Longrightarrow> m1 x = m x"
proof -
  define k where "k = r_esp r - 56"
  have k: "r_esp r = k + 56" "k - 4 = r_esp r - 60" by (simp_all add: k_def)
  note f = irq_entry_frame [OF e k(1)]
  have "esp = r_esp r - 60" using f(1) k(2) by simp
  then show "esp \<le> r_esp r" using fits by (simp add: word_le_nat_alt unat_sub)
  show "m1 x = m x" if x: "r_esp r \<le> x"
  proof -
    have "\<not> x - (r_esp r - 60) < 60" by (rule above_block [OF fits x])
    then have "\<not> unat (x - (k - 4)) < 4" unfolding k(2) by (simp add: word_less_nat_alt)
    moreover have "\<not> x - k < 56" unfolding k_def by (rule above_block [OF _ x]) (use fits in \<open>simp add: word_le_nat_alt\<close>)
    ultimately show ?thesis unfolding f(2) by (simp add: store32_other saved_frame_outside)
  qed
qed

lemma exception_entry_below:
  assumes e: "exception_wrapper_entry nr code r m s = Some (esp, routine, m1)" and fits: "64 \<le> r_esp r"
  shows "esp \<le> r_esp r" and "r_esp r \<le> x \<Longrightarrow> m1 x = m x"
proof -
  define k where "k = r_esp r - 56"
  have k: "r_esp r = k + 56" "k - 4 = r_esp r - 60" "k - 8 = r_esp r - 64" by (simp_all add: k_def)
  note f = exception_entry_frame [OF e k(1)]
  have "esp = r_esp r - 64" using f(1) k(3) by simp
  then show "esp \<le> r_esp r" using fits by (simp add: word_le_nat_alt unat_sub)
  show "m1 x = m x" if x: "r_esp r \<le> x"
  proof -
    have le: "(56 :: u32) \<le> r_esp r" "60 \<le> r_esp r" using fits by (simp_all add: word_le_nat_alt)
    have "\<not> x - (r_esp r - 64) < 64" "\<not> x - (r_esp r - 60) < 60" "\<not> x - k < 56"
      unfolding k_def using above_block [OF fits x] above_block [OF le(2) x] above_block [OF le(1) x] by blast+
    then have "\<not> unat (x - (k - 8)) < 4" "\<not> unat (x - (k - 4)) < 4" "\<not> x - k < 56"
      unfolding k(2,3) by (simp_all add: word_less_nat_alt)
    then show ?thesis unfolding f(2) by (simp add: store32_other saved_frame_outside)
  qed
qed

text \<open>A routine, with all that interrupts it, keeps the stack above it and the level of nesting.\<close>

lemma handler_run_keeps:
  "handler_run stop esp m s m' s' \<Longrightarrow>
   sos_irq_nested_level_counter s' = sos_irq_nested_level_counter s \<and> (\<forall>x. esp \<le> x \<and> x < stop \<longrightarrow> m' x = m x)"
proof (induction rule: handler_run.induct)
  case (interrupted r esp nr m s esp1 routine m1 s1 m2 s2 r2 m3 s3 m' s')
  have fits: "60 \<le> r_esp r" using interrupted.hyps(2) by (simp add: word_le_nat_alt)
  note below = irq_entry_below [OF interrupted.hyps(3) fits]
  have k: "r_esp r = (r_esp r - 56) + 56" by simp
  have "m3 = m2" "sos_irq_nested_level_counter s3 = sos_irq_nested_level_counter s2 - 1"
    using interrupted.hyps(5) by (auto simp: irq_wrapper_exit_def Let_def split: if_splits)
  moreover have "m1 x = m x \<and> esp1 \<le> x" if "esp \<le> x" for x
    using below(2) [of x] below(1) interrupted.hyps(1) that by (meson order_trans)
  ultimately show ?case using interrupted.IH irq_entry_frame(4) [OF interrupted.hyps(3) k] by simp
next
  case (trapped r esp nr code m s esp1 routine m1 m2 s2 m' s')
  have fits: "64 \<le> r_esp r" using trapped.hyps(2) by (simp add: word_le_nat_alt)
  note below = exception_entry_below [OF trapped.hyps(3) fits]
  have "m1 x = m x \<and> esp1 \<le> x" if "esp \<le> x" for x
    using below(2) [of x] below(1) trapped.hyps(1) that by (meson order_trans)
  then show ?case using trapped.IH by simp
qed simp_all

lemma argument_apart:
  assumes fits: "64 \<le> r_esp r" and x: "x - (r_esp r - 56) < 56" and c: "c = 4 \<or> c = 8"
  shows "\<not> unat (x - (r_esp r - 56 - c)) < 4"
proof -
  have le: "(56 :: u32) \<le> r_esp r" using fits by (simp add: word_le_nat_alt)
  have u: "unat c = 4 \<or> unat c = 8" using c by auto
  have "\<not> x - (r_esp r - 56 - c) < c"
    by (rule above_block [OF _ in_pushed(1) [OF le x]]) (use fits c in \<open>auto simp: word_le_nat_alt unat_sub\<close>)
  then show ?thesis using u by (auto simp: word_less_nat_alt)
qed

lemma same_frame:
  assumes fits: "64 \<le> r_esp r" and below: "r_esp r \<le> stop" and esp: "esp \<le> r_esp r - 56"
    and keep: "\<forall>x. esp \<le> x \<and> x < stop \<longrightarrow> m2 x = m1 x" and frame: "\<And>x. x - (r_esp r - 56) < 56 \<Longrightarrow> m1 x = saved_frame code (r_eip r) r (r_esp r - 56) m x"
  shows "restore_context (r_esp r - 56) m2 = r"
proof -
  have le: "(56 :: u32) \<le> r_esp r" using fits by (simp add: word_le_nat_alt)
  have "m2 x = saved_frame code (r_eip r) r (r_esp r - 56) m x" if "x - (r_esp r - 56) < 56" for x
  proof -
    have "esp \<le> x" "x < stop"
      using order_trans [OF esp in_pushed(1) [OF le that]] less_le_trans [OF in_pushed(2) [OF le that] below] by simp_all
    then show ?thesis using keep frame [OF that] by simp
  qed
  then show ?thesis using restore_saved_frame [of "r_esp r - 56" m2 code "r_eip r" r m] by simp
qed

text \<open>What the routine of an exception finds on the stack and in the context it is given.\<close>

lemma exception_seen:
  assumes entry: "exception_wrapper_entry nr code r m s = Some (esp, routine, m1)" and fits: "64 \<le> r_esp r"
  shows "load32 m1 esp = word_of_nat nr" "load32 m1 (esp + 4) = r_esp r - 56"
    and "sos_cpu_context_get_PC (r_esp r - 56) m1 = Some (r_eip r)" "sos_cpu_context_get_SP (r_esp r - 56) m1 = Some (r_esp r - 56)"
    and "sos_cpu_context_get_EX_info (r_esp r - 56) m1 = Some (if has_error_code nr then code else 0)"
    and "x - (r_esp r - 56) < 56 \<Longrightarrow>
      m1 x = saved_frame (if has_error_code nr then code else 0) (r_eip r) r (r_esp r - 56) m x"
proof -
  define k where "k = r_esp r - 56"
  define c where "c = (if has_error_code nr then code else 0)"
  have k: "r_esp r = k + 56" by (simp add: k_def)
  note f = exception_entry_frame [OF entry k, folded c_def]
  have frame: "m1 x = saved_frame c (r_eip r) r k m x" if x: "x - k < 56" for x
    using argument_apart [OF fits, where c = 4] argument_apart [OF fits, where c = 8] x unfolding f(2) by (simp add: k_def store32_other)
  note cong = frame_cong(1) [of k m1 "saved_frame c (r_eip r) r k m", OF allI [OF impI [OF frame]]]
  have fields: "load32 m1 (k + 44) = r_eip r" "load32 m1 (k + 40) = c"
    by (simp_all add: cong saved_frame_fields [OF refl])
  show "load32 m1 esp = word_of_nat nr" "load32 m1 (esp + 4) = r_esp r - 56"
    unfolding f(1,2) using access_apart(1) [of 4 0 "k - 8"] by (simp_all add: k_def)
  have "unat k = unat (r_esp r) - 56" unfolding k_def using fits by (subst unat_sub) (simp_all add: word_le_nat_alt)
  then have "k \<noteq> 0" using fits by (auto simp: word_le_nat_alt)
  then show "sos_cpu_context_get_PC (r_esp r - 56) m1 = Some (r_eip r)" "sos_cpu_context_get_SP (r_esp r - 56) m1 = Some (r_esp r - 56)"
      "sos_cpu_context_get_EX_info (r_esp r - 56) m1 = Some (if has_error_code nr then code else 0)"
    using fields unfolding k_def [symmetric] c_def [symmetric]
    by (simp_all add: sos_cpu_context_get_PC_def sos_cpu_context_get_SP_def sos_cpu_context_get_EX_info_def ctxt_layout sos_assert_fatal_def)
  show "m1 x = saved_frame (if has_error_code nr then code else 0) (r_eip r) r (r_esp r - 56) m x" if "x - (r_esp r - 56) < 56"
    using frame [of x] that by (simp add: k_def c_def)
qed

text \<open>The gates after the set-up.\<close>

lemma exception_gates_ok:
  assumes tables: "length (idt s) = 256" "length (sos_exception_handler_array s) = 32"
    and addresses: "\<forall>i < 32. wrapper i \<noteq> 0" "next_word \<noteq> 0" "generic_ex \<noteq> 0"
  shows "\<exists>s'. sos_exception_subsystem_setup (sos_exception_wrapper_array wrapper next_word) generic_ex s = (SOS_OK, s') \<and>
     (\<forall>n \<in> {0..<32}. sos_idt_get_handler (int n) s' =
        (SOS_OK, if n < 28 then wrapper n else if n < 31 then wrapper (n + 1) else next_word, 0)) \<and>
     (\<forall>n \<in> {0..<32}. sos_exception_get_routine (int n) s' = (if n = 8 then 0 else generic_ex))"
proof -
  have ids: "exception_wrapper_ids ! n = (if n < 28 then n else n + 1)" if "n < 31" for n
  proof -
    have "[29, 30, 31] ! (n - 28) = n + 1" if "\<not> n < 28"
      using that \<open>n < 31\<close> by (auto simp: numeral_eq_Suc less_Suc_eq)
    then show ?thesis by (simp add: exception_wrapper_ids_def nth_append)
  qed
  let ?w = "sos_exception_wrapper_array wrapper next_word"
  have w: "?w n = (if n < 28 then wrapper n else if n < 31 then wrapper (n + 1) else next_word)" for n
    using ids [of n] by (simp add: sos_exception_wrapper_array_def) (simp add: exception_wrapper_ids_def)
  have w0: "\<forall>i < 32. ?w i \<noteq> 0" using addresses by (simp add: w)
  have es: "\<forall>e \<in> set [0..31]. 0 \<le> e \<and> e < 32" by simp
  obtain s' where s': "exception_setup_loop ?w generic_ex [0..31] s = (SOS_OK, s')"
      "\<forall>j. sos_idt_get_handler j s' = (if j \<in> set [0..31] \<or> j = 8 then (SOS_OK, ?w (nat j), 0) else sos_idt_get_handler j s)"
      "\<forall>e. 0 \<le> e \<and> e < 32 \<longrightarrow> sos_exception_handler_array s' ! nat e =
         (if e \<in> set [0..31] - {8} then generic_ex else sos_exception_handler_array s ! nat e)"
    using exception_loop [OF w0 addresses(3) tables es] by blast
  have "sos_exception_get_routine (int n) s' = (if n = 8 then 0 else generic_ex)" if "n < 32" for n
    using s'(3) [rule_format, of "int n"] that
    by (auto simp: sos_exception_get_routine_def SOS_EXCEPT_NUM_def SOS_EXCEPT_DOUBLE_FAULT_def)
  then show ?thesis using s'(1,2) by (auto simp: sos_exception_subsystem_setup_def SOS_EXCEPT_NUM_def w)
qed

lemma example_wrappers: "\<forall>i < 32. 0x200000 + word_of_nat i \<noteq> (0 :: u32)"
proof (intro allI impI)
  fix i :: nat
  assume i: "i < 32"
  then have "unat (word_of_nat i :: u32) = i" by (intro unat_of_nat_small) simp
  then have "unat (0x200000 + word_of_nat i :: u32) = 0x200000 + i" using i by (subst unat_add_small) simp_all
  then show "0x200000 + word_of_nat i \<noteq> (0 :: u32)" by auto
qed

section \<open>Properties\<close>

text \<open>
  C22: An interrupt is transparent. Its wrapper calls the routine of its number with this number on the stack, one level of nesting up, after the
  end of interrupt to the master controller, or to both for the lines of the slave. Whatever interrupts and exceptions arrive during the routine, its
  exit gives back every register of the interrupted code, its stack and the level, and never reaches its fatal error.
\<close>

theorem interrupt_transparent:
  assumes entry: "irq_wrapper_entry nr r m s = (esp, routine, m1, s1)" and fits: "64 \<le> r_esp r" "r_esp r \<le> stop"
    and level: "sos_irq_nested_level_counter s + 1 \<noteq> 0" and run: "handler_run stop esp m1 s1 m2 s2"
  shows "routine = sos_irq_handler_array s ! nr \<and> load32 m1 esp = word_of_nat nr \<and>
     sos_irq_nested_level_counter s1 = sos_irq_nested_level_counter s + 1 \<and>
     ports s1 = ports s @ (if nr < 8 then [(0x20, 0x20)] else [(0xa0, 0x20), (0x20, 0x20)]) \<and>
     irq_wrapper_exit esp m2 s2 = Some (r, m2, s2\<lparr>sos_irq_nested_level_counter := sos_irq_nested_level_counter s\<rparr>) \<and>
     (\<forall>x. r_esp r \<le> x \<and> x < stop \<longrightarrow> m2 x = m x)"
proof -
  have le: "60 \<le> r_esp r" using fits(1) by (simp add: word_le_nat_alt)
  note f = irq_entry_frame [OF entry, of "r_esp r - 56", simplified] and below = irq_entry_below [OF entry le]
  note keep = handler_run_keeps [OF run]
  have e: "esp + 4 = r_esp r - 56" using f(1) by simp
  have esp: "esp \<le> r_esp r - 56" using fits(1) by (simp add: f(1) word_le_nat_alt unat_sub)
  have "restore_context (r_esp r - 56) m2 = r"
  proof (rule same_frame [OF fits esp conjunct2 [OF keep]])
    show "m1 x = saved_frame 0 (r_eip r) r (r_esp r - 56) m x" if x: "x - (r_esp r - 56) < 56" for x
      unfolding f(2) using argument_apart [OF fits(1) x, of 4] by (simp add: store32_other)
  qed
  moreover have "sos_irq_nested_level_counter s2 = sos_irq_nested_level_counter s + 1" using keep f(4) by simp
  moreover have "\<not> sos_irq_nested_level_counter s + 1 < 1" using level by (simp add: word_less_nat_alt unat_gt_0)
  moreover have "m2 x = m x" if "r_esp r \<le> x" "x < stop" for x
    using keep below(2) [OF that(1)] order_trans [OF below(1) that(1)] that(2) by simp
  moreover have "load32 m1 esp = word_of_nat nr" unfolding f(1,2) by simp
  ultimately show ?thesis using f(3-5) by (auto simp: irq_wrapper_exit_def e)
qed

text \<open>Registers in a kernel thread, and a timer interrupt whose routine a keyboard interrupt and a page fault interrupt.\<close>

definition example_interrupted :: cpu_regs where
  "example_interrupted = \<lparr>r_gs = 1, r_fs = 2, r_es = 16, r_ds = 16, r_ss = 16, r_eax = 3, r_ebx = 4, r_ecx = 5, r_edx = 6, r_esi = 7, r_edi = 8,
     r_ebp = 9, r_eip = 0x201234, r_cs = 8, r_eflags = 514, r_esp = 0x9000\<rparr>"

theorem interrupt_transparent_witness:
  "\<exists>esp m1 s1 m2 s2. irq_wrapper_entry 0 example_interrupted mem_example reset_intr = (esp, 0, m1, s1) \<and> ports s2 = [(0x20, 0x20), (0x20, 0x20)] \<and>
     handler_run 0xa000 esp m1 s1 m2 s2 \<and> fst (the (irq_wrapper_exit esp m2 s2)) = example_interrupted"
proof -
  let ?r = example_interrupted
  obtain esp p m1 s1 where e: "irq_wrapper_entry 0 ?r mem_example reset_intr = (esp, p, m1, s1)" by (metis prod_cases4)
  have r: "64 \<le> r_esp ?r" "r_esp ?r \<le> 0xa000" "r_esp ?r - 56 = 0x8fc8" by (simp_all add: example_interrupted_def)
  note f = irq_entry_frame [OF e, of "0x8fc8"]
  have esp: "esp = 0x8fc4" "sos_irq_nested_level_counter s1 = 1" "ports s1 = [(0x20, 0x20)]"
    using f by (simp_all add: example_interrupted_def reset_intr_def)
  let ?r2 = "?r\<lparr>r_esp := 0x8000\<rparr>"
  obtain esp2 p2 n1 t1 where e2: "irq_wrapper_entry 1 ?r2 m1 s1 = (esp2, p2, n1, t1)" by (metis prod_cases4)
  obtain esp3 p3 n2 where e3: "exception_wrapper_entry 14 2 ?r2 n1 (t1\<lparr>sos_irq_nested_level_counter := 1\<rparr>) = Some (esp3, p3, n2)"
    by (rule exception_entry_ex [of 14]) simp_all
  have f2: "sos_irq_nested_level_counter t1 = 2" "ports t1 = [(0x20, 0x20), (0x20, 0x20)]"
    using irq_entry_frame(4,5) [OF e2, of "0x7fc8"] esp by simp_all
  have x2: "irq_wrapper_exit esp2 n1 t1 = Some (restore_context (esp2 + 4) n1, n1, t1\<lparr>sos_irq_nested_level_counter := 1\<rparr>)"
    using f2 by (simp add: irq_wrapper_exit_def Let_def)
  have run: "handler_run 0xa000 esp m1 s1 n2 (t1\<lparr>sos_irq_nested_level_counter := 1\<rparr>)"
    by (rule handler_run.interrupted [OF _ _ e2 handler_run.finished x2
          handler_run.trapped [OF _ _ e3 handler_run.finished handler_run.finished]]) (simp_all add: esp)
  have l: "sos_irq_nested_level_counter reset_intr + 1 \<noteq> 0" "p = 0" using f(3) by (simp_all add: example_interrupted_def reset_intr_def)
  have "fst (the (irq_wrapper_exit esp n2 (t1\<lparr>sos_irq_nested_level_counter := 1\<rparr>))) = ?r"
    using interrupt_transparent [OF e r(1,2) l(1) run] by simp
  then show ?thesis using e run f2 l(2)
    by (intro exI [of _ esp] exI [of _ m1] exI [of _ s1] exI [of _ n2] exI [of _ "t1\<lparr>sos_irq_nested_level_counter := 1\<rparr>"]) simp
qed

text \<open>
  C23: An exception other than the double fault is transparent, and its routine sees it. The wrapper of each of these 31 numbers calls the routine of
  its number with this number and the address of the saved context on the stack. The accessors give the instruction that the exception stopped and the
  error code of the processor, 0 for an exception without one. Whatever interrupts and exceptions arrive during the routine, the exit gives back every
  register of the code that was stopped. (The wrapper of the double fault calls no routine and returns to nothing.)
\<close>

theorem exception_transparent:
  assumes nr: "nr < 32" "nr \<noteq> 8" and fits: "64 \<le> r_esp r" "r_esp r \<le> stop"
  shows "\<exists>esp m1. exception_wrapper_entry nr code r m s = Some (esp, sos_exception_handler_array s ! nr, m1) \<and>
     load32 m1 esp = word_of_nat nr \<and>
     (let ctxt = load32 m1 (esp + 4) in
        sos_cpu_context_get_PC ctxt m1 = Some (r_eip r) \<and> sos_cpu_context_get_SP ctxt m1 = Some (r_esp r - 56) \<and>
        sos_cpu_context_get_EX_info ctxt m1 = Some (if has_error_code nr then code else 0)) \<and>
     (\<forall>m2 s2. handler_run stop esp m1 s m2 s2 \<longrightarrow>
        exception_wrapper_exit esp m2 = r \<and> sos_irq_nested_level_counter s2 = sos_irq_nested_level_counter s \<and>
        (\<forall>x. r_esp r \<le> x \<and> x < stop \<longrightarrow> m2 x = m x))"
proof -
  obtain esp routine m1 where entry: "exception_wrapper_entry nr code r m s = Some (esp, routine, m1)"
    by (rule exception_entry_ex [OF nr])
  note below = exception_entry_below [OF entry fits(1)] and seen = exception_seen [OF entry fits(1)]
  note f = exception_entry_frame [OF entry, of "r_esp r - 56", simplified]
  have esp: "esp \<le> r_esp r - 56" "esp + 8 = r_esp r - 56" using fits(1) by (simp_all add: f(1) word_le_nat_alt unat_sub)
  have exits: "exception_wrapper_exit esp m2 = r \<and> sos_irq_nested_level_counter s2 = sos_irq_nested_level_counter s \<and>
      (\<forall>x. r_esp r \<le> x \<and> x < stop \<longrightarrow> m2 x = m x)" if "handler_run stop esp m1 s m2 s2" for m2 s2
  proof -
    note keep = handler_run_keeps [OF that]
    have "exception_wrapper_exit esp m2 = r"
      unfolding exception_wrapper_exit_def esp(2) by (rule same_frame [OF fits esp(1) conjunct2 [OF keep] seen(6)])
    moreover have "m2 x = m x" if "r_esp r \<le> x" "x < stop" for x
      using keep below(2) [OF that(1)] order_trans [OF below(1) that(1)] that(2) by simp
    ultimately show ?thesis using keep by simp
  qed
  show ?thesis using entry f(3) seen(1-5) exits by (intro exI [of _ esp] exI [of _ m1]) (simp add: Let_def)
qed

theorem exception_transparent_witness:
  "\<exists>esp m1. exception_wrapper_entry 14 2 example_interrupted mem_example reset_intr = Some (esp, 0, m1) \<and>
     sos_cpu_context_get_PC (load32 m1 (esp + 4)) m1 = Some 0x201234 \<and> sos_cpu_context_get_EX_info (load32 m1 (esp + 4)) m1 = Some 2 \<and>
     exception_wrapper_exit esp m1 = example_interrupted"
proof -
  let ?r = example_interrupted
  have r: "64 \<le> r_esp ?r" "r_esp ?r \<le> 0xa000" "r_eip ?r = 0x201234" "has_error_code 14" "sos_exception_handler_array reset_intr ! 14 = 0"
    by (simp_all add: example_interrupted_def has_error_code_def reset_intr_def)
  have n: "(14 :: nat) < 32" "(14 :: nat) \<noteq> 8" by simp_all
  obtain esp m1 where e: "exception_wrapper_entry 14 2 ?r mem_example reset_intr = Some (esp, 0, m1)"
      "sos_cpu_context_get_PC (load32 m1 (esp + 4)) m1 = Some 0x201234" "sos_cpu_context_get_EX_info (load32 m1 (esp + 4)) m1 = Some 2"
      "\<forall>m2 s2. handler_run 0xa000 esp m1 reset_intr m2 s2 \<longrightarrow> exception_wrapper_exit esp m2 = ?r"
    using exception_transparent [OF n r(1,2), of 2 mem_example reset_intr] r(3-5) by (auto simp: Let_def)
  then show ?thesis using handler_run.finished by blast
qed

text \<open>
  The gates of the exceptions after the set-up with the array of wrappers that the assembly builds. All 32 are set, and the routine of each
  exception but the double fault is the generic one; but as the array has no entry for the exception 28, its gate and the next two lead to the
  wrapper of the following exception, which calls the routine of the wrong number, and the gate 31 to whatever follows the array.
\<close>

theorem exception_gates:
  assumes tables: "length (idt s) = 256" "length (sos_exception_handler_array s) = 32"
    and addresses: "\<forall>i < 32. wrapper i \<noteq> 0" "next_word \<noteq> 0" "generic_ex \<noteq> 0"
  shows "\<exists>s'. sos_exception_subsystem_setup (sos_exception_wrapper_array wrapper next_word) generic_ex s = (SOS_OK, s') \<and>
     (\<forall>n \<in> {0..<32}. sos_idt_get_handler (int n) s' =
        (SOS_OK, if n < 28 then wrapper n else if n < 31 then wrapper (n + 1) else next_word, 0)) \<and>
     (\<forall>n \<in> {0..<32}. sos_exception_get_routine (int n) s' = (if n = 8 then 0 else generic_ex))"
  by (rule exception_gates_ok [OF tables addresses])

theorem exception_gates_witness:
  "\<exists>s'. sos_exception_subsystem_setup (sos_exception_wrapper_array (\<lambda>i. 0x200000 + word_of_nat i) 0x6e65) 0x300000 reset_intr = (SOS_OK, s') \<and>
     sos_idt_get_handler 14 s' = (SOS_OK, 0x20000e, 0) \<and> sos_idt_get_handler 28 s' = (SOS_OK, 0x20001d, 0) \<and>
     sos_idt_get_handler 31 s' = (SOS_OK, 0x6e65, 0)"
proof -
  have t: "length (idt reset_intr) = 256" "length (sos_exception_handler_array reset_intr) = 32" by (simp_all add: reset_intr_def)
  obtain s' where s': "sos_exception_subsystem_setup (sos_exception_wrapper_array (\<lambda>i. 0x200000 + word_of_nat i) 0x6e65) 0x300000 reset_intr = (SOS_OK, s')"
      "\<forall>n \<in> {0..<32}. sos_idt_get_handler (int n) s' =
        (SOS_OK, if n < 28 then 0x200000 + word_of_nat n else if n < 31 then 0x200000 + word_of_nat (n + 1) else 0x6e65, 0)"
    using exception_gates [OF t example_wrappers, of "0x6e65" "0x300000"] by auto
  show ?thesis using s'(1) s'(2) [rule_format, of 14] s'(2) [rule_format, of 28] s'(2) [rule_format, of 31] by (intro exI [of _ s']) simp
qed

end
