(* ===== verification/Boot_entry.thy ===== *)
theory Boot_entry
  imports Kernel_boot Interrupt_wrappers
begin

text \<open>
  The first instructions of the kernel (\<^verbatim>\<open>boot/boot.S\<close>): the header by which a boot loader knows the image, the stack of the primary
  thread, the call of \<^verbatim>\<open>cmain\<close> and the halt when it returns.
\<close>

section \<open>The header\<close>

definition MULTIBOOT2_HEADER_MAGIC :: u32 where "MULTIBOOT2_HEADER_MAGIC = 0xe85250d6"
definition MULTIBOOT_HEADER_ALIGN :: u32 where "MULTIBOOT_HEADER_ALIGN = 8"
definition MULTIBOOT_HEADER_TAG_END :: u16 where "MULTIBOOT_HEADER_TAG_END = 0"
definition MULTIBOOT_ARCHITECTURE_I386 :: u32 where "MULTIBOOT_ARCHITECTURE_I386 = 0"

text \<open>The length is the distance of the labels around the header: four words, two half words and a word.\<close>

definition multiboot_header :: "u32 \<Rightarrow> mem \<Rightarrow> mem" where
  "multiboot_header a m = (
     let len = 24;
         m = store32 a MULTIBOOT2_HEADER_MAGIC m;
         m = store32 (a + 4) MULTIBOOT_ARCHITECTURE_I386 m;
         m = store32 (a + 8) len m;
         m = store32 (a + 12) (- (MULTIBOOT2_HEADER_MAGIC + MULTIBOOT_ARCHITECTURE_I386 + len)) m;
         m = store16 (a + 16) MULTIBOOT_HEADER_TAG_END m;
         m = store16 (a + 18) 0 m
     in store32 (a + 20) 8 m)"

text \<open>What a loader checks: the magic number, the sum of the fields, and that the tags, of which this header has the last one only, fill the length.\<close>

definition header_accepted :: "u32 \<Rightarrow> mem \<Rightarrow> bool" where
  "header_accepted a m \<longleftrightarrow> a AND (MULTIBOOT_HEADER_ALIGN - 1) = 0 \<and> load32 m a = MULTIBOOT2_HEADER_MAGIC \<and>
     load32 m a + load32 m (a + 4) + load32 m (a + 8) + load32 m (a + 12) = 0 \<and>
     load16 m (a + 16) = MULTIBOOT_HEADER_TAG_END \<and> load32 m (a + 20) = 8 \<and> load32 m (a + 8) = 16 + load32 m (a + 20)"

section \<open>The entry\<close>

definition MULTIBOOT_STACK_SIZE :: u32 where "MULTIBOOT_STACK_SIZE = 4 * (4 * 1024)"

definition boot_symbols :: "u32 \<Rightarrow> boot_input \<Rightarrow> boot_input" where
  "boot_symbols stack i = i\<lparr>bootstrap_stack_bottom := stack, bootstrap_stack_size := MULTIBOOT_STACK_SIZE\<rparr>"

text \<open>Up to the first instruction of \<^verbatim>\<open>cmain\<close>: the stack pointer, the flags and the memory. \<open>ret\<close> is the address after the call.\<close>

definition boot_entry :: "u32 \<Rightarrow> u32 \<Rightarrow> u32 \<Rightarrow> u32 \<Rightarrow> mem \<Rightarrow> u32 \<times> u32 \<times> mem" where
  "boot_entry stack ret eax ebx m = (
     let st = (stack + MULTIBOOT_STACK_SIZE, m);
         st = pushl 0 st;
         eflags = load32 (snd st) (fst st);
         st = (fst st + 4, snd st);
         st = pushl ebx st;
         st = pushl eax st;
         (esp, m) = pushl ret st
     in (esp, eflags, m))"

text \<open>After \<^verbatim>\<open>cmain\<close> has returned, up to the loop that halts the processor: \<open>msg\<close> is the address of the message.\<close>

definition boot_halt :: "u32 \<Rightarrow> u32 \<Rightarrow> u32 \<Rightarrow> machine \<Rightarrow> machine option" where
  "boot_halt esp msg ret m = (
     let st = pushl msg (esp, kmem (krn (world m)));
         (esp, b) = pushl ret st
     in printf_on ''Halted.'' [] (on_kernel (\<lambda>k. k\<lparr>kmem := b\<rparr>) m))"

text \<open>The whole of it: \<^verbatim>\<open>cmain\<close> takes its arguments from the stack, and the bit 9 of the flags opens the interrupts.\<close>

definition start_kernel :: "u32 \<Rightarrow> u32 \<Rightarrow> u32 \<Rightarrow> u32 \<Rightarrow> u32 \<Rightarrow> u32 \<Rightarrow> boot_input \<Rightarrow> machine \<Rightarrow> boot_end option" where
  "start_kernel stack ret msg ret2 eax ebx i m = (
     let (esp, eflags, b) = boot_entry stack ret eax ebx (kmem (krn (world m)));
         m = (on_kernel (\<lambda>k. k\<lparr>kmem := b\<rparr>) m)\<lparr>interrupts_on := (bit eflags 9)\<rparr>
     in case cmain (load32 b (esp + 4)) (load32 b (esp + 8)) (boot_symbols stack i) m of
          None \<Rightarrow> None
        | Some (Refused m) \<Rightarrow> map_option Refused (boot_halt (esp + 4) msg ret2 m)
        | Some r \<Rightarrow> Some r)"

section \<open>What the entry does\<close>

lemma load32_away: "(\<And>i. i < 4 \<Longrightarrow> 4 \<le> unat (b + word_of_nat i - a)) \<Longrightarrow> load32 (store32 a v m) b = load32 m b"
  by (rule load32_cong) (use store32_other in \<open>simp add: not_less\<close>)

lemma load32_stack: "load32 (store32 a v m) (a + 4) = load32 m (a + 4)" "load32 (store32 a v m) (a + 8) = load32 m (a + 8)"
proof -
  have s: "a + k + w - a = k + w" for k w :: u32 by simp
  have u: "4 \<le> unat (4 + word_of_nat i :: u32)" "4 \<le> unat (8 + word_of_nat i :: u32)" if "i < 4" for i
  proof -
    have "i = 0 \<or> i = 1 \<or> i = 2 \<or> i = 3" using that by linarith
    then show "4 \<le> unat (4 + word_of_nat i :: u32)" "4 \<le> unat (8 + word_of_nat i :: u32)" by auto
  qed
  show "load32 (store32 a v m) (a + 4) = load32 m (a + 4)" by (rule load32_away) (use u(1) in \<open>simp only: s\<close>)
  show "load32 (store32 a v m) (a + 8) = load32 m (a + 8)" by (rule load32_away) (use u(2) in \<open>simp only: s\<close>)
qed

lemma boot_entry_stack:
  assumes "boot_entry stack ret eax ebx m = (esp, eflags, b)"
  shows "esp = stack + MULTIBOOT_STACK_SIZE - 12" "eflags = 0" "load32 b esp = ret" "load32 b (esp + 4) = eax" "load32 b (esp + 8) = ebx"
    and "12 \<le> unat (x - esp) \<Longrightarrow> b x = m x"
proof -
  define t where "t = stack + MULTIBOOT_STACK_SIZE - 12"
  have t: "stack + MULTIBOOT_STACK_SIZE = t + 12" by (simp add: t_def)
  have k: "t + 12 - 4 = t + 8" "t + 8 - 4 = t + 4" "8 + t = t + 8" "4 + t = t + 4" by (simp_all add: add.commute)
  have e: "esp = t" "eflags = 0" and b: "b = store32 t ret (store32 (t + 4) eax (store32 (t + 8) ebx (store32 (t + 8) 0 m)))"
    using assms k by (auto simp: boot_entry_def pushl_def t Let_def)
  show "esp = stack + MULTIBOOT_STACK_SIZE - 12" "eflags = 0" using e by (simp_all add: t_def)
  show "load32 b esp = ret" "load32 b (esp + 4) = eax" using load32_stack [of t] by (simp_all add: e b)
  show "load32 b (esp + 8) = ebx" using load32_stack(2) [of t] load32_stack(1) [of "t + 4"] by (simp add: e b add.assoc)
  assume x: "12 \<le> unat (x - esp)"
  define y where "y = x - t"
  have y: "x = t + y" "12 \<le> unat y" using x by (simp_all add: y_def e)
  have "unat (y - k) = unat y - unat k" if "unat k \<le> 8" for k using y(2) that by (subst unat_sub) (simp_all add: word_le_nat_alt)
  from this [of 4] this [of 8] y(2) have "\<not> unat (x - t) < 4" "\<not> unat (x - (t + 4)) < 4" "\<not> unat (x - (t + 8)) < 4"
    unfolding y(1) by (simp_all add: diff_add_eq_diff_diff_swap [symmetric])
  then show "b x = m x" by (simp add: b store32_other)
qed

text \<open>The message in the second row.\<close>

definition halted_row :: "(int \<Rightarrow> u8) \<Rightarrow> int \<Rightarrow> u8" where
  "halted_row v = v(160 := 72, 161 := ATTRIBUTE, 162 := 97, 163 := ATTRIBUTE, 164 := 108, 165 := ATTRIBUTE, 166 := 116, 167 := ATTRIBUTE,
     168 := 101, 169 := ATTRIBUTE, 170 := 100, 171 := ATTRIBUTE, 172 := 46, 173 := ATTRIBUTE)"

lemma printf_halted: "printf ''Halted.'' [] \<lparr>xpos = 0, ypos = 1, video = v\<rparr> = Some \<lparr>xpos = 7, ypos = 1, video = halted_row v\<rparr>"
proof -
  have "printf_text ''Halted.'' [] = Some (map int_of_char ''Halted.'')" by simp
  moreover have "map int_of_char ''Halted.'' = [72, 97, 108, 116, 101, 100, 46]" by code_simp
  ultimately have t: "printf_text ''Halted.'' [] = Some [72, 97, 108, 116, 101, 100, 46]" by (simp only:)
  show ?thesis unfolding printf_def printf_loop_text t
    by (simp add: putchar_def put_cell_def newline_def Let_def LINES_def COLUMNS_def halted_row_def)
qed

lemma halted_cells:
  "j < 160 \<or> 174 \<le> j \<Longrightarrow> halted_row v j = v j"
  "k < 7 \<Longrightarrow> halted_row v (160 + 2 * int k) = of_char (''Halted.'' ! k)"
proof -
  show "j < 160 \<or> 174 \<le> j \<Longrightarrow> halted_row v j = v j" by (auto simp: halted_row_def)
  have c: "map (of_char :: char \<Rightarrow> u8) ''Halted.'' = [72, 97, 108, 116, 101, 100, 46]" by code_simp
  assume k: "k < 7"
  then have "k = 0 \<or> k = 1 \<or> k = 2 \<or> k = 3 \<or> k = 4 \<or> k = 5 \<or> k = 6" by linarith
  then have "halted_row v (160 + 2 * int k) = [72, 97, 108, 116, 101, 100, 46] ! k" by (auto simp: halted_row_def)
  also have "\<dots> = of_char (''Halted.'' ! k)" unfolding c [symmetric] using k by (subst nth_map) simp_all
  finally show "halted_row v (160 + 2 * int k) = of_char (''Halted.'' ! k)" .
qed

lemma cmain_compliant:
  assumes "magic = MULTIBOOT2_BOOTLOADER_MAGIC" "addr AND 7 = 0"
  shows "cmain magic addr i m = None \<or> (\<exists>st ts m'. cmain magic addr i m = Some (Started st ts m'))"
proof (cases "cmain magic addr i m")
  case (Some r)
  then have "\<exists>st ts m'. r = Started st ts m'" using assms by (auto simp: cmain_def bind_eq_Some_conv Let_def)
  then show ?thesis using Some by blast
qed simp

lemma halt_memory:
  assumes "16 \<le> unat (x - (t - 16))"
  shows "store32 (t - 16) ret (store32 (t - 12) msg b) x = b x" "12 \<le> unat (x - (t - 12))"
proof -
  define y where "y = x - (t - 16)"
  have y: "x = t - 16 + y" "16 \<le> unat y" using assms by (simp_all add: y_def)
  have u: "unat (y - 4) = unat y - 4" using y(2) by (subst unat_sub) (simp_all add: word_le_nat_alt)
  then show "12 \<le> unat (x - (t - 12))" using y(2) unfolding y(1) by simp
  from u have "\<not> unat (x - (t - 16)) < 4" "\<not> unat (x - (t - 12)) < 4" using y(2) unfolding y(1) by simp_all
  then show "store32 (t - 16) ret (store32 (t - 12) msg b) x = b x" by (simp add: store32_other)
qed


text \<open>The image carries a header that a loader accepts, wherever it is aligned.\<close>

lemma loader_accepts_header:
  assumes "a AND (MULTIBOOT_HEADER_ALIGN - 1) = 0"
  shows "header_accepted a (multiboot_header a m)"
proof -
  have o: "a \<noteq> a + k" "a + j = a + k \<longleftrightarrow> j = k" if "k \<noteq> 0" for j k :: u32 using that by simp_all
  define m' where "m' = multiboot_header a m"
  have w: "load32 m' a = MULTIBOOT2_HEADER_MAGIC" "load32 m' (a + 4) = MULTIBOOT_ARCHITECTURE_I386" "load32 m' (a + 8) = 24"
    "load32 m' (a + 12) = - (MULTIBOOT2_HEADER_MAGIC + MULTIBOOT_ARCHITECTURE_I386 + 24)" "load16 m' (a + 16) = MULTIBOOT_HEADER_TAG_END"
    "load32 m' (a + 20) = 8"
    unfolding m'_def multiboot_header_def Let_def
    by (simp_all add: load32_def load16_def store32_def store16_def MULTIBOOT2_HEADER_MAGIC_def MULTIBOOT_ARCHITECTURE_I386_def MULTIBOOT_HEADER_TAG_END_def add.assoc)
  show ?thesis using assms w unfolding m'_def [symmetric] header_accepted_def by simp
qed

section \<open>The start\<close>

text \<open>
  The start of the kernel by a loader. A compliant one has \<^verbatim>\<open>cmain\<close> called with its registers as arguments, with the interrupts closed, and with every byte
  of the memory as the loader left it but 12 at the top of the boot stack. Started in any other way the kernel stops: the reason is
  on the first row, \<open>Halted.\<close> on the second, nothing else is shown, the interrupts are closed, and only 16 bytes of the stack were written.
\<close>

theorem kernel_entry:
  shows "(eax = MULTIBOOT2_BOOTLOADER_MAGIC \<and> ebx AND 7 = 0 \<longrightarrow>
      (\<exists>b. (\<forall>x. 12 \<le> unat (x - (stack + MULTIBOOT_STACK_SIZE - 12)) \<longrightarrow> b x = kmem (krn (world m)) x) \<and>
         start_kernel stack ret msg ret2 eax ebx i m =
           cmain eax ebx (boot_symbols stack i) ((on_kernel (\<lambda>k. k\<lparr>kmem := b\<rparr>) m)\<lparr>interrupts_on := False\<rparr>))) \<and>
    (eax \<noteq> MULTIBOOT2_BOOTLOADER_MAGIC \<or> ebx AND 7 \<noteq> 0 \<longrightarrow>
      (\<exists>b v. (\<forall>x. 16 \<le> unat (x - (stack + MULTIBOOT_STACK_SIZE - 16)) \<longrightarrow> b x = kmem (krn (world m)) x) \<and>
         start_kernel stack ret msg ret2 eax ebx i m = Some (Refused ((on_screen (\<lambda>_. \<lparr>xpos = 7, ypos = 1, video = v\<rparr>)
           (on_kernel (\<lambda>k. k\<lparr>kmem := b\<rparr>) m))\<lparr>interrupts_on := False\<rparr>)) \<and>
         (\<forall>k < length (refusal eax ebx). v (2 * int k) = of_char (refusal eax ebx ! k)) \<and>
         (\<forall>k < 7. v (160 + 2 * int k) = of_char (''Halted.'' ! k)) \<and>
         (\<forall>j. 2 * int (length (refusal eax ebx)) \<le> j \<and> j < 3840 \<and> \<not> (160 \<le> j \<and> j < 174) \<longrightarrow> v j = 0)))"
proof -
  obtain esp eflags b where e: "boot_entry stack ret eax ebx (kmem (krn (world m))) = (esp, eflags, b)" by (metis prod_cases3)
  note B = boot_entry_stack [OF e]
  let ?m = "(on_kernel (\<lambda>k. k\<lparr>kmem := b\<rparr>) m)\<lparr>interrupts_on := False\<rparr>" and ?t = "stack + MULTIBOOT_STACK_SIZE"
  have run: "start_kernel stack ret msg ret2 eax ebx i m = (case cmain eax ebx (boot_symbols stack i) ?m of None \<Rightarrow> None
      | Some (Refused m) \<Rightarrow> map_option Refused (boot_halt (esp + 4) msg ret2 m) | Some r \<Rightarrow> Some r)"
    using e B(2,4,5) by (simp add: start_kernel_def)
  show ?thesis
  proof (intro conjI impI)
    assume c: "eax = MULTIBOOT2_BOOTLOADER_MAGIC \<and> ebx AND 7 = 0"
    have "start_kernel stack ret msg ret2 eax ebx i m = cmain eax ebx (boot_symbols stack i) ?m"
      using run cmain_compliant [of eax ebx "boot_symbols stack i" ?m] c by auto
    then show "\<exists>b. (\<forall>x. 12 \<le> unat (x - (?t - 12)) \<longrightarrow> b x = kmem (krn (world m)) x) \<and>
         start_kernel stack ret msg ret2 eax ebx i m =
           cmain eax ebx (boot_symbols stack i) ((on_kernel (\<lambda>k. k\<lparr>kmem := b\<rparr>) m)\<lparr>interrupts_on := False\<rparr>)"
      using B(6) unfolding B(1) by blast
  next
    assume c: "eax \<noteq> MULTIBOOT2_BOOTLOADER_MAGIC \<or> ebx AND 7 \<noteq> 0"
    let ?u = "refusal eax ebx"
    obtain v where v: "cmain eax ebx (boot_symbols stack i) ?m = Some (Refused (?m\<lparr>world := (world ?m)\<lparr>screen := \<lparr>xpos = 0, ypos = 1, video = v\<rparr>\<rparr>\<rparr>))"
      "\<forall>k < length ?u. v (2 * int k) = of_char (?u ! k) \<and> v (2 * int k + 1) = ATTRIBUTE" "\<forall>j. 2 * int (length ?u) \<le> j \<and> j < 3840 \<longrightarrow> v j = 0"
      using cmain_refuses [OF c, of "boot_symbols stack i" ?m] by blast
    define b' where "b' = store32 (?t - 16) ret2 (store32 (?t - 12) msg b)"
    have esp: "esp - 4 = ?t - 16" "esp = ?t - 12" unfolding B(1) by simp_all
    have "boot_halt (esp + 4) msg ret2 (?m\<lparr>world := (world ?m)\<lparr>screen := \<lparr>xpos = 0, ypos = 1, video = v\<rparr>\<rparr>\<rparr>) =
        Some ((on_screen (\<lambda>_. \<lparr>xpos = 7, ypos = 1, video = halted_row v\<rparr>) (on_kernel (\<lambda>k. k\<lparr>kmem := b'\<rparr>) m))\<lparr>interrupts_on := False\<rparr>)"
      by (simp add: boot_halt_def pushl_def printf_on_def printf_halted on_screen_def on_kernel_def esp(1) b'_def Let_def) (simp add: esp(2))
    then have "start_kernel stack ret msg ret2 eax ebx i m = Some (Refused ((on_screen (\<lambda>_. \<lparr>xpos = 7, ypos = 1, video = halted_row v\<rparr>)
           (on_kernel (\<lambda>k. k\<lparr>kmem := b'\<rparr>) m))\<lparr>interrupts_on := False\<rparr>))"
      using run v(1) by simp
    moreover have "b' x = kmem (krn (world m)) x" if "16 \<le> unat (x - (?t - 16))" for x
      using halt_memory [OF that] B(6) [of x] unfolding b'_def B(1) by simp
    ultimately show "\<exists>b v. (\<forall>x. 16 \<le> unat (x - (?t - 16)) \<longrightarrow> b x = kmem (krn (world m)) x) \<and>
         start_kernel stack ret msg ret2 eax ebx i m = Some (Refused ((on_screen (\<lambda>_. \<lparr>xpos = 7, ypos = 1, video = v\<rparr>)
           (on_kernel (\<lambda>k. k\<lparr>kmem := b\<rparr>) m))\<lparr>interrupts_on := False\<rparr>)) \<and>
         (\<forall>k < length ?u. v (2 * int k) = of_char (?u ! k)) \<and>
         (\<forall>k < 7. v (160 + 2 * int k) = of_char (''Halted.'' ! k)) \<and>
         (\<forall>j. 2 * int (length ?u) \<le> j \<and> j < 3840 \<and> \<not> (160 \<le> j \<and> j < 174) \<longrightarrow> v j = 0)"
      using v(2,3) refusal_line(1) [of eax ebx] by (intro exI [of _ b'] exI [of _ "halted_row v"]) (auto simp: halted_cells)
  qed
qed

end
