(* ===== verification/Fatal_props.thy ===== *)
theory Fatal_props
  imports Kernel_props Interrupt_wrappers Kformat_props
begin

text \<open>
  What is on the screen when the kernel halts: the message of a fatal error, cell by cell, on the last row and past its end on the first ones, and
  which message the unhandled exceptions and page faults give.
\<close>

section \<open>Text in the video memory\<close>

definition byte_of :: "char \<Rightarrow> u8" where "byte_of c = word_of_nat (of_char c)"

text \<open>The index of the cell under the cursor, and the text shown from a cell on.\<close>

definition cursor :: "console \<Rightarrow> int" where "cursor s = ypos s * COLUMNS + xpos s"

definition cells :: int where "cells = COLUMNS * LINES"

definition shown_at :: "int \<Rightarrow> u8 \<Rightarrow> string \<Rightarrow> console \<Rightarrow> bool" where
  "shown_at p a u s \<longleftrightarrow> (\<forall>i < length u. video s (2 * ((p + int i) mod cells)) = byte_of (u ! i) \<and> video s (2 * ((p + int i) mod cells) + 1) = a)"

text \<open>
  The cells of a message written from the first column of the last row: what does not fit in this row goes on in the first row of the screen.
\<close>

definition message_cell :: "nat \<Rightarrow> int" where
  "message_cell i = (if int i < COLUMNS then 23 * COLUMNS + int i else int i - COLUMNS)"

definition message_shown :: "u8 \<Rightarrow> string \<Rightarrow> console \<Rightarrow> bool" where
  "message_shown a u s \<longleftrightarrow> (\<forall>i < length u. video s (2 * message_cell i) = byte_of (u ! i) \<and> video s (2 * message_cell i + 1) = a)"

lemma message_shown_at:
  assumes "shown_at (23 * COLUMNS) a u s" and "int (length u) \<le> cells"
  shows "message_shown a u s"
proof -
  have "(23 * COLUMNS + int i) mod cells = message_cell i" if "i < length u" for i
  proof (cases "int i < COLUMNS")
    case True
    then show ?thesis by (simp add: message_cell_def cells_def COLUMNS_def LINES_def)
  next
    case False
    have e: "23 * COLUMNS + int i = (int i - COLUMNS) + cells" by (simp add: cells_def COLUMNS_def LINES_def)
    have "0 \<le> int i - COLUMNS" "int i - COLUMNS < cells" using False that assms(2) by (simp_all add: cells_def COLUMNS_def LINES_def)
    then show ?thesis using False unfolding e message_cell_def mod_add_self2 by (simp add: mod_pos_pos_trivial)
  qed
  then show ?thesis using assms(1) by (simp add: shown_at_def message_shown_def)
qed

definition plain :: "string \<Rightarrow> bool" where
  "plain u \<longleftrightarrow> (\<forall>c \<in> set u. c \<noteq> CHR 0x00 \<and> c \<noteq> CHR 0x0A \<and> c \<noteq> CHR 0x0D)"

lemma char_code: "ucast (int_of_char c AND 0xFF) = byte_of c" "int_of_char c = 10 \<longleftrightarrow> c = CHR 0x0A" "int_of_char c = 13 \<longleftrightarrow> c = CHR 0x0D"
proof -
  have m: "(0xff :: u32) = mask 8" by (simp add: mask_eq_exp_minus_1)
  show "ucast (int_of_char c AND 0xFF) = byte_of c"
    unfolding int_of_char_def byte_of_def m by (rule bit_word_eqI) (auto simp: bit_simps)
  have b: "ucast (int_of_char c) = byte_of c"
    unfolding int_of_char_def byte_of_def by (rule bit_word_eqI) (auto simp: bit_simps)
  have u: "unat (byte_of c) = of_char c"
    unfolding byte_of_def by (simp add: unsigned_of_nat take_bit_nat_eq_self)
  have d: "c = char_of (unat (ucast w :: u8))" if "int_of_char c = w" for w
    using b u that by (metis char_of_char)
  have n: "char_of (10 :: nat) = CHR 0x0A" "char_of (13 :: nat) = CHR 0x0D" by code_simp+
  have i: "int_of_char (CHR 0x0A) = 10" "int_of_char (CHR 0x0D) = 13" by code_simp+
  show "int_of_char c = 10 \<longleftrightarrow> c = CHR 0x0A" "int_of_char c = 13 \<longleftrightarrow> c = CHR 0x0D"
    using d [of 10] d [of 13] n i by auto
qed


lemma cursor_range: "cursor_ok s \<Longrightarrow> 0 \<le> cursor s \<and> cursor s < cells"
  by (simp add: cursor_ok_def cursor_def cells_def COLUMNS_def LINES_def)

lemma put_plain:
  assumes ok: "cursor_ok s" and c: "c \<noteq> CHR 0x0A" "c \<noteq> CHR 0x0D"
  shows "cursor_ok (put_cell a (int_of_char c) s)" "cursor (put_cell a (int_of_char c) s) = (cursor s + 1) mod cells"
    and "video (put_cell a (int_of_char c) s) = (video s)(2 * cursor s := byte_of c, 2 * cursor s + 1 := a)"
proof -
  have n: "int_of_char c \<noteq> 10" "int_of_char c \<noteq> 13" using c by (simp_all add: char_code)
  show "cursor_ok (put_cell a (int_of_char c) s)" using put_cell_step [OF ok] by (simp add: screen_step_def)
  have ch: "ucast (255 AND int_of_char c) = byte_of c" using char_code(1) [of c] by (simp add: and.commute)
  show "cursor (put_cell a (int_of_char c) s) = (cursor s + 1) mod cells"
  proof -
    have "ypos s < 23 \<or> ypos s = 23" "xpos s < 79 \<or> xpos s = 79"
      using ok by (auto simp: cursor_ok_def COLUMNS_def LINES_def)
    then show ?thesis
      using ok n by (auto simp: put_cell_def newline_def cursor_def cursor_ok_def cells_def COLUMNS_def LINES_def Let_def)
  qed
  show "video (put_cell a (int_of_char c) s) = (video s)(2 * cursor s := byte_of c, 2 * cursor s + 1 := a)"
    using n ch char_code(1) [of c] by (auto simp: put_cell_def newline_def cursor_def Let_def algebra_simps)
qed

text \<open>A text without control characters, no longer than the screen.\<close>

definition put_all :: "u8 \<Rightarrow> string \<Rightarrow> console \<Rightarrow> console" where
  "put_all a = fold (\<lambda>c. put_cell a (int_of_char c))"

lemma put_text:
  assumes "cursor_ok s" "plain u" "int (length u) \<le> cells"
  shows "cursor_ok (put_all a u s) \<and> cursor (put_all a u s) = (cursor s + int (length u)) mod cells \<and> shown_at (cursor s) a u (put_all a u s)"
  using assms(2,3)
proof (induction u rule: rev_induct)
  case Nil
  then show ?case using assms(1) cursor_range [OF assms(1)] by (simp add: put_all_def shown_at_def)
next
  case (snoc c u)
  have c: "c \<noteq> CHR 0x0A" "c \<noteq> CHR 0x0D" "plain u" "int (length u) < cells" using snoc.prems by (auto simp: plain_def)
  from snoc.IH c have IH: "cursor_ok (put_all a u s)" "cursor (put_all a u s) = (cursor s + int (length u)) mod cells" "shown_at (cursor s) a u (put_all a u s)"
    by simp_all
  have all: "put_all a (u @ [c]) s = put_cell a (int_of_char c) (put_all a u s)" by (simp add: put_all_def)
  note P = put_plain [OF IH(1) c(1,2), of a, folded all]
  have apart: "(cursor s + int i) mod cells \<noteq> (cursor s + int (length u)) mod cells" if "i < length u" for i
  proof
    assume "(cursor s + int i) mod cells = (cursor s + int (length u)) mod cells"
    then have "cells dvd int (length u) - int i" by (simp add: mod_eq_dvd_iff [symmetric] dvd_diff_commute)
      (metis add_diff_cancel_left mod_eq_dvd_iff)
    then show False using that c(4) by (auto dest: zdvd_imp_le)
  qed
  have parity: "2 * x \<noteq> 2 * y + 1" "2 * x + 1 \<noteq> 2 * y" for x y :: int by presburger+
  have "shown_at (cursor s) a (u @ [c]) (put_all a (u @ [c]) s)"
    using IH(3) apart unfolding shown_at_def P(3) IH(2) by (auto simp: nth_append less_Suc_eq parity)
  then show ?case using P(1,2) IH(2) by (simp add: mod_simps algebra_simps)
qed


section \<open>The message of a fatal error\<close>

lemma conversion_s: "conversion ''s'' = Some (False, 0, CHR ''s'', [])" "conversion (''s'' @ t) = Some (False, 0, CHR ''s'', t)"
  by (simp_all add: conversion.simps)

lemma printf_string: "printf (''%s'' @ [CHR 0x0A]) [Str (Some u)] c = Some (put_cell ATTRIBUTE 10 (put_all ATTRIBUTE u c))"
proof -
  have o: "putchar w = put_cell ATTRIBUTE w" for w by (rule ext) (simp add: putchar_def)
  have "int_of_char CHR 0x0A = 10" by (simp add: char_code)
  then show ?thesis using conversion_s(2) [of "[CHR 0x0A]"] by (simp add: printf_def put_padded_def put_all_def o)
qed

lemma os_printf_string: "os_printf y x a ''%s'' [Str (Some u)] c = Some (put_all a u (c\<lparr>xpos := x, ypos := y\<rparr>))"
proof -
  have o: "os_putchar (ypos s) (xpos s) a w s = put_cell a w s" for w s by (simp add: os_putchar_def)
  show ?thesis using conversion_s(1) by (simp add: os_printf_def put_padded_def put_all_def o)
qed

lemma put_newline: "shown_at p a u s \<Longrightarrow> shown_at p a u (put_cell b (int_of_char CHR 0x0A) s)"
  by (simp add: shown_at_def put_cell_def newline_def char_code Let_def)


lemma fatal_shown:
  assumes t: "format_text fmt ap = Some t" "length t < 2 ^ 32" and u: "take 255 t = u @ v" "v = [] \<or> v = [CHR 0x0A]" "plain u"
  shows "\<exists>c'. sos_display_fatal_error fmt ap c = Some c' \<and> shown_at (23 * COLUMNS) 12 u c' \<and>
    (cursor_ok c \<longrightarrow> (\<forall>i. i < 0 \<or> i \<ge> COLUMNS * LINES * 2 \<longrightarrow> video c' i = video c i))"
proof -
  have "\<forall>x \<in> set u. x \<noteq> CHR 0x00" using u(3) by (simp add: plain_def)
  moreover have "\<forall>x \<in> set v. x \<noteq> CHR 0x00" using u(2) by (elim disjE) simp_all
  ultimately have nul: "\<forall>x \<in> set (u @ v). x \<noteq> CHR 0x00" by (simp add: ball_Un)
  have s: "c_string (take 255 t @ [CHR 0x00]) = u @ v"
    using nul unfolding c_string_def u(1) by (simp add: takeWhile_append2)
  define p where "p = put_cell ATTRIBUTE 10 (put_all ATTRIBUTE (u @ v) c)"
  define c' where "c' = put_all 12 (u @ v) (p\<lparr>xpos := 0, ypos := 23\<rparr>)"
  have a: "ucast (BG_BLACK OR FG_LTRED) = (12 :: u8)" by code_simp
  have run: "sos_display_fatal_error fmt ap c = Some c'"
    using vsnprintf_text [OF t, of 256] by (simp add: sos_display_fatal_error_def s printf_string [unfolded append.simps] os_printf_string a p_def c'_def)
  have "length (take 255 t) \<le> 255" by simp
  then have l: "int (length u) \<le> cells" unfolding u(1) by (simp add: cells_def COLUMNS_def LINES_def)
  have ok: "cursor_ok (p\<lparr>xpos := 0, ypos := 23\<rparr>)" "cursor (p\<lparr>xpos := 0, ypos := 23\<rparr>) = 23 * COLUMNS"
    by (simp_all add: cursor_ok_def cursor_def COLUMNS_def LINES_def)
  note P = put_text [OF ok(1) u(3) l, where a = 12]
  have "shown_at (23 * COLUMNS) 12 u c'"
    using P u(2) put_newline [where b = 12] unfolding c'_def ok(2) by (auto simp: put_all_def)
  moreover have "video c' i = video c i" if c: "cursor_ok c" and i: "i < 0 \<or> i \<ge> COLUMNS * LINES * 2" for i
  proof -
    have "screen_step c p"
      using con.loop_step [OF c, of "''%s'' @ [CHR 0x0A]" "[Str (Some (u @ v))]"] printf_string by (simp add: printf_def p_def)
    moreover have "screen_step (p\<lparr>xpos := 0, ypos := 23\<rparr>) c'"
      using win.loop_step [OF ok(1), of 12 "''%s''" "[Str (Some (u @ v))]"] os_printf_string by (simp add: os_printf_def c'_def)
    ultimately show ?thesis using i by (auto simp: screen_step_def)
  qed
  ultimately show ?thesis using run by blast
qed

section \<open>The messages\<close>

lemma digits16_small: "n < 2 ^ 32 \<Longrightarrow> length (digits 16 n) \<le> 8"
proof -
  assume "n < 2 ^ 32"
  then have u: "unat (word_of_nat n :: u32) = n" by (intro unat_of_nat_small) simp
  have "length (strip xs) \<le> length xs" for xs by (induction xs) auto
  from this [of "map (nibble (word_of_nat n)) [0..<8]"] show ?thesis
    using strip_nibbles [of "word_of_nat n"] u digits.simps [of 16 0] by (auto split: if_splits)
qed

lemma plain_simps [simp]: "plain []" "plain (u @ v) \<longleftrightarrow> plain u \<and> plain v"
    "plain (d # u) \<longleftrightarrow> d \<noteq> CHR 0x00 \<and> d \<noteq> CHR 0x0A \<and> d \<noteq> CHR 0x0D \<and> plain u"
  by (auto simp: plain_def)

lemma hex_plain: "plain (hex_text n)"
proof -
  have "digit_char d \<noteq> CHR 0x00 \<and> digit_char d \<noteq> CHR 0x0A \<and> digit_char d \<noteq> CHR 0x0D" if "d < 16" for d
  proof -
    have "d \<in> set [0..<16]" using that by simp
    moreover have "\<forall>d \<in> set [0..<16]. digit_char d \<noteq> CHR 0x00 \<and> digit_char d \<noteq> CHR 0x0A \<and> digit_char d \<noteq> CHR 0x0D" by code_simp
    ultimately show ?thesis by blast
  qed
  then show ?thesis using digits_bound [of 16 _ n] by (auto simp: plain_def hex_text_def)
qed





section \<open>Properties\<close>

text \<open>
  A fatal error is displayed, whatever the state of the console: the first 255 characters of the formatted message are in the cells of the last row from its
  first column, in light red, and go on in the first rows when they do not fit. If the cursor was inside the screen nothing outside of the video
  memory is written.
\<close>

theorem fatal_error_displayed:
  assumes "format_text fmt ap = Some t" "length t < 2 ^ 32" and "take 255 t = u @ v" "v = [] \<or> v = [CHR 0x0A]" "plain u"
  shows "\<exists>c'. sos_display_fatal_error fmt ap c = Some c' \<and> shown_at (23 * COLUMNS) 12 u c' \<and>
    (cursor_ok c \<longrightarrow> (\<forall>i. i < 0 \<or> i \<ge> COLUMNS * LINES * 2 \<longrightarrow> video c' i = video c i))"
  by (rule fatal_shown [OF assms])

theorem fatal_error_displayed_witness:
  "\<forall>c. \<exists>c'. sos_display_fatal_error ''lost %d'' [Num 7] c = Some c' \<and> video c' 3680 = 108 \<and> video c' 3681 = 12 \<and> video c' 3690 = 55"
proof
  fix c
  have t: "format_text ''lost %d'' [Num 7] = Some ''lost 7''"
    by (simp add: dec_text_def digits.simps [of 10 7]) code_simp
  have p: "length ''lost 7'' < 2 ^ 32" "take 255 ''lost 7'' = ''lost 7'' @ []" "plain ''lost 7''" by (simp_all add: plain_def)
  have b: "byte_of CHR ''l'' = 108" "byte_of CHR ''7'' = 55" by code_simp+
  obtain c' where c': "sos_display_fatal_error ''lost %d'' [Num 7] c = Some c'" "shown_at (23 * COLUMNS) 12 ''lost 7'' c'"
    using fatal_error_displayed [OF t p(1,2) _ p(3), of c] by auto
  then show "\<exists>c'. sos_display_fatal_error ''lost %d'' [Num 7] c = Some c' \<and> video c' 3680 = 108 \<and> video c' 3681 = 12 \<and> video c' 3690 = 55"
    using b c'(2) [unfolded shown_at_def, rule_format, of 0] c'(2) [unfolded shown_at_def, rule_format, of 5]
    by (intro exI [of _ c']) (simp add: COLUMNS_def LINES_def cells_def)
qed



section \<open>Page faults outside of every range\<close>

text \<open>The backtrace changes nothing but the screen, and always returns.\<close>

lemma on_screen_twice: "on_screen f (on_screen g m) = on_screen (\<lambda>c. f (g c)) m"
  by (simp add: on_screen_def)

lemma printf_ok: "printf_text fmt args = Some t \<Longrightarrow> \<exists>c. printf_on fmt args m = Some (on_screen (\<lambda>_. c) m)"
  by (simp add: printf_on_def printf_def printf_loop_text) blast

lemma os_printf_ok: "printf_text fmt args = Some t \<Longrightarrow> \<exists>c'. os_printf y x a fmt args c = Some c'"
  by (simp add: os_printf_def printf_loop_text)

lemma conversion_dx: "conversion (CHR ''d'' # r) = Some (False, 0, CHR ''d'', r)" "conversion (CHR ''x'' # r) = Some (False, 0, CHR ''x'', r)"
  by (simp_all add: conversion.simps)

lemma frame_texts:
  "\<exists>t. printf_text (''[%d] PC=0x%x arg1=0x%x arg2=0x%x arg3=0x%x'' @ [CHR 0x0A]) [Num d, Num p, Num a, Num b, Num e] = Some t"
  "\<exists>t. printf_text ''[%d] PC=0x%x arg1=0x%x arg2=0x%x arg3=0x%x arg4=0x%x'' [Num d, Num p, Num a, Num b, Num e, Num f] = Some t"
  by (simp_all add: conversion_dx)

lemma backtracer_screen: "\<exists>c. backtracer b n oc ob fr m = Some (on_screen (\<lambda>_. c) m)"
proof -
  obtain p params d where fr: "fr = (p, params, d)" by (metis prod_cases3)
  have self: "m = on_screen (\<lambda>_. screen (world m)) m" by (simp add: on_screen_def)
  have os: "\<exists>c'. os_printf y x a ''[%d] PC=0x%x arg1=0x%x arg2=0x%x arg3=0x%x arg4=0x%x''
      [Num d, Num p, Num w1, Num w2, Num w3, Num w4] c = Some c'" for y x a d p w1 w2 w3 w4 c
    using frame_texts(2) os_printf_ok by blast
  have pr: "\<exists>c. printf_on (''[%d] PC=0x%x arg1=0x%x arg2=0x%x arg3=0x%x'' @ [CHR 0x0A]) [Num d, Num p, Num w1, Num w2, Num w3] m
      = Some (on_screen (\<lambda>_. c) m)" for d p w1 w2 w3
    using frame_texts(1) printf_ok by blast
  let ?d = "word_of_nat d" and ?w = "\<lambda>k. frame_arg b n (params + k) (kmem (krn (world m)))"
  obtain c1 where 1: "(if ob then printf_on (''[%d] PC=0x%x arg1=0x%x arg2=0x%x arg3=0x%x'' @ [CHR 0x0A]) [Num ?d, Num p, Num (?w 0), Num (?w 4), Num (?w 8)] m
      else Some m) = Some (on_screen (\<lambda>_. c1) m)"
  proof (cases ob)
    case True
    then show thesis using that pr [of ?d p "?w 0" "?w 4" "?w 8"] by auto
  next
    case False
    then show thesis using that [of "screen (world m)"] self by simp
  qed
  obtain c2 where 2: "(if oc then do {
      c \<leftarrow> os_printf (23 - int d) 3 (ucast (BG_BLUE OR FG_LTGREEN)) ''[%d] PC=0x%x arg1=0x%x arg2=0x%x arg3=0x%x arg4=0x%x''
        [Num ?d, Num p, Num (?w 0), Num (?w 4), Num (?w 8), Num (?w 12)] c1;
      Some (on_screen (\<lambda>_. c) (on_screen (\<lambda>_. c1) m)) } else Some (on_screen (\<lambda>_. c1) m)) = Some (on_screen (\<lambda>_. c2) m)"
  proof (cases oc)
    case True
    then show thesis using that os [of "23 - int d" 3 "ucast (BG_BLUE OR FG_LTGREEN)" ?d p "?w 0" "?w 4" "?w 8" "?w 12" c1]
      by (auto simp: on_screen_twice)
  next
    case False
    then show thesis using that [of c1] by simp
  qed
  have s: "screen (world (on_screen (\<lambda>_. c1) m)) = c1" by (simp add: on_screen_def)
  show ?thesis unfolding backtracer_def fr prod.case Let_def 1 bind.bind_lunit s 2 by blast
qed

lemma backtrace_screen: "\<exists>c. fold_opt (backtracer b n oc ob) frs m = Some (on_screen (\<lambda>_. c) m)"
proof (induction frs arbitrary: m)
  case Nil
  have "m = on_screen (\<lambda>_. screen (world m)) m" by (simp add: on_screen_def)
  then show ?case by auto
next
  case (Cons fr frs)
  obtain c where c: "backtracer b n oc ob fr m = Some (on_screen (\<lambda>_. c) m)" using backtracer_screen by blast
  obtain c' where "fold_opt (backtracer b n oc ob) frs (on_screen (\<lambda>_. c) m) = Some (on_screen (\<lambda>_. c') (on_screen (\<lambda>_. c) m))"
    using Cons.IH by blast
  then show ?case using c by (auto simp: on_screen_twice)
qed

definition page_fault_message :: "u32 \<Rightarrow> u32 \<Rightarrow> u32 \<Rightarrow> string" where
  "page_fault_message pc addr info = ''Unresolved page Fault at instruction 0x'' @ hex_text (unat pc) @ '' on access to address 0x'' @
     hex_text (unat addr) @ '' (info='' @ hex_text (unat info) @ '')!''"

lemma page_fault_shown:
  assumes "sos_cpu_context_get_PC ctxt (kmem (krn (world m))) = Some pc" "sos_cpu_context_get_EX_info ctxt (kmem (krn (world m))) = Some info"
  shows "\<exists>c. pgflt_fatal bottom len cr2 ctxt m = Some ((on_screen (\<lambda>_. c) m)\<lparr>interrupts_on := False\<rparr>) \<and>
    message_shown 12 (page_fault_message pc cr2 info) c"
proof -
  let ?u = "page_fault_message pc cr2 info"
  have l: "length (hex_text (unat w)) \<le> 8" for w :: u32
    using digits16_small [of "unat w"] unsigned_less [of w, where 'a = nat] by (simp add: hex_text_def)
  have l: "length ?u \<le> 120" using l [of pc] l [of cr2] l [of info] by (simp add: page_fault_message_def)
  then have short: "length ?u < 2 ^ 32" "take 255 ?u = ?u @ []" by simp_all
  have plain: "plain ?u" using hex_plain by (simp add: page_fault_message_def)
  have msg: "format_text ''Unresolved page Fault at instruction 0x%x on access to address 0x%x (info=%x)!'' [Num pc, Num cr2, Num info] = Some ?u"
    by (simp add: page_fault_message_def)
  obtain c where c: "dump_backtrace ctxt bottom len True True m = Some (on_screen (\<lambda>_. c) m)"
    using backtrace_screen unfolding dump_backtrace_def by blast
  obtain c' where "sos_display_fatal_error ''Unresolved page Fault at instruction 0x%x on access to address 0x%x (info=%x)!''
      [Num pc, Num cr2, Num info] c = Some c'" "shown_at (23 * COLUMNS) 12 ?u c'"
    using fatal_shown [OF msg short _ plain, of c] by auto
  moreover from this(2) have "message_shown 12 ?u c'"
    by (rule message_shown_at) (use l in \<open>simp add: cells_def COLUMNS_def LINES_def\<close>)
  ultimately show ?thesis using c assms by (intro exI [of _ c']) (simp add: pgflt_fatal_def on_screen_def)
qed


text \<open>
  C21: A page fault that demand paging repairs is invisible to the code that made it. From the wrapper through the handler and back, every register of the
  stopped code is restored, its instruction pointer included, and this instruction now finds a page at the address, for reading and for writing.
\<close>

theorem page_fault_restarts:
  assumes "can_page_in cr2 (alloc m)"
    and entry: "exception_wrapper_entry 14 code r m0 s = Some (esp, called, kmem (krn (world m)))" and fits: "64 \<le> r_esp r"
  shows "\<exists>m'. pgflt_ex cr2 (load32 (kmem (krn (world m))) (esp + 4)) m = Some m' \<and>
    exception_wrapper_exit esp (kmem (krn (world m'))) = r \<and> (\<forall>w. mmu_translate w (pg (alloc m')) cr2 \<noteq> None)"
proof -
  obtain p m1 g m2 where P: "sos_kmem_vmm_is_valid_vaddr cr2 (alloc m) = Some True"
    "sos_physmem_ref_physpage_new False (phys (pg (alloc m))) = Some (p, m1)" "p \<noteq> 0"
    "sos_paging_map p (SOS_PAGE_ALIGN_INF cr2) False SOS_PGFLT_FLAGS ((pg (alloc m))\<lparr>phys := m1\<rparr>) = Some (SOS_OK, g)"
    "sos_physmem_unref_physpage p (phys g) = Some (FALSE_ret, m2)"
    "\<forall>w. mmu_translate w (g\<lparr>phys := m2\<rparr>) cr2 = Some (p + virt_to_page_offset cr2)"
    by (rule page_in [OF assms(1)])
  let ?M = "on_screen (display_bits 0 0 (ucast (FG_LTRED OR BG_BLUE)) (demand_paging_count m + 1)) (m\<lparr>demand_paging_count := demand_paging_count m + 1\<rparr>)"
  let ?m = "?M\<lparr>alloc := (alloc m)\<lparr>pg := g\<lparr>phys := m2\<rparr>\<rparr>\<rparr>"
  have run: "pgflt_ex cr2 c m = Some ?m" for c
    using P(1-5) by (simp add: pgflt_ex_def sos_cpu_context_get_EX_faulting_vaddr_def sos_assert_fatal_def on_screen_def)
  have same: "kmem (krn (world ?m)) = kmem (krn (world m))" "pg (alloc ?m) = g\<lparr>phys := m2\<rparr>" by (simp_all add: on_screen_def)
  note f = exception_entry_frame [OF entry, of "r_esp r - 56", simplified]
  have esp: "esp \<le> r_esp r - 56" "esp + 8 = r_esp r - 56" using fits by (simp_all add: f(1) word_le_nat_alt unat_sub)
  have "exception_wrapper_exit esp (kmem (krn (world m))) = r"
    unfolding exception_wrapper_exit_def esp(2)
    by (rule same_frame [OF fits order_refl esp(1) _ exception_seen(6) [OF entry fits]]) simp
  then show ?thesis using run same P(6) by (intro exI [of _ ?m]) simp
qed

theorem page_fault_restarts_witness:
  "\<exists>m m' ctxt. pgflt_ex 0x5050 ctxt m = Some m' \<and> mmu_translate True (pg (alloc m)) 0x5050 = None \<and>
     mmu_translate True (pg (alloc m')) 0x5050 \<noteq> None \<and> restore_context ctxt (kmem (krn (world m'))) = example_interrupted"
proof -
  let ?r = example_interrupted
  obtain esp p m1 where e: "exception_wrapper_entry 14 2 ?r mem_example reset_intr = Some (esp, p, m1)"
    by (rule exception_entry_ex [of 14]) simp_all
  let ?m = "on_kernel (\<lambda>k. k\<lparr>kmem := m1\<rparr>) (example_machine page_in_alloc)"
  have a: "alloc ?m = page_in_alloc" "kmem (krn (world ?m)) = m1" by (simp_all add: on_kernel_def example_machine_def)
  have r: "64 \<le> r_esp ?r" by (simp add: example_interrupted_def)
  have x: "load32 m1 (esp + 4) = esp + 8"
    using exception_seen(2) [OF e r] exception_entry_frame(1) [OF e, of "r_esp ?r - 56"] by simp
  have "\<not> present (ram (pg page_in_alloc) (cr3 (pg page_in_alloc) + 4 * virt_to_pd_index 0x5050))"
    using has_pt_iff [of "0x5050" pg_example] pg_example_wf(3) page_in_example by (simp add: page_in_alloc_def can_page_in_def)
  then have t: "mmu_translate True (pg page_in_alloc) 0x5050 = None" by (simp add: mmu_translate_def Let_def)
  obtain m' where m': "pgflt_ex 0x5050 (load32 m1 (esp + 4)) ?m = Some m'" "exception_wrapper_exit esp (kmem (krn (world m'))) = ?r"
      "\<forall>w. mmu_translate w (pg (alloc m')) 0x5050 \<noteq> None"
    using page_fault_restarts [of "0x5050" ?m 2 ?r mem_example reset_intr esp p, unfolded a, OF page_in_example e r] by auto
  then have "restore_context (load32 m1 (esp + 4)) (kmem (krn (world m'))) = ?r" by (simp add: exception_wrapper_exit_def x)
  then show ?thesis using m'(1,3) t by (intro exI [of _ ?m] exI [of _ m'] exI [of _ "load32 m1 (esp + 4)"]) (simp add: a)
qed

text \<open>
  C34: A page fault at an address that no page table maps and that is outside of every used range halts the kernel, and says why: the handler does not return,
  and whatever the stack holds for the backtrace, the screen then shows the address of the instruction that the exception stopped, the address it accessed and
  the error code, in light red. The message starts at the first column of the last row; its characters past the 80th, if it has as
  many, are in the first row, and so is the whole error code when each address has six digits. Nothing but the screen has changed, and the interrupts are off. The ranges are assumed well formed, and 64 bytes to
  be left on the stack.
\<close>

theorem page_fault_displayed:
  assumes "ranges_wf (range_at (alloc m)) (free_ranges (alloc m)) (used_ranges (alloc m))"
    and "sos_paging_get_paddr cr2 (pg (alloc m)) = Some 0" "\<not> used_page (alloc m) cr2"
    and entry: "exception_wrapper_entry 14 code r m0 s = Some (esp, called, kmem (krn (world m)))" and "64 \<le> r_esp r"
  shows "let ctxt = load32 (kmem (krn (world m))) (esp + 4) in
    pgflt_ex cr2 ctxt m = None \<and>
    (\<exists>c. pgflt_fatal bottom len cr2 ctxt m = Some ((on_screen (\<lambda>_. c) m)\<lparr>interrupts_on := False\<rparr>) \<and>
       message_shown 12 (page_fault_message (r_eip r) cr2 code) c)"
proof -
  note seen = exception_seen [OF entry assms(5)]
  have "sos_kmem_vmm_is_valid_vaddr cr2 (alloc m) = Some False"
    using lookup_unmapped(2) [OF assms(1,2)] assms(3) by (simp add: sos_kmem_vmm_is_valid_vaddr_def used_page_def)
  then have "pgflt_ex cr2 c m = None" for c by (simp add: pgflt_ex_def sos_cpu_context_get_EX_faulting_vaddr_def sos_assert_fatal_def)
  then show ?thesis
    using page_fault_shown [OF seen(3) seen(5), of bottom len cr2] seen(2) by (simp add: has_error_code_def)
qed

theorem page_fault_displayed_witness:
  "\<exists>m ctxt c. pgflt_ex 0x600000 ctxt m = None \<and> pgflt_fatal 0x8000 0x1000 0x600000 ctxt m = Some ((on_screen (\<lambda>_. c) m)\<lparr>interrupts_on := False\<rparr>) \<and>
     video c 3680 = 85 \<and> video c 3681 = 12 \<and> video c 4 = 50"
proof -
  let ?r = example_interrupted
  obtain esp p m1 where e: "exception_wrapper_entry 14 2 ?r mem_example reset_intr = Some (esp, p, m1)"
    by (rule exception_entry_ex [of 14]) simp_all
  let ?m = "on_kernel (\<lambda>k. k\<lparr>kmem := m1\<rparr>) (example_machine page_in_alloc)"
  have a: "alloc ?m = page_in_alloc" "kmem (krn (world ?m)) = m1" by (simp_all add: on_kernel_def example_machine_def)
  have wf: "ranges_wf (range_at page_in_alloc) (free_ranges page_in_alloc) (used_ranges page_in_alloc)" "paging_wf (pg page_in_alloc)"
    using page_in_example by (simp_all add: can_page_in_def)
  have i: "\<not> in_mirror 0x600000" by code_simp
  have "\<not> present (ram pg_example (cr3 pg_example + 4 * virt_to_pd_index 0x600000))" using has_pt_iff [OF i, of pg_example] pg_example_wf(3) by simp
  then have "mmu_translate False (pg page_in_alloc) 0x600000 = None" by (simp add: page_in_alloc_def mmu_translate_def Let_def)
  then have g: "sos_paging_get_paddr 0x600000 (pg page_in_alloc) = Some 0" using get_paddr_mirror [OF wf(2), of "0x600000"] by simp
  have u: "\<not> used_page page_in_alloc 0x600000"
    by (simp add: page_in_alloc_def km_example_def covers_def used_page_def r_start_def r_end_def)
  have r: "64 \<le> r_esp ?r" by (simp add: example_interrupted_def)
  obtain c where c: "pgflt_ex 0x600000 (load32 m1 (esp + 4)) ?m = None"
      "pgflt_fatal 0x8000 0x1000 0x600000 (load32 m1 (esp + 4)) ?m = Some ((on_screen (\<lambda>_. c) ?m)\<lparr>interrupts_on := False\<rparr>)"
      "message_shown 12 (page_fault_message (r_eip ?r) 0x600000 2) c"
    using page_fault_displayed [of ?m "0x600000" 2 ?r mem_example reset_intr esp p, unfolded a, OF wf(1) g u e r, of "0x8000" "0x1000"]
    by (auto simp: Let_def)
  let ?u = "page_fault_message (r_eip ?r) 0x600000 2"
  have u: "r_eip ?r = 0x201234" "0 < length ?u" "?u ! 0 = CHR ''U''" by (simp_all add: page_fault_message_def example_interrupted_def)
  have "digits 16 2101812 = [2, 0, 1, 2, 3, 4]" "digits 16 6291456 = [6, 0, 0, 0, 0, 0]" "digits 16 2 = [2]"
    by (simp_all add: digits.simps [of 16 2101812] digits.simps [of 16 131363] digits.simps [of 16 8210] digits.simps [of 16 513]
        digits.simps [of 16 32] digits.simps [of 16 2] digits.simps [of 16 6291456] digits.simps [of 16 393216]
        digits.simps [of 16 24576] digits.simps [of 16 1536] digits.simps [of 16 96] digits.simps [of 16 6])
  then have hex: "hex_text 2101812 = map digit_char [2, 0, 1, 2, 3, 4]" "hex_text 6291456 = map digit_char [6, 0, 0, 0, 0, 0]" "hex_text 2 = [digit_char 2]"
    by (simp_all add: hex_text_def)
  have two: "digit_char 2 = CHR ''2''" by code_simp
  have v: "82 < length (page_fault_message 0x201234 0x600000 2)" "page_fault_message 0x201234 0x600000 2 ! 82 = CHR ''2''"
    by (simp_all add: page_fault_message_def hex two)
  have b: "byte_of CHR ''U'' = 85" "byte_of CHR ''2'' = 50" by code_simp+
  have "video c 3680 = 85" "video c 3681 = 12"
    using b c(3) [unfolded message_shown_def, rule_format, OF u(2)] by (simp_all add: u(3) message_cell_def COLUMNS_def)
  moreover have "video c 4 = 50"
    using b v(2) c(3) [unfolded u(1) message_shown_def, rule_format, OF v(1)] by (simp add: message_cell_def COLUMNS_def)
  ultimately have "video c 3680 = 85" "video c 3681 = 12" "video c 4 = 50" by simp_all
  then show ?thesis using c(1,2) by blast
qed

end
