(* ===== verification/Spec2Isabelle.thy ===== *)
theory Spec2Isabelle
  imports Physmem Ktime Cpu_context Paging_setup Ksystem_stale Kmem_free_props Kformat_props Interrupts_props Mouse_world Multiboot_props Boot_entry Fatal_props
begin

text \<open>
  SaghirOS is a small kernel for 32-bit x86 machines, written in C: a boot loader starts \<^verbatim>\<open>cmain\<close>, which sets up the descriptor tables,
  the interrupt and timer chips, the physical pages, the page tables, the memory allocators and the threads, and then runs a demonstration, mice
  that look for cheese in a map, as kernel threads that share it under a semaphore. This development translates the C code into
  definitions, one group per source file and one definition per function, and proves what makes each part correct.

  \<^bold>\<open>The parts, from the bottom up.\<close>

  \<^item> \<open>SOS_Base\<close>: the prelude. Machine integers are words of their width, return codes are integers, alignment is that of \<^verbatim>\<open>os/macros.h\<close>. An
    assertion that fails and a fatal error are the value \<open>None\<close> of an option, as is code that does not return.
  \<^item> \<open>Circular_List\<close> (\<^verbatim>\<open>os/list.h\<close>): the list macros on the links of the nodes, and plain lists that they refine. The locale
    \<open>intrusive_list\<close> is the contract of a doubly linked list, interpreted on the macros; the rest of the development uses plain lists.
  \<^item> \<open>Klibc\<close> (\<^verbatim>\<open>lib/klibc.c\<close>): the byte memory of the machine and the memory and string routines on it. \<open>Kformat\<close> and
    \<open>Kformat_props\<close> (\<^verbatim>\<open>lib/klibc.c\<close>, \<^verbatim>\<open>lib/stdio.c\<close>): formatted output in a buffer and on the text console; the locale \<open>character_output\<close> is
    what \<^verbatim>\<open>printf\<close> needs of the function that puts a character, interpreted on both that the code has.
  \<^item> \<open>Physmem\<close> (\<^verbatim>\<open>os/physmem.c\<close>): the descriptors of the physical pages and their reference counts; the locale
    \<open>page_counter\<close> is what its clients may rely on.
  \<^item> \<open>Paging\<close>, \<open>Paging_tables\<close>, \<open>Paging_props\<close>, \<open>Paging_setup\<close> (\<^verbatim>\<open>hwcore/paging.c\<close>): the page directory and page tables in physical memory, which the code reads and writes
    through the entry of the directory that points to itself, and the translation that the MMU does with them.
  \<^item> \<open>Kmem\<close>, \<open>Kmem_setup\<close>, \<open>Kmem_layout\<close>, \<open>Kmem_props\<close>, \<open>Kmem_free\<close>, \<open>Kmem_free_props\<close> (\<^verbatim>\<open>os/kmem_vmm.c\<close>, \<^verbatim>\<open>os/kmem_slab.c\<close>, \<^verbatim>\<open>os/kmalloc.c\<close>): ranges of virtual pages, slab caches of
    objects and \<^verbatim>\<open>kmalloc\<close>, which call each other.
  \<^item> \<open>Cpu_context\<close> (\<^verbatim>\<open>hwcore/cpu_context.c\<close>, \<^verbatim>\<open>hwcore/cpu_context_switch.S\<close>): the saved context of a thread in the byte memory of its stack.
  \<^item> \<open>Ktime\<close> (\<^verbatim>\<open>os/time.c\<close>): dates and timeout actions; the locale \<open>date_order\<close> is the contract of the comparison of dates.
  \<^item> \<open>Kthread\<close> (\<^verbatim>\<open>os/thread.c\<close>, \<^verbatim>\<open>os/sched.c\<close>), \<open>Ksynch\<close> (\<^verbatim>\<open>os/kwaitq.c\<close>, \<^verbatim>\<open>os/ksynch.c\<close>): threads, the ready queue, wait queues, semaphores and mutexes. A routine that
    blocks is cut at the context switch into a \<open>begin\<close> and an \<open>end\<close> part, each run with the interrupts disabled. The creation of a thread is
    cut where it enables them; its end, \<^verbatim>\<open>sos_sched_set_ready\<close>, is one step although the code calls it with the interrupts enabled.
  \<^item> \<open>Ksystem\<close>, \<open>Ksystem_calls\<close>, \<open>Ksystem_steps\<close>, \<open>Ksystem_props\<close>, \<open>Ksystem_stale\<close>: the threads together, as the relation \<open>sys_step\<close> whose steps
    are those parts and the timer ticks, in any order. Any thread may call any public routine: unlock a mutex that it does not hold, add entries of
    its own to wait queues and remove them. The state counts the unlocks that the code accepts from a thread that no longer holds the mutex, as \<open>stale\<close>.
  \<^item> \<open>Interrupts\<close>, \<open>Interrupts_props\<close> (\<^verbatim>\<open>hwcore/gdt.c\<close>, \<^verbatim>\<open>hwcore/idt.c\<close>, \<^verbatim>\<open>hwcore/i8259.c\<close>, \<^verbatim>\<open>hwcore/i8254.c\<close>, \<^verbatim>\<open>hwcore/irq.c\<close>,
    \<^verbatim>\<open>hwcore/exception.c\<close>): the descriptor tables, the chips behind their ports, and the tables of routines.
  \<^item> \<open>Interrupt_wrappers\<close> (\<^verbatim>\<open>hwcore/irq_wrappers.S\<close>, \<^verbatim>\<open>hwcore/exception_wrappers.S\<close>): the entry and the exit of the wrappers around a
    routine, and \<open>handler_run\<close>, a routine with the interrupts and exceptions that arrive during it, to any depth. The wrapper of the
    double fault, which halts without a call, is a definition of its own. The gates get the words of \<^verbatim>\<open>sos_exception_wrapper_array\<close> as it is in the
    image, 31 of them, and the word that follows it.
  \<^item> \<open>Fatal_errors\<close>, \<open>Fatal_props\<close> (\<^verbatim>\<open>os/assert.c\<close>, \<^verbatim>\<open>hwcore/exception.c\<close>): the messages with which the kernel halts.
  \<^item> \<open>Multiboot\<close>, \<open>Multiboot_props\<close> (\<^verbatim>\<open>include/multiboot2.h\<close>, \<^verbatim>\<open>os/mbi.c\<close>): the walk over the information of the boot loader.
  \<^item> \<open>Mouse_sim\<close>, \<open>Mouse_moves\<close>, \<open>Mouse_world\<close> (\<^verbatim>\<open>os/mouse_sim.c\<close>): the demonstration, and \<open>mouse_step\<close>, the turns of its threads in any order.
  \<^item> \<open>Kernel_main\<close>, \<open>Kernel_props\<close>, \<open>Kernel_boot\<close> (\<^verbatim>\<open>os/kernel.c\<close>): the machine with the states of all the parts, the clock and page
    fault handlers, and the boot.
  \<^item> \<open>Boot_entry\<close> (\<^verbatim>\<open>boot/boot.S\<close>): the header of the image, and the instructions around the call of \<^verbatim>\<open>cmain\<close>.

  \<^bold>\<open>What is shown.\<close>

  \<^item> Threads: in every reachable state one thread runs and each other ready one is in the ready queue once; the holders of a mutex are at
    most one more than its stale unlocks, and without any the holder is the owner; a semaphore counts its downs and ups; a wake-up takes the threads of a
    queue in order, or never ends when it meets an entry of the thread that calls it. The invariant \<open>sys_inv\<close> of \<open>Ksystem_props\<close> carries
    these, with one lemma per routine in \<open>Ksystem_steps\<close>. Errors of the code are theorems as well: an unlock that leaves
    its owner behind, a run that ends with two holders of a mutex (\<open>exclusion_lost\<close>), a wake-up that never ends.
  \<^item> Memory: \<open>pm_wf\<close> says that the lists and the counts of the physical pages agree, \<open>paging_wf\<close> that the tables agree with the counts; the
    two set-ups establish them from the sizes that the loader gives, with the kernel and the hardware mapped at their own addresses. Mapping
    and unmapping change one translation and keep the rest, the software walk agrees with the MMU, and a page fault on a valid
    address is repaired. New ranges are carved out of free ones, objects of a slab do not overlap, freeing undoes allocating, and what is
    not an object is refused. The relation \<open>frees\<close> of \<open>Kmem_free\<close> says what the calls that free do together, with the ranges that wait in
    between: no page is lost, given twice or made used. The structures of the ranges are assumed to be in slabs that hold their own
    descriptor, as their cache is created.
  \<^item> Time: a tick runs exactly the actions that are due, in the order of their dates, and returns. An action is inserted at
    its date; the comments of \<^verbatim>\<open>os/time.h\<close> say always, the code refuses a date in the past.
  \<^item> Contexts: a switch away and back restores every register; a new thread starts in its function with its argument. So does the exit
    of a wrapper, whatever was nested in the routine: the code that a page fault stopped runs its instruction again, with a page behind the address.
  \<^item> Halts: an unhandled exception and a page fault outside of every range show their message, cell by cell; past the
    80 columns of the last row it goes on at the first row. The gates 28 to 30 lead to the wrapper of the next exception, and the message names that one.
  \<^item> Output, boot and hardware: what is written and where; which gates, routines and lines are open when the interrupts are enabled, the page fault
    handler bound; when
    the walk over the boot information returns, and when it never does.
  \<^item> Mice: whatever the order of the turns, the map stays well formed and the counts are those of the cells; a turn changes the cells that
    it may.

  \<^bold>\<open>Bounds.\<close> The loops of the code that need not end are \<open>partial_function (option)\<close>, so that not returning is \<open>None\<close>: the traversals of a
  list that is not circular, the wake-up of a queue, strings without an end, the walk over the tags. That they return is
  proved under the conditions stated with them. The circle of the allocators, an object that needs a slab that needs a range that needs an object, is one too, without a bound on its depth. Loops with a counter recurse on
  it: the 1024 entries of a table, the 15 frames of a backtrace, the 256 gates.

  \<^bold>\<open>Not modelled.\<close>

  \<^item> The linker script and the build files: what the linker decides, and the addresses of the functions and of the labels, are parameters (\<open>boot_input\<close>, the
    wrappers of \<open>Interrupts\<close>, the return addresses of \<open>Boot_entry\<close>). The stack frames of the C functions are not in the memory of the
    model, the contexts and the arguments that assembly code pushes are.
  \<^item> The TLB: \<^verbatim>\<open>invlpg\<close> has no effect, and each access uses the tables as they are. The caches of segments likewise.
  \<^item> The contents of the objects of the allocators: the structures of the kernel are records at their addresses. The allocations that a thread, a
    mouse or a timer makes are inputs of the operation that makes them, null when there is no memory.
  \<^item> The devices: the bytes sent to a port are a log, and what a port reads back is a function of this log, of which the theorems assume
    only that the mask registers of the interrupt controllers read back the last byte written.
  \<^item> Code that the repository declares and does not contain: the functions of \<^verbatim>\<open>lib/x86_videomem.h\<close>, user programs.
\<close>

end
